(* ===== verification/HpcPrelude.thy ===== *)
theory HpcPrelude
  imports Main "HOL-Library.Word" "HOL-Library.Monad_Syntax"
begin

unbundle bit_operations_syntax

text \<open>
  The vocabulary shared by every component: machine integers, exceptions, the slots of raw
  storage in which objects are constructed and destroyed, counted loops and ring walks,
  and the representation predicates that relate a buffer to the list it holds.

  Conventions. An operation that could reach undefined behaviour (a read of a slot with no
  live object, an access out of bounds, the destruction of a dead object, a construction
  over a live object of a type with a destructor) returns \<open>'r option\<close> and is \<open>None\<close>
  there; every component proves that its operations are never \<open>None\<close> under its
  invariant. A C++ exception is a value \<open>Inl e\<close> of the result.
\<close>

section \<open>Machine integers and exceptions\<close>

type_synonym usize = "64 word"

datatype exn = Overflow_error | Underflow_error | Out_of_range | Bad_alloc | Runtime_error | Element_error

named_theorems slot_simps \<open>evaluation of slot operations\<close>

section \<open>Slots: raw storage and object lifetime\<close>

text \<open>
  A buffer of raw storage for \<open>n\<close> objects of type \<open>T\<close> is a list of \<open>n\<close> slots; a slot
  holds a live object (\<open>Some\<close>) or raw bytes (\<open>None\<close>). What the code uses of \<open>T\<close> is
  collected in a record: whether \<open>T\<close> is trivially copyable
  (\<open>std::is_trivially_copyable_v\<close>), and the value a moved-from object is left with.
\<close>

type_synonym 'a slots = "'a option list"

record 'a elem_type =
  is_trivial :: bool
  residue :: "'a \<Rightarrow> 'a"

definition moved_from :: "'a elem_type \<Rightarrow> 'a \<Rightarrow> 'a" where
  "moved_from ty x = (if is_trivial ty then x else residue ty x)"

definition slot_read :: "nat \<Rightarrow> 'a slots \<Rightarrow> 'a option" where
  "slot_read i m = (if i < length m then m ! i else None)"

definition slot_construct :: "'a elem_type \<Rightarrow> nat \<Rightarrow> 'a \<Rightarrow> 'a slots \<Rightarrow> 'a slots option" where
  "slot_construct ty i x m =
     (if i < length m \<and> (is_trivial ty \<or> m ! i = None) then Some (m[i := Some x]) else None)"

definition slot_destroy :: "'a elem_type \<Rightarrow> nat \<Rightarrow> 'a slots \<Rightarrow> 'a slots option" where
  "slot_destroy ty i m =
     (if is_trivial ty then Some m
      else if i < length m \<and> m ! i \<noteq> None then Some (m[i := None]) else None)"

text \<open>\<open>std::move(*p)\<close> used as a source: the value read, and the moved-from object left behind.\<close>

definition slot_move :: "'a elem_type \<Rightarrow> nat \<Rightarrow> 'a slots \<Rightarrow> ('a \<times> 'a slots) option" where
  "slot_move ty i m = do {
     x \<leftarrow> slot_read i m;
     Some (x, m[i := Some (moved_from ty x)])
   }"

text \<open>\<open>std::memcpy\<close> and \<open>std::memmove\<close> of \<open>n\<close> objects (the source is read as a whole first).\<close>

definition slot_memcpy :: "'a slots \<Rightarrow> nat \<Rightarrow> 'a slots \<Rightarrow> nat \<Rightarrow> nat \<Rightarrow> 'a slots option" where
  "slot_memcpy dst d src s n =
     (if s + n \<le> length src \<and> d + n \<le> length dst
      then Some (take d dst @ take n (drop s src) @ drop (d + n) dst) else None)"

lemma slot_readI [slot_simps]: "i < length m \<Longrightarrow> slot_read i m = m ! i"
  by (simp add: slot_read_def)

lemma slot_constructI [slot_simps]:
  "i < length m \<Longrightarrow> is_trivial ty \<or> m ! i = None \<Longrightarrow> slot_construct ty i x m = Some (m[i := Some x])"
  by (auto simp: slot_construct_def)

lemma slot_destroyI [slot_simps]:
  "i < length m \<Longrightarrow> m ! i = Some x \<Longrightarrow>
   slot_destroy ty i m = Some (if is_trivial ty then m else m[i := None])"
  by (auto simp: slot_destroy_def)

lemma slot_moveI [slot_simps]:
  "i < length m \<Longrightarrow> m ! i = Some x \<Longrightarrow>
   slot_move ty i m = Some (x, m[i := Some (moved_from ty x)])"
  by (auto simp: slot_move_def slot_read_def)

lemma slot_construct_length: "slot_construct ty i x m = Some m' \<Longrightarrow> length m' = length m"
  by (auto simp: slot_construct_def split: if_splits)

lemma slot_destroy_length: "slot_destroy ty i m = Some m' \<Longrightarrow> length m' = length m"
  by (auto simp: slot_destroy_def split: if_splits)

lemma moved_from_trivial [simp]: "is_trivial ty \<Longrightarrow> moved_from ty x = x"
  by (simp add: moved_from_def)

section \<open>Unsigned arithmetic\<close>

named_theorems unat_simps \<open>reading word arithmetic as natural numbers\<close>

lemma unat_lt_usize [simp]: "unat (x :: usize) < 18446744073709551616"
  using unsigned_less [of x] by simp

text \<open>Sizes that the model keeps as natural numbers below \<open>2^64\<close>: results and differences wrap around.\<close>

definition size_wrap :: "nat \<Rightarrow> nat" where
  "size_wrap n = n mod 2 ^ 64"

definition size_minus :: "nat \<Rightarrow> nat \<Rightarrow> nat" where
  "size_minus a b = (a + 2 ^ 64 - b) mod 2 ^ 64"

lemma size_wrap_small [simp]: "n < 2 ^ 64 \<Longrightarrow> size_wrap n = n"
  by (simp add: size_wrap_def)

lemma size_minus_small [simp]:
  assumes "b \<le> a" "a < 2 ^ 64"
  shows "size_minus a b = a - b"
proof -
  have "a + 2 ^ 64 - b = (a - b) + 2 ^ 64" using assms(1) by linarith
  then have "size_minus a b = (a - b) mod 2 ^ 64" unfolding size_minus_def by (simp only: mod_add_self2)
  also have "\<dots> = a - b" by (rule mod_less) (use assms(2) in linarith)
  finally show ?thesis .
qed

lemma unat_add_small [unat_simps]:
  "unat (a :: usize) + unat b < 2 ^ 64 \<Longrightarrow> unat (a + b) = unat a + unat b"
  by (simp add: unat_word_ariths)

lemma unat_plus1 [unat_simps]:
  assumes "(i :: usize) < n"
  shows "unat (i + 1) = Suc (unat i)"
proof -
  have "unat i < unat n" using assms by (simp add: word_less_nat_alt)
  moreover have "unat n < 2 ^ 64" by simp
  ultimately have "unat i + 1 < 2 ^ 64" by linarith
  then have "unat i + unat (1 :: usize) < 2 ^ 64" by (simp only: unat_1)
  then show ?thesis by (simp only: unat_add_small) simp
qed

lemma unat_minus1 [unat_simps]: "(i :: usize) \<noteq> 0 \<Longrightarrow> unat (i - 1) = unat i - 1"
  by (simp add: unat_minus_one)

lemma unat_of_nat_usize [unat_simps]: "k < 2 ^ 64 \<Longrightarrow> unat (of_nat k :: usize) = k"
  by (simp add: unat_of_nat)

lemma usize_eq_iff: "(a :: usize) = b \<longleftrightarrow> unat a = unat b"
  by (rule word_unat_eq_iff)

section \<open>Loops\<close>

text \<open>\<open>for (size_t i = lo; i < hi; ++i) body\<close>\<close>

function for_range :: "usize \<Rightarrow> usize \<Rightarrow> (usize \<Rightarrow> 's \<Rightarrow> 's option) \<Rightarrow> 's \<Rightarrow> 's option" where
  "for_range i n body s =
     (if i < n then Option.bind (body i s) (for_range (i + 1) n body) else Some s)"
  by pat_completeness auto
termination
  by (relation "measure (\<lambda>(i, n, body, s). unat n - unat i)")
     (auto simp: unat_simps word_less_nat_alt)

declare for_range.simps [simp del]

text \<open>
  The loop's proof rule: \<open>P k s\<close> says what holds of the state when \<open>i = k\<close>. The loop ends,
  without a fault, in a state with \<open>P hi\<close>.
\<close>

lemma for_range_rule:
  assumes "unat lo \<le> unat hi" "P (unat lo) s"
    and step: "\<And>i s. unat lo \<le> unat i \<Longrightarrow> i < hi \<Longrightarrow> P (unat i) s \<Longrightarrow>
                 \<exists>s'. body i s = Some s' \<and> P (Suc (unat i)) s'"
  shows "\<exists>s'. for_range lo hi body s = Some s' \<and> P (unat hi) s'"
  using assms
proof (induction lo hi body s rule: for_range.induct)
  case (1 i n body s)
  show ?case
  proof (cases "i < n")
    case True
    then obtain s' where s': "body i s = Some s'" "P (Suc (unat i)) s'"
      using "1.prems" by blast
    have "\<exists>s''. for_range (i + 1) n body s' = Some s'' \<and> P (unat n) s''"
      using "1.IH" [OF True, of s'] "1.prems"(3) s' True
      by (simp add: unat_simps word_less_nat_alt)
    with s' True show ?thesis by (simp add: for_range.simps [of i])
  next
    case False
    with "1.prems"(1,2) show ?thesis
      by (simp add: for_range.simps [of i] word_less_nat_alt)
  qed
qed

text \<open>
  \<open>for (size_t i = from; i != to; i = next(i)) body\<close>, as the circular buffers walk their
  elements. It is \<open>None\<close> also when the walk never meets \<open>to\<close>.
\<close>

partial_function (option) ring_walk ::
  "(usize \<Rightarrow> usize) \<Rightarrow> usize \<Rightarrow> usize \<Rightarrow> (usize \<Rightarrow> 's \<Rightarrow> 's option) \<Rightarrow> 's \<Rightarrow> 's option" where
  "ring_walk next_index i t body s =
     (if i = t then Some s
      else Option.bind (body i s) (ring_walk next_index (next_index i) t body))"

declare ring_walk.simps [code]

text \<open>If the walk meets \<open>to\<close> after exactly \<open>n\<close> steps, it ends, without a fault, in \<open>P n\<close>.\<close>

lemma ring_walk_rule:
  assumes "idx n = t" "\<And>k. k < n \<Longrightarrow> idx k \<noteq> t" "\<And>k. k < n \<Longrightarrow> next_index (idx k) = idx (Suc k)"
    and "P j s" "j \<le> n"
    and step: "\<And>k s. j \<le> k \<Longrightarrow> k < n \<Longrightarrow> P k s \<Longrightarrow> \<exists>s'. body (idx k) s = Some s' \<and> P (Suc k) s'"
  shows "\<exists>s'. ring_walk next_index (idx j) t body s = Some s' \<and> P n s'"
  using \<open>j \<le> n\<close> \<open>P j s\<close> step
proof (induction "n - j" arbitrary: j s)
  case 0
  then show ?case using assms(1) by (subst ring_walk.simps) simp
next
  case (Suc d)
  then have j: "j < n" by simp
  then obtain s' where s': "body (idx j) s = Some s'" "P (Suc j) s'"
    using Suc.prems by blast
  have "\<exists>s''. ring_walk next_index (idx (Suc j)) t body s' = Some s'' \<and> P n s''"
    using Suc.hyps s' Suc.prems by simp
  with j s' show ?case
    by (subst ring_walk.simps) (simp add: assms(2,3))
qed

text \<open>
  \<open>for (size_t i = lo; i < hi; ++i) if (!test(i)) return false; return true\<close>, as the
  comparison operators do.
\<close>

function all_range :: "usize \<Rightarrow> usize \<Rightarrow> (usize \<Rightarrow> bool option) \<Rightarrow> bool option" where
  "all_range i n test =
     (if i < n then Option.bind (test i) (\<lambda>ok. if ok then all_range (i + 1) n test else Some False)
      else Some True)"
  by pat_completeness auto
termination
  by (relation "measure (\<lambda>(i, n, test). unat n - unat i)")
     (auto simp: unat_simps word_less_nat_alt)

declare all_range.simps [simp del]

lemma all_range_eq:
  assumes "\<And>i. unat lo \<le> unat i \<Longrightarrow> i < hi \<Longrightarrow> test i = Some (Q (unat i))"
  shows "all_range lo hi test = Some (\<forall>k. unat lo \<le> k \<and> k < unat hi \<longrightarrow> Q k)"
  using assms
proof (induction lo hi test rule: all_range.induct)
  case (1 i n test)
  show ?case
  proof (cases "i < n")
    case True
    have u: "unat (i + 1) = Suc (unat i)" using True by (rule unat_plus1)
    then have "\<And>k. unat (i + 1) \<le> unat k \<Longrightarrow> k < n \<Longrightarrow> test k = Some (Q (unat k))"
      using "1.prems" by simp
    note next_prems = this
    have IH: "all_range (i + 1) n test = Some (\<forall>k. Suc (unat i) \<le> k \<and> k < unat n \<longrightarrow> Q k)"
      if "Q (unat i)"
    proof -
      have "test i = Some True" using that True "1.prems" by simp
      from "1.IH" [OF True this TrueI next_prems] show ?thesis unfolding u .
    qed
    have split: "(\<forall>k. unat i \<le> k \<and> k < unat n \<longrightarrow> Q k) \<longleftrightarrow>
          Q (unat i) \<and> (\<forall>k. Suc (unat i) \<le> k \<and> k < unat n \<longrightarrow> Q k)"
    proof -
      have "unat i \<le> k \<longleftrightarrow> k = unat i \<or> Suc (unat i) \<le> k" for k by auto
      moreover have "unat i < unat n" using True by (simp add: word_less_nat_alt)
      ultimately show ?thesis by auto
    qed
    have "test i = Some (Q (unat i))" using True "1.prems" by simp
    then show ?thesis
      using IH True split by (cases "Q (unat i)") (simp_all add: all_range.simps [of i])
  next
    case False
    then have "unat n \<le> unat i" by (simp add: word_less_nat_alt)
    then have "(\<forall>k. unat i \<le> k \<and> k < unat n \<longrightarrow> Q k) \<longleftrightarrow> True" by auto
    moreover have "all_range i n test = Some True"
      using False by (simp add: all_range.simps [of i])
    ultimately show ?thesis by (simp only:)
  qed
qed

text \<open>\<open>while (n > 0) { --n; body(n); }\<close>\<close>

function for_down :: "usize \<Rightarrow> (usize \<Rightarrow> 's \<Rightarrow> 's option) \<Rightarrow> 's \<Rightarrow> 's option" where
  "for_down n body s =
     (if 0 < n then Option.bind (body (n - 1) s) (for_down (n - 1) body) else Some s)"
  by pat_completeness auto
termination
  by (relation "measure (\<lambda>(n, body, s). unat n)") (auto simp: unat_simps unat_gt_0)

declare for_down.simps [simp del]

lemma for_down_rule:
  assumes "P (unat n) s"
    and "\<And>i s. i < n \<Longrightarrow> P (Suc (unat i)) s \<Longrightarrow> \<exists>s'. body i s = Some s' \<and> P (unat i) s'"
  shows "\<exists>s'. for_down n body s = Some s' \<and> P 0 s'"
  using assms
proof (induction n body s rule: for_down.induct)
  case (1 n body s)
  show ?case
  proof (cases "0 < n")
    case True
    then have n: "Suc (unat (n - 1)) = unat n" "n - 1 < n"
      by (auto simp: unat_simps unat_gt_0 word_less_nat_alt)
    then obtain s' where s': "body (n - 1) s = Some s'" "P (unat (n - 1)) s'"
      using "1.prems" by metis
    have "\<exists>s''. for_down (n - 1) body s' = Some s'' \<and> P 0 s''"
      using "1.IH" [OF True, of s'] s' "1.prems"(2) n by (meson order.strict_trans)
    with s' True show ?thesis by (simp add: for_down.simps [of n])
  next
    case False
    then have "n = 0" by (simp add: word_gt_0)
    with "1.prems"(1) show ?thesis by (simp add: for_down.simps [of 0])
  qed
qed

text \<open>A loop whose body runs for each item of a list, in order.\<close>

fun run_each :: "('i \<Rightarrow> 's \<Rightarrow> 's option) \<Rightarrow> 'i list \<Rightarrow> 's \<Rightarrow> 's option" where
  "run_each body [] s = Some s"
| "run_each body (i # is) s = Option.bind (body i s) (run_each body is)"

lemma run_each_append:
  "run_each body (xs @ ys) s = Option.bind (run_each body xs s) (run_each body ys)"
  by (induction xs arbitrary: s) (auto split: bind_splits)

text \<open>The proof rule for a loop that counts up from \<open>lo\<close>.\<close>

lemma run_each_upt:
  assumes "lo \<le> hi" "P lo s"
    and "\<And>k s. lo \<le> k \<Longrightarrow> k < hi \<Longrightarrow> P k s \<Longrightarrow> \<exists>s'. body k s = Some s' \<and> P (Suc k) s'"
  shows "\<exists>s'. run_each body [lo..<hi] s = Some s' \<and> P hi s'"
  using assms
proof (induction "hi - lo" arbitrary: lo s)
  case 0
  then show ?case by simp
next
  case (Suc n)
  then have "lo < hi" by simp
  then obtain s1 where s1: "body lo s = Some s1" "P (Suc lo) s1" using Suc.prems by blast
  have "\<exists>s'. run_each body [Suc lo..<hi] s1 = Some s' \<and> P hi s'"
    using Suc.hyps(2) s1(2) \<open>lo < hi\<close> Suc.prems(3) by (intro Suc.hyps(1)) auto
  with s1(1) \<open>lo < hi\<close> show ?case by (simp add: upt_conv_Cons)
qed

section \<open>Operands\<close>

text \<open>
  The right-hand side of an assignment is the object itself (\<open>this == &rhs\<close>) or another
  object.
\<close>

datatype 's operand = Self | Other 's

section \<open>Sequences of operations\<close>

text \<open>Run a fallible step over a list of inputs, collecting the outputs.\<close>

fun run_ops :: "('i \<Rightarrow> 's \<Rightarrow> ('o \<times> 's) option) \<Rightarrow> 'i list \<Rightarrow> 's \<Rightarrow> ('o list \<times> 's) option" where
  "run_ops step [] s = Some ([], s)"
| "run_ops step (i # is) s = do {
     (out, s') \<leftarrow> step i s;
     (outs, s'') \<leftarrow> run_ops step is s';
     Some (out # outs, s'')
   }"

text \<open>A forward simulation between two step functions extends to every run.\<close>

lemma run_ops_simulation:
  assumes step: "\<And>i c a. R c a \<Longrightarrow>
      \<exists>out c' a'. cstep i c = Some (out, c') \<and> astep i a = Some (out, a') \<and> R c' a'"
    and "R c a"
  shows "\<exists>outs c' a'. run_ops cstep is c = Some (outs, c') \<and>
           run_ops astep is a = Some (outs, a') \<and> R c' a'"
  using \<open>R c a\<close>
proof (induction "is" arbitrary: c a)
  case Nil
  then show ?case by simp
next
  case (Cons i "is")
  obtain out c1 a1 where 1: "cstep i c = Some (out, c1)" "astep i a = Some (out, a1)" "R c1 a1"
    using step [OF Cons.prems] by blast
  then obtain outs c2 a2 where "run_ops cstep is c1 = Some (outs, c2)"
      "run_ops astep is a1 = Some (outs, a2)" "R c2 a2"
    using Cons.IH by blast
  with 1 show ?case by simp
qed

section \<open>Representation of a list by a buffer\<close>

text \<open>
  \<open>lin_rep ty xs m\<close>: the first slots of \<open>m\<close> hold \<open>xs\<close>, and, for a type with a
  destructor, every further slot is raw.
\<close>

definition lin_rep :: "'a elem_type \<Rightarrow> 'a list \<Rightarrow> 'a slots \<Rightarrow> bool" where
  "lin_rep ty xs m \<longleftrightarrow> length xs \<le> length m \<and>
     (\<forall>i < length xs. m ! i = Some (xs ! i)) \<and>
     (\<not> is_trivial ty \<longrightarrow> (\<forall>i. length xs \<le> i \<and> i < length m \<longrightarrow> m ! i = None))"

text \<open>
  \<open>ring_rep ty h xs m\<close>: the circular buffer \<open>m\<close> holds \<open>xs\<close> from slot \<open>h\<close> on,
  wrapping around at its length, and, for a type with a destructor, nothing else.
\<close>

definition ring_pos :: "'a slots \<Rightarrow> nat \<Rightarrow> nat \<Rightarrow> nat" where
  "ring_pos m h k = (h + k) mod length m"

definition ring_rep :: "'a elem_type \<Rightarrow> nat \<Rightarrow> 'a list \<Rightarrow> 'a slots \<Rightarrow> bool" where
  "ring_rep ty h xs m \<longleftrightarrow> length xs \<le> length m \<and> h < length m \<and>
     (\<forall>k < length xs. m ! ring_pos m h k = Some (xs ! k)) \<and>
     (\<not> is_trivial ty \<longrightarrow> (\<forall>k. length xs \<le> k \<and> k < length m \<longrightarrow> m ! ring_pos m h k = None))"

subsection \<open>Linear buffers\<close>

lemma lin_repD:
  assumes "lin_rep ty xs m"
  shows "length xs \<le> length m" "i < length xs \<Longrightarrow> m ! i = Some (xs ! i)"
  using assms by (auto simp: lin_rep_def)

lemma lin_rep_raw: "lin_rep ty xs m \<Longrightarrow> length xs \<le> i \<Longrightarrow> i < length m \<Longrightarrow> is_trivial ty \<or> m ! i = None"
  by (auto simp: lin_rep_def)

lemma lin_rep_replicate [simp]: "lin_rep ty [] (replicate n None)"
  by (simp add: lin_rep_def)

text \<open>A write at the end, a destruction of the last element, a change of one element.\<close>

lemma lin_rep_push:
  assumes "lin_rep ty xs m" "length xs < length m"
  shows "slot_construct ty (length xs) x m = Some (m[length xs := Some x])"
    and "lin_rep ty (xs @ [x]) (m[length xs := Some x])"
  using assms by (auto simp: lin_rep_def slot_construct_def nth_append nth_list_update less_Suc_eq)

lemma lin_rep_pop:
  assumes "lin_rep ty (xs @ [x]) m"
  shows "slot_read (length xs) m = Some x"
    and "slot_move ty (length xs) m = Some (x, m[length xs := Some (moved_from ty x)])"
    and "\<exists>m'. slot_destroy ty (length xs) m = Some m' \<and> length m' = length m \<and> lin_rep ty xs m'"
    and "\<exists>m'. slot_destroy ty (length xs) (m[length xs := Some y]) = Some m' \<and>
           length m' = length m \<and> lin_rep ty xs m'"
proof -
  have m: "length xs < length m" "m ! length xs = Some x"
    using lin_repD [OF assms] by auto
  then show "slot_read (length xs) m = Some x"
    "slot_move ty (length xs) m = Some (x, m[length xs := Some (moved_from ty x)])"
    by (simp_all add: slot_simps)
  have old: "\<And>i. i < length xs \<Longrightarrow> m ! i = Some (xs ! i)"
    using lin_repD(2) [OF assms] by (auto simp: nth_append)
  have raw: "\<And>i. \<not> is_trivial ty \<Longrightarrow> length xs < i \<Longrightarrow> i < length m \<Longrightarrow> m ! i = None"
    using assms by (auto simp: lin_rep_def)
  show "\<exists>m'. slot_destroy ty (length xs) m = Some m' \<and> length m' = length m \<and> lin_rep ty xs m'"
    using m old raw by (auto simp: slot_simps lin_rep_def nth_list_update)
  show "\<exists>m'. slot_destroy ty (length xs) (m[length xs := Some y]) = Some m' \<and>
          length m' = length m \<and> lin_rep ty xs m'"
    using m old raw by (auto simp: slot_destroy_def lin_rep_def nth_list_update)
qed

lemma lin_rep_update:
  "lin_rep ty xs m \<Longrightarrow> i < length xs \<Longrightarrow> lin_rep ty (xs[i := y]) (m[i := Some y])"
  by (auto simp: lin_rep_def nth_list_update)

lemma lin_rep_contents: "lin_rep ty xs m \<Longrightarrow> map the (take (length xs) m) = xs"
  by (auto simp: lin_rep_def intro!: nth_equalityI)

subsection \<open>Live slots as a partial map\<close>

text \<open>
  \<open>slots_hold ty f m\<close>: exactly the slots in the domain of \<open>f\<close> hold an object, with the
  value \<open>f\<close> gives (a slot outside may hold stale bytes when \<open>T\<close> is trivially copyable).
  The loops that relocate objects are specified with it.
\<close>

definition elem_at :: "'a list \<Rightarrow> nat \<Rightarrow> 'a option" where
  "elem_at xs i = (if i < length xs then Some (xs ! i) else None)"

definition slots_hold :: "'a elem_type \<Rightarrow> (nat \<Rightarrow> 'a option) \<Rightarrow> 'a slots \<Rightarrow> bool" where
  "slots_hold ty f m \<longleftrightarrow>
     (\<forall>i. (f i \<noteq> None \<longrightarrow> i < length m \<and> m ! i = f i) \<and>
          (f i = None \<and> i < length m \<and> \<not> is_trivial ty \<longrightarrow> m ! i = None))"

lemma elem_at_simps [simp]:
  "i < length xs \<Longrightarrow> elem_at xs i = Some (xs ! i)" "length xs \<le> i \<Longrightarrow> elem_at xs i = None"
  by (simp_all add: elem_at_def)

lemma lin_rep_hold: "lin_rep ty xs m \<longleftrightarrow> slots_hold ty (elem_at xs) m"
proof
  assume "slots_hold ty (elem_at xs) m"
  moreover from this have "length xs \<le> length m"
    unfolding slots_hold_def elem_at_def
    by (metis (no_types, lifting) linorder_not_less option.distinct(1) order_less_irrefl)
  ultimately show "lin_rep ty xs m" by (auto simp: slots_hold_def lin_rep_def elem_at_def)
qed (auto simp: slots_hold_def lin_rep_def elem_at_def)

lemma hold_read: "slots_hold ty f m \<Longrightarrow> f i = Some x \<Longrightarrow> slot_read i m = Some x"
  unfolding slots_hold_def slot_read_def by (metis option.distinct(1))

lemma hold_construct:
  assumes "slots_hold ty f m" "f i = None" "i < length m"
  shows "slot_construct ty i x m = Some (m[i := Some x])" "slots_hold ty (f(i := Some x)) (m[i := Some x])"
  using assms by (auto simp: slots_hold_def slot_construct_def nth_list_update)

lemma hold_destroy:
  assumes "slots_hold ty f m" "f i = Some x"
  shows "slot_destroy ty i m = Some (if is_trivial ty then m else m[i := None])"
    "slots_hold ty (f(i := None)) (if is_trivial ty then m else m[i := None])"
proof -
  have "i < length m" "m ! i = Some x" using assms by (auto simp: slots_hold_def)
  with assms show "slot_destroy ty i m = Some (if is_trivial ty then m else m[i := None])"
    "slots_hold ty (f(i := None)) (if is_trivial ty then m else m[i := None])"
    by (auto simp: slots_hold_def slot_destroy_def nth_list_update)
qed

lemma hold_update:
  assumes "slots_hold ty f m" "f i = Some x"
  shows "slots_hold ty (f(i := Some y)) (m[i := Some y])"
  using assms by (auto simp: slots_hold_def nth_list_update)

lemma hold_move:
  assumes "slots_hold ty f m" "f i = Some x"
  shows "slot_move ty i m = Some (x, m[i := Some (moved_from ty x)])"
    "slots_hold ty (f(i := Some (moved_from ty x))) (m[i := Some (moved_from ty x)])"
  using hold_read [OF assms] hold_update [OF assms] by (auto simp: slot_move_def)

lemma hold_cong: "slots_hold ty f m \<Longrightarrow> f = g \<Longrightarrow> slots_hold ty g m"
  by simp

section \<open>Element-wise loops\<close>

text \<open>Copy construction and move construction of the first \<open>n\<close> elements, index by index.\<close>

definition copy_elems :: "'a elem_type \<Rightarrow> usize \<Rightarrow> 'a slots \<Rightarrow> 'a slots \<Rightarrow> 'a slots option" where
  "copy_elems ty n src =
     for_range 0 n (\<lambda>i dst. do {
       x \<leftarrow> slot_read (unat i) src;
       slot_construct ty (unat i) x dst
     })"

definition move_elems :: "'a elem_type \<Rightarrow> usize \<Rightarrow> 'a slots \<times> 'a slots \<Rightarrow> ('a slots \<times> 'a slots) option" where
  "move_elems ty n =
     for_range 0 n (\<lambda>i (dst, src). do {
       (x, src') \<leftarrow> slot_move ty (unat i) src;
       dst' \<leftarrow> slot_construct ty (unat i) x dst;
       Some (dst', src')
     })"

text \<open>Relocation of one object: move-construct it at \<open>j\<close>, then destroy the source at \<open>i\<close>.\<close>

definition slot_transfer :: "'a elem_type \<Rightarrow> nat \<Rightarrow> nat \<Rightarrow> 'a slots \<times> 'a slots \<Rightarrow> ('a slots \<times> 'a slots) option" where
  "slot_transfer ty j i = (\<lambda>(dst, src). do {
     (x, src1) \<leftarrow> slot_move ty i src;
     dst' \<leftarrow> slot_construct ty j x dst;
     src2 \<leftarrow> slot_destroy ty i src1;
     Some (dst', src2)
   })"

lemma hold_transfer:
  assumes "slots_hold ty f src" "f i = Some x" "slots_hold ty g dst" "g j = None" "j < length dst"
  shows "\<exists>src'. slot_transfer ty j i (dst, src) = Some (dst[j := Some x], src') \<and>
           length src' = length src \<and> slots_hold ty (f(i := None)) src' \<and>
           slots_hold ty (g(j := Some x)) (dst[j := Some x])"
  using hold_move [OF assms(1,2)] hold_construct [OF assms(3-5), of x]
    hold_destroy [OF hold_move(2) [OF assms(1,2)], of i "moved_from ty x"]
  by (auto simp: slot_transfer_def)

lemma copy_elems_rep:
  assumes "lin_rep ty xs src" "lin_rep ty [] dst" "unat n = length xs" "length xs \<le> length dst"
  shows "\<exists>dst'. copy_elems ty n src dst = Some dst' \<and> length dst' = length dst \<and> lin_rep ty xs dst'"
proof -
  have "\<exists>d. copy_elems ty n src dst = Some d \<and>
          (length d = length dst \<and> lin_rep ty (take (unat n) xs) d)"
    unfolding copy_elems_def
  proof (rule for_range_rule)
    fix i d
    assume i: "i < n" and d: "length d = length dst \<and> lin_rep ty (take (unat i) xs) d"
    then have "unat i < length xs" using assms(3) by (simp add: word_less_nat_alt)
    moreover from this have "slot_read (unat i) src = Some (xs ! unat i)"
      using assms(1) hold_read [of ty "elem_at xs" src "unat i"] by (simp add: lin_rep_hold)
    ultimately show "\<exists>d'. (do { x \<leftarrow> slot_read (unat i) src; slot_construct ty (unat i) x d }) = Some d' \<and>
        (length d' = length dst \<and> lin_rep ty (take (Suc (unat i)) xs) d')"
      using d assms(4) lin_rep_push [of ty "take (unat i) xs" d "xs ! unat i"]
      by (auto simp: take_Suc_conv_app_nth min_absorb2)
  qed (use assms in simp_all)
  with assms(3) show ?thesis by simp
qed

lemma move_elems_rep:
  assumes "lin_rep ty xs src" "lin_rep ty [] dst" "unat n = length xs" "length xs \<le> length dst"
  shows "\<exists>dst' src'. move_elems ty n (dst, src) = Some (dst', src') \<and> length dst' = length dst \<and>
           length src' = length src \<and> lin_rep ty xs dst' \<and> lin_rep ty (map (moved_from ty) xs) src'"
proof -
  define P where "P k ds \<longleftrightarrow> length (fst ds) = length dst \<and> length (snd ds) = length src \<and>
      lin_rep ty (take k xs) (fst ds) \<and>
      lin_rep ty (map (moved_from ty) (take k xs) @ drop k xs) (snd ds)" for k ds
  have "\<exists>ds. move_elems ty n (dst, src) = Some ds \<and> P (unat n) ds"
    unfolding move_elems_def
  proof (rule for_range_rule)
    fix i ds
    assume "i < n" and P: "P (unat i) ds"
    then have i: "unat i < length xs" using assms(3) by (simp add: word_less_nat_alt)
    obtain d s where ds: "ds = (d, s)" by fastforce
    let ?ys = "map (moved_from ty) (take (unat i) xs) @ drop (unat i) xs"
    have ys: "?ys ! unat i = xs ! unat i" "unat i < length ?ys" using i by (auto simp: nth_append)
    have s: "slots_hold ty (elem_at ?ys) s" "lin_rep ty ?ys s" using P ds by (auto simp: P_def lin_rep_hold)
    have "lin_rep ty (?ys[unat i := moved_from ty (xs ! unat i)]) (s[unat i := Some (moved_from ty (xs ! unat i))])"
      by (rule lin_rep_update [OF s(2) ys(2)])
    moreover have "?ys[unat i := moved_from ty (xs ! unat i)] =
        map (moved_from ty) (take (Suc (unat i)) xs) @ drop (Suc (unat i)) xs"
      using i by (simp add: list_update_append take_Suc_conv_app_nth Cons_nth_drop_Suc [symmetric])
    ultimately show "\<exists>ds'. (case ds of (d, s) \<Rightarrow> do {
          (x, s') \<leftarrow> slot_move ty (unat i) s; d' \<leftarrow> slot_construct ty (unat i) x d; Some (d', s') }) = Some ds' \<and>
        P (Suc (unat i)) ds'"
      using ds P i ys assms(4) hold_move(1) [OF s(1), of "unat i"]
        lin_rep_push [of ty "take (unat i) xs" d "xs ! unat i"]
      by (auto simp: P_def take_Suc_conv_app_nth min_absorb2)
  qed (use assms in \<open>simp_all add: P_def\<close>)
  with assms(3) show ?thesis by (auto simp: P_def)
qed

text \<open>Destroying a range of objects from the top down.\<close>

lemma destroy_down_rep:
  assumes "lin_rep ty xs m" "unat n = length xs"
  shows "\<exists>m'. for_down n (\<lambda>i. slot_destroy ty (unat i)) m = Some m' \<and> length m' = length m \<and>
           lin_rep ty [] m'"
proof -
  have "\<exists>m'. for_down n (\<lambda>i. slot_destroy ty (unat i)) m = Some m' \<and>
          (length m' = length m \<and> lin_rep ty (take 0 xs) m')"
  proof (rule for_down_rule)
    fix i d
    assume "i < n" and d: "length d = length m \<and> lin_rep ty (take (Suc (unat i)) xs) d"
    then have "unat i < length xs" using assms(2) by (simp add: word_less_nat_alt)
    then show "\<exists>d'. slot_destroy ty (unat i) d = Some d' \<and>
        (length d' = length m \<and> lin_rep ty (take (unat i) xs) d')"
      using d lin_rep_pop(3) [of ty "take (unat i) xs" "xs ! unat i" d]
      by (auto simp: take_Suc_conv_app_nth min_absorb2)
  qed (use assms in simp)
  then show ?thesis by simp
qed

subsection \<open>Circular buffers\<close>

lemma ring_pos_less: "h < length m \<Longrightarrow> ring_pos m h k < length m"
  unfolding ring_pos_def by (rule mod_less_divisor) (rule order.strict_trans1 [OF le0])

lemma mod_add_inj:
  assumes "(h + j) mod n = (h + k) mod n" "j < n" "k < (n :: nat)"
  shows "j = k"
proof -
  have "(int h + int j) mod int n = (int h + int k) mod int n"
    using assms(1) by (metis of_nat_add of_nat_mod)
  then have "int j mod int n = int k mod int n"
    by (metis add_diff_cancel_left' mod_diff_left_eq)
  with assms(2,3) show ?thesis by simp
qed

text \<open>Two counters less than one round apart are in the same place only when they are equal.\<close>

lemma same_place: "(k :: nat) \<le> l \<Longrightarrow> l < k + c \<Longrightarrow> l mod c = k mod c \<Longrightarrow> l = k"
proof (rule ccontr)
  assume a: "k \<le> l" "l < k + c" "l mod c = k mod c" "l \<noteq> k"
  then have "c dvd l - k" by (simp add: mod_eq_dvd_iff_nat)
  moreover have "0 < l - k" "l - k < c" using a by simp_all
  ultimately show False by (simp add: nat_dvd_not_less)
qed

lemma one_round: "(k :: nat) < l \<Longrightarrow> l \<le> k + c \<Longrightarrow> l mod c = k mod c \<Longrightarrow> l = k + c"
  using same_place [of k l c] by (cases "l = k + c") auto

lemma ring_pos_inj: "ring_pos m h j = ring_pos m h k \<Longrightarrow> j < length m \<Longrightarrow> k < length m \<Longrightarrow> j = k"
  unfolding ring_pos_def by (rule mod_add_inj)

lemma ring_pos_0 [simp]: "h < length m \<Longrightarrow> ring_pos m h 0 = h"
  by (simp add: ring_pos_def)

lemma ring_pos_Suc: "ring_pos m (Suc h mod length m) k = ring_pos m h (Suc k)"
  by (simp add: ring_pos_def mod_add_left_eq)

lemma ring_pos_wrap: "ring_pos m h (length m) = h mod length m"
  by (simp add: ring_pos_def)

lemma ring_pos_update [simp]: "ring_pos (m[i := v]) h k = ring_pos m h k"
  by (simp add: ring_pos_def)

lemma ring_pos_cong: "length m' = length m \<Longrightarrow> ring_pos m' h k = ring_pos m h k"
  by (simp add: ring_pos_def)

lemma ring_repD:
  assumes "ring_rep ty h xs m"
  shows "length xs \<le> length m" "h < length m"
    "k < length xs \<Longrightarrow> m ! ring_pos m h k = Some (xs ! k)"
  using assms by (auto simp: ring_rep_def)

lemma ring_rep_hd: "ring_rep ty h (x # xs) m \<Longrightarrow> m ! h = Some x"
  using ring_repD(3) [of ty h "x # xs" m 0] by (simp add: ring_rep_def)

lemma ring_rep_Nil_iff: "ring_rep ty h [] m \<longleftrightarrow>
    h < length m \<and> (is_trivial ty \<or> (\<forall>k < length m. m ! ring_pos m h k = None))"
  by (auto simp: ring_rep_def)

lemma ring_rep_push:
  assumes "ring_rep ty h xs m" "length xs < length m"
  defines "t \<equiv> ring_pos m h (length xs)"
  shows "slot_construct ty t x m = Some (m[t := Some x])"
    and "ring_rep ty h (xs @ [x]) (m[t := Some x])"
proof -
  have h: "h < length m" using assms(1) by (simp add: ring_rep_def)
  then have t: "t < length m" unfolding t_def by (rule ring_pos_less)
  have "is_trivial ty \<or> m ! t = None"
    using assms(1,2) by (auto simp: t_def ring_rep_def)
  with t show "slot_construct ty t x m = Some (m[t := Some x])"
    by (simp add: slot_simps)
  have ne: "ring_pos m h k \<noteq> t" if "k < length m" "k \<noteq> length xs" for k
    using ring_pos_inj [of m h k "length xs"] that assms(2) unfolding t_def by blast
  show "ring_rep ty h (xs @ [x]) (m[t := Some x])"
    using assms(1,2) h t ne ne [symmetric] unfolding ring_rep_def
    by (auto simp: nth_append nth_list_update less_Suc_eq simp flip: t_def)
qed

text \<open>Advancing past the first element, once its slot has been released.\<close>

lemma ring_rep_tl:
  assumes "ring_rep ty h (x # xs) m" "length m' = length m"
    and "\<And>i. i < length m \<Longrightarrow> i \<noteq> h \<Longrightarrow> m' ! i = m ! i"
    and "\<not> is_trivial ty \<Longrightarrow> m' ! h = None"
  shows "ring_rep ty (Suc h mod length m) xs m'"
proof -
  have n: "length xs < length m" and h: "h < length m"
    using assms(1) by (auto simp: ring_rep_def)
  have pos: "ring_pos m' (Suc h mod length m) k = ring_pos m h (Suc k)" for k
    using assms(2) by (metis ring_pos_Suc ring_pos_cong)
  have ne: "ring_pos m h (Suc k) \<noteq> h" if "Suc k < length m" for k
    using ring_pos_inj [of m h "Suc k" 0] that h by (metis nat.distinct(1) ring_pos_0 order_less_trans zero_less_Suc)
  have keep: "m' ! ring_pos m h (Suc k) = m ! ring_pos m h (Suc k)" if "Suc k < length m" for k
    using assms(3) ne [OF that] ring_pos_less [OF h] by blast
  have live: "m' ! ring_pos m h (Suc k) = Some (xs ! k)" if "k < length xs" for k
    using ring_repD(3) [OF assms(1), of "Suc k"] keep [of k] that n by simp
  have raw: "m' ! ring_pos m h (Suc k) = None"
    if "\<not> is_trivial ty" "length xs \<le> k" "k < length m" for k
  proof (cases "Suc k = length m")
    case True
    then show ?thesis using assms(4) that h by (metis ring_pos_wrap mod_less)
  next
    case False
    then have "m ! ring_pos m h (Suc k) = None"
      using assms(1) that by (auto simp: ring_rep_def)
    with keep [of k] False that show ?thesis by simp
  qed
  show ?thesis
    using n mod_less_divisor [of "length m" "Suc h", OF order.strict_trans1 [OF le0 n]]
      live raw assms(2)
    by (auto simp: ring_rep_def pos)
qed

lemma ring_rep_pop:
  assumes "ring_rep ty h (x # xs) m"
  shows "slot_read h m = Some x"
    and "slot_move ty h m = Some (x, m[h := Some (moved_from ty x)])"
    and "\<exists>m'. slot_destroy ty h m = Some m' \<and> length m' = length m \<and>
           ring_rep ty (Suc h mod length m) xs m'"
    and "\<exists>m'. slot_destroy ty h (m[h := Some y]) = Some m' \<and> length m' = length m \<and>
           ring_rep ty (Suc h mod length m) xs m'"
proof -
  have h: "h < length m" "m ! h = Some x"
    using assms ring_rep_hd [OF assms] by (auto simp: ring_rep_def)
  then show "slot_read h m = Some x" "slot_move ty h m = Some (x, m[h := Some (moved_from ty x)])"
    by (simp_all add: slot_simps)
  show "\<exists>m'. slot_destroy ty h m = Some m' \<and> length m' = length m \<and>
          ring_rep ty (Suc h mod length m) xs m'"
    using h by (auto simp: slot_simps intro!: ring_rep_tl [OF assms])
  show "\<exists>m'. slot_destroy ty h (m[h := Some y]) = Some m' \<and> length m' = length m \<and>
          ring_rep ty (Suc h mod length m) xs m'"
    using h by (auto simp: slot_destroy_def intro!: ring_rep_tl [OF assms])
qed

lemma ring_rep_update:
  assumes "ring_rep ty h xs m" "k < length xs"
  shows "ring_rep ty h (xs[k := y]) (m[ring_pos m h k := Some y])"
proof -
  have h: "h < length m" and n: "k < length m" using assms by (auto simp: ring_rep_def)
  have eq: "ring_pos m h k = ring_pos m h j \<longleftrightarrow> k = j" if "j < length m" for j
    using ring_pos_inj that n by blast
  show ?thesis
    using assms ring_pos_less [OF h, of k] by (auto simp: ring_rep_def nth_list_update eq)
qed

lemma ring_rep_0: "0 < length m \<Longrightarrow> ring_rep ty 0 xs m \<longleftrightarrow> lin_rep ty xs m"
  by (auto simp: ring_rep_def lin_rep_def ring_pos_def)

lemma ring_rep_contents:
  "ring_rep ty h xs m \<Longrightarrow> map (\<lambda>k. the (m ! ring_pos m h k)) [0..<length xs] = xs"
  by (auto simp: ring_rep_def intro!: nth_equalityI)

end
