(* ===== verification/HpcInterfaces.thy ===== *)
theory HpcInterfaces
  imports HpcPrelude
begin

text \<open>
  The contracts the containers of the library share, as locales: first-in first-out queues
  (with spare room, with a safe pop of an empty queue, bounded, bounded with a limited number of
  operations), bounded last-in first-out stacks, arrays that grow at their back, transition
  systems with an invariant; and the logs of channels between a producer and a consumer.
  The abstract machines \<open>queue_spec\<close> and \<open>stack_spec\<close> are the specifications; the locales
  prove once that a provider of the contract refines them over every sequence of operations,
  and each component interprets them on its own operations.
\<close>

section \<open>Abstract machines\<close>

datatype 'a container_op = Push 'a | Pop

datatype 'a container_result = Pushed bool | Popped "'a option"

fun queue_spec :: "nat \<Rightarrow> 'a container_op \<Rightarrow> 'a list \<Rightarrow> ('a container_result \<times> 'a list) option" where
  "queue_spec cap (Push x) xs =
     (if length xs < cap then Some (Pushed True, xs @ [x]) else Some (Pushed False, xs))"
| "queue_spec cap Pop [] = Some (Popped None, [])"
| "queue_spec cap Pop (x # xs) = Some (Popped (Some x), xs)"

fun stack_spec :: "nat \<Rightarrow> 'a container_op \<Rightarrow> 'a list \<Rightarrow> ('a container_result \<times> 'a list) option" where
  "stack_spec cap (Push x) xs =
     (if length xs < cap then Some (Pushed True, x # xs) else Some (Pushed False, xs))"
| "stack_spec cap Pop [] = Some (Popped None, [])"
| "stack_spec cap Pop (x # xs) = Some (Popped (Some x), xs)"

text \<open>The same operations performed by a provider's \<open>try_push\<close> and \<open>try_pop\<close>.\<close>

fun container_step ::
  "('a \<Rightarrow> 's \<Rightarrow> (bool \<times> 's) option) \<Rightarrow> ('s \<Rightarrow> ('a option \<times> 's) option) \<Rightarrow>
   'a container_op \<Rightarrow> 's \<Rightarrow> ('a container_result \<times> 's) option" where
  "container_step push pop (Push x) s = map_option (map_prod Pushed id) (push x s)"
| "container_step push pop Pop s = map_option (map_prod Popped id) (pop s)"

text \<open>No operation of the sequence pushes to a full queue.\<close>

fun never_overfull :: "nat \<Rightarrow> 'a container_op list \<Rightarrow> 'a list \<Rightarrow> bool" where
  "never_overfull cap [] xs \<longleftrightarrow> True"
| "never_overfull cap (Push x # ops) xs \<longleftrightarrow> length xs < cap \<and> never_overfull cap ops (xs @ [x])"
| "never_overfull cap (Pop # ops) xs \<longleftrightarrow> never_overfull cap ops (drop 1 xs)"

section \<open>Batches\<close>

text \<open>
  The batch operations of the ring buffers call the single operation until it fails or the
  batch is done, and return how many succeeded.
\<close>

fun push_batch :: "('a \<Rightarrow> 's \<Rightarrow> (bool \<times> 's) option) \<Rightarrow> 'a list \<Rightarrow> 's \<Rightarrow> (nat \<times> 's) option" where
  "push_batch push [] s = Some (0, s)"
| "push_batch push (x # xs) s = do {
     (ok, s1) \<leftarrow> push x s;
     if ok then do {
       (n, s2) \<leftarrow> push_batch push xs s1;
       Some (Suc n, s2)
     } else Some (0, s1)
   }"

fun pop_batch :: "('s \<Rightarrow> ('a option \<times> 's) option) \<Rightarrow> nat \<Rightarrow> 's \<Rightarrow> ('a list \<times> 's) option" where
  "pop_batch pop 0 s = Some ([], s)"
| "pop_batch pop (Suc n) s = do {
     (r, s1) \<leftarrow> pop s;
     (case r of
        None \<Rightarrow> Some ([], s1)
      | Some x \<Rightarrow> do {
          (xs, s2) \<leftarrow> pop_batch pop n s1;
          Some (x # xs, s2)
        })
   }"

section \<open>Dropping the oldest element\<close>

definition push_dropping :: "('a \<Rightarrow> 's \<Rightarrow> (bool \<times> 's) option) \<Rightarrow> ('s \<Rightarrow> ('a option \<times> 's) option) \<Rightarrow>
    'a \<Rightarrow> 's \<Rightarrow> 's option" where
  "push_dropping push pop x s = do {
     (pushed, s1) \<leftarrow> push x s;
     if pushed then Some s1
     else do {
       (dropped, s2) \<leftarrow> pop s1;
       if dropped = None then Some s2 else do { (_, s3) \<leftarrow> push x s2; Some s3 }
     }
   }"

definition newest :: "nat \<Rightarrow> 'a list \<Rightarrow> 'a list" where
  "newest n xs = drop (length xs - n) xs"

lemma newest_append: "newest n (newest n xs @ ys) = newest n (xs @ ys)"
proof -
  have rev: "newest n zs = rev (take n (rev zs))" for zs :: "'a list"
    by (simp add: newest_def rev_take)
  show ?thesis unfolding rev by (simp add: min_def)
qed

section \<open>Queues\<close>

text \<open>Pushing with room to spare, and popping an element that is there.\<close>

locale fifo =
  fixes inv :: "'s \<Rightarrow> bool"
    and contents :: "'s \<Rightarrow> 'a list"
    and room :: "'s \<Rightarrow> nat"
    and push :: "'a \<Rightarrow> 's \<Rightarrow> (bool \<times> 's) option"
    and pop :: "'s \<Rightarrow> ('a option \<times> 's) option"
  assumes push_room: "inv s \<Longrightarrow> 0 < room s \<Longrightarrow>
      \<exists>s'. push x s = Some (True, s') \<and> inv s' \<and> contents s' = contents s @ [x] \<and>
           room s \<le> Suc (room s')"
    and pop_elem: "inv s \<Longrightarrow> contents s = x # xs \<Longrightarrow>
      \<exists>s'. pop s = Some (Some x, s') \<and> inv s' \<and> contents s' = xs \<and> room s \<le> room s'"
begin

lemma push_batch_room:
  "inv s \<Longrightarrow> length xs \<le> room s \<Longrightarrow>
   \<exists>s'. push_batch push xs s = Some (length xs, s') \<and> inv s' \<and> contents s' = contents s @ xs \<and>
        room s \<le> length xs + room s'"
proof (induction xs arbitrary: s)
  case Nil
  then show ?case by simp
next
  case (Cons x xs)
  then obtain s1 where s1: "push x s = Some (True, s1)" "inv s1" "contents s1 = contents s @ [x]"
      "room s \<le> Suc (room s1)"
    using push_room [of s x] by auto
  then obtain s2 where "push_batch push xs s1 = Some (length xs, s2)" "inv s2"
      "contents s2 = contents s1 @ xs" "room s1 \<le> length xs + room s2"
    using Cons.IH [of s1] Cons.prems by auto
  with s1 show ?case by simp
qed

lemma pop_batch_elems:
  "inv s \<Longrightarrow> n \<le> length (contents s) \<Longrightarrow>
   \<exists>s'. pop_batch pop n s = Some (take n (contents s), s') \<and> inv s' \<and>
        contents s' = drop n (contents s) \<and> room s \<le> room s'"
proof (induction n arbitrary: s)
  case 0
  then show ?case by simp
next
  case (Suc n)
  then obtain x xs where c: "contents s = x # xs" by (cases "contents s") auto
  with Suc.prems obtain s1 where s1: "pop s = Some (Some x, s1)" "inv s1" "contents s1 = xs"
      "room s \<le> room s1"
    using pop_elem [of s x xs] by auto
  then obtain s2 where "pop_batch pop n s1 = Some (take n xs, s2)" "inv s2"
      "contents s2 = drop n xs" "room s1 \<le> room s2"
    using Suc.IH [of s1] Suc.prems c by auto
  with s1 c show ?case by simp
qed

text \<open>First in, first out: what goes into an empty queue comes out, in order.\<close>

lemma push_pop_roundtrip:
  assumes "inv s" "contents s = []" "length xs \<le> room s"
  shows "\<exists>s1 s2. push_batch push xs s = Some (length xs, s1) \<and>
           pop_batch pop (length xs) s1 = Some (xs, s2) \<and> inv s2 \<and> contents s2 = []"
proof -
  obtain s1 where s1: "push_batch push xs s = Some (length xs, s1)" "inv s1" "contents s1 = xs"
    using push_batch_room [OF assms(1,3)] assms(2) by auto
  then show ?thesis using pop_batch_elems [of s1 "length xs"] by auto
qed

end

text \<open>A pop of an empty queue reports the failure and changes nothing.\<close>

locale try_fifo = fifo +
  assumes pop_empty: "inv s \<Longrightarrow> contents s = [] \<Longrightarrow> pop s = Some (None, s)"
begin

lemma pop_batch_upto:
  "inv s \<Longrightarrow>
   \<exists>s'. pop_batch pop n s = Some (take n (contents s), s') \<and> inv s' \<and>
        contents s' = drop n (contents s)"
proof (induction n arbitrary: s)
  case 0
  then show ?case by simp
next
  case (Suc n)
  show ?case
  proof (cases "contents s")
    case Nil
    then show ?thesis using Suc.prems pop_empty [of s] by simp
  next
    case (Cons x xs)
    with Suc.prems obtain s1 where s1: "pop s = Some (Some x, s1)" "inv s1" "contents s1 = xs"
      using pop_elem [of s x xs] by auto
    with Suc.IH [of s1] Cons show ?thesis by auto
  qed
qed

end

text \<open>A queue of fixed capacity.\<close>

locale capped_fifo = try_fifo +
  fixes cap :: "'s \<Rightarrow> nat"
  assumes room_cap: "inv s \<Longrightarrow> length (contents s) + room s = cap s"
    and push_cap: "push x s = Some (ok, s') \<Longrightarrow> cap s' = cap s"
    and pop_cap: "pop s = Some (r, s') \<Longrightarrow> cap s' = cap s"
begin

lemma run_refines_within:
  "inv s \<Longrightarrow> never_overfull (cap s) ops (contents s) \<Longrightarrow>
   \<exists>outs s'. run_ops (container_step push pop) ops s = Some (outs, s') \<and>
        run_ops (queue_spec (cap s)) ops (contents s) = Some (outs, contents s') \<and>
        inv s' \<and> cap s' = cap s"
proof (induction ops arbitrary: s)
  case Nil
  then show ?case by simp
next
  case (Cons i ops)
  have "\<exists>out s1. container_step push pop i s = Some (out, s1) \<and> inv s1 \<and> cap s1 = cap s \<and>
          queue_spec (cap s) i (contents s) = Some (out, contents s1) \<and>
          never_overfull (cap s1) ops (contents s1)"
  proof (cases i)
    case (Push x)
    then have room: "length (contents s) < cap s" using Cons.prems by simp
    then obtain s1 where "push x s = Some (True, s1)" "inv s1" "contents s1 = contents s @ [x]"
      using push_room [OF Cons.prems(1), of x] room_cap [OF Cons.prems(1)] by auto
    with Push room Cons.prems show ?thesis using push_cap [of x s True s1] by simp
  next
    case Pop
    show ?thesis
    proof (cases "contents s")
      case Nil
      with Pop Cons.prems show ?thesis using pop_empty [of s] by simp
    next
      case (Cons y ys)
      then obtain s1 where "pop s = Some (Some y, s1)" "inv s1" "contents s1 = ys"
        using pop_elem [of s y ys] Cons.prems by auto
      with Pop Cons Cons.prems show ?thesis using pop_cap [of s "Some y" s1] by simp
    qed
  qed
  then obtain out s1 where s1: "container_step push pop i s = Some (out, s1)" "inv s1" "cap s1 = cap s"
      "queue_spec (cap s) i (contents s) = Some (out, contents s1)"
      "never_overfull (cap s1) ops (contents s1)"
    by blast
  from Cons.IH [OF s1(2,5)] s1 show ?case by auto
qed

end

text \<open>A push without room reports the failure and changes nothing.\<close>

locale bounded_fifo = capped_fifo +
  assumes push_full: "inv s \<Longrightarrow> room s = 0 \<Longrightarrow> push x s = Some (False, s)"
begin

lemma step_refines:
  assumes "inv s"
  shows "\<exists>out s'. container_step push pop i s = Some (out, s') \<and>
           queue_spec (cap s) i (contents s) = Some (out, contents s') \<and>
           inv s' \<and> cap s' = cap s"
proof (cases i)
  case (Push x)
  show ?thesis
  proof (cases "room s = 0")
    case True
    with assms Push show ?thesis
      using push_full [of s x] room_cap [of s] by simp
  next
    case False
    with assms obtain s' where "push x s = Some (True, s')" "inv s'"
        "contents s' = contents s @ [x]"
      using push_room [of s x] by auto
    with assms Push False show ?thesis
      using room_cap [of s] push_cap [of x s True s'] by auto
  qed
next
  case Pop
  show ?thesis
  proof (cases "contents s")
    case Nil
    with assms Pop show ?thesis using pop_empty [of s] by simp
  next
    case (Cons x xs)
    with assms obtain s' where "pop s = Some (Some x, s')" "inv s'" "contents s' = xs"
      using pop_elem [of s x xs] by auto
    with Pop Cons show ?thesis using pop_cap [of s] by auto
  qed
qed

text \<open>Every sequence of operations behaves as on the bounded list.\<close>

lemma run_refines:
  assumes "inv s"
  shows "\<exists>outs s'. run_ops (container_step push pop) ops s = Some (outs, s') \<and>
           run_ops (queue_spec (cap s)) ops (contents s) = Some (outs, contents s') \<and>
           inv s' \<and> cap s' = cap s"
  using run_ops_simulation [of "\<lambda>c a. inv c \<and> a = contents c \<and> cap c = cap s"
      "container_step push pop" "queue_spec (cap s)" s "contents s" ops] step_refines assms
  by (metis (no_types, lifting))

text \<open>A push that makes room by dropping the oldest element when it is refused.\<close>

lemma push_dropping_newest:
  assumes "inv s" "0 < cap s"
  shows "\<exists>s'. push_dropping push pop x s = Some s' \<and> inv s' \<and> cap s' = cap s \<and>
    contents s' = newest (cap s) (contents s @ [x])"
proof (cases "room s = 0")
  case False
  then obtain s' where "push x s = Some (True, s')" "inv s'" "contents s' = contents s @ [x]"
    using push_room [of s x] assms(1) by auto
  then show ?thesis
    using push_cap [of x s True s'] room_cap [OF assms(1)] False by (simp add: push_dropping_def newest_def)
next
  case True
  then have l: "length (contents s) = cap s" using room_cap [OF assms(1)] by simp
  then obtain y ys where c: "contents s = y # ys" using assms(2) by (cases "contents s") auto
  from pop_elem [OF assms(1) c] obtain s1 where s1: "pop s = Some (Some y, s1)" "inv s1" "contents s1 = ys"
    by blast
  have k: "cap s1 = cap s" by (rule pop_cap [OF s1(1)])
  then have "0 < room s1" using room_cap [OF s1(2)] s1(3) l c by simp
  then obtain s2 where "push x s1 = Some (True, s2)" "inv s2" "contents s2 = ys @ [x]"
    using push_room [of s1 x] s1 by auto
  then show ?thesis
    using push_full [OF assms(1) True, of x] s1 k push_cap [of x s1 True s2] l c
    by (auto simp: push_dropping_def newest_def)
qed

text \<open>A batch pushes as many elements as fit.\<close>

lemma push_batch_upto:
  "inv s \<Longrightarrow>
   \<exists>s'. push_batch push xs s = Some (min (length xs) (room s), s') \<and> inv s' \<and>
        contents s' = contents s @ take (room s) xs"
proof (induction xs arbitrary: s)
  case Nil
  then show ?case by simp
next
  case (Cons x xs)
  show ?case
  proof (cases "room s = 0")
    case True
    then show ?thesis using Cons.prems push_full [of s x] by simp
  next
    case False
    with Cons.prems obtain s1 where s1: "push x s = Some (True, s1)" "inv s1"
        "contents s1 = contents s @ [x]"
      using push_room [of s x] by auto
    then have r: "room s = Suc (room s1)"
      using room_cap [of s] room_cap [of s1] push_cap [of x s True s1] Cons.prems False by simp
    obtain s2 where "push_batch push xs s1 = Some (min (length xs) (room s1), s2)" "inv s2"
        "contents s2 = contents s1 @ take (room s1) xs"
      using Cons.IH [OF s1(2)] by blast
    with s1 r show ?thesis by simp
  qed
qed

end

section \<open>Bounded queues with a limited life\<close>

text \<open>
  A bounded queue whose indices count every element that ever passes through it: the contract
  holds for the pushes that are left until the counters would overflow, \<open>life\<close>.
\<close>

locale metered_fifo =
  fixes inv :: "'s \<Rightarrow> bool"
    and contents :: "'s \<Rightarrow> 'a list"
    and cap :: "'s \<Rightarrow> nat"
    and life :: "'s \<Rightarrow> nat"
    and push :: "'a \<Rightarrow> 's \<Rightarrow> (bool \<times> 's) option"
    and pop :: "'s \<Rightarrow> ('a option \<times> 's) option"
  assumes push_room: "inv s \<Longrightarrow> 0 < life s \<Longrightarrow> length (contents s) < cap s \<Longrightarrow>
      \<exists>s'. push x s = Some (True, s') \<and> inv s' \<and> contents s' = contents s @ [x] \<and> cap s' = cap s \<and>
           life s \<le> Suc (life s')"
    and push_full: "inv s \<Longrightarrow> \<not> length (contents s) < cap s \<Longrightarrow> push x s = Some (False, s)"
    and pop_elem: "inv s \<Longrightarrow> contents s = x # xs \<Longrightarrow>
      \<exists>s'. pop s = Some (Some x, s') \<and> inv s' \<and> contents s' = xs \<and> cap s' = cap s \<and> life s \<le> life s'"
    and pop_empty: "inv s \<Longrightarrow> contents s = [] \<Longrightarrow> pop s = Some (None, s)"
    and contents_cap: "inv s \<Longrightarrow> length (contents s) \<le> cap s"
begin

lemma step_refines:
  assumes "inv s" "0 < life s"
  shows "\<exists>out s'. container_step push pop i s = Some (out, s') \<and>
           queue_spec (cap s) i (contents s) = Some (out, contents s') \<and>
           inv s' \<and> cap s' = cap s \<and> life s \<le> Suc (life s')"
proof (cases i)
  case (Push x)
  then show ?thesis
    using push_room [OF assms, of x] push_full [OF assms(1), of x] assms
    by (cases "length (contents s) < cap s") auto
next
  case Pop
  show ?thesis
  proof (cases "contents s")
    case Nil
    with assms(1) Pop show ?thesis using pop_empty [of s] by simp
  next
    case (Cons x xs)
    with assms(1) Pop show ?thesis using pop_elem [of s x xs] by fastforce
  qed
qed

lemma run_refines:
  "inv s \<Longrightarrow> length ops \<le> life s \<Longrightarrow>
   \<exists>outs s'. run_ops (container_step push pop) ops s = Some (outs, s') \<and>
        run_ops (queue_spec (cap s)) ops (contents s) = Some (outs, contents s') \<and>
        inv s' \<and> cap s' = cap s"
proof (induction ops arbitrary: s)
  case Nil
  then show ?case by simp
next
  case (Cons i ops)
  then obtain out s1 where 1: "container_step push pop i s = Some (out, s1)"
      "queue_spec (cap s) i (contents s) = Some (out, contents s1)" "inv s1" "cap s1 = cap s" "life s \<le> Suc (life s1)"
    using step_refines [of s i] by auto
  then have "length ops \<le> life s1" using Cons.prems(2) by simp
  from Cons.IH [OF 1(3) this] 1 show ?case by auto
qed

lemma push_batch_upto:
  "inv s \<Longrightarrow> length xs \<le> life s \<Longrightarrow>
   \<exists>s'. push_batch push xs s = Some (min (length xs) (cap s - length (contents s)), s') \<and> inv s' \<and>
        contents s' = contents s @ take (cap s - length (contents s)) xs"
proof (induction xs arbitrary: s)
  case Nil
  then show ?case by simp
next
  case (Cons x xs)
  show ?case
  proof (cases "length (contents s) < cap s")
    case True
    with Cons.prems obtain s1 where s1: "push x s = Some (True, s1)" "inv s1" "contents s1 = contents s @ [x]"
        "cap s1 = cap s" "life s \<le> Suc (life s1)"
      using push_room [of s x] by auto
    then have "length xs \<le> life s1" using Cons.prems(2) by simp
    from Cons.IH [OF s1(2) this] s1 True
    have "\<exists>s'. push_batch push xs s1 = Some (min (length xs) (cap s - Suc (length (contents s))), s') \<and> inv s' \<and>
        contents s' = contents s @ x # take (cap s - Suc (length (contents s))) xs" by simp
    moreover have "cap s - length (contents s) = Suc (cap s - Suc (length (contents s)))" using True by simp
    ultimately show ?thesis using s1(1) by auto
  next
    case False
    then show ?thesis using push_full [OF Cons.prems(1) False, of x] contents_cap [OF Cons.prems(1)] Cons.prems by simp
  qed
qed

lemma pop_batch_upto:
  "inv s \<Longrightarrow>
   \<exists>s'. pop_batch pop n s = Some (take n (contents s), s') \<and> inv s' \<and> contents s' = drop n (contents s)"
proof (induction n arbitrary: s)
  case 0
  then show ?case by simp
next
  case (Suc n)
  show ?case
  proof (cases "contents s")
    case Nil
    then show ?thesis using Suc.prems pop_empty [of s] by simp
  next
    case (Cons x xs)
    with Suc.prems obtain s1 where s1: "pop s = Some (Some x, s1)" "inv s1" "contents s1 = xs"
      using pop_elem [of s x xs] by auto
    with Suc.IH [of s1] Cons show ?thesis by auto
  qed
qed

end

text \<open>A bounded queue without such counters lives for any number of operations.\<close>

sublocale bounded_fifo \<subseteq> steady: metered_fifo inv contents cap "\<lambda>_. n" push pop for n :: nat
proof unfold_locales
  fix s x
  assume "inv s"
  show "\<exists>s'. push x s = Some (True, s') \<and> inv s' \<and> contents s' = contents s @ [x] \<and> cap s' = cap s \<and> n \<le> Suc n"
    if "length (contents s) < cap s"
    using push_room [OF \<open>inv s\<close>, of x] room_cap [OF \<open>inv s\<close>] push_cap [of x s True] that by fastforce
  show "push x s = Some (False, s)" if "\<not> length (contents s) < cap s"
    using push_full [OF \<open>inv s\<close>] room_cap [OF \<open>inv s\<close>] that by simp
  show "\<exists>s'. pop s = Some (Some x, s') \<and> inv s' \<and> contents s' = xs \<and> cap s' = cap s \<and> n \<le> n"
    if "contents s = x # xs" for xs
    using pop_elem [OF \<open>inv s\<close> that] pop_cap [of s "Some x"] by fastforce
  show "pop s = Some (None, s)" if "contents s = []" using pop_empty [OF \<open>inv s\<close> that] .
  show "length (contents s) \<le> cap s" using room_cap [OF \<open>inv s\<close>] by simp
qed

section \<open>Stacks\<close>

text \<open>The contents of a stack are listed from the top down.\<close>

locale bounded_lifo =
  fixes inv :: "'s \<Rightarrow> bool"
    and contents :: "'s \<Rightarrow> 'a list"
    and cap :: "'s \<Rightarrow> nat"
    and push :: "'a \<Rightarrow> 's \<Rightarrow> (bool \<times> 's) option"
    and pop :: "'s \<Rightarrow> ('a option \<times> 's) option"
  assumes push_room: "inv s \<Longrightarrow> length (contents s) < cap s \<Longrightarrow>
      \<exists>s'. push x s = Some (True, s') \<and> inv s' \<and> contents s' = x # contents s \<and> cap s' = cap s"
    and push_full: "inv s \<Longrightarrow> \<not> length (contents s) < cap s \<Longrightarrow> push x s = Some (False, s)"
    and pop_elem: "inv s \<Longrightarrow> contents s = x # xs \<Longrightarrow>
      \<exists>s'. pop s = Some (Some x, s') \<and> inv s' \<and> contents s' = xs \<and> cap s' = cap s"
    and pop_empty: "inv s \<Longrightarrow> contents s = [] \<Longrightarrow> pop s = Some (None, s)"
begin

lemma step_refines:
  assumes "inv s"
  shows "\<exists>out s'. container_step push pop i s = Some (out, s') \<and>
           stack_spec (cap s) i (contents s) = Some (out, contents s') \<and>
           inv s' \<and> cap s' = cap s"
proof (cases i)
  case (Push x)
  then show ?thesis
    using push_room [OF assms, of x] push_full [OF assms, of x] assms
    by (cases "length (contents s) < cap s") auto
next
  case Pop
  then show ?thesis
    using pop_elem [OF assms] pop_empty [OF assms] assms by (cases "contents s") fastforce+
qed

lemma run_refines:
  assumes "inv s"
  shows "\<exists>outs s'. run_ops (container_step push pop) ops s = Some (outs, s') \<and>
           run_ops (stack_spec (cap s)) ops (contents s) = Some (outs, contents s') \<and>
           inv s' \<and> cap s' = cap s"
  using run_ops_simulation [of "\<lambda>c a. inv c \<and> a = contents c \<and> cap c = cap s"
      "container_step push pop" "stack_spec (cap s)" s "contents s" ops] step_refines assms
  by (metis (no_types, lifting))

end

section \<open>Histories of operations that may run out of memory\<close>

text \<open>
  A log of operations and their results, replayed on an unbounded list: a push that reports
  success appends, one that reports failure changes nothing, a pop returns the front.
\<close>

fun queue_replay :: "('a container_op \<times> 'a container_result) list \<Rightarrow> 'a list \<Rightarrow> 'a list option" where
  "queue_replay [] xs = Some xs"
| "queue_replay ((Push x, Pushed ok) # log) xs = queue_replay log (if ok then xs @ [x] else xs)"
| "queue_replay ((Pop, Popped None) # log) xs = (if xs = [] then queue_replay log [] else None)"
| "queue_replay ((Pop, Popped (Some y)) # log) xs =
     (case xs of [] \<Rightarrow> None | x # xs' \<Rightarrow> if x = y then queue_replay log xs' else None)"
| "queue_replay _ xs = None"


text \<open>The same for an array used at its back end, listed from front to back.\<close>

fun back_replay :: "('a container_op \<times> 'a container_result) list \<Rightarrow> 'a list \<Rightarrow> 'a list option" where
  "back_replay [] xs = Some xs"
| "back_replay ((Push x, Pushed ok) # log) xs = back_replay log (if ok then xs @ [x] else xs)"
| "back_replay ((Pop, Popped None) # log) xs = (if xs = [] then back_replay log [] else None)"
| "back_replay ((Pop, Popped (Some y)) # log) xs =
     (if xs \<noteq> [] \<and> last xs = y then back_replay log (butlast xs) else None)"
| "back_replay _ xs = None"

section \<open>Growable arrays\<close>

text \<open>
  An indexed sequence that grows and shrinks at its back. \<open>ready\<close> tells which outcomes of
  allocation may occur; a push that fails for want of memory leaves the sequence as it was.
\<close>

locale back_sequence =
  fixes inv :: "'s \<Rightarrow> bool"
    and contents :: "'s \<Rightarrow> 'a list"
    and ready :: "'m \<Rightarrow> bool"
    and push :: "'m \<Rightarrow> 'a \<Rightarrow> 's \<Rightarrow> (bool \<times> 's) option"
    and pop :: "'s \<Rightarrow> ('a option \<times> 's) option"
    and elem :: "'s \<Rightarrow> usize \<Rightarrow> (exn + 'a) option"
  assumes push_back: "inv s \<Longrightarrow> ready m \<Longrightarrow>
      \<exists>ok s'. push m x s = Some (ok, s') \<and> inv s' \<and>
        contents s' = (if ok then contents s @ [x] else contents s)"
    and pop_back: "inv s \<Longrightarrow> contents s = xs @ [x] \<Longrightarrow>
      \<exists>s'. pop s = Some (Some x, s') \<and> inv s' \<and> contents s' = xs"
    and pop_none: "inv s \<Longrightarrow> contents s = [] \<Longrightarrow> pop s = Some (None, s)"
    and elem_nth: "inv s \<Longrightarrow> elem s i =
      Some (if unat i < length (contents s) then Inr (contents s ! unat i) else Inl Out_of_range)"
begin

lemma histories:
  "inv s \<Longrightarrow> \<forall>m \<in> fst ` set ops. ready m \<Longrightarrow>
   \<exists>outs s'. run_ops (\<lambda>(m, i). container_step (push m) pop i) ops s = Some (outs, s') \<and>
     back_replay (zip (map snd ops) outs) (contents s) = Some (contents s') \<and> inv s'"
proof (induction ops arbitrary: s)
  case Nil
  then show ?case by simp
next
  case (Cons mi ops)
  obtain m i where mi: "mi = (m, i)" by (cases mi)
  have "\<exists>out s1. container_step (push m) pop i s = Some (out, s1) \<and> inv s1 \<and>
          (\<forall>log. back_replay ((i, out) # log) (contents s) = back_replay log (contents s1))"
  proof (cases i)
    case (Push x)
    then show ?thesis using push_back [of s m x] Cons.prems mi by fastforce
  next
    case Pop
    show ?thesis
    proof (cases "contents s" rule: rev_cases)
      case Nil
      then show ?thesis using Pop pop_none [of s] Cons.prems by simp
    next
      case (snoc ys y)
      then show ?thesis using Pop pop_back [of s ys y] Cons.prems by fastforce
    qed
  qed
  then obtain out s1 where 1: "container_step (push m) pop i s = Some (out, s1)" "inv s1"
      "\<And>log. back_replay ((i, out) # log) (contents s) = back_replay log (contents s1)"
    by blast
  from Cons.IH [OF 1(2)] Cons.prems(2) 1 mi show ?case by fastforce
qed

text \<open>Popping everything returns the elements from the back to the front.\<close>

lemma drain:
  "inv s \<Longrightarrow> \<exists>s'. pop_batch pop (length (contents s)) s = Some (rev (contents s), s') \<and> inv s' \<and>
     contents s' = []"
proof (induction "contents s" arbitrary: s rule: rev_induct)
  case Nil
  then show ?case by (metis list.size(3) pop_batch.simps(1) rev.simps(1))
next
  case (snoc x xs)
  then obtain s1 where s1: "pop s = Some (Some x, s1)" "inv s1" "contents s1 = xs"
    using pop_back [of s xs x] by metis
  obtain s2 where "pop_batch pop (length xs) s1 = Some (rev xs, s2)" "inv s2" "contents s2 = []"
    using snoc.hyps(1) [of s1] s1 by auto
  then show ?case using s1(1) by (simp flip: snoc.hyps(2))
qed

end

section \<open>Transition systems\<close>

text \<open>An invariant holds in every state that the steps reach from the start.\<close>

locale invariant_system =
  fixes start :: 's
    and trans :: "'s \<Rightarrow> 's \<Rightarrow> bool"
    and inv :: "'s \<Rightarrow> bool"
  assumes inv_start: "inv start"
    and inv_trans: "inv s \<Longrightarrow> trans s s' \<Longrightarrow> inv s'"
begin

lemma reachable_inv: "rtranclp trans start s \<Longrightarrow> inv s"
  by (induction rule: rtranclp_induct) (auto intro: inv_start inv_trans)

end

section \<open>Channels\<close>

text \<open>
  The log of a channel between a producer and a consumer: an element is sent when the
  producer publishes it and received when the consumer gives its slot back.
\<close>

datatype 'a channel_event = Sent 'a | Push_failed | Received 'a | Pop_failed

fun sent :: "'a channel_event list \<Rightarrow> 'a list" where
  "sent [] = []"
| "sent (Sent x # es) = x # sent es"
| "sent (e # es) = sent es"

fun received :: "'a channel_event list \<Rightarrow> 'a list" where
  "received [] = []"
| "received (Received x # es) = x # received es"
| "received (e # es) = received es"

lemma sent_append [simp]: "sent (as @ bs) = sent as @ sent bs"
  by (induction as rule: sent.induct) simp_all

lemma received_append [simp]: "received (as @ bs) = received as @ received bs"
  by (induction as rule: received.induct) simp_all

end
