(* ===== verification/FixedStack.thy ===== *)
theory FixedStack
  imports HpcInterfaces
begin

text \<open>
  \<open>hpc::core::fixed_stack<T, Capacity>\<close> (\<open>include/hpc/core/stack.hpp\<close>): a stack of
  compile-time capacity in inline storage. The template arguments are the parameters \<open>ty\<close>
  (what is used of \<open>T\<close>) and \<open>C\<close> (\<open>Capacity\<close>) of every operation. An element \<open>i\<close> is
  the slot \<open>ptr(i)\<close>.
\<close>

section \<open>State and operations\<close>

record 'a fixed_stack =
  fs_storage :: "'a slots"
  fs_size :: usize

definition fs_new :: "usize \<Rightarrow> 'a fixed_stack" where
  "fs_new C = \<lparr>fs_storage = replicate (unat C) None, fs_size = 0\<rparr>"

definition fs_empty :: "'a fixed_stack \<Rightarrow> bool" where
  "fs_empty s \<longleftrightarrow> fs_size s = 0"

definition fs_full :: "usize \<Rightarrow> 'a fixed_stack \<Rightarrow> bool" where
  "fs_full C s \<longleftrightarrow> fs_size s = C"

definition fs_top :: "'a fixed_stack \<Rightarrow> 'a option" where
  "fs_top s = slot_read (unat (fs_size s - 1)) (fs_storage s)"

text \<open>\<open>construct(ptr(size_++), value)\<close>\<close>

definition fs_construct_next :: "'a elem_type \<Rightarrow> 'a \<Rightarrow> 'a fixed_stack \<Rightarrow> 'a fixed_stack option" where
  "fs_construct_next ty x s = do {
     m \<leftarrow> slot_construct ty (unat (fs_size s)) x (fs_storage s);
     Some (s\<lparr>fs_storage := m, fs_size := fs_size s + 1\<rparr>)
   }"

definition fs_try_push :: "'a elem_type \<Rightarrow> usize \<Rightarrow> 'a \<Rightarrow> 'a fixed_stack \<Rightarrow>
    (bool \<times> 'a fixed_stack) option" where
  "fs_try_push ty C x s =
     (if fs_size s = C then Some (False, s)
      else do { s' \<leftarrow> fs_construct_next ty x s; Some (True, s') })"

text \<open>The overload for rvalues also changes its argument, returned second.\<close>

definition fs_try_push_move :: "'a elem_type \<Rightarrow> usize \<Rightarrow> 'a \<Rightarrow> 'a fixed_stack \<Rightarrow>
    (bool \<times> 'a \<times> 'a fixed_stack) option" where
  "fs_try_push_move ty C x s =
     (if fs_size s = C then Some (False, x, s)
      else do { s' \<leftarrow> fs_construct_next ty x s; Some (True, moved_from ty x, s') })"

definition fs_push :: "'a elem_type \<Rightarrow> usize \<Rightarrow> 'a \<Rightarrow> 'a fixed_stack \<Rightarrow>
    ((exn + unit) \<times> 'a fixed_stack) option" where
  "fs_push ty C x s = do {
     (ok, s') \<leftarrow> fs_try_push ty C x s;
     Some (if ok then Inr () else Inl Overflow_error, s')
   }"

definition fs_push_move :: "'a elem_type \<Rightarrow> usize \<Rightarrow> 'a \<Rightarrow> 'a fixed_stack \<Rightarrow>
    ((exn + unit) \<times> 'a \<times> 'a fixed_stack) option" where
  "fs_push_move ty C x s = do {
     (ok, x', s') \<leftarrow> fs_try_push_move ty C x s;
     Some (if ok then Inr () else Inl Overflow_error, x', s')
   }"

text \<open>In-place construction; \<open>mk\<close> is the constructor \<open>T(args...)\<close>.\<close>

definition fs_try_emplace :: "'a elem_type \<Rightarrow> usize \<Rightarrow> ('b \<Rightarrow> 'a) \<Rightarrow> 'b \<Rightarrow> 'a fixed_stack \<Rightarrow>
    (bool \<times> 'a fixed_stack) option" where
  "fs_try_emplace ty C mk args s =
     (if fs_size s = C then Some (False, s)
      else do { s' \<leftarrow> fs_construct_next ty (mk args) s; Some (True, s') })"

text \<open>The reference returned by \<open>emplace\<close> is the index of the new element.\<close>

definition fs_emplace :: "'a elem_type \<Rightarrow> usize \<Rightarrow> ('b \<Rightarrow> 'a) \<Rightarrow> 'b \<Rightarrow> 'a fixed_stack \<Rightarrow>
    ((exn + usize) \<times> 'a fixed_stack) option" where
  "fs_emplace ty C mk args s =
     (if fs_size s = C then Some (Inl Overflow_error, s)
      else do { s' \<leftarrow> fs_construct_next ty (mk args) s; Some (Inr (fs_size s), s') })"

definition fs_try_pop_discard :: "'a elem_type \<Rightarrow> 'a fixed_stack \<Rightarrow> (bool \<times> 'a fixed_stack) option" where
  "fs_try_pop_discard ty s =
     (if fs_size s = 0 then Some (False, s)
      else do {
        let n = fs_size s - 1;
        m \<leftarrow> slot_destroy ty (unat n) (fs_storage s);
        Some (True, \<lparr>fs_storage = m, fs_size = n\<rparr>)
      })"

definition fs_pop :: "'a elem_type \<Rightarrow> 'a fixed_stack \<Rightarrow> ((exn + unit) \<times> 'a fixed_stack) option" where
  "fs_pop ty s =
     (if fs_size s = 0 then Some (Inl Underflow_error, s)
      else do {
        let n = fs_size s - 1;
        m \<leftarrow> slot_destroy ty (unat n) (fs_storage s);
        Some (Inr (), \<lparr>fs_storage = m, fs_size = n\<rparr>)
      })"

text \<open>\<open>try_pop(T& out)\<close>: the value assigned to \<open>out\<close>, or \<open>None\<close> when it returns false.\<close>

definition fs_try_pop :: "'a elem_type \<Rightarrow> 'a fixed_stack \<Rightarrow> ('a option \<times> 'a fixed_stack) option" where
  "fs_try_pop ty s =
     (if fs_size s = 0 then Some (None, s)
      else do {
        let n = fs_size s - 1;
        (x, m1) \<leftarrow> slot_move ty (unat n) (fs_storage s);
        m2 \<leftarrow> slot_destroy ty (unat n) m1;
        Some (Some x, \<lparr>fs_storage = m2, fs_size = n\<rparr>)
      })"

text \<open>\<open>clear\<close>, which is also all the destructor does.\<close>

definition fs_clear :: "'a elem_type \<Rightarrow> 'a fixed_stack \<Rightarrow> 'a fixed_stack option" where
  "fs_clear ty s = do {
     m \<leftarrow> (if is_trivial ty then Some (fs_storage s)
          else for_down (fs_size s) (\<lambda>i. slot_destroy ty (unat i)) (fs_storage s));
     Some \<lparr>fs_storage = m, fs_size = 0\<rparr>
   }"

text \<open>
  Construction from an initializer list. On overflow the exception leaves the constructor,
  so no destructor runs; the second component is the storage abandoned at that point.
\<close>

fun fs_push_all :: "'a elem_type \<Rightarrow> usize \<Rightarrow> 'a list \<Rightarrow> 'a fixed_stack \<Rightarrow>
    ((exn + unit) \<times> 'a fixed_stack) option" where
  "fs_push_all ty C [] s = Some (Inr (), s)"
| "fs_push_all ty C (v # vs) s =
     (if fs_size s = C then Some (Inl Overflow_error, s)
      else do { s' \<leftarrow> fs_construct_next ty v s; fs_push_all ty C vs s' })"

definition fs_from_list :: "'a elem_type \<Rightarrow> usize \<Rightarrow> 'a list \<Rightarrow> ((exn + unit) \<times> 'a fixed_stack) option" where
  "fs_from_list ty C il = fs_push_all ty C il (fs_new C)"

definition fs_copy :: "'a elem_type \<Rightarrow> usize \<Rightarrow> 'a fixed_stack \<Rightarrow> 'a fixed_stack option" where
  "fs_copy ty C rhs = do {
     m \<leftarrow> copy_elems ty (fs_size rhs) (fs_storage rhs) (fs_storage (fs_new C));
     Some \<lparr>fs_storage = m, fs_size = fs_size rhs\<rparr>
   }"

text \<open>The move constructor returns the new stack and the state of \<open>rhs\<close> after it.\<close>

definition fs_move :: "'a elem_type \<Rightarrow> usize \<Rightarrow> 'a fixed_stack \<Rightarrow>
    ('a fixed_stack \<times> 'a fixed_stack) option" where
  "fs_move ty C rhs = do {
     (dst, src) \<leftarrow> move_elems ty (fs_size rhs) (fs_storage (fs_new C), fs_storage rhs);
     rhs' \<leftarrow> fs_clear ty (rhs\<lparr>fs_storage := src\<rparr>);
     Some (\<lparr>fs_storage = dst, fs_size = fs_size rhs\<rparr>, rhs')
   }"

fun fs_assign :: "'a elem_type \<Rightarrow> 'a fixed_stack \<Rightarrow> 'a fixed_stack operand \<Rightarrow> 'a fixed_stack option" where
  "fs_assign ty s Self = Some s"
| "fs_assign ty s (Other rhs) = do {
     s1 \<leftarrow> fs_clear ty s;
     m \<leftarrow> copy_elems ty (fs_size rhs) (fs_storage rhs) (fs_storage s1);
     Some \<lparr>fs_storage = m, fs_size = fs_size rhs\<rparr>
   }"

text \<open>Move assignment returns both operands.\<close>

fun fs_assign_move :: "'a elem_type \<Rightarrow> 'a fixed_stack \<Rightarrow> 'a fixed_stack operand \<Rightarrow>
    ('a fixed_stack \<times> 'a fixed_stack operand) option" where
  "fs_assign_move ty s Self = Some (s, Self)"
| "fs_assign_move ty s (Other rhs) = do {
     s1 \<leftarrow> fs_clear ty s;
     (dst, src) \<leftarrow> move_elems ty (fs_size rhs) (fs_storage s1, fs_storage rhs);
     rhs' \<leftarrow> fs_clear ty (rhs\<lparr>fs_storage := src\<rparr>);
     Some (\<lparr>fs_storage = dst, fs_size = fs_size rhs\<rparr>, Other rhs')
   }"

text \<open>
  \<open>std::swap\<close> of two live elements; \<open>swap\<close> then moves the tail of the larger stack.
\<close>

definition fs_swap_elem :: "usize \<Rightarrow> 'a slots \<times> 'a slots \<Rightarrow> ('a slots \<times> 'a slots) option" where
  "fs_swap_elem i = (\<lambda>(a, b). do {
     x \<leftarrow> slot_read (unat i) a;
     y \<leftarrow> slot_read (unat i) b;
     Some (a[unat i := Some y], b[unat i := Some x])
   })"

definition fs_swap :: "'a elem_type \<Rightarrow> 'a fixed_stack \<Rightarrow> 'a fixed_stack \<Rightarrow>
    ('a fixed_stack \<times> 'a fixed_stack) option" where
  "fs_swap ty s other = do {
     let common = (if fs_size s < fs_size other then fs_size s else fs_size other);
     (a, b) \<leftarrow> for_range 0 common fs_swap_elem (fs_storage s, fs_storage other);
     (a', b') \<leftarrow> (if fs_size s < fs_size other
                  then for_range (fs_size s) (fs_size other) (\<lambda>i. slot_transfer ty (unat i) (unat i)) (a, b)
                  else map_option prod.swap
                         (for_range (fs_size other) (fs_size s) (\<lambda>i. slot_transfer ty (unat i) (unat i)) (b, a)));
     Some (\<lparr>fs_storage = a', fs_size = fs_size other\<rparr>, \<lparr>fs_storage = b', fs_size = fs_size s\<rparr>)
   }"

text \<open>Comparison; \<open>eq\<close> is the element's \<open>operator==\<close>.\<close>

definition fs_eq :: "('a \<Rightarrow> 'a \<Rightarrow> bool) \<Rightarrow> 'a fixed_stack \<Rightarrow> 'a fixed_stack \<Rightarrow> bool option" where
  "fs_eq eq s rhs =
     (if fs_size s \<noteq> fs_size rhs then Some False
      else all_range 0 (fs_size s) (\<lambda>i. do {
        x \<leftarrow> slot_read (unat i) (fs_storage s);
        y \<leftarrow> slot_read (unat i) (fs_storage rhs);
        Some (eq x y)
      }))"

definition fs_neq :: "('a \<Rightarrow> 'a \<Rightarrow> bool) \<Rightarrow> 'a fixed_stack \<Rightarrow> 'a fixed_stack \<Rightarrow> bool option" where
  "fs_neq eq s rhs = map_option Not (fs_eq eq s rhs)"

section \<open>Representation\<close>

text \<open>The stack holds \<open>xs\<close>, bottom first.\<close>

definition fs_rep :: "'a elem_type \<Rightarrow> usize \<Rightarrow> 'a list \<Rightarrow> 'a fixed_stack \<Rightarrow> bool" where
  "fs_rep ty C xs s \<longleftrightarrow> 0 < unat C \<and> length (fs_storage s) = unat C \<and>
     unat (fs_size s) = length xs \<and> lin_rep ty xs (fs_storage s)"

definition fs_list :: "'a fixed_stack \<Rightarrow> 'a list" where
  "fs_list s = map the (take (unat (fs_size s)) (fs_storage s))"

definition fs_contents :: "'a fixed_stack \<Rightarrow> 'a list" where
  "fs_contents s = rev (fs_list s)"

definition fs_inv :: "'a elem_type \<Rightarrow> usize \<Rightarrow> 'a fixed_stack \<Rightarrow> bool" where
  "fs_inv ty C s \<longleftrightarrow> fs_rep ty C (fs_list s) s"

definition fs_cap :: "'a fixed_stack \<Rightarrow> nat" where
  "fs_cap s = length (fs_storage s)"

lemma fs_rep_list: "fs_rep ty C xs s \<Longrightarrow> fs_list s = xs"
  by (auto simp: fs_rep_def fs_list_def intro: lin_rep_contents)

lemma fs_rep_inv: "fs_rep ty C xs s \<Longrightarrow> fs_inv ty C s"
  by (simp add: fs_inv_def fs_rep_list)

lemma fs_rep_contents: "fs_rep ty C xs s \<Longrightarrow> fs_contents s = rev xs"
  by (simp add: fs_contents_def fs_rep_list)

lemma fs_rep_cap: "fs_rep ty C xs s \<Longrightarrow> fs_cap s = unat C"
  by (simp add: fs_cap_def fs_rep_def)

lemma fs_invE:
  assumes "fs_inv ty C s"
  obtains "fs_rep ty C (rev (fs_contents s)) s"
  using assms by (simp add: fs_inv_def fs_contents_def)

lemma fs_rep_size:
  assumes "fs_rep ty C xs s"
  shows "length xs \<le> unat C" "fs_size s = C \<longleftrightarrow> length xs = unat C" "fs_size s = 0 \<longleftrightarrow> xs = []"
  using assms lin_repD(1) [of ty xs "fs_storage s"]
  by (auto simp: fs_rep_def usize_eq_iff)

lemma fs_rep_new: "0 < unat C \<Longrightarrow> fs_rep ty C [] (fs_new C)"
  by (simp add: fs_rep_def fs_new_def)

lemma fs_construct_next_rep:
  assumes "fs_rep ty C xs s" "length xs < unat C"
  shows "\<exists>s'. fs_construct_next ty x s = Some s' \<and> fs_rep ty C (xs @ [x]) s'"
proof -
  have r: "lin_rep ty xs (fs_storage s)" "length (fs_storage s) = unat C"
      "unat (fs_size s) = length xs"
    using assms(1) by (auto simp: fs_rep_def)
  moreover have "fs_size s < C" using r assms(2) by (simp add: word_less_nat_alt)
  ultimately show ?thesis
    using lin_rep_push [of ty xs "fs_storage s" x] assms
    by (auto simp: fs_construct_next_def fs_rep_def unat_simps)
qed

lemma fs_try_push_rep:
  assumes "fs_rep ty C xs s"
  shows "length xs < unat C \<Longrightarrow>
           \<exists>s'. fs_try_push ty C x s = Some (True, s') \<and> fs_rep ty C (xs @ [x]) s'"
    and "length xs = unat C \<Longrightarrow> fs_try_push ty C x s = Some (False, s)"
  using fs_construct_next_rep [OF assms, of x] fs_rep_size [OF assms]
  by (auto simp: fs_try_push_def)

lemma fs_try_emplace_eq: "fs_try_emplace ty C mk args s = fs_try_push ty C (mk args) s"
  by (simp add: fs_try_emplace_def fs_try_push_def)

lemma fs_dec_size:
  assumes "fs_rep ty C (xs @ [x]) s"
  shows "fs_size s \<noteq> 0" "unat (fs_size s - 1) = length xs"
  using assms fs_rep_size(3) [OF assms] by (auto simp: fs_rep_def unat_simps)

lemma fs_top_rep: "fs_rep ty C (xs @ [x]) s \<Longrightarrow> fs_top s = Some x"
  using fs_dec_size [of ty C xs x s] lin_rep_pop(1) [of ty xs x "fs_storage s"]
  by (simp add: fs_top_def fs_rep_def)

lemma fs_try_pop_rep:
  assumes "fs_rep ty C (xs @ [x]) s"
  shows "\<exists>s'. fs_try_pop ty s = Some (Some x, s') \<and> fs_rep ty C xs s'"
proof -
  have r: "lin_rep ty (xs @ [x]) (fs_storage s)" using assms by (simp add: fs_rep_def)
  show ?thesis
    using lin_rep_pop(2) [OF r] lin_rep_pop(4) [OF r, of "moved_from ty x"] fs_dec_size [OF assms] assms
    by (auto simp: fs_try_pop_def Let_def fs_rep_def)
qed

lemma fs_pop_rep:
  assumes "fs_rep ty C (xs @ [x]) s"
  shows "\<exists>s'. fs_pop ty s = Some (Inr (), s') \<and> fs_try_pop_discard ty s = Some (True, s') \<and>
           fs_rep ty C xs s'"
proof -
  have r: "lin_rep ty (xs @ [x]) (fs_storage s)" using assms by (simp add: fs_rep_def)
  show ?thesis
    using lin_rep_pop(3) [OF r] fs_dec_size [OF assms] assms
    by (auto simp: fs_pop_def fs_try_pop_discard_def Let_def fs_rep_def)
qed

lemma fs_pop_empty:
  assumes "fs_rep ty C [] s"
  shows "fs_try_pop ty s = Some (None, s)" "fs_pop ty s = Some (Inl Underflow_error, s)"
    "fs_try_pop_discard ty s = Some (False, s)"
  using fs_rep_size(3) [OF assms]
  by (simp_all add: fs_try_pop_def fs_pop_def fs_try_pop_discard_def)

section \<open>The stack contract\<close>

interpretation fs: bounded_lifo "fs_inv ty C" fs_contents fs_cap "fs_try_push ty C" "fs_try_pop ty"
  for ty :: "'a elem_type" and C
proof unfold_locales
  fix s :: "'a fixed_stack" and x
  assume "fs_inv ty C s"
  then have r: "fs_rep ty C (rev (fs_contents s)) s" by (rule fs_invE)
  note facts = fs_rep_contents fs_rep_cap fs_rep_inv
  show "\<exists>s'. fs_try_push ty C x s = Some (True, s') \<and> fs_inv ty C s' \<and>
             fs_contents s' = x # fs_contents s \<and> fs_cap s' = fs_cap s"
    if room: "length (fs_contents s) < fs_cap s"
  proof -
    obtain s' where "fs_try_push ty C x s = Some (True, s')"
        "fs_rep ty C (rev (fs_contents s) @ [x]) s'"
      using fs_try_push_rep(1) [OF r, of x] room fs_rep_cap [OF r] by auto
    with fs_rep_cap [OF r] show ?thesis by (auto dest: facts)
  qed
  show "fs_try_push ty C x s = Some (False, s)" if "\<not> length (fs_contents s) < fs_cap s"
    using fs_try_push_rep(2) [OF r, of x] fs_rep_size(1) [OF r] fs_rep_cap [OF r] that by simp
  show "\<exists>s'. fs_try_pop ty s = Some (Some x, s') \<and> fs_inv ty C s' \<and>
             fs_contents s' = xs \<and> fs_cap s' = fs_cap s"
    if "fs_contents s = x # xs" for xs
  proof -
    have "fs_rep ty C (rev xs @ [x]) s" using r that by simp
    from fs_try_pop_rep [OF this] obtain s' where "fs_try_pop ty s = Some (Some x, s')"
        "fs_rep ty C (rev xs) s'"
      by blast
    with fs_rep_cap [OF r] show ?thesis by (auto dest: facts)
  qed
  show "fs_try_pop ty s = Some (None, s)" if "fs_contents s = []"
    using r that fs_pop_empty(1) by simp
qed

section \<open>Clearing, copying, moving\<close>

lemma fs_clear_rep:
  assumes "fs_rep ty C xs s"
  shows "\<exists>s'. fs_clear ty s = Some s' \<and> fs_rep ty C [] s'"
proof -
  have "lin_rep ty xs (fs_storage s)" "unat (fs_size s) = length xs"
    using assms by (auto simp: fs_rep_def)
  from destroy_down_rep [OF this] assms show ?thesis
    by (auto simp: fs_clear_def fs_rep_def lin_rep_def)
qed

lemma fs_copy_into:
  assumes "fs_rep ty C xs rhs" "fs_rep ty C [] s"
  shows "\<exists>m. copy_elems ty (fs_size rhs) (fs_storage rhs) (fs_storage s) = Some m \<and>
           fs_rep ty C xs \<lparr>fs_storage = m, fs_size = fs_size rhs\<rparr>"
  using copy_elems_rep [of ty xs "fs_storage rhs" "fs_storage s" "fs_size rhs"]
    assms fs_rep_size(1) [OF assms(1)]
  by (auto simp: fs_rep_def)

lemma fs_move_into:
  assumes "fs_rep ty C xs rhs" "fs_rep ty C [] s"
  shows "\<exists>m src rhs'. move_elems ty (fs_size rhs) (fs_storage s, fs_storage rhs) = Some (m, src) \<and>
           fs_rep ty C xs \<lparr>fs_storage = m, fs_size = fs_size rhs\<rparr> \<and>
           fs_clear ty (rhs\<lparr>fs_storage := src\<rparr>) = Some rhs' \<and> fs_rep ty C [] rhs'"
proof -
  obtain m src where m: "move_elems ty (fs_size rhs) (fs_storage s, fs_storage rhs) = Some (m, src)"
      "length m = unat C" "length src = unat C" "lin_rep ty xs m" "lin_rep ty (map (moved_from ty) xs) src"
    using move_elems_rep [of ty xs "fs_storage rhs" "fs_storage s" "fs_size rhs"]
      assms fs_rep_size(1) [OF assms(1)]
    by (auto simp: fs_rep_def)
  have "fs_rep ty C (map (moved_from ty) xs) (rhs\<lparr>fs_storage := src\<rparr>)"
    using assms(1) m by (simp add: fs_rep_def)
  from fs_clear_rep [OF this] obtain rhs' where
    "fs_clear ty (rhs\<lparr>fs_storage := src\<rparr>) = Some rhs'" "fs_rep ty C [] rhs'"
    by blast
  moreover have "fs_rep ty C xs \<lparr>fs_storage = m, fs_size = fs_size rhs\<rparr>"
    using assms(1) m by (simp add: fs_rep_def)
  ultimately show ?thesis using m(1) by blast
qed

lemma fs_copy_rep:
  assumes "fs_rep ty C xs rhs"
  shows "\<exists>s. fs_copy ty C rhs = Some s \<and> fs_rep ty C xs s"
  using fs_copy_into [OF assms fs_rep_new] assms by (auto simp: fs_copy_def fs_rep_def)

lemma fs_move_rep:
  assumes "fs_rep ty C xs rhs"
  shows "\<exists>s rhs'. fs_move ty C rhs = Some (s, rhs') \<and> fs_rep ty C xs s \<and> fs_rep ty C [] rhs'"
proof -
  have "0 < unat C" using assms by (simp add: fs_rep_def)
  from fs_move_into [OF assms fs_rep_new [OF this]] show ?thesis by (auto simp: fs_move_def)
qed

lemma fs_assign_rep:
  assumes "fs_rep ty C xs rhs" "fs_rep ty C ys s"
  shows "\<exists>s'. fs_assign ty s (Other rhs) = Some s' \<and> fs_rep ty C xs s'"
    "\<exists>s' rhs'. fs_assign_move ty s (Other rhs) = Some (s', Other rhs') \<and>
       fs_rep ty C xs s' \<and> fs_rep ty C [] rhs'"
proof -
  obtain s1 where s1: "fs_clear ty s = Some s1" "fs_rep ty C [] s1"
    using fs_clear_rep [OF assms(2)] by blast
  show "\<exists>s'. fs_assign ty s (Other rhs) = Some s' \<and> fs_rep ty C xs s'"
    using fs_copy_into [OF assms(1) s1(2)] s1 by auto
  show "\<exists>s' rhs'. fs_assign_move ty s (Other rhs) = Some (s', Other rhs') \<and>
      fs_rep ty C xs s' \<and> fs_rep ty C [] rhs'"
    using fs_move_into [OF assms(1) s1(2)] s1 by auto
qed

section \<open>Construction from a list\<close>

lemma fs_push_all_rep:
  assumes "fs_rep ty C xs s" "length xs + length vs \<le> unat C"
  shows "\<exists>s'. fs_push_all ty C vs s = Some (Inr (), s') \<and> fs_rep ty C (xs @ vs) s'"
  using assms
proof (induction vs arbitrary: xs s)
  case Nil
  then show ?case by simp
next
  case (Cons v vs)
  then have "length xs < unat C" by simp
  then obtain s1 where s1: "fs_construct_next ty v s = Some s1" "fs_rep ty C (xs @ [v]) s1"
    using fs_construct_next_rep [OF Cons.prems(1), of v] by blast
  have "fs_size s \<noteq> C" using fs_rep_size(2) [OF Cons.prems(1)] \<open>length xs < unat C\<close> by simp
  moreover obtain s' where "fs_push_all ty C vs s1 = Some (Inr (), s')"
      "fs_rep ty C ((xs @ [v]) @ vs) s'"
    using Cons.IH [OF s1(2)] Cons.prems(2) by auto
  ultimately show ?case using s1(1) by simp
qed

lemma fs_push_all_overflow:
  assumes "fs_rep ty C xs s" "unat C < length xs + length vs"
  shows "\<exists>s'. fs_push_all ty C vs s = Some (Inl Overflow_error, s') \<and>
           fs_rep ty C (xs @ take (unat C - length xs) vs) s'"
  using assms
proof (induction vs arbitrary: xs s)
  case Nil
  then show ?case using fs_rep_size(1) [OF Nil.prems(1)] by simp
next
  case (Cons v vs)
  show ?case
  proof (cases "fs_size s = C")
    case True
    then have "length xs = unat C" using fs_rep_size(2) [OF Cons.prems(1)] by simp
    with True Cons.prems(1) show ?thesis by simp
  next
    case False
    then have l: "length xs < unat C"
      using fs_rep_size(1,2) [OF Cons.prems(1)] by linarith
    then obtain s1 where s1: "fs_construct_next ty v s = Some s1" "fs_rep ty C (xs @ [v]) s1"
      using fs_construct_next_rep [OF Cons.prems(1), of v] by blast
    obtain s' where "fs_push_all ty C vs s1 = Some (Inl Overflow_error, s')"
        "fs_rep ty C ((xs @ [v]) @ take (unat C - length (xs @ [v])) vs) s'"
      using Cons.IH [OF s1(2)] Cons.prems(2) by auto
    moreover have "unat C - length xs = Suc (unat C - Suc (length xs))" using l by simp
    ultimately show ?thesis using s1(1) False by simp
  qed
qed

section \<open>Swapping\<close>

lemma swap_common:
  assumes "lin_rep ty xs a" "lin_rep ty ys b" "unat n \<le> length xs" "unat n \<le> length ys"
  shows "\<exists>a' b'. for_range 0 n fs_swap_elem (a, b) = Some (a', b') \<and>
           length a' = length a \<and> length b' = length b \<and>
           lin_rep ty (take (unat n) ys @ drop (unat n) xs) a' \<and>
           lin_rep ty (take (unat n) xs @ drop (unat n) ys) b'"
proof -
  define P where "P k ab \<longleftrightarrow> length (fst ab) = length a \<and> length (snd ab) = length b \<and>
      lin_rep ty (take k ys @ drop k xs) (fst ab) \<and> lin_rep ty (take k xs @ drop k ys) (snd ab)"
    for k and ab :: "'a slots \<times> 'a slots"
  have next_elem: "(take k us @ drop k vs)[k := us ! k] = take (Suc k) us @ drop (Suc k) vs"
    "(take k us @ drop k vs) ! k = vs ! k"
    if "k < length us" "k < length vs" for k and us vs :: "'a list"
    using that by (simp_all add: nth_append list_update_append take_Suc_conv_app_nth
        Cons_nth_drop_Suc [symmetric])
  have "\<exists>ab. for_range 0 n fs_swap_elem (a, b) = Some ab \<and> P (unat n) ab"
  proof (rule for_range_rule)
    fix i ab
    assume "i < n" and P: "P (unat i) ab"
    then have i: "unat i < length xs" "unat i < length ys"
      using assms(3,4) by (auto simp: word_less_nat_alt)
    obtain a1 b1 where ab: "ab = (a1, b1)" by fastforce
    let ?u = "take (unat i) ys @ drop (unat i) xs" and ?v = "take (unat i) xs @ drop (unat i) ys"
    have l: "unat i < length ?u" "unat i < length ?v" using i by auto
    have a1: "lin_rep ty ?u a1" and b1: "lin_rep ty ?v b1" using P ab by (auto simp: P_def)
    have "slot_read (unat i) a1 = Some (xs ! unat i)" "slot_read (unat i) b1 = Some (ys ! unat i)"
      using hold_read [OF a1 [unfolded lin_rep_hold]] hold_read [OF b1 [unfolded lin_rep_hold]] l i
      by (simp_all add: next_elem(2))
    then show "\<exists>ab'. fs_swap_elem i ab = Some ab' \<and> P (Suc (unat i)) ab'"
      using lin_rep_update [OF a1 l(1), of "ys ! unat i"] lin_rep_update [OF b1 l(2), of "xs ! unat i"]
        P ab i
      by (simp add: fs_swap_elem_def P_def next_elem)
  qed (use assms in \<open>simp_all add: P_def\<close>)
  then show ?thesis by (auto simp: P_def)
qed

lemma transfer_tail:
  assumes "lin_rep ty xs dst" "lin_rep ty ys src" "unat lo = length xs" "unat hi = length ys"
    "unat lo \<le> unat hi" "length ys \<le> length dst"
  shows "\<exists>dst' src'. for_range lo hi (\<lambda>i. slot_transfer ty (unat i) (unat i)) (dst, src) = Some (dst', src') \<and>
           length dst' = length dst \<and> length src' = length src \<and>
           lin_rep ty (xs @ drop (length xs) ys) dst' \<and> lin_rep ty (take (length xs) ys) src'"
proof -
  define left where "left k = (\<lambda>i. if length xs \<le> i \<and> i < k then None else elem_at ys i)" for k
  define P where "P k ds \<longleftrightarrow> length (fst ds) = length dst \<and> length (snd ds) = length src \<and>
      slots_hold ty (elem_at (xs @ take (k - length xs) (drop (length xs) ys))) (fst ds) \<and>
      slots_hold ty (left k) (snd ds)"
    for k and ds :: "'a slots \<times> 'a slots"
  have "\<exists>ds. for_range lo hi (\<lambda>i. slot_transfer ty (unat i) (unat i)) (dst, src) = Some ds \<and> P (unat hi) ds"
  proof (rule for_range_rule)
    have "left (unat lo) = elem_at ys" using assms(3) by (auto simp: left_def)
    then show "P (unat lo) (dst, src)" using assms by (simp add: P_def lin_rep_hold)
    fix i ds
    assume "unat lo \<le> unat i" "i < hi" and P: "P (unat i) ds"
    then have i: "length xs \<le> unat i" "unat i < length ys"
      using assms by (auto simp: word_less_nat_alt)
    obtain d s where ds: "ds = (d, s)" by fastforce
    let ?zs = "\<lambda>k. xs @ take (k - length xs) (drop (length xs) ys)"
    have len: "length (?zs (unat i)) = unat i" using i by simp
    have "(elem_at (?zs (unat i)))(unat i := Some (ys ! unat i)) = elem_at (?zs (Suc (unat i)))"
      using i len by (auto simp: elem_at_def fun_eq_iff nth_append Suc_diff_le take_Suc_conv_app_nth)
    moreover have "(left (unat i))(unat i := None) = left (Suc (unat i))"
      using i by (auto simp: left_def fun_eq_iff)
    moreover have "left (unat i) (unat i) = Some (ys ! unat i)" using i by (simp add: left_def)
    moreover have "elem_at (?zs (unat i)) (unat i) = None" using len by simp
    moreover have "unat i < length d" using P ds i assms(6) by (simp add: P_def)
    ultimately show "\<exists>ds'. slot_transfer ty (unat i) (unat i) ds = Some ds' \<and> P (Suc (unat i)) ds'"
      using hold_transfer [of ty "left (unat i)" s "unat i" "ys ! unat i" "elem_at (?zs (unat i))" d "unat i"]
        P ds
      by (auto simp: P_def)
  qed (use assms in simp)
  moreover have "left (unat hi) = elem_at (take (length xs) ys)"
    using assms by (auto simp: left_def elem_at_def fun_eq_iff)
  ultimately show ?thesis using assms by (auto simp: P_def lin_rep_hold)
qed

lemma fs_swap_smaller:
  assumes "lin_rep ty xs a" "lin_rep ty ys b" "unat m = length xs" "unat n = length ys"
    "length xs \<le> length ys" "length ys \<le> length a"
  shows "\<exists>a1 b1 a2 b2. for_range 0 m fs_swap_elem (a, b) = Some (a1, b1) \<and>
      for_range m n (\<lambda>i. slot_transfer ty (unat i) (unat i)) (a1, b1) = Some (a2, b2) \<and>
      length a2 = length a \<and> length b2 = length b \<and> lin_rep ty ys a2 \<and> lin_rep ty xs b2"
proof -
  obtain a1 b1 where 1: "for_range 0 m fs_swap_elem (a, b) = Some (a1, b1)"
      "length a1 = length a" "length b1 = length b"
      "lin_rep ty (take (length xs) ys) a1" "lin_rep ty (xs @ drop (length xs) ys) b1"
    using swap_common [OF assms(1,2), of m] assms(3,5) by auto
  obtain a2 b2 where "for_range m n (\<lambda>i. slot_transfer ty (unat i) (unat i)) (a1, b1) = Some (a2, b2)"
      "length a2 = length a1" "length b2 = length b1"
      "lin_rep ty (take (length xs) ys @ drop (length xs) (xs @ drop (length xs) ys)) a2"
      "lin_rep ty xs b2"
    using transfer_tail [OF 1(4,5), of m n] assms 1(2) by (auto simp: min_absorb2)
  with 1 show ?thesis by auto
qed

lemma swap_common_comm:
  fixes a b :: "'a slots"
  assumes "for_range 0 n fs_swap_elem (a, b) = Some (a', b')"
  shows "for_range 0 n fs_swap_elem (b, a) = Some (b', a')"
proof -
  have "for_range i n fs_swap_elem (prod.swap ab) =
        map_option prod.swap (for_range i n fs_swap_elem ab)" for i and ab :: "'a slots \<times> 'a slots"
  proof (induction i n "fs_swap_elem :: usize \<Rightarrow> 'a slots \<times> 'a slots \<Rightarrow> _" ab
      rule: for_range.induct)
    case (1 i n ab)
    obtain a b where ab: "ab = (a, b)" by fastforce
    have "fs_swap_elem i (b, a) = map_option prod.swap (fs_swap_elem i (a, b))"
      by (cases "slot_read (unat i) a"; cases "slot_read (unat i) b") (simp_all add: fs_swap_elem_def)
    then show ?case
      using 1 ab by (cases "fs_swap_elem i (a, b)") (simp_all add: for_range.simps [of i])
  qed
  from this [of 0 "(a, b)"] assms show ?thesis by simp
qed

lemma fs_swap_rep:
  assumes "fs_rep ty C xs s" "fs_rep ty C ys t"
  shows "\<exists>s' t'. fs_swap ty s t = Some (s', t') \<and> fs_rep ty C ys s' \<and> fs_rep ty C xs t'"
proof -
  note r = assms [unfolded fs_rep_def]
  have le: "fs_size s < fs_size t \<longleftrightarrow> length xs < length ys"
    using r by (simp add: word_less_nat_alt)
  have cap: "length xs \<le> unat C" "length ys \<le> unat C"
    using assms [THEN fs_rep_size(1)] .
  show ?thesis
  proof (cases "fs_size s < fs_size t")
    case True
    then obtain a1 b1 a2 b2 where
      "for_range 0 (fs_size s) fs_swap_elem (fs_storage s, fs_storage t) = Some (a1, b1)"
      "for_range (fs_size s) (fs_size t) (\<lambda>i. slot_transfer ty (unat i) (unat i)) (a1, b1) = Some (a2, b2)"
      "length a2 = unat C" "length b2 = unat C" "lin_rep ty ys a2" "lin_rep ty xs b2"
      using fs_swap_smaller [of ty xs "fs_storage s" ys "fs_storage t" "fs_size s" "fs_size t"] r le cap
      by auto
    with True r show ?thesis by (simp add: fs_swap_def Let_def fs_rep_def)
  next
    case False
    then have "length ys \<le> length xs" using le by simp
    then obtain b1 a1 b2 a2 where
      c: "for_range 0 (fs_size t) fs_swap_elem (fs_storage t, fs_storage s) = Some (b1, a1)"
      and "for_range (fs_size t) (fs_size s) (\<lambda>i. slot_transfer ty (unat i) (unat i)) (b1, a1) = Some (b2, a2)"
      "length b2 = unat C" "length a2 = unat C" "lin_rep ty xs b2" "lin_rep ty ys a2"
      using fs_swap_smaller [of ty ys "fs_storage t" xs "fs_storage s" "fs_size t" "fs_size s"] r cap
      by auto
    moreover note swap_common_comm [OF c]
    ultimately show ?thesis using False r by (simp add: fs_swap_def Let_def fs_rep_def)
  qed
qed

section \<open>Comparison\<close>

lemma fs_eq_rep:
  assumes "fs_rep ty C xs s" "fs_rep ty C ys t"
  shows "fs_eq eq s t = Some (list_all2 eq xs ys)"
proof (cases "length xs = length ys")
  case True
  have "all_range 0 (fs_size s) (\<lambda>i. do {
        x \<leftarrow> slot_read (unat i) (fs_storage s);
        y \<leftarrow> slot_read (unat i) (fs_storage t);
        Some (eq x y) }) =
      Some (\<forall>k. unat (0 :: usize) \<le> k \<and> k < unat (fs_size s) \<longrightarrow> eq (xs ! k) (ys ! k))"
  proof (rule all_range_eq)
    fix i assume "i < fs_size s"
    then have "unat i < length xs" "unat i < length ys"
      using assms True by (auto simp: fs_rep_def word_less_nat_alt)
    then show "(do {
        x \<leftarrow> slot_read (unat i) (fs_storage s);
        y \<leftarrow> slot_read (unat i) (fs_storage t);
        Some (eq x y) }) = Some (eq (xs ! unat i) (ys ! unat i))"
      using assms hold_read [of ty "elem_at xs" "fs_storage s" "unat i"]
        hold_read [of ty "elem_at ys" "fs_storage t" "unat i"]
      by (simp add: fs_rep_def lin_rep_hold)
  qed
  with True assms show ?thesis
    by (auto simp: fs_eq_def fs_rep_def list_all2_conv_all_nth usize_eq_iff)
next
  case False
  then show ?thesis
    using assms list_all2_lengthD [of eq xs ys] by (auto simp: fs_eq_def fs_rep_def usize_eq_iff)
qed

section \<open>Properties\<close>

text \<open>
  Any sequence of \<open>try_push\<close> and \<open>try_pop\<close> on a new fixed stack runs without undefined
  behaviour and returns exactly what a bounded list used last-in first-out returns; the
  stack holds the list's elements in the end.
\<close>

theorem fixed_stack_refines_bounded_stack:
  assumes "0 < unat C"
  shows "\<exists>outs s. run_ops (container_step (fs_try_push ty C) (fs_try_pop ty)) ops (fs_new C) = Some (outs, s) \<and>
           run_ops (stack_spec (unat C)) ops [] = Some (outs, fs_contents s) \<and> fs_inv ty C s"
proof -
  note r = fs_rep_new [OF assms, of ty]
  show ?thesis
    using fs.run_refines [OF fs_rep_inv [OF r], of ops] fs_rep_contents [OF r] fs_rep_cap [OF r] by auto
qed

theorem fixed_stack_refines_bounded_stack_witness:
  "\<exists>outs s. run_ops (container_step (fs_try_push \<lparr>is_trivial = False, residue = \<lambda>_. 0 :: int\<rparr> 2)
       (fs_try_pop \<lparr>is_trivial = False, residue = \<lambda>_. 0\<rparr>)) [Push 1, Push 2, Push 3, Pop] (fs_new 2) = Some (outs, s) \<and>
     outs = [Pushed True, Pushed True, Pushed False, Popped (Some 2)] \<and> fs_contents s = [1]"
  using fixed_stack_refines_bounded_stack
    [of 2 "\<lparr>is_trivial = False, residue = \<lambda>_. 0 :: int\<rparr>" "[Push 1, Push 2, Push 3, Pop]"]
  by auto

text \<open>
  Copy construction and copy assignment give a stack with the source's elements and leave
  the source as it was; move construction and move assignment do the same and leave the source
  an empty stack with no live object; swap exchanges the elements of stacks of any two sizes;
  comparison is element-wise. None of them reaches undefined behaviour, none overwrites a live
  object that needs destruction.
\<close>

theorem fixed_stack_value_semantics:
  assumes "fs_inv ty C s" "fs_inv ty C t"
  shows "(\<exists>s'. fs_copy ty C t = Some s' \<and> fs_inv ty C s' \<and> fs_list s' = fs_list t) \<and>
    (\<exists>s'. fs_assign ty s (Other t) = Some s' \<and> fs_inv ty C s' \<and> fs_list s' = fs_list t) \<and>
    (\<exists>s' t'. fs_move ty C t = Some (s', t') \<and> fs_inv ty C s' \<and> fs_list s' = fs_list t \<and>
       fs_inv ty C t' \<and> fs_list t' = []) \<and>
    (\<exists>s' t'. fs_assign_move ty s (Other t) = Some (s', Other t') \<and> fs_inv ty C s' \<and>
       fs_list s' = fs_list t \<and> fs_inv ty C t' \<and> fs_list t' = []) \<and>
    (\<exists>s' t'. fs_swap ty s t = Some (s', t') \<and> fs_inv ty C s' \<and> fs_list s' = fs_list t \<and>
       fs_inv ty C t' \<and> fs_list t' = fs_list s) \<and>
    fs_eq eq s t = Some (list_all2 eq (fs_list s) (fs_list t))"
proof -
  have r: "fs_rep ty C (fs_list s) s" "fs_rep ty C (fs_list t) t"
    using assms by (simp_all add: fs_inv_def)
  note observe = fs_rep_list fs_rep_inv
  show ?thesis
  proof (intro conjI)
    show "\<exists>s'. fs_copy ty C t = Some s' \<and> fs_inv ty C s' \<and> fs_list s' = fs_list t"
      using fs_copy_rep [OF r(2)] by (blast intro: observe)
    show "\<exists>s'. fs_assign ty s (Other t) = Some s' \<and> fs_inv ty C s' \<and> fs_list s' = fs_list t"
      using fs_assign_rep(1) [OF r(2,1)] by (blast intro: observe)
    show "\<exists>s' t'. fs_move ty C t = Some (s', t') \<and> fs_inv ty C s' \<and> fs_list s' = fs_list t \<and>
        fs_inv ty C t' \<and> fs_list t' = []"
      using fs_move_rep [OF r(2)] by (blast intro: observe)
    show "\<exists>s' t'. fs_assign_move ty s (Other t) = Some (s', Other t') \<and> fs_inv ty C s' \<and>
        fs_list s' = fs_list t \<and> fs_inv ty C t' \<and> fs_list t' = []"
      using fs_assign_rep(2) [OF r(2,1)] by (blast intro: observe)
    show "\<exists>s' t'. fs_swap ty s t = Some (s', t') \<and> fs_inv ty C s' \<and> fs_list s' = fs_list t \<and>
        fs_inv ty C t' \<and> fs_list t' = fs_list s"
      using fs_swap_rep [OF r] by (blast intro: observe)
  qed (rule fs_eq_rep [OF r])
qed

theorem fixed_stack_value_semantics_witness:
  "\<exists>s t s' t'. fs_from_list \<lparr>is_trivial = False, residue = \<lambda>_. 0 :: int\<rparr> 3 [1] = Some (Inr (), s) \<and>
     fs_from_list \<lparr>is_trivial = False, residue = \<lambda>_. 0\<rparr> 3 [7, 8, 9] = Some (Inr (), t) \<and>
     fs_swap \<lparr>is_trivial = False, residue = \<lambda>_. 0\<rparr> s t = Some (s', t') \<and>
     fs_list s' = [7, 8, 9] \<and> fs_list t' = [1]"
proof -
  let ?ty = "\<lparr>is_trivial = False, residue = \<lambda>_. 0 :: int\<rparr>"
  have n: "fs_rep ?ty 3 [] (fs_new 3)" by (rule fs_rep_new) simp
  obtain s where s: "fs_from_list ?ty 3 [1] = Some (Inr (), s)" "fs_rep ?ty 3 [1] s"
    using fs_push_all_rep [OF n, of "[1]"] by (auto simp: fs_from_list_def)
  obtain t where t: "fs_from_list ?ty 3 [7, 8, 9] = Some (Inr (), t)" "fs_rep ?ty 3 [7, 8, 9] t"
    using fs_push_all_rep [OF n, of "[7, 8, 9]"] by (auto simp: fs_from_list_def)
  show ?thesis
    using fixed_stack_value_semantics [OF fs_rep_inv [OF s(2)] fs_rep_inv [OF t(2)], of "(=)"]
      s t fs_rep_list [OF s(2)] fs_rep_list [OF t(2)]
    by metis
qed

text \<open>
  The failing branches: on a full stack \<open>push\<close>, its rvalue overload and \<open>emplace\<close>
  throw \<open>overflow_error\<close> and on an empty one \<open>pop\<close> throws \<open>underflow_error\<close>, each
  without changing the stack (or the argument that was to be moved in); otherwise \<open>push\<close>,
  \<open>emplace\<close> and \<open>pop\<close> act as \<open>try_push\<close> and \<open>try_pop\<close>, \<open>top\<close> is the last element
  pushed, and \<open>emplace\<close> returns the place of the new element.
\<close>

theorem fixed_stack_throwing_operations:
  assumes "fs_inv ty C s"
  shows "(if length (fs_list s) = unat C
     then fs_push ty C x s = Some (Inl Overflow_error, s) \<and>
          fs_push_move ty C x s = Some (Inl Overflow_error, x, s) \<and>
          fs_emplace ty C mk args s = Some (Inl Overflow_error, s)
     else (\<exists>s'. fs_try_push ty C x s = Some (True, s') \<and> fs_push ty C x s = Some (Inr (), s') \<and>
             fs_push_move ty C x s = Some (Inr (), moved_from ty x, s') \<and> fs_top s' = Some x) \<and>
          (\<exists>s'. fs_emplace ty C mk args s = Some (Inr (fs_size s), s') \<and>
             fs_list s' = fs_list s @ [mk args] \<and> fs_top s' = Some (mk args))) \<and>
    (case rev (fs_list s) of
       [] \<Rightarrow> fs_pop ty s = Some (Inl Underflow_error, s)
     | y # ys \<Rightarrow> \<exists>s'. fs_pop ty s = Some (Inr (), s') \<and> fs_inv ty C s' \<and> fs_list s' = rev ys)"
proof -
  have r: "fs_rep ty C (fs_list s) s" using assms by (simp add: fs_inv_def)
  note full = fs_rep_size(2) [OF r]
  have pop: "case rev (fs_list s) of
       [] \<Rightarrow> fs_pop ty s = Some (Inl Underflow_error, s)
     | y # ys \<Rightarrow> \<exists>s'. fs_pop ty s = Some (Inr (), s') \<and> fs_inv ty C s' \<and> fs_list s' = rev ys"
  proof (cases "rev (fs_list s)")
    case Nil
    then show ?thesis using r fs_pop_empty(2) [of ty C s] by simp
  next
    case (Cons y ys)
    then have "fs_rep ty C (rev ys @ [y]) s" using r by simp
    from fs_pop_rep [OF this] Cons show ?thesis by (auto dest: fs_rep_list fs_rep_inv)
  qed
  show ?thesis
  proof (cases "length (fs_list s) = unat C")
    case True
    with full pop show ?thesis
      by (simp add: fs_push_def fs_try_push_def fs_push_move_def fs_try_push_move_def fs_emplace_def)
  next
    case False
    then have l: "length (fs_list s) < unat C" using fs_rep_size(1) [OF r] by simp
    from fs_construct_next_rep [OF r l, of x] fs_construct_next_rep [OF r l, of "mk args"]
    show ?thesis using False full pop
      by (auto simp: fs_push_def fs_try_push_def fs_push_move_def fs_try_push_move_def fs_emplace_def
          fs_top_rep dest: fs_rep_list)
  qed
qed

theorem fixed_stack_throwing_operations_witness:
  "fs_inv \<lparr>is_trivial = True, residue = id\<rparr> 2 (fs_new 2 :: int fixed_stack) \<and>
   fs_pop \<lparr>is_trivial = True, residue = id\<rparr> (fs_new 2 :: int fixed_stack) = Some (Inl Underflow_error, fs_new 2)"
proof -
  have r: "fs_rep \<lparr>is_trivial = True, residue = id\<rparr> 2 [] (fs_new 2 :: int fixed_stack)"
    by (rule fs_rep_new) simp
  show ?thesis
    using fixed_stack_throwing_operations [OF fs_rep_inv [OF r], of 0 id 0] fs_rep_list [OF r] fs_rep_inv [OF r]
    by simp
qed

text \<open>
  Constructing from an initializer list longer than the capacity throws
  \<open>overflow_error\<close>; the exception leaves the constructor after \<open>Capacity\<close> elements were
  constructed, and since the destructor of a partly constructed object does not run, all of
  them are still live in the abandoned storage.
\<close>

theorem fixed_stack_constructor_overflow_leaks:
  assumes "0 < unat C" "unat C < length il"
  shows "\<exists>s. fs_from_list ty C il = Some (Inl Overflow_error, s) \<and>
           fs_storage s = map Some (take (unat C) il)"
proof -
  obtain s where s: "fs_from_list ty C il = Some (Inl Overflow_error, s)"
      "fs_rep ty C (take (unat C) il) s"
    using fs_push_all_overflow [OF fs_rep_new [OF assms(1)], of il] assms(2)
    by (auto simp: fs_from_list_def)
  then have "fs_storage s = map Some (take (unat C) il)"
    using assms(2) by (auto simp: fs_rep_def lin_rep_def intro!: nth_equalityI)
  with s show ?thesis by blast
qed

theorem fixed_stack_constructor_overflow_leaks_witness:
  "\<exists>s. fs_from_list \<lparr>is_trivial = False, residue = \<lambda>_. 0 :: int\<rparr> 2 [4, 5, 6] = Some (Inl Overflow_error, s) \<and>
     fs_storage s = [Some 4, Some 5]"
  using fixed_stack_constructor_overflow_leaks
    [of 2 "[4, 5, 6]" "\<lparr>is_trivial = False, residue = \<lambda>_. 0 :: int\<rparr>"] by simp

end
