(* ===== verification/PowerOfTwo.thy ===== *)
theory PowerOfTwo
  imports HpcPrelude
begin

text \<open>
  Power-of-two capacities: the three routines of the code that round a capacity up, and the
  masks that replace the modulo operation of a circular index.
\<close>

section \<open>Powers of two and masks\<close>

definition is_po2 :: "usize \<Rightarrow> bool" where
  "is_po2 c \<longleftrightarrow> (\<exists>k < 64. unat c = 2 ^ k)"

lemma is_po2_pos: "is_po2 c \<Longrightarrow> 0 < unat c"
  by (auto simp: is_po2_def)

lemma is_po2_dvd:
  assumes "is_po2 c"
  shows "unat c dvd 2 ^ 64"
proof -
  obtain k where "k < 64" "unat c = 2 ^ k" using assms by (auto simp: is_po2_def)
  then show ?thesis by (metis le_imp_power_dvd less_imp_le)
qed

lemma unat_po2 [unat_simps]:
  assumes "k < 64"
  shows "unat (2 ^ k :: usize) = 2 ^ k"
proof -
  have "(2 :: nat) ^ k < 2 ^ 64" using assms by (rule power_strict_increasing) simp
  then show ?thesis using unat_of_nat_usize [of "2 ^ k"] by simp
qed

lemma is_po2_word: "unat (c :: usize) = 2 ^ k \<Longrightarrow> k < 64 \<Longrightarrow> c = 2 ^ k"
  by (simp add: usize_eq_iff unat_po2)

lemma is_po2_power: "k < 64 \<Longrightarrow> is_po2 (2 ^ k)"
  by (auto simp: is_po2_def unat_po2)

text \<open>\<open>x & (c - 1)\<close> is \<open>x % c\<close> when \<open>c\<close> is a power of two.\<close>

lemma unat_and_mask:
  assumes "is_po2 c"
  shows "unat (x AND (c - 1)) = unat x mod unat c"
proof -
  obtain k where k: "k < 64" "unat c = 2 ^ k" using assms by (auto simp: is_po2_def)
  then have "c - 1 = mask k" using is_po2_word [of c k] by (simp add: mask_eq_exp_minus_1)
  then have "x AND (c - 1) = take_bit k x" by (simp add: take_bit_eq_mask)
  then have "unat (x AND (c - 1)) = take_bit k (unat x)" by (simp only: unsigned_take_bit_eq)
  then show ?thesis using k by (simp add: take_bit_eq_mod)
qed

lemma and_mask_less: "is_po2 c \<Longrightarrow> unat (x AND (c - 1)) < unat c"
  by (simp add: unat_and_mask is_po2_pos)

section \<open>Rounding up\<close>

text \<open>
  \<open>fixed_queue::round_up_po2\<close>: unsigned arithmetic, so \<open>--v\<close> of 0 and \<open>v + 1\<close> of the
  largest value wrap around.
\<close>

definition smear :: "usize \<Rightarrow> usize" where
  "smear v =
     (let v = v OR drop_bit 1 v; v = v OR drop_bit 2 v; v = v OR drop_bit 4 v;
          v = v OR drop_bit 8 v; v = v OR drop_bit 16 v; v = v OR drop_bit 32 v in v)"

definition fixed_round_up_po2 :: "usize \<Rightarrow> usize" where
  "fixed_round_up_po2 v = smear (v - 1) + 1"

text \<open>\<open>queue::round_up_po2\<close> treats 0 first.\<close>

definition queue_round_up_po2 :: "usize \<Rightarrow> usize" where
  "queue_round_up_po2 v = (if v = 0 then 1 else smear (v - 1) + 1)"

text \<open>
  \<open>round_up_to_power_of_two\<close> of the two ring buffers: the shifts are made by a loop whose
  counter doubles, \<open>for (size_t i = 1; i < 64; i <<= 1) n |= n >> i\<close>.
\<close>

partial_function (option) smear_loop :: "usize \<Rightarrow> usize \<Rightarrow> usize option" where
  "smear_loop i n =
     (if i < 64 then smear_loop (push_bit 1 i) (n OR drop_bit (unat i) n) else Some n)"

declare smear_loop.simps [code]

definition round_up_to_power_of_two :: "usize \<Rightarrow> usize option" where
  "round_up_to_power_of_two n =
     (if n < 2 then Some 2 else map_option (\<lambda>n. n + 1) (smear_loop 1 (n - 1)))"

lemma smear_loop_terminates: "smear_loop 1 n = Some (smear n)"
  by (simp add: smear_loop.simps smear_def Let_def)

text \<open>\<open>smears w n v\<close>: bit \<open>i\<close> of \<open>w\<close> is set iff one of bits \<open>i .. i + n - 1\<close> of \<open>v\<close> is.\<close>

definition smears :: "usize \<Rightarrow> nat \<Rightarrow> usize \<Rightarrow> bool" where
  "smears w n v \<longleftrightarrow> (\<forall>i. bit w i \<longleftrightarrow> (\<exists>j < n. bit v (i + j)))"

lemma smears_double:
  assumes "smears w n v"
  shows "smears (w OR drop_bit n w) (2 * n) v"
  unfolding smears_def
proof
  fix i
  have "bit (w OR drop_bit n w) i \<longleftrightarrow> (\<exists>j < n. bit v (i + j)) \<or> (\<exists>j < n. bit v (n + i + j))"
    using assms by (simp add: smears_def bit_simps)
  also have "\<dots> \<longleftrightarrow> (\<exists>j < 2 * n. bit v (i + j))" (is "?A \<or> ?B \<longleftrightarrow> ?C")
  proof
    assume "?A \<or> ?B"
    then show ?C
    proof
      assume ?A
      then obtain j where "j < n" "bit v (i + j)" by blast
      then show ?C by (intro exI [of _ j]) simp
    next
      assume ?B
      then obtain j where "j < n" "bit v (i + (n + j))" by (auto simp: ac_simps)
      then show ?C by (intro exI [of _ "n + j"]) simp
    qed
  next
    assume ?C
    then obtain j where j: "j < 2 * n" "bit v (i + j)" by blast
    show "?A \<or> ?B"
    proof (cases "j < n")
      case False
      then have "j - n < n" "n + i + (j - n) = i + j" using j by auto
      with j show ?thesis by metis
    qed (use j in blast)
  qed
  finally show "bit (w OR drop_bit n w) i \<longleftrightarrow> (\<exists>j < 2 * n. bit v (i + j))" .
qed

lemma smears_smear: "smears (smear v) 64 v"
proof -
  have "smears v 1 v" by (simp add: smears_def)
  note 1 = smears_double [OF this, simplified]
  note 2 = smears_double [OF 1, simplified]
  note 3 = smears_double [OF 2, simplified]
  note 4 = smears_double [OF 3, simplified]
  note 5 = smears_double [OF 4, simplified]
  note 6 = smears_double [OF 5, simplified]
  then show ?thesis by (simp add: smear_def Let_def)
qed

text \<open>The smeared word has all bits up to the highest set bit \<open>b\<close> of the original.\<close>

lemma bit_usize: "bit (x :: usize) n \<longleftrightarrow> odd (unat x div 2 ^ n)"
proof -
  have "bit x n \<longleftrightarrow> bit (unat x) n"
    using bit_imp_le_length [of x n] by (auto simp: bit_unsigned_iff)
  then show ?thesis by (simp add: bit_iff_odd)
qed

lemma bits_between_powers:
  fixes v :: usize
  assumes "2 ^ b \<le> unat v" "unat v < 2 ^ Suc b"
  shows "bit v b" "bit v n \<Longrightarrow> n \<le> b"
proof -
  have "unat v div 2 ^ b = 1"
    using assms by (intro div_nat_eqI) (auto simp: mult.commute)
  then show "bit v b" by (simp add: bit_usize)
  assume n: "bit v n"
  show "n \<le> b"
  proof (rule ccontr)
    assume "\<not> n \<le> b"
    then have "(2 :: nat) ^ Suc b \<le> 2 ^ n" by (intro power_increasing) auto
    with assms have "unat v div 2 ^ n = 0" by simp
    with n show False by (simp add: bit_usize)
  qed
qed

lemma smear_eq_mask:
  assumes "2 ^ b \<le> unat v" "unat v < 2 ^ Suc b"
  shows "smear v = mask (Suc b)"
proof (rule bit_eqI)
  note b = bits_between_powers [OF assms]
  have b64: "b < 64" using bit_imp_le_length [OF b(1)] by simp
  fix i
  have "bit (smear v) i \<longleftrightarrow> (\<exists>j < 64. bit v (i + j))"
    using smears_smear by (simp add: smears_def)
  also have "\<dots> \<longleftrightarrow> i \<le> b"
  proof
    assume "\<exists>j < 64. bit v (i + j)"
    then show "i \<le> b" using b(2) by (metis le_add1 order_trans)
  next
    assume "i \<le> b"
    then show "\<exists>j < 64. bit v (i + j)" using b(1) b64 by (intro exI [of _ "b - i"]) simp
  qed
  finally show "bit (smear v) i \<longleftrightarrow> bit (mask (Suc b) :: usize) i"
    using b64 by (auto simp: bit_mask_iff)
qed

lemma smear_0 [simp]: "smear 0 = 0"
  by (simp add: smear_def)

section \<open>The least power of two\<close>

definition least_po2 :: "nat \<Rightarrow> nat \<Rightarrow> bool" where
  "least_po2 n c \<longleftrightarrow> (\<exists>k. c = 2 ^ k) \<and> n \<le> c \<and> (\<forall>k. n \<le> 2 ^ k \<longrightarrow> c \<le> 2 ^ k)"

lemma unat_smear_Suc:
  assumes "unat v < 2 ^ 63"
  shows "least_po2 (Suc (unat v)) (unat (smear v + 1))" "is_po2 (smear v + 1)"
proof -
  have "least_po2 (Suc (unat v)) (unat (smear v + 1)) \<and> is_po2 (smear v + 1)"
  proof (cases "v = 0")
    case True
    then show ?thesis by (auto simp: least_po2_def is_po2_def intro: exI [of _ 0])
  next
    case False
    then have "1 \<le> unat v" by (simp add: Suc_leI unat_gt_0)
    then obtain b where b: "2 ^ b \<le> unat v" "unat v < 2 ^ Suc b"
      using ex_power_ivl1 [of 2 "unat v"] by auto
    have "(2 :: nat) ^ b < 2 ^ 63" using b assms by linarith
    then have b63: "Suc b < 64" using power_less_imp_less_exp [of 2 b 63] by simp
    have "smear v + 1 = 2 ^ Suc b" using smear_eq_mask [OF b] by (simp add: mask_eq_exp_minus_1)
    then have u: "unat (smear v + 1) = 2 ^ Suc b" using unat_po2 [OF b63] by simp
    have "2 ^ Suc b \<le> (2 :: nat) ^ k" if "Suc (unat v) \<le> 2 ^ k" for k
    proof -
      have "(2 :: nat) ^ b < 2 ^ k" using b that by linarith
      then have "b < k" by (rule power_less_imp_less_exp [rotated]) simp
      then show ?thesis by (intro power_increasing) auto
    qed
    with u b b63 show ?thesis
      unfolding least_po2_def is_po2_def by (metis Suc_leI)
  qed
  then show "least_po2 (Suc (unat v)) (unat (smear v + 1))" "is_po2 (smear v + 1)" by auto
qed

lemma smear_large:
  assumes "2 ^ 63 \<le> unat v"
  shows "smear v + 1 = 0"
proof -
  have "smear v = mask 64"
    using smear_eq_mask [of 63 v] assms unat_lt_usize [of v] by simp
  then show ?thesis by (simp add: mask_eq_exp_minus_1)
qed

lemma least_po2_unique: "least_po2 n c \<Longrightarrow> least_po2 n d \<Longrightarrow> c = d"
  unfolding least_po2_def by (metis order_antisym)

lemma least_po2_less:
  assumes "least_po2 n c" "0 < n"
  shows "c < 2 * n"
proof -
  obtain k where k: "c = 2 ^ k" using assms(1) by (auto simp: least_po2_def)
  show ?thesis
  proof (cases k)
    case 0
    with k assms(2) show ?thesis by simp
  next
    case (Suc j)
    have "c \<le> 2 ^ j" if "n \<le> 2 ^ j" using assms(1) that by (simp add: least_po2_def)
    then have "\<not> n \<le> 2 ^ j" using k Suc by auto
    with k Suc show ?thesis by simp
  qed
qed

lemma fixed_round_up_spec:
  assumes "0 < unat n" "unat n \<le> 2 ^ 63"
  shows "least_po2 (unat n) (unat (fixed_round_up_po2 n))" "is_po2 (fixed_round_up_po2 n)"
proof -
  have "n \<noteq> 0" using assms by auto
  then have "unat (n - 1) < 2 ^ 63" "Suc (unat (n - 1)) = unat n"
    using assms by (auto simp: unat_simps)
  then show "least_po2 (unat n) (unat (fixed_round_up_po2 n))" "is_po2 (fixed_round_up_po2 n)"
    using unat_smear_Suc [of "n - 1"] by (auto simp: fixed_round_up_po2_def)
qed

lemma round_up_loop_eq:
  "round_up_to_power_of_two n = Some (if n < 2 then 2 else fixed_round_up_po2 n)"
  by (simp add: round_up_to_power_of_two_def fixed_round_up_po2_def smear_loop_terminates)

lemma round_up_loopE:
  assumes "unat n \<le> 2 ^ 63"
  obtains c where "round_up_to_power_of_two n = Some c" "is_po2 c" "2 \<le> unat c" "unat n \<le> unat c"
    "unat c < 2 * max 2 (unat n)"
proof (cases "n < 2")
  case True
  then show ?thesis
    using that [of 2] is_po2_power [of 1] by (simp add: round_up_loop_eq word_less_nat_alt)
next
  case False
  then have n: "2 \<le> unat n" by (simp add: word_less_nat_alt)
  then have l: "least_po2 (unat n) (unat (fixed_round_up_po2 n))" "is_po2 (fixed_round_up_po2 n)"
    using fixed_round_up_spec [of n] assms by simp_all
  have "unat (fixed_round_up_po2 n) < 2 * unat n" using least_po2_less [OF l(1)] n by simp
  then show ?thesis
    using that [of "fixed_round_up_po2 n"] False l n by (simp add: round_up_loop_eq least_po2_def)
qed

lemma fixed_round_up_large:
  assumes "2 ^ 63 < unat n"
  shows "fixed_round_up_po2 n = 0"
proof -
  have "n \<noteq> 0" using assms by auto
  with assms have "2 ^ 63 \<le> unat (n - 1)" by (simp add: unat_simps)
  with \<open>n \<noteq> 0\<close> show ?thesis by (simp add: fixed_round_up_po2_def smear_large)
qed

lemma queue_round_up_eq: "n \<noteq> 0 \<Longrightarrow> queue_round_up_po2 n = fixed_round_up_po2 n"
  by (simp add: queue_round_up_po2_def fixed_round_up_po2_def)

section \<open>Properties\<close>

text \<open>
  For every requested capacity from 1 to 2^63, the bit-smearing routine of the fixed queue
  returns the least power of two that is at least the request.
\<close>

theorem round_up_is_least_po2:
  assumes "0 < unat n" "unat n \<le> 2 ^ 63"
  shows "least_po2 (unat n) (unat (fixed_round_up_po2 n))"
  using assms by (rule fixed_round_up_spec)

theorem round_up_is_least_po2_witness:
  "least_po2 5 (unat (fixed_round_up_po2 5)) \<and> unat (fixed_round_up_po2 5) = 8"
  using round_up_is_least_po2 [of 5]
  by (simp add: fixed_round_up_po2_def smear_def Let_def)

text \<open>
  C29. The three rounding routines agree on requests of at least 2, where up to \<open>2^63\<close> all
  three return the least power of two that is at least the request: the doubling loop of the
  ring buffers terminates and returns what the unrolled code of both queues returns. They differ
  below that: the ring buffers round 0 and 1 up to 2, while the queues round 1 to 1. A request
  above \<open>2^63\<close> wraps around to 0 in all three.
\<close>

theorem round_up_variants_agree:
  "round_up_to_power_of_two n =
     Some (if n < 2 then 2 else fixed_round_up_po2 n) \<and>
   fixed_round_up_po2 1 = 1 \<and>
   (n \<noteq> 0 \<longrightarrow> queue_round_up_po2 n = fixed_round_up_po2 n) \<and>
   (0 < unat n \<and> unat n \<le> 2 ^ 63 \<longrightarrow> least_po2 (unat n) (unat (fixed_round_up_po2 n))) \<and>
   (2 ^ 63 < unat n \<longrightarrow> fixed_round_up_po2 n = 0)"
  by (simp add: round_up_loop_eq queue_round_up_eq fixed_round_up_spec fixed_round_up_large)
    (simp add: fixed_round_up_po2_def smear_def)

theorem round_up_variants_agree_witness:
  "round_up_to_power_of_two 6 = Some 8 \<and> queue_round_up_po2 6 = 8 \<and>
   fixed_round_up_po2 (2 ^ 63 + 1) = 0"
  using round_up_variants_agree [of 6] round_up_variants_agree [of "2 ^ 63 + 1"]
  by (simp add: fixed_round_up_po2_def smear_def Let_def)

end
