(* ===== verification/CircularBuffer.thy ===== *)
theory CircularBuffer
  imports PowerOfTwo
begin

text \<open>
  What the circular buffers of the code share: index arithmetic modulo a power-of-two capacity
  on wrapping 64-bit words, and the loops that walk a buffer from its head to its tail
  (clear, copy, move, compare). \<open>fixed_queue\<close>, \<open>queue\<close> and the ring buffers are built on it.
\<close>

section \<open>Index arithmetic\<close>

text \<open>\<open>(idx + 1) & mask\<close>\<close>

definition ring_advance :: "usize \<Rightarrow> usize \<Rightarrow> usize" where
  "ring_advance msk i = (i + 1) AND msk"

text \<open>\<open>(tail - head + cap) & mask\<close> and \<open>(tail - 1 + cap) & mask\<close>\<close>

definition ring_size :: "usize \<Rightarrow> usize \<Rightarrow> usize \<Rightarrow> usize" where
  "ring_size cap h t = (t - h + cap) AND (cap - 1)"

definition ring_back :: "usize \<Rightarrow> usize \<Rightarrow> usize" where
  "ring_back cap t = (t - 1 + cap) AND (cap - 1)"

lemma mod_po2_wrap: "is_po2 c \<Longrightarrow> (x mod 2 ^ 64) mod unat c = x mod unat c"
  by (rule mod_mod_cancel) (rule is_po2_dvd)

lemma unat_ring_advance:
  "is_po2 c \<Longrightarrow> unat (ring_advance (c - 1) i) = Suc (unat i) mod unat c"
  using mod_po2_wrap [of c "Suc (unat i)"]
  by (simp add: ring_advance_def unat_and_mask unat_word_ariths)

lemma mod_minus_wrap:
  fixes a b n N :: nat
  assumes "n dvd N" "b \<le> N" "b \<le> a"
  shows "(a + (N - b)) mod n = (a - b) mod n"
proof -
  obtain q where "N = n * q" using assms(1) by auto
  then have "a + (N - b) = (a - b) + n * q" using assms by simp
  then show ?thesis by simp
qed

lemma unat_sub_mod:
  assumes "is_po2 c" "unat b \<le> a"
  shows "unat (of_nat a - b :: usize) mod unat c = (a - unat b) mod unat c"
proof -
  have "(of_nat (2 ^ 64 - unat b) :: usize) = of_nat (2 ^ 64) - of_nat (unat b)"
    by (rule of_nat_diff) (simp add: less_imp_le)
  then have "of_nat (2 ^ 64 - unat b) = - b" by simp
  then have "of_nat a - b = (of_nat (a + (2 ^ 64 - unat b)) :: usize)"
    by (simp only: of_nat_add) simp
  then have "unat (of_nat a - b :: usize) = (a + (2 ^ 64 - unat b)) mod 2 ^ 64"
    by (simp only: unat_of_nat) simp
  then have "unat (of_nat a - b :: usize) mod unat c = (a + (2 ^ 64 - unat b)) mod unat c"
    using mod_po2_wrap [OF assms(1)] by simp
  also have "\<dots> = (a - unat b) mod unat c"
    using assms less_imp_le [OF unat_lt_usize [of b]]
    by (intro mod_minus_wrap is_po2_dvd) auto
  finally show ?thesis .
qed

text \<open>
  \<open>ring_window c h t n\<close>: the indices \<open>h\<close> and \<open>t\<close> of a ring of \<open>c\<close> slots enclose \<open>n\<close>
  elements, fewer than \<open>c\<close>.
\<close>

definition ring_window :: "usize \<Rightarrow> usize \<Rightarrow> usize \<Rightarrow> nat \<Rightarrow> bool" where
  "ring_window c h t n \<longleftrightarrow> is_po2 c \<and> unat h < unat c \<and> n < unat c \<and>
     unat t = (unat h + n) mod unat c"

lemma ring_windowD:
  assumes "ring_window c h t n"
  shows "is_po2 c" "unat h < unat c" "n < unat c" "unat t = (unat h + n) mod unat c"
    "unat t < unat c"
  using assms is_po2_pos [of c] by (auto simp: ring_window_def)

lemma ring_window_size:
  assumes "ring_window c h t n"
  shows "unat (ring_size c h t) = n"
proof -
  note w = ring_windowD [OF assms]
  have "unat (ring_size c h t) = unat (t - h + c) mod unat c"
    unfolding ring_size_def by (rule unat_and_mask [OF w(1)])
  also have "t - h + c = of_nat (unat t + unat c) - h" by simp
  also have "unat \<dots> mod unat c = (unat t + unat c - unat h) mod unat c"
    using w by (intro unat_sub_mod) auto
  also have "\<dots> = n"
  proof (cases "unat h + n < unat c")
    case True
    with w show ?thesis by simp
  next
    case False
    then have "(unat h + n) mod unat c = unat h + n - unat c" using w(2,3) by (simp add: mod_if)
    with w False show ?thesis by simp
  qed
  finally show ?thesis .
qed

lemma ring_window_empty:
  assumes "ring_window c h t n"
  shows "h = t \<longleftrightarrow> n = 0"
  using ring_window_size [OF assms] ring_windowD [OF assms] mod_add_inj [of "unat h" n "unat c" 0]
  by (auto simp: usize_eq_iff)

lemma ring_window_push:
  "ring_window c h t n \<Longrightarrow> Suc n < unat c \<Longrightarrow> ring_window c h (ring_advance (c - 1) t) (Suc n)"
  by (auto simp: ring_window_def unat_ring_advance mod_Suc_eq)

lemma ring_window_pop:
  assumes "ring_window c h t (Suc n)"
  shows "ring_window c (ring_advance (c - 1) h) t n"
  using ring_windowD [OF assms] mod_add_left_eq [of "Suc (unat h)" "unat c" n]
  by (simp add: ring_window_def unat_ring_advance)

lemma ring_window_back:
  assumes "ring_window c h t (Suc n)"
  shows "unat (ring_back c t) = (unat h + n) mod unat c"
proof -
  note w = ring_windowD [OF assms]
  have "unat (ring_back c t) = unat (t - 1 + c) mod unat c"
    unfolding ring_back_def by (rule unat_and_mask [OF w(1)])
  also have "t - 1 + c = of_nat (unat t + unat c) - 1" by simp
  also have "unat \<dots> mod unat c = (unat t + unat c - 1) mod unat c"
    using unat_sub_mod [OF w(1), of 1 "unat t + unat c"] w by simp
  also have "\<dots> = (unat h + n) mod unat c"
  proof -
    have "Suc ((unat t + unat c - 1) mod unat c) mod unat c = Suc (unat h + n) mod unat c"
      using w by (simp add: mod_Suc_eq)
    moreover have "(unat t + unat c - 1) mod unat c < unat c" "(unat h + n) mod unat c < unat c"
      using w by auto
    ultimately show ?thesis
      using mod_add_inj [of 1 "(unat t + unat c - 1) mod unat c" "unat c" "(unat h + n) mod unat c"]
      by (simp add: mod_Suc_eq)
  qed
  finally show ?thesis .
qed

lemma ring_window_0: "is_po2 c \<Longrightarrow> unat h < unat c \<Longrightarrow> ring_window c h h 0"
  by (simp add: ring_window_def)

section \<open>Walking from head to tail\<close>

lemma ring_walk_window:
  assumes w: "ring_window c h t n" and "P 0 s"
    and step: "\<And>k i s. k < n \<Longrightarrow> unat i = (unat h + k) mod unat c \<Longrightarrow> P k s \<Longrightarrow>
                 \<exists>s'. body i s = Some s' \<and> P (Suc k) s'"
  shows "\<exists>s'. ring_walk (ring_advance (c - 1)) h t body s = Some s' \<and> P n s'"
proof -
  note D = ring_windowD [OF w]
  define idx where "idx k = (of_nat ((unat h + k) mod unat c) :: usize)" for k
  have u: "unat (idx k) = (unat h + k) mod unat c" for k
  proof -
    have "(unat h + k) mod unat c < 2 ^ 64"
      by (rule less_trans [OF mod_less_divisor [OF is_po2_pos [OF D(1)]]]) simp
    then show ?thesis unfolding idx_def by (rule unat_of_nat_usize)
  qed
  have "\<exists>s'. ring_walk (ring_advance (c - 1)) (idx 0) t body s = Some s' \<and> P n s'"
  proof (rule ring_walk_rule)
    show "idx n = t" using u D(4) by (simp add: usize_eq_iff)
    show "idx k \<noteq> t" if "k < n" for k
      using that u [of k] D mod_add_inj [of "unat h" k "unat c" n] by (auto simp: usize_eq_iff)
    show "ring_advance (c - 1) (idx k) = idx (Suc k)" for k
      using u by (simp add: usize_eq_iff unat_ring_advance [OF D(1)] mod_Suc_eq)
  qed (use assms u in auto)
  moreover have "idx 0 = h" using u [of 0] D(2) by (simp add: usize_eq_iff)
  ultimately show ?thesis by simp
qed

text \<open>The loops of the code: destroying, copying and moving the elements from head to tail.\<close>

definition ring_clear :: "'a elem_type \<Rightarrow> usize \<Rightarrow> usize \<Rightarrow> usize \<Rightarrow> 'a slots \<Rightarrow> 'a slots option" where
  "ring_clear ty msk h t m =
     (if is_trivial ty then Some m
      else ring_walk (ring_advance msk) h t (\<lambda>i. slot_destroy ty (unat i)) m)"

definition ring_copy :: "'a elem_type \<Rightarrow> usize \<Rightarrow> usize \<Rightarrow> usize \<Rightarrow> 'a slots \<Rightarrow> usize \<Rightarrow>
    'a slots \<times> usize \<Rightarrow> ('a slots \<times> usize) option" where
  "ring_copy ty src_msk h t src msk =
     ring_walk (ring_advance src_msk) h t (\<lambda>i (dst, te). do {
       x \<leftarrow> slot_read (unat i) src;
       dst' \<leftarrow> slot_construct ty (unat te) x dst;
       Some (dst', ring_advance msk te)
     })"

definition ring_move :: "'a elem_type \<Rightarrow> usize \<Rightarrow> usize \<Rightarrow> usize \<Rightarrow> usize \<Rightarrow>
    'a slots \<times> usize \<times> 'a slots \<Rightarrow> ('a slots \<times> usize \<times> 'a slots) option" where
  "ring_move ty src_msk h t msk =
     ring_walk (ring_advance src_msk) h t (\<lambda>i (dst, te, src). do {
       (x, src') \<leftarrow> slot_move ty (unat i) src;
       dst' \<leftarrow> slot_construct ty (unat te) x dst;
       Some (dst', ring_advance msk te, src')
     })"

text \<open>
  \<open>while (li != tail) { if (!(*slot(li) == *rhs.slot(ri))) return false; ... } return true\<close>,
  with one mask for each of the two buffers.
\<close>

partial_function (option) ring_equal ::
  "('a \<Rightarrow> 'a \<Rightarrow> bool) \<Rightarrow> usize \<Rightarrow> usize \<Rightarrow> 'a slots \<Rightarrow> usize \<Rightarrow> usize \<Rightarrow> 'a slots \<Rightarrow> usize \<Rightarrow> bool option" where
  "ring_equal eq msk li a t rmsk b ri =
     (if li = t then Some True
      else do {
        x \<leftarrow> slot_read (unat li) a;
        y \<leftarrow> slot_read (unat ri) b;
        if \<not> eq x y then Some False
        else ring_equal eq msk (ring_advance msk li) a t rmsk b (ring_advance rmsk ri)
      })"

declare ring_equal.simps [code]

section \<open>What the loops do\<close>

text \<open>
  \<open>ring_holds ty c h t xs m\<close>: a buffer of \<open>c\<close> slots with indices \<open>h\<close> and \<open>t\<close> holds
  the elements \<open>xs\<close>, front first.
\<close>

definition ring_holds :: "'a elem_type \<Rightarrow> usize \<Rightarrow> usize \<Rightarrow> usize \<Rightarrow> 'a list \<Rightarrow> 'a slots \<Rightarrow> bool" where
  "ring_holds ty c h t xs m \<longleftrightarrow>
     ring_window c h t (length xs) \<and> length m = unat c \<and> ring_rep ty (unat h) xs m"

lemma ring_holdsD:
  assumes "ring_holds ty c h t xs m"
  shows "ring_window c h t (length xs)" "length m = unat c" "ring_rep ty (unat h) xs m"
    "unat t = ring_pos m (unat h) (length xs)" "is_po2 c" "length xs < unat c"
  using assms ring_windowD [of c h t "length xs"] by (auto simp: ring_holds_def ring_pos_def)

lemma ring_holds_read:
  assumes "ring_holds ty c h t xs m" "k < length xs" "unat i = (unat h + k) mod unat c"
  shows "slot_read (unat i) m = Some (xs ! k)" "m ! unat i = Some (xs ! k)" "unat i < length m"
proof -
  note D = ring_holdsD [OF assms(1)]
  have "unat i = ring_pos m (unat h) k" using assms(3) D(2) by (simp add: ring_pos_def)
  moreover have "ring_pos m (unat h) k < length m"
    using ring_pos_less ring_repD(2) [OF D(3)] by blast
  ultimately show "unat i < length m" "m ! unat i = Some (xs ! k)"
    using ring_repD(3) [OF D(3) assms(2)] by simp_all
  then show "slot_read (unat i) m = Some (xs ! k)" by (simp add: slot_simps)
qed

lemma ring_holds_update:
  assumes "ring_holds ty c h t xs m" "unat i = (unat h + k) mod unat c" "k < length xs"
  shows "ring_holds ty c h t (xs[k := y]) (m[unat i := Some y])"
proof -
  note D = ring_holdsD [OF assms(1)]
  have "unat i = ring_pos m (unat h) k" using assms(2) D(2) by (simp add: ring_pos_def)
  then show ?thesis
    using D ring_rep_update [OF D(3) assms(3)] by (simp add: ring_holds_def)
qed

lemma ring_holds_push:
  assumes "ring_holds ty c h t xs m" "Suc (length xs) < unat c"
  shows "slot_construct ty (unat t) x m = Some (m[unat t := Some x])"
    "ring_holds ty c h (ring_advance (c - 1) t) (xs @ [x]) (m[unat t := Some x])"
  using ring_holdsD [OF assms(1)] ring_rep_push [of ty "unat h" xs m x] assms(2)
    ring_window_push [of c h t "length xs"]
  by (auto simp: ring_holds_def)

lemma ring_holds_pop:
  assumes "ring_holds ty c h t (x # xs) m"
  shows "slot_read (unat h) m = Some x"
    and "slot_move ty (unat h) m = Some (x, m[unat h := Some (moved_from ty x)])"
    and "\<exists>m'. slot_destroy ty (unat h) m = Some m' \<and> ring_holds ty c (ring_advance (c - 1) h) t xs m'"
    and "\<exists>m'. slot_destroy ty (unat h) (m[unat h := Some y]) = Some m' \<and>
           ring_holds ty c (ring_advance (c - 1) h) t xs m'"
proof -
  note D = ring_holdsD [OF assms]
  note pop = ring_rep_pop [OF D(3)]
  have w: "ring_window c (ring_advance (c - 1) h) t (length xs)"
    using D(1) ring_window_pop [of c h t "length xs"] by simp
  have u: "unat (ring_advance (c - 1) h) = Suc (unat h) mod length m"
    using D(2,5) by (simp add: unat_ring_advance)
  show "slot_read (unat h) m = Some x"
    "slot_move ty (unat h) m = Some (x, m[unat h := Some (moved_from ty x)])"
    using pop by auto
  show "\<exists>m'. slot_destroy ty (unat h) m = Some m' \<and> ring_holds ty c (ring_advance (c - 1) h) t xs m'"
    using pop(3) w u D(2) by (auto simp: ring_holds_def)
  show "\<exists>m'. slot_destroy ty (unat h) (m[unat h := Some y]) = Some m' \<and>
      ring_holds ty c (ring_advance (c - 1) h) t xs m'"
    using pop(4) [of y] w u D(2) by (auto simp: ring_holds_def)
qed

lemma ring_holds_front: "ring_holds ty c h t (x # xs) m \<Longrightarrow> slot_read (unat h) m = Some x"
  by (rule ring_holds_pop)

lemma ring_holds_back:
  "ring_holds ty c h t (xs @ [x]) m \<Longrightarrow> slot_read (unat (ring_back c t)) m = Some x"
  using ring_holds_read(1) [of ty c h t "xs @ [x]" m "length xs" "ring_back c t"]
    ring_window_back [of c h t "length xs"] ring_holdsD(1) [of ty c h t "xs @ [x]" m]
  by simp

lemma ring_holds_size:
  assumes "ring_holds ty c h t xs m"
  shows "unat (ring_size c h t) = length xs" "h = t \<longleftrightarrow> xs = []"
  using ring_window_size ring_window_empty ring_holdsD(1) [OF assms] by auto

lemma ring_rep_Nil_lin:
  assumes "ring_rep ty h [] m"
  shows "lin_rep ty [] m"
proof -
  have h: "h < length m" using assms by (simp add: ring_rep_def)
  have "m ! i = None" if "\<not> is_trivial ty" "i < length m" for i
  proof -
    have "ring_pos m h ((i + length m - h) mod length m) = (i + length m) mod length m"
      using h by (simp add: ring_pos_def mod_add_right_eq)
    then have "ring_pos m h ((i + length m - h) mod length m) = i" using that by simp
    moreover have "(i + length m - h) mod length m < length m"
      using that(2) by (intro mod_less_divisor) linarith
    ultimately show ?thesis using assms that unfolding ring_rep_def by (metis le0 list.size(3))
  qed
  then show ?thesis by (simp add: lin_rep_def)
qed

text \<open>An empty buffer with both indices at 0.\<close>

lemma ring_holds_0_iff:
  assumes "is_po2 c" "length m = unat c"
  shows "ring_holds ty c 0 t xs m \<longleftrightarrow> lin_rep ty xs m \<and> unat t = length xs \<and> length xs < unat c"
  using assms is_po2_pos [OF assms(1)] ring_rep_0 [of m ty xs]
  by (auto simp: ring_holds_def ring_window_def)

lemma ring_holds_new:
  "is_po2 c \<Longrightarrow> ring_holds ty c 0 0 [] (replicate (unat c) None)"
  by (simp add: ring_holds_0_iff is_po2_pos)

lemma ring_clear_rep:
  assumes "ring_holds ty c h t xs m"
  shows "\<exists>m'. ring_clear ty (c - 1) h t m = Some m' \<and> ring_holds ty c 0 0 [] m'"
proof -
  note D = ring_holdsD [OF assms]
  define P where "P k d \<longleftrightarrow> length d = length m \<and>
      ring_rep ty ((unat h + k) mod unat c) (drop k xs) d" for k and d :: "'a slots"
  have "\<exists>m'. ring_walk (ring_advance (c - 1)) h t (\<lambda>i. slot_destroy ty (unat i)) m = Some m' \<and>
          P (length xs) m'"
  proof (rule ring_walk_window [OF D(1)])
    show "P 0 m" using D ring_windowD(2) [OF D(1)] by (simp add: P_def)
    fix k i d
    assume k: "k < length xs" "unat i = (unat h + k) mod unat c" and P: "P k d"
    then have "drop k xs = xs ! k # drop (Suc k) xs" by (simp add: Cons_nth_drop_Suc)
    with P k have "ring_rep ty (unat i) (xs ! k # drop (Suc k) xs) d" by (simp add: P_def)
    from ring_rep_pop(3) [OF this] show "\<exists>d'. slot_destroy ty (unat i) d = Some d' \<and> P (Suc k) d'"
      using P D(2) k by (auto simp: P_def mod_Suc_eq)
  qed
  then obtain m' where m': "ring_walk (ring_advance (c - 1)) h t (\<lambda>i. slot_destroy ty (unat i)) m = Some m'"
      "length m' = unat c" "ring_rep ty ((unat h + length xs) mod unat c) [] m'"
    using D(2) by (auto simp: P_def)
  show ?thesis
  proof (cases "is_trivial ty")
    case True
    then show ?thesis
      using D by (simp add: ring_clear_def ring_holds_0_iff lin_rep_def is_po2_pos)
  next
    case False
    then show ?thesis
      using m' D ring_rep_Nil_lin [OF m'(3)] by (simp add: ring_clear_def ring_holds_0_iff is_po2_pos)
  qed
qed

lemma ring_copy_rep:
  assumes "ring_holds ty c h t xs src" "ring_holds ty d 0 0 [] dst" "length xs < unat d"
  shows "\<exists>dst' te. ring_copy ty (c - 1) h t src (d - 1) (dst, 0) = Some (dst', te) \<and>
           ring_holds ty d 0 te xs dst'"
proof -
  note D = ring_holdsD [OF assms(1)]
  have "\<exists>s. ring_copy ty (c - 1) h t src (d - 1) (dst, 0) = Some s \<and>
          ring_holds ty d 0 (snd s) (take (length xs) xs) (fst s)"
    unfolding ring_copy_def
  proof (rule ring_walk_window [OF D(1)])
    fix k i and s :: "'a slots \<times> usize"
    assume k: "k < length xs" "unat i = (unat h + k) mod unat c"
      and s: "ring_holds ty d 0 (snd s) (take k xs) (fst s)"
    then show "\<exists>s'. (case s of (dst, te) \<Rightarrow> do { x \<leftarrow> slot_read (unat i) src;
        dst' \<leftarrow> slot_construct ty (unat te) x dst; Some (dst', ring_advance (d - 1) te) }) = Some s' \<and>
        ring_holds ty d 0 (snd s') (take (Suc k) xs) (fst s')"
      using ring_holds_read(1) [OF assms(1) k] ring_holds_push [OF s, of "xs ! k"] assms(3)
      by (auto simp: take_Suc_conv_app_nth split: prod.splits)
  qed (use assms(2) in simp)
  then show ?thesis by auto
qed

lemma ring_move_rep:
  assumes "ring_holds ty c h t xs src" "ring_holds ty d 0 0 [] dst" "length xs < unat d"
  shows "\<exists>dst' te src'. ring_move ty (c - 1) h t (d - 1) (dst, 0, src) = Some (dst', te, src') \<and>
           ring_holds ty d 0 te xs dst' \<and> ring_holds ty c h t (map (moved_from ty) xs) src'"
proof -
  note D = ring_holdsD [OF assms(1)]
  define P where "P k s \<longleftrightarrow> ring_holds ty d 0 (fst (snd s)) (take k xs) (fst s) \<and>
      ring_holds ty c h t (map (moved_from ty) (take k xs) @ drop k xs) (snd (snd s))"
    for k and s :: "'a slots \<times> usize \<times> 'a slots"
  have "\<exists>s. ring_move ty (c - 1) h t (d - 1) (dst, 0, src) = Some s \<and> P (length xs) s"
    unfolding ring_move_def
  proof (rule ring_walk_window [OF D(1)])
    fix k i and s :: "'a slots \<times> usize \<times> 'a slots"
    assume k: "k < length xs" "unat i = (unat h + k) mod unat c" and P: "P k s"
    obtain e te r where s: "s = (e, te, r)" by (cases s) auto
    let ?ys = "map (moved_from ty) (take k xs) @ drop k xs"
    have e: "ring_holds ty d 0 te (take k xs) e" and r: "ring_holds ty c h t ?ys r"
      using P s by (auto simp: P_def)
    have ys: "k < length ?ys" "?ys ! k = xs ! k" using k by (auto simp: nth_append)
    note rd = ring_holds_read [OF r ys(1) k(2)]
    have "?ys[k := moved_from ty (xs ! k)] = map (moved_from ty) (take (Suc k) xs) @ drop (Suc k) xs"
      using k by (simp add: list_update_append take_Suc_conv_app_nth Cons_nth_drop_Suc [symmetric])
    moreover have "ring_holds ty c h t (?ys[k := moved_from ty (xs ! k)])
        (r[unat i := Some (moved_from ty (xs ! k))])"
      using r k(2) ys(1) by (rule ring_holds_update)
    ultimately show "\<exists>s'. (case s of (dst, te, src) \<Rightarrow> do { (x, src') \<leftarrow> slot_move ty (unat i) src;
        dst' \<leftarrow> slot_construct ty (unat te) x dst; Some (dst', ring_advance (d - 1) te, src') }) = Some s' \<and>
        P (Suc k) s'"
      using rd ys(2) ring_holds_push [OF e, of "xs ! k"] assms(3) k s
      by (simp add: slot_moveI P_def take_Suc_conv_app_nth)
  qed (use assms in \<open>simp add: P_def\<close>)
  then show ?thesis by (auto simp: P_def)
qed

lemma ring_equal_from:
  assumes "ring_holds ty c h t xs a" "ring_holds ty' d h' t' ys b" "length xs = length ys"
    and "j \<le> length xs" "unat li = (unat h + j) mod unat c" "unat ri = (unat h' + j) mod unat d"
  shows "ring_equal eq (c - 1) li a t (d - 1) b ri = Some (list_all2 eq (drop j xs) (drop j ys))"
  using assms(4-6)
proof (induction "length xs - j" arbitrary: j li ri)
  case 0
  then have "li = t" using ring_windowD(4) [OF ring_holdsD(1) [OF assms(1)]] by (simp add: usize_eq_iff)
  with 0 show ?case using assms(3) by (subst ring_equal.simps) simp
next
  case (Suc n)
  then have j: "j < length xs" "j < length ys" using assms(3) by auto
  note D = ring_windowD [OF ring_holdsD(1) [OF assms(1)]] and D' = ring_windowD [OF ring_holdsD(1) [OF assms(2)]]
  have "li \<noteq> t"
    using Suc.prems(2) D j mod_add_inj [of "unat h" j "unat c" "length xs"] by (auto simp: usize_eq_iff)
  moreover have "drop j xs = xs ! j # drop (Suc j) xs" "drop j ys = ys ! j # drop (Suc j) ys"
    using j by (simp_all add: Cons_nth_drop_Suc)
  moreover have "ring_equal eq (c - 1) (ring_advance (c - 1) li) a t (d - 1) b (ring_advance (d - 1) ri) =
      Some (list_all2 eq (drop (Suc j) xs) (drop (Suc j) ys))"
    using Suc.hyps(2) j Suc.prems
    by (intro Suc.hyps(1)) (auto simp: unat_ring_advance D(1) D'(1) mod_Suc_eq)
  ultimately show ?case
    using ring_holds_read(1) [OF assms(1) j(1) Suc.prems(2)] ring_holds_read(1) [OF assms(2) j(2) Suc.prems(3)]
    by (subst ring_equal.simps) simp
qed

lemma ring_equal_rep:
  assumes "ring_holds ty c h t xs a" "ring_holds ty' d h' t' ys b" "length xs = length ys"
  shows "ring_equal eq (c - 1) h a t (d - 1) b h' = Some (list_all2 eq xs ys)"
  using ring_equal_from [OF assms, of 0 h h' eq] ring_windowD(2) [OF ring_holdsD(1) [OF assms(1)]]
    ring_windowD(2) [OF ring_holdsD(1) [OF assms(2)]]
  by simp

end
