(* ===== verification/FixedQueue.thy ===== *)
theory FixedQueue
  imports CircularBuffer HpcInterfaces
begin

text \<open>
  \<open>hpc::core::fixed_queue<T, Capacity>\<close> (\<open>include/hpc/core/queue.hpp\<close>): a first-in
  first-out queue of compile-time capacity over a circular buffer in inline storage, whose
  size is the least power of two above \<open>Capacity\<close>. The template arguments are the
  parameters \<open>ty\<close> and \<open>C\<close>; \<open>slot(i)\<close> is the slot of index \<open>i\<close>.
\<close>

section \<open>State and operations\<close>

record 'a fixed_queue =
  fq_storage :: "'a slots"
  fq_head :: usize
  fq_tail :: usize

definition fq_buf_cap :: "usize \<Rightarrow> usize" where
  "fq_buf_cap C = fixed_round_up_po2 (C + 1)"

definition fq_buf_mask :: "usize \<Rightarrow> usize" where
  "fq_buf_mask C = fq_buf_cap C - 1"

definition fq_new :: "usize \<Rightarrow> 'a fixed_queue" where
  "fq_new C = \<lparr>fq_storage = replicate (unat (fq_buf_cap C)) None, fq_head = 0, fq_tail = 0\<rparr>"

definition fq_size :: "usize \<Rightarrow> 'a fixed_queue \<Rightarrow> usize" where
  "fq_size C q = ring_size (fq_buf_cap C) (fq_head q) (fq_tail q)"

definition fq_empty :: "'a fixed_queue \<Rightarrow> bool" where
  "fq_empty q \<longleftrightarrow> fq_head q = fq_tail q"

definition fq_full :: "usize \<Rightarrow> 'a fixed_queue \<Rightarrow> bool" where
  "fq_full C q \<longleftrightarrow> fq_size C q = C"

definition fq_front :: "'a fixed_queue \<Rightarrow> 'a option" where
  "fq_front q = slot_read (unat (fq_head q)) (fq_storage q)"

definition fq_back :: "usize \<Rightarrow> 'a fixed_queue \<Rightarrow> 'a option" where
  "fq_back C q = slot_read (unat (ring_back (fq_buf_cap C) (fq_tail q))) (fq_storage q)"

text \<open>\<open>construct(slot(tail_), value); tail_ = advance(tail_)\<close>\<close>

definition fq_construct_back :: "'a elem_type \<Rightarrow> usize \<Rightarrow> 'a \<Rightarrow> 'a fixed_queue \<Rightarrow> 'a fixed_queue option" where
  "fq_construct_back ty C x q = do {
     m \<leftarrow> slot_construct ty (unat (fq_tail q)) x (fq_storage q);
     Some (q\<lparr>fq_storage := m, fq_tail := ring_advance (fq_buf_mask C) (fq_tail q)\<rparr>)
   }"

definition fq_try_push :: "'a elem_type \<Rightarrow> usize \<Rightarrow> 'a \<Rightarrow> 'a fixed_queue \<Rightarrow>
    (bool \<times> 'a fixed_queue) option" where
  "fq_try_push ty C x q =
     (if fq_size C q = C then Some (False, q)
      else do { q' \<leftarrow> fq_construct_back ty C x q; Some (True, q') })"

text \<open>The overload for rvalues also changes its argument, returned second.\<close>

definition fq_try_push_move :: "'a elem_type \<Rightarrow> usize \<Rightarrow> 'a \<Rightarrow> 'a fixed_queue \<Rightarrow>
    (bool \<times> 'a \<times> 'a fixed_queue) option" where
  "fq_try_push_move ty C x q =
     (if fq_size C q = C then Some (False, x, q)
      else do { q' \<leftarrow> fq_construct_back ty C x q; Some (True, moved_from ty x, q') })"

definition fq_push :: "'a elem_type \<Rightarrow> usize \<Rightarrow> 'a \<Rightarrow> 'a fixed_queue \<Rightarrow>
    ((exn + unit) \<times> 'a fixed_queue) option" where
  "fq_push ty C x q = do {
     (ok, q') \<leftarrow> fq_try_push ty C x q;
     Some (if ok then Inr () else Inl Overflow_error, q')
   }"

definition fq_push_move :: "'a elem_type \<Rightarrow> usize \<Rightarrow> 'a \<Rightarrow> 'a fixed_queue \<Rightarrow>
    ((exn + unit) \<times> 'a \<times> 'a fixed_queue) option" where
  "fq_push_move ty C x q = do {
     (ok, x', q') \<leftarrow> fq_try_push_move ty C x q;
     Some (if ok then Inr () else Inl Overflow_error, x', q')
   }"

definition fq_try_emplace :: "'a elem_type \<Rightarrow> usize \<Rightarrow> ('b \<Rightarrow> 'a) \<Rightarrow> 'b \<Rightarrow> 'a fixed_queue \<Rightarrow>
    (bool \<times> 'a fixed_queue) option" where
  "fq_try_emplace ty C mk args q =
     (if fq_size C q = C then Some (False, q)
      else do { q' \<leftarrow> fq_construct_back ty C (mk args) q; Some (True, q') })"

text \<open>The reference returned by \<open>emplace\<close> is the index of the new element's slot.\<close>

definition fq_emplace :: "'a elem_type \<Rightarrow> usize \<Rightarrow> ('b \<Rightarrow> 'a) \<Rightarrow> 'b \<Rightarrow> 'a fixed_queue \<Rightarrow>
    ((exn + usize) \<times> 'a fixed_queue) option" where
  "fq_emplace ty C mk args q =
     (if fq_size C q = C then Some (Inl Overflow_error, q)
      else do { q' \<leftarrow> fq_construct_back ty C (mk args) q; Some (Inr (fq_tail q), q') })"

text \<open>\<open>destroy(slot(head_)); head_ = advance(head_)\<close>\<close>

definition fq_destroy_front :: "'a elem_type \<Rightarrow> usize \<Rightarrow> 'a fixed_queue \<Rightarrow> 'a fixed_queue option" where
  "fq_destroy_front ty C q = do {
     m \<leftarrow> slot_destroy ty (unat (fq_head q)) (fq_storage q);
     Some (q\<lparr>fq_storage := m, fq_head := ring_advance (fq_buf_mask C) (fq_head q)\<rparr>)
   }"

definition fq_try_pop_discard :: "'a elem_type \<Rightarrow> usize \<Rightarrow> 'a fixed_queue \<Rightarrow> (bool \<times> 'a fixed_queue) option" where
  "fq_try_pop_discard ty C q =
     (if fq_empty q then Some (False, q)
      else do { q' \<leftarrow> fq_destroy_front ty C q; Some (True, q') })"

definition fq_pop :: "'a elem_type \<Rightarrow> usize \<Rightarrow> 'a fixed_queue \<Rightarrow> ((exn + unit) \<times> 'a fixed_queue) option" where
  "fq_pop ty C q =
     (if fq_empty q then Some (Inl Underflow_error, q)
      else do { q' \<leftarrow> fq_destroy_front ty C q; Some (Inr (), q') })"

definition fq_try_pop :: "'a elem_type \<Rightarrow> usize \<Rightarrow> 'a fixed_queue \<Rightarrow> ('a option \<times> 'a fixed_queue) option" where
  "fq_try_pop ty C q =
     (if fq_empty q then Some (None, q)
      else do {
        (x, m) \<leftarrow> slot_move ty (unat (fq_head q)) (fq_storage q);
        q' \<leftarrow> fq_destroy_front ty C (q\<lparr>fq_storage := m\<rparr>);
        Some (Some x, q')
      })"

text \<open>\<open>clear\<close>, which is also all the destructor does.\<close>

definition fq_clear :: "'a elem_type \<Rightarrow> usize \<Rightarrow> 'a fixed_queue \<Rightarrow> 'a fixed_queue option" where
  "fq_clear ty C q = do {
     m \<leftarrow> ring_clear ty (fq_buf_mask C) (fq_head q) (fq_tail q) (fq_storage q);
     Some \<lparr>fq_storage = m, fq_head = 0, fq_tail = 0\<rparr>
   }"

text \<open>
  Construction from an initializer list; after an exception the second component is the
  storage abandoned by the constructor.
\<close>

fun fq_push_all :: "'a elem_type \<Rightarrow> usize \<Rightarrow> 'a list \<Rightarrow> 'a fixed_queue \<Rightarrow>
    ((exn + unit) \<times> 'a fixed_queue) option" where
  "fq_push_all ty C [] q = Some (Inr (), q)"
| "fq_push_all ty C (v # vs) q =
     (if fq_size C q = C then Some (Inl Overflow_error, q)
      else do { q' \<leftarrow> fq_construct_back ty C v q; fq_push_all ty C vs q' })"

definition fq_from_list :: "'a elem_type \<Rightarrow> usize \<Rightarrow> 'a list \<Rightarrow> ((exn + unit) \<times> 'a fixed_queue) option" where
  "fq_from_list ty C il = fq_push_all ty C il (fq_new C)"

text \<open>The loops that copy or move the elements of \<open>rhs\<close> to the back of \<open>q\<close>.\<close>

definition fq_append_copy :: "'a elem_type \<Rightarrow> usize \<Rightarrow> 'a fixed_queue \<Rightarrow> 'a fixed_queue \<Rightarrow> 'a fixed_queue option" where
  "fq_append_copy ty C rhs q = do {
     (m, te) \<leftarrow> ring_copy ty (fq_buf_mask C) (fq_head rhs) (fq_tail rhs) (fq_storage rhs)
                 (fq_buf_mask C) (fq_storage q, fq_tail q);
     Some (q\<lparr>fq_storage := m, fq_tail := te\<rparr>)
   }"

definition fq_append_move :: "'a elem_type \<Rightarrow> usize \<Rightarrow> 'a fixed_queue \<Rightarrow> 'a fixed_queue \<Rightarrow>
    ('a fixed_queue \<times> 'a fixed_queue) option" where
  "fq_append_move ty C rhs q = do {
     (m, te, src) \<leftarrow> ring_move ty (fq_buf_mask C) (fq_head rhs) (fq_tail rhs)
                 (fq_buf_mask C) (fq_storage q, fq_tail q, fq_storage rhs);
     rhs' \<leftarrow> fq_clear ty C (rhs\<lparr>fq_storage := src\<rparr>);
     Some (q\<lparr>fq_storage := m, fq_tail := te\<rparr>, rhs')
   }"

definition fq_copy :: "'a elem_type \<Rightarrow> usize \<Rightarrow> 'a fixed_queue \<Rightarrow> 'a fixed_queue option" where
  "fq_copy ty C rhs = fq_append_copy ty C rhs (fq_new C)"

definition fq_move :: "'a elem_type \<Rightarrow> usize \<Rightarrow> 'a fixed_queue \<Rightarrow> ('a fixed_queue \<times> 'a fixed_queue) option" where
  "fq_move ty C rhs = fq_append_move ty C rhs (fq_new C)"

fun fq_assign :: "'a elem_type \<Rightarrow> usize \<Rightarrow> 'a fixed_queue \<Rightarrow> 'a fixed_queue operand \<Rightarrow> 'a fixed_queue option" where
  "fq_assign ty C q Self = Some q"
| "fq_assign ty C q (Other rhs) = do { q1 \<leftarrow> fq_clear ty C q; fq_append_copy ty C rhs q1 }"

fun fq_assign_move :: "'a elem_type \<Rightarrow> usize \<Rightarrow> 'a fixed_queue \<Rightarrow> 'a fixed_queue operand \<Rightarrow>
    ('a fixed_queue \<times> 'a fixed_queue operand) option" where
  "fq_assign_move ty C q Self = Some (q, Self)"
| "fq_assign_move ty C q (Other rhs) = do {
     q1 \<leftarrow> fq_clear ty C q;
     (q2, rhs') \<leftarrow> fq_append_move ty C rhs q1;
     Some (q2, Other rhs')
   }"

text \<open>
  \<open>swap\<close>: a move construction and two move assignments between distinct objects; the
  temporary is destroyed at the end. Swapping a queue with itself moves it to the temporary
  and back, the assignment in between being a self-assignment.
\<close>

definition fq_move_into :: "'a elem_type \<Rightarrow> usize \<Rightarrow> 'a fixed_queue \<Rightarrow> 'a fixed_queue \<Rightarrow>
    ('a fixed_queue \<times> 'a fixed_queue) option" where
  "fq_move_into ty C q rhs = do { q1 \<leftarrow> fq_clear ty C q; fq_append_move ty C rhs q1 }"

fun fq_swap :: "'a elem_type \<Rightarrow> usize \<Rightarrow> 'a fixed_queue \<Rightarrow> 'a fixed_queue operand \<Rightarrow>
    ('a fixed_queue \<times> 'a fixed_queue operand) option" where
  "fq_swap ty C q Self = do {
     (tmp, q1) \<leftarrow> fq_move ty C q;
     (q2, tmp') \<leftarrow> fq_move_into ty C q1 tmp;
     _ \<leftarrow> fq_clear ty C tmp';
     Some (q2, Self)
   }"
| "fq_swap ty C q (Other other) = do {
     (tmp, other1) \<leftarrow> fq_move ty C other;
     (other2, q1) \<leftarrow> fq_move_into ty C other1 q;
     (q2, tmp') \<leftarrow> fq_move_into ty C q1 tmp;
     _ \<leftarrow> fq_clear ty C tmp';
     Some (q2, Other other2)
   }"

definition fq_eq :: "('a \<Rightarrow> 'a \<Rightarrow> bool) \<Rightarrow> usize \<Rightarrow> 'a fixed_queue \<Rightarrow> 'a fixed_queue \<Rightarrow> bool option" where
  "fq_eq eq C q rhs =
     (if fq_size C q \<noteq> fq_size C rhs then Some False
      else ring_equal eq (fq_buf_mask C) (fq_head q) (fq_storage q) (fq_tail q)
             (fq_buf_mask C) (fq_storage rhs) (fq_head rhs))"

definition fq_neq :: "('a \<Rightarrow> 'a \<Rightarrow> bool) \<Rightarrow> usize \<Rightarrow> 'a fixed_queue \<Rightarrow> 'a fixed_queue \<Rightarrow> bool option" where
  "fq_neq eq C q rhs = map_option Not (fq_eq eq C q rhs)"

section \<open>Representation\<close>

text \<open>
  The queue holds \<open>xs\<close>, front first. The capacity is below \<open>2^63\<close>, as for every queue whose
  storage the compiler accepts.
\<close>

definition fq_rep :: "'a elem_type \<Rightarrow> usize \<Rightarrow> 'a list \<Rightarrow> 'a fixed_queue \<Rightarrow> bool" where
  "fq_rep ty C xs q \<longleftrightarrow> 0 < unat C \<and> unat C < 2 ^ 63 \<and> length xs \<le> unat C \<and>
     ring_holds ty (fq_buf_cap C) (fq_head q) (fq_tail q) xs (fq_storage q)"

definition fq_contents :: "usize \<Rightarrow> 'a fixed_queue \<Rightarrow> 'a list" where
  "fq_contents C q =
     map (\<lambda>k. the (fq_storage q ! ring_pos (fq_storage q) (unat (fq_head q)) k)) [0..<unat (fq_size C q)]"

definition fq_inv :: "'a elem_type \<Rightarrow> usize \<Rightarrow> 'a fixed_queue \<Rightarrow> bool" where
  "fq_inv ty C q \<longleftrightarrow> fq_rep ty C (fq_contents C q) q"

definition fq_room :: "usize \<Rightarrow> 'a fixed_queue \<Rightarrow> nat" where
  "fq_room C q = unat C - length (fq_contents C q)"

lemma fq_rep_size:
  assumes "fq_rep ty C xs q"
  shows "unat (fq_size C q) = length xs" "fq_size C q = C \<longleftrightarrow> length xs = unat C"
    "fq_empty q \<longleftrightarrow> xs = []" "length xs \<le> unat C"
  using assms ring_holds_size [of ty "fq_buf_cap C" "fq_head q" "fq_tail q" xs "fq_storage q"]
  by (auto simp: fq_rep_def fq_size_def fq_empty_def usize_eq_iff)

lemma fq_rep_contents:
  assumes "fq_rep ty C xs q"
  shows "fq_contents C q = xs"
proof -
  have "ring_rep ty (unat (fq_head q)) xs (fq_storage q)"
    using assms ring_holdsD(3) by (auto simp: fq_rep_def)
  from ring_rep_contents [OF this] show ?thesis
    using fq_rep_size(1) [OF assms] by (simp add: fq_contents_def)
qed

lemma fq_rep_inv: "fq_rep ty C xs q \<Longrightarrow> fq_inv ty C q"
  by (simp add: fq_inv_def fq_rep_contents)

lemma fq_buf_cap_po2:
  assumes "unat C < 2 ^ 63"
  shows "is_po2 (fq_buf_cap C)" "unat C < unat (fq_buf_cap C)"
proof -
  have "unat (C + 1) = Suc (unat C)" using assms by (simp add: unat_word_ariths)
  with assms show "is_po2 (fq_buf_cap C)" "unat C < unat (fq_buf_cap C)"
    using fixed_round_up_spec [of "C + 1"] by (auto simp: fq_buf_cap_def least_po2_def)
qed

lemma fq_rep_new: "0 < unat C \<Longrightarrow> unat C < 2 ^ 63 \<Longrightarrow> fq_rep ty C [] (fq_new C)"
  by (simp add: fq_rep_def fq_new_def ring_holds_new fq_buf_cap_po2)

lemma fq_construct_back_rep:
  assumes "fq_rep ty C xs q" "length xs < unat C"
  shows "\<exists>q'. fq_construct_back ty C x q = Some q' \<and> fq_rep ty C (xs @ [x]) q'"
  using assms ring_holds_push [of ty "fq_buf_cap C" "fq_head q" "fq_tail q" xs "fq_storage q" x]
    fq_buf_cap_po2 [of C]
  by (auto simp: fq_rep_def fq_construct_back_def fq_buf_mask_def)

lemma fq_destroy_front_rep:
  assumes "fq_rep ty C (x # xs) q"
  shows "\<exists>q'. fq_destroy_front ty C q = Some q' \<and> fq_rep ty C xs q'"
    "\<exists>q'. fq_destroy_front ty C (q\<lparr>fq_storage := (fq_storage q)[unat (fq_head q) := Some y]\<rparr>) = Some q' \<and>
       fq_rep ty C xs q'"
proof -
  have r: "ring_holds ty (fq_buf_cap C) (fq_head q) (fq_tail q) (x # xs) (fq_storage q)"
    using assms by (simp add: fq_rep_def)
  show "\<exists>q'. fq_destroy_front ty C q = Some q' \<and> fq_rep ty C xs q'"
    using ring_holds_pop(3) [OF r] assms by (auto simp: fq_rep_def fq_destroy_front_def fq_buf_mask_def)
  show "\<exists>q'. fq_destroy_front ty C (q\<lparr>fq_storage := (fq_storage q)[unat (fq_head q) := Some y]\<rparr>) = Some q' \<and>
      fq_rep ty C xs q'"
    using ring_holds_pop(4) [OF r, of y] assms
    by (auto simp: fq_rep_def fq_destroy_front_def fq_buf_mask_def)
qed

lemma fq_try_push_rep:
  assumes "fq_rep ty C xs q"
  shows "length xs < unat C \<Longrightarrow>
           \<exists>q'. fq_try_push ty C x q = Some (True, q') \<and> fq_rep ty C (xs @ [x]) q'"
    and "length xs = unat C \<Longrightarrow> fq_try_push ty C x q = Some (False, q)"
  using fq_construct_back_rep [OF assms, of x] fq_rep_size [OF assms] by (auto simp: fq_try_push_def)

lemma fq_try_pop_rep:
  assumes "fq_rep ty C (x # xs) q"
  shows "\<exists>q'. fq_try_pop ty C q = Some (Some x, q') \<and> fq_rep ty C xs q'"
proof -
  have "slot_move ty (unat (fq_head q)) (fq_storage q) =
      Some (x, (fq_storage q)[unat (fq_head q) := Some (moved_from ty x)])"
    using assms ring_holds_pop(2) by (auto simp: fq_rep_def)
  then show ?thesis
    using fq_destroy_front_rep(2) [OF assms, of "moved_from ty x"] fq_rep_size(3) [OF assms]
    by (auto simp: fq_try_pop_def)
qed

lemma fq_try_pop_empty: "fq_rep ty C [] q \<Longrightarrow> fq_try_pop ty C q = Some (None, q)"
  using fq_rep_size(3) [of ty C "[]" q] by (simp add: fq_try_pop_def)

section \<open>The queue contract\<close>

interpretation fq: bounded_fifo "fq_inv ty C" "fq_contents C" "fq_room C" "fq_try_push ty C"
    "fq_try_pop ty C" "\<lambda>_. unat C"
  for ty :: "'a elem_type" and C
proof unfold_locales
  fix q :: "'a fixed_queue" and x
  assume "fq_inv ty C q"
  then have r: "fq_rep ty C (fq_contents C q) q" by (simp add: fq_inv_def)
  note observe = fq_rep_contents fq_rep_inv
  show "\<exists>q'. fq_try_push ty C x q = Some (True, q') \<and> fq_inv ty C q' \<and>
             fq_contents C q' = fq_contents C q @ [x] \<and> fq_room C q \<le> Suc (fq_room C q')"
    if room: "0 < fq_room C q"
  proof -
    obtain q' where "fq_try_push ty C x q = Some (True, q')" "fq_rep ty C (fq_contents C q @ [x]) q'"
      using fq_try_push_rep(1) [OF r, of x] room by (auto simp: fq_room_def)
    then show ?thesis using observe by (auto simp: fq_room_def)
  qed
  show "\<exists>q'. fq_try_pop ty C q = Some (Some x, q') \<and> fq_inv ty C q' \<and> fq_contents C q' = xs \<and>
             fq_room C q \<le> fq_room C q'"
    if c: "fq_contents C q = x # xs" for xs
  proof -
    obtain q' where "fq_try_pop ty C q = Some (Some x, q')" "fq_rep ty C xs q'"
      using fq_try_pop_rep [of ty C x xs q] r c by auto
    with c show ?thesis using observe by (auto simp: fq_room_def)
  qed
  show "fq_try_pop ty C q = Some (None, q)" if "fq_contents C q = []"
    using r that fq_try_pop_empty by simp
  show "length (fq_contents C q) + fq_room C q = unat C"
    using fq_rep_size(4) [OF r] by (simp add: fq_room_def)
  show "fq_try_push ty C x q = Some (False, q)" if "fq_room C q = 0"
    using fq_try_push_rep(2) [OF r] fq_rep_size(4) [OF r] that by (simp add: fq_room_def)
qed (rule refl)+

section \<open>Clearing, copying, moving\<close>

lemma fq_clear_rep:
  assumes "fq_rep ty C xs q"
  shows "\<exists>q'. fq_clear ty C q = Some q' \<and> fq_rep ty C [] q' \<and> fq_tail q' = 0 \<and> fq_head q' = 0"
proof -
  have "ring_holds ty (fq_buf_cap C) (fq_head q) (fq_tail q) xs (fq_storage q)"
    using assms by (simp add: fq_rep_def)
  from ring_clear_rep [OF this] assms show ?thesis
    by (auto simp: fq_clear_def fq_rep_def fq_buf_mask_def)
qed

lemma fq_append_copy_rep:
  assumes "fq_rep ty C xs rhs" "fq_rep ty C [] q" "fq_head q = 0" "fq_tail q = 0"
  shows "\<exists>q'. fq_append_copy ty C rhs q = Some q' \<and> fq_rep ty C xs q'"
proof -
  have r: "ring_holds ty (fq_buf_cap C) (fq_head rhs) (fq_tail rhs) xs (fq_storage rhs)"
    "ring_holds ty (fq_buf_cap C) 0 0 [] (fq_storage q)"
    using assms by (simp_all add: fq_rep_def)
  from ring_copy_rep [OF r ring_holdsD(6) [OF r(1)]] assms show ?thesis
    by (auto simp: fq_append_copy_def fq_rep_def fq_buf_mask_def)
qed

lemma fq_append_move_rep:
  assumes "fq_rep ty C xs rhs" "fq_rep ty C [] q" "fq_head q = 0" "fq_tail q = 0"
  shows "\<exists>q' rhs'. fq_append_move ty C rhs q = Some (q', rhs') \<and> fq_rep ty C xs q' \<and> fq_rep ty C [] rhs'"
proof -
  have r: "ring_holds ty (fq_buf_cap C) (fq_head rhs) (fq_tail rhs) xs (fq_storage rhs)"
    "ring_holds ty (fq_buf_cap C) 0 0 [] (fq_storage q)"
    using assms by (simp_all add: fq_rep_def)
  obtain m te src where m: "ring_move ty (fq_buf_cap C - 1) (fq_head rhs) (fq_tail rhs) (fq_buf_cap C - 1)
        (fq_storage q, 0, fq_storage rhs) = Some (m, te, src)"
      "ring_holds ty (fq_buf_cap C) 0 te xs m"
      "ring_holds ty (fq_buf_cap C) (fq_head rhs) (fq_tail rhs) (map (moved_from ty) xs) src"
    using ring_move_rep [OF r ring_holdsD(6) [OF r(1)]] by blast
  then have "fq_rep ty C (map (moved_from ty) xs) (rhs\<lparr>fq_storage := src\<rparr>)"
    using assms(1) by (simp add: fq_rep_def)
  from fq_clear_rep [OF this] m assms show ?thesis
    by (auto simp: fq_append_move_def fq_rep_def fq_buf_mask_def)
qed

lemma fq_copy_rep:
  assumes "fq_rep ty C xs rhs"
  shows "\<exists>q. fq_copy ty C rhs = Some q \<and> fq_rep ty C xs q"
  using fq_append_copy_rep [OF assms fq_rep_new] assms by (simp add: fq_copy_def fq_rep_def fq_new_def)

lemma fq_move_rep:
  assumes "fq_rep ty C xs rhs"
  shows "\<exists>q rhs'. fq_move ty C rhs = Some (q, rhs') \<and> fq_rep ty C xs q \<and> fq_rep ty C [] rhs'"
proof -
  have "fq_rep ty C [] (fq_new C)" using assms by (intro fq_rep_new) (auto simp: fq_rep_def)
  from fq_append_move_rep [OF assms this] show ?thesis by (simp add: fq_move_def fq_new_def)
qed

lemma fq_move_into_rep:
  assumes "fq_rep ty C xs rhs" "fq_rep ty C ys q"
  shows "\<exists>q' rhs'. fq_move_into ty C q rhs = Some (q', rhs') \<and> fq_rep ty C xs q' \<and> fq_rep ty C [] rhs'"
proof -
  obtain q1 where q1: "fq_clear ty C q = Some q1" "fq_rep ty C [] q1" "fq_tail q1 = 0" "fq_head q1 = 0"
    using fq_clear_rep [OF assms(2)] by blast
  from fq_append_move_rep [OF assms(1) q1(2,4,3)] q1(1) show ?thesis by (simp add: fq_move_into_def)
qed

lemma fq_assign_rep:
  assumes "fq_rep ty C xs rhs" "fq_rep ty C ys q"
  shows "\<exists>q'. fq_assign ty C q (Other rhs) = Some q' \<and> fq_rep ty C xs q'"
    "\<exists>q' rhs'. fq_assign_move ty C q (Other rhs) = Some (q', Other rhs') \<and>
       fq_rep ty C xs q' \<and> fq_rep ty C [] rhs'"
proof -
  obtain q1 where q1: "fq_clear ty C q = Some q1" "fq_rep ty C [] q1" "fq_tail q1 = 0" "fq_head q1 = 0"
    using fq_clear_rep [OF assms(2)] by blast
  show "\<exists>q'. fq_assign ty C q (Other rhs) = Some q' \<and> fq_rep ty C xs q'"
    using fq_append_copy_rep [OF assms(1) q1(2,4,3)] q1(1) by simp
  show "\<exists>q' rhs'. fq_assign_move ty C q (Other rhs) = Some (q', Other rhs') \<and>
      fq_rep ty C xs q' \<and> fq_rep ty C [] rhs'"
    using fq_append_move_rep [OF assms(1) q1(2,4,3)] q1(1) by auto
qed

lemma fq_swap_rep:
  assumes "fq_rep ty C xs q" "fq_rep ty C ys t"
  shows "\<exists>q' t'. fq_swap ty C q (Other t) = Some (q', Other t') \<and> fq_rep ty C ys q' \<and> fq_rep ty C xs t'"
    "\<exists>q'. fq_swap ty C q Self = Some (q', Self) \<and> fq_rep ty C xs q'"
proof -
  obtain tmp t1 where 1: "fq_move ty C t = Some (tmp, t1)" "fq_rep ty C ys tmp" "fq_rep ty C [] t1"
    using fq_move_rep [OF assms(2)] by blast
  obtain t2 q1 where 2: "fq_move_into ty C t1 q = Some (t2, q1)" "fq_rep ty C xs t2" "fq_rep ty C [] q1"
    using fq_move_into_rep [OF assms(1) 1(3)] by blast
  obtain q2 tmp' where 3: "fq_move_into ty C q1 tmp = Some (q2, tmp')" "fq_rep ty C ys q2" "fq_rep ty C [] tmp'"
    using fq_move_into_rep [OF 1(2) 2(3)] by blast
  show "\<exists>q' t'. fq_swap ty C q (Other t) = Some (q', Other t') \<and> fq_rep ty C ys q' \<and> fq_rep ty C xs t'"
    using 1(1) 2 3 fq_clear_rep [OF 3(3)] by auto
next
  obtain tmp q1 where 1: "fq_move ty C q = Some (tmp, q1)" "fq_rep ty C xs tmp" "fq_rep ty C [] q1"
    using fq_move_rep [OF assms(1)] by blast
  obtain q2 tmp' where 3: "fq_move_into ty C q1 tmp = Some (q2, tmp')" "fq_rep ty C xs q2" "fq_rep ty C [] tmp'"
    using fq_move_into_rep [OF 1(2,3)] by blast
  show "\<exists>q'. fq_swap ty C q Self = Some (q', Self) \<and> fq_rep ty C xs q'"
    using 1(1) 3 fq_clear_rep [OF 3(3)] by auto
qed

lemma fq_eq_rep:
  assumes "fq_rep ty C xs q" "fq_rep ty C ys t"
  shows "fq_eq eq C q t = Some (list_all2 eq xs ys)"
proof (cases "length xs = length ys")
  case True
  then have "fq_size C q = fq_size C t"
    using fq_rep_size(1) [OF assms(1)] fq_rep_size(1) [OF assms(2)] by (simp add: usize_eq_iff)
  with True show ?thesis
    using assms ring_equal_rep by (fastforce simp: fq_eq_def fq_rep_def fq_buf_mask_def)
next
  case False
  then show ?thesis
    using fq_rep_size(1) [OF assms(1)] fq_rep_size(1) [OF assms(2)] list_all2_lengthD [of eq xs ys]
    by (auto simp: fq_eq_def usize_eq_iff)
qed

lemma fq_push_all_rep:
  assumes "fq_rep ty C xs q"
  shows "\<exists>q'. fq_push_all ty C vs q =
             Some (if length xs + length vs \<le> unat C then Inr () else Inl Overflow_error, q') \<and>
           fq_rep ty C (xs @ take (unat C - length xs) vs) q'"
  using assms
proof (induction vs arbitrary: xs q)
  case Nil
  then show ?case using fq_rep_size(4) [OF Nil.prems] by simp
next
  case (Cons v vs)
  show ?case
  proof (cases "fq_size C q = C")
    case True
    then have "length xs = unat C" using fq_rep_size(2) [OF Cons.prems] by simp
    with True Cons.prems show ?thesis by simp
  next
    case False
    then have l: "length xs < unat C"
      using fq_rep_size(2,4) [OF Cons.prems] by linarith
    then obtain q1 where q1: "fq_construct_back ty C v q = Some q1" "fq_rep ty C (xs @ [v]) q1"
      using fq_construct_back_rep [OF Cons.prems, of v] by blast
    have "unat C - length xs = Suc (unat C - length (xs @ [v]))" using l by simp
    then show ?thesis using Cons.IH [OF q1(2)] q1(1) False by simp
  qed
qed

section \<open>Properties\<close>

text \<open>
  Any sequence of \<open>try_push\<close> and \<open>try_pop\<close> on a new fixed queue of capacity below
  \<open>2^63\<close> runs without undefined behaviour and returns exactly what a list bounded by
  \<open>Capacity\<close> returns used first-in first-out, however often the indices wrap around.
\<close>

theorem fixed_queue_refines_bounded_queue:
  assumes "0 < unat C" "unat C < 2 ^ 63"
  shows "\<exists>outs q. run_ops (container_step (fq_try_push ty C) (fq_try_pop ty C)) ops (fq_new C) = Some (outs, q) \<and>
           run_ops (queue_spec (unat C)) ops [] = Some (outs, fq_contents C q) \<and> fq_inv ty C q"
proof -
  note r = fq_rep_new [OF assms, of ty]
  show ?thesis
    using fq.run_refines [OF fq_rep_inv [OF r], of ops] fq_rep_contents [OF r] by auto
qed

theorem fixed_queue_refines_bounded_queue_witness:
  "\<exists>outs q. run_ops (container_step (fq_try_push \<lparr>is_trivial = False, residue = \<lambda>_. 0 :: int\<rparr> 2)
       (fq_try_pop \<lparr>is_trivial = False, residue = \<lambda>_. 0\<rparr> 2))
       [Push 1, Push 2, Push 3, Pop, Push 4, Pop, Push 5, Pop] (fq_new 2) = Some (outs, q) \<and>
     outs = [Pushed True, Pushed True, Pushed False, Popped (Some 1), Pushed True, Popped (Some 2),
             Pushed True, Popped (Some 4)] \<and> fq_contents 2 q = [5]"
  using fixed_queue_refines_bounded_queue [of 2 "\<lparr>is_trivial = False, residue = \<lambda>_. 0 :: int\<rparr>"
      "[Push 1, Push 2, Push 3, Pop, Push 4, Pop, Push 5, Pop]"]
  by auto

text \<open>
  Copying, moving, assigning, swapping (also a queue with itself) and comparing fixed
  queues has value semantics on the sequence of elements, whatever the positions of the
  indices; a moved-from queue is empty and holds no live object.
\<close>

theorem fixed_queue_value_semantics:
  assumes "fq_inv ty C q" "fq_inv ty C t"
  shows "(\<exists>q'. fq_copy ty C t = Some q' \<and> fq_inv ty C q' \<and> fq_contents C q' = fq_contents C t) \<and>
    (\<exists>q'. fq_assign ty C q (Other t) = Some q' \<and> fq_inv ty C q' \<and> fq_contents C q' = fq_contents C t) \<and>
    (\<exists>q' t'. fq_assign_move ty C q (Other t) = Some (q', Other t') \<and> fq_inv ty C q' \<and>
       fq_contents C q' = fq_contents C t \<and> fq_inv ty C t' \<and> fq_contents C t' = []) \<and>
    (\<exists>q' t'. fq_swap ty C q (Other t) = Some (q', Other t') \<and> fq_inv ty C q' \<and>
       fq_contents C q' = fq_contents C t \<and> fq_inv ty C t' \<and> fq_contents C t' = fq_contents C q) \<and>
    (\<exists>q'. fq_swap ty C q Self = Some (q', Self) \<and> fq_inv ty C q' \<and> fq_contents C q' = fq_contents C q) \<and>
    fq_eq eq C q t = Some (list_all2 eq (fq_contents C q) (fq_contents C t))"
proof -
  have r: "fq_rep ty C (fq_contents C q) q" "fq_rep ty C (fq_contents C t) t"
    using assms by (simp_all add: fq_inv_def)
  note observe = fq_rep_contents fq_rep_inv
  show ?thesis
  proof (intro conjI)
    show "\<exists>q'. fq_copy ty C t = Some q' \<and> fq_inv ty C q' \<and> fq_contents C q' = fq_contents C t"
      using fq_copy_rep [OF r(2)] by (blast intro: observe)
    show "\<exists>q'. fq_assign ty C q (Other t) = Some q' \<and> fq_inv ty C q' \<and> fq_contents C q' = fq_contents C t"
      using fq_assign_rep(1) [OF r(2,1)] by (blast intro: observe)
    show "\<exists>q' t'. fq_assign_move ty C q (Other t) = Some (q', Other t') \<and> fq_inv ty C q' \<and>
        fq_contents C q' = fq_contents C t \<and> fq_inv ty C t' \<and> fq_contents C t' = []"
      using fq_assign_rep(2) [OF r(2,1)] by (blast intro: observe)
    show "\<exists>q' t'. fq_swap ty C q (Other t) = Some (q', Other t') \<and> fq_inv ty C q' \<and>
        fq_contents C q' = fq_contents C t \<and> fq_inv ty C t' \<and> fq_contents C t' = fq_contents C q"
      using fq_swap_rep(1) [OF r] by (blast intro: observe)
    show "\<exists>q'. fq_swap ty C q Self = Some (q', Self) \<and> fq_inv ty C q' \<and> fq_contents C q' = fq_contents C q"
      using fq_swap_rep(2) [OF r] by (blast intro: observe)
  qed (rule fq_eq_rep [OF r])
qed

theorem fixed_queue_value_semantics_witness:
  "\<exists>q t q' t'. fq_from_list \<lparr>is_trivial = False, residue = \<lambda>_. 0 :: int\<rparr> 3 [1] = Some (Inr (), q) \<and>
     fq_from_list \<lparr>is_trivial = False, residue = \<lambda>_. 0\<rparr> 3 [7, 8, 9] = Some (Inr (), t) \<and>
     fq_swap \<lparr>is_trivial = False, residue = \<lambda>_. 0\<rparr> 3 q (Other t) = Some (q', Other t') \<and>
     fq_contents 3 q' = [7, 8, 9] \<and> fq_contents 3 t' = [1]"
proof -
  let ?ty = "\<lparr>is_trivial = False, residue = \<lambda>_. 0 :: int\<rparr>"
  have n: "fq_rep ?ty 3 [] (fq_new 3)" by (rule fq_rep_new) simp_all
  obtain q where q: "fq_from_list ?ty 3 [1] = Some (Inr (), q)" "fq_rep ?ty 3 [1] q"
    using fq_push_all_rep [OF n, of "[1]"] by (auto simp: fq_from_list_def)
  obtain t where t: "fq_from_list ?ty 3 [7, 8, 9] = Some (Inr (), t)" "fq_rep ?ty 3 [7, 8, 9] t"
    using fq_push_all_rep [OF n, of "[7, 8, 9]"] by (auto simp: fq_from_list_def)
  show ?thesis
    using fixed_queue_value_semantics [OF fq_rep_inv [OF q(2)] fq_rep_inv [OF t(2)], of "(=)"]
      q t fq_rep_contents [OF q(2)] fq_rep_contents [OF t(2)]
    by metis
qed

text \<open>
  The failing branches of the fixed queue throw \<open>overflow_error\<close> or
  \<open>underflow_error\<close> exactly when it is full or empty and change neither the queue nor the
  argument to be moved in; the others push, construct in place and pop as \<open>try_push\<close> and
  \<open>try_pop\<close> do. \<open>size\<close>, \<open>front\<close> and \<open>back\<close> observe the sequence of elements.
\<close>

theorem fixed_queue_throwing_operations:
  assumes "fq_inv ty C q"
  shows "unat (fq_size C q) = length (fq_contents C q) \<and>
    (if length (fq_contents C q) = unat C
     then fq_push ty C x q = Some (Inl Overflow_error, q) \<and>
          fq_push_move ty C x q = Some (Inl Overflow_error, x, q) \<and>
          fq_emplace ty C mk args q = Some (Inl Overflow_error, q)
     else (\<exists>q'. fq_try_push ty C x q = Some (True, q') \<and> fq_push ty C x q = Some (Inr (), q') \<and>
             fq_push_move ty C x q = Some (Inr (), moved_from ty x, q') \<and> fq_back C q' = Some x) \<and>
          (\<exists>q'. fq_emplace ty C mk args q = Some (Inr (fq_tail q), q') \<and>
             fq_contents C q' = fq_contents C q @ [mk args])) \<and>
    (case fq_contents C q of
       [] \<Rightarrow> fq_pop ty C q = Some (Inl Underflow_error, q)
     | y # ys \<Rightarrow> fq_front q = Some y \<and>
         (\<exists>q'. fq_pop ty C q = Some (Inr (), q') \<and> fq_inv ty C q' \<and> fq_contents C q' = ys))"
proof -
  have r: "fq_rep ty C (fq_contents C q) q" using assms by (simp add: fq_inv_def)
  note size = fq_rep_size [OF r]
  have pop: "case fq_contents C q of
       [] \<Rightarrow> fq_pop ty C q = Some (Inl Underflow_error, q)
     | y # ys \<Rightarrow> fq_front q = Some y \<and>
         (\<exists>q'. fq_pop ty C q = Some (Inr (), q') \<and> fq_inv ty C q' \<and> fq_contents C q' = ys)"
  proof (cases "fq_contents C q")
    case Nil
    then show ?thesis using size(3) by (simp add: fq_pop_def)
  next
    case (Cons y ys)
    then have r': "fq_rep ty C (y # ys) q" using r by simp
    then have "fq_front q = Some y" using ring_holds_front by (auto simp: fq_rep_def fq_front_def)
    with fq_destroy_front_rep(1) [OF r'] Cons size(3) show ?thesis
      by (auto simp: fq_pop_def fq_rep_contents intro: fq_rep_inv)
  qed
  show ?thesis
  proof (cases "length (fq_contents C q) = unat C")
    case True
    with size pop show ?thesis
      by (simp add: fq_push_def fq_try_push_def fq_push_move_def fq_try_push_move_def fq_emplace_def)
  next
    case False
    then have l: "length (fq_contents C q) < unat C" using size(4) by simp
    obtain q1 where q1: "fq_construct_back ty C x q = Some q1" "fq_rep ty C (fq_contents C q @ [x]) q1"
      using fq_construct_back_rep [OF r l] by blast
    have "fq_back C q1 = Some x"
      using q1(2) ring_holds_back by (auto simp: fq_rep_def fq_back_def)
    with q1 fq_construct_back_rep [OF r l, of "mk args"] False size pop show ?thesis
      by (auto simp: fq_push_def fq_try_push_def fq_push_move_def fq_try_push_move_def fq_emplace_def
          fq_rep_contents)
  qed
qed

theorem fixed_queue_throwing_operations_witness:
  "fq_inv \<lparr>is_trivial = True, residue = id\<rparr> 2 (fq_new 2 :: int fixed_queue) \<and>
   fq_pop \<lparr>is_trivial = True, residue = id\<rparr> 2 (fq_new 2 :: int fixed_queue) = Some (Inl Underflow_error, fq_new 2)"
proof -
  have r: "fq_rep \<lparr>is_trivial = True, residue = id\<rparr> 2 [] (fq_new 2 :: int fixed_queue)"
    by (rule fq_rep_new) simp_all
  show ?thesis
    using fixed_queue_throwing_operations [OF fq_rep_inv [OF r], of 0 id 0] fq_rep_contents [OF r] fq_rep_inv [OF r]
    by simp
qed

text \<open>
  Constructing a fixed queue from an initializer list succeeds exactly when the list fits;
  a longer list throws \<open>overflow_error\<close> out of the constructor with \<open>Capacity\<close> elements
  live in the abandoned storage, whose destructors no code runs.
\<close>

theorem fixed_queue_from_list:
  assumes "0 < unat C" "unat C < 2 ^ 63"
  shows "\<exists>q. fq_from_list ty C il = Some (if length il \<le> unat C then Inr () else Inl Overflow_error, q) \<and>
           fq_contents C q = take (unat C) il \<and>
           (\<forall>k < length (fq_contents C q). fq_storage q ! k = Some (il ! k))"
proof -
  obtain q where q: "fq_from_list ty C il = Some (if length il \<le> unat C then Inr () else Inl Overflow_error, q)"
      "fq_rep ty C (take (unat C) il) q"
    using fq_push_all_rep [OF fq_rep_new [OF assms], of ty il] by (auto simp: fq_from_list_def)
  have "fq_push_all ty C vs p = Some (r, p') \<Longrightarrow> fq_head p' = fq_head p" for vs p r p'
    by (induction vs arbitrary: p)
       (auto simp: fq_construct_back_def split: if_splits bind_splits)
  from this [of il "fq_new C"] q have "fq_head q = 0" by (simp add: fq_from_list_def fq_new_def)
  then have "lin_rep ty (take (unat C) il) (fq_storage q)"
    using q(2) ring_holds_0_iff [of "fq_buf_cap C" "fq_storage q"] ring_holdsD(2,5)
    by (fastforce simp: fq_rep_def)
  then show ?thesis using q fq_rep_contents [OF q(2)] by (auto simp: lin_rep_def)
qed

theorem fixed_queue_from_list_witness:
  "\<exists>q. fq_from_list \<lparr>is_trivial = False, residue = \<lambda>_. 0 :: int\<rparr> 2 [4, 5, 6] = Some (Inl Overflow_error, q) \<and>
     fq_contents 2 q = [4, 5]"
  using fixed_queue_from_list [of 2 "\<lparr>is_trivial = False, residue = \<lambda>_. 0 :: int\<rparr>" "[4, 5, 6]"] by auto

end
