(* ===== verification/FixedPrograms.thy ===== *)
theory FixedPrograms
  imports FixedStack FixedQueue
begin

text \<open>
  Programs over any number of fixed stacks or fixed queues of one type: they push, pop and clear
  single objects, and copy-assign, move-assign, swap and compare any two, which may be one
  and the same. The contract of such a container is a locale, and stack and queue are its
  two interpretations.
\<close>

section \<open>Programs\<close>

datatype 'a store_op =
    Store_push nat 'a
  | Store_pop nat
  | Store_clear nat
  | Store_copy nat nat
  | Store_move nat nat
  | Store_swap nat nat
  | Store_compare nat nat

datatype 'a store_result =
    Store_done
  | Store_pushed bool
  | Store_popped "'a option"
  | Store_equal bool

text \<open>The operations of a container; the second operand of an assignment may be the first.\<close>

record ('a, 's) container_api =
  api_push :: "'a \<Rightarrow> 's \<Rightarrow> (bool \<times> 's) option"
  api_pop :: "'s \<Rightarrow> ('a option \<times> 's) option"
  api_clear :: "'s \<Rightarrow> 's option"
  api_copy :: "'s \<Rightarrow> 's operand \<Rightarrow> 's option"
  api_move :: "'s \<Rightarrow> 's operand \<Rightarrow> ('s \<times> 's operand) option"
  api_swap :: "'s \<Rightarrow> 's operand \<Rightarrow> ('s \<times> 's operand) option"
  api_equal :: "'s \<Rightarrow> 's \<Rightarrow> bool option"

text \<open>The objects are numbered; \<open>second_operand\<close> and \<open>put_operands\<close> take care of \<open>i = j\<close>.\<close>

definition second_operand :: "(nat \<Rightarrow> 's) \<Rightarrow> nat \<Rightarrow> nat \<Rightarrow> 's operand" where
  "second_operand st i j = (if i = j then Self else Other (st j))"

fun put_operands :: "nat \<Rightarrow> nat \<Rightarrow> 's \<times> 's operand \<Rightarrow> (nat \<Rightarrow> 's) \<Rightarrow> nat \<Rightarrow> 's" where
  "put_operands i j (s, Self) st = st(i := s)"
| "put_operands i j (s, Other t) st = st(i := s, j := t)"

fun store_step :: "('a, 's) container_api \<Rightarrow> 'a store_op \<Rightarrow> (nat \<Rightarrow> 's) \<Rightarrow> ('a store_result \<times> (nat \<Rightarrow> 's)) option" where
  "store_step api (Store_push i x) st = do { (ok, s) \<leftarrow> api_push api x (st i); Some (Store_pushed ok, st(i := s)) }"
| "store_step api (Store_pop i) st = do { (out, s) \<leftarrow> api_pop api (st i); Some (Store_popped out, st(i := s)) }"
| "store_step api (Store_clear i) st = do { s \<leftarrow> api_clear api (st i); Some (Store_done, st(i := s)) }"
| "store_step api (Store_copy i j) st = do { s \<leftarrow> api_copy api (st i) (second_operand st i j); Some (Store_done, st(i := s)) }"
| "store_step api (Store_move i j) st =
     do { r \<leftarrow> api_move api (st i) (second_operand st i j); Some (Store_done, put_operands i j r st) }"
| "store_step api (Store_swap i j) st =
     do { r \<leftarrow> api_swap api (st i) (second_operand st i j); Some (Store_done, put_operands i j r st) }"
| "store_step api (Store_compare i j) st = do { b \<leftarrow> api_equal api (st i) (st j); Some (Store_equal b, st) }"

text \<open>The same over lists of at most \<open>C\<close> elements, the next to be popped first.\<close>

fun store_spec :: "nat \<Rightarrow> ('a \<Rightarrow> 'a list \<Rightarrow> 'a list) \<Rightarrow> ('a \<Rightarrow> 'a \<Rightarrow> bool) \<Rightarrow> 'a store_op \<Rightarrow> (nat \<Rightarrow> 'a list) \<Rightarrow>
    ('a store_result \<times> (nat \<Rightarrow> 'a list)) option" where
  "store_spec C add same (Store_push i x) m =
     Some (if length (m i) < C then (Store_pushed True, m(i := add x (m i))) else (Store_pushed False, m))"
| "store_spec C add same (Store_pop i) m =
     Some (case m i of [] \<Rightarrow> (Store_popped None, m) | x # xs \<Rightarrow> (Store_popped (Some x), m(i := xs)))"
| "store_spec C add same (Store_clear i) m = Some (Store_done, m(i := []))"
| "store_spec C add same (Store_copy i j) m = Some (Store_done, m(i := m j))"
| "store_spec C add same (Store_move i j) m = Some (Store_done, if i = j then m else m(i := m j, j := []))"
| "store_spec C add same (Store_swap i j) m = Some (Store_done, m(i := m j, j := m i))"
| "store_spec C add same (Store_compare i j) m = Some (Store_equal (list_all2 same (m i) (m j)), m)"

section \<open>The contract\<close>

locale value_container =
  fixes api :: "('a, 's) container_api"
    and inv :: "'s \<Rightarrow> bool"
    and contents :: "'s \<Rightarrow> 'a list"
    and C :: nat
    and add :: "'a \<Rightarrow> 'a list \<Rightarrow> 'a list"
    and same :: "'a \<Rightarrow> 'a \<Rightarrow> bool"
  assumes push_room: "inv s \<Longrightarrow> length (contents s) < C \<Longrightarrow>
      \<exists>s'. api_push api x s = Some (True, s') \<and> inv s' \<and> contents s' = add x (contents s)"
    and push_full: "inv s \<Longrightarrow> \<not> length (contents s) < C \<Longrightarrow> api_push api x s = Some (False, s)"
    and pop_elem: "inv s \<Longrightarrow> contents s = x # xs \<Longrightarrow> \<exists>s'. api_pop api s = Some (Some x, s') \<and> inv s' \<and> contents s' = xs"
    and pop_empty: "inv s \<Longrightarrow> contents s = [] \<Longrightarrow> api_pop api s = Some (None, s)"
    and clear: "inv s \<Longrightarrow> \<exists>s'. api_clear api s = Some s' \<and> inv s' \<and> contents s' = []"
    and copy_self: "api_copy api s Self = Some s"
    and copy_other: "inv s \<Longrightarrow> inv t \<Longrightarrow>
      \<exists>s'. api_copy api s (Other t) = Some s' \<and> inv s' \<and> contents s' = contents t"
    and move_self: "api_move api s Self = Some (s, Self)"
    and move_other: "inv s \<Longrightarrow> inv t \<Longrightarrow> \<exists>s' t'. api_move api s (Other t) = Some (s', Other t') \<and>
      inv s' \<and> contents s' = contents t \<and> inv t' \<and> contents t' = []"
    and swap_self: "inv s \<Longrightarrow> \<exists>s'. api_swap api s Self = Some (s', Self) \<and> inv s' \<and> contents s' = contents s"
    and swap_other: "inv s \<Longrightarrow> inv t \<Longrightarrow> \<exists>s' t'. api_swap api s (Other t) = Some (s', Other t') \<and>
      inv s' \<and> contents s' = contents t \<and> inv t' \<and> contents t' = contents s"
    and equal: "inv s \<Longrightarrow> inv t \<Longrightarrow> api_equal api s t = Some (list_all2 same (contents s) (contents t))"
begin

lemma upd_contents: "contents \<circ> st(k := s) = (contents \<circ> st)(k := contents s)"
  by (auto simp: fun_eq_iff)

lemma step_refines:
  assumes "\<forall>i. inv (st i)"
  shows "\<exists>out st'. store_step api op st = Some (out, st') \<and>
    store_spec C add same op (contents \<circ> st) = Some (out, contents \<circ> st') \<and> (\<forall>i. inv (st' i))"
proof -
  have i: "inv (st k)" for k using assms by blast
  show ?thesis
  proof (cases op)
    case (Store_push k x)
    then show ?thesis
    proof (cases "length (contents (st k)) < C")
      case True
      obtain s where "api_push api x (st k) = Some (True, s)" "inv s" "contents s = add x (contents (st k))"
        using push_room [OF i True] by blast
      then show ?thesis using Store_push True i by (auto simp: upd_contents)
    qed (use push_full [OF i, of k x] i in \<open>auto\<close>)
  next
    case (Store_pop k)
    then show ?thesis
    proof (cases "contents (st k)")
      case (Cons x xs)
      obtain s where "api_pop api (st k) = Some (Some x, s)" "inv s" "contents s = xs"
        using pop_elem [OF i Cons] by blast
      then show ?thesis using Store_pop Cons i by (auto simp: upd_contents)
    qed (use pop_empty [OF i, of k] i in \<open>auto\<close>)
  next
    case (Store_clear k)
    obtain s where "api_clear api (st k) = Some s" "inv s" "contents s = []"
      using clear [OF i] by blast
    then show ?thesis using Store_clear i by (auto simp: upd_contents)
  next
    case (Store_copy k j)
    obtain s where "api_copy api (st k) (second_operand st k j) = Some s" "inv s" "contents s = contents (st j)"
      using copy_self copy_other [OF i i, of k j] i unfolding second_operand_def by metis
    then show ?thesis using Store_copy i by (auto simp: upd_contents)
  next
    case (Store_move k j)
    then show ?thesis
    proof (cases "k = j")
      case False
      obtain s t where "api_move api (st k) (Other (st j)) = Some (s, Other t)" "inv s" "inv t"
        "contents s = contents (st j)" "contents t = []"
        using move_other [OF i i] by blast
      then show ?thesis using Store_move False i by (auto simp: upd_contents second_operand_def)
    qed (use move_self i in \<open>auto simp: second_operand_def\<close>)
  next
    case (Store_swap k j)
    then show ?thesis
    proof (cases "k = j")
      case True
      obtain s where "api_swap api (st k) Self = Some (s, Self)" "inv s" "contents s = contents (st k)"
        using swap_self [OF i] by blast
      then show ?thesis using Store_swap True i by (auto simp: upd_contents second_operand_def)
    next
      case False
      obtain s t where "api_swap api (st k) (Other (st j)) = Some (s, Other t)" "inv s" "inv t"
        "contents s = contents (st j)" "contents t = contents (st k)"
        using swap_other [OF i i] by blast
      then show ?thesis using Store_swap False i by (auto simp: upd_contents second_operand_def)
    qed
  next
    case (Store_compare k j)
    then show ?thesis using equal [OF i i, of k j] i by auto
  qed
qed

lemma program_refines:
  assumes "\<forall>i. inv (st i)"
  shows "\<exists>outs st'. run_ops (store_step api) ops st = Some (outs, st') \<and>
    run_ops (store_spec C add same) ops (contents \<circ> st) = Some (outs, contents \<circ> st') \<and> (\<forall>i. inv (st' i))"
  using run_ops_simulation [of "\<lambda>st m. (\<forall>i. inv (st i)) \<and> m = contents \<circ> st" "store_step api"
      "store_spec C add same" st "contents \<circ> st" ops] step_refines assms
  by (metis (no_types, lifting))

end

section \<open>Fixed stacks\<close>

text \<open>
  \<open>swap\<close> on one stack and itself runs \<open>std::swap\<close> on each element and the same element: to a
  temporary, the moved-from element to itself, and back. There is no tail.
\<close>

definition fs_swap_same_elem :: "'a elem_type \<Rightarrow> usize \<Rightarrow> 'a slots \<Rightarrow> 'a slots option" where
  "fs_swap_same_elem ty i m = do {
     (tmp, m1) \<leftarrow> slot_move ty (unat i) m;
     (x, m2) \<leftarrow> slot_move ty (unat i) m1;
     Some (m2[unat i := Some x, unat i := Some tmp])
   }"

fun fs_swap_with :: "'a elem_type \<Rightarrow> 'a fixed_stack \<Rightarrow> 'a fixed_stack operand \<Rightarrow>
    ('a fixed_stack \<times> 'a fixed_stack operand) option" where
  "fs_swap_with ty s Self = do {
     m \<leftarrow> for_range 0 (fs_size s) (fs_swap_same_elem ty) (fs_storage s);
     Some (s\<lparr>fs_storage := m\<rparr>, Self)
   }"
| "fs_swap_with ty s (Other t) = map_option (apsnd Other) (fs_swap ty s t)"

lemma fs_swap_self:
  assumes "fs_inv ty C s"
  shows "fs_swap_with ty s Self = Some (s, Self)"
proof -
  have r: "lin_rep ty (fs_list s) (fs_storage s)" "unat (fs_size s) = length (fs_list s)"
    using assms by (simp_all add: fs_inv_def fs_rep_def)
  have "\<exists>m. for_range 0 (fs_size s) (fs_swap_same_elem ty) (fs_storage s) = Some m \<and> m = fs_storage s"
  proof (rule for_range_rule [where P = "\<lambda>k m. m = fs_storage s"])
    fix i m assume "i < fs_size s" and m: "m = fs_storage s"
    then have "unat i < length (fs_list s)" using r(2) by (simp add: word_less_nat_alt)
    then have "slot_read (unat i) m = Some (fs_list s ! unat i)"
      using hold_read [OF r(1) [unfolded lin_rep_hold]] m by simp
    then show "\<exists>m'. fs_swap_same_elem ty i m = Some m' \<and> m' = fs_storage s"
      using m by (auto simp: fs_swap_same_elem_def slot_move_def slot_read_def list_update_same_conv
          split: if_splits)
  qed simp_all
  then show ?thesis by simp
qed

definition fs_api :: "'a elem_type \<Rightarrow> usize \<Rightarrow> ('a \<Rightarrow> 'a \<Rightarrow> bool) \<Rightarrow> ('a, 'a fixed_stack) container_api" where
  "fs_api ty C eq = \<lparr>api_push = fs_try_push ty C, api_pop = fs_try_pop ty, api_clear = fs_clear ty,
     api_copy = fs_assign ty, api_move = fs_assign_move ty, api_swap = fs_swap_with ty, api_equal = fs_eq eq\<rparr>"

text \<open>What a stack with the list \<open>xs\<close> shows.\<close>

lemma fs_observe: "fs_rep ty C xs s \<Longrightarrow> fs_inv ty C s \<and> fs_contents s = rev xs"
  using fs_rep_inv fs_rep_contents by blast

interpretation fs_value: value_container "fs_api ty C eq" "fs_inv ty C" fs_contents "unat C" "(#)" eq
proof (unfold_locales, unfold fs_api_def container_api.simps)
  fix s t :: "'a fixed_stack" and x :: 'a and xs :: "'a list"
  note popped = fs_try_pop_rep [of ty C "rev xs" x s]
  assume s: "fs_inv ty C s"
  then have rs: "fs_rep ty C (rev (fs_contents s)) s" by (rule fs_invE)
  show "\<exists>s'. fs_try_push ty C x s = Some (True, s') \<and> fs_inv ty C s' \<and> fs_contents s' = x # fs_contents s"
    if "length (fs_contents s) < unat C"
    using fs_try_push_rep(1) [OF rs, of x] that by (auto dest: fs_observe)
  show "fs_try_push ty C x s = Some (False, s)" if "\<not> length (fs_contents s) < unat C"
    using fs_try_push_rep(2) [OF rs, of x] fs_rep_size(1) [OF rs] that by simp
  show "\<exists>s'. fs_try_pop ty s = Some (Some x, s') \<and> fs_inv ty C s' \<and> fs_contents s' = xs"
    if "fs_contents s = x # xs"
    using popped rs that by (auto dest: fs_observe)
  show "fs_try_pop ty s = Some (None, s)" if "fs_contents s = []"
    using fs_pop_empty [of ty C s] rs that by simp
  show "\<exists>s'. fs_clear ty s = Some s' \<and> fs_inv ty C s' \<and> fs_contents s' = []"
    using fs_clear_rep [OF rs] by (auto dest: fs_observe)
  show "\<exists>s'. fs_swap_with ty s Self = Some (s', Self) \<and> fs_inv ty C s' \<and> fs_contents s' = fs_contents s"
    using fs_swap_self [OF s] s by blast
  assume "fs_inv ty C t"
  then have rt: "fs_rep ty C (rev (fs_contents t)) t" by (rule fs_invE)
  show "\<exists>s'. fs_assign ty s (Other t) = Some s' \<and> fs_inv ty C s' \<and> fs_contents s' = fs_contents t"
    using fs_assign_rep(1) [OF rt rs] by (auto dest: fs_observe)
  show "\<exists>s' t'. fs_assign_move ty s (Other t) = Some (s', Other t') \<and>
      fs_inv ty C s' \<and> fs_contents s' = fs_contents t \<and> fs_inv ty C t' \<and> fs_contents t' = []"
    using fs_assign_rep(2) [OF rt rs] by (auto dest!: fs_observe simp del: fs_assign_move.simps)
  show "\<exists>s' t'. fs_swap_with ty s (Other t) = Some (s', Other t') \<and>
      fs_inv ty C s' \<and> fs_contents s' = fs_contents t \<and> fs_inv ty C t' \<and> fs_contents t' = fs_contents s"
    using fs_swap_rep [OF rs rt] by (auto dest!: fs_observe)
  show "fs_eq eq s t = Some (list_all2 eq (fs_contents s) (fs_contents t))"
    using fs_eq_rep [OF rs rt] by simp
qed simp_all

section \<open>Fixed queues\<close>

definition fq_api :: "'a elem_type \<Rightarrow> usize \<Rightarrow> ('a \<Rightarrow> 'a \<Rightarrow> bool) \<Rightarrow> ('a, 'a fixed_queue) container_api" where
  "fq_api ty C eq = \<lparr>api_push = fq_try_push ty C, api_pop = fq_try_pop ty C, api_clear = fq_clear ty C,
     api_copy = fq_assign ty C, api_move = fq_assign_move ty C, api_swap = fq_swap ty C, api_equal = fq_eq eq C\<rparr>"

lemma fq_observe: "fq_rep ty C xs q \<Longrightarrow> fq_inv ty C q \<and> fq_contents C q = xs"
  using fq_rep_inv fq_rep_contents by blast

interpretation fq_value: value_container "fq_api ty C eq" "fq_inv ty C" "fq_contents C" "unat C"
  "\<lambda>x xs. xs @ [x]" eq
proof (unfold_locales, unfold fq_api_def container_api.simps)
  fix q t :: "'a fixed_queue" and x :: 'a and xs :: "'a list"
  assume "fq_inv ty C q"
  then have rq: "fq_rep ty C (fq_contents C q) q" by (simp add: fq_inv_def)
  show "\<exists>q'. fq_try_push ty C x q = Some (True, q') \<and> fq_inv ty C q' \<and> fq_contents C q' = fq_contents C q @ [x]"
    if "length (fq_contents C q) < unat C"
    using fq_try_push_rep(1) [OF rq that] by (auto dest: fq_observe)
  show "fq_try_push ty C x q = Some (False, q)" if "\<not> length (fq_contents C q) < unat C"
    using fq_try_push_rep(2) [OF rq, of x] fq_rep_size(4) [OF rq] that by simp
  show "\<exists>q'. fq_try_pop ty C q = Some (Some x, q') \<and> fq_inv ty C q' \<and> fq_contents C q' = xs"
    if "fq_contents C q = x # xs"
    using fq_try_pop_rep [of ty C x xs q] rq that by (auto dest: fq_observe)
  show "fq_try_pop ty C q = Some (None, q)" if "fq_contents C q = []"
    using fq_try_pop_empty rq that by simp
  show "\<exists>q'. fq_clear ty C q = Some q' \<and> fq_inv ty C q' \<and> fq_contents C q' = []"
    using fq_clear_rep [OF rq] by (auto dest: fq_observe)
  show "\<exists>q'. fq_swap ty C q Self = Some (q', Self) \<and> fq_inv ty C q' \<and> fq_contents C q' = fq_contents C q"
    using fq_swap_rep(2) [OF rq rq] by (auto dest: fq_observe)
  assume "fq_inv ty C t"
  then have rt: "fq_rep ty C (fq_contents C t) t" by (simp add: fq_inv_def)
  show "\<exists>q'. fq_assign ty C q (Other t) = Some q' \<and> fq_inv ty C q' \<and> fq_contents C q' = fq_contents C t"
    using fq_assign_rep(1) [OF rt rq] by (auto dest: fq_observe)
  show "\<exists>q' t'. fq_assign_move ty C q (Other t) = Some (q', Other t') \<and>
      fq_inv ty C q' \<and> fq_contents C q' = fq_contents C t \<and> fq_inv ty C t' \<and> fq_contents C t' = []"
    using fq_assign_rep(2) [OF rt rq] by (auto dest: fq_observe)
  show "\<exists>q' t'. fq_swap ty C q (Other t) = Some (q', Other t') \<and>
      fq_inv ty C q' \<and> fq_contents C q' = fq_contents C t \<and> fq_inv ty C t' \<and> fq_contents C t' = fq_contents C q"
    using fq_swap_rep(1) [OF rq rt] by (auto dest: fq_observe)
  show "fq_eq eq C q t = Some (list_all2 eq (fq_contents C q) (fq_contents C t))"
    by (rule fq_eq_rep [OF rq rt])
qed simp_all

section \<open>Properties\<close>

text \<open>
  C14. Any program over any number of new fixed stacks, in which a stack is pushed, popped and
  cleared and any two, or one and itself, are copied, moved, swapped and compared, runs without
  undefined behaviour, leaves every stack well-formed, and returns what it returns over
  bounded lists used last-in first-out.
\<close>

theorem fixed_stack_programs:
  assumes "0 < unat C"
  shows "\<exists>outs st. run_ops (store_step (fs_api ty C eq)) ops (\<lambda>_. fs_new C) = Some (outs, st) \<and>
    run_ops (store_spec (unat C) (#) eq) ops (\<lambda>_. []) = Some (outs, fs_contents \<circ> st) \<and> (\<forall>i. fs_inv ty C (st i))"
  using fs_value.program_refines [of ty C "\<lambda>_. fs_new C" eq ops] fs_observe [OF fs_rep_new [OF assms, of ty]]
  by (simp add: comp_def)

theorem fixed_stack_programs_witness:
  "\<exists>outs st. run_ops (store_step (fs_api \<lparr>is_trivial = False, residue = \<lambda>_. 0 :: int\<rparr> 2 (=)))
       [Store_push 0 1, Store_push 0 2, Store_push 0 3, Store_copy 1 0, Store_pop 0, Store_swap 0 1,
        Store_compare 0 1, Store_move 1 0, Store_swap 1 1, Store_pop 1, Store_pop 0] (\<lambda>_. fs_new 2) = Some (outs, st) \<and>
     outs = [Store_pushed True, Store_pushed True, Store_pushed False, Store_done, Store_popped (Some 2), Store_done,
        Store_equal False, Store_done, Store_done, Store_popped (Some 2), Store_popped None] \<and> fs_contents (st 1) = [1]"
proof -
  let ?ty = "\<lparr>is_trivial = False, residue = \<lambda>_. 0 :: int\<rparr>"
  let ?ops = "[Store_push 0 1, Store_push 0 2, Store_push 0 3, Store_copy 1 0, Store_pop 0, Store_swap 0 1,
        Store_compare 0 1, Store_move 1 0, Store_swap 1 1, Store_pop 1, Store_pop 0]"
  obtain outs st where run: "run_ops (store_step (fs_api ?ty 2 (=))) ?ops (\<lambda>_. fs_new 2) = Some (outs, st)"
    and spec: "run_ops (store_spec (unat (2 :: usize)) (#) (=)) ?ops (\<lambda>_. []) = Some (outs, fs_contents \<circ> st)"
    using fixed_stack_programs [of 2 ?ty "(=)" ?ops] by (auto simp del: store_step.simps store_spec.simps run_ops.simps)
  have "(fs_contents \<circ> st) 1 = [1]" using spec by (auto dest!: fun_cong [of _ _ 1])
  moreover have "outs = [Store_pushed True, Store_pushed True, Store_pushed False, Store_done, Store_popped (Some 2), Store_done,
        Store_equal False, Store_done, Store_done, Store_popped (Some 2), Store_popped None]"
    using spec by auto
  ultimately show ?thesis using run by fastforce
qed

text \<open>
  C13. Every program of pushes, pops, clears, copy and move assignments, swaps and comparisons
  over any number of fixed queues keeps every object well-typed: each step is defined, and each
  queue is again one whose live slots are exactly those between its two indices, at most
  \<open>Capacity\<close> of them. What is returned is what bounded lists used first-in first-out return.
\<close>

theorem fixed_queue_programs:
  assumes "0 < unat C" "unat C < 2 ^ 63"
  shows "\<exists>outs st. run_ops (store_step (fq_api ty C eq)) ops (\<lambda>_. fq_new C) = Some (outs, st) \<and>
    run_ops (store_spec (unat C) (\<lambda>x xs. xs @ [x]) eq) ops (\<lambda>_. []) = Some (outs, fq_contents C \<circ> st) \<and>
    (\<forall>i. fq_inv ty C (st i))"
  using fq_value.program_refines [of ty C "\<lambda>_. fq_new C" eq ops] fq_observe [OF fq_rep_new [OF assms, of ty]]
  by (simp add: comp_def)

theorem fixed_queue_programs_witness:
  "\<exists>outs st. run_ops (store_step (fq_api \<lparr>is_trivial = False, residue = \<lambda>_. 0 :: int\<rparr> 2 (=)))
       [Store_push 0 1, Store_push 0 2, Store_pop 0, Store_push 0 3, Store_push 0 4, Store_copy 1 0,
        Store_compare 0 1, Store_swap 0 0, Store_pop 0, Store_swap 0 1, Store_move 0 1, Store_pop 0] (\<lambda>_. fq_new 2) = Some (outs, st) \<and>
     outs = [Store_pushed True, Store_pushed True, Store_popped (Some 1), Store_pushed True, Store_pushed False, Store_done,
        Store_equal True, Store_done, Store_popped (Some 2), Store_done, Store_done, Store_popped (Some 3)] \<and>
     fq_contents 2 (st 0) = []"
proof -
  let ?ty = "\<lparr>is_trivial = False, residue = \<lambda>_. 0 :: int\<rparr>"
  let ?ops = "[Store_push 0 1, Store_push 0 2, Store_pop 0, Store_push 0 3, Store_push 0 4, Store_copy 1 0,
        Store_compare 0 1, Store_swap 0 0, Store_pop 0, Store_swap 0 1, Store_move 0 1, Store_pop 0]"
  obtain outs st where run: "run_ops (store_step (fq_api ?ty 2 (=))) ?ops (\<lambda>_. fq_new 2) = Some (outs, st)"
    and spec: "run_ops (store_spec (unat (2 :: usize)) (\<lambda>x xs. xs @ [x]) (=)) ?ops (\<lambda>_. []) = Some (outs, fq_contents 2 \<circ> st)"
    using fixed_queue_programs [of 2 ?ty "(=)" ?ops] by (auto simp del: store_step.simps store_spec.simps run_ops.simps)
  have "(fq_contents 2 \<circ> st) 0 = []" using spec by (auto dest!: fun_cong [of _ _ 0])
  moreover have "outs = [Store_pushed True, Store_pushed True, Store_popped (Some 1), Store_pushed True, Store_pushed False, Store_done,
        Store_equal True, Store_done, Store_popped (Some 2), Store_done, Store_done, Store_popped (Some 3)]"
    using spec by auto
  ultimately show ?thesis using run by fastforce
qed

end
