(* ===== verification/HeapBuffers.thy ===== *)
theory HeapBuffers
  imports HpcInterfaces
begin

text \<open>
  Buffers of raw slots obtained from \<open>operator new\<close>, as the growable containers use them.

  \<open>operator new\<close> is outside the program: the outcome of an allocation is given by a
  parameter \<open>nw\<close>, which tells for a number of bytes whether the call returns memory
  (\<open>True\<close>) or throws \<open>std::bad_alloc\<close>. Every operation has its own \<open>nw\<close>, so that
  any pattern of failures is covered. The one fact about it that the containers rely on is
  \<open>new_limit\<close>: no request of \<open>2^63\<close> bytes or more succeeds.
\<close>

definition new_limit :: "(usize \<Rightarrow> bool) \<Rightarrow> bool" where
  "new_limit nw \<longleftrightarrow> (\<forall>b. nw b \<longrightarrow> unat b < 2 ^ 63)"

text \<open>The size of an element type; no object is larger than the address space.\<close>

definition sizeof_ok :: "usize \<Rightarrow> bool" where
  "sizeof_ok sz \<longleftrightarrow> 0 < unat sz \<and> unat sz < 2 ^ 48"

text \<open>
  \<open>::operator new(n * sizeof(T))\<close>. The product wraps around, and the memory returned has
  room for as many objects as the bytes really requested hold. The null pointer is the
  buffer of no slots.
\<close>

definition new_slots :: "(usize \<Rightarrow> bool) \<Rightarrow> usize \<Rightarrow> usize \<Rightarrow> exn + 'a slots" where
  "new_slots nw sz n =
     (if nw (n * sz) then Inr (replicate (unat (n * sz) div unat sz) None) else Inl Bad_alloc)"

text \<open>
  The slot at a byte offset from the start of a buffer of objects of \<open>sz\<close> bytes. At an
  offset that is no multiple of \<open>sz\<close> there is no slot, only parts of two; the model gives
  it an index beyond the buffer, where every access is a fault.
\<close>

definition slot_at_byte :: "usize \<Rightarrow> 'a slots \<Rightarrow> usize \<Rightarrow> nat" where
  "slot_at_byte sz m pos = (if unat pos mod unat sz = 0 then unat pos div unat sz else length m)"

text \<open>
  \<open>::operator delete\<close>. Abandoning live objects of a type with a destructor leaks them; the
  model counts that as a fault.
\<close>

definition free_slots :: "'a elem_type \<Rightarrow> 'a slots \<Rightarrow> unit option" where
  "free_slots ty m = (if is_trivial ty \<or> list_all (\<lambda>s. s = None) m then Some () else None)"

text \<open>
  An argument passed by reference to const: an object outside the container, or the object
  in one of the container's own slots, which is gone when the buffer has been replaced.
\<close>

datatype 'a arg = Value 'a | Own nat

fun arg_value :: "bool \<Rightarrow> 'a slots \<Rightarrow> 'a arg \<Rightarrow> 'a option" where
  "arg_value moved m (Value x) = Some x"
| "arg_value moved m (Own i) = (if moved then None else slot_read i m)"

lemma new_slots_fit:
  assumes "unat n * unat sz < 2 ^ 64" "0 < unat sz"
  shows "new_slots nw sz n = (if nw (n * sz) then Inr (replicate (unat n) None) else Inl Bad_alloc)"
proof -
  have "unat (n * sz) = unat n * unat sz" using assms(1) by (simp add: unat_word_ariths)
  with assms(2) show ?thesis by (simp add: new_slots_def)
qed

lemma slot_at_byte_fit:
  assumes "unat i < unat n" "unat n * unat sz < 2 ^ 64" "0 < unat sz"
  shows "slot_at_byte sz m (i * sz) = unat i"
proof -
  have "unat i * unat sz < 2 ^ 64"
    using assms by (meson less_imp_le_nat mult_le_mono1 order_le_less_trans)
  then have "unat (i * sz) = unat i * unat sz" by (simp add: unat_word_ariths)
  with assms(3) show ?thesis by (simp add: slot_at_byte_def)
qed

lemma free_slots_raw: "lin_rep ty [] m \<Longrightarrow> free_slots ty m = Some ()"
  by (auto simp: free_slots_def lin_rep_def list_all_length)

lemma new_limitD:
  assumes "new_limit nw" "nw (n * sz)" "unat n * unat sz < 2 ^ 64"
  shows "unat n * unat sz < 2 ^ 63"
proof -
  have "unat (n * sz) = unat n * unat sz" using assms(3) by (simp add: unat_word_ariths)
  with assms(1,2) show ?thesis by (auto simp: new_limit_def)
qed

lemma half_below: "2 * (n :: nat) \<le> 2 ^ 64 \<Longrightarrow> m \<le> n \<Longrightarrow> m < 2 ^ 64"
  by simp

lemma double_below: "(n :: nat) < 2 ^ 63 \<Longrightarrow> 2 * n < 2 ^ 64"
  by simp

end
