(* ===== verification/SpscRing.thy ===== *)
theory SpscRing
  imports CircularBuffer HeapBuffers
begin

text \<open>
  \<open>hpc::core::spsc_ring_buffer<T>\<close> (\<open>include/hpc/core/ring_buffer.hpp\<close>): a circular
  buffer for one producer and one consumer. The operations are modelled as each side performs
  them, one at a time. The storage is asked for in bytes, \<open>storage_capacity_ * sizeof(T)\<close>,
  and addressed in bytes, \<open>(idx & mask_) * sizeof(T)\<close>; both products wrap around. The field
  \<open>sp_elem_size\<close> is \<open>sizeof(T)\<close> of the instance of the template. \<open>nw\<close> gives the outcome of
  \<open>operator new[]\<close>, as in \<open>HeapBuffers\<close>; the memory that it returns is raw.
\<close>

section \<open>State and operations\<close>

record 'a spsc =
  sp_elem_size :: usize
  sp_storage_capacity :: usize
  sp_mask :: usize
  sp_head :: usize
  sp_tail :: usize
  sp_storage :: "'a slots"

definition spsc_new :: "(usize \<Rightarrow> bool) \<Rightarrow> usize \<Rightarrow> usize \<Rightarrow> (exn + 'a spsc) option" where
  "spsc_new nw sz capacity = do {
     n \<leftarrow> round_up_to_power_of_two (capacity + 1);
     Some (case new_slots nw sz n of
       Inl e \<Rightarrow> Inl e
     | Inr m \<Rightarrow> Inr \<lparr>sp_elem_size = sz, sp_storage_capacity = n, sp_mask = n - 1, sp_head = 0,
                  sp_tail = 0, sp_storage = m\<rparr>)
   }"

definition spsc_capacity :: "'a spsc \<Rightarrow> usize" where
  "spsc_capacity s = sp_storage_capacity s - 1"

definition spsc_next :: "'a spsc \<Rightarrow> usize \<Rightarrow> usize" where
  "spsc_next s i = (i + 1) AND sp_mask s"

text \<open>\<open>(tail - head) & static_cast<index_type>(-1)\<close>\<close>

definition spsc_distance :: "usize \<Rightarrow> usize \<Rightarrow> usize" where
  "spsc_distance t h = (t - h) AND (- 1)"

definition spsc_element_at :: "'a spsc \<Rightarrow> usize \<Rightarrow> nat" where
  "spsc_element_at s i = slot_at_byte (sp_elem_size s) (sp_storage s) ((i AND sp_mask s) * sp_elem_size s)"

definition spsc_try_push :: "'a elem_type \<Rightarrow> 'a \<Rightarrow> 'a spsc \<Rightarrow> (bool \<times> 'a spsc) option" where
  "spsc_try_push ty x s =
     (if spsc_distance (sp_tail s) (sp_head s) = spsc_capacity s then Some (False, s)
      else do {
        m \<leftarrow> slot_construct ty (spsc_element_at s (sp_tail s)) x (sp_storage s);
        Some (True, s\<lparr>sp_storage := m, sp_tail := spsc_next s (sp_tail s)\<rparr>)
      })"

text \<open>The overload for rvalues also changes its argument, returned second.\<close>

definition spsc_try_push_move :: "'a elem_type \<Rightarrow> 'a \<Rightarrow> 'a spsc \<Rightarrow> (bool \<times> 'a \<times> 'a spsc) option" where
  "spsc_try_push_move ty x s =
     (if spsc_distance (sp_tail s) (sp_head s) = spsc_capacity s then Some (False, x, s)
      else do {
        m \<leftarrow> slot_construct ty (spsc_element_at s (sp_tail s)) x (sp_storage s);
        Some (True, moved_from ty x, s\<lparr>sp_storage := m, sp_tail := spsc_next s (sp_tail s)\<rparr>)
      })"

definition spsc_try_pop :: "'a elem_type \<Rightarrow> 'a spsc \<Rightarrow> ('a option \<times> 'a spsc) option" where
  "spsc_try_pop ty s =
     (if sp_head s = sp_tail s then Some (None, s)
      else do {
        (x, m1) \<leftarrow> slot_move ty (spsc_element_at s (sp_head s)) (sp_storage s);
        m2 \<leftarrow> slot_destroy ty (spsc_element_at s (sp_head s)) m1;
        Some (Some x, s\<lparr>sp_storage := m2, sp_head := spsc_next s (sp_head s)\<rparr>)
      })"

definition spsc_try_push_batch :: "'a elem_type \<Rightarrow> 'a list \<Rightarrow> 'a spsc \<Rightarrow> (nat \<times> 'a spsc) option" where
  "spsc_try_push_batch ty = push_batch (spsc_try_push ty)"

definition spsc_try_pop_batch :: "'a elem_type \<Rightarrow> nat \<Rightarrow> 'a spsc \<Rightarrow> ('a list \<times> 'a spsc) option" where
  "spsc_try_pop_batch ty = pop_batch (spsc_try_pop ty)"

text \<open>Zero-copy access; a slot is its index, \<open>None\<close> is \<open>nullptr\<close>.\<close>

definition spsc_try_acquire_producer_slot :: "'a spsc \<Rightarrow> nat option" where
  "spsc_try_acquire_producer_slot s =
     (if spsc_distance (sp_tail s) (sp_head s) = spsc_capacity s then None
      else Some (spsc_element_at s (sp_tail s)))"

definition spsc_commit_producer_slot :: "'a spsc \<Rightarrow> 'a spsc" where
  "spsc_commit_producer_slot s = s\<lparr>sp_tail := spsc_next s (sp_tail s)\<rparr>"

definition spsc_try_acquire_consumer_slot :: "'a spsc \<Rightarrow> nat option" where
  "spsc_try_acquire_consumer_slot s =
     (if sp_head s = sp_tail s then None else Some (spsc_element_at s (sp_head s)))"

definition spsc_release_consumer_slot :: "'a spsc \<Rightarrow> 'a spsc" where
  "spsc_release_consumer_slot s = s\<lparr>sp_head := spsc_next s (sp_head s)\<rparr>"

definition spsc_empty :: "'a spsc \<Rightarrow> bool" where
  "spsc_empty s \<longleftrightarrow> sp_head s = sp_tail s"

definition spsc_full :: "'a spsc \<Rightarrow> bool" where
  "spsc_full s \<longleftrightarrow> spsc_distance (sp_tail s) (sp_head s) = spsc_capacity s"

section \<open>Representation\<close>

definition spsc_rep :: "'a elem_type \<Rightarrow> 'a list \<Rightarrow> 'a spsc \<Rightarrow> bool" where
  "spsc_rep ty xs s \<longleftrightarrow> sp_mask s = sp_storage_capacity s - 1 \<and> 2 \<le> unat (sp_storage_capacity s) \<and>
     0 < unat (sp_elem_size s) \<and> unat (sp_storage_capacity s) * unat (sp_elem_size s) < 2 ^ 64 \<and>
     ring_holds ty (sp_storage_capacity s) (sp_head s) (sp_tail s) xs (sp_storage s)"

definition spsc_contents :: "'a spsc \<Rightarrow> 'a list" where
  "spsc_contents s =
     map (\<lambda>k. the (sp_storage s ! ring_pos (sp_storage s) (unat (sp_head s)) k))
       [0..<unat (ring_size (sp_storage_capacity s) (sp_head s) (sp_tail s))]"

definition spsc_inv :: "'a elem_type \<Rightarrow> 'a spsc \<Rightarrow> bool" where
  "spsc_inv ty s \<longleftrightarrow> spsc_rep ty (spsc_contents s) s"

definition spsc_cap :: "'a spsc \<Rightarrow> nat" where
  "spsc_cap s = unat (spsc_capacity s)"

definition spsc_room :: "'a spsc \<Rightarrow> nat" where
  "spsc_room s = spsc_cap s - length (spsc_contents s)"

lemma spsc_repD:
  assumes "spsc_rep ty xs s"
  shows "ring_holds ty (sp_storage_capacity s) (sp_head s) (sp_tail s) xs (sp_storage s)"
    "is_po2 (sp_storage_capacity s)" "Suc (spsc_cap s) = unat (sp_storage_capacity s)"
    "length xs \<le> spsc_cap s" "sp_mask s = sp_storage_capacity s - 1"
    "spsc_next s i = ring_advance (sp_storage_capacity s - 1) i"
proof -
  show r: "ring_holds ty (sp_storage_capacity s) (sp_head s) (sp_tail s) xs (sp_storage s)"
    and m: "sp_mask s = sp_storage_capacity s - 1"
    using assms by (simp_all add: spsc_rep_def)
  show "is_po2 (sp_storage_capacity s)" using ring_holdsD(5) [OF r] .
  have "2 \<le> unat (sp_storage_capacity s)" using assms by (simp add: spsc_rep_def)
  moreover from this have "sp_storage_capacity s \<noteq> 0" by auto
  ultimately show c: "Suc (spsc_cap s) = unat (sp_storage_capacity s)"
    by (simp add: spsc_cap_def spsc_capacity_def unat_simps)
  show "length xs \<le> spsc_cap s" using c ring_holdsD(6) [OF r] by simp
  show "spsc_next s i = ring_advance (sp_storage_capacity s - 1) i"
    by (simp add: spsc_next_def ring_advance_def m)
qed

lemma spsc_rep_contents:
  assumes "spsc_rep ty xs s"
  shows "spsc_contents s = xs"
  using ring_rep_contents [OF ring_holdsD(3) [OF spsc_repD(1) [OF assms]]]
    ring_holds_size(1) [OF spsc_repD(1) [OF assms]]
  by (simp add: spsc_contents_def)

lemma spsc_rep_inv: "spsc_rep ty xs s \<Longrightarrow> spsc_inv ty s"
  by (simp add: spsc_inv_def spsc_rep_contents)

lemma spsc_element_at_fit:
  assumes "is_po2 (sp_storage_capacity s)" "sp_mask s = sp_storage_capacity s - 1" "0 < unat (sp_elem_size s)"
    and "unat (sp_storage_capacity s) * unat (sp_elem_size s) < 2 ^ 64" "unat i < unat (sp_storage_capacity s)"
  shows "spsc_element_at s i = unat i"
proof -
  have "i AND (sp_storage_capacity s - 1) = i"
    using assms(5) unat_and_mask [OF assms(1)] by (simp add: usize_eq_iff)
  with assms show ?thesis by (simp add: spsc_element_at_def slot_at_byte_fit)
qed

lemma spsc_element_at_rep:
  assumes "spsc_rep ty xs s"
  shows "spsc_element_at s (sp_head s) = unat (sp_head s)" "spsc_element_at s (sp_tail s) = unat (sp_tail s)"
  using spsc_repD(2,5) [OF assms] ring_windowD(2,5) [OF ring_holdsD(1) [OF spsc_repD(1) [OF assms]]] assms
  by (simp_all add: spsc_element_at_fit spsc_rep_def)

text \<open>
  The test for a full buffer: the unmasked difference of the indices equals the capacity only
  when the head is at slot 0.
\<close>

lemma spsc_full_iff:
  assumes "spsc_rep ty xs s"
  shows "spsc_full s \<longleftrightarrow> length xs = spsc_cap s \<and> sp_head s = 0"
proof -
  let ?h = "sp_head s" and ?t = "sp_tail s" and ?c = "sp_storage_capacity s"
  note w = ring_windowD [OF ring_holdsD(1) [OF spsc_repD(1) [OF assms]]] and D = spsc_repD [OF assms]
  have c: "unat ?c \<le> 2 ^ 63"
  proof -
    obtain k where "k < 64" "unat ?c = 2 ^ k" using D(2) by (auto simp: is_po2_def)
    then show ?thesis using power_increasing [of k 63 "2 :: nat"] by simp
  qed
  have "spsc_full s \<longleftrightarrow> ?t = ?h + spsc_capacity s"
    by (auto simp: spsc_full_def spsc_distance_def algebra_simps)
  also have "\<dots> \<longleftrightarrow> unat ?t = unat ?h + spsc_cap s"
    using w(2) D(3) c by (simp add: usize_eq_iff unat_simps spsc_cap_def)
  also have "\<dots> \<longleftrightarrow> length xs = spsc_cap s \<and> unat ?h = 0"
    using w(2-5) D(3) by (auto simp: mod_if split: if_splits)
  finally show ?thesis by (simp add: usize_eq_iff)
qed

lemma spsc_try_push_rep:
  assumes "spsc_rep ty xs s" "length xs < spsc_cap s"
  shows "\<exists>s'. spsc_try_push ty x s = Some (True, s') \<and> spsc_rep ty (xs @ [x]) s' \<and> spsc_cap s' = spsc_cap s"
proof -
  note D = spsc_repD [OF assms(1)]
  have "\<not> spsc_full s" using assms(2) spsc_full_iff [OF assms(1)] by simp
  moreover have "Suc (length xs) < unat (sp_storage_capacity s)" using assms(2) D(3) by simp
  ultimately show ?thesis
    using ring_holds_push [OF D(1), of x] D(5,6) spsc_element_at_rep [OF assms(1)] assms(1)
    by (auto simp: spsc_try_push_def spsc_full_def spsc_rep_def spsc_cap_def spsc_capacity_def)
qed

lemma spsc_try_pop_rep:
  assumes "spsc_rep ty (x # xs) s"
  shows "\<exists>s'. spsc_try_pop ty s = Some (Some x, s') \<and> spsc_rep ty xs s' \<and> spsc_cap s' = spsc_cap s"
proof -
  note D = spsc_repD [OF assms]
  have "sp_head s \<noteq> sp_tail s" using ring_holds_size(2) [OF D(1)] by simp
  then show ?thesis
    using ring_holds_pop(2) [OF D(1)] ring_holds_pop(4) [OF D(1), of "moved_from ty x"] D(5,6)
      spsc_element_at_rep [OF assms] assms
    by (auto simp: spsc_try_pop_def spsc_rep_def spsc_cap_def spsc_capacity_def)
qed

lemma spsc_try_pop_empty: "spsc_rep ty [] s \<Longrightarrow> spsc_try_pop ty s = Some (None, s)"
  using ring_holds_size(2) [OF spsc_repD(1)] by (auto simp: spsc_try_pop_def)

text \<open>What the constructor makes of a request whose bytes fit into a word.\<close>

lemma spsc_new_rep:
  fixes ty :: "'a elem_type"
  assumes "round_up_to_power_of_two (capacity + 1) = Some n" "unat capacity < 2 ^ 63"
    and "0 < unat sz" "unat n * unat sz < 2 ^ 64"
  shows "\<exists>s. spsc_new nw sz capacity = Some (if nw (n * sz) then Inr s else Inl Bad_alloc) \<and>
      spsc_rep ty [] s \<and> unat capacity \<le> spsc_cap s"
proof -
  have u: "unat (capacity + 1) = Suc (unat capacity)"
    using assms(2) by (simp add: unat_word_ariths)
  then have "unat (capacity + 1) \<le> 2 ^ 63" using assms(2) by simp
  then obtain c where c: "round_up_to_power_of_two (capacity + 1) = Some c" "is_po2 c" "2 \<le> unat c"
      "unat (capacity + 1) \<le> unat c" "unat c < 2 * max 2 (unat (capacity + 1))"
    by (rule round_up_loopE)
  then have n: "is_po2 n" "Suc (unat capacity) \<le> unat n" "2 \<le> unat n" using assms(1) u by simp_all
  let ?s = "\<lparr>sp_elem_size = sz, sp_storage_capacity = n, sp_mask = n - 1, sp_head = 0,
      sp_tail = 0, sp_storage = replicate (unat n) (None :: 'a option)\<rparr>"
  have "spsc_new nw sz capacity = Some (if nw (n * sz) then Inr ?s else Inl Bad_alloc)"
    using assms(1) by (simp add: spsc_new_def new_slots_fit [OF assms(4,3)])
  moreover have r: "spsc_rep ty [] ?s" using n assms(3,4) by (simp add: spsc_rep_def ring_holds_new)
  moreover have "unat capacity \<le> spsc_cap ?s"
  proof -
    have "Suc (spsc_cap ?s) = unat n" using spsc_repD(3) [OF r] by simp
    with n(2) show ?thesis by linarith
  qed
  ultimately show ?thesis by blast
qed

section \<open>The queue contract\<close>

interpretation spsc: capped_fifo "spsc_inv ty" spsc_contents spsc_room "spsc_try_push ty"
    "spsc_try_pop ty" spsc_cap
  for ty :: "'a elem_type"
proof unfold_locales
  fix s :: "'a spsc" and x
  assume "spsc_inv ty s"
  then have r: "spsc_rep ty (spsc_contents s) s" by (simp add: spsc_inv_def)
  note observe = spsc_rep_contents spsc_rep_inv
  show "\<exists>s'. spsc_try_push ty x s = Some (True, s') \<and> spsc_inv ty s' \<and>
             spsc_contents s' = spsc_contents s @ [x] \<and> spsc_room s \<le> Suc (spsc_room s')"
    if room: "0 < spsc_room s"
  proof -
    have "length (spsc_contents s) < spsc_cap s" using room by (simp add: spsc_room_def)
    from spsc_try_push_rep [OF r this, of x] obtain s' where s': "spsc_try_push ty x s = Some (True, s')"
        "spsc_rep ty (spsc_contents s @ [x]) s'" "spsc_cap s' = spsc_cap s"
      by blast
    with observe [OF s'(2)] show ?thesis by (simp add: spsc_room_def)
  qed
  show "\<exists>s'. spsc_try_pop ty s = Some (Some x, s') \<and> spsc_inv ty s' \<and> spsc_contents s' = xs \<and>
             spsc_room s \<le> spsc_room s'"
    if c: "spsc_contents s = x # xs" for xs
  proof -
    have "spsc_rep ty (x # xs) s" using r c by simp
    from spsc_try_pop_rep [OF this] obtain s' where s': "spsc_try_pop ty s = Some (Some x, s')"
        "spsc_rep ty xs s'" "spsc_cap s' = spsc_cap s"
      by blast
    with observe [OF s'(2)] c show ?thesis by (simp add: spsc_room_def)
  qed
  show "spsc_try_pop ty s = Some (None, s)" if "spsc_contents s = []"
    using r that spsc_try_pop_empty by simp
  show "length (spsc_contents s) + spsc_room s = spsc_cap s"
    using spsc_repD(4) [OF r] by (simp add: spsc_room_def)
next
  show "spsc_cap s' = spsc_cap s" if "spsc_try_push ty x s = Some (ok, s')" for x s ok s'
    using that by (auto simp: spsc_try_push_def spsc_cap_def spsc_capacity_def split: if_splits bind_splits)
  show "spsc_cap s' = spsc_cap s" if "spsc_try_pop ty s = Some (r, s')" for s r s'
    using that by (auto simp: spsc_try_pop_def spsc_cap_def spsc_capacity_def split: if_splits bind_splits)
qed

section \<open>Zero-copy access\<close>

lemma spsc_producer_slot_rep:
  assumes "spsc_rep ty xs s" "length xs < spsc_cap s"
  shows "\<exists>i m s'. spsc_try_acquire_producer_slot s = Some i \<and>
           slot_construct ty i x (sp_storage s) = Some m \<and>
           spsc_commit_producer_slot (s\<lparr>sp_storage := m\<rparr>) = s' \<and>
           spsc_try_push ty x s = Some (True, s') \<and> spsc_rep ty (xs @ [x]) s'"
proof -
  have "\<not> spsc_full s" using assms(2) spsc_full_iff [OF assms(1)] by simp
  with spsc_try_push_rep [OF assms, of x] show ?thesis
    by (auto simp: spsc_try_push_def spsc_full_def spsc_try_acquire_producer_slot_def
        spsc_commit_producer_slot_def spsc_next_def split: bind_splits)
qed

lemma spsc_consumer_slot_rep:
  assumes "spsc_rep ty (x # xs) s"
  shows "\<exists>i m1 m2 s'. spsc_try_acquire_consumer_slot s = Some i \<and>
           slot_move ty i (sp_storage s) = Some (x, m1) \<and> slot_destroy ty i m1 = Some m2 \<and>
           spsc_release_consumer_slot (s\<lparr>sp_storage := m2\<rparr>) = s' \<and>
           spsc_try_pop ty s = Some (Some x, s') \<and> spsc_rep ty xs s'"
proof -
  have "sp_head s \<noteq> sp_tail s" using ring_holds_size(2) [OF spsc_repD(1) [OF assms]] by simp
  with spsc_try_pop_rep [OF assms] show ?thesis
    by (auto simp: spsc_try_pop_def spsc_try_acquire_consumer_slot_def
        spsc_release_consumer_slot_def spsc_next_def split: bind_splits)
qed

section \<open>Properties\<close>

text \<open>
  C5. For a requested capacity below \<open>2^63\<close> whose storage, rounded up to a power of two of
  elements, takes less than \<open>2^64\<close> bytes, the constructor asks for exactly these bytes; with
  the memory granted the buffer offers at least that capacity, and any sequence of \<open>try_push\<close>
  and \<open>try_pop\<close> in which no push happens while the buffer holds its whole capacity behaves as
  a first-in first-out list. The other requests are the subject of \<open>spsc_capacity_edges\<close>.
\<close>

theorem spsc_refines_queue_within_capacity:
  assumes "round_up_to_power_of_two (capacity + 1) = Some n" "unat capacity < 2 ^ 63"
    and "0 < unat sz" "unat n * unat sz < 2 ^ 64"
  shows "\<exists>s. spsc_new nw sz capacity = Some (if nw (n * sz) then Inr s else Inl Bad_alloc) \<and>
           unat capacity \<le> spsc_cap s \<and>
           (never_overfull (spsc_cap s) ops [] \<longrightarrow>
            (\<exists>outs s'. run_ops (container_step (spsc_try_push ty) (spsc_try_pop ty)) ops s = Some (outs, s') \<and>
               run_ops (queue_spec (spsc_cap s)) ops [] = Some (outs, spsc_contents s') \<and> spsc_inv ty s'))"
proof -
  obtain s where s: "spsc_new nw sz capacity = Some (if nw (n * sz) then Inr s else Inl Bad_alloc)"
      "spsc_rep ty [] s" "unat capacity \<le> spsc_cap s"
    using spsc_new_rep [OF assms] by blast
  then show ?thesis
    using spsc.run_refines_within [OF spsc_rep_inv [OF s(2)], of ops] spsc_rep_contents [OF s(2)]
    by auto
qed

theorem spsc_refines_queue_within_capacity_witness:
  "\<exists>s outs s'. spsc_new (\<lambda>b. b < 4096) 8 2 = Some (Inr s) \<and>
     run_ops (container_step (spsc_try_push \<lparr>is_trivial = False, residue = \<lambda>_. 0 :: int\<rparr>)
         (spsc_try_pop \<lparr>is_trivial = False, residue = \<lambda>_. 0\<rparr>))
       [Push 5, Push 6, Pop, Push 7, Pop, Pop, Pop] s = Some (outs, s') \<and>
     outs = [Pushed True, Pushed True, Popped (Some 5), Pushed True, Popped (Some 6), Popped (Some 7), Popped None] \<and>
     spsc_contents s' = []"
proof -
  let ?ty = "\<lparr>is_trivial = False, residue = \<lambda>_. 0 :: int\<rparr>"
  let ?ops = "[Push 5, Push 6, Pop, Push 7, Pop, Pop, Pop] :: int container_op list"
  have n: "round_up_to_power_of_two (2 + 1) = Some 4"
    by (simp add: round_up_loop_eq fixed_round_up_po2_def smear_def Let_def)
  obtain s :: "int spsc" where s: "spsc_new (\<lambda>b. b < 4096) 8 2 = Some (Inr s)" "2 \<le> spsc_cap s"
    and run: "never_overfull (spsc_cap s) ?ops [] \<Longrightarrow>
      \<exists>outs s'. run_ops (container_step (spsc_try_push ?ty) (spsc_try_pop ?ty)) ?ops s = Some (outs, s') \<and>
         run_ops (queue_spec (spsc_cap s)) ?ops [] = Some (outs, spsc_contents s')"
    using spsc_refines_queue_within_capacity [OF n, of 8 "\<lambda>b. b < 4096" ?ops ?ty] by auto
  have "never_overfull (spsc_cap s) ?ops []" using s(2) by simp
  from run [OF this] s show ?thesis by auto
qed



text \<open>
  C6. The test for a full buffer fails once the indices have wrapped: on a buffer that holds its
  whole capacity with the head away from slot 0, \<open>full\<close> is false, \<open>try_push\<close> returns true,
  and afterwards the buffer reports itself empty: the pushed element and all elements before it
  are lost. Only when the head is at slot 0 is the push refused.
\<close>

theorem spsc_full_test_loses_elements:
  assumes "spsc_inv ty s" "length (spsc_contents s) = spsc_cap s"
  shows "if sp_head s = 0
         then spsc_full s \<and> spsc_try_push ty x s = Some (False, s)
         else \<not> spsc_full s \<and>
           (\<exists>s'. spsc_try_push ty x s = Some (True, s') \<and> spsc_empty s' \<and> spsc_contents s' = [] \<and>
                 spsc_try_pop ty s' = Some (None, s'))"
proof -
  have r: "spsc_rep ty (spsc_contents s) s" using assms(1) by (simp add: spsc_inv_def)
  note D = spsc_repD [OF r]
  show ?thesis
  proof (cases "sp_head s = 0")
    case True
    then show ?thesis using spsc_full_iff [OF r] assms(2) by (simp add: spsc_try_push_def spsc_full_def)
  next
    case False
    let ?c = "sp_storage_capacity s" and ?t = "spsc_next s (sp_tail s)"
    have nf: "\<not> spsc_full s" using spsc_full_iff [OF r] False by simp
    have n: "Suc (length (spsc_contents s)) = unat ?c" using D(3) assms(2) by simp
    have "ring_rep ty (unat (sp_head s)) (spsc_contents s) (sp_storage s)"
        "length (spsc_contents s) < length (sp_storage s)"
      using ring_holdsD(2,3) [OF D(1)] n by auto
    then obtain m where m: "slot_construct ty (unat (sp_tail s)) x (sp_storage s) = Some m"
        "length m = length (sp_storage s)"
      using ring_rep_push(1) ring_holdsD(4) [OF D(1)] slot_construct_length by metis
    have "unat ?t = unat (sp_head s)"
      using ring_windowD [OF ring_holdsD(1) [OF D(1)]] D(2,6) n
      by (simp add: unat_ring_advance mod_Suc_eq flip: add_Suc_right)
    then have t: "?t = sp_head s" by (simp add: usize_eq_iff)
    have size: "ring_size ?c (sp_head s) (sp_head s) = 0"
      using ring_window_size [OF ring_window_0 [of ?c "sp_head s"]] D(2)
        ring_windowD(2) [OF ring_holdsD(1) [OF D(1)]]
      by (simp add: unat_eq_zero)
    show ?thesis
      using False nf m(1) t size spsc_element_at_rep [OF r]
      by (auto simp: spsc_try_push_def spsc_full_def spsc_empty_def spsc_contents_def spsc_try_pop_def)
  qed
qed

definition spsc_example :: "int spsc" where
  "spsc_example = \<lparr>sp_elem_size = 4, sp_storage_capacity = 4, sp_mask = 3, sp_head = 1, sp_tail = 0,
     sp_storage = [None, Some 1, Some 2, Some 3]\<rparr>"

lemma spsc_example_rep: "spsc_rep \<lparr>is_trivial = False, residue = \<lambda>_. 0\<rparr> [1, 2, 3] spsc_example"
proof -
  have w: "ring_window 4 1 0 (length [1, 2, 3 :: int])" using is_po2_power [of 2] by (simp add: ring_window_def)
  have live: "[None, Some 1, Some 2, Some 3] ! ((1 + k) mod 4) = Some ([1, 2, 3 :: int] ! k)"
    if "k < length [1, 2, 3 :: int]" for k
  proof -
    from that have "k < 3" by simp
    then consider "k = 0" | "k = 1" | "k = 2" by linarith
    then show ?thesis by cases simp_all
  qed
  have raw: "[None, Some 1, Some 2, Some (3 :: int)] ! ((1 + k) mod 4) = None"
    if "length [1, 2, 3 :: int] \<le> k" "k < 4" for k
  proof -
    have "k = 3" using that by simp
    then show ?thesis by simp
  qed
  show ?thesis
    unfolding spsc_rep_def ring_holds_def ring_rep_def ring_pos_def spsc_example_def
    using w live raw by simp
qed

theorem spsc_full_test_loses_elements_witness:
  "spsc_contents spsc_example = [1, 2, 3] \<and>
   (\<exists>s'. spsc_try_push \<lparr>is_trivial = False, residue = \<lambda>_. 0\<rparr> 4 spsc_example = Some (True, s') \<and>
         spsc_empty s')"
proof -
  note r = spsc_example_rep
  have "spsc_cap spsc_example = 3" "sp_head spsc_example \<noteq> 0"
    by (simp_all add: spsc_example_def spsc_cap_def spsc_capacity_def)
  then show ?thesis
    using spsc_full_test_loses_elements [OF spsc_rep_inv [OF r], of 4] spsc_rep_contents [OF r] by auto
qed

text \<open>
  The zero-copy interface is the push and the pop in three parts: with room left, acquiring
  the producer slot, constructing the element there and committing is \<open>try_push\<close>; with an
  element left, acquiring the consumer slot, moving the element out, destroying it and
  releasing is \<open>try_pop\<close>; without one, the acquisition returns a null pointer.
\<close>

theorem spsc_zero_copy:
  assumes "spsc_inv ty s"
  shows "(length (spsc_contents s) < spsc_cap s \<longrightarrow>
      (\<exists>i m. spsc_try_acquire_producer_slot s = Some i \<and>
         slot_construct ty i x (sp_storage s) = Some m \<and>
         spsc_try_push ty x s = Some (True, spsc_commit_producer_slot (s\<lparr>sp_storage := m\<rparr>)))) \<and>
    (case spsc_contents s of
       [] \<Rightarrow> spsc_try_acquire_consumer_slot s = None
     | y # ys \<Rightarrow> \<exists>i m1 m2. spsc_try_acquire_consumer_slot s = Some i \<and>
         slot_move ty i (sp_storage s) = Some (y, m1) \<and> slot_destroy ty i m1 = Some m2 \<and>
         spsc_try_pop ty s = Some (Some y, spsc_release_consumer_slot (s\<lparr>sp_storage := m2\<rparr>)))"
proof -
  have r: "spsc_rep ty (spsc_contents s) s" using assms by (simp add: spsc_inv_def)
  have "case spsc_contents s of
       [] \<Rightarrow> spsc_try_acquire_consumer_slot s = None
     | y # ys \<Rightarrow> \<exists>i m1 m2. spsc_try_acquire_consumer_slot s = Some i \<and>
         slot_move ty i (sp_storage s) = Some (y, m1) \<and> slot_destroy ty i m1 = Some m2 \<and>
         spsc_try_pop ty s = Some (Some y, spsc_release_consumer_slot (s\<lparr>sp_storage := m2\<rparr>))"
  proof (cases "spsc_contents s")
    case Nil
    then show ?thesis
      using ring_holds_size(2) [OF spsc_repD(1) [OF r]] by (simp add: spsc_try_acquire_consumer_slot_def)
  next
    case (Cons y ys)
    then have "spsc_rep ty (y # ys) s" using r by simp
    from spsc_consumer_slot_rep [OF this] Cons show ?thesis by auto
  qed
  then show ?thesis using spsc_producer_slot_rep [OF r, of x] by blast
qed

theorem spsc_zero_copy_witness:
  "\<exists>i m1 m2. spsc_try_acquire_consumer_slot spsc_example = Some i \<and>
     slot_move \<lparr>is_trivial = False, residue = \<lambda>_. 0\<rparr> i (sp_storage spsc_example) = Some (1, m1) \<and>
     slot_destroy \<lparr>is_trivial = False, residue = \<lambda>_. 0\<rparr> i m1 = Some m2"
  using spsc_zero_copy [OF spsc_rep_inv [OF spsc_example_rep], of 0] spsc_rep_contents [OF spsc_example_rep]
  by auto

text \<open>
  A batch push of at most the free places pushes all its elements, and a batch pop then
  returns the oldest elements in order, as many as asked for or as there are.
\<close>

theorem spsc_batches:
  assumes "spsc_inv ty s" "length xs \<le> spsc_cap s - length (spsc_contents s)"
  shows "\<exists>s1 s2. spsc_try_push_batch ty xs s = Some (length xs, s1) \<and>
           spsc_contents s1 = spsc_contents s @ xs \<and>
           spsc_try_pop_batch ty n s1 = Some (take n (spsc_contents s @ xs), s2) \<and>
           spsc_inv ty s2 \<and> spsc_contents s2 = drop n (spsc_contents s @ xs)"
proof -
  obtain s1 where s1: "push_batch (spsc_try_push ty) xs s = Some (length xs, s1)" "spsc_inv ty s1"
      "spsc_contents s1 = spsc_contents s @ xs"
    using spsc.push_batch_room [OF assms(1), of xs] assms(2) by (auto simp: spsc_room_def)
  with spsc.pop_batch_upto [OF s1(2), of n] show ?thesis
    by (auto simp: spsc_try_push_batch_def spsc_try_pop_batch_def)
qed

theorem spsc_batches_witness:
  "\<exists>s1 s2. spsc_try_push_batch \<lparr>is_trivial = False, residue = \<lambda>_. 0\<rparr> [] spsc_example = Some (0, s1) \<and>
     spsc_try_pop_batch \<lparr>is_trivial = False, residue = \<lambda>_. 0\<rparr> 2 s1 = Some ([1, 2], s2)"
  using spsc_batches [OF spsc_rep_inv [OF spsc_example_rep], of "[]" 2] spsc_rep_contents [OF spsc_example_rep]
  by auto

end
