(* ===== verification/SpscConcurrent.thy ===== *)
theory SpscConcurrent
  imports SpscRing
begin

text \<open>
  The two sides of a \<open>spsc_ring_buffer<T>\<close> (\<open>include/hpc/core/ring_buffer.hpp\<close>) at the same
  time: \<open>sp_step\<close> is one access of \<open>try_push\<close> or \<open>try_pop\<close> to the indices or to a slot,
  \<open>sp_run\<close> every interleaving of one producer and one consumer. The interleavings are
  sequentially consistent; \<open>SpscReleaseAcquire\<close> has the memory orders of the code.

  Since the code's test for a full buffer does not hold in every full state, the producer of
  the model calls \<open>try_push\<close> only while there is room, as a producer that keeps count of the
  elements would.
\<close>

section \<open>Steps\<close>

datatype 'a sp_pc =
    Sp_idle
  | Sp_push_tail 'a
  | Sp_push_head 'a usize
  | Sp_push_construct 'a usize
  | Sp_push_store 'a usize
  | Sp_pop_head
  | Sp_pop_tail usize
  | Sp_pop_move usize
  | Sp_pop_destroy usize 'a
  | Sp_pop_store usize 'a

fun sp_step :: "'a elem_type \<Rightarrow> 'a sp_pc \<Rightarrow> 'a spsc \<Rightarrow> ('a channel_event list \<times> 'a sp_pc \<times> 'a spsc) option" where
  "sp_step ty Sp_idle s = Some ([], Sp_idle, s)"
| "sp_step ty (Sp_push_tail x) s = Some ([], Sp_push_head x (sp_tail s), s)"
| "sp_step ty (Sp_push_head x tail) s =
     Some (if spsc_distance tail (sp_head s) = spsc_capacity s
           then ([Push_failed], Sp_idle, s) else ([], Sp_push_construct x tail, s))"
| "sp_step ty (Sp_push_construct x tail) s = do {
     m \<leftarrow> slot_construct ty (spsc_element_at s tail) x (sp_storage s);
     Some ([], Sp_push_store x tail, s\<lparr>sp_storage := m\<rparr>)
   }"
| "sp_step ty (Sp_push_store x tail) s = Some ([Sent x], Sp_idle, s\<lparr>sp_tail := spsc_next s tail\<rparr>)"
| "sp_step ty Sp_pop_head s = Some ([], Sp_pop_tail (sp_head s), s)"
| "sp_step ty (Sp_pop_tail head) s =
     Some (if head = sp_tail s then ([Pop_failed], Sp_idle, s) else ([], Sp_pop_move head, s))"
| "sp_step ty (Sp_pop_move head) s = do {
     (x, m) \<leftarrow> slot_move ty (spsc_element_at s head) (sp_storage s);
     Some ([], Sp_pop_destroy head x, s\<lparr>sp_storage := m\<rparr>)
   }"
| "sp_step ty (Sp_pop_destroy head x) s = do {
     m \<leftarrow> slot_destroy ty (spsc_element_at s head) (sp_storage s);
     Some ([], Sp_pop_store head x, s\<lparr>sp_storage := m\<rparr>)
   }"
| "sp_step ty (Sp_pop_store head x) s = Some ([Received x], Sp_idle, s\<lparr>sp_head := spsc_next s head\<rparr>)"

inductive sp_run :: "'a elem_type \<Rightarrow> 'a spsc \<Rightarrow> 'a channel_event list \<Rightarrow> 'a sp_pc \<Rightarrow> 'a sp_pc \<Rightarrow> 'a spsc \<Rightarrow> bool"
  for ty s0 where
  sp_start: "sp_run ty s0 [] Sp_idle Sp_idle s0"
| sp_call_push: "sp_run ty s0 log Sp_idle c s \<Longrightarrow> length (sent log) < length (received log) + spsc_cap s \<Longrightarrow>
    sp_run ty s0 log (Sp_push_tail x) c s"
| sp_call_pop: "sp_run ty s0 log p Sp_idle s \<Longrightarrow> sp_run ty s0 log p Sp_pop_head s"
| sp_producer: "sp_run ty s0 log p c s \<Longrightarrow> sp_step ty p s = Some (es, p', s') \<Longrightarrow> sp_run ty s0 (log @ es) p' c s'"
| sp_consumer: "sp_run ty s0 log p c s \<Longrightarrow> sp_step ty c s = Some (es, c', s') \<Longrightarrow> sp_run ty s0 (log @ es) p c' s'"

section \<open>What the slots hold\<close>

text \<open>
  Of the elements \<open>Q\<close> sent, those from \<open>k\<close> on are in the ring, element \<open>j\<close> in slot
  \<open>j mod c\<close>.
\<close>

definition round_slots :: "nat \<Rightarrow> nat \<Rightarrow> 'a list \<Rightarrow> nat \<Rightarrow> 'a option" where
  "round_slots c k Q = map_of (map (\<lambda>j. (j mod c, Q ! j)) [k..<length Q])"

lemma round_slots_None: "length Q < k + c \<Longrightarrow> round_slots c k Q (length Q mod c) = None"
proof -
  assume "length Q < k + c"
  then have "j mod c \<noteq> length Q mod c" if "k \<le> j" "j < length Q" for j
    using same_place [of j "length Q" c] that by auto
  then show ?thesis by (fastforce simp: round_slots_def map_of_eq_None_iff)
qed

lemma round_slots_first: "k < length Q \<Longrightarrow> round_slots c k Q (k mod c) = Some (Q ! k)"
  by (simp add: round_slots_def upt_conv_Cons)

lemma round_slots_snoc:
  assumes "length Q < k + c" "k \<le> length Q"
  shows "(round_slots c k Q)(length Q mod c \<mapsto> x) = round_slots c k (Q @ [x])"
proof -
  have u: "[k..<length (Q @ [x])] = [k..<length Q] @ [length Q]" using assms(2) by simp
  have m: "map (\<lambda>j. (j mod c, (Q @ [x]) ! j)) [k..<length Q] = map (\<lambda>j. (j mod c, Q ! j)) [k..<length Q]"
    by (rule map_cong) (simp_all add: nth_append)
  have "(Q @ [x]) ! length Q = x" by simp
  then have e: "round_slots c k (Q @ [x]) = map_of [(length Q mod c, x)] ++ round_slots c k Q"
    unfolding round_slots_def u map_append m map_of_append list.map by (simp only:)
  have n: "round_slots c k Q (length Q mod c) = None" by (rule round_slots_None [OF assms(1)])
  show ?thesis unfolding e
  proof (rule ext)
    fix i
    show "((round_slots c k Q)(length Q mod c \<mapsto> x)) i = (map_of [(length Q mod c, x)] ++ round_slots c k Q) i"
      using n by (cases "i = length Q mod c") (simp_all add: map_add_def split: option.split)
  qed
qed

lemma round_slots_tl:
  assumes "k < length Q" "length Q \<le> k + c"
  shows "(round_slots c k Q)(k mod c := None) = round_slots c (Suc k) Q"
proof -
  have "j mod c \<noteq> k mod c" if "Suc k \<le> j" "j < length Q" for j
    using same_place [of k j c] that assms(2) by auto
  then have "round_slots c (Suc k) Q (k mod c) = None"
    by (fastforce simp: round_slots_def map_of_eq_None_iff)
  then show ?thesis using assms(1) by (simp add: round_slots_def upt_conv_Cons fun_upd_idem)
qed

section \<open>The invariant\<close>

text \<open>What a thread in the middle of an operation has changed in the slots.\<close>

fun sp_overlay :: "'a elem_type \<Rightarrow> 'a sp_pc \<Rightarrow> (nat \<Rightarrow> 'a option) \<Rightarrow> nat \<Rightarrow> 'a option" where
  "sp_overlay ty (Sp_push_store x tail) f = f(unat tail \<mapsto> x)"
| "sp_overlay ty (Sp_pop_destroy head x) f = f(unat head \<mapsto> moved_from ty x)"
| "sp_overlay ty (Sp_pop_store head x) f = f(unat head := None)"
| "sp_overlay ty pc f = f"

definition sp_rep :: "'a elem_type \<Rightarrow> 'a list \<Rightarrow> nat \<Rightarrow> 'a sp_pc \<Rightarrow> 'a sp_pc \<Rightarrow> 'a spsc \<Rightarrow> bool" where
  "sp_rep ty Q k p c s \<longleftrightarrow>
     is_po2 (sp_storage_capacity s) \<and> 2 \<le> unat (sp_storage_capacity s) \<and> sp_mask s = sp_storage_capacity s - 1 \<and>
     length (sp_storage s) = unat (sp_storage_capacity s) \<and>
     0 < unat (sp_elem_size s) \<and> unat (sp_storage_capacity s) * unat (sp_elem_size s) < 2 ^ 64 \<and>
     k \<le> length Q \<and> length Q \<le> k + spsc_cap s \<and>
     unat (sp_head s) = k mod unat (sp_storage_capacity s) \<and> unat (sp_tail s) = length Q mod unat (sp_storage_capacity s) \<and>
     slots_hold ty (sp_overlay ty c (sp_overlay ty p (round_slots (unat (sp_storage_capacity s)) k Q))) (sp_storage s)"

fun sp_producer_ok :: "nat \<Rightarrow> 'a spsc \<Rightarrow> 'a sp_pc \<Rightarrow> bool" where
  "sp_producer_ok room s Sp_idle \<longleftrightarrow> True"
| "sp_producer_ok room s (Sp_push_tail x) \<longleftrightarrow> 0 < room"
| "sp_producer_ok room s (Sp_push_head x tail) \<longleftrightarrow> 0 < room \<and> tail = sp_tail s"
| "sp_producer_ok room s (Sp_push_construct x tail) \<longleftrightarrow> 0 < room \<and> tail = sp_tail s"
| "sp_producer_ok room s (Sp_push_store x tail) \<longleftrightarrow> 0 < room \<and> tail = sp_tail s"
| "sp_producer_ok room s pc \<longleftrightarrow> False"

fun sp_consumer_ok :: "'a list \<Rightarrow> nat \<Rightarrow> 'a spsc \<Rightarrow> 'a sp_pc \<Rightarrow> bool" where
  "sp_consumer_ok Q k s Sp_idle \<longleftrightarrow> True"
| "sp_consumer_ok Q k s Sp_pop_head \<longleftrightarrow> True"
| "sp_consumer_ok Q k s (Sp_pop_tail head) \<longleftrightarrow> head = sp_head s"
| "sp_consumer_ok Q k s (Sp_pop_move head) \<longleftrightarrow> head = sp_head s \<and> k < length Q"
| "sp_consumer_ok Q k s (Sp_pop_destroy head x) \<longleftrightarrow> head = sp_head s \<and> k < length Q \<and> x = Q ! k"
| "sp_consumer_ok Q k s (Sp_pop_store head x) \<longleftrightarrow> head = sp_head s \<and> k < length Q \<and> x = Q ! k"
| "sp_consumer_ok Q k s pc \<longleftrightarrow> False"

lemma sp_repD:
  assumes "sp_rep ty Q k p c s"
  shows "is_po2 (sp_storage_capacity s)" "sp_mask s = sp_storage_capacity s - 1"
    "Suc (spsc_cap s) = unat (sp_storage_capacity s)" "k \<le> length Q" "length Q \<le> k + spsc_cap s"
    "unat (sp_head s) = k mod unat (sp_storage_capacity s)" "unat (sp_tail s) = length Q mod unat (sp_storage_capacity s)"
    "slots_hold ty (sp_overlay ty c (sp_overlay ty p (round_slots (unat (sp_storage_capacity s)) k Q))) (sp_storage s)"
    "length Q < k + unat (sp_storage_capacity s)" "0 < unat (sp_storage_capacity s)"
    "length (sp_storage s) = unat (sp_storage_capacity s)"
proof -
  note r = assms [unfolded sp_rep_def]
  show "is_po2 (sp_storage_capacity s)" "sp_mask s = sp_storage_capacity s - 1" "k \<le> length Q" "length Q \<le> k + spsc_cap s"
    "unat (sp_head s) = k mod unat (sp_storage_capacity s)" "unat (sp_tail s) = length Q mod unat (sp_storage_capacity s)"
    "slots_hold ty (sp_overlay ty c (sp_overlay ty p (round_slots (unat (sp_storage_capacity s)) k Q))) (sp_storage s)"
    "length (sp_storage s) = unat (sp_storage_capacity s)"
    using r by auto
  have "sp_storage_capacity s \<noteq> 0" using r by auto
  then show c: "Suc (spsc_cap s) = unat (sp_storage_capacity s)"
    by (simp add: spsc_cap_def spsc_capacity_def unat_simps unat_gt_0)
  show "0 < unat (sp_storage_capacity s)" using c by simp
  show "length Q < k + unat (sp_storage_capacity s)" using c \<open>length Q \<le> k + spsc_cap s\<close> by simp
qed

lemma sp_places:
  assumes "sp_rep ty Q k p c s"
  shows "spsc_element_at s (sp_head s) = unat (sp_head s)" "spsc_element_at s (sp_tail s) = unat (sp_tail s)"
    "unat (spsc_next s (sp_head s)) = Suc k mod unat (sp_storage_capacity s)"
    "unat (spsc_next s (sp_tail s)) = Suc (length Q) mod unat (sp_storage_capacity s)"
    "sp_head s = sp_tail s \<longleftrightarrow> k = length Q"
proof -
  note D = sp_repD [OF assms]
  have lt: "unat (sp_head s) < unat (sp_storage_capacity s)" "unat (sp_tail s) < unat (sp_storage_capacity s)"
    unfolding D(6,7) using D(10) by simp_all
  then show "spsc_element_at s (sp_head s) = unat (sp_head s)" "spsc_element_at s (sp_tail s) = unat (sp_tail s)"
    using spsc_element_at_fit [OF D(1,2)] assms by (simp_all add: sp_rep_def)
  have "unat (i + 1) = Suc (unat i)" if "unat i < unat (sp_storage_capacity s)" for i :: usize
    using that by (simp add: unat_plus1 [of i "sp_storage_capacity s"] word_less_nat_alt)
  then have "unat (spsc_next s i) = Suc (unat i) mod unat (sp_storage_capacity s)"
    if "unat i < unat (sp_storage_capacity s)" for i
    using that by (simp add: spsc_next_def D(2) unat_and_mask [OF D(1)])
  then show "unat (spsc_next s (sp_head s)) = Suc k mod unat (sp_storage_capacity s)"
    "unat (spsc_next s (sp_tail s)) = Suc (length Q) mod unat (sp_storage_capacity s)"
    using lt by (simp_all add: D(6,7) mod_Suc_eq)
  have "sp_head s = sp_tail s \<longleftrightarrow> length Q mod unat (sp_storage_capacity s) = k mod unat (sp_storage_capacity s)"
    by (simp only: word_unat_eq_iff D(6,7)) auto
  then show "sp_head s = sp_tail s \<longleftrightarrow> k = length Q" using same_place [OF D(4,9)] by auto
qed

text \<open>With room, the test for a full buffer does not hold, for the index of the consumer now or earlier.\<close>

lemma spsc_not_full:
  assumes "is_po2 (sp_storage_capacity s)" "Suc (spsc_cap s) = unat (sp_storage_capacity s)"
    and "unat head = h mod unat (sp_storage_capacity s)" "unat tail = q mod unat (sp_storage_capacity s)"
    and "h \<le> q" "q < h + spsc_cap s"
  shows "spsc_distance tail head \<noteq> spsc_capacity s"
proof
  let ?C = "unat (sp_storage_capacity s)"
  assume "spsc_distance tail head = spsc_capacity s"
  then have "tail = head + spsc_capacity s" by (auto simp: spsc_distance_def algebra_simps)
  moreover have "?C \<le> 2 ^ 63"
  proof -
    obtain e where "e < 64" "?C = 2 ^ e" using assms(1) by (auto simp: is_po2_def)
    then show ?thesis using power_increasing [of e 63 "2 :: nat"] by simp
  qed
  moreover have "unat head < ?C" "unat tail < ?C" using assms(2-4) by simp_all
  ultimately have "unat tail = unat head + spsc_cap s" using assms(2) by (simp add: unat_simps spsc_cap_def)
  then have "(h + spsc_cap s) mod ?C = q mod ?C" unfolding assms(3,4) by (metis mod_add_left_eq mod_mod_trivial)
  then have "h + spsc_cap s = q" using same_place [of q "h + spsc_cap s" ?C] assms(2,5,6) by simp
  then show False using assms(6) by simp
qed

lemma sp_not_full:
  assumes "sp_rep ty Q k p c s" "length Q < k + spsc_cap s"
  shows "spsc_distance (sp_tail s) (sp_head s) \<noteq> spsc_capacity s"
  using spsc_not_full [OF _ _ _ _ _ assms(2)] sp_repD [OF assms(1)] by blast

text \<open>The slot on which a thread is working; the other thread never touches it.\<close>

fun sp_slot :: "'a sp_pc \<Rightarrow> nat set" where
  "sp_slot (Sp_push_construct x tail) = {unat tail}"
| "sp_slot (Sp_push_store x tail) = {unat tail}"
| "sp_slot (Sp_pop_move head) = {unat head}"
| "sp_slot (Sp_pop_destroy head x) = {unat head}"
| "sp_slot (Sp_pop_store head x) = {unat head}"
| "sp_slot pc = {}"

lemma sp_overlay_other:
  "i \<notin> sp_slot pc \<Longrightarrow> sp_overlay ty pc f i = f i"
  "i \<notin> sp_slot pc \<Longrightarrow> sp_overlay ty pc (f(i := v)) = (sp_overlay ty pc f)(i := v)"
  by (cases pc; simp add: fun_upd_twist)+

lemma sp_apart:
  assumes "sp_rep ty Q k p c s" "sp_producer_ok room s p" "sp_consumer_ok Q k s c"
  shows "sp_slot p \<subseteq> {unat (sp_tail s)}" "sp_slot c \<subseteq> {unat (sp_head s)}"
    "sp_slot c \<noteq> {} \<Longrightarrow> k < length Q" "sp_slot p \<inter> sp_slot c = {}"
proof -
  show p: "sp_slot p \<subseteq> {unat (sp_tail s)}" using assms(2) by (cases p) auto
  show c: "sp_slot c \<subseteq> {unat (sp_head s)}" and k: "sp_slot c \<noteq> {} \<Longrightarrow> k < length Q"
    using assms(3) by (cases c; auto)+
  have "unat (sp_head s) \<noteq> unat (sp_tail s)" if "k < length Q"
    using sp_places(5) [OF assms(1)] that by (simp add: word_unat_eq_iff)
  then show "sp_slot p \<inter> sp_slot c = {}" using p c k by blast
qed

lemma sp_producer_step:
  assumes "sp_rep ty Q k p c s" "sp_producer_ok (k + spsc_cap s - length Q) s p" "sp_consumer_ok Q k s c"
  shows "\<exists>es p' s'. sp_step ty p s = Some (es, p', s') \<and> received es = [] \<and> sp_rep ty (Q @ sent es) k p' c s' \<and>
    sp_producer_ok (k + spsc_cap s' - length (Q @ sent es)) s' p' \<and> sp_head s' = sp_head s \<and>
    spsc_cap s' = spsc_cap s \<and> Push_failed \<notin> set es \<and> Pop_failed \<notin> set es"
proof -
  let ?C = "unat (sp_storage_capacity s)" and ?t = "unat (sp_tail s)"
  let ?f = "round_slots ?C k Q"
  note D = sp_repD [OF assms(1)] and L = sp_places [OF assms(1)]
  have apart: "?t \<notin> sp_slot c"
    using sp_apart(2,3) [OF assms] L(5) by (auto simp: word_unat_eq_iff)
  have lt: "?t < ?C" unfolding D(7) using D(10) by simp
  show ?thesis
  proof (cases p)
    case Sp_idle
    then show ?thesis using assms by simp
  next
    case (Sp_push_tail x)
    then show ?thesis using assms by (simp add: sp_rep_def)
  next
    case (Sp_push_head x tail)
    then have "tail = sp_tail s" "length Q < k + spsc_cap s" using assms(2) by auto
    with sp_not_full [OF assms(1)] show ?thesis using Sp_push_head assms by (simp add: sp_rep_def)
  next
    case (Sp_push_construct x tail)
    then have t: "tail = sp_tail s" "0 < k + spsc_cap s - length Q" using assms(2) by auto
    have h: "slots_hold ty (sp_overlay ty c ?f) (sp_storage s)" using D(8) Sp_push_construct by simp
    have "?f ?t = None" unfolding D(7) by (rule round_slots_None [OF D(9)])
    then have n: "sp_overlay ty c ?f ?t = None" using sp_overlay_other(1) [OF apart] by simp
    have "?t < length (sp_storage s)" using lt D(11) by simp
    note H = hold_construct [OF h n this, of x]
    have "slots_hold ty (sp_overlay ty c (sp_overlay ty (Sp_push_store x tail) ?f)) ((sp_storage s)[?t := Some x])"
      using H(2) sp_overlay_other(2) [OF apart, of ty ?f "Some x"] t(1) by simp
    then have "sp_rep ty Q k (Sp_push_store x tail) c (s\<lparr>sp_storage := (sp_storage s)[?t := Some x]\<rparr>)"
      using assms(1) by (simp add: sp_rep_def spsc_cap_def spsc_capacity_def)
    then show ?thesis using H(1) L(2) Sp_push_construct t by (simp add: spsc_cap_def spsc_capacity_def)
  next
    case (Sp_push_store x tail)
    then have t: "tail = sp_tail s" "length Q < k + spsc_cap s" using assms(2) by auto
    have "sp_overlay ty p ?f = round_slots ?C k (Q @ [x])"
      using round_slots_snoc [OF D(9,4), of x] Sp_push_store t(1) D(7) by simp
    then have "slots_hold ty (sp_overlay ty c (round_slots ?C k (Q @ [x]))) (sp_storage s)"
      using D(8) by simp
    then have "sp_rep ty (Q @ [x]) k Sp_idle c (s\<lparr>sp_tail := spsc_next s tail\<rparr>)"
      using assms(1) L(4) t by (simp add: sp_rep_def spsc_cap_def spsc_capacity_def)
    then show ?thesis using Sp_push_store by (simp add: spsc_cap_def spsc_capacity_def)
  qed (use assms(2) in simp_all)
qed

lemma sp_consumer_step:
  assumes "sp_rep ty Q k p c s" "sp_producer_ok room s p" "sp_consumer_ok Q k s c"
  shows "\<exists>es c' s'. sp_step ty c s = Some (es, c', s') \<and> sent es = [] \<and>
    (received es = [] \<or> k < length Q \<and> received es = [Q ! k]) \<and>
    sp_rep ty Q (k + length (received es)) p c' s' \<and> sp_consumer_ok Q (k + length (received es)) s' c' \<and>
    sp_tail s' = sp_tail s \<and> spsc_cap s' = spsc_cap s \<and> Push_failed \<notin> set es \<and> (Pop_failed \<in> set es \<longrightarrow> k = length Q)"
proof -
  let ?C = "unat (sp_storage_capacity s)" and ?h = "unat (sp_head s)"
  let ?f = "round_slots ?C k Q"
  note D = sp_repD [OF assms(1)] and L = sp_places [OF assms(1)]
  have apart: "?h \<notin> sp_slot p" if "k < length Q"
    using sp_apart(1) [OF assms] L(5) that by (auto simp: word_unat_eq_iff)
  have first: "sp_overlay ty p ?f ?h = Some (Q ! k)" if "k < length Q"
    using sp_overlay_other(1) [OF apart [OF that]] round_slots_first [OF that, of ?C] D(6) by simp
  have keep: "sp_rep ty Q k p c' (s\<lparr>sp_storage := m\<rparr>)"
    if "slots_hold ty (sp_overlay ty c' (sp_overlay ty p ?f)) m" "length m = length (sp_storage s)" for c' m
    using that assms(1) by (simp add: sp_rep_def spsc_cap_def spsc_capacity_def)
  show ?thesis
  proof (cases c)
    case Sp_idle
    then show ?thesis using assms by simp
  next
    case Sp_pop_head
    then show ?thesis using assms by (simp add: sp_rep_def)
  next
    case (Sp_pop_tail head)
    then have "head = sp_head s" using assms(3) by simp
    then show ?thesis using Sp_pop_tail assms L(5) D(4) by (auto simp: sp_rep_def)
  next
    case (Sp_pop_move head)
    then have t: "head = sp_head s" "k < length Q" using assms(3) by auto
    have h: "slots_hold ty (sp_overlay ty p ?f) (sp_storage s)" using D(8) Sp_pop_move by simp
    note H = hold_move [OF h first [OF t(2)]]
    have "sp_rep ty Q k p (Sp_pop_destroy head (Q ! k)) (s\<lparr>sp_storage := (sp_storage s)[?h := Some (moved_from ty (Q ! k))]\<rparr>)"
      using H(2) t(1) by (intro keep) simp_all
    then show ?thesis using H(1) L(1) Sp_pop_move t by (simp add: spsc_cap_def spsc_capacity_def)
  next
    case (Sp_pop_destroy head x)
    then have t: "head = sp_head s" "k < length Q" "x = Q ! k" using assms(3) by auto
    have h: "slots_hold ty ((sp_overlay ty p ?f)(?h := Some (moved_from ty x))) (sp_storage s)"
      using D(8) Sp_pop_destroy t(1) by simp
    have l: "((sp_overlay ty p ?f)(?h := Some (moved_from ty x))) ?h = Some (moved_from ty x)" by simp
    have H: "slot_destroy ty ?h (sp_storage s) = Some (if is_trivial ty then sp_storage s else (sp_storage s)[?h := None])"
      "slots_hold ty ((sp_overlay ty p ?f)(?h := None)) (if is_trivial ty then sp_storage s else (sp_storage s)[?h := None])"
      using hold_destroy [OF h l] by (simp_all only: fun_upd_upd)
    have "sp_rep ty Q k p (Sp_pop_store head x) (s\<lparr>sp_storage := (if is_trivial ty then sp_storage s else (sp_storage s)[?h := None])\<rparr>)"
      using H(2) t(1) by (intro keep) simp_all
    then show ?thesis using H(1) L(1) Sp_pop_destroy t by (simp add: spsc_cap_def spsc_capacity_def)
  next
    case (Sp_pop_store head x)
    then have t: "head = sp_head s" "k < length Q" "x = Q ! k" using assms(3) by auto
    have "(sp_overlay ty p ?f)(?h := None) = sp_overlay ty p (round_slots ?C (Suc k) Q)"
      using sp_overlay_other(2) [OF apart [OF t(2)], of ty ?f None] round_slots_tl [OF t(2) less_imp_le [OF D(9)]] D(6)
      by simp
    then have "slots_hold ty (sp_overlay ty p (round_slots ?C (Suc k) Q)) (sp_storage s)"
      using D(8) Sp_pop_store t(1) by simp
    then have "sp_rep ty Q (Suc k) p Sp_idle (s\<lparr>sp_head := spsc_next s head\<rparr>)"
      using assms(1) L(3) t by (simp add: sp_rep_def spsc_cap_def spsc_capacity_def)
    then show ?thesis using Sp_pop_store t by (simp add: spsc_cap_def spsc_capacity_def)
  qed (use assms(3) in simp_all)
qed

definition sp_inv :: "'a elem_type \<Rightarrow> 'a channel_event list \<Rightarrow> 'a sp_pc \<Rightarrow> 'a sp_pc \<Rightarrow> 'a spsc \<Rightarrow> bool" where
  "sp_inv ty log p c s \<longleftrightarrow>
     sp_rep ty (sent log) (length (received log)) p c s \<and>
     received log = take (length (received log)) (sent log) \<and>
     sp_producer_ok (length (received log) + spsc_cap s - length (sent log)) s p \<and>
     sp_consumer_ok (sent log) (length (received log)) s c"

lemma sp_invD:
  assumes "sp_inv ty log p c s"
  shows "sp_rep ty (sent log) (length (received log)) p c s"
    "sp_producer_ok (length (received log) + spsc_cap s - length (sent log)) s p"
    "sp_consumer_ok (sent log) (length (received log)) s c"
    "received log = take (length (received log)) (sent log)"
  using assms by (simp_all add: sp_inv_def)

lemma sp_producer_stable:
  assumes "sp_producer_ok room s p" "room \<le> room'" "sp_tail s' = sp_tail s"
  shows "sp_producer_ok room' s' p"
  using assms by (cases p) auto

lemma sp_consumer_stable:
  assumes "sp_consumer_ok Q k s c" "sp_head s' = sp_head s"
  shows "sp_consumer_ok (Q @ R) k s' c"
  using assms by (cases c) (auto simp: nth_append)

lemma sp_inv_producer:
  assumes "sp_inv ty log p c s" "sp_step ty p s = Some (es, p', s')"
  shows "sp_inv ty (log @ es) p' c s' \<and> spsc_cap s' = spsc_cap s"
proof -
  note I = sp_invD [OF assms(1)]
  have S: "received es = []" "sp_rep ty (sent log @ sent es) (length (received log)) p' c s'"
    "sp_producer_ok (length (received log) + spsc_cap s' - length (sent log @ sent es)) s' p'"
    "sp_head s' = sp_head s" "spsc_cap s' = spsc_cap s"
    using sp_producer_step [OF I(1-3)] assms(2) by auto
  have "received log = take (length (received log)) (sent log @ sent es)"
    using I(4) sp_repD(4) [OF I(1)] by simp
  then show ?thesis using S sp_consumer_stable [OF I(3) S(4), of "sent es"] by (simp add: sp_inv_def)
qed

lemma sp_inv_consumer:
  assumes "sp_inv ty log p c s" "sp_step ty c s = Some (es, c', s')"
  shows "sp_inv ty (log @ es) p c' s' \<and> spsc_cap s' = spsc_cap s"
proof -
  let ?Q = "sent log" and ?k = "length (received log)"
  note I = sp_invD [OF assms(1)]
  have S: "sent es = []" "received es = [] \<or> ?k < length ?Q \<and> received es = [?Q ! ?k]"
    "sp_rep ty ?Q (?k + length (received es)) p c' s'" "sp_consumer_ok ?Q (?k + length (received es)) s' c'"
    "sp_tail s' = sp_tail s" "spsc_cap s' = spsc_cap s"
    using sp_consumer_step [OF I(1-3)] assms(2) by auto
  have p: "sp_producer_ok (?k + length (received es) + spsc_cap s' - length ?Q) s' p"
    by (rule sp_producer_stable [OF I(2) _ S(5)]) (simp add: S(6))
  have r: "received log @ received es = take (?k + length (received es)) ?Q"
    using S(2) I(4) take_Suc_conv_app_nth [of ?k ?Q] by auto
  show ?thesis
    unfolding sp_inv_def sent_append received_append length_append S(1) append_Nil2
    using S(3,4,6) p r by simp
qed

lemma sp_run_inv:
  assumes "sp_run ty s0 log p c s" "sp_rep ty [] 0 Sp_idle Sp_idle s0"
  shows "sp_inv ty log p c s \<and> spsc_cap s = spsc_cap s0"
  using assms(1)
proof (induction rule: sp_run.induct)
  case sp_start
  then show ?case using assms(2) by (simp add: sp_inv_def)
next
  case (sp_call_push log c s x)
  then show ?case by (simp add: sp_inv_def sp_rep_def)
next
  case (sp_call_pop log p s)
  then show ?case by (auto simp: sp_inv_def sp_rep_def)
next
  case (sp_producer log p c s es p' s')
  then show ?case using sp_inv_producer by metis
next
  case (sp_consumer log p c s es c' s')
  then show ?case using sp_inv_consumer by metis
qed

lemma sp_new_rep:
  assumes "spsc_new nw sz capacity = Some (Inr s)" "round_up_to_power_of_two (capacity + 1) = Some n"
    and "unat capacity < 2 ^ 63" "0 < unat sz" "unat n * unat sz < 2 ^ 64"
  shows "sp_rep ty [] 0 Sp_idle Sp_idle s" "unat capacity \<le> spsc_cap s"
proof -
  from spsc_new_rep [OF assms(2-5), of nw ty] assms(1) have r: "spsc_rep ty [] s" and "unat capacity \<le> spsc_cap s"
    by (auto split: if_splits)
  then show "unat capacity \<le> spsc_cap s" by simp
  have "sp_storage s = replicate (unat (sp_storage_capacity s)) None" "sp_head s = 0" "sp_tail s = 0"
    using assms(1,2) by (auto simp: spsc_new_def new_slots_fit [OF assms(5,4)] split: if_splits)
  then show "sp_rep ty [] 0 Sp_idle Sp_idle s"
    using r spsc_repD(2) [OF r] by (auto simp: sp_rep_def spsc_rep_def round_slots_def slots_hold_def)
qed

lemma spsc_demo_size: "round_up_to_power_of_two (3 + 1) = Some 4"
  by (simp add: round_up_loop_eq fixed_round_up_po2_def smear_def Let_def)

section \<open>Properties\<close>

text \<open>
  A producer that calls \<open>try_push\<close> only while there is room and one consumer, in every
  interleaving of their accesses to a new buffer whose byte count did not wrap around: neither faults; the elements received are
  the first ones sent, in order; at most \<open>capacity()\<close> are in the buffer, which has room for
  what was asked of the constructor; the two never work on the same slot; no push fails, and
  a pop fails only when everything sent has been received.
\<close>

theorem spsc_ring_interleavings:
  assumes "spsc_new nw sz capacity = Some (Inr s0)" "round_up_to_power_of_two (capacity + 1) = Some n"
    and "unat capacity < 2 ^ 63" "0 < unat sz" "unat n * unat sz < 2 ^ 64" "sp_run ty s0 log p c s"
  shows "sp_step ty p s \<noteq> None \<and> sp_step ty c s \<noteq> None \<and>
    (\<exists>rest. sent log = received log @ rest \<and> length rest \<le> spsc_cap s0) \<and> unat capacity \<le> spsc_cap s0 \<and>
    sp_slot p \<inter> sp_slot c = {} \<and>
    (\<forall>es p' s'. sp_step ty p s = Some (es, p', s') \<longrightarrow> Push_failed \<notin> set es) \<and>
    (\<forall>es c' s'. sp_step ty c s = Some (es, c', s') \<longrightarrow> Pop_failed \<in> set es \<longrightarrow> sent log = received log)"
proof -
  let ?Q = "sent log" and ?k = "length (received log)"
  note N = sp_new_rep [OF assms(1-5)]
  have inv: "sp_inv ty log p c s" and cap: "spsc_cap s = spsc_cap s0" using sp_run_inv [OF assms(6) N(1)] by auto
  note I = sp_invD [OF inv]
  note P = sp_producer_step [OF I(1-3)] and C = sp_consumer_step [OF I(1-3)]
  have split: "?Q = received log @ drop ?k ?Q"
    using append_take_drop_id [of ?k ?Q] unfolding I(4) [symmetric] by (rule sym)
  have "length (drop ?k ?Q) \<le> spsc_cap s0" using sp_repD(5) [OF I(1)] cap by simp
  with split have rest: "\<exists>rest. ?Q = received log @ rest \<and> length rest \<le> spsc_cap s0" by blast
  have "?Q = received log" if "?k = length ?Q" using split that by simp
  then have "Pop_failed \<in> set es \<longrightarrow> ?Q = received log" if "sp_step ty c s = Some (es, c', s')" for es c' s'
    using C that by auto
  moreover have "Push_failed \<notin> set es" if "sp_step ty p s = Some (es, p', s')" for es p' s' using P that by auto
  ultimately show ?thesis using P C rest N(2) sp_apart(4) [OF I(1-3)] by blast
qed

theorem spsc_ring_interleavings_witness:
  "\<exists>s0. spsc_new (\<lambda>b. b < 4096) 8 3 = Some (Inr s0) \<and>
    sp_step \<lparr>is_trivial = True, residue = id\<rparr> (Sp_push_tail (5 :: nat)) s0 \<noteq> None \<and> 3 \<le> spsc_cap s0"
proof -
  let ?ty = "\<lparr>is_trivial = True, residue = id\<rparr> :: nat elem_type"
  note n = spsc_demo_size
  obtain s0 :: "nat spsc" where s0: "spsc_new (\<lambda>b. b < 4096) 8 3 = Some (Inr s0)" "(3 :: nat) \<le> spsc_cap s0"
    using spsc_new_rep [OF n, of 8 "\<lambda>b. b < 4096" ?ty] by auto
  have "sp_run ?ty s0 [] (Sp_push_tail 5) Sp_idle s0"
    by (rule sp_call_push [OF sp_start]) (use s0(2) in simp)
  from spsc_ring_interleavings [OF s0(1) n _ _ _ this] s0 show ?thesis by auto
qed

end
