(* ===== verification/ReleaseAcquire.thy ===== *)
theory ReleaseAcquire
  imports HpcPrelude
begin

text \<open>
  Atomic variables with memory orders weaker than sequential consistency. Each atomic
  variable keeps its modification order, oldest value first. A thread has a view: for each
  location the oldest entry that it may still read. A load may return any entry that is not
  older, so threads may see different variables at different ages. A release store attaches
  the view of its thread to the value stored, and an acquire load of that value joins this
  view to its own; relaxed accesses exchange no views.

  Locations without synchronisation (the storage of elements, data under a lock) count their
  accesses. An access by a thread whose view lacks an earlier access is a data race, which is
  undefined behaviour: \<open>ra_access\<close> is \<open>None\<close>. This asks for more than C++, where two reads do not race.

  A store in C++ may take any place in the modification order after what its thread
  has seen. The stores here go to the end, and \<open>ra_store\<close> is \<open>None\<close> where another place
  would be possible, that is where the thread has not seen the newest entry; a
  read-modify-write acts on the newest entry. Loads return only values already stored.
\<close>

section \<open>Memory\<close>

datatype memory_order = Relaxed | Acquire | Release

type_synonym 'l view = "'l \<Rightarrow> nat"

record ('l, 'v) message =
  msg_value :: 'v
  msg_view :: "'l \<Rightarrow> nat"

record ('l, 'v) memory =
  mem_order :: "'l \<Rightarrow> ('l, 'v) message list"
  mem_accesses :: "'l \<Rightarrow> nat"
  mem_views :: "nat \<Rightarrow> 'l view"

definition view_join :: "'l view \<Rightarrow> 'l view \<Rightarrow> 'l view" where
  "view_join v w = (\<lambda>l. max (v l) (w l))"

text \<open>The newest entry of an atomic location; the number of accesses to another one.\<close>

definition ra_newest :: "('l, 'v) memory \<Rightarrow> 'l \<Rightarrow> nat" where
  "ra_newest M l = length (mem_order M l) - 1 + mem_accesses M l"

definition ra_value :: "('l, 'v) memory \<Rightarrow> 'l \<Rightarrow> 'v" where
  "ra_value M l = msg_value (last (mem_order M l))"

text \<open>The entries that a thread may read.\<close>

definition ra_visible :: "nat \<Rightarrow> 'l \<Rightarrow> nat \<Rightarrow> ('l, 'v) memory \<Rightarrow> bool" where
  "ra_visible t l n M \<longleftrightarrow> mem_views M t l \<le> n \<and> n < length (mem_order M l)"

text \<open>The view of a thread with view \<open>v\<close> after it has read the entry \<open>m\<close>.\<close>

definition ra_read :: "memory_order \<Rightarrow> 'l view \<Rightarrow> ('l, 'v) message \<Rightarrow> 'l view" where
  "ra_read ord v m = (if ord = Acquire then view_join v (msg_view m) else v)"

definition ra_load :: "memory_order \<Rightarrow> nat \<Rightarrow> 'l \<Rightarrow> nat \<Rightarrow> ('l, 'v) memory \<Rightarrow> 'v \<times> ('l, 'v) memory" where
  "ra_load ord t l n M =
     (let m = mem_order M l ! n
      in (msg_value m, M\<lparr>mem_views := (mem_views M)(t := ra_read ord ((mem_views M t)(l := n)) m)\<rparr>))"

definition ra_store :: "memory_order \<Rightarrow> nat \<Rightarrow> 'l \<Rightarrow> 'v \<Rightarrow> ('l, 'v) memory \<Rightarrow> ('l, 'v) memory option" where
  "ra_store ord t l x M =
     (if Suc (mem_views M t l) \<noteq> length (mem_order M l) then None
      else let v = (mem_views M t)(l := length (mem_order M l));
               w = (if ord = Release then v else (\<lambda>_. 0)(l := length (mem_order M l)))
           in Some (M\<lparr>mem_order := (mem_order M)(l := mem_order M l @ [\<lparr>msg_value = x, msg_view = w\<rparr>]),
                      mem_views := (mem_views M)(t := v)\<rparr>))"

text \<open>
  A successful read-modify-write. It passes on the view of the entry that it reads, as an
  element of its release sequence.
\<close>

definition ra_exchange :: "memory_order \<Rightarrow> nat \<Rightarrow> 'l \<Rightarrow> 'v \<Rightarrow> ('l, 'v) memory \<Rightarrow> ('l, 'v) memory" where
  "ra_exchange ord t l x M =
     (let n = length (mem_order M l); m = last (mem_order M l)
      in M\<lparr>mem_order := (mem_order M)(l := mem_order M l @ [\<lparr>msg_value = x, msg_view = (msg_view m)(l := n)\<rparr>]),
           mem_views := (mem_views M)(t := ra_read ord ((mem_views M t)(l := n)) m)\<rparr>)"

definition ra_access :: "nat \<Rightarrow> 'l \<Rightarrow> ('l, 'v) memory \<Rightarrow> ('l, 'v) memory option" where
  "ra_access t l M =
     (if mem_views M t l = mem_accesses M l
      then Some (M\<lparr>mem_accesses := (mem_accesses M)(l := Suc (mem_accesses M l)),
                   mem_views := (mem_views M)(t := (mem_views M t)(l := Suc (mem_accesses M l)))\<rparr>)
      else None)"

text \<open>Memory in which the atomic locations have been initialised, before any thread starts.\<close>

definition ra_init :: "('l \<Rightarrow> 'v option) \<Rightarrow> ('l, 'v) memory" where
  "ra_init f = \<lparr>mem_order = (\<lambda>l. case f l of None \<Rightarrow> [] | Some x \<Rightarrow> [\<lparr>msg_value = x, msg_view = \<lambda>_. 0\<rparr>]),
     mem_accesses = (\<lambda>_. 0), mem_views = (\<lambda>_ _. 0)\<rparr>"

section \<open>All views\<close>

definition ra_views :: "('l, 'v) memory \<Rightarrow> 'l view set" where
  "ra_views M = range (mem_views M) \<union> {msg_view m |m. \<exists>l. m \<in> set (mem_order M l)}"

text \<open>No view is ahead of memory, and the view of an entry is at that entry.\<close>

definition ra_wf :: "('l, 'v) memory \<Rightarrow> bool" where
  "ra_wf M \<longleftrightarrow> (\<forall>v \<in> ra_views M. \<forall>l. v l \<le> ra_newest M l) \<and>
     (\<forall>l n. n < length (mem_order M l) \<longrightarrow> msg_view (mem_order M l ! n) l = n)"

text \<open>Every view that has the entry \<open>n\<close> of \<open>a\<close> has the first \<open>n\<close> accesses to \<open>d\<close>.\<close>

definition ra_guards :: "'l \<Rightarrow> 'l \<Rightarrow> ('l, 'v) memory \<Rightarrow> bool" where
  "ra_guards a d M \<longleftrightarrow> (\<forall>v \<in> ra_views M. v a \<le> v d)"

lemma ra_view_thread [simp, intro]: "mem_views M t \<in> ra_views M"
  by (simp add: ra_views_def)

lemma ra_view_message: "m \<in> set (mem_order M l) \<Longrightarrow> msg_view m \<in> ra_views M"
  by (auto simp: ra_views_def)

lemma ra_wfD:
  assumes "ra_wf M"
  shows "mem_views M t l \<le> ra_newest M l" "m \<in> set (mem_order M k) \<Longrightarrow> msg_view m l \<le> ra_newest M l"
    "n < length (mem_order M l) \<Longrightarrow> msg_view (mem_order M l ! n) l = n"
  using assms ra_view_message [of m M k] by (auto simp: ra_wf_def)

lemma view_join_le [simp]: "view_join v w l \<le> n \<longleftrightarrow> v l \<le> n \<and> w l \<le> n"
  by (simp add: view_join_def)

lemma view_join_ge [simp]: "n \<le> view_join v w l \<longleftrightarrow> n \<le> v l \<or> n \<le> w l"
  by (auto simp: view_join_def)

lemma view_join_less [simp]: "n < view_join v w l \<longleftrightarrow> n < v l \<or> n < w l"
  by (auto simp: view_join_def)

lemma ra_guardsD:
  assumes "ra_guards a d M"
  shows "v \<in> ra_views M \<Longrightarrow> v a \<le> v d" "mem_views M t a \<le> mem_views M t d"
    "m \<in> set (mem_order M l) \<Longrightarrow> msg_view m a \<le> msg_view m d"
  using assms ra_view_message [of m M l] by (auto simp: ra_guards_def)

lemma ra_views_init: "v \<in> ra_views (ra_init f) \<Longrightarrow> v = (\<lambda>_. 0)"
  by (auto simp: ra_init_def ra_views_def split: option.splits)

lemma ra_wf_init [simp]: "ra_wf (ra_init f)"
  by (auto simp: ra_wf_def dest!: ra_views_init) (auto simp: ra_init_def split: option.splits)

lemma ra_guards_init [simp]: "ra_guards a d (ra_init f)"
  by (auto simp: ra_guards_def dest!: ra_views_init)

section \<open>Loads\<close>

lemma ra_load_frame [simp]:
  "mem_order (snd (ra_load ord t l n M)) = mem_order M" "mem_accesses (snd (ra_load ord t l n M)) = mem_accesses M"
  "ra_newest (snd (ra_load ord t l n M)) = ra_newest M" "ra_value (snd (ra_load ord t l n M)) = ra_value M"
  "u \<noteq> t \<Longrightarrow> mem_views (snd (ra_load ord t l n M)) u = mem_views M u"
  by (auto simp: ra_load_def Let_def ra_newest_def ra_value_def fun_eq_iff)

lemma ra_load_value: "fst (ra_load ord t l n M) = msg_value (mem_order M l ! n)"
  by (simp add: ra_load_def Let_def)

text \<open>A relaxed load of the entry that the thread has seen last changes nothing.\<close>

lemma ra_load_again:
  "mem_views M t l = n \<Longrightarrow> ra_load Relaxed t l n M = (msg_value (mem_order M l ! n), M)"
  by (auto simp: ra_load_def Let_def ra_read_def)

lemma ra_value_entry: "mem_order M l \<noteq> [] \<Longrightarrow> ra_value M l = msg_value (mem_order M l ! (length (mem_order M l) - 1))"
  by (simp add: ra_value_def last_conv_nth)

lemma ra_load_view_self:
  assumes "ra_wf M" "n < length (mem_order M l)"
  shows "mem_views (snd (ra_load ord t l n M)) t l = n"
  using ra_wfD(3) [OF assms] by (simp add: ra_load_def Let_def ra_read_def view_join_def)

lemma ra_load_views:
  assumes "v \<in> ra_views (snd (ra_load ord t l n M))"
  shows "v \<in> ra_views M \<or> v = ra_read ord ((mem_views M t)(l := n)) (mem_order M l ! n)"
  using assms by (auto simp: ra_load_def Let_def ra_views_def)

lemma ra_load_wf:
  assumes "ra_wf M" "ra_visible t l n M"
  shows "ra_wf (snd (ra_load ord t l n M))"
proof -
  have n: "n < length (mem_order M l)" using assms(2) by (simp add: ra_visible_def)
  then have "n \<le> ra_newest M l" by (simp add: ra_newest_def)
  then have v: "((mem_views M t)(l := n)) k \<le> ra_newest M k" for k using ra_wfD(1) [OF assms(1)] by simp
  moreover have "msg_view (mem_order M l ! n) k \<le> ra_newest M k" for k
    using ra_wfD(2) [OF assms(1) nth_mem [OF n]] .
  ultimately have "w k \<le> ra_newest M k" if "w \<in> ra_views (snd (ra_load ord t l n M))" for w k
    using ra_load_views [OF that] assms(1) by (auto simp: ra_wf_def ra_read_def)
  then show ?thesis using ra_wfD(3) [OF assms(1)] by (simp add: ra_wf_def)
qed

lemma ra_load_guards:
  assumes "ra_guards a d M" "ra_wf M" "ra_visible t l n M" "l \<noteq> d" "l = a \<Longrightarrow> ord = Acquire"
  shows "ra_guards a d (snd (ra_load ord t l n M))"
  unfolding ra_guards_def
proof
  fix v
  let ?m = "mem_order M l ! n"
  have n: "n < length (mem_order M l)" using assms(3) by (simp add: ra_visible_def)
  note m = ra_guardsD(3) [OF assms(1) nth_mem [OF n]] and t = ra_guardsD(2) [OF assms(1), of t]
  assume "v \<in> ra_views (snd (ra_load ord t l n M))"
  from ra_load_views [OF this] show "v a \<le> v d"
    using assms(4,5) m t ra_wfD(3) [OF assms(2) n] by (auto simp: ra_read_def dest: ra_guardsD(1) [OF assms(1)])
qed

section \<open>Stores\<close>

lemma ra_store_frame:
  assumes "ra_store ord t l x M = Some M'"
  shows "mem_order M' l = mem_order M l @ [last (mem_order M' l)]" "ra_value M' l = x"
    "k \<noteq> l \<Longrightarrow> mem_order M' k = mem_order M k" "k \<noteq> l \<Longrightarrow> ra_value M' k = ra_value M k"
    "mem_accesses M' = mem_accesses M" "u \<noteq> t \<Longrightarrow> mem_views M' u = mem_views M u"
    "mem_views M' t = (mem_views M t)(l := length (mem_order M l))"
    "ra_newest M' = (ra_newest M)(l := Suc (ra_newest M l))"
  using assms
  by (auto simp: ra_store_def Let_def ra_value_def ra_newest_def fun_eq_iff split: if_splits)

lemma ra_store_values:
  "ra_store ord t l x M = Some M' \<Longrightarrow> map msg_value (mem_order M' l) = map msg_value (mem_order M l) @ [x]"
  by (auto simp: ra_store_def Let_def split: if_splits)

lemma ra_store_views:
  assumes "ra_store ord t l x M = Some M'" "v \<in> ra_views M'"
  shows "v \<in> ra_views M \<or> v = (mem_views M t)(l := length (mem_order M l)) \<or>
    ord \<noteq> Release \<and> v = (\<lambda>_. 0)(l := length (mem_order M l))"
  using assms by (auto simp: ra_store_def Let_def ra_views_def split: if_splits)

lemma ra_store_wf:
  assumes "ra_store ord t l x M = Some M'" "ra_wf M"
  shows "ra_wf M'"
proof -
  note f = ra_store_frame [OF assms(1)]
  let ?n = "length (mem_order M l)"
  have "?n \<le> Suc (ra_newest M l)" by (simp add: ra_newest_def)
  then have "v k \<le> ra_newest M' k" if "v \<in> ra_views M'" for v k
    using ra_store_views [OF assms(1) that] assms(2) ra_wfD(1) [OF assms(2), of t k]
    by (cases "k = l") (auto simp: ra_wf_def f(8) intro: le_SucI)
  moreover have "msg_view (mem_order M' k ! n) k = n" if "n < length (mem_order M' k)" for k n
  proof (cases "k = l")
    case True
    have "msg_view (last (mem_order M' l)) l = ?n"
      using assms(1) by (auto simp: ra_store_def Let_def split: if_splits)
    then show ?thesis using that True f(1) ra_wfD(3) [OF assms(2), of n l]
      by (metis length_append_singleton less_SucE nth_append nth_append_length)
  qed (use that f(3) ra_wfD(3) [OF assms(2)] in simp)
  ultimately show ?thesis by (simp add: ra_wf_def)
qed

text \<open>
  A release store to \<open>a\<close> keeps the guard when its thread has seen the accesses that the new
  entry is to stand for; a store to a location without a guard keeps it anyway.
\<close>

lemma ra_store_guards:
  assumes "ra_store ord t l x M = Some M'" "ra_guards a d M" "l \<noteq> d"
    and "l = a \<Longrightarrow> ord = Release \<and> length (mem_order M a) \<le> mem_views M t d"
  shows "ra_guards a d M'"
  unfolding ra_guards_def
proof
  fix v
  assume "v \<in> ra_views M'"
  from ra_store_views [OF assms(1) this] show "v a \<le> v d"
    using assms(3,4) ra_guardsD [OF assms(2)] by auto
qed

section \<open>Read-modify-writes\<close>

lemma ra_exchange_frame:
  fixes ord t l x M defines "M' \<equiv> ra_exchange ord t l x M"
  shows "mem_order M' l = mem_order M l @ [last (mem_order M' l)]" "ra_value M' l = x"
    "k \<noteq> l \<Longrightarrow> mem_order M' k = mem_order M k" "k \<noteq> l \<Longrightarrow> ra_value M' k = ra_value M k"
    "mem_accesses M' = mem_accesses M" "u \<noteq> t \<Longrightarrow> mem_views M' u = mem_views M u"
    "mem_views M' t = ra_read ord ((mem_views M t)(l := length (mem_order M l))) (last (mem_order M l))"
    "mem_order M l \<noteq> [] \<Longrightarrow> ra_newest M' = (ra_newest M)(l := Suc (ra_newest M l))"
  by (auto simp: M'_def ra_exchange_def Let_def ra_value_def ra_newest_def fun_eq_iff Suc_diff_Suc)

lemma ra_exchange_values: "map msg_value (mem_order (ra_exchange ord t l x M) l) = map msg_value (mem_order M l) @ [x]"
  by (simp add: ra_exchange_def Let_def)

lemma ra_exchange_views:
  assumes "v \<in> ra_views (ra_exchange ord t l x M)"
  shows "v \<in> ra_views M \<or> v = ra_read ord ((mem_views M t)(l := length (mem_order M l))) (last (mem_order M l)) \<or>
    v = (msg_view (last (mem_order M l)))(l := length (mem_order M l))"
  using assms by (auto simp: ra_exchange_def Let_def ra_views_def split: if_splits)

lemma ra_exchange_wf:
  assumes "ra_wf M" "mem_order M l \<noteq> []"
  shows "ra_wf (ra_exchange ord t l x M)"
proof -
  let ?M = "ra_exchange ord t l x M" and ?n = "length (mem_order M l)" and ?m = "last (mem_order M l)"
  note f = ra_exchange_frame [where ord = ord and t = t and l = l and x = x and M = M]
  have n: "?n \<le> Suc (ra_newest M l)" by (simp add: ra_newest_def)
  have m: "msg_view ?m k \<le> ra_newest M k" for k using ra_wfD(2) [OF assms(1) last_in_set [OF assms(2)]] .
  have "v k \<le> ra_newest ?M k" if "v \<in> ra_views ?M" for v k
    using ra_exchange_views [OF that] assms(1) n m [of k] ra_wfD(1) [OF assms(1), of t k]
    by (cases "k = l") (auto simp: ra_wf_def f(8) [OF assms(2)] ra_read_def intro: le_SucI)
  moreover have "msg_view (mem_order ?M k ! n) k = n" if "n < length (mem_order ?M k)" for k n
  proof (cases "k = l")
    case True
    have "msg_view (last (mem_order ?M l)) l = ?n" by (simp add: ra_exchange_def Let_def)
    then show ?thesis using that True f(1) ra_wfD(3) [OF assms(1), of n l]
      by (metis length_append_singleton less_SucE nth_append nth_append_length)
  qed (use that f(3) ra_wfD(3) [OF assms(1)] in simp)
  ultimately show ?thesis by (simp add: ra_wf_def)
qed

lemma ra_exchange_guards:
  assumes "ra_guards a d M" "mem_order M l \<noteq> []" "l \<noteq> d" "l \<noteq> a"
  shows "ra_guards a d (ra_exchange ord t l x M)"
  unfolding ra_guards_def
proof
  fix v
  note m = ra_guardsD(3) [OF assms(1) last_in_set [OF assms(2)]] and t = ra_guardsD(2) [OF assms(1), of t]
  assume "v \<in> ra_views (ra_exchange ord t l x M)"
  from ra_exchange_views [OF this] show "v a \<le> v d"
    using assms(3,4) m t by (auto simp: ra_read_def dest: ra_guardsD(1) [OF assms(1)])
qed

section \<open>Plain accesses\<close>

lemma ra_access_frame:
  assumes "ra_access t l M = Some M'"
  shows "mem_order M' = mem_order M" "ra_value M' = ra_value M"
    "mem_accesses M' = (mem_accesses M)(l := Suc (mem_accesses M l))" "u \<noteq> t \<Longrightarrow> mem_views M' u = mem_views M u"
    "mem_views M' t = (mem_views M t)(l := Suc (mem_accesses M l))"
    "ra_newest M' = (ra_newest M)(l := Suc (ra_newest M l))"
  using assms by (auto simp: ra_access_def ra_newest_def ra_value_def fun_eq_iff split: if_splits)

lemma ra_access_views:
  assumes "ra_access t l M = Some M'" "v \<in> ra_views M'"
  shows "v \<in> ra_views M \<or> v = (mem_views M t)(l := Suc (mem_accesses M l))"
  using assms by (auto simp: ra_access_def ra_views_def split: if_splits)

lemma ra_access_wf:
  assumes "ra_access t l M = Some M'" "ra_wf M" "mem_order M l = []"
  shows "ra_wf M'"
proof -
  note f = ra_access_frame [OF assms(1)]
  have "Suc (mem_accesses M l) \<le> Suc (ra_newest M l)" by (simp add: ra_newest_def)
  then have "v k \<le> ra_newest M' k" if "v \<in> ra_views M'" for v k
    using ra_access_views [OF assms(1) that] assms(2) ra_wfD(1) [OF assms(2), of t k]
    by (cases "k = l") (auto simp: ra_wf_def f(6) intro: le_SucI)
  then show ?thesis using ra_wfD(3) [OF assms(2)] f(1) by (simp add: ra_wf_def)
qed

lemma ra_access_guards:
  assumes "ra_access t l M = Some M'" "ra_guards a d M" "l \<noteq> a"
  shows "ra_guards a d M'"
  unfolding ra_guards_def
proof
  fix v
  have t: "mem_views M t l = mem_accesses M l" using assms(1) by (simp add: ra_access_def split: if_splits)
  assume "v \<in> ra_views M'"
  from ra_access_views [OF assms(1) this] show "v a \<le> v d"
    using assms(3) t ra_guardsD(1) [OF assms(2)] ra_guardsD(2) [OF assms(2), of t] by (cases "l = d") auto
qed

end
