(* ===== verification/SpscReleaseAcquire.thy ===== *)
theory SpscReleaseAcquire
  imports SpscConcurrent ReleaseAcquire
begin

text \<open>
  The memory orders of \<open>spsc_ring_buffer<T>\<close> (\<open>include/hpc/core/ring_buffer.hpp\<close>): the
  accesses of \<open>SpscConcurrent\<close> with the order that the code gives each. A side reads its own
  index relaxed and the other index with acquire, and stores its own with release.

  As there, the producer calls \<open>try_push\<close> only while there is room. It knows of room by
  what it has seen of the consumer: \<open>rw_credit\<close> stands for a message from the consumer to the
  producer by which they synchronise outside of the ring.
\<close>

section \<open>State and steps\<close>

datatype rb_loc = Rb_head | Rb_tail | Rb_slot nat

record 'a rb_weak =
  rw_elem_size :: usize
  rw_storage_capacity :: usize
  rw_mask :: usize
  rw_storage :: "'a slots"
  rw_mem :: "(rb_loc, usize) memory"

definition rw_start :: "'a spsc \<Rightarrow> 'a rb_weak" where
  "rw_start s = \<lparr>rw_elem_size = sp_elem_size s, rw_storage_capacity = sp_storage_capacity s, rw_mask = sp_mask s, rw_storage = sp_storage s,
     rw_mem = ra_init (\<lambda>l. case l of Rb_head \<Rightarrow> Some (sp_head s) | Rb_tail \<Rightarrow> Some (sp_tail s) | Rb_slot i \<Rightarrow> None)\<rparr>"

definition rw_element_at :: "'a rb_weak \<Rightarrow> usize \<Rightarrow> nat" where
  "rw_element_at W i = slot_at_byte (rw_elem_size W) (rw_storage W) ((i AND rw_mask W) * rw_elem_size W)"

definition rw_next :: "'a rb_weak \<Rightarrow> usize \<Rightarrow> usize" where
  "rw_next W i = (i + 1) AND rw_mask W"

text \<open>The step of thread \<open>t\<close>; \<open>n\<close> is the entry of the index that it reads.\<close>

fun rw_step :: "'a elem_type \<Rightarrow> nat \<Rightarrow> nat \<Rightarrow> 'a sp_pc \<Rightarrow> 'a rb_weak \<Rightarrow>
    ('a channel_event list \<times> 'a sp_pc \<times> 'a rb_weak) option" where
  "rw_step ty t n Sp_idle W = Some ([], Sp_idle, W)"
| "rw_step ty t n (Sp_push_tail x) W =
     (let r = ra_load Relaxed t Rb_tail n (rw_mem W) in Some ([], Sp_push_head x (fst r), W\<lparr>rw_mem := snd r\<rparr>))"
| "rw_step ty t n (Sp_push_head x tail) W =
     (let r = ra_load Acquire t Rb_head n (rw_mem W); W' = W\<lparr>rw_mem := snd r\<rparr> in
      Some (if spsc_distance tail (fst r) = rw_storage_capacity W - 1
            then ([Push_failed], Sp_idle, W') else ([], Sp_push_construct x tail, W')))"
| "rw_step ty t n (Sp_push_construct x tail) W = do {
     M \<leftarrow> ra_access t (Rb_slot (rw_element_at W tail)) (rw_mem W);
     m \<leftarrow> slot_construct ty (rw_element_at W tail) x (rw_storage W);
     Some ([], Sp_push_store x tail, W\<lparr>rw_storage := m, rw_mem := M\<rparr>)
   }"
| "rw_step ty t n (Sp_push_store x tail) W = do {
     M \<leftarrow> ra_store Release t Rb_tail (rw_next W tail) (rw_mem W);
     Some ([Sent x], Sp_idle, W\<lparr>rw_mem := M\<rparr>)
   }"
| "rw_step ty t n Sp_pop_head W =
     (let r = ra_load Relaxed t Rb_head n (rw_mem W) in Some ([], Sp_pop_tail (fst r), W\<lparr>rw_mem := snd r\<rparr>))"
| "rw_step ty t n (Sp_pop_tail head) W =
     (let r = ra_load Acquire t Rb_tail n (rw_mem W); W' = W\<lparr>rw_mem := snd r\<rparr> in
      Some (if head = fst r then ([Pop_failed], Sp_idle, W') else ([], Sp_pop_move head, W')))"
| "rw_step ty t n (Sp_pop_move head) W = do {
     M \<leftarrow> ra_access t (Rb_slot (rw_element_at W head)) (rw_mem W);
     (x, m) \<leftarrow> slot_move ty (rw_element_at W head) (rw_storage W);
     Some ([], Sp_pop_destroy head x, W\<lparr>rw_storage := m, rw_mem := M\<rparr>)
   }"
| "rw_step ty t n (Sp_pop_destroy head x) W = do {
     M \<leftarrow> ra_access t (Rb_slot (rw_element_at W head)) (rw_mem W);
     m \<leftarrow> slot_destroy ty (rw_element_at W head) (rw_storage W);
     Some ([], Sp_pop_store head x, W\<lparr>rw_storage := m, rw_mem := M\<rparr>)
   }"
| "rw_step ty t n (Sp_pop_store head x) W = do {
     M \<leftarrow> ra_store Release t Rb_head (rw_next W head) (rw_mem W);
     Some ([Received x], Sp_idle, W\<lparr>rw_mem := M\<rparr>)
   }"

fun rw_reads :: "'a sp_pc \<Rightarrow> rb_loc option" where
  "rw_reads (Sp_push_tail x) = Some Rb_tail"
| "rw_reads (Sp_push_head x tail) = Some Rb_head"
| "rw_reads Sp_pop_head = Some Rb_head"
| "rw_reads (Sp_pop_tail head) = Some Rb_tail"
| "rw_reads pc = None"

definition rw_choice :: "nat \<Rightarrow> nat \<Rightarrow> 'a sp_pc \<Rightarrow> 'a rb_weak \<Rightarrow> bool" where
  "rw_choice t n pc W \<longleftrightarrow> (case rw_reads pc of None \<Rightarrow> True | Some l \<Rightarrow> ra_visible t l n (rw_mem W))"

definition rw_cap :: "'a rb_weak \<Rightarrow> nat" where
  "rw_cap W = unat (rw_storage_capacity W - 1)"

text \<open>Thread 0 is the producer, thread 1 the consumer.\<close>

definition rw_credit :: "'a rb_weak \<Rightarrow> 'a rb_weak" where
  "rw_credit W = W\<lparr>rw_mem := (rw_mem W)\<lparr>mem_views := (mem_views (rw_mem W))
     (0 := view_join (mem_views (rw_mem W) 0) (mem_views (rw_mem W) 1))\<rparr>\<rparr>"

inductive rw_run :: "'a elem_type \<Rightarrow> 'a spsc \<Rightarrow> 'a channel_event list \<Rightarrow> 'a sp_pc \<Rightarrow> 'a sp_pc \<Rightarrow> 'a rb_weak \<Rightarrow> bool"
  for ty s0 where
  rw_begin: "rw_run ty s0 [] Sp_idle Sp_idle (rw_start s0)"
| rw_tell: "rw_run ty s0 log Sp_idle c W \<Longrightarrow> rw_run ty s0 log Sp_idle c (rw_credit W)"
| rw_call_push: "rw_run ty s0 log Sp_idle c W \<Longrightarrow> length (sent log) < mem_views (rw_mem W) 0 Rb_head + rw_cap W \<Longrightarrow>
    rw_run ty s0 log (Sp_push_tail x) c W"
| rw_call_pop: "rw_run ty s0 log p Sp_idle W \<Longrightarrow> rw_run ty s0 log p Sp_pop_head W"
| rw_producer: "rw_run ty s0 log p c W \<Longrightarrow> rw_choice 0 n p W \<Longrightarrow> rw_step ty 0 n p W = Some (es, p', W') \<Longrightarrow>
    rw_run ty s0 (log @ es) p' c W'"
| rw_consumer: "rw_run ty s0 log p c W \<Longrightarrow> rw_choice 1 n c W \<Longrightarrow> rw_step ty 1 n c W = Some (es, c', W') \<Longrightarrow>
    rw_run ty s0 (log @ es) p c' W'"

section \<open>The invariant\<close>

definition rw_newest :: "'a rb_weak \<Rightarrow> 'a spsc" where
  "rw_newest W = \<lparr>sp_elem_size = rw_elem_size W, sp_storage_capacity = rw_storage_capacity W, sp_mask = rw_mask W,
     sp_head = ra_value (rw_mem W) Rb_head, sp_tail = ra_value (rw_mem W) Rb_tail, sp_storage = rw_storage W\<rparr>"

text \<open>The entries of the indices after \<open>q\<close> elements have been sent and \<open>k\<close> received.\<close>

definition rw_orders :: "nat \<Rightarrow> nat \<Rightarrow> nat \<Rightarrow> (rb_loc, usize) memory \<Rightarrow> bool" where
  "rw_orders q k C M \<longleftrightarrow>
     map (unat \<circ> msg_value) (mem_order M Rb_tail) = map (\<lambda>j. j mod C) [0..<Suc q] \<and>
     map (unat \<circ> msg_value) (mem_order M Rb_head) = map (\<lambda>j. j mod C) [0..<Suc k] \<and>
     mem_accesses M Rb_tail = 0 \<and> mem_accesses M Rb_head = 0 \<and> (\<forall>i. mem_order M (Rb_slot i) = [])"

text \<open>
  In each round a slot is accessed three times: construction, move, destruction. A view that
  has the entry \<open>j + 1\<close> of the tail has the construction of element \<open>j\<close>; one with the entry
  \<open>j + 1\<close> of the head has its destruction.
\<close>

definition rw_view_ok :: "nat \<Rightarrow> rb_loc view \<Rightarrow> bool" where
  "rw_view_ok C v \<longleftrightarrow> (\<forall>j < v Rb_tail. 3 * (j div C) + 1 \<le> v (Rb_slot (j mod C))) \<and>
     (\<forall>j < v Rb_head. 3 * (j div C) + 3 \<le> v (Rb_slot (j mod C)))"

definition rw_synced :: "nat \<Rightarrow> (rb_loc, usize) memory \<Rightarrow> bool" where
  "rw_synced C M \<longleftrightarrow> ra_wf M \<and> (\<forall>v \<in> ra_views M. rw_view_ok C v)"

fun rw_producing :: "'a sp_pc \<Rightarrow> nat" where
  "rw_producing (Sp_push_store x tail) = 1"
| "rw_producing pc = 0"

fun rw_consuming :: "'a sp_pc \<Rightarrow> nat" where
  "rw_consuming (Sp_pop_destroy head x) = 1"
| "rw_consuming (Sp_pop_store head x) = 2"
| "rw_consuming pc = 0"

definition rw_counts :: "nat \<Rightarrow> nat \<Rightarrow> nat \<Rightarrow> nat \<Rightarrow> nat \<Rightarrow> (rb_loc, usize) memory \<Rightarrow> bool" where
  "rw_counts q k C np nc M \<longleftrightarrow>
     (\<forall>j. k \<le> j \<longrightarrow> j < q \<longrightarrow> mem_accesses M (Rb_slot (j mod C)) = 3 * (j div C) + 1 + (if j = k then nc else 0)) \<and>
     (\<forall>j. q \<le> j \<longrightarrow> j < k + C \<longrightarrow> mem_accesses M (Rb_slot (j mod C)) = 3 * (j div C) + (if j = q then np else 0))"

definition rw_producer_knows :: "nat \<Rightarrow> nat \<Rightarrow> 'a sp_pc \<Rightarrow> rb_loc view \<Rightarrow> bool" where
  "rw_producer_knows q C p v \<longleftrightarrow> v Rb_tail = q \<and> (p \<noteq> Sp_idle \<longrightarrow> q < v Rb_head + (C - 1)) \<and>
     (rw_producing p = 1 \<longrightarrow> 3 * (q div C) + 1 \<le> v (Rb_slot (q mod C)))"

definition rw_consumer_knows :: "nat \<Rightarrow> nat \<Rightarrow> 'a sp_pc \<Rightarrow> rb_loc view \<Rightarrow> bool" where
  "rw_consumer_knows k C c v \<longleftrightarrow> v Rb_head = k \<and> k \<le> v Rb_tail \<and>
     (sp_slot c \<noteq> {} \<longrightarrow> k < v Rb_tail \<and> 3 * (k div C) + 1 + rw_consuming c \<le> v (Rb_slot (k mod C)))"

definition rw_inv :: "'a elem_type \<Rightarrow> 'a channel_event list \<Rightarrow> 'a sp_pc \<Rightarrow> 'a sp_pc \<Rightarrow> 'a rb_weak \<Rightarrow> bool" where
  "rw_inv ty log p c W \<longleftrightarrow>
     (let q = length (sent log); k = length (received log); C = unat (rw_storage_capacity W); M = rw_mem W in
      sp_inv ty log p c (rw_newest W) \<and> rw_orders q k C M \<and> rw_synced C M \<and>
      rw_counts q k C (rw_producing p) (rw_consuming c) M \<and>
      rw_producer_knows q C p (mem_views M 0) \<and> rw_consumer_knows k C c (mem_views M 1))"

section \<open>Views\<close>

lemma rw_view_join: "rw_view_ok C v \<Longrightarrow> rw_view_ok C w \<Longrightarrow> rw_view_ok C (view_join v w)"
  by (auto simp: rw_view_ok_def)

lemma rw_view_mono:
  assumes "rw_view_ok C v" "w Rb_tail = v Rb_tail" "w Rb_head = v Rb_head" "\<And>i. v (Rb_slot i) \<le> w (Rb_slot i)"
  shows "rw_view_ok C w"
  unfolding rw_view_ok_def assms(2,3)
proof (intro conjI allI impI)
  fix j
  show "3 * (j div C) + 1 \<le> w (Rb_slot (j mod C))" if "j < v Rb_tail"
    using assms(1,4) that unfolding rw_view_ok_def by (meson order_trans)
  show "3 * (j div C) + 3 \<le> w (Rb_slot (j mod C))" if "j < v Rb_head"
    using assms(1,4) that unfolding rw_view_ok_def by (meson order_trans)
qed

lemma rw_synced_acquire:
  assumes "rw_synced C M" "ra_visible t l n M" "l = Rb_head \<or> l = Rb_tail"
  shows "rw_synced C (snd (ra_load Acquire t l n M))"
proof -
  have wf: "ra_wf M" and ok: "\<And>v. v \<in> ra_views M \<Longrightarrow> rw_view_ok C v" using assms(1) by (auto simp: rw_synced_def)
  have n: "n < length (mem_order M l)" "mem_views M t l \<le> n" using assms(2) by (simp_all add: ra_visible_def)
  let ?m = "mem_order M l ! n"
  have m: "rw_view_ok C (msg_view ?m)" by (rule ok [OF ra_view_message [OF nth_mem [OF n(1)]]])
  have "view_join ((mem_views M t)(l := n)) (msg_view ?m) = view_join (mem_views M t) (msg_view ?m)"
    using ra_wfD(3) [OF wf n(1)] n(2) by (auto simp: view_join_def fun_eq_iff)
  then have "rw_view_ok C (ra_read Acquire ((mem_views M t)(l := n)) ?m)"
    using rw_view_join [OF ok m] by (simp add: ra_read_def)
  then show ?thesis
    using ra_load_views [of _ Acquire t l n M] ok ra_load_wf [OF wf assms(2)] by (auto simp: rw_synced_def)
qed

lemma rw_synced_access:
  assumes "rw_synced C M" "ra_access t (Rb_slot i) M = Some M'" "mem_order M (Rb_slot i) = []"
  shows "rw_synced C M'"
proof -
  have wf: "ra_wf M" and ok: "\<And>v. v \<in> ra_views M \<Longrightarrow> rw_view_ok C v" using assms(1) by (auto simp: rw_synced_def)
  have "mem_views M t (Rb_slot i) = mem_accesses M (Rb_slot i)" using assms(2) by (simp add: ra_access_def split: if_splits)
  then have "rw_view_ok C ((mem_views M t)(Rb_slot i := Suc (mem_accesses M (Rb_slot i))))"
    by (intro rw_view_mono [OF ok [OF ra_view_thread]]) auto
  then show ?thesis
    using ra_access_views [OF assms(2)] ok ra_access_wf [OF assms(2) wf assms(3)] by (auto simp: rw_synced_def)
qed

text \<open>The store of an index by a thread that has made the accesses for it.\<close>

lemma rw_synced_store:
  assumes "rw_synced C M" "ra_store Release t l x M = Some M'"
    and "rw_view_ok C ((mem_views M t)(l := length (mem_order M l)))"
  shows "rw_synced C M'"
  using assms ra_store_views [OF assms(2)] ra_store_wf [OF assms(2)] by (auto simp: rw_synced_def)

section \<open>Indices\<close>

lemma rw_newest_simps [simp]:
  "sp_storage_capacity (rw_newest W) = rw_storage_capacity W" "sp_mask (rw_newest W) = rw_mask W"
  "sp_head (rw_newest W) = ra_value (rw_mem W) Rb_head" "sp_tail (rw_newest W) = ra_value (rw_mem W) Rb_tail"
  "sp_storage (rw_newest W) = rw_storage W" "spsc_cap (rw_newest W) = rw_cap W"
  "spsc_capacity (rw_newest W) = rw_storage_capacity W - 1"
  "spsc_element_at (rw_newest W) i = rw_element_at W i" "spsc_next (rw_newest W) i = rw_next W i"
  by (simp_all add: rw_newest_def spsc_cap_def spsc_capacity_def rw_cap_def spsc_element_at_def rw_element_at_def
      spsc_next_def rw_next_def)

lemma rw_newest_storage: "rw_newest (W\<lparr>rw_storage := m\<rparr>) = (rw_newest W)\<lparr>sp_storage := m\<rparr>"
  by (simp add: rw_newest_def)

lemma rw_entries:
  assumes "rw_orders q k C M"
  shows "length (mem_order M Rb_tail) = Suc q" "length (mem_order M Rb_head) = Suc k"
    "j \<le> q \<Longrightarrow> unat (msg_value (mem_order M Rb_tail ! j)) = j mod C" "j \<le> k \<Longrightarrow> unat (msg_value (mem_order M Rb_head ! j)) = j mod C"
    "ra_newest M Rb_tail = q" "ra_newest M Rb_head = k" "ra_newest M (Rb_slot i) = mem_accesses M (Rb_slot i)"
proof -
  have t: "map (unat \<circ> msg_value) (mem_order M Rb_tail) = map (\<lambda>j. j mod C) [0..<Suc q]"
    and h: "map (unat \<circ> msg_value) (mem_order M Rb_head) = map (\<lambda>j. j mod C) [0..<Suc k]"
    using assms by (simp_all add: rw_orders_def)
  show lt: "length (mem_order M Rb_tail) = Suc q" and lh: "length (mem_order M Rb_head) = Suc k"
    using arg_cong [OF t, of length] arg_cong [OF h, of length] by simp_all
  show "unat (msg_value (mem_order M Rb_tail ! j)) = j mod C" if "j \<le> q"
    using arg_cong [OF t, of "\<lambda>xs. xs ! j"] that lt by (simp del: upt_Suc)
  show "unat (msg_value (mem_order M Rb_head ! j)) = j mod C" if "j \<le> k"
    using arg_cong [OF h, of "\<lambda>xs. xs ! j"] that lh by (simp del: upt_Suc)
  show "ra_newest M Rb_tail = q" "ra_newest M Rb_head = k" "ra_newest M (Rb_slot i) = mem_accesses M (Rb_slot i)"
    using assms lt lh by (simp_all add: ra_newest_def rw_orders_def)
qed

lemma rw_invE:
  assumes "rw_inv ty log p c W"
  obtains q k C M where "q = length (sent log)" "k = length (received log)" "C = unat (rw_storage_capacity W)" "M = rw_mem W"
    "sp_inv ty log p c (rw_newest W)" "rw_orders q k C M" "rw_synced C M"
    "rw_counts q k C (rw_producing p) (rw_consuming c) M"
    "rw_producer_knows q C p (mem_views M 0)" "rw_consumer_knows k C c (mem_views M 1)"
    "k \<le> q" "q < k + C" "Suc (rw_cap W) = C" "2 \<le> C"
    "unat (ra_value M Rb_head) = k mod C" "unat (ra_value M Rb_tail) = q mod C"
proof -
  have I: "sp_inv ty log p c (rw_newest W)" using assms by (simp add: rw_inv_def Let_def)
  note r = sp_repD [OF sp_invD(1) [OF I]]
  have "2 \<le> unat (rw_storage_capacity W)" using sp_invD(1) [OF I] by (simp add: sp_rep_def)
  then show ?thesis using that [OF refl refl refl refl] assms I r by (simp add: rw_inv_def Let_def)
qed

section \<open>Steps of the producer\<close>

lemma rw_push_tail:
  assumes I: "rw_inv ty log p c W" and p: "p = Sp_push_tail x" and choice: "rw_choice 0 n p W"
  shows "\<exists>es p' W'. rw_step ty 0 n p W = Some (es, p', W') \<and> rw_inv ty (log @ es) p' c W' \<and> Push_failed \<notin> set es"
proof -
  obtain q k C M where d: "q = length (sent log)" "k = length (received log)" "C = unat (rw_storage_capacity W)" "M = rw_mem W"
    and S: "sp_inv ty log p c (rw_newest W)" and O: "rw_orders q k C M" and Y: "rw_synced C M"
    and N: "rw_counts q k C (rw_producing p) (rw_consuming c) M"
    and P: "rw_producer_knows q C p (mem_views M 0)" and K: "rw_consumer_knows k C c (mem_views M 1)"
    using rw_invE [OF I] by metis
  note e = rw_entries [OF O]
  have "n = q" "mem_views M 0 Rb_tail = q"
    using choice p P e(1) d(4) by (auto simp: rw_choice_def ra_visible_def rw_producer_knows_def)
  then have step: "rw_step ty 0 n p W = Some ([], Sp_push_head x (ra_value M Rb_tail), W)"
    using p ra_load_again [of M 0 Rb_tail q] ra_value_entry [of M Rb_tail] e(1)
    by (cases "mem_order M Rb_tail = []") (simp_all add: d(4) [symmetric])
  have "sp_step ty p (rw_newest W) = Some ([], Sp_push_head x (ra_value M Rb_tail), rw_newest W)"
    using p d(4) by simp
  then have "sp_inv ty (log @ []) (Sp_push_head x (ra_value M Rb_tail)) c (rw_newest W)" using sp_inv_producer [OF S] by blast
  then have "rw_inv ty (log @ []) (Sp_push_head x (ra_value M Rb_tail)) c W"
    using O Y N P K p by (simp add: rw_inv_def Let_def d rw_producer_knows_def)
  then show ?thesis using step by auto
qed

lemma rw_push_head:
  assumes I: "rw_inv ty log p c W" and p: "p = Sp_push_head x tail" and choice: "rw_choice 0 n p W"
  shows "\<exists>es p' W'. rw_step ty 0 n p W = Some (es, p', W') \<and> rw_inv ty (log @ es) p' c W' \<and> Push_failed \<notin> set es"
proof -
  obtain q k C M where d: "q = length (sent log)" "k = length (received log)" "C = unat (rw_storage_capacity W)" "M = rw_mem W"
    and S: "sp_inv ty log p c (rw_newest W)" and O: "rw_orders q k C M" and Y: "rw_synced C M"
    and N: "rw_counts q k C (rw_producing p) (rw_consuming c) M"
    and P: "rw_producer_knows q C p (mem_views M 0)" and K: "rw_consumer_knows k C c (mem_views M 1)"
    and b: "k \<le> q" "Suc (rw_cap W) = C" "unat (ra_value M Rb_tail) = q mod C"
    using rw_invE [OF I] by metis
  note e = rw_entries [OF O] and A = sp_invD [OF S] and R = sp_repD [OF sp_invD(1) [OF S]]
  let ?M = "snd (ra_load Acquire 0 Rb_head n M)" and ?head = "fst (ra_load Acquire 0 Rb_head n M)"
  have vis: "ra_visible 0 Rb_head n M" using choice p d(4) by (simp add: rw_choice_def)
  then have n: "n \<le> k" "mem_views M 0 Rb_head \<le> n" using e(2) by (auto simp: ra_visible_def)
  have room: "q < n + rw_cap W" and own: "mem_views M 0 Rb_tail = q" using P n(2) b(2) p by (auto simp: rw_producer_knows_def)
  have tail: "tail = ra_value M Rb_tail" using A(2) p d(4) by simp
  have "spsc_distance tail ?head \<noteq> spsc_capacity (rw_newest W)"
    by (rule spsc_not_full [where h = n and q = q])
      (use R(1,3) b e(4) [OF n(1)] tail room n(1) d(3) in \<open>simp_all add: ra_load_value\<close>)
  then have step: "rw_step ty 0 n p W = Some ([], Sp_push_construct x tail, W\<lparr>rw_mem := ?M\<rparr>)"
    using p d(4) by (simp add: Let_def)
  have new: "rw_newest (W\<lparr>rw_mem := snd (ra_load Acquire 0 Rb_head n (rw_mem W))\<rparr>) = rw_newest W"
    by (simp add: rw_newest_def)
  have "sp_inv ty log (Sp_push_construct x tail) c (rw_newest W)"
    using S p by (simp add: sp_inv_def sp_rep_def)
  moreover have "rw_orders q k C ?M" "rw_synced C ?M" "rw_counts q k C 0 (rw_consuming c) ?M" "mem_views ?M 1 = mem_views M 1"
    using O N p rw_synced_acquire [OF Y vis] by (simp_all add: rw_orders_def rw_counts_def)
  moreover have "rw_producer_knows q C (Sp_push_construct x tail) (mem_views ?M 0)"
  proof -
    have wf: "ra_wf M" "ra_wf ?M" using Y rw_synced_acquire [OF Y vis] by (simp_all add: rw_synced_def)
    have "n < length (mem_order M Rb_head)" using vis by (simp add: ra_visible_def)
    from ra_load_view_self [OF wf(1) this] have "mem_views ?M 0 Rb_head = n" by simp
    moreover have "mem_views ?M 0 Rb_tail \<le> q" using ra_wfD(1) [OF wf(2), of 0 Rb_tail] e(5) by simp
    moreover have "q \<le> mem_views ?M 0 Rb_tail" using own by (simp add: ra_load_def ra_read_def Let_def)
    ultimately show ?thesis using room b(2) by (auto simp: rw_producer_knows_def)
  qed
  ultimately have "rw_inv ty (log @ []) (Sp_push_construct x tail) c (W\<lparr>rw_mem := ?M\<rparr>)"
    using K by (simp add: rw_inv_def Let_def d new)
  then show ?thesis using step by auto
qed

lemma rw_push_construct:
  assumes I: "rw_inv ty log p c W" and p: "p = Sp_push_construct x tail"
  shows "\<exists>es p' W'. rw_step ty 0 n p W = Some (es, p', W') \<and> rw_inv ty (log @ es) p' c W' \<and> Push_failed \<notin> set es"
proof -
  obtain q k C M where d: "q = length (sent log)" "k = length (received log)" "C = unat (rw_storage_capacity W)" "M = rw_mem W"
    and S: "sp_inv ty log p c (rw_newest W)" and O: "rw_orders q k C M" and Y: "rw_synced C M"
    and N: "rw_counts q k C (rw_producing p) (rw_consuming c) M"
    and P: "rw_producer_knows q C p (mem_views M 0)" and K: "rw_consumer_knows k C c (mem_views M 1)"
    and b: "k \<le> q" "q < k + C" "Suc (rw_cap W) = C" "unat (ra_value M Rb_tail) = q mod C"
    using rw_invE [OF I] by metis
  note e = rw_entries [OF O] and A = sp_invD [OF S]
  have tail: "tail = ra_value M Rb_tail" using A(2) p d(4) by simp
  have at: "rw_element_at W tail = q mod C" using sp_places(2) [OF A(1)] b(4) tail d(4) by simp
  have acc: "mem_accesses M (Rb_slot (q mod C)) = 3 * (q div C)" using N b(1,2) p by (simp add: rw_counts_def)
  have "3 * (q div C) \<le> mem_views M 0 (Rb_slot (q mod C))"
  proof (cases "q < C")
    case False
    have "q < mem_views M 0 Rb_head + (C - 1)" using P p by (simp add: rw_producer_knows_def)
    then have "q - C < mem_views M 0 Rb_head" using False b(3) by arith
    moreover have "rw_view_ok C (mem_views M 0)" using Y by (simp add: rw_synced_def)
    ultimately have "3 * ((q - C) div C) + 3 \<le> mem_views M 0 (Rb_slot ((q - C) mod C))" by (simp add: rw_view_ok_def)
    moreover have "(q - C) mod C = q mod C" using False by (simp add: le_mod_geq)
    moreover have "Suc ((q - C) div C) = q div C" using False b(3) by (simp add: le_div_geq)
    ultimately show ?thesis by simp
  qed simp
  moreover have "mem_views M 0 (Rb_slot (q mod C)) \<le> mem_accesses M (Rb_slot (q mod C))"
    using ra_wfD(1) [of M 0 "Rb_slot (q mod C)"] Y e(7) by (simp add: rw_synced_def)
  ultimately have "mem_views M 0 (Rb_slot (q mod C)) = mem_accesses M (Rb_slot (q mod C))" using acc by simp
  then obtain M' where M': "ra_access 0 (Rb_slot (q mod C)) M = Some M'" by (simp add: ra_access_def)
  note f = ra_access_frame [OF M']
  obtain m where m: "slot_construct ty (q mod C) x (rw_storage W) = Some m"
    using sp_producer_step [OF A(1-3)] p at by (auto split: bind_splits)
  let ?W = "W\<lparr>rw_storage := m, rw_mem := M'\<rparr>"
  have new: "rw_newest ?W = (rw_newest W)\<lparr>sp_storage := m\<rparr>" by (simp add: rw_newest_def f(2) d(4))
  have "sp_step ty p (rw_newest W) = Some ([], Sp_push_store x tail, rw_newest ?W)" using p at m new by simp
  then have "sp_inv ty (log @ []) (Sp_push_store x tail) c (rw_newest ?W)" using sp_inv_producer [OF S] by blast
  moreover have "rw_orders q k C M'" using O f(1,3) by (simp add: rw_orders_def)
  moreover have "rw_synced C M'" using rw_synced_access [OF Y M'] O by (simp add: rw_orders_def)
  moreover have "rw_counts q k C 1 (rw_consuming c) M'"
    unfolding rw_counts_def f(3)
  proof (intro conjI allI impI)
    fix j
    assume j: "k \<le> j" "j < q"
    then have "j mod C \<noteq> q mod C" using same_place [of j q C] b(2) by auto
    then show "((mem_accesses M)(Rb_slot (q mod C) := Suc (mem_accesses M (Rb_slot (q mod C))))) (Rb_slot (j mod C)) =
        3 * (j div C) + 1 + (if j = k then rw_consuming c else 0)"
      using N j by (simp add: rw_counts_def)
  next
    fix j
    assume j: "q \<le> j" "j < k + C"
    then have "j mod C \<noteq> q mod C" if "j \<noteq> q" using same_place [of q j C] b(1) that by auto
    then show "((mem_accesses M)(Rb_slot (q mod C) := Suc (mem_accesses M (Rb_slot (q mod C))))) (Rb_slot (j mod C)) =
        3 * (j div C) + (if j = q then 1 else 0)"
      using N j p acc by (simp add: rw_counts_def)
  qed
  moreover have "rw_producer_knows q C (Sp_push_store x tail) (mem_views M' 0)"
    using P p acc by (simp add: rw_producer_knows_def f(5))
  moreover have "mem_views M' 1 = mem_views M 1" using f(4) by simp
  ultimately have "rw_inv ty (log @ []) (Sp_push_store x tail) c ?W"
    using K by (simp add: rw_inv_def Let_def d)
  then show ?thesis using p at m M' d(4) by auto
qed

lemma rw_push_store:
  assumes I: "rw_inv ty log p c W" and p: "p = Sp_push_store x tail"
  shows "\<exists>es p' W'. rw_step ty 0 n p W = Some (es, p', W') \<and> rw_inv ty (log @ es) p' c W' \<and> Push_failed \<notin> set es"
proof -
  obtain q k C M where d: "q = length (sent log)" "k = length (received log)" "C = unat (rw_storage_capacity W)" "M = rw_mem W"
    and S: "sp_inv ty log p c (rw_newest W)" and O: "rw_orders q k C M" and Y: "rw_synced C M"
    and N: "rw_counts q k C (rw_producing p) (rw_consuming c) M"
    and P: "rw_producer_knows q C p (mem_views M 0)" and K: "rw_consumer_knows k C c (mem_views M 1)"
    and b: "k \<le> q" "q < k + C" "Suc (rw_cap W) = C" "2 \<le> C" "unat (ra_value M Rb_head) = k mod C" "unat (ra_value M Rb_tail) = q mod C"
    using rw_invE [OF I] by metis
  note e = rw_entries [OF O] and A = sp_invD [OF S]
  have tail: "tail = ra_value M Rb_tail" using A(2) p d(4) by simp
  have own: "mem_views M 0 Rb_tail = q" using P by (simp add: rw_producer_knows_def)
  obtain M' where M': "ra_store Release 0 Rb_tail (rw_next W tail) M = Some M'"
    using e(1) own by (simp add: ra_store_def Let_def)
  note f = ra_store_frame [OF M']
  let ?W = "W\<lparr>rw_mem := M'\<rparr>"
  have new: "rw_newest ?W = (rw_newest W)\<lparr>sp_tail := rw_next W tail\<rparr>" using f(2,4) by (simp add: rw_newest_def d(4))
  have "sp_step ty p (rw_newest W) = Some ([Sent x], Sp_idle, rw_newest ?W)" using p new by simp
  then have "sp_inv ty (log @ [Sent x]) Sp_idle c (rw_newest ?W)" using sp_inv_producer [OF S] by blast
  moreover have "unat (rw_next W tail) = Suc q mod C" using sp_places(4) [OF A(1)] tail d by simp
  then have "map (unat \<circ> msg_value) (mem_order M' Rb_tail) = map (\<lambda>j. j mod C) [0..<Suc q] @ [Suc q mod C]"
    using O unfolding map_map [symmetric] ra_store_values [OF M'] by (simp add: rw_orders_def)
  then have "rw_orders (Suc q) k C M'" using O f(3,5) by (simp add: rw_orders_def)
  moreover have "rw_synced C M'"
  proof (rule rw_synced_store [OF Y M'])
    have "rw_view_ok C (mem_views M 0)" using Y by (simp add: rw_synced_def)
    then show "rw_view_ok C ((mem_views M 0)(Rb_tail := length (mem_order M Rb_tail)))"
      using P p own e(1) by (auto simp: rw_view_ok_def rw_producer_knows_def less_Suc_eq)
  qed
  moreover have "rw_counts (Suc q) k C 0 (rw_consuming c) M'"
  proof -
    have "rw_consuming c = 0" if "k = q" using A(3) that d by (cases c) auto
    then show ?thesis using N p b(2) by (auto simp: rw_counts_def f(5) less_Suc_eq Suc_le_eq)
  qed
  moreover have "rw_producer_knows (Suc q) C Sp_idle (mem_views M' 0)" using e(1) by (simp add: rw_producer_knows_def f(7))
  moreover have "mem_views M' 1 = mem_views M 1" using f(6) by simp
  ultimately have "rw_inv ty (log @ [Sent x]) Sp_idle c ?W"
    using K by (simp add: rw_inv_def Let_def d)
  then show ?thesis using p M' d(4) by auto
qed

section \<open>Steps of the consumer\<close>

lemma rw_pop_head:
  assumes I: "rw_inv ty log p c W" and c: "c = Sp_pop_head" and choice: "rw_choice 1 n c W"
  shows "\<exists>es c' W'. rw_step ty 1 n c W = Some (es, c', W') \<and> rw_inv ty (log @ es) p c' W'"
proof -
  obtain q k C M where d: "q = length (sent log)" "k = length (received log)" "C = unat (rw_storage_capacity W)" "M = rw_mem W"
    and S: "sp_inv ty log p c (rw_newest W)" and O: "rw_orders q k C M" and Y: "rw_synced C M"
    and N: "rw_counts q k C (rw_producing p) (rw_consuming c) M"
    and P: "rw_producer_knows q C p (mem_views M 0)" and K: "rw_consumer_knows k C c (mem_views M 1)"
    and b: "k \<le> q" "q < k + C" "Suc (rw_cap W) = C" "2 \<le> C" "unat (ra_value M Rb_head) = k mod C" "unat (ra_value M Rb_tail) = q mod C"
    using rw_invE [OF I] by metis
  note e = rw_entries [OF O]
  have "n = k" "mem_views M 1 Rb_head = k"
    using choice c K e(2) d(4) by (auto simp: rw_choice_def ra_visible_def rw_consumer_knows_def)
  then have step: "rw_step ty 1 n c W = Some ([], Sp_pop_tail (ra_value M Rb_head), W)"
    using c ra_load_again [of M 1 Rb_head k] ra_value_entry [of M Rb_head] e(2)
    by (cases "mem_order M Rb_head = []") (simp_all add: d(4) [symmetric])
  have "sp_step ty c (rw_newest W) = Some ([], Sp_pop_tail (ra_value M Rb_head), rw_newest W)"
    using c d(4) by simp
  then have "sp_inv ty (log @ []) p (Sp_pop_tail (ra_value M Rb_head)) (rw_newest W)" using sp_inv_consumer [OF S] by blast
  then have "rw_inv ty (log @ []) p (Sp_pop_tail (ra_value M Rb_head)) W"
    using O Y N P K c by (simp add: rw_inv_def Let_def d rw_consumer_knows_def)
  then show ?thesis using step by auto
qed

lemma rw_pop_tail:
  assumes I: "rw_inv ty log p c W" and c: "c = Sp_pop_tail head" and choice: "rw_choice 1 n c W"
  shows "\<exists>es c' W'. rw_step ty 1 n c W = Some (es, c', W') \<and> rw_inv ty (log @ es) p c' W'"
proof -
  obtain q k C M where d: "q = length (sent log)" "k = length (received log)" "C = unat (rw_storage_capacity W)" "M = rw_mem W"
    and S: "sp_inv ty log p c (rw_newest W)" and O: "rw_orders q k C M" and Y: "rw_synced C M"
    and N: "rw_counts q k C (rw_producing p) (rw_consuming c) M"
    and P: "rw_producer_knows q C p (mem_views M 0)" and K: "rw_consumer_knows k C c (mem_views M 1)"
    and b: "k \<le> q" "q < k + C" "Suc (rw_cap W) = C" "2 \<le> C" "unat (ra_value M Rb_head) = k mod C" "unat (ra_value M Rb_tail) = q mod C"
    using rw_invE [OF I] by metis
  note e = rw_entries [OF O] and A = sp_invD [OF S]
  let ?r = "ra_load Acquire 1 Rb_tail n (rw_mem W)"
  have vis: "ra_visible 1 Rb_tail n (rw_mem W)" using choice c by (simp add: rw_choice_def)
  then have n: "n \<le> q" "mem_views M 1 Rb_tail \<le> n" using e(1) d(4) by (auto simp: ra_visible_def)
  have head: "head = ra_value M Rb_head" using A(3) c d(4) by simp
  have val: "unat (fst ?r) = n mod C" using e(3) [OF n(1)] d(4) by (simp add: ra_load_value)
  have k: "k \<le> n" using K n(2) by (simp add: rw_consumer_knows_def)
  have more: "k < n" if "head \<noteq> fst ?r"
  proof (rule ccontr)
    assume "\<not> k < n"
    then have "unat head = unat (fst ?r)" using k head b(5) val by simp
    then show False using that by (simp add: word_unat_eq_iff)
  qed
  have new: "rw_newest (W\<lparr>rw_mem := snd ?r\<rparr>) = rw_newest W" by (simp add: rw_newest_def)
  have wf: "ra_wf M" using Y by (simp add: rw_synced_def)
  have sync: "rw_synced C (snd ?r)" using rw_synced_acquire [OF Y] vis d(4) by simp
  have view: "mem_views (snd ?r) 1 Rb_tail = n" using ra_load_view_self [OF wf] vis d(4) by (simp add: ra_visible_def)
  have own: "mem_views (snd ?r) 1 Rb_head = k"
  proof -
    have "mem_views (snd ?r) 1 Rb_head \<le> k" using ra_wfD(1) [of "snd ?r" 1 Rb_head] sync e(6) d(4) by (simp add: rw_synced_def)
    moreover have "k \<le> mem_views (snd ?r) 1 Rb_head"
      using K d(4) by (simp add: ra_load_def ra_read_def Let_def rw_consumer_knows_def)
    ultimately show ?thesis by simp
  qed
  have mem: "rw_orders q k C (snd ?r)" "rw_counts q k C (rw_producing p) 0 (snd ?r)" "mem_views (snd ?r) 0 = mem_views M 0"
    using O N c d(4) by (simp_all add: rw_orders_def rw_counts_def)
  have final: "rw_inv ty (log @ es) p c' (W\<lparr>rw_mem := snd ?r\<rparr>)"
    if "sp_inv ty (log @ es) p c' (rw_newest W)" "sent es = []" "received es = []" "rw_consuming c' = 0"
      "sp_slot c' \<noteq> {} \<Longrightarrow> k < n" for es c'
  proof -
    have "rw_consumer_knows k C c' (mem_views (snd ?r) 1)"
      using that(4,5) view own k sync by (auto simp: rw_consumer_knows_def rw_synced_def rw_view_ok_def)
    then show ?thesis using that mem sync P by (simp add: rw_inv_def Let_def d new del: One_nat_def)
  qed
  show ?thesis
  proof (cases "head = fst ?r")
    case True
    have "sp_inv ty (log @ [Pop_failed]) p Sp_idle (rw_newest W)" using S c by (simp add: sp_inv_def sp_rep_def)
    from final [OF this] show ?thesis using c True by (simp add: Let_def)
  next
    case False
    then have "sp_inv ty (log @ []) p (Sp_pop_move head) (rw_newest W)"
      using S c more n(1) d by (simp add: sp_inv_def sp_rep_def)
    from final [OF this] show ?thesis using c False more by (simp add: Let_def)
  qed
qed

text \<open>The move and the destruction of the element.\<close>

lemma rw_pop_access:
  assumes I: "rw_inv ty log p c W" and c: "sp_slot c \<noteq> {}" "rw_consuming c' = Suc (rw_consuming c)" "sp_slot c' \<noteq> {}"
    and J: "sp_inv ty log p c' (rw_newest (W\<lparr>rw_storage := m\<rparr>))"
  shows "\<exists>M'. ra_access 1 (Rb_slot (length (received log) mod unat (rw_storage_capacity W))) (rw_mem W) = Some M' \<and>
    rw_inv ty (log @ []) p c' (W\<lparr>rw_storage := m, rw_mem := M'\<rparr>)"
proof -
  obtain q k C M where d: "q = length (sent log)" "k = length (received log)" "C = unat (rw_storage_capacity W)" "M = rw_mem W"
    and S: "sp_inv ty log p c (rw_newest W)" and O: "rw_orders q k C M" and Y: "rw_synced C M"
    and N: "rw_counts q k C (rw_producing p) (rw_consuming c) M"
    and P: "rw_producer_knows q C p (mem_views M 0)" and K: "rw_consumer_knows k C c (mem_views M 1)"
    and b: "k \<le> q" "q < k + C" "Suc (rw_cap W) = C" "2 \<le> C" "unat (ra_value M Rb_head) = k mod C" "unat (ra_value M Rb_tail) = q mod C"
    using rw_invE [OF I] by metis
  note e = rw_entries [OF O]
  let ?i = "k mod C"
  have less: "k < q" using sp_invD(3) [OF S] c(1) d by (cases c) auto
  have acc: "mem_accesses M (Rb_slot ?i) = 3 * (k div C) + 1 + rw_consuming c" using N less by (simp add: rw_counts_def)
  moreover have "3 * (k div C) + 1 + rw_consuming c \<le> mem_views M 1 (Rb_slot ?i)" using K c(1) by (simp add: rw_consumer_knows_def)
  moreover have "mem_views M 1 (Rb_slot ?i) \<le> mem_accesses M (Rb_slot ?i)"
    using ra_wfD(1) [of M 1 "Rb_slot ?i"] Y e(7) by (simp add: rw_synced_def)
  ultimately have "mem_views M 1 (Rb_slot ?i) = mem_accesses M (Rb_slot ?i)" by simp
  then obtain M' where M': "ra_access 1 (Rb_slot ?i) M = Some M'" by (simp add: ra_access_def)
  note f = ra_access_frame [OF M']
  have "rw_newest (W\<lparr>rw_storage := m, rw_mem := M'\<rparr>) = rw_newest (W\<lparr>rw_storage := m\<rparr>)" by (simp add: rw_newest_def f(2) d(4))
  then have J': "sp_inv ty log p c' (rw_newest (W\<lparr>rw_storage := m, rw_mem := M'\<rparr>))" using J by simp
  have "rw_orders q k C M'" using O f(1,3) by (simp add: rw_orders_def)
  moreover have "rw_synced C M'" using rw_synced_access [OF Y M'] O by (simp add: rw_orders_def)
  moreover have "rw_counts q k C (rw_producing p) (rw_consuming c') M'"
  proof -
    have "Rb_slot (j mod C) \<noteq> Rb_slot ?i" if "k < j" "j < k + C" for j using same_place [of k j C] that by auto
    then have other: "mem_accesses M' (Rb_slot (j mod C)) = mem_accesses M (Rb_slot (j mod C))" if "k < j" "j < k + C" for j
      using that by (simp add: f(3))
    have own: "mem_accesses M' (Rb_slot ?i) = 3 * (k div C) + 1 + rw_consuming c'" using acc c(2) by (simp add: f(3))
    show ?thesis
      unfolding rw_counts_def
    proof (intro conjI allI impI)
      fix j
      assume "k \<le> j" "j < q"
      then show "mem_accesses M' (Rb_slot (j mod C)) = 3 * (j div C) + 1 + (if j = k then rw_consuming c' else 0)"
        using own other [of j] N b(2) by (cases "j = k") (simp_all add: rw_counts_def)
    next
      fix j
      assume "q \<le> j" "j < k + C"
      then show "mem_accesses M' (Rb_slot (j mod C)) = 3 * (j div C) + (if j = q then rw_producing p else 0)"
        using other [of j] N less by (simp add: rw_counts_def)
    qed
  qed
  moreover have "rw_consumer_knows k C c' (mem_views M' 1)"
    using K c acc by (simp add: rw_consumer_knows_def f(5) del: One_nat_def)
  moreover have "mem_views M' 0 = mem_views M 0" using f(4) by simp
  ultimately have "rw_inv ty log p c' (W\<lparr>rw_storage := m, rw_mem := M'\<rparr>)"
    using P J' by (simp add: rw_inv_def Let_def d)
  then show ?thesis using M' d by simp
qed

lemma rw_pop_slot:
  assumes I: "rw_inv ty log p c W" and c: "sp_slot c \<noteq> {}"
  shows "rw_element_at W (ra_value (rw_mem W) Rb_head) = length (received log) mod unat (rw_storage_capacity W)"
proof -
  obtain q k C M where d: "q = length (sent log)" "k = length (received log)" "C = unat (rw_storage_capacity W)" "M = rw_mem W"
    and S: "sp_inv ty log p c (rw_newest W)" and O: "rw_orders q k C M" and Y: "rw_synced C M"
    and N: "rw_counts q k C (rw_producing p) (rw_consuming c) M"
    and P: "rw_producer_knows q C p (mem_views M 0)" and K: "rw_consumer_knows k C c (mem_views M 1)"
    and b: "k \<le> q" "q < k + C" "Suc (rw_cap W) = C" "2 \<le> C" "unat (ra_value M Rb_head) = k mod C" "unat (ra_value M Rb_tail) = q mod C"
    using rw_invE [OF I] by metis
  show ?thesis using sp_places(1) [OF sp_invD(1) [OF S]] b(5) d by simp
qed

lemma rw_pop_move:
  assumes I: "rw_inv ty log p c W" and c: "c = Sp_pop_move head"
  shows "\<exists>es c' W'. rw_step ty 1 n c W = Some (es, c', W') \<and> rw_inv ty (log @ es) p c' W'"
proof -
  have S: "sp_inv ty log p c (rw_newest W)" using I by (simp add: rw_inv_def Let_def)
  note A = sp_invD [OF S]
  have head: "head = ra_value (rw_mem W) Rb_head" using A(3) c by simp
  note slot = rw_pop_slot [OF I, unfolded head [symmetric]]
  obtain x m where m: "slot_move ty (rw_element_at W head) (rw_storage W) = Some (x, m)"
    using sp_consumer_step [OF A(1-3)] c by (auto split: bind_splits)
  have "sp_step ty c (rw_newest W) = Some ([], Sp_pop_destroy head x, rw_newest (W\<lparr>rw_storage := m\<rparr>))"
    using c m by (simp add: rw_newest_storage)
  then have "sp_inv ty (log @ []) p (Sp_pop_destroy head x) (rw_newest (W\<lparr>rw_storage := m\<rparr>))" using sp_inv_consumer [OF S] by blast
  from rw_pop_access [OF I _ _ _ this [unfolded append_Nil2]] slot show ?thesis using c m by auto
qed

lemma rw_pop_destroy:
  assumes I: "rw_inv ty log p c W" and c: "c = Sp_pop_destroy head x"
  shows "\<exists>es c' W'. rw_step ty 1 n c W = Some (es, c', W') \<and> rw_inv ty (log @ es) p c' W'"
proof -
  have S: "sp_inv ty log p c (rw_newest W)" using I by (simp add: rw_inv_def Let_def)
  note A = sp_invD [OF S]
  have head: "head = ra_value (rw_mem W) Rb_head" using A(3) c by simp
  note slot = rw_pop_slot [OF I, unfolded head [symmetric]]
  obtain m where m: "slot_destroy ty (rw_element_at W head) (rw_storage W) = Some m"
    using sp_consumer_step [OF A(1-3)] c by (auto split: bind_splits)
  have "sp_step ty c (rw_newest W) = Some ([], Sp_pop_store head x, rw_newest (W\<lparr>rw_storage := m\<rparr>))"
    using c m by (simp add: rw_newest_storage)
  then have "sp_inv ty (log @ []) p (Sp_pop_store head x) (rw_newest (W\<lparr>rw_storage := m\<rparr>))" using sp_inv_consumer [OF S] by blast
  from rw_pop_access [OF I _ _ _ this [unfolded append_Nil2]] slot show ?thesis using c m by auto
qed

lemma rw_pop_store:
  assumes I: "rw_inv ty log p c W" and c: "c = Sp_pop_store head x"
  shows "\<exists>es c' W'. rw_step ty 1 n c W = Some (es, c', W') \<and> rw_inv ty (log @ es) p c' W'"
proof -
  obtain q k C M where d: "q = length (sent log)" "k = length (received log)" "C = unat (rw_storage_capacity W)" "M = rw_mem W"
    and S: "sp_inv ty log p c (rw_newest W)" and O: "rw_orders q k C M" and Y: "rw_synced C M"
    and N: "rw_counts q k C (rw_producing p) (rw_consuming c) M"
    and P: "rw_producer_knows q C p (mem_views M 0)" and K: "rw_consumer_knows k C c (mem_views M 1)"
    and b: "k \<le> q" "q < k + C" "Suc (rw_cap W) = C" "2 \<le> C" "unat (ra_value M Rb_head) = k mod C" "unat (ra_value M Rb_tail) = q mod C"
    using rw_invE [OF I] by metis
  note e = rw_entries [OF O] and A = sp_invD [OF S]
  have head: "head = ra_value M Rb_head" using A(3) c d(4) by simp
  have less: "k < q" using A(3) c d by simp
  have own: "mem_views M 1 Rb_head = k" using K by (simp add: rw_consumer_knows_def)
  obtain M' where M': "ra_store Release 1 Rb_head (rw_next W head) M = Some M'"
    using e(2) own by (simp add: ra_store_def Let_def)
  note f = ra_store_frame [OF M']
  let ?W = "W\<lparr>rw_mem := M'\<rparr>"
  have new: "rw_newest ?W = (rw_newest W)\<lparr>sp_head := rw_next W head\<rparr>" using f(2,4) by (simp add: rw_newest_def d(4))
  have "sp_step ty c (rw_newest W) = Some ([Received x], Sp_idle, rw_newest ?W)" using c new by simp
  then have "sp_inv ty (log @ [Received x]) p Sp_idle (rw_newest ?W)" using sp_inv_consumer [OF S] by blast
  moreover have "unat (rw_next W head) = Suc k mod C" using sp_places(3) [OF A(1)] head d by simp
  then have "map (unat \<circ> msg_value) (mem_order M' Rb_head) = map (\<lambda>j. j mod C) [0..<Suc k] @ [Suc k mod C]"
    using O unfolding map_map [symmetric] ra_store_values [OF M'] by (simp add: rw_orders_def)
  then have "rw_orders q (Suc k) C M'" using O f(3,5) by (simp add: rw_orders_def)
  moreover have "rw_synced C M'"
  proof (rule rw_synced_store [OF Y M'])
    have "rw_view_ok C (mem_views M 1)" using Y by (simp add: rw_synced_def)
    then show "rw_view_ok C ((mem_views M 1)(Rb_head := length (mem_order M Rb_head)))"
      using K c own e(2) by (auto simp: rw_view_ok_def rw_consumer_knows_def less_Suc_eq)
  qed
  moreover have "rw_counts q (Suc k) C (rw_producing p) 0 M'"
    unfolding rw_counts_def f(5)
  proof (intro conjI allI impI)
    fix j
    assume "Suc k \<le> j" "j < q"
    then show "mem_accesses M (Rb_slot (j mod C)) = 3 * (j div C) + 1 + (if j = Suc k then 0 else 0)"
      using N by (simp add: rw_counts_def)
  next
    fix j
    assume j: "q \<le> j" "j < Suc k + C"
    show "mem_accesses M (Rb_slot (j mod C)) = 3 * (j div C) + (if j = q then rw_producing p else 0)"
    proof (cases "j = k + C")
      case True
      have "(k + C) div C = Suc (k div C)" using b(4) by (simp add: div_add_self2)
      then show ?thesis using True N less c b(2) by (simp add: rw_counts_def)
    qed (use N j in \<open>simp add: rw_counts_def\<close>)
  qed
  moreover have "rw_consumer_knows (Suc k) C Sp_idle (mem_views M' 1)" using e(2) K c by (simp add: rw_consumer_knows_def f(7) del: One_nat_def)
  moreover have "mem_views M' 0 = mem_views M 0" using f(6) by simp
  ultimately have "rw_inv ty (log @ [Received x]) p Sp_idle ?W"
    using P by (simp add: rw_inv_def Let_def d)
  then show ?thesis using c M' d(4) by auto
qed

section \<open>Runs\<close>

lemma rw_producer_step:
  assumes I: "rw_inv ty log p c W" and choice: "rw_choice 0 n p W"
  shows "\<exists>es p' W'. rw_step ty 0 n p W = Some (es, p', W') \<and> rw_inv ty (log @ es) p' c W' \<and> Push_failed \<notin> set es"
proof (cases p)
  case Sp_idle
  then show ?thesis using I by simp
next
  case (Sp_push_tail x)
  then show ?thesis using rw_push_tail [OF I _ choice] by blast
next
  case (Sp_push_head x tail)
  then show ?thesis using rw_push_head [OF I _ choice] by blast
next
  case (Sp_push_construct x tail)
  then show ?thesis using rw_push_construct [OF I] by blast
next
  case (Sp_push_store x tail)
  then show ?thesis using rw_push_store [OF I] by blast
qed (use I in \<open>simp_all add: rw_inv_def Let_def sp_inv_def\<close>)

lemma rw_consumer_step:
  assumes I: "rw_inv ty log p c W" and choice: "rw_choice 1 n c W"
  shows "\<exists>es c' W'. rw_step ty 1 n c W = Some (es, c', W') \<and> rw_inv ty (log @ es) p c' W'"
proof (cases c)
  case Sp_idle
  then show ?thesis using I by simp
next
  case Sp_pop_head
  then show ?thesis using rw_pop_head [OF I _ choice] by blast
next
  case (Sp_pop_tail head)
  then show ?thesis using rw_pop_tail [OF I _ choice] by blast
next
  case (Sp_pop_move head)
  then show ?thesis using rw_pop_move [OF I] by blast
next
  case (Sp_pop_destroy head x)
  then show ?thesis using rw_pop_destroy [OF I] by blast
next
  case (Sp_pop_store head x)
  then show ?thesis using rw_pop_store [OF I] by blast
qed (use I in \<open>simp_all add: rw_inv_def Let_def sp_inv_def\<close>)

lemma rw_step_capacity: "rw_step ty t n pc W = Some (es, pc', W') \<Longrightarrow> rw_storage_capacity W' = rw_storage_capacity W"
  by (cases pc) (auto simp: Let_def split: bind_splits if_splits)

lemma rw_credit_inv:
  assumes I: "rw_inv ty log Sp_idle c W"
  shows "rw_inv ty log Sp_idle c (rw_credit W)"
proof -
  obtain q k C M where d: "q = length (sent log)" "k = length (received log)" "C = unat (rw_storage_capacity W)" "M = rw_mem W"
    and S: "sp_inv ty log Sp_idle c (rw_newest W)" and O: "rw_orders q k C M" and Y: "rw_synced C M"
    and N: "rw_counts q k C (rw_producing (Sp_idle :: 'a sp_pc)) (rw_consuming c) M"
    and P: "rw_producer_knows q C (Sp_idle :: 'a sp_pc) (mem_views M 0)" and K: "rw_consumer_knows k C c (mem_views M 1)"
    and b: "k \<le> q" "q < k + C" "Suc (rw_cap W) = C" "2 \<le> C" "unat (ra_value M Rb_head) = k mod C" "unat (ra_value M Rb_tail) = q mod C"
    using rw_invE [OF I] by metis
  let ?M = "rw_mem (rw_credit W)"
  note e = rw_entries [OF O]
  have views: "v \<in> ra_views M \<or> v = view_join (mem_views M 0) (mem_views M 1)" if "v \<in> ra_views ?M" for v
    using that d(4) by (auto simp: rw_credit_def ra_views_def simp del: One_nat_def)
  have same: "mem_order ?M = mem_order M" "mem_accesses ?M = mem_accesses M" "mem_views ?M 1 = mem_views M 1"
    "mem_views ?M 0 = view_join (mem_views M 0) (mem_views M 1)"
    by (simp_all add: rw_credit_def d(4))
  have new: "rw_newest (rw_credit W) = rw_newest W" by (simp add: rw_newest_def rw_credit_def ra_value_def)
  have wf: "ra_wf M" and ok: "\<And>v. v \<in> ra_views M \<Longrightarrow> rw_view_ok C v" using Y by (auto simp: rw_synced_def)
  have "ra_newest ?M = ra_newest M" using same(1,2) by (simp add: ra_newest_def fun_eq_iff)
  then have "ra_wf ?M" using wf views same(1) ra_wfD(1) [OF wf] by (fastforce simp: ra_wf_def)
  then have sync: "rw_synced C ?M" using views ok rw_view_join by (fastforce simp: rw_synced_def)
  have "mem_views M 1 Rb_tail \<le> q" using ra_wfD(1) [OF wf, of 1 Rb_tail] e(5) by simp
  then have "rw_producer_knows q C (Sp_idle :: 'a sp_pc) (mem_views ?M 0)"
    using P unfolding same(4) by (simp add: rw_producer_knows_def view_join_def)
  moreover have "rw_orders q k C ?M" "rw_counts q k C (rw_producing (Sp_idle :: 'a sp_pc)) (rw_consuming c) ?M"
    using O N same(1,2) by (simp_all add: rw_orders_def rw_counts_def)
  moreover have "rw_storage_capacity (rw_credit W) = rw_storage_capacity W" by (simp add: rw_credit_def)
  ultimately show ?thesis using sync S K same(3) unfolding rw_inv_def Let_def new d by simp
qed

lemma rw_start_inv:
  assumes "sp_rep ty [] 0 Sp_idle Sp_idle s"
  shows "rw_inv ty [] Sp_idle Sp_idle (rw_start s)"
proof -
  let ?C = "unat (sp_storage_capacity s)" and ?M = "rw_mem (rw_start s)"
  have "rw_newest (rw_start s) = s" by (simp add: rw_newest_def rw_start_def ra_value_def ra_init_def)
  moreover have "sp_inv ty [] Sp_idle Sp_idle s" using assms by (simp add: sp_inv_def)
  moreover have "rw_orders 0 0 ?C ?M" using sp_repD(6,7) [OF assms] by (simp add: rw_orders_def rw_start_def ra_init_def)
  moreover have "rw_synced ?C ?M"
    by (auto simp: rw_synced_def rw_start_def rw_view_ok_def dest!: ra_views_init)
  moreover have "rw_counts 0 0 ?C 0 0 ?M" by (simp add: rw_counts_def rw_start_def ra_init_def)
  ultimately show ?thesis
    by (simp add: rw_inv_def Let_def rw_producer_knows_def rw_consumer_knows_def) (simp add: rw_start_def ra_init_def)
qed

lemma rw_run_inv:
  assumes "rw_run ty s0 log p c W" "sp_rep ty [] 0 Sp_idle Sp_idle s0"
  shows "rw_inv ty log p c W \<and> rw_storage_capacity W = sp_storage_capacity s0"
  using assms(1)
proof (induction rule: rw_run.induct)
  case rw_begin
  then show ?case using rw_start_inv [OF assms(2)] by (simp add: rw_start_def)
next
  case (rw_tell log c W)
  then show ?case using rw_credit_inv [of ty log c W] by (simp add: rw_credit_def)
next
  case (rw_call_push log c W x)
  then have I: "rw_inv ty log Sp_idle c W" by simp
  have S: "sp_inv ty log Sp_idle c (rw_newest W)" using I by (simp add: rw_inv_def Let_def)
  have "mem_views (rw_mem W) 0 Rb_head \<le> length (received log)"
    using rw_invE [OF I] by (metis ra_wfD(1) rw_entries(6) rw_synced_def)
  then have "length (sent log) < length (received log) + rw_cap W" using rw_call_push.hyps(2) by simp
  then have "sp_inv ty log (Sp_push_tail x) c (rw_newest W)"
    using S by (simp add: sp_inv_def sp_rep_def)
  moreover have "unat (rw_storage_capacity W) - 1 = rw_cap W" using rw_invE [OF I] by (metis diff_Suc_1)
  ultimately show ?case using rw_call_push by (auto simp: rw_inv_def Let_def rw_producer_knows_def)
next
  case (rw_call_pop log p W)
  then have I: "rw_inv ty log p Sp_idle W" by simp
  then have "sp_inv ty log p Sp_pop_head (rw_newest W)" by (simp add: rw_inv_def Let_def sp_inv_def sp_rep_def)
  then show ?case using rw_call_pop I by (simp add: rw_inv_def Let_def rw_consumer_knows_def)
next
  case (rw_producer log p c W n es p' W')
  then show ?case using rw_producer_step [of ty log p c W n] rw_step_capacity by fastforce
next
  case (rw_consumer log p c W n es c' W')
  then show ?case using rw_consumer_step [of ty log p c W n] rw_step_capacity by fastforce
qed

lemma rw_choice_exists:
  assumes "rw_inv ty log p c W"
  shows "\<exists>n. rw_choice t n pc W"
proof (cases "rw_reads pc")
  case (Some l)
  obtain q k C M where d: "M = rw_mem W" and O: "rw_orders q k C M" and Y: "rw_synced C M" using rw_invE [OF assms] by metis
  have l: "l = Rb_head \<or> l = Rb_tail" using Some by (cases pc) auto
  have "mem_views M t l \<le> ra_newest M l" using Y ra_wfD(1) by (auto simp: rw_synced_def)
  then have "ra_visible t l (ra_newest M l) M" using l rw_entries [OF O] by (auto simp: ra_visible_def)
  then show ?thesis using Some d by (auto simp: rw_choice_def)
qed (simp add: rw_choice_def)

section \<open>Properties\<close>

text \<open>
  C4. With the memory orders of the code, stale loads included, a buffer whose storage takes
  less than \<open>2^64\<close> bytes, a producer that calls \<open>try_push\<close> only while what it has seen of the
  consumer leaves room, and one consumer: neither is stuck or reaches undefined behaviour; every
  construction, move and destruction in a slot happens after all earlier ones there, so that none
  is a data race; the elements received are the first ones sent, in order; at most \<open>capacity()\<close>
  are in the buffer, which has room for what was asked of the constructor; no push fails.
  \<open>spsc_capacity_edges\<close> has the requests whose byte count wraps around.
\<close>

theorem spsc_release_acquire:
  assumes "spsc_new nw sz capacity = Some (Inr s0)" "round_up_to_power_of_two (capacity + 1) = Some m"
    and "unat capacity < 2 ^ 63" "0 < unat sz" "unat m * unat sz < 2 ^ 64" "rw_run ty s0 log p c W"
  shows "(\<exists>n. rw_choice 0 n p W) \<and> (rw_choice 0 n p W \<longrightarrow> (\<exists>es p' W'. rw_step ty 0 n p W = Some (es, p', W') \<and> Push_failed \<notin> set es)) \<and>
    (\<exists>n. rw_choice 1 n c W) \<and> (rw_choice 1 n c W \<longrightarrow> rw_step ty 1 n c W \<noteq> None) \<and>
    (\<exists>rest. sent log = received log @ rest \<and> length rest \<le> spsc_cap s0) \<and> unat capacity \<le> spsc_cap s0"
proof -
  note N = sp_new_rep [OF assms(1-5)]
  have I: "rw_inv ty log p c W" and cap: "rw_storage_capacity W = sp_storage_capacity s0"
    using rw_run_inv [OF assms(6) N(1)] by auto
  have S: "sp_inv ty log p c (rw_newest W)" using I by (simp add: rw_inv_def Let_def)
  have "spsc_cap (rw_newest W) = spsc_cap s0" using cap by (simp add: rw_cap_def spsc_cap_def spsc_capacity_def)
  then have "length (sent log) \<le> length (received log) + spsc_cap s0" using sp_repD(5) [OF sp_invD(1) [OF S]] by simp
  moreover have "sent log = received log @ drop (length (received log)) (sent log)"
    using sp_invD(4) [OF S] by (metis append_take_drop_id)
  ultimately have "\<exists>rest. sent log = received log @ rest \<and> length rest \<le> spsc_cap s0"
    by (metis add_le_cancel_left length_append)
  moreover have "rw_step ty 1 n c W \<noteq> None" if "rw_choice 1 n c W"
    using rw_consumer_step [OF I that] by auto
  ultimately show ?thesis using rw_choice_exists [OF I] rw_producer_step [OF I] N(2) by metis
qed

theorem spsc_release_acquire_witness:
  "\<exists>s0. spsc_new (\<lambda>b. b < 4096) 8 3 = Some (Inr s0) \<and> 3 \<le> spsc_cap s0 \<and>
    (\<exists>es p W. rw_step \<lparr>is_trivial = True, residue = id\<rparr> 0 0 (Sp_push_tail (5 :: nat)) (rw_start s0) = Some (es, p, W) \<and> Push_failed \<notin> set es)"
proof -
  let ?ty = "\<lparr>is_trivial = True, residue = id\<rparr> :: nat elem_type"
  note n = spsc_demo_size
  obtain s0 :: "nat spsc" where s0: "spsc_new (\<lambda>b. b < 4096) 8 3 = Some (Inr s0)" "(3 :: nat) \<le> spsc_cap s0"
    using spsc_new_rep [OF n, of 8 "\<lambda>b. b < 4096" ?ty] by auto
  have "rw_cap (rw_start s0) = spsc_cap s0" by (simp add: rw_cap_def rw_start_def spsc_cap_def spsc_capacity_def)
  then have "rw_run ?ty s0 [] (Sp_push_tail 5) Sp_idle (rw_start s0)"
    by (intro rw_call_push [OF rw_begin]) (use s0(2) in simp)
  moreover have "rw_choice 0 0 (Sp_push_tail 5) (rw_start s0)"
    by (simp add: rw_choice_def ra_visible_def rw_start_def ra_init_def)
  ultimately show ?thesis using spsc_release_acquire [OF s0(1) n, of ?ty "[]" "Sp_push_tail 5" Sp_idle "rw_start s0" 0] s0 by auto
qed

end
