(* ===== verification/DynamicQueue.thy ===== *)
theory DynamicQueue
  imports CircularBuffer HeapBuffers
begin

text \<open>
  \<open>hpc::core::queue<T>\<close> (\<open>include/hpc/core/dynamic_queue.hpp\<close>): a first-in first-out queue
  over a circular buffer on the heap that doubles when it is full. The element type is the
  parameter \<open>ty\<close> with its size \<open>sz\<close>; \<open>nw\<close> is the outcome of \<open>operator new\<close>.
\<close>

section \<open>State and operations\<close>

record 'a queue =
  dq_buf :: "'a slots"
  dq_cap :: usize
  dq_mask :: usize
  dq_head :: usize
  dq_tail :: usize

definition dq_new :: "'a queue" where
  "dq_new = \<lparr>dq_buf = [], dq_cap = 0, dq_mask = 0, dq_head = 0, dq_tail = 0\<rparr>"

definition dq_empty :: "'a queue \<Rightarrow> bool" where
  "dq_empty q \<longleftrightarrow> dq_head q = dq_tail q"

definition dq_size :: "'a queue \<Rightarrow> usize" where
  "dq_size q = (dq_tail q - dq_head q + dq_cap q) AND dq_mask q"

definition dq_capacity :: "'a queue \<Rightarrow> usize" where
  "dq_capacity q = (if 0 < dq_cap q then dq_cap q - 1 else 0)"

definition dq_alloc_buf :: "(usize \<Rightarrow> bool) \<Rightarrow> usize \<Rightarrow> usize \<Rightarrow> exn + 'a slots" where
  "dq_alloc_buf nw sz n = (if n = 0 then Inr [] else new_slots nw sz n)"

text \<open>The two ways \<open>grow_to\<close> relocates the elements: bytes for trivially copyable types, \<close>

definition dq_relocate_bytes :: "'a queue \<Rightarrow> usize \<Rightarrow> 'a slots \<Rightarrow> 'a slots option" where
  "dq_relocate_bytes q s new_buf =
     (if dq_buf q \<noteq> [] then
        if dq_head q < dq_tail q then
          slot_memcpy new_buf 0 (dq_buf q) (unat (dq_head q)) (unat s)
        else if 0 < s then do {
          let first_run = dq_cap q - dq_head q;
          buf1 \<leftarrow> slot_memcpy new_buf 0 (dq_buf q) (unat (dq_head q)) (unat first_run);
          slot_memcpy buf1 (unat first_run) (dq_buf q) 0 (unat (dq_tail q))
        } else Some new_buf
      else Some new_buf)"

text \<open>and move construction and destruction, one by one, for the others.\<close>

definition dq_relocate_objects :: "'a elem_type \<Rightarrow> 'a queue \<Rightarrow> 'a slots \<Rightarrow> ('a slots \<times> 'a slots) option" where
  "dq_relocate_objects ty q new_buf =
     map_option snd
       (ring_walk (ring_advance (dq_mask q)) (dq_head q) (dq_tail q)
          (\<lambda>i (dst, bufs). do {
             bufs' \<leftarrow> slot_transfer ty (unat dst) (unat i) bufs;
             Some (dst + 1, bufs')
           }) (0 :: usize, new_buf, dq_buf q))"

definition dq_grow_to :: "(usize \<Rightarrow> bool) \<Rightarrow> 'a elem_type \<Rightarrow> usize \<Rightarrow> usize \<Rightarrow> 'a queue \<Rightarrow>
    ((exn + unit) \<times> 'a queue) option" where
  "dq_grow_to nw ty sz new_cap q =
     (case dq_alloc_buf nw sz new_cap of
        Inl e \<Rightarrow> Some (Inl e, q)
      | Inr new_buf \<Rightarrow> do {
          let s = dq_size q;
          (new_buf', old_buf) \<leftarrow>
            (if is_trivial ty then map_option (\<lambda>b. (b, dq_buf q)) (dq_relocate_bytes q s new_buf)
             else dq_relocate_objects ty q new_buf);
          _ \<leftarrow> free_slots ty old_buf;
          Some (Inr (), \<lparr>dq_buf = new_buf', dq_cap = new_cap, dq_mask = new_cap - 1,
                         dq_head = 0, dq_tail = s\<rparr>)
        })"

text \<open>\<open>ensure_space\<close>; a normal return also tells whether the buffer was replaced.\<close>

definition dq_ensure_space :: "(usize \<Rightarrow> bool) \<Rightarrow> 'a elem_type \<Rightarrow> usize \<Rightarrow> 'a queue \<Rightarrow>
    ((exn + bool) \<times> 'a queue) option" where
  "dq_ensure_space nw ty sz q =
     (if dq_cap q \<le> dq_size q + 1 then do {
        (r, q') \<leftarrow> dq_grow_to nw ty sz (if dq_cap q = 0 then 8 else dq_cap q * 2) q;
        Some (map_sum id (\<lambda>_. True) r, q')
      } else Some (Inr False, q))"

definition dq_reserve :: "(usize \<Rightarrow> bool) \<Rightarrow> 'a elem_type \<Rightarrow> usize \<Rightarrow> usize \<Rightarrow> 'a queue \<Rightarrow>
    ((exn + unit) \<times> 'a queue) option" where
  "dq_reserve nw ty sz n q =
     (if dq_capacity q < n then dq_grow_to nw ty sz (queue_round_up_po2 (n + 1)) q
      else Some (Inr (), q))"

definition dq_shrink_to_fit :: "(usize \<Rightarrow> bool) \<Rightarrow> 'a elem_type \<Rightarrow> usize \<Rightarrow> 'a queue \<Rightarrow>
    ((exn + unit) \<times> 'a queue) option" where
  "dq_shrink_to_fit nw ty sz q =
     (let s = dq_size q in
      if s = 0 then do { _ \<leftarrow> free_slots ty (dq_buf q); Some (Inr (), dq_new) }
      else let new_cap = queue_round_up_po2 (s + 1) in
        if new_cap < dq_cap q then dq_grow_to nw ty sz new_cap q else Some (Inr (), q))"

definition dq_front :: "'a queue \<Rightarrow> 'a option" where
  "dq_front q = slot_read (unat (dq_head q)) (dq_buf q)"

definition dq_back :: "'a queue \<Rightarrow> 'a option" where
  "dq_back q = slot_read (unat ((dq_tail q - 1 + dq_cap q) AND dq_mask q)) (dq_buf q)"

text \<open>\<open>construct(slot(tail_), value); tail_ = advance(tail_)\<close>\<close>

definition dq_construct_back :: "'a elem_type \<Rightarrow> 'a \<Rightarrow> 'a queue \<Rightarrow> 'a queue option" where
  "dq_construct_back ty x q = do {
     m \<leftarrow> slot_construct ty (unat (dq_tail q)) x (dq_buf q);
     Some (q\<lparr>dq_buf := m, dq_tail := ring_advance (dq_mask q) (dq_tail q)\<rparr>)
   }"

definition dq_push :: "(usize \<Rightarrow> bool) \<Rightarrow> 'a elem_type \<Rightarrow> usize \<Rightarrow> 'a arg \<Rightarrow> 'a queue \<Rightarrow>
    ((exn + unit) \<times> 'a queue) option" where
  "dq_push nw ty sz value q = do {
     (r, q1) \<leftarrow> dq_ensure_space nw ty sz q;
     (case r of
        Inl e \<Rightarrow> Some (Inl e, q1)
      | Inr moved \<Rightarrow> do {
          x \<leftarrow> arg_value moved (dq_buf q1) value;
          q2 \<leftarrow> dq_construct_back ty x q1;
          Some (Inr (), q2)
        })
   }"

text \<open>The overload for rvalues changes its argument, returned second.\<close>

definition dq_push_move :: "(usize \<Rightarrow> bool) \<Rightarrow> 'a elem_type \<Rightarrow> usize \<Rightarrow> 'a \<Rightarrow> 'a queue \<Rightarrow>
    ((exn + unit) \<times> 'a \<times> 'a queue) option" where
  "dq_push_move nw ty sz x q = do {
     (r, q1) \<leftarrow> dq_ensure_space nw ty sz q;
     (case r of
        Inl e \<Rightarrow> Some (Inl e, x, q1)
      | Inr _ \<Rightarrow> do {
          q2 \<leftarrow> dq_construct_back ty x q1;
          Some (Inr (), moved_from ty x, q2)
        })
   }"

text \<open>\<open>emplace\<close> returns a reference to the new element, here the index of its slot.\<close>

definition dq_emplace :: "(usize \<Rightarrow> bool) \<Rightarrow> 'a elem_type \<Rightarrow> usize \<Rightarrow> ('b \<Rightarrow> 'a) \<Rightarrow> 'b \<Rightarrow> 'a queue \<Rightarrow>
    ((exn + usize) \<times> 'a queue) option" where
  "dq_emplace nw ty sz mk args q = do {
     (r, q1) \<leftarrow> dq_ensure_space nw ty sz q;
     (case r of
        Inl e \<Rightarrow> Some (Inl e, q1)
      | Inr _ \<Rightarrow> do {
          q2 \<leftarrow> dq_construct_back ty (mk args) q1;
          Some (Inr (dq_tail q1), q2)
        })
   }"

definition dq_pop :: "'a elem_type \<Rightarrow> 'a queue \<Rightarrow> 'a queue option" where
  "dq_pop ty q = do {
     m \<leftarrow> slot_destroy ty (unat (dq_head q)) (dq_buf q);
     Some (q\<lparr>dq_buf := m, dq_head := ring_advance (dq_mask q) (dq_head q)\<rparr>)
   }"

definition dq_pop_out :: "'a elem_type \<Rightarrow> 'a queue \<Rightarrow> ('a \<times> 'a queue) option" where
  "dq_pop_out ty q = do {
     (x, m) \<leftarrow> slot_move ty (unat (dq_head q)) (dq_buf q);
     q' \<leftarrow> dq_pop ty (q\<lparr>dq_buf := m\<rparr>);
     Some (x, q')
   }"

definition dq_clear :: "'a elem_type \<Rightarrow> 'a queue \<Rightarrow> 'a queue option" where
  "dq_clear ty q = do {
     m \<leftarrow> ring_clear ty (dq_mask q) (dq_head q) (dq_tail q) (dq_buf q);
     Some (q\<lparr>dq_buf := m, dq_head := 0, dq_tail := 0\<rparr>)
   }"

definition dq_destroy :: "'a elem_type \<Rightarrow> 'a queue \<Rightarrow> unit option" where
  "dq_destroy ty q = do { q' \<leftarrow> dq_clear ty q; free_slots ty (dq_buf q') }"

definition dq_swap :: "'a queue \<Rightarrow> 'a queue \<Rightarrow> 'a queue \<times> 'a queue" where
  "dq_swap q other = (other, q)"

text \<open>Construction with a capacity, from an initializer list, by copy and by move.\<close>

definition dq_with_capacity :: "(usize \<Rightarrow> bool) \<Rightarrow> 'a elem_type \<Rightarrow> usize \<Rightarrow> usize \<Rightarrow>
    ((exn + unit) \<times> 'a queue) option" where
  "dq_with_capacity nw ty sz n = dq_reserve nw ty sz n dq_new"

fun dq_append_all :: "'a elem_type \<Rightarrow> 'a list \<Rightarrow> 'a queue \<Rightarrow> 'a queue option" where
  "dq_append_all ty [] q = Some q"
| "dq_append_all ty (v # vs) q = do { q' \<leftarrow> dq_construct_back ty v q; dq_append_all ty vs q' }"

definition dq_from_list :: "(usize \<Rightarrow> bool) \<Rightarrow> 'a elem_type \<Rightarrow> usize \<Rightarrow> 'a list \<Rightarrow>
    ((exn + unit) \<times> 'a queue) option" where
  "dq_from_list nw ty sz il = do {
     (r, q) \<leftarrow> dq_reserve nw ty sz (of_nat (length il)) dq_new;
     (case r of
        Inl e \<Rightarrow> Some (Inl e, q)
      | Inr _ \<Rightarrow> do { q' \<leftarrow> dq_append_all ty il q; Some (Inr (), q') })
   }"

definition dq_copy :: "(usize \<Rightarrow> bool) \<Rightarrow> 'a elem_type \<Rightarrow> usize \<Rightarrow> 'a queue \<Rightarrow>
    ((exn + unit) \<times> 'a queue) option" where
  "dq_copy nw ty sz rhs = do {
     (r, q) \<leftarrow> dq_reserve nw ty sz (dq_size rhs) dq_new;
     (case r of
        Inl e \<Rightarrow> Some (Inl e, q)
      | Inr _ \<Rightarrow> do {
          (m, te) \<leftarrow> ring_copy ty (dq_mask rhs) (dq_head rhs) (dq_tail rhs) (dq_buf rhs)
                       (dq_mask q) (dq_buf q, dq_tail q);
          Some (Inr (), q\<lparr>dq_buf := m, dq_tail := te\<rparr>)
        })
   }"

definition dq_move :: "'a queue \<Rightarrow> 'a queue \<times> 'a queue" where
  "dq_move rhs = (rhs, dq_new)"

text \<open>Assignments; copy-and-swap destroys the temporary that holds the old state.\<close>

definition dq_replace_by :: "'a elem_type \<Rightarrow> 'a queue \<Rightarrow> ((exn + unit) \<times> 'a queue) \<Rightarrow>
    ((exn + unit) \<times> 'a queue) option" where
  "dq_replace_by ty q tmp =
     (case tmp of
        (Inl e, _) \<Rightarrow> Some (Inl e, q)
      | (Inr _, t) \<Rightarrow> do {
          let (q', t') = dq_swap q t;
          _ \<leftarrow> dq_destroy ty t';
          Some (Inr (), q')
        })"

fun dq_assign :: "(usize \<Rightarrow> bool) \<Rightarrow> 'a elem_type \<Rightarrow> usize \<Rightarrow> 'a queue \<Rightarrow> 'a queue operand \<Rightarrow>
    ((exn + unit) \<times> 'a queue) option" where
  "dq_assign nw ty sz q Self = Some (Inr (), q)"
| "dq_assign nw ty sz q (Other rhs) = Option.bind (dq_copy nw ty sz rhs) (dq_replace_by ty q)"

definition dq_assign_list :: "(usize \<Rightarrow> bool) \<Rightarrow> 'a elem_type \<Rightarrow> usize \<Rightarrow> 'a queue \<Rightarrow> 'a list \<Rightarrow>
    ((exn + unit) \<times> 'a queue) option" where
  "dq_assign_list nw ty sz q il = Option.bind (dq_from_list nw ty sz il) (dq_replace_by ty q)"

fun dq_assign_move :: "'a elem_type \<Rightarrow> 'a queue \<Rightarrow> 'a queue operand \<Rightarrow> ('a queue \<times> 'a queue operand) option" where
  "dq_assign_move ty q Self = Some (q, Self)"
| "dq_assign_move ty q (Other rhs) = do {
     q1 \<leftarrow> dq_clear ty q;
     _ \<leftarrow> free_slots ty (dq_buf q1);
     Some (rhs, Other dq_new)
   }"

definition dq_eq :: "('a \<Rightarrow> 'a \<Rightarrow> bool) \<Rightarrow> 'a queue \<Rightarrow> 'a queue \<Rightarrow> bool option" where
  "dq_eq eq a b =
     (if dq_size a \<noteq> dq_size b then Some False
      else ring_equal eq (dq_mask a) (dq_head a) (dq_buf a) (dq_tail a)
             (dq_mask b) (dq_buf b) (dq_head b))"

definition dq_neq :: "('a \<Rightarrow> 'a \<Rightarrow> bool) \<Rightarrow> 'a queue \<Rightarrow> 'a queue \<Rightarrow> bool option" where
  "dq_neq eq a b = map_option Not (dq_eq eq a b)"

section \<open>Representation\<close>

text \<open>
  The queue holds \<open>xs\<close>, front first: it has no buffer and is empty, or it has a buffer of
  \<open>cap\<close> slots, a power of two, that took less than \<open>2^63\<close> bytes.
\<close>

definition dq_rep :: "'a elem_type \<Rightarrow> usize \<Rightarrow> 'a list \<Rightarrow> 'a queue \<Rightarrow> bool" where
  "dq_rep ty sz xs q \<longleftrightarrow> sizeof_ok sz \<and>
     (if dq_cap q = 0 then q = dq_new \<and> xs = []
      else dq_mask q = dq_cap q - 1 \<and> unat (dq_cap q) * unat sz < 2 ^ 63 \<and>
        ring_holds ty (dq_cap q) (dq_head q) (dq_tail q) xs (dq_buf q))"

definition dq_contents :: "'a queue \<Rightarrow> 'a list" where
  "dq_contents q =
     map (\<lambda>k. the (dq_buf q ! ring_pos (dq_buf q) (unat (dq_head q)) k)) [0..<unat (dq_size q)]"

definition dq_inv :: "'a elem_type \<Rightarrow> usize \<Rightarrow> 'a queue \<Rightarrow> bool" where
  "dq_inv ty sz q \<longleftrightarrow> dq_rep ty sz (dq_contents q) q"

definition dq_room :: "'a queue \<Rightarrow> nat" where
  "dq_room q = unat (dq_capacity q) - length (dq_contents q)"

lemma dq_rep_new: "sizeof_ok sz \<Longrightarrow> dq_rep ty sz [] dq_new"
  by (simp add: dq_rep_def dq_new_def)

lemma dq_rep_cases:
  assumes "dq_rep ty sz xs q"
  obtains (null) "q = dq_new" "xs = []" "sizeof_ok sz"
  | (buffer) "dq_cap q \<noteq> 0" "dq_mask q = dq_cap q - 1" "unat (dq_cap q) * unat sz < 2 ^ 63" "sizeof_ok sz"
      "ring_holds ty (dq_cap q) (dq_head q) (dq_tail q) xs (dq_buf q)" "is_po2 (dq_cap q)"
      "length xs < unat (dq_cap q)"
  using assms ring_holdsD(5,6) unfolding dq_rep_def by (metis (full_types))

lemma dq_rep_size:
  assumes "dq_rep ty sz xs q"
  shows "unat (dq_size q) = length xs" "dq_empty q \<longleftrightarrow> xs = []" "length xs \<le> unat (dq_capacity q)"
  using assms
proof (atomize(full), cases rule: dq_rep_cases)
  case null
  then show "unat (dq_size q) = length xs \<and> dq_empty q = (xs = []) \<and> length xs \<le> unat (dq_capacity q)"
    by (simp add: dq_size_def dq_new_def dq_empty_def dq_capacity_def)
next
  case buffer
  then have "dq_size q = ring_size (dq_cap q) (dq_head q) (dq_tail q)"
    by (simp add: dq_size_def ring_size_def)
  with buffer show "unat (dq_size q) = length xs \<and> dq_empty q = (xs = []) \<and> length xs \<le> unat (dq_capacity q)"
    using ring_holds_size [OF buffer(5)]
    by (auto simp: dq_empty_def dq_capacity_def unat_simps word_gt_0)
qed

lemma dq_rep_contents:
  assumes "dq_rep ty sz xs q"
  shows "dq_contents q = xs"
  using assms
proof (cases rule: dq_rep_cases)
  case null
  then show ?thesis using dq_rep_size(1) [OF assms] by (simp add: dq_contents_def)
next
  case buffer
  then have "ring_rep ty (unat (dq_head q)) xs (dq_buf q)" using ring_holdsD(3) by blast
  from ring_rep_contents [OF this] show ?thesis
    using dq_rep_size(1) [OF assms] by (simp add: dq_contents_def)
qed

lemma dq_rep_inv: "dq_rep ty sz xs q \<Longrightarrow> dq_inv ty sz q"
  by (simp add: dq_inv_def dq_rep_contents)

lemma dq_rep_bound:
  assumes "dq_rep ty sz xs q"
  shows "length xs < 2 ^ 63" "unat (dq_cap q) < 2 ^ 63" "unat (dq_cap q) * unat sz < 2 ^ 63"
proof -
  show c: "unat (dq_cap q) < 2 ^ 63"
  proof -
    have "unat (dq_cap q) \<le> unat (dq_cap q) * unat sz"
      using assms by (auto simp: dq_rep_def sizeof_ok_def)
    moreover have "unat (dq_cap q) * unat sz < 2 ^ 63"
      using assms by (cases "dq_cap q = 0") (auto simp: dq_rep_def)
    ultimately show ?thesis by linarith
  qed
  show "unat (dq_cap q) * unat sz < 2 ^ 63"
    using assms by (cases "dq_cap q = 0") (auto simp: dq_rep_def)
  have "unat (dq_capacity q) \<le> unat (dq_cap q)"
    by (auto simp: dq_capacity_def unat_simps word_gt_0)
  then show "length xs < 2 ^ 63" using dq_rep_size(3) [OF assms] c by linarith
qed

section \<open>Relocation\<close>

lemma memcpy_eq:
  "s + n \<le> length src \<Longrightarrow> d + n \<le> length dst \<Longrightarrow>
   slot_memcpy dst d src s n = Some (take d dst @ take n (drop s src) @ drop (d + n) dst)"
  by (simp add: slot_memcpy_def)

lemma dq_relocate_bytes_rep:
  assumes r: "dq_rep ty sz xs q" and ty: "is_trivial ty" and n: "length xs \<le> length new_buf"
  shows "\<exists>b. dq_relocate_bytes q (dq_size q) new_buf = Some b \<and> length b = length new_buf \<and> lin_rep ty xs b"
  using r
proof (cases rule: dq_rep_cases)
  case null
  then show ?thesis using ty n by (simp add: dq_relocate_bytes_def dq_new_def lin_rep_def)
next
  case buffer
  let ?m = "dq_buf q" and ?c = "unat (dq_cap q)" and ?h = "unat (dq_head q)" and ?t = "unat (dq_tail q)"
  let ?n = "length xs"
  note D = ring_holdsD [OF buffer(5)] and W = ring_windowD [OF ring_holdsD(1) [OF buffer(5)]]
  have size: "unat (dq_size q) = ?n" by (rule dq_rep_size(1) [OF r])
  have ne: "?m \<noteq> []" using D(2,6) by auto
  have at: "?m ! ((?h + k) mod ?c) = Some (xs ! k)" if "k < ?n" for k
    using ring_repD(3) [OF D(3) that] D(2) by (simp add: ring_pos_def)
  show ?thesis
  proof (cases "?h + ?n < ?c")
    case True
    then have t: "?t = ?h + ?n" using W by simp
    show ?thesis
    proof (cases "?n = 0")
      case True
      then show ?thesis using t size ty ne
        by (simp add: dq_relocate_bytes_def word_less_nat_alt lin_rep_def)
    next
      case False
      have "lin_rep ty xs (take ?n (drop ?h ?m) @ drop ?n new_buf)"
        using True n D(2) ty at by (auto simp: lin_rep_def nth_append)
      then show ?thesis using False t size n ne True D(2)
        by (simp add: dq_relocate_bytes_def word_less_nat_alt memcpy_eq)
    qed
  next
    case False
    then have t: "?t = ?h + ?n - ?c" and hc: "?h < ?c" "?n < ?c" using W by (simp_all add: mod_if)
    have first: "unat (dq_cap q - dq_head q) = ?c - ?h"
      using hc by (intro unat_sub) (simp add: word_le_nat_alt)
    define b1 where "b1 = drop ?h ?m @ drop (?c - ?h) new_buf"
    have l: "length b1 = length new_buf" using False n D(2) hc by (simp add: b1_def)
    have 1: "slot_memcpy new_buf 0 ?m ?h (?c - ?h) = Some b1"
      using False n D(2) hc by (simp add: memcpy_eq b1_def)
    have 2: "slot_memcpy b1 (?c - ?h) ?m 0 ?t = Some (drop ?h ?m @ take ?t ?m @ drop (?c - ?h + ?t) b1)"
      using False n D(2) hc t l by (subst memcpy_eq) (auto simp: b1_def)
    have "lin_rep ty xs (drop ?h ?m @ take ?t ?m @ drop (?c - ?h + ?t) b1)"
    proof -
      have "(drop ?h ?m @ take ?t ?m @ drop (?c - ?h + ?t) b1) ! k = Some (xs ! k)" if k: "k < ?n" for k
      proof (cases "k < ?c - ?h")
        case True
        then show ?thesis using at [OF k] D(2) by (simp add: nth_append)
      next
        case F: False
        then have "(?h + k) mod ?c = k - (?c - ?h)" "k - (?c - ?h) < ?t"
          using hc k t False by (auto simp: mod_if)
        then show ?thesis using at [OF k] F D(2) hc W(5) by (simp add: nth_append)
      qed
      then show ?thesis using ty D(2) t False hc by (simp add: lin_rep_def)
    qed
    moreover have "0 < ?n" "\<not> dq_head q < dq_tail q"
      using False hc t by (auto simp: word_less_nat_alt)
    moreover have "0 < dq_size q" using size \<open>0 < ?n\<close> by (simp add: word_less_nat_alt)
    moreover have "length (drop ?h ?m @ take ?t ?m @ drop (?c - ?h + ?t) b1) = length new_buf"
      using D(2) hc t False n l by simp
    ultimately show ?thesis using 1 2 ne first by (simp add: dq_relocate_bytes_def)
  qed
qed

lemma dq_relocate_objects_rep:
  assumes r: "dq_rep ty sz xs q" and b: "lin_rep ty [] new_buf" "length xs \<le> length new_buf"
  shows "\<exists>b old. dq_relocate_objects ty q new_buf = Some (b, old) \<and> length b = length new_buf \<and>
           lin_rep ty xs b \<and> lin_rep ty [] old"
  using r
proof (cases rule: dq_rep_cases)
  case null
  then show ?thesis using b
    by (simp add: dq_relocate_objects_def dq_new_def ring_walk.simps [of _ 0] lin_rep_def)
next
  case buffer
  note D = ring_holdsD [OF buffer(5)]
  let ?c = "unat (dq_cap q)" and ?h = "unat (dq_head q)"
  define P where "P k s \<longleftrightarrow> (case s of (dst, b, old) \<Rightarrow> unat (dst :: usize) = k \<and> length b = length new_buf \<and>
      lin_rep ty (take k xs) b \<and> length old = ?c \<and> ring_rep ty ((?h + k) mod ?c) (drop k xs) old)" for k s
  have "\<exists>s. ring_walk (ring_advance (dq_cap q - 1)) (dq_head q) (dq_tail q)
          (\<lambda>i (dst, bufs). do {
             bufs' \<leftarrow> slot_transfer ty (unat dst) (unat i) bufs;
             Some (dst + 1, bufs')
           }) (0, new_buf, dq_buf q) = Some s \<and> P (length xs) s"
  proof (rule ring_walk_window [OF D(1)])
    show "P 0 (0, new_buf, dq_buf q)"
      using D b ring_windowD(2) [OF D(1)] by (simp add: P_def)
    fix k i s
    assume k: "k < length xs" "unat i = (?h + k) mod ?c" and P: "P k s"
    obtain dst d old where s: "s = (dst, d, old)" by (cases s) auto
    have p: "unat dst = k" "length d = length new_buf" "lin_rep ty (take k xs) d" "length old = ?c"
      "ring_rep ty (unat i) (xs ! k # drop (Suc k) xs) old"
      using P s k by (simp_all add: P_def Cons_nth_drop_Suc)
    have "unat (dst + 1) = Suc k"
      using p(1) k(1) D(6) unat_plus1 [of dst "dq_cap q"] by (simp add: word_less_nat_alt)
    moreover obtain old' where old': "slot_destroy ty (unat i) (old[unat i := Some (moved_from ty (xs ! k))]) = Some old'"
        "length old' = ?c" "ring_rep ty (Suc (unat i) mod ?c) (drop (Suc k) xs) old'"
      using ring_rep_pop(4) [OF p(5), of "moved_from ty (xs ! k)"] p(4) by auto
    moreover have "slot_construct ty k (xs ! k) d = Some (d[k := Some (xs ! k)])"
        "lin_rep ty (take (Suc k) xs) (d[k := Some (xs ! k)])"
      using lin_rep_push [OF p(3), of "xs ! k"] k b(2) p(2)
      by (simp_all add: take_Suc_conv_app_nth min_absorb2)
    ultimately show "\<exists>s'. (case s of (dst, bufs) \<Rightarrow> do {
             bufs' \<leftarrow> slot_transfer ty (unat dst) (unat i) bufs;
             Some (dst + 1, bufs') }) = Some s' \<and> P (Suc k) s'"
      using p ring_rep_pop(2) [OF p(5)] s k(2)
      by (simp add: slot_transfer_def P_def mod_Suc_eq)
  qed
  then obtain dst b' old where "ring_walk (ring_advance (dq_cap q - 1)) (dq_head q) (dq_tail q)
          (\<lambda>i (dst, bufs). do {
             bufs' \<leftarrow> slot_transfer ty (unat dst) (unat i) bufs;
             Some (dst + 1, bufs')
           }) (0, new_buf, dq_buf q) = Some (dst, b', old)" "P (length xs) (dst, b', old)"
    by auto
  then show ?thesis
    using buffer(2) ring_rep_Nil_lin by (auto simp: dq_relocate_objects_def P_def)
qed

section \<open>Growth\<close>

lemma dq_grow_to_rep:
  assumes r: "dq_rep ty sz xs q" and c: "is_po2 c" "length xs < unat c" "unat c * unat sz < 2 ^ 64"
    and nw: "new_limit nw"
  shows "\<not> nw (c * sz) \<Longrightarrow> dq_grow_to nw ty sz c q = Some (Inl Bad_alloc, q)"
    and "nw (c * sz) \<Longrightarrow> \<exists>q'. dq_grow_to nw ty sz c q = Some (Inr (), q') \<and> dq_rep ty sz xs q' \<and> dq_cap q' = c \<and> dq_head q' = 0"
proof -
  have sz: "sizeof_ok sz" using r by (simp add: dq_rep_def)
  then have sz0: "0 < unat sz" by (simp add: sizeof_ok_def)
  have c0: "c \<noteq> 0" using c(2) by auto
  have alloc: "new_slots nw sz c =
      (if nw (c * sz) then Inr (replicate (unat c) None :: 'a slots) else Inl Bad_alloc)"
    by (rule new_slots_fit [OF c(3) sz0])
  show "dq_grow_to nw ty sz c q = Some (Inl Bad_alloc, q)" if "\<not> nw (c * sz)"
    using that alloc c0 by (simp add: dq_grow_to_def dq_alloc_buf_def)
  show "\<exists>q'. dq_grow_to nw ty sz c q = Some (Inr (), q') \<and> dq_rep ty sz xs q' \<and> dq_cap q' = c \<and> dq_head q' = 0" if n: "nw (c * sz)"
  proof -
    define nb where "nb = (replicate (unat c) None :: 'a slots)"
    have nb: "lin_rep ty [] nb" "length xs \<le> length nb" "length nb = unat c"
      using c(2) by (simp_all add: nb_def)
    obtain b old where b: "(if is_trivial ty then map_option (\<lambda>b. (b, dq_buf q)) (dq_relocate_bytes q (dq_size q) nb)
             else dq_relocate_objects ty q nb) = Some (b, old)"
        "length b = unat c" "lin_rep ty xs b" "free_slots ty old = Some ()"
    proof (cases "is_trivial ty")
      case True
      with dq_relocate_bytes_rep [OF r True nb(2)] nb(3) show thesis
        by (auto simp: free_slots_def intro: that)
    next
      case False
      with dq_relocate_objects_rep [OF r nb(1,2)] nb(3) show thesis
        by (auto intro!: that free_slots_raw)
    qed
    have "unat c * unat sz < 2 ^ 63" by (rule new_limitD [OF nw n c(3)])
    moreover have "ring_holds ty c 0 (dq_size q) xs b"
      using b c(1,2) dq_rep_size(1) [OF r] by (simp add: ring_holds_0_iff)
    ultimately show ?thesis
      using alloc n c0 b(1,4) sz
      by (auto simp: dq_grow_to_def dq_alloc_buf_def dq_rep_def Let_def nb_def [symmetric])
  qed
qed

lemma is_po2_double: "is_po2 c \<Longrightarrow> unat c < 2 ^ 63 \<Longrightarrow> is_po2 (c * 2) \<and> unat (c * 2) = 2 * unat c"
proof -
  assume c: "is_po2 c" "unat c < 2 ^ 63"
  then obtain k where k: "k < 64" "unat c = 2 ^ k" by (auto simp: is_po2_def)
  then have "(2 :: nat) ^ k < 2 ^ 63" using c(2) by simp
  then have "Suc k < 64" using power_less_imp_less_exp [of 2 k 63] by simp
  moreover have u: "unat (c * 2) = 2 * unat c" using c(2) by (simp add: unat_word_ariths)
  ultimately show ?thesis using k by (auto simp: is_po2_def intro!: exI [of _ "Suc k"])
qed

text \<open>
  \<open>ensure_space\<close> leaves room for one more element, or reports \<open>bad_alloc\<close> and changes
  nothing; it replaces the buffer exactly when the queue was at its capacity.
\<close>

lemma dq_ensure_space_rep:
  assumes r: "dq_rep ty sz xs q" and nw: "new_limit nw"
  shows "(dq_ensure_space nw ty sz q = Some (Inl Bad_alloc, q) \<and> length xs = unat (dq_capacity q)) \<or>
    (\<exists>moved q'. dq_ensure_space nw ty sz q = Some (Inr moved, q') \<and> dq_rep ty sz xs q' \<and>
       length xs < unat (dq_capacity q') \<and> unat (dq_capacity q) \<le> unat (dq_capacity q') \<and>
       (moved \<longleftrightarrow> length xs = unat (dq_capacity q)) \<and> (\<not> moved \<longrightarrow> q' = q))"
proof -
  note B = dq_rep_bound [OF r] and S = dq_rep_size [OF r]
  have sz: "0 < unat sz" "unat sz < 2 ^ 48" using r by (auto simp: dq_rep_def sizeof_ok_def)
  have s1: "unat (dq_size q + 1) = Suc (length xs)"
    using S(1) B(1) unat_add_small [of "dq_size q" 1] by simp
  have capc: "unat (dq_capacity q) = unat (dq_cap q) - 1"
    by (auto simp: dq_capacity_def unat_simps word_gt_0)
  have full: "dq_cap q \<le> dq_size q + 1 \<longleftrightarrow> length xs = unat (dq_capacity q)"
    using S(3) s1 capc by (auto simp: word_le_nat_alt)
  show ?thesis
  proof (cases "length xs = unat (dq_capacity q)")
    case False
    then show ?thesis using full S(3) r by (auto simp: dq_ensure_space_def)
  next
    case True
    define c where "c = (if dq_cap q = 0 then 8 else dq_cap q * 2)"
    have "is_po2 c \<and> length xs + 1 < unat c \<and> unat c * unat sz < 2 ^ 64 \<and> unat (dq_cap q) \<le> unat c"
    proof (cases "dq_cap q = 0")
      case c0: True
      moreover have "is_po2 8" using is_po2_power [of 3] by simp
      ultimately show ?thesis using True sz capc by (simp add: c_def)
    next
      case c0: False
      then have "is_po2 (dq_cap q)" using r ring_holdsD(5) by (auto simp: dq_rep_def)
      note d = is_po2_double [OF this B(2)]
      have c: "c = dq_cap q * 2" using c0 by (simp add: c_def)
      have "0 < unat (dq_cap q)" using c0 by (simp add: unat_gt_0)
      then have "length xs + 1 < 2 * unat (dq_cap q)" using True capc by linarith
      moreover have "2 * unat (dq_cap q) * unat sz < 2 ^ 64"
        unfolding mult.assoc by (rule double_below) (rule B(3))
      ultimately show ?thesis unfolding c using d by simp
    qed
    then have c: "is_po2 c" "length xs < unat c" "unat c * unat sz < 2 ^ 64"
      and c': "length xs + 1 < unat c" "unat (dq_cap q) \<le> unat c" by auto
    note g = dq_grow_to_rep [OF r c nw]
    show ?thesis
    proof (cases "nw (c * sz)")
      case False
      then have "dq_ensure_space nw ty sz q = Some (Inl Bad_alloc, q)"
        using g(1) True full by (simp add: dq_ensure_space_def c_def)
      then show ?thesis using True by blast
    next
      case True': True
      then obtain q' where q': "dq_grow_to nw ty sz c q = Some (Inr (), q')" "dq_rep ty sz xs q'" "dq_cap q' = c"
        using g(2) by blast
      then have cap': "unat (dq_capacity q') = unat c - 1"
        by (auto simp: dq_capacity_def unat_simps word_gt_0)
      have "dq_ensure_space nw ty sz q = Some (Inr True, q')"
        using q'(1) True full by (simp add: dq_ensure_space_def c_def)
      moreover have "length xs < unat (dq_capacity q')" "unat (dq_capacity q) \<le> unat (dq_capacity q')"
        using cap' c' capc by linarith+
      ultimately show ?thesis using q'(2) True by blast
    qed
  qed
qed

lemma dq_construct_back_rep:
  assumes "dq_rep ty sz xs q" "length xs < unat (dq_capacity q)"
  shows "\<exists>q'. dq_construct_back ty x q = Some q' \<and> dq_rep ty sz (xs @ [x]) q' \<and>
           dq_capacity q' = dq_capacity q \<and> dq_cap q' = dq_cap q \<and>
           q' = q\<lparr>dq_buf := (dq_buf q)[unat (dq_tail q) := Some x], dq_tail := ring_advance (dq_mask q) (dq_tail q)\<rparr>"
  using assms(1)
proof (cases rule: dq_rep_cases)
  case null
  then show ?thesis using assms(2) by (simp add: dq_new_def dq_capacity_def)
next
  case buffer
  then have l: "Suc (length xs) < unat (dq_cap q)"
    using assms(2) by (auto simp: dq_capacity_def unat_simps word_gt_0)
  from ring_holds_push [OF buffer(5) l, of x] buffer show ?thesis
    by (simp add: dq_construct_back_def dq_rep_def dq_capacity_def)
qed

lemma dq_pop_rep:
  assumes "dq_rep ty sz (x # xs) q"
  shows "\<exists>q'. dq_pop ty q = Some q' \<and> dq_rep ty sz xs q' \<and> dq_capacity q' = dq_capacity q"
    "\<exists>q'. dq_pop_out ty q = Some (x, q') \<and> dq_rep ty sz xs q' \<and> dq_capacity q' = dq_capacity q"
    "dq_front q = Some x"
proof -
  have b: "dq_cap q \<noteq> 0" "dq_mask q = dq_cap q - 1" "unat (dq_cap q) * unat sz < 2 ^ 63" "sizeof_ok sz"
    and r: "ring_holds ty (dq_cap q) (dq_head q) (dq_tail q) (x # xs) (dq_buf q)"
    using assms by (atomize(full), cases "dq_cap q = 0") (simp_all add: dq_rep_def)
  obtain m where m: "slot_destroy ty (unat (dq_head q)) (dq_buf q) = Some m"
      "ring_holds ty (dq_cap q) (ring_advance (dq_cap q - 1) (dq_head q)) (dq_tail q) xs m"
    using ring_holds_pop(3) [OF r] by blast
  then show "\<exists>q'. dq_pop ty q = Some q' \<and> dq_rep ty sz xs q' \<and> dq_capacity q' = dq_capacity q"
    using b by (simp add: dq_pop_def dq_rep_def dq_capacity_def)
  obtain m where m: "slot_destroy ty (unat (dq_head q))
        ((dq_buf q)[unat (dq_head q) := Some (moved_from ty x)]) = Some m"
      "ring_holds ty (dq_cap q) (ring_advance (dq_cap q - 1) (dq_head q)) (dq_tail q) xs m"
    using ring_holds_pop(4) [OF r] by blast
  then show "\<exists>q'. dq_pop_out ty q = Some (x, q') \<and> dq_rep ty sz xs q' \<and> dq_capacity q' = dq_capacity q"
    using b ring_holds_pop(2) [OF r] by (simp add: dq_pop_out_def dq_pop_def dq_rep_def dq_capacity_def)
  show "dq_front q = Some x" using ring_holds_front [OF r] by (simp add: dq_front_def)
qed

lemma dq_back_rep: "dq_rep ty sz (xs @ [x]) q \<Longrightarrow> dq_back q = Some x"
  by (cases rule: dq_rep_cases)
     (use ring_holds_back in \<open>auto simp: dq_back_def ring_back_def\<close>)

lemma dq_clear_rep:
  assumes "dq_rep ty sz xs q"
  shows "\<exists>q'. dq_clear ty q = Some q' \<and> dq_rep ty sz [] q' \<and> dq_capacity q' = dq_capacity q \<and>
           lin_rep ty [] (dq_buf q')"
  using assms
proof (cases rule: dq_rep_cases)
  case null
  then show ?thesis
    by (auto simp: dq_clear_def dq_new_def dq_rep_def ring_clear_def ring_walk.simps [of _ 0] lin_rep_def)
next
  case buffer
  from ring_clear_rep [OF buffer(5)] obtain m where m: "ring_clear ty (dq_cap q - 1) (dq_head q) (dq_tail q) (dq_buf q) = Some m"
      "ring_holds ty (dq_cap q) 0 0 [] m" by blast
  then have "lin_rep ty [] m"
    using ring_holds_0_iff [OF buffer(6)] ring_holdsD(2) by blast
  then show ?thesis using m buffer by (simp add: dq_clear_def dq_rep_def dq_capacity_def)
qed

lemma dq_destroy_rep: "dq_rep ty sz xs q \<Longrightarrow> dq_destroy ty q = Some ()"
  using dq_clear_rep [of ty sz xs q] by (auto simp: dq_destroy_def free_slots_raw)

section \<open>Insertion and the queue contract\<close>

lemma dq_push_rep:
  assumes r: "dq_rep ty sz xs q" and nw: "new_limit nw"
  shows "(dq_push nw ty sz (Value x) q = Some (Inl Bad_alloc, q) \<and>
        dq_push_move nw ty sz x q = Some (Inl Bad_alloc, x, q) \<and> length xs = unat (dq_capacity q)) \<or>
    (\<exists>q'. dq_push nw ty sz (Value x) q = Some (Inr (), q') \<and>
       dq_push_move nw ty sz x q = Some (Inr (), moved_from ty x, q') \<and> dq_rep ty sz (xs @ [x]) q' \<and>
       unat (dq_capacity q) \<le> unat (dq_capacity q'))"
  using dq_ensure_space_rep [OF r nw]
proof (elim disjE exE conjE)
  fix moved q1
  assume q1: "dq_ensure_space nw ty sz q = Some (Inr moved, q1)" "dq_rep ty sz xs q1"
    "length xs < unat (dq_capacity q1)" "unat (dq_capacity q) \<le> unat (dq_capacity q1)"
  obtain q2 where "dq_construct_back ty x q1 = Some q2" "dq_rep ty sz (xs @ [x]) q2"
      "dq_capacity q2 = dq_capacity q1"
    using dq_construct_back_rep [OF q1(2,3), of x] by blast
  with q1 show ?thesis by (simp add: dq_push_def dq_push_move_def)
qed (simp add: dq_push_def dq_push_move_def)

lemma dq_emplace_rep:
  assumes r: "dq_rep ty sz xs q" and nw: "new_limit nw"
  shows "(dq_emplace nw ty sz mk args q = Some (Inl Bad_alloc, q) \<and> length xs = unat (dq_capacity q)) \<or>
    (\<exists>i q'. dq_emplace nw ty sz mk args q = Some (Inr i, q') \<and> dq_rep ty sz (xs @ [mk args]) q' \<and>
       slot_read (unat i) (dq_buf q') = Some (mk args))"
  using dq_ensure_space_rep [OF r nw]
proof (elim disjE exE conjE)
  fix moved q1
  assume q1: "dq_ensure_space nw ty sz q = Some (Inr moved, q1)" "dq_rep ty sz xs q1"
    "length xs < unat (dq_capacity q1)"
  obtain q2 where q2: "dq_construct_back ty (mk args) q1 = Some q2" "dq_rep ty sz (xs @ [mk args]) q2"
      "q2 = q1\<lparr>dq_buf := (dq_buf q1)[unat (dq_tail q1) := Some (mk args)],
               dq_tail := ring_advance (dq_mask q1) (dq_tail q1)\<rparr>"
    using dq_construct_back_rep [OF q1(2,3), of "mk args"] by blast
  have "unat (dq_tail q1) < length (dq_buf q1)"
    using q2(1) by (auto simp: dq_construct_back_def slot_construct_def split: if_splits)
  then have "slot_read (unat (dq_tail q1)) (dq_buf q2) = Some (mk args)"
    using q2(3) by (simp add: slot_read_def)
  with q1 q2 show ?thesis by (simp add: dq_emplace_def)
qed (simp add: dq_emplace_def)

text \<open>The operations of a client that pushes, and pops behind a test for emptiness.\<close>

definition dq_offer :: "(usize \<Rightarrow> bool) \<Rightarrow> 'a elem_type \<Rightarrow> usize \<Rightarrow> 'a \<Rightarrow> 'a queue \<Rightarrow> (bool \<times> 'a queue) option" where
  "dq_offer nw ty sz x q = map_option (map_prod (case_sum (\<lambda>_. False) (\<lambda>_. True)) id) (dq_push nw ty sz (Value x) q)"

definition dq_poll :: "'a elem_type \<Rightarrow> 'a queue \<Rightarrow> ('a option \<times> 'a queue) option" where
  "dq_poll ty q = (if dq_empty q then Some (None, q) else map_option (map_prod Some id) (dq_pop_out ty q))"

lemma dq_offer_rep:
  assumes "dq_rep ty sz xs q" "new_limit nw"
  shows "(dq_offer nw ty sz x q = Some (False, q) \<and> length xs = unat (dq_capacity q)) \<or>
    (\<exists>q'. dq_offer nw ty sz x q = Some (True, q') \<and> dq_rep ty sz (xs @ [x]) q' \<and>
       unat (dq_capacity q) \<le> unat (dq_capacity q'))"
  using dq_push_rep [OF assms, of x] by (auto simp: dq_offer_def)

lemma dq_poll_rep:
  "dq_rep ty sz (x # xs) q \<Longrightarrow>
   \<exists>q'. dq_poll ty q = Some (Some x, q') \<and> dq_rep ty sz xs q' \<and> dq_capacity q' = dq_capacity q"
  "dq_rep ty sz [] q \<Longrightarrow> dq_poll ty q = Some (None, q)"
  using dq_pop_rep(2) [of ty sz x xs q] dq_rep_size(2) [of ty sz _ q] by (fastforce simp: dq_poll_def)+

text \<open>Within its capacity a queue needs no memory, whatever the outcome of allocations.\<close>

lemma dq_push_room:
  assumes r: "dq_rep ty sz xs q" and room: "length xs < unat (dq_capacity q)"
  shows "\<exists>q'. dq_offer nw ty sz x q = Some (True, q') \<and> dq_rep ty sz (xs @ [x]) q' \<and>
           dq_capacity q' = dq_capacity q"
proof -
  have "unat (dq_size q + 1) = Suc (length xs)"
    using dq_rep_size(1) [OF r] dq_rep_bound(1) [OF r] unat_add_small [of "dq_size q" 1] by simp
  moreover have "unat (dq_capacity q) = unat (dq_cap q) - 1"
    by (auto simp: dq_capacity_def unat_simps word_gt_0)
  ultimately have "\<not> dq_cap q \<le> dq_size q + 1" using room by (simp add: word_le_nat_alt)
  then show ?thesis
    using dq_construct_back_rep [OF r room, of x] by (auto simp: dq_offer_def dq_push_def dq_ensure_space_def)
qed

interpretation dq: try_fifo "dq_inv ty sz" dq_contents dq_room "dq_offer nw ty sz" "dq_poll ty"
  for ty :: "'a elem_type" and sz nw
proof unfold_locales
  fix q :: "'a queue" and x
  assume "dq_inv ty sz q"
  then have r: "dq_rep ty sz (dq_contents q) q" by (simp add: dq_inv_def)
  note observe = dq_rep_contents dq_rep_inv
  show "\<exists>q'. dq_offer nw ty sz x q = Some (True, q') \<and> dq_inv ty sz q' \<and>
             dq_contents q' = dq_contents q @ [x] \<and> dq_room q \<le> Suc (dq_room q')" if "0 < dq_room q"
  proof -
    have "length (dq_contents q) < unat (dq_capacity q)" using that by (simp add: dq_room_def)
    from dq_push_room [OF r this, of nw x] show ?thesis
      using observe by (fastforce simp: dq_room_def)
  qed
  show "\<exists>q'. dq_poll ty q = Some (Some x, q') \<and> dq_inv ty sz q' \<and> dq_contents q' = xs \<and>
             dq_room q \<le> dq_room q'" if c: "dq_contents q = x # xs" for xs
  proof -
    obtain q' where "dq_poll ty q = Some (Some x, q')" "dq_rep ty sz xs q'" "dq_capacity q' = dq_capacity q"
      using dq_poll_rep(1) [of ty sz x xs q] r c by auto
    with c show ?thesis using observe by (fastforce simp: dq_room_def)
  qed
  show "dq_poll ty q = Some (None, q)" if "dq_contents q = []"
    using r that dq_poll_rep(2) by simp
qed

section \<open>Reserving, shrinking, copying\<close>

definition dq_request_ok :: "usize \<Rightarrow> usize \<Rightarrow> bool" where
  "dq_request_ok sz n \<longleftrightarrow> 2 * (unat n + 1) * unat sz \<le> 2 ^ 64"

lemma dq_round_up:
  assumes "unat n < 2 ^ 63"
  shows "is_po2 (queue_round_up_po2 (n + 1))" "least_po2 (Suc (unat n)) (unat (queue_round_up_po2 (n + 1)))"
    "unat n < unat (queue_round_up_po2 (n + 1))"
proof -
  have u: "unat (n + 1) = Suc (unat n)" using assms by (simp add: unat_word_ariths)
  then have "n + 1 \<noteq> 0" by auto
  then show "is_po2 (queue_round_up_po2 (n + 1))" "least_po2 (Suc (unat n)) (unat (queue_round_up_po2 (n + 1)))"
    using fixed_round_up_spec [of "n + 1"] u assms queue_round_up_eq by auto
  then show "unat n < unat (queue_round_up_po2 (n + 1))" by (auto simp: least_po2_def)
qed

lemma dq_request_fits:
  assumes "dq_request_ok sz n" "sizeof_ok sz"
  shows "unat n < 2 ^ 63" "unat (queue_round_up_po2 (n + 1)) * unat sz < 2 ^ 64"
proof -
  have sz: "0 < unat sz" using assms(2) by (simp add: sizeof_ok_def)
  have "2 * (unat n + 1) * 1 \<le> 2 * (unat n + 1) * unat sz" using sz by (intro mult_le_mono) auto
  with assms(1) show n: "unat n < 2 ^ 63" by (simp add: dq_request_ok_def)
  have "unat (queue_round_up_po2 (n + 1)) < 2 * (unat n + 1)"
    using least_po2_less [OF dq_round_up(2) [OF n]] by simp
  then have "unat (queue_round_up_po2 (n + 1)) * unat sz < 2 * (unat n + 1) * unat sz"
    using sz by (rule mult_less_mono1)
  with assms(1) show "unat (queue_round_up_po2 (n + 1)) * unat sz < 2 ^ 64"
    unfolding dq_request_ok_def by (rule less_le_trans [rotated])
qed

lemma dq_reserve_rep:
  assumes r: "dq_rep ty sz xs q" and n: "dq_request_ok sz n" and nw: "new_limit nw"
  shows "(dq_reserve nw ty sz n q = Some (Inl Bad_alloc, q) \<and> \<not> nw (queue_round_up_po2 (n + 1) * sz)) \<or>
    (\<exists>q'. dq_reserve nw ty sz n q = Some (Inr (), q') \<and> dq_rep ty sz xs q' \<and>
       unat n \<le> unat (dq_capacity q') \<and> (q' = q \<or> dq_head q' = 0))"
proof (cases "dq_capacity q < n")
  case False
  then show ?thesis using r by (simp add: dq_reserve_def word_less_nat_alt)
next
  case True
  have sz: "sizeof_ok sz" using r by (simp add: dq_rep_def)
  note f = dq_request_fits [OF n sz] and u = dq_round_up [OF dq_request_fits(1) [OF n sz]]
  define c where "c = queue_round_up_po2 (n + 1)"
  have l: "length xs < unat c"
    using dq_rep_size(3) [OF r] True u(3) by (simp add: word_less_nat_alt c_def)
  note g = dq_grow_to_rep [OF r u(1) [folded c_def] l f(2) [folded c_def] nw]
  have cap: "unat n \<le> unat (dq_capacity q')" if "dq_cap q' = c" for q' :: "'a queue"
    using that u(3) by (auto simp: dq_capacity_def unat_simps word_gt_0 c_def)
  have d: "dq_reserve nw ty sz n q = dq_grow_to nw ty sz c q"
    using True by (simp add: dq_reserve_def c_def)
  show ?thesis
  proof (cases "nw (c * sz)")
    case True
    from g(2) [OF this] cap d show ?thesis by metis
  next
    case False
    with g(1) d show ?thesis by (simp add: c_def)
  qed
qed

text \<open>A reserve on a new queue gives a buffer whose indices are at 0.\<close>

lemma dq_reserve_new:
  assumes "dq_request_ok sz n" "sizeof_ok sz" "new_limit nw"
  shows "(dq_reserve nw ty sz n dq_new = Some (Inl Bad_alloc, dq_new) \<and> \<not> nw (queue_round_up_po2 (n + 1) * sz)) \<or>
    (\<exists>q'. dq_reserve nw ty sz n dq_new = Some (Inr (), q') \<and> dq_rep ty sz [] q' \<and>
       unat n \<le> unat (dq_capacity q') \<and> dq_head q' = 0 \<and> dq_tail q' = 0)"
proof -
  have "dq_head q' = 0 \<and> dq_tail q' = 0" if "dq_rep ty sz [] q'" "q' = dq_new \<or> dq_head q' = 0" for q' :: "'a queue"
    using dq_rep_size(2) [OF that(1)] that(2) by (auto simp: dq_empty_def dq_new_def)
  then show ?thesis
    using dq_reserve_rep [OF dq_rep_new [OF assms(2)] assms(1,3), of ty] by blast
qed

lemma dq_append_all_rep:
  assumes "dq_rep ty sz xs q" "length xs + length vs \<le> unat (dq_capacity q)"
  shows "\<exists>q'. dq_append_all ty vs q = Some q' \<and> dq_rep ty sz (xs @ vs) q'"
  using assms
proof (induction vs arbitrary: xs q)
  case Nil
  then show ?case by simp
next
  case (Cons v vs)
  then obtain q1 where q1: "dq_construct_back ty v q = Some q1" "dq_rep ty sz (xs @ [v]) q1"
      "dq_capacity q1 = dq_capacity q"
    using dq_construct_back_rep [OF Cons.prems(1), of v] by auto
  with Cons.IH [OF q1(2)] Cons.prems show ?case by simp
qed

lemma dq_from_list_rep:
  assumes "dq_request_ok sz (of_nat (length il))" "sizeof_ok sz" "new_limit nw" "length il < 2 ^ 64"
  shows "(dq_from_list nw ty sz il = Some (Inl Bad_alloc, dq_new) \<and>
        \<not> nw (queue_round_up_po2 (of_nat (length il) + 1) * sz)) \<or>
    (\<exists>q. dq_from_list nw ty sz il = Some (Inr (), q) \<and> dq_rep ty sz il q)"
  using dq_reserve_new [OF assms(1-3), of ty]
proof (elim disjE exE conjE)
  fix q' :: "'a queue"
  assume q': "dq_reserve nw ty sz (of_nat (length il)) dq_new = Some (Inr (), q')" "dq_rep ty sz [] q'"
    "unat (of_nat (length il) :: usize) \<le> unat (dq_capacity q')"
  then have "length [] + length il \<le> unat (dq_capacity q')"
    using unat_of_nat_usize [OF assms(4)] by simp
  from dq_append_all_rep [OF q'(2) this] q'(1) show ?thesis by (auto simp: dq_from_list_def)
qed (simp add: dq_from_list_def)

text \<open>Copying never asks for more slots than the source has.\<close>

lemma dq_copy_request:
  assumes r: "dq_rep ty sz xs rhs"
  shows "unat (queue_round_up_po2 (dq_size rhs + 1)) * unat sz < 2 ^ 64"
    "is_po2 (queue_round_up_po2 (dq_size rhs + 1))"
    "xs \<noteq> [] \<Longrightarrow> unat (queue_round_up_po2 (dq_size rhs + 1)) \<le> unat (dq_cap rhs)"
proof -
  note S = dq_rep_size(1) [OF r] and B = dq_rep_bound [OF r]
  have sz: "sizeof_ok sz" using r by (simp add: dq_rep_def)
  note u = dq_round_up [of "dq_size rhs"]
  show "is_po2 (queue_round_up_po2 (dq_size rhs + 1))" using u B S by simp
  show le: "unat (queue_round_up_po2 (dq_size rhs + 1)) \<le> unat (dq_cap rhs)" if "xs \<noteq> []"
  proof -
    have "is_po2 (dq_cap rhs)" "length xs < unat (dq_cap rhs)"
      using r that by (cases rule: dq_rep_cases; simp)+
    then show ?thesis using u(2) B S by (auto simp: is_po2_def least_po2_def)
  qed
  show "unat (queue_round_up_po2 (dq_size rhs + 1)) * unat sz < 2 ^ 64"
  proof (cases "xs = []")
    case True
    then have "dq_size rhs = 0" using S by (simp add: unat_eq_0)
    moreover have "queue_round_up_po2 1 = 1" by (simp add: queue_round_up_po2_def)
    ultimately show ?thesis using sz by (simp add: sizeof_ok_def)
  next
    case False
    have "unat (queue_round_up_po2 (dq_size rhs + 1)) * unat sz \<le> unat (dq_cap rhs) * unat sz"
      using le [OF False] by (rule mult_le_mono1)
    also have "\<dots> < 2 ^ 63" by (rule B(3))
    finally show ?thesis by (rule less_trans) simp
  qed
qed

lemma dq_copy_rep:
  assumes r: "dq_rep ty sz xs rhs" and nw: "new_limit nw"
  shows "(dq_copy nw ty sz rhs = Some (Inl Bad_alloc, dq_new) \<and> \<not> nw (queue_round_up_po2 (dq_size rhs + 1) * sz)) \<or>
    (\<exists>q. dq_copy nw ty sz rhs = Some (Inr (), q) \<and> dq_rep ty sz xs q)"
proof (cases "xs = []")
  case True
  then have "dq_size rhs = 0" "dq_head rhs = dq_tail rhs"
    using dq_rep_size(1,2) [OF r] by (auto simp: unat_eq_0 dq_empty_def)
  moreover have "sizeof_ok sz" using r by (simp add: dq_rep_def)
  ultimately show ?thesis
    using True by (simp add: dq_copy_def dq_reserve_def ring_copy_def ring_walk.simps [of _ "dq_tail rhs"]
        dq_rep_new dq_new_def [symmetric])
next
  case False
  have sz: "sizeof_ok sz" using r by (simp add: dq_rep_def)
  define c where "c = queue_round_up_po2 (dq_size rhs + 1)"
  note C = dq_copy_request [OF r, folded c_def] and S = dq_rep_size(1) [OF r]
  have len: "length xs < unat c" "0 < length xs"
    using dq_round_up(3) [of "dq_size rhs"] dq_rep_bound(1) [OF r] S False by (simp_all add: c_def)
  have res: "dq_reserve nw ty sz (dq_size rhs) dq_new = dq_grow_to nw ty sz c dq_new"
    using S len(2) by (simp add: dq_reserve_def dq_new_def dq_capacity_def word_less_nat_alt c_def)
  have l0: "length [] < unat c" using len by simp
  note g = dq_grow_to_rep [OF dq_rep_new [OF sz, of ty] C(2) l0 C(1) nw]
  show ?thesis
  proof (cases "nw (c * sz)")
    case F: False
    then show ?thesis using g(1) res by (simp add: dq_copy_def c_def)
  next
    case T: True
    then obtain q where q: "dq_grow_to nw ty sz c dq_new = Some (Inr (), q)" "dq_rep ty sz [] q"
        "dq_cap q = c" "dq_head q = 0"
      using g(2) by blast
    have t: "dq_tail q = 0" using dq_rep_size(2) [OF q(2)] q(4) by (simp add: dq_empty_def)
    have c0: "c \<noteq> 0" using len by auto
    then have q': "ring_holds ty c 0 0 [] (dq_buf q)" "dq_mask q = c - 1" "unat c * unat sz < 2 ^ 63"
      using q t by (simp_all add: dq_rep_def)
    have rhs: "ring_holds ty (dq_cap rhs) (dq_head rhs) (dq_tail rhs) xs (dq_buf rhs)"
        "dq_mask rhs = dq_cap rhs - 1"
      using r False by (cases rule: dq_rep_cases; simp)+
    obtain m te where "ring_copy ty (dq_cap rhs - 1) (dq_head rhs) (dq_tail rhs) (dq_buf rhs) (c - 1) (dq_buf q, 0)
          = Some (m, te)" "ring_holds ty c 0 te xs m"
      using ring_copy_rep [OF rhs(1) q'(1) len(1)] by blast
    then show ?thesis using q q' c0 t rhs(2) res sz by (simp add: dq_copy_def dq_rep_def)
  qed
qed

lemma dq_replace_by_rep:
  assumes "dq_rep ty sz ys q"
  shows "dq_replace_by ty q (Inl e, t) = Some (Inl e, q)"
    "dq_replace_by ty q (Inr (), t) = Some (Inr (), t)"
  using dq_destroy_rep [OF assms] by (simp_all add: dq_replace_by_def dq_swap_def)

lemma dq_assign_rep:
  assumes "dq_rep ty sz xs rhs" "dq_rep ty sz ys q" "new_limit nw"
  shows "dq_assign nw ty sz q (Other rhs) = Some (Inl Bad_alloc, q) \<or>
    (\<exists>q'. dq_assign nw ty sz q (Other rhs) = Some (Inr (), q') \<and> dq_rep ty sz xs q')"
    "dq_assign_move ty q (Other rhs) = Some (rhs, Other dq_new)"
proof -
  show "dq_assign nw ty sz q (Other rhs) = Some (Inl Bad_alloc, q) \<or>
      (\<exists>q'. dq_assign nw ty sz q (Other rhs) = Some (Inr (), q') \<and> dq_rep ty sz xs q')"
    using dq_copy_rep [OF assms(1,3)] dq_replace_by_rep [OF assms(2)] by auto
  show "dq_assign_move ty q (Other rhs) = Some (rhs, Other dq_new)"
    using dq_clear_rep [OF assms(2)] by (auto simp: free_slots_raw)
qed

lemma dq_eq_rep:
  assumes "dq_rep ty sz xs a" "dq_rep ty' sz' ys b"
  shows "dq_eq eq a b = Some (list_all2 eq xs ys)"
proof (cases "length xs = length ys")
  case True
  then have s: "dq_size a = dq_size b"
    using dq_rep_size(1) [OF assms(1)] dq_rep_size(1) [OF assms(2)] by (simp add: usize_eq_iff)
  show ?thesis
  proof (cases "xs = []")
    case nil: True
    then have "dq_head a = dq_tail a" "ys = []"
      using dq_rep_size(2) [OF assms(1)] True by (auto simp: dq_empty_def)
    then show ?thesis using s nil by (simp add: dq_eq_def ring_equal.simps [of _ _ "dq_tail a"])
  next
    case False
    then have ys: "ys \<noteq> []" using True by auto
    have "ring_holds ty (dq_cap a) (dq_head a) (dq_tail a) xs (dq_buf a)" "dq_mask a = dq_cap a - 1"
      using assms(1) False by (cases rule: dq_rep_cases; simp)+
    moreover have "ring_holds ty' (dq_cap b) (dq_head b) (dq_tail b) ys (dq_buf b)" "dq_mask b = dq_cap b - 1"
      using assms(2) ys by (cases rule: dq_rep_cases; simp)+
    ultimately show ?thesis using s True ring_equal_rep by (fastforce simp: dq_eq_def)
  qed
next
  case False
  then show ?thesis
    using dq_rep_size(1) [OF assms(1)] dq_rep_size(1) [OF assms(2)] list_all2_lengthD [of eq xs ys]
    by (auto simp: dq_eq_def usize_eq_iff)
qed

lemma dq_shrink_rep:
  assumes r: "dq_rep ty sz xs q" and nw: "new_limit nw"
  shows "(dq_shrink_to_fit nw ty sz q = Some (Inl Bad_alloc, q) \<and> xs \<noteq> []) \<or>
    (\<exists>q'. dq_shrink_to_fit nw ty sz q = Some (Inr (), q') \<and> dq_rep ty sz xs q' \<and>
       (xs = [] \<longrightarrow> q' = dq_new) \<and> (xs \<noteq> [] \<longrightarrow> least_po2 (Suc (length xs)) (unat (dq_cap q'))))"
proof (cases "xs = []")
  case True
  have "lin_rep ty [] (dq_buf q)"
    using r
  proof (cases rule: dq_rep_cases)
    case null
    then show ?thesis by (simp add: dq_new_def lin_rep_def)
  next
    case buffer
    then show ?thesis using True ring_rep_Nil_lin [OF ring_holdsD(3)] by auto
  qed
  moreover have "dq_size q = 0" using dq_rep_size(1) [OF r] True by (simp add: unat_eq_0)
  moreover have "sizeof_ok sz" using r by (simp add: dq_rep_def)
  ultimately show ?thesis using True
    by (simp add: dq_shrink_to_fit_def free_slots_raw dq_rep_new)
next
  case False
  define c where "c = queue_round_up_po2 (dq_size q + 1)"
  note C = dq_copy_request [OF r, folded c_def] and S = dq_rep_size(1) [OF r]
  note u = dq_round_up [of "dq_size q", folded c_def]
  have len: "length xs < unat c" and least: "least_po2 (Suc (length xs)) (unat c)"
    using u dq_rep_bound(1) [OF r] S by simp_all
  have s0: "dq_size q \<noteq> 0" using S False by auto
  note g = dq_grow_to_rep [OF r C(2) len C(1) nw]
  show ?thesis
  proof (cases "c < dq_cap q")
    case True
    then have d: "dq_shrink_to_fit nw ty sz q = dq_grow_to nw ty sz c q"
      using s0 by (simp add: dq_shrink_to_fit_def c_def)
    show ?thesis
    proof (cases "nw (c * sz)")
      case T: True
      from g(2) [OF this] d least False show ?thesis by auto
    qed (use g(1) d False in simp)
  next
    case F: False
    then have "c = dq_cap q" using C(3) [OF False] by (simp add: word_less_nat_alt usize_eq_iff)
    moreover have "dq_shrink_to_fit nw ty sz q = Some (Inr (), q)"
      using s0 F by (simp add: dq_shrink_to_fit_def c_def)
    ultimately show ?thesis using r False least by auto
  qed
qed

section \<open>Properties\<close>

text \<open>
  The operations of a history: the three ways to push a value from outside the queue,
  \<open>q.push(q.front())\<close>, the two \<open>pop\<close>s, \<open>reserve\<close>, \<open>shrink_to_fit\<close> and \<open>clear\<close>. The code checks
  no precondition: the client must not pop from an empty queue, must not push a reference
  into a queue that has to grow, and must not reserve a number of slots whose bytes overflow.
\<close>

datatype 'a queue_op = Enqueue 'a | Enqueue_move 'a | Enqueue_emplace 'a | Enqueue_front
  | Dequeue | Dequeue_out | Set_aside usize | Trim | Empty_out

fun queue_op_pre :: "usize \<Rightarrow> 'a queue_op \<Rightarrow> 'a queue \<Rightarrow> bool" where
  "queue_op_pre sz Enqueue_front q \<longleftrightarrow> \<not> dq_empty q \<and> unat (dq_size q) < unat (dq_capacity q)"
| "queue_op_pre sz Dequeue q \<longleftrightarrow> \<not> dq_empty q"
| "queue_op_pre sz Dequeue_out q \<longleftrightarrow> \<not> dq_empty q"
| "queue_op_pre sz (Set_aside n) q \<longleftrightarrow> dq_request_ok sz n"
| "queue_op_pre sz _ q \<longleftrightarrow> True"

text \<open>The effect of an operation on a list, with the value that it hands out.\<close>

fun queue_op_spec :: "'a queue_op \<Rightarrow> 'a list \<Rightarrow> 'a option \<times> 'a list" where
  "queue_op_spec (Enqueue x) xs = (None, xs @ [x])"
| "queue_op_spec (Enqueue_move x) xs = (None, xs @ [x])"
| "queue_op_spec (Enqueue_emplace x) xs = (None, xs @ [x])"
| "queue_op_spec Enqueue_front xs = (None, xs @ [hd xs])"
| "queue_op_spec Dequeue xs = (None, tl xs)"
| "queue_op_spec Dequeue_out xs = (Some (hd xs), tl xs)"
| "queue_op_spec (Set_aside n) xs = (None, xs)"
| "queue_op_spec Trim xs = (None, xs)"
| "queue_op_spec Empty_out xs = (None, [])"

text \<open>Only these allocate, so that only these may throw.\<close>

fun queue_op_allocates :: "'a queue_op \<Rightarrow> bool" where
  "queue_op_allocates Enqueue_front = False"
| "queue_op_allocates Dequeue = False"
| "queue_op_allocates Dequeue_out = False"
| "queue_op_allocates Empty_out = False"
| "queue_op_allocates _ = True"

fun queue_op_step :: "(usize \<Rightarrow> bool) \<Rightarrow> 'a elem_type \<Rightarrow> usize \<Rightarrow> 'a queue_op \<Rightarrow> 'a queue \<Rightarrow>
    ((exn + 'a option) \<times> 'a queue) option" where
  "queue_op_step nw ty sz (Enqueue x) q = map_option (map_prod (map_sum id (\<lambda>_. None)) id) (dq_push nw ty sz (Value x) q)"
| "queue_op_step nw ty sz (Enqueue_move x) q =
     map_option (\<lambda>(r, _, q'). (map_sum id (\<lambda>_. None) r, q')) (dq_push_move nw ty sz x q)"
| "queue_op_step nw ty sz (Enqueue_emplace x) q =
     map_option (map_prod (map_sum id (\<lambda>_. None)) id) (dq_emplace nw ty sz id x q)"
| "queue_op_step nw ty sz Enqueue_front q =
     map_option (map_prod (map_sum id (\<lambda>_. None)) id) (dq_push nw ty sz (Own (unat (dq_head q))) q)"
| "queue_op_step nw ty sz Dequeue q = map_option (Pair (Inr None)) (dq_pop ty q)"
| "queue_op_step nw ty sz Dequeue_out q = map_option (\<lambda>(x, q'). (Inr (Some x), q')) (dq_pop_out ty q)"
| "queue_op_step nw ty sz (Set_aside n) q = map_option (map_prod (map_sum id (\<lambda>_. None)) id) (dq_reserve nw ty sz n q)"
| "queue_op_step nw ty sz Trim q = map_option (map_prod (map_sum id (\<lambda>_. None)) id) (dq_shrink_to_fit nw ty sz q)"
| "queue_op_step nw ty sz Empty_out q = map_option (Pair (Inr None)) (dq_clear ty q)"

text \<open>One operation of a history, with the outcome of the allocation it may make.\<close>

definition dq_step :: "'a elem_type \<Rightarrow> usize \<Rightarrow> (usize \<Rightarrow> bool) \<times> 'a queue_op \<Rightarrow> 'a queue \<Rightarrow>
    ((exn + 'a option) \<times> 'a queue) option" where
  "dq_step ty sz = (\<lambda>(nw, i). queue_op_step nw ty sz i)"

text \<open>What the reported results say about a list: a value that was not the first in it, or
  an exception that cannot be thrown, do not replay.\<close>

fun queue_ops_replay :: "('a queue_op \<times> (exn + 'a option)) list \<Rightarrow> 'a list \<Rightarrow> 'a list option" where
  "queue_ops_replay [] xs = Some xs"
| "queue_ops_replay ((i, Inl e) # log) xs = (if queue_op_allocates i \<and> e = Bad_alloc then queue_ops_replay log xs else None)"
| "queue_ops_replay ((i, Inr out) # log) xs =
     (if out = fst (queue_op_spec i xs) then queue_ops_replay log (snd (queue_op_spec i xs)) else None)"

lemma dq_push_front_rep:
  assumes r: "dq_rep ty sz xs q" and nw: "new_limit nw" and pre: "xs \<noteq> []" "length xs < unat (dq_capacity q)"
  shows "\<exists>q'. dq_push nw ty sz (Own (unat (dq_head q))) q = Some (Inr (), q') \<and> dq_rep ty sz (xs @ [hd xs]) q'"
proof -
  have room: "dq_ensure_space nw ty sz q = Some (Inr False, q)" using dq_ensure_space_rep [OF r nw] pre(2) by auto
  obtain y ys where xs: "xs = y # ys" using pre(1) by (cases xs) auto
  have "slot_read (unat (dq_head q)) (dq_buf q) = Some y"
    using dq_pop_rep(3) [of ty sz y ys q] r xs by (simp add: dq_front_def)
  then show ?thesis
    using dq_construct_back_rep [OF r pre(2), of y] room xs by (auto simp: dq_push_def)
qed

lemma queue_op_step_rep:
  assumes r: "dq_rep ty sz xs q" and nw: "new_limit nw" and pre: "queue_op_pre sz i q"
  shows "(queue_op_allocates i \<and> queue_op_step nw ty sz i q = Some (Inl Bad_alloc, q)) \<or>
    (\<exists>q'. queue_op_step nw ty sz i q = Some (Inr (fst (queue_op_spec i xs)), q') \<and>
       dq_rep ty sz (snd (queue_op_spec i xs)) q')"
proof (cases i)
  case (Enqueue x)
  then show ?thesis using dq_push_rep [OF r nw, of x] by auto
next
  case (Enqueue_move x)
  then show ?thesis using dq_push_rep [OF r nw, of x] by auto
next
  case (Enqueue_emplace x)
  then show ?thesis using dq_emplace_rep [OF r nw, of id x] by auto
next
  case Enqueue_front
  then show ?thesis using dq_push_front_rep [OF r nw] dq_rep_size(1,2) [OF r] pre by auto
next
  case Dequeue
  then obtain y ys where "xs = y # ys" using pre dq_rep_size(2) [OF r] by (cases xs) auto
  with Dequeue show ?thesis using dq_pop_rep(1) [of ty sz y ys q] r by auto
next
  case Dequeue_out
  then obtain y ys where "xs = y # ys" using pre dq_rep_size(2) [OF r] by (cases xs) auto
  with Dequeue_out show ?thesis using dq_pop_rep(2) [of ty sz y ys q] r by auto
next
  case (Set_aside n)
  then show ?thesis using dq_reserve_rep [OF r _ nw, of n] pre by auto
next
  case Trim
  then show ?thesis using dq_shrink_rep [OF r nw] by auto
next
  case Empty_out
  then show ?thesis using dq_clear_rep [OF r] by auto
qed

lemma dq_run_rep:
  assumes "dq_rep ty sz xs q" "\<forall>nw \<in> fst ` set ops. new_limit nw"
  shows "\<exists>k \<le> length ops. \<exists>outs q' ys. run_ops (dq_step ty sz) (take k ops) q = Some (outs, q') \<and>
    queue_ops_replay (zip (map snd (take k ops)) outs) xs = Some ys \<and> dq_rep ty sz ys q' \<and>
    (k < length ops \<longrightarrow> \<not> queue_op_pre sz (snd (ops ! k)) q')"
  using assms
proof (induction ops arbitrary: xs q)
  case Nil
  then show ?case by simp
next
  case (Cons io ops)
  obtain nw i where io: "io = (nw, i)" by (cases io)
  show ?case
  proof (cases "queue_op_pre sz i q")
    case False
    then show ?thesis using Cons.prems(1) io by (intro exI [of _ 0]) simp
  next
    case True
    obtain out q1 xs1 where 1: "dq_step ty sz io q = Some (out, q1)" "dq_rep ty sz xs1 q1"
        "\<And>log. queue_ops_replay ((i, out) # log) xs = queue_ops_replay log xs1"
      using queue_op_step_rep [OF Cons.prems(1) _ True, of nw] Cons.prems io by (fastforce simp: dq_step_def)
    have "\<forall>nw \<in> fst ` set ops. new_limit nw" using Cons.prems(2) by simp
    from Cons.IH [OF 1(2) this] obtain k outs q' ys where k: "k \<le> length ops"
        "run_ops (dq_step ty sz) (take k ops) q1 = Some (outs, q')"
        "queue_ops_replay (zip (map snd (take k ops)) outs) xs1 = Some ys" "dq_rep ty sz ys q'"
        "k < length ops \<longrightarrow> \<not> queue_op_pre sz (snd (ops ! k)) q'" by blast
    then show ?thesis using 1(1,3) io
      by (intro exI [of _ "Suc k"] conjI exI [of _ "out # outs"] exI [of _ q'] exI [of _ ys]) simp_all
  qed
qed

text \<open>
  C18. Every history of pushes (of values from outside the queue, copied, moved or emplaced,
  and of \<open>front()\<close> while there is room), \<open>pop()\<close>, \<open>pop(out)\<close>, \<open>reserve\<close>, \<open>shrink_to_fit\<close> and
  \<open>clear\<close> of a growable queue, whatever allocations fail, runs without undefined behaviour up
  to the first operation whose precondition the client violates: \<open>pop\<close> does not check that the
  queue has an element, a push of an element of the queue itself needs a queue that does not
  grow, and \<open>reserve\<close> does not check that its number of bytes fits. No element is lost: the
  reported results replay on an unbounded first-in first-out list (an operation that throws
  \<open>bad_alloc\<close> changed nothing), across every growth and wrap-around, and the final queue is
  destroyed without a leak.
\<close>

theorem queue_histories:
  assumes "sizeof_ok sz" "\<forall>nw \<in> fst ` set ops. new_limit nw"
  shows "\<exists>k \<le> length ops. \<exists>outs q. run_ops (dq_step ty sz) (take k ops) dq_new = Some (outs, q) \<and>
           queue_ops_replay (zip (map snd (take k ops)) outs) [] = Some (dq_contents q) \<and> dq_inv ty sz q \<and>
           (k < length ops \<longrightarrow> \<not> queue_op_pre sz (snd (ops ! k)) q) \<and>
           dq_destroy ty q = Some ()"
proof -
  obtain k outs q ys where "k \<le> length ops" "run_ops (dq_step ty sz) (take k ops) dq_new = Some (outs, q)"
      "queue_ops_replay (zip (map snd (take k ops)) outs) [] = Some ys" and r: "dq_rep ty sz ys q"
      and "k < length ops \<longrightarrow> \<not> queue_op_pre sz (snd (ops ! k)) q"
    using dq_run_rep [OF dq_rep_new [OF assms(1), of ty] assms(2)] by blast
  then show ?thesis using dq_rep_contents [OF r] dq_rep_inv [OF r] dq_destroy_rep [OF r] by blast
qed

theorem queue_histories_witness:
  "\<exists>outs q. run_ops (dq_step \<lparr>is_trivial = False, residue = \<lambda>_. 0 :: int\<rparr> 4)
       [(\<lambda>b. b < 4096, Enqueue 7), (\<lambda>b. b < 4096, Enqueue_move 8), (\<lambda>b. False, Trim)] dq_new = Some (outs, q) \<and>
     queue_ops_replay (zip [Enqueue 7, Enqueue_move 8, Trim] outs) [] = Some (dq_contents q)"
proof -
  let ?ops = "[(\<lambda>b. b < 4096, Enqueue 7), (\<lambda>b. b < 4096, Enqueue_move 8), (\<lambda>b. False, Trim)] :: ((usize \<Rightarrow> bool) \<times> int queue_op) list"
  have nw: "\<forall>nw \<in> fst ` set ?ops. new_limit nw" by (auto simp: new_limit_def word_less_nat_alt)
  have sz: "sizeof_ok 4" by (simp add: sizeof_ok_def)
  from queue_histories [OF sz nw, of "\<lparr>is_trivial = False, residue = \<lambda>_. 0 :: int\<rparr>"]
  obtain k outs q where k: "k \<le> length ?ops" "run_ops (dq_step \<lparr>is_trivial = False, residue = \<lambda>_. 0 :: int\<rparr> 4) (take k ?ops) dq_new = Some (outs, q)"
      "queue_ops_replay (zip (map snd (take k ?ops)) outs) [] = Some (dq_contents q)"
      "k < length ?ops \<longrightarrow> \<not> queue_op_pre 4 (snd (?ops ! k)) q" by blast
  have "k = 3"
  proof (rule ccontr)
    assume "k \<noteq> 3"
    then have "k = 0 \<or> k = 1 \<or> k = 2" using k(1) by auto
    with k(4) show False by auto
  qed
  with k show ?thesis by (auto simp: numeral_3_eq_3)
qed

text \<open>
  \<open>reserve(n)\<close> either throws \<open>bad_alloc\<close> with the queue unchanged or returns with
  the same elements in the same order and, from then on, room for \<open>n\<close> elements in all: a
  batch that fits is pushed without any allocation. \<open>shrink_to_fit\<close>
  keeps the elements and leaves the least power-of-two buffer that holds them with one
  slot to spare, or none at all when the queue is empty.
\<close>

theorem queue_reserve_and_shrink:
  assumes "dq_inv ty sz q" "new_limit nw" "dq_request_ok sz n"
  shows "(dq_reserve nw ty sz n q = Some (Inl Bad_alloc, q) \<or>
     (\<exists>q'. dq_reserve nw ty sz n q = Some (Inr (), q') \<and> dq_inv ty sz q' \<and>
        dq_contents q' = dq_contents q \<and> unat n \<le> unat (dq_capacity q') \<and>
        (\<forall>xs. length (dq_contents q) + length xs \<le> unat n \<longrightarrow>
           (\<exists>q1. push_batch (dq_offer (\<lambda>_. False) ty sz) xs q' = Some (length xs, q1) \<and>
              dq_contents q1 = dq_contents q @ xs)))) \<and>
    (dq_shrink_to_fit nw ty sz q = Some (Inl Bad_alloc, q) \<or>
     (\<exists>q'. dq_shrink_to_fit nw ty sz q = Some (Inr (), q') \<and> dq_inv ty sz q' \<and>
        dq_contents q' = dq_contents q \<and>
        (if dq_contents q = [] then dq_cap q' = 0
         else least_po2 (Suc (length (dq_contents q))) (unat (dq_cap q')))))"
proof -
  have r: "dq_rep ty sz (dq_contents q) q" using assms(1) by (simp add: dq_inv_def)
  have batch: "\<exists>q1. push_batch (dq_offer (\<lambda>_. False) ty sz) xs q' = Some (length xs, q1) \<and>
      dq_contents q1 = dq_contents q @ xs"
    if "dq_rep ty sz (dq_contents q) q'" "unat n \<le> unat (dq_capacity q')"
      "length (dq_contents q) + length xs \<le> unat n" for xs q'
  proof -
    have "length xs \<le> dq_room q'" using that by (simp add: dq_room_def dq_rep_contents [OF that(1)])
    from dq.push_batch_room [OF dq_rep_inv [OF that(1)] this, of "\<lambda>_. False"] show ?thesis
      using dq_rep_contents [OF that(1)] by auto
  qed
  have 1: "dq_reserve nw ty sz n q = Some (Inl Bad_alloc, q) \<or>
     (\<exists>q'. dq_reserve nw ty sz n q = Some (Inr (), q') \<and> dq_inv ty sz q' \<and>
        dq_contents q' = dq_contents q \<and> unat n \<le> unat (dq_capacity q') \<and>
        (\<forall>xs. length (dq_contents q) + length xs \<le> unat n \<longrightarrow>
           (\<exists>q1. push_batch (dq_offer (\<lambda>_. False) ty sz) xs q' = Some (length xs, q1) \<and>
              dq_contents q1 = dq_contents q @ xs)))"
  proof -
    consider "dq_reserve nw ty sz n q = Some (Inl Bad_alloc, q)"
      | q' where "dq_reserve nw ty sz n q = Some (Inr (), q')" "dq_rep ty sz (dq_contents q) q'"
          "unat n \<le> unat (dq_capacity q')"
      using dq_reserve_rep [OF r assms(3,2)] by blast
    then show ?thesis
    proof cases
      case (2 q')
      show ?thesis
        using 2(1,3) batch [OF 2(2,3)] dq_rep_contents [OF 2(2)] dq_rep_inv [OF 2(2)] by blast
    qed blast
  qed
  have 2: "dq_shrink_to_fit nw ty sz q = Some (Inl Bad_alloc, q) \<or>
     (\<exists>q'. dq_shrink_to_fit nw ty sz q = Some (Inr (), q') \<and> dq_inv ty sz q' \<and>
        dq_contents q' = dq_contents q \<and>
        (if dq_contents q = [] then dq_cap q' = 0
         else least_po2 (Suc (length (dq_contents q))) (unat (dq_cap q'))))"
    using dq_shrink_rep [OF r assms(2)]
  proof (elim disjE conjE exE)
    fix q'
    assume q': "dq_shrink_to_fit nw ty sz q = Some (Inr (), q')" "dq_rep ty sz (dq_contents q) q'"
      "dq_contents q = [] \<longrightarrow> q' = dq_new"
      "dq_contents q \<noteq> [] \<longrightarrow> least_po2 (Suc (length (dq_contents q))) (unat (dq_cap q'))"
    then have "if dq_contents q = [] then dq_cap q' = 0
         else least_po2 (Suc (length (dq_contents q))) (unat (dq_cap q'))"
      by (simp add: dq_new_def)
    with q'(1) dq_rep_contents [OF q'(2)] dq_rep_inv [OF q'(2)] show ?thesis by blast
  qed blast
  show ?thesis by (rule conjI [OF 1 2])
qed

theorem queue_reserve_and_shrink_witness:
  "dq_inv \<lparr>is_trivial = True, residue = id\<rparr> 8 (dq_new :: int queue) \<and>
   (\<exists>q. dq_shrink_to_fit (\<lambda>b. b < 4096) \<lparr>is_trivial = True, residue = id\<rparr> 8 (dq_new :: int queue) = Some (Inr (), q) \<and>
      dq_cap q = 0)"
proof -
  let ?ty = "\<lparr>is_trivial = True, residue = id\<rparr> :: int elem_type"
  have r: "dq_rep ?ty 8 [] dq_new" by (rule dq_rep_new) (simp add: sizeof_ok_def)
  have nw: "new_limit (\<lambda>b. b < 4096)" by (auto simp: new_limit_def word_less_nat_alt)
  have "dq_shrink_to_fit (\<lambda>b. b < 4096) ?ty 8 dq_new \<noteq> Some (Inl Bad_alloc, dq_new)"
    by (simp add: dq_shrink_to_fit_def dq_new_def dq_size_def free_slots_def)
  then show ?thesis
    using queue_reserve_and_shrink [OF dq_rep_inv [OF r] nw, of 4] dq_rep_contents [OF r] dq_rep_inv [OF r]
    by (auto simp: dq_request_ok_def)
qed

text \<open>
  Copying and assigning growable queues gives an equal sequence of elements and leaves the
  source alone, or throws \<open>bad_alloc\<close> and leaves the target as it was; moving transfers the
  buffer and leaves a valid empty queue behind; comparison compares the sequences, whatever
  the capacities and the positions of the indices.
\<close>

theorem queue_value_semantics:
  assumes "dq_inv ty sz q" "dq_inv ty sz t" "new_limit nw"
  shows "(dq_copy nw ty sz t = Some (Inl Bad_alloc, dq_new) \<or>
      (\<exists>q'. dq_copy nw ty sz t = Some (Inr (), q') \<and> dq_inv ty sz q' \<and> dq_contents q' = dq_contents t)) \<and>
    (dq_assign nw ty sz q (Other t) = Some (Inl Bad_alloc, q) \<or>
      (\<exists>q'. dq_assign nw ty sz q (Other t) = Some (Inr (), q') \<and> dq_inv ty sz q' \<and>
         dq_contents q' = dq_contents t)) \<and>
    dq_assign_move ty q (Other t) = Some (t, Other dq_new) \<and>
    dq_inv ty sz (snd (dq_move t)) \<and> dq_contents (snd (dq_move t)) = [] \<and>
    dq_eq eq q t = Some (list_all2 eq (dq_contents q) (dq_contents t))"
proof -
  have r: "dq_rep ty sz (dq_contents q) q" "dq_rep ty sz (dq_contents t) t"
    using assms(1,2) by (simp_all add: dq_inv_def)
  have "sizeof_ok sz" using r(1) by (simp add: dq_rep_def)
  note n = dq_rep_new [OF this, of ty]
  have "dq_copy nw ty sz t = Some (Inl Bad_alloc, dq_new) \<or>
      (\<exists>q'. dq_copy nw ty sz t = Some (Inr (), q') \<and> dq_inv ty sz q' \<and> dq_contents q' = dq_contents t)"
    using dq_copy_rep [OF r(2) assms(3)] dq_rep_contents dq_rep_inv by blast
  moreover have "dq_assign nw ty sz q (Other t) = Some (Inl Bad_alloc, q) \<or>
      (\<exists>q'. dq_assign nw ty sz q (Other t) = Some (Inr (), q') \<and> dq_inv ty sz q' \<and>
         dq_contents q' = dq_contents t)"
    using dq_assign_rep(1) [OF r(2,1) assms(3)] dq_rep_contents dq_rep_inv by blast
  ultimately show ?thesis
    using dq_assign_rep(2) [OF r(2,1) assms(3)] dq_eq_rep [OF r] dq_rep_contents [OF n] dq_rep_inv [OF n]
    by (simp add: dq_move_def)
qed

theorem queue_value_semantics_witness:
  "\<exists>q. dq_from_list (\<lambda>b. b < 4096) \<lparr>is_trivial = False, residue = \<lambda>_. 0 :: int\<rparr> 4 [1, 2, 3] = Some (Inr (), q) \<and>
     dq_eq (=) q dq_new = Some False"
proof -
  let ?ty = "\<lparr>is_trivial = False, residue = \<lambda>_. 0 :: int\<rparr>" and ?nw = "\<lambda>b :: usize. b < 4096"
  have nw: "new_limit ?nw" by (auto simp: new_limit_def word_less_nat_alt)
  have n: "dq_rep ?ty 4 [] dq_new" by (rule dq_rep_new) (simp add: sizeof_ok_def)
  have "queue_round_up_po2 4 = 4" by (simp add: queue_round_up_po2_def smear_def Let_def)
  then obtain q where q: "dq_from_list ?nw ?ty 4 [1, 2, 3] = Some (Inr (), q)" "dq_rep ?ty 4 [1, 2, 3] q"
    using dq_from_list_rep [of 4 "[1, 2, 3]" ?nw ?ty] nw by (auto simp: dq_request_ok_def sizeof_ok_def)
  show ?thesis
    using queue_value_semantics [OF dq_rep_inv [OF q(2)] dq_rep_inv [OF n] nw, of "(=)"] q(1)
      dq_rep_contents [OF q(2)] dq_rep_contents [OF n]
    by simp
qed

text \<open>
  Pushing a reference to an element of the queue itself is safe while there is room, and
  then appends a copy of it; when the queue is at its capacity and memory is available,
  \<open>ensure_space\<close> frees the buffer before the reference is read: undefined behaviour.
\<close>

theorem queue_push_own_element:
  assumes "dq_inv ty sz q" "new_limit nw" "slot_read i (dq_buf q) = Some x"
  shows "if length (dq_contents q) < unat (dq_capacity q)
    then dq_push nw ty sz (Own i) q = dq_push nw ty sz (Value x) q
    else if dq_push nw ty sz (Value x) q = Some (Inl Bad_alloc, q)
    then dq_push nw ty sz (Own i) q = Some (Inl Bad_alloc, q)
    else dq_push nw ty sz (Own i) q = None"
proof -
  have r: "dq_rep ty sz (dq_contents q) q" using assms(1) by (simp add: dq_inv_def)
  show ?thesis
    using dq_ensure_space_rep [OF r assms(2)] dq_rep_size(3) [OF r] assms(3)
    by (auto simp: dq_push_def split: bind_splits)
qed

theorem queue_push_own_element_witness:
  "\<exists>q. dq_from_list (\<lambda>b. b < 4096) \<lparr>is_trivial = False, residue = \<lambda>_. 0 :: int\<rparr> 4 [5] = Some (Inr (), q) \<and>
     dq_push (\<lambda>b. b < 8) \<lparr>is_trivial = False, residue = \<lambda>_. 0\<rparr> 4 (Own 0) q = Some (Inl Bad_alloc, q)"
proof -
  let ?ty = "\<lparr>is_trivial = False, residue = \<lambda>_. 0 :: int\<rparr>" and ?nw = "\<lambda>b :: usize. b < 4096"
  have nw: "new_limit ?nw" "new_limit (\<lambda>b. b < 8)" by (auto simp: new_limit_def word_less_nat_alt)
  have po2: "queue_round_up_po2 2 = 2" by (simp add: queue_round_up_po2_def smear_def Let_def)
  have rep2: "replicate 2 None = [None, None :: int option]" by (simp add: numeral_2_eq_2)
  define q where "q = \<lparr>dq_buf = [Some 5 :: int option, None], dq_cap = 2, dq_mask = 1, dq_head = 0, dq_tail = 1\<rparr>"
  have "dq_from_list ?nw ?ty 4 [5] = Some (Inr (), q)"
    using po2 rep2
    by (simp add: dq_from_list_def dq_reserve_def dq_new_def dq_capacity_def dq_grow_to_def dq_alloc_buf_def
        new_slots_def dq_relocate_objects_def ring_walk.simps [of _ 0] free_slots_def dq_size_def
        dq_construct_back_def slot_construct_def ring_advance_def Let_def q_def)
  moreover from this obtain q' where "dq_from_list ?nw ?ty 4 [5] = Some (Inr (), q')" "dq_rep ?ty 4 [5] q'"
    using dq_from_list_rep [of 4 "[5]" ?nw ?ty] nw by (auto simp: dq_request_ok_def sizeof_ok_def)
  ultimately have q: "dq_from_list ?nw ?ty 4 [5] = Some (Inr (), q)" "dq_rep ?ty 4 [5] q" by simp_all
  have "slot_read 0 (dq_buf q) = Some 5" "dq_capacity q = 1"
    by (simp_all add: slot_read_def dq_capacity_def q_def)
  moreover have "dq_push (\<lambda>b. b < 8) ?ty 4 (Value 5) q = Some (Inl Bad_alloc, q)"
    by (simp add: q_def dq_push_def dq_ensure_space_def dq_size_def dq_grow_to_def dq_alloc_buf_def new_slots_def)
  ultimately show ?thesis
    using queue_push_own_element [OF dq_rep_inv [OF q(2)] nw(2), of 0 5] q dq_rep_contents [OF q(2)] by simp
qed

text \<open>
  \<open>reserve\<close> computes the number of bytes without a check for overflow: when the rounded
  capacity times the element size is a multiple of 2^64, it returns normally, claims the
  capacity that was asked for, owns no storage at all, and the next push is undefined
  behaviour. \<open>reserve(SIZE_MAX)\<close> returns normally with a usable capacity of 0.
\<close>

theorem queue_reserve_overflow:
  assumes "0 < unat n" "unat n < 2 ^ 63" "queue_round_up_po2 (n + 1) * sz = 0" "nw 0"
  shows "(\<exists>q. dq_reserve nw ty sz n dq_new = Some (Inr (), q) \<and> unat n \<le> unat (dq_capacity q) \<and>
      dq_buf q = [] \<and> dq_offer nw' ty sz x q = None) \<and>
    (nw s1 \<longrightarrow> (\<exists>q. dq_reserve nw ty s1 (- 1) dq_new = Some (Inr (), q) \<and> dq_capacity q = 0))"
proof (intro conjI impI)
  define c where "c = queue_round_up_po2 (n + 1)"
  have c: "unat n < unat c" using dq_round_up(3) [OF assms(2)] by (simp add: c_def)
  then have c0: "c \<noteq> 0" by auto
  have cap: "unat (c - 1) = unat c - 1" using c0 by (simp add: unat_simps)
  have "0 < n" using assms(1) by (simp add: word_less_nat_alt)
  then have r: "dq_reserve nw ty sz n dq_new =
      Some (Inr (), \<lparr>dq_buf = [], dq_cap = c, dq_mask = c - 1, dq_head = 0, dq_tail = 0\<rparr>)"
    using assms(3,4) c0
    by (simp add: dq_reserve_def dq_new_def dq_capacity_def dq_grow_to_def dq_alloc_buf_def new_slots_def
        c_def [symmetric] dq_relocate_bytes_def dq_relocate_objects_def ring_walk.simps [of _ 0]
        free_slots_def dq_size_def)
  have "\<not> c \<le> 1" using c assms(1) by (auto simp: word_le_nat_alt)
  moreover have "(c AND (c - 1)) = 0"
    using unat_and_mask [of c c] dq_round_up(1) [OF assms(2)] by (simp add: c_def unat_eq_0)
  ultimately show "\<exists>q. dq_reserve nw ty sz n dq_new = Some (Inr (), q) \<and> unat n \<le> unat (dq_capacity q) \<and>
      dq_buf q = [] \<and> dq_offer nw' ty sz x q = None"
    using r c cap by (auto simp: dq_capacity_def dq_offer_def dq_push_def dq_ensure_space_def dq_size_def
        dq_construct_back_def slot_construct_def word_gt_0)
next
  assume "nw s1"
  moreover have "queue_round_up_po2 0 = 1" by (simp add: queue_round_up_po2_def)
  ultimately show "\<exists>q. dq_reserve nw ty s1 (- 1) dq_new = Some (Inr (), q) \<and> dq_capacity q = 0"
    by (simp add: dq_reserve_def dq_new_def dq_capacity_def dq_grow_to_def dq_alloc_buf_def new_slots_def
        dq_relocate_bytes_def dq_relocate_objects_def ring_walk.simps [of _ 0] free_slots_def dq_size_def
        list_all_length word_gt_0)
qed

theorem queue_reserve_overflow_witness:
  "\<exists>q. dq_reserve (\<lambda>b. b < 4096) \<lparr>is_trivial = True, residue = id\<rparr> 16 (2 ^ 60 - 1) dq_new = Some (Inr (), q) \<and>
     2 ^ 60 - 1 \<le> unat (dq_capacity q) \<and>
     dq_offer (\<lambda>b. b < 4096) \<lparr>is_trivial = True, residue = id\<rparr> 16 (0 :: int) q = None"
proof -
  have "queue_round_up_po2 (2 ^ 60) = 2 ^ 60" by (simp add: queue_round_up_po2_def smear_def Let_def)
  then show ?thesis
    using queue_reserve_overflow [of "2 ^ 60 - 1" 16 "\<lambda>b. b < 4096" "\<lparr>is_trivial = True, residue = id\<rparr>"
        "\<lambda>b. b < 4096" "0 :: int" 16]
    by auto
qed

end
