(* ===== verification/Vector.thy ===== *)
theory Vector
  imports PowerOfTwo HeapBuffers "HOL-Library.While_Combinator"
begin

text \<open>
  \<open>hpc::core::vector<T>\<close> (\<open>include/hpc/core/vector.hpp\<close>): a contiguous growable array. The
  element type is the parameter \<open>ty\<close> with its size \<open>sz\<close>, \<open>nw\<close> the outcome of
  \<open>operator new\<close>. Pointers and iterators into the array are indices from \<open>data_\<close>.
\<close>

section \<open>State and helpers\<close>

record 'a vector =
  vec_data :: "'a slots"
  vec_size :: usize
  vec_cap :: usize

definition vec_new :: "'a vector" where
  "vec_new = \<lparr>vec_data = [], vec_size = 0, vec_cap = 0\<rparr>"

definition vec_alloc :: "(usize \<Rightarrow> bool) \<Rightarrow> usize \<Rightarrow> usize \<Rightarrow> exn + 'a slots" where
  "vec_alloc nw sz n = (if n = 0 then Inr [] else new_slots nw sz n)"

definition vec_destroy_n :: "'a elem_type \<Rightarrow> usize \<Rightarrow> usize \<Rightarrow> 'a slots \<Rightarrow> 'a slots option" where
  "vec_destroy_n ty first count m =
     (if is_trivial ty then Some m
      else for_range 0 count (\<lambda>i. slot_destroy ty (unat (first + i))) m)"

text \<open>Relocation of one object within the buffer: move-construct at \<open>j\<close>, destroy at \<open>i\<close>.\<close>

definition slot_relocate :: "'a elem_type \<Rightarrow> nat \<Rightarrow> nat \<Rightarrow> 'a slots \<Rightarrow> 'a slots option" where
  "slot_relocate ty j i m = do {
     (x, m1) \<leftarrow> slot_move ty i m;
     m2 \<leftarrow> slot_construct ty j x m1;
     slot_destroy ty i m2
   }"

definition vec_shift_right :: "'a elem_type \<Rightarrow> usize \<Rightarrow> usize \<Rightarrow> usize \<Rightarrow> 'a slots \<Rightarrow> 'a slots option" where
  "vec_shift_right ty first lst n m =
     (let count = lst - first in
      if count = 0 then Some m
      else if is_trivial ty then slot_memcpy m (unat (first + n)) m (unat first) (unat count)
      else for_down count (\<lambda>i. slot_relocate ty (unat (first + i + n)) (unat (first + i))) m)"

definition vec_shift_left :: "'a elem_type \<Rightarrow> usize \<Rightarrow> usize \<Rightarrow> usize \<Rightarrow> 'a slots \<Rightarrow> 'a slots option" where
  "vec_shift_left ty first lst n m =
     (let count = lst - first in
      if count = 0 then Some m
      else if is_trivial ty then slot_memcpy m (unat (first - n)) m (unat first) (unat count)
      else for_range first lst (\<lambda>i. slot_relocate ty (unat (i - n)) (unat i)) m)"

section \<open>Growth\<close>

definition vec_reallocate :: "(usize \<Rightarrow> bool) \<Rightarrow> 'a elem_type \<Rightarrow> usize \<Rightarrow> usize \<Rightarrow> 'a vector \<Rightarrow>
    ((exn + unit) \<times> 'a vector) option" where
  "vec_reallocate nw ty sz new_cap v =
     (case vec_alloc nw sz new_cap of
        Inl e \<Rightarrow> Some (Inl e, v)
      | Inr buf \<Rightarrow> do {
          (buf', old) \<leftarrow>
            (if is_trivial ty
             then map_option (\<lambda>b. (b, vec_data v)) (slot_memcpy buf 0 (vec_data v) 0 (unat (vec_size v)))
             else for_range 0 (vec_size v) (\<lambda>i. slot_transfer ty (unat i) (unat i)) (buf, vec_data v));
          _ \<leftarrow> free_slots ty old;
          Some (Inr (), v\<lparr>vec_data := buf', vec_cap := new_cap\<rparr>)
        })"

definition vec_grow_to :: "(usize \<Rightarrow> bool) \<Rightarrow> 'a elem_type \<Rightarrow> usize \<Rightarrow> usize \<Rightarrow> 'a vector \<Rightarrow>
    ((exn + unit) \<times> 'a vector) option" where
  "vec_grow_to nw ty sz new_cap v =
     (if new_cap \<le> vec_cap v then Some (Inr (), v) else vec_reallocate nw ty sz new_cap v)"

text \<open>
  \<open>ensure_space\<close>. The doubling loop is \<open>None\<close> when it does not end; a normal return also
  tells whether the buffer was replaced.
\<close>

definition vec_new_cap :: "usize \<Rightarrow> usize \<Rightarrow> usize option" where
  "vec_new_cap cap needed = while_option (\<lambda>c. c < needed) (\<lambda>c. c * 2) (if cap \<noteq> 0 then cap * 2 else 4)"

definition vec_ensure_space :: "(usize \<Rightarrow> bool) \<Rightarrow> 'a elem_type \<Rightarrow> usize \<Rightarrow> usize \<Rightarrow> 'a vector \<Rightarrow>
    ((exn + bool) \<times> 'a vector) option" where
  "vec_ensure_space nw ty sz extra v =
     (if vec_size v + extra \<le> vec_cap v then Some (Inr False, v)
      else do {
        new_cap \<leftarrow> vec_new_cap (vec_cap v) (vec_size v + extra);
        (r, v') \<leftarrow> vec_grow_to nw ty sz new_cap v;
        Some (map_sum id (\<lambda>_. vec_cap v < new_cap) r, v')
      })"

definition vec_reserve :: "(usize \<Rightarrow> bool) \<Rightarrow> 'a elem_type \<Rightarrow> usize \<Rightarrow> usize \<Rightarrow> 'a vector \<Rightarrow>
    ((exn + unit) \<times> 'a vector) option" where
  "vec_reserve nw ty sz n v = (if vec_cap v < n then vec_grow_to nw ty sz n v else Some (Inr (), v))"

definition vec_shrink_to_fit :: "(usize \<Rightarrow> bool) \<Rightarrow> 'a elem_type \<Rightarrow> usize \<Rightarrow> 'a vector \<Rightarrow>
    ((exn + unit) \<times> 'a vector) option" where
  "vec_shrink_to_fit nw ty sz v =
     (if vec_size v < vec_cap v then vec_reallocate nw ty sz (vec_size v) v else Some (Inr (), v))"

section \<open>Access and comparison\<close>

definition vec_empty :: "'a vector \<Rightarrow> bool" where
  "vec_empty v \<longleftrightarrow> vec_size v = 0"

definition vec_index :: "'a vector \<Rightarrow> usize \<Rightarrow> 'a option" where
  "vec_index v i = slot_read (unat i) (vec_data v)"

definition vec_at :: "'a vector \<Rightarrow> usize \<Rightarrow> (exn + 'a) option" where
  "vec_at v i = (if vec_size v \<le> i then Some (Inl Out_of_range) else map_option Inr (vec_index v i))"

definition vec_front :: "'a vector \<Rightarrow> 'a option" where
  "vec_front v = vec_index v 0"

definition vec_back :: "'a vector \<Rightarrow> 'a option" where
  "vec_back v = vec_index v (vec_size v - 1)"

text \<open>
  Equality compares the object representations (\<open>memcmp\<close>) of trivially copyable elements,
  given by \<open>same_bytes\<close>, and uses the elements' own equality \<open>eq\<close> for the others.
\<close>

definition vec_eq :: "'a elem_type \<Rightarrow> ('a \<Rightarrow> 'a \<Rightarrow> bool) \<Rightarrow> ('a \<Rightarrow> 'a \<Rightarrow> bool) \<Rightarrow> 'a vector \<Rightarrow> 'a vector \<Rightarrow> bool option" where
  "vec_eq ty same_bytes eq a b =
     (if vec_size a \<noteq> vec_size b then Some False
      else all_range 0 (vec_size a) (\<lambda>i. do {
        x \<leftarrow> vec_index a i;
        y \<leftarrow> vec_index b i;
        Some (if is_trivial ty then same_bytes x y else eq x y)
      }))"

text \<open>\<open>std::lexicographical_compare\<close> over two ranges of the arrays.\<close>

function lex_compare :: "('a \<Rightarrow> 'a \<Rightarrow> bool) \<Rightarrow> usize \<Rightarrow> 'a vector \<Rightarrow> 'a vector \<Rightarrow> bool option" where
  "lex_compare lt i a b =
     (if i < vec_size a \<and> i < vec_size b then do {
        x \<leftarrow> vec_index a i;
        y \<leftarrow> vec_index b i;
        if lt x y then Some True else if lt y x then Some False else lex_compare lt (i + 1) a b
      } else Some (\<not> i < vec_size a \<and> i < vec_size b))"
  by pat_completeness auto
termination
  by (relation "measure (\<lambda>(lt, i, a, b). unat (vec_size a) - unat i)")
     (auto simp: unat_simps word_less_nat_alt)

declare lex_compare.simps [simp del]

definition vec_less :: "('a \<Rightarrow> 'a \<Rightarrow> bool) \<Rightarrow> 'a vector \<Rightarrow> 'a vector \<Rightarrow> bool option" where
  "vec_less lt a b = lex_compare lt 0 a b"

definition vec_less_eq :: "('a \<Rightarrow> 'a \<Rightarrow> bool) \<Rightarrow> 'a vector \<Rightarrow> 'a vector \<Rightarrow> bool option" where
  "vec_less_eq lt a b = map_option Not (vec_less lt b a)"

section \<open>Modifiers\<close>

definition vec_clear :: "'a elem_type \<Rightarrow> 'a vector \<Rightarrow> 'a vector option" where
  "vec_clear ty v = do {
     m \<leftarrow> vec_destroy_n ty 0 (vec_size v) (vec_data v);
     Some (v\<lparr>vec_data := m, vec_size := 0\<rparr>)
   }"

definition vec_destroy :: "'a elem_type \<Rightarrow> 'a vector \<Rightarrow> unit option" where
  "vec_destroy ty v = do { v' \<leftarrow> vec_clear ty v; free_slots ty (vec_data v') }"

text \<open>\<open>construct(data_ + size_++, v)\<close>\<close>

definition vec_construct_back :: "'a elem_type \<Rightarrow> 'a \<Rightarrow> 'a vector \<Rightarrow> 'a vector option" where
  "vec_construct_back ty x v = do {
     m \<leftarrow> slot_construct ty (unat (vec_size v)) x (vec_data v);
     Some (v\<lparr>vec_data := m, vec_size := vec_size v + 1\<rparr>)
   }"

definition vec_push_back :: "(usize \<Rightarrow> bool) \<Rightarrow> 'a elem_type \<Rightarrow> usize \<Rightarrow> 'a arg \<Rightarrow> 'a vector \<Rightarrow>
    ((exn + unit) \<times> 'a vector) option" where
  "vec_push_back nw ty sz value v = do {
     (r, v1) \<leftarrow> vec_ensure_space nw ty sz 1 v;
     (case r of
        Inl e \<Rightarrow> Some (Inl e, v1)
      | Inr moved \<Rightarrow> do {
          x \<leftarrow> arg_value moved (vec_data v1) value;
          v2 \<leftarrow> vec_construct_back ty x v1;
          Some (Inr (), v2)
        })
   }"

definition vec_push_back_move :: "(usize \<Rightarrow> bool) \<Rightarrow> 'a elem_type \<Rightarrow> usize \<Rightarrow> 'a \<Rightarrow> 'a vector \<Rightarrow>
    ((exn + unit) \<times> 'a \<times> 'a vector) option" where
  "vec_push_back_move nw ty sz x v = do {
     (r, v1) \<leftarrow> vec_ensure_space nw ty sz 1 v;
     (case r of
        Inl e \<Rightarrow> Some (Inl e, x, v1)
      | Inr _ \<Rightarrow> do {
          v2 \<leftarrow> vec_construct_back ty x v1;
          Some (Inr (), moved_from ty x, v2)
        })
   }"

definition vec_emplace_back :: "(usize \<Rightarrow> bool) \<Rightarrow> 'a elem_type \<Rightarrow> usize \<Rightarrow> ('b \<Rightarrow> 'a) \<Rightarrow> 'b \<Rightarrow> 'a vector \<Rightarrow>
    ((exn + usize) \<times> 'a vector) option" where
  "vec_emplace_back nw ty sz mk args v = do {
     (r, v1) \<leftarrow> vec_ensure_space nw ty sz 1 v;
     (case r of
        Inl e \<Rightarrow> Some (Inl e, v1)
      | Inr _ \<Rightarrow> do {
          v2 \<leftarrow> vec_construct_back ty (mk args) v1;
          Some (Inr (vec_size v1), v2)
        })
   }"

definition vec_pop_back :: "'a elem_type \<Rightarrow> 'a vector \<Rightarrow> 'a vector option" where
  "vec_pop_back ty v =
     (let n = vec_size v - 1 in
      do { m \<leftarrow> slot_destroy ty (unat n) (vec_data v); Some (v\<lparr>vec_data := m, vec_size := n\<rparr>) })"

text \<open>\<open>insert_impl\<close>; a normal result is the index of the new element.\<close>

definition vec_insert :: "(usize \<Rightarrow> bool) \<Rightarrow> 'a elem_type \<Rightarrow> usize \<Rightarrow> usize \<Rightarrow> 'a arg \<Rightarrow> 'a vector \<Rightarrow>
    ((exn + usize) \<times> 'a vector) option" where
  "vec_insert nw ty sz off value v = do {
     (r, v1) \<leftarrow> vec_ensure_space nw ty sz 1 v;
     (case r of
        Inl e \<Rightarrow> Some (Inl e, v1)
      | Inr moved \<Rightarrow> do {
          m1 \<leftarrow> vec_shift_right ty off (vec_size v1) 1 (vec_data v1);
          x \<leftarrow> arg_value moved m1 value;
          m2 \<leftarrow> slot_construct ty (unat off) x m1;
          Some (Inr off, v1\<lparr>vec_data := m2, vec_size := vec_size v1 + 1\<rparr>)
        })
   }"

definition vec_emplace :: "(usize \<Rightarrow> bool) \<Rightarrow> 'a elem_type \<Rightarrow> usize \<Rightarrow> ('b \<Rightarrow> 'a) \<Rightarrow> usize \<Rightarrow> 'b \<Rightarrow> 'a vector \<Rightarrow>
    ((exn + usize) \<times> 'a vector) option" where
  "vec_emplace nw ty sz mk off args v = do {
     (r, v1) \<leftarrow> vec_ensure_space nw ty sz 1 v;
     (case r of
        Inl e \<Rightarrow> Some (Inl e, v1)
      | Inr _ \<Rightarrow> do {
          m1 \<leftarrow> vec_shift_right ty off (vec_size v1) 1 (vec_data v1);
          m2 \<leftarrow> slot_construct ty (unat off) (mk args) m1;
          Some (Inr off, v1\<lparr>vec_data := m2, vec_size := vec_size v1 + 1\<rparr>)
        })
   }"

definition vec_erase :: "'a elem_type \<Rightarrow> usize \<Rightarrow> 'a vector \<Rightarrow> (usize \<times> 'a vector) option" where
  "vec_erase ty p v = do {
     m1 \<leftarrow> slot_destroy ty (unat p) (vec_data v);
     m2 \<leftarrow> vec_shift_left ty (p + 1) (vec_size v) 1 m1;
     Some (p, v\<lparr>vec_data := m2, vec_size := vec_size v - 1\<rparr>)
   }"

definition vec_erase_range :: "'a elem_type \<Rightarrow> usize \<Rightarrow> usize \<Rightarrow> 'a vector \<Rightarrow> (usize \<times> 'a vector) option" where
  "vec_erase_range ty f l v =
     (let n = l - f in
      if n = 0 then Some (f, v)
      else do {
        m1 \<leftarrow> vec_destroy_n ty f n (vec_data v);
        m2 \<leftarrow> vec_shift_left ty l (vec_size v) n m1;
        Some (f, v\<lparr>vec_data := m2, vec_size := vec_size v - n\<rparr>)
      })"

text \<open>The construction loops over \<open>[lo, hi)\<close>; \<open>Value x\<close> stands for \<open>T()\<close> where no value is given.\<close>

definition vec_fill :: "'a elem_type \<Rightarrow> bool \<Rightarrow> 'a arg \<Rightarrow> usize \<Rightarrow> usize \<Rightarrow> 'a slots \<Rightarrow> 'a slots option" where
  "vec_fill ty moved value lo hi =
     for_range lo hi (\<lambda>i m. do {
       x \<leftarrow> arg_value moved m value;
       slot_construct ty (unat i) x m
     })"

definition vec_resize :: "(usize \<Rightarrow> bool) \<Rightarrow> 'a elem_type \<Rightarrow> usize \<Rightarrow> usize \<Rightarrow> 'a arg \<Rightarrow> 'a vector \<Rightarrow>
    ((exn + unit) \<times> 'a vector) option" where
  "vec_resize nw ty sz count value v =
     (if count < vec_size v then do {
        m \<leftarrow> vec_destroy_n ty count (vec_size v - count) (vec_data v);
        Some (Inr (), v\<lparr>vec_data := m, vec_size := count\<rparr>)
      } else if vec_size v < count then do {
        (r, v1) \<leftarrow> vec_ensure_space nw ty sz (count - vec_size v) v;
        (case r of
           Inl e \<Rightarrow> Some (Inl e, v1)
         | Inr moved \<Rightarrow> do {
             m \<leftarrow> vec_fill ty moved value (vec_size v1) count (vec_data v1);
             Some (Inr (), v1\<lparr>vec_data := m, vec_size := count\<rparr>)
           })
      } else Some (Inr (), v))"

definition vec_swap :: "'a vector \<Rightarrow> 'a vector \<Rightarrow> 'a vector \<times> 'a vector" where
  "vec_swap v other = (other, v)"

definition vec_assign_fill :: "(usize \<Rightarrow> bool) \<Rightarrow> 'a elem_type \<Rightarrow> usize \<Rightarrow> usize \<Rightarrow> 'a arg \<Rightarrow> 'a vector \<Rightarrow>
    ((exn + unit) \<times> 'a vector) option" where
  "vec_assign_fill nw ty sz count value v = do {
     v1 \<leftarrow> vec_clear ty v;
     (r, v2) \<leftarrow> vec_reserve nw ty sz count v1;
     (case r of
        Inl e \<Rightarrow> Some (Inl e, v2)
      | Inr _ \<Rightarrow> do {
          m \<leftarrow> vec_fill ty (vec_cap v1 < count) value 0 count (vec_data v2);
          Some (Inr (), v2\<lparr>vec_data := m, vec_size := count\<rparr>)
        })
   }"

text \<open>Loops over a list of values outside the vector.\<close>

fun vec_append_all :: "'a elem_type \<Rightarrow> 'a list \<Rightarrow> 'a vector \<Rightarrow> 'a vector option" where
  "vec_append_all ty [] v = Some v"
| "vec_append_all ty (x # xs) v = do { v' \<leftarrow> vec_construct_back ty x v; vec_append_all ty xs v' }"

fun vec_push_all :: "(usize \<Rightarrow> bool) \<Rightarrow> 'a elem_type \<Rightarrow> usize \<Rightarrow> 'a list \<Rightarrow> 'a vector \<Rightarrow>
    ((exn + unit) \<times> 'a vector) option" where
  "vec_push_all nw ty sz [] v = Some (Inr (), v)"
| "vec_push_all nw ty sz (x # xs) v = do {
     (r, v') \<leftarrow> vec_push_back nw ty sz (Value x) v;
     (case r of
        Inl e \<Rightarrow> Some (Inl e, v')
      | Inr _ \<Rightarrow> vec_push_all nw ty sz xs v')
   }"

definition vec_assign_range :: "(usize \<Rightarrow> bool) \<Rightarrow> 'a elem_type \<Rightarrow> usize \<Rightarrow> 'a list \<Rightarrow> 'a vector \<Rightarrow>
    ((exn + unit) \<times> 'a vector) option" where
  "vec_assign_range nw ty sz xs v = do { v1 \<leftarrow> vec_clear ty v; vec_push_all nw ty sz xs v1 }"

definition vec_assign_list :: "(usize \<Rightarrow> bool) \<Rightarrow> 'a elem_type \<Rightarrow> usize \<Rightarrow> 'a list \<Rightarrow> 'a vector \<Rightarrow>
    ((exn + unit) \<times> 'a vector) option" where
  "vec_assign_list nw ty sz il v = do {
     v1 \<leftarrow> vec_clear ty v;
     (r, v2) \<leftarrow> vec_reserve nw ty sz (of_nat (length il)) v1;
     (case r of
        Inl e \<Rightarrow> Some (Inl e, v2)
      | Inr _ \<Rightarrow> do { v3 \<leftarrow> vec_append_all ty il v2; Some (Inr (), v3) })
   }"

section \<open>Construction and assignment\<close>

text \<open>After an exception the second component is the vector the constructor abandons.\<close>

definition vec_filled :: "(usize \<Rightarrow> bool) \<Rightarrow> 'a elem_type \<Rightarrow> usize \<Rightarrow> usize \<Rightarrow> 'a \<Rightarrow>
    ((exn + unit) \<times> 'a vector) option" where
  "vec_filled nw ty sz count value = do {
     (r, v) \<leftarrow> vec_grow_to nw ty sz count vec_new;
     (case r of
        Inl e \<Rightarrow> Some (Inl e, v)
      | Inr _ \<Rightarrow> do {
          m \<leftarrow> vec_fill ty False (Value value) 0 count (vec_data v);
          Some (Inr (), v\<lparr>vec_data := m, vec_size := count\<rparr>)
        })
   }"

definition vec_from_range :: "(usize \<Rightarrow> bool) \<Rightarrow> 'a elem_type \<Rightarrow> usize \<Rightarrow> 'a list \<Rightarrow>
    ((exn + unit) \<times> 'a vector) option" where
  "vec_from_range nw ty sz xs = vec_push_all nw ty sz xs vec_new"

definition vec_from_list :: "(usize \<Rightarrow> bool) \<Rightarrow> 'a elem_type \<Rightarrow> usize \<Rightarrow> 'a list \<Rightarrow>
    ((exn + unit) \<times> 'a vector) option" where
  "vec_from_list nw ty sz il = do {
     (r, v) \<leftarrow> vec_grow_to nw ty sz (of_nat (length il)) vec_new;
     (case r of
        Inl e \<Rightarrow> Some (Inl e, v)
      | Inr _ \<Rightarrow> do { v' \<leftarrow> vec_append_all ty il v; Some (Inr (), v') })
   }"

definition vec_copy :: "(usize \<Rightarrow> bool) \<Rightarrow> 'a elem_type \<Rightarrow> usize \<Rightarrow> 'a vector \<Rightarrow>
    ((exn + unit) \<times> 'a vector) option" where
  "vec_copy nw ty sz rhs = do {
     (r, v) \<leftarrow> vec_grow_to nw ty sz (vec_size rhs) vec_new;
     (case r of
        Inl e \<Rightarrow> Some (Inl e, v)
      | Inr _ \<Rightarrow> do {
          m \<leftarrow> copy_elems ty (vec_size rhs) (vec_data rhs) (vec_data v);
          Some (Inr (), v\<lparr>vec_data := m, vec_size := vec_size rhs\<rparr>)
        })
   }"

definition vec_move :: "'a vector \<Rightarrow> 'a vector \<times> 'a vector" where
  "vec_move rhs = (rhs, vec_new)"

definition vec_replace_by :: "'a elem_type \<Rightarrow> 'a vector \<Rightarrow> ((exn + unit) \<times> 'a vector) \<Rightarrow>
    ((exn + unit) \<times> 'a vector) option" where
  "vec_replace_by ty v tmp =
     (case tmp of
        (Inl e, _) \<Rightarrow> Some (Inl e, v)
      | (Inr _, t) \<Rightarrow> do {
          let (v', t') = vec_swap v t;
          _ \<leftarrow> vec_destroy ty t';
          Some (Inr (), v')
        })"

fun vec_assign :: "(usize \<Rightarrow> bool) \<Rightarrow> 'a elem_type \<Rightarrow> usize \<Rightarrow> 'a vector \<Rightarrow> 'a vector operand \<Rightarrow>
    ((exn + unit) \<times> 'a vector) option" where
  "vec_assign nw ty sz v Self = Some (Inr (), v)"
| "vec_assign nw ty sz v (Other rhs) = Option.bind (vec_copy nw ty sz rhs) (vec_replace_by ty v)"

definition vec_assign_il :: "(usize \<Rightarrow> bool) \<Rightarrow> 'a elem_type \<Rightarrow> usize \<Rightarrow> 'a vector \<Rightarrow> 'a list \<Rightarrow>
    ((exn + unit) \<times> 'a vector) option" where
  "vec_assign_il nw ty sz v il = Option.bind (vec_from_list nw ty sz il) (vec_replace_by ty v)"

fun vec_assign_move :: "'a elem_type \<Rightarrow> 'a vector \<Rightarrow> 'a vector operand \<Rightarrow> ('a vector \<times> 'a vector operand) option" where
  "vec_assign_move ty v Self = Some (v, Self)"
| "vec_assign_move ty v (Other rhs) = do {
     v1 \<leftarrow> vec_clear ty v;
     _ \<leftarrow> free_slots ty (vec_data v1);
     Some (rhs, Other vec_new)
   }"

section \<open>Representation\<close>

text \<open>
  The vector holds \<open>xs\<close> in the first slots of a buffer of \<open>cap\<close> slots that took less than
  \<open>2^63\<close> bytes; the other slots are raw.
\<close>

definition vec_rep :: "'a elem_type \<Rightarrow> usize \<Rightarrow> 'a list \<Rightarrow> 'a vector \<Rightarrow> bool" where
  "vec_rep ty sz xs v \<longleftrightarrow> sizeof_ok sz \<and> lin_rep ty xs (vec_data v) \<and>
     length (vec_data v) = unat (vec_cap v) \<and> unat (vec_size v) = length xs \<and>
     unat (vec_cap v) * unat sz < 2 ^ 63"

definition vec_list :: "'a vector \<Rightarrow> 'a list" where
  "vec_list v = map the (take (unat (vec_size v)) (vec_data v))"

definition vec_inv :: "'a elem_type \<Rightarrow> usize \<Rightarrow> 'a vector \<Rightarrow> bool" where
  "vec_inv ty sz v \<longleftrightarrow> vec_rep ty sz (vec_list v) v"

lemma vec_repD:
  assumes "vec_rep ty sz xs v"
  shows "sizeof_ok sz" "lin_rep ty xs (vec_data v)" "length (vec_data v) = unat (vec_cap v)"
    "unat (vec_size v) = length xs" "unat (vec_cap v) * unat sz < 2 ^ 63" "length xs \<le> unat (vec_cap v)"
    "unat (vec_cap v) < 2 ^ 63"
proof -
  show 1: "sizeof_ok sz" "lin_rep ty xs (vec_data v)" "length (vec_data v) = unat (vec_cap v)"
    "unat (vec_size v) = length xs" "unat (vec_cap v) * unat sz < 2 ^ 63"
    using assms by (simp_all add: vec_rep_def)
  show "length xs \<le> unat (vec_cap v)" using lin_repD(1) [OF 1(2)] 1(3) by simp
  have "unat (vec_cap v) * 1 \<le> unat (vec_cap v) * unat sz"
    using 1(1) by (intro mult_le_mono2) (simp add: sizeof_ok_def)
  with 1(5) show "unat (vec_cap v) < 2 ^ 63" by linarith
qed

lemma vec_rep_list: "vec_rep ty sz xs v \<Longrightarrow> vec_list v = xs"
  using lin_rep_contents [of ty xs "vec_data v"] by (simp add: vec_rep_def vec_list_def)

lemma vec_rep_inv: "vec_rep ty sz xs v \<Longrightarrow> vec_inv ty sz v"
  by (simp add: vec_inv_def vec_rep_list)

lemma vec_rep_new: "sizeof_ok sz \<Longrightarrow> vec_rep ty sz [] vec_new"
  by (simp add: vec_rep_def vec_new_def lin_rep_def)

section \<open>Shifting elements\<close>

lemma slot_relocate_length: "slot_relocate ty j i m = Some m' \<Longrightarrow> length m' = length m"
  by (auto simp: slot_relocate_def slot_move_def slot_construct_def slot_destroy_def slot_read_def
      split: bind_splits if_splits)

lemma hold_relocate:
  assumes "slots_hold ty f m" "f i = Some x" "f j = None" "j < length m"
  shows "\<exists>m'. slot_relocate ty j i m = Some m' \<and> length m' = length m \<and>
           slots_hold ty (f(i := None, j := Some x)) m'"
proof -
  have ne: "i \<noteq> j" using assms by auto
  define m1 where "m1 = m[i := Some (moved_from ty x)]"
  define m2 where "m2 = m1[j := Some x]"
  note mv = hold_move [OF assms(1,2), folded m1_def]
  have 1: "(f(i := Some (moved_from ty x))) j = None" "j < length m1"
    using assms ne by (simp_all add: m1_def)
  note c = hold_construct [OF mv(2) 1, of x, folded m2_def]
  have 2: "(f(i := Some (moved_from ty x), j := Some x)) i = Some (moved_from ty x)"
    using ne by simp
  note d = hold_destroy [OF c(2) 2]
  have "f(i := Some (moved_from ty x), j := Some x, i := None) = f(i := None, j := Some x)"
    using ne by auto
  note d' = hold_cong [OF d(2) this]
  have "slot_relocate ty j i m = Some (if is_trivial ty then m2 else m2[i := None])"
    unfolding slot_relocate_def mv(1) using c(1) d(1) by simp
  moreover have "length (if is_trivial ty then m2 else m2[i := None]) = length m"
    by (simp add: m1_def m2_def)
  ultimately show ?thesis using d' by blast
qed

text \<open>The live slots after a shift by \<open>n\<close> of all elements from \<open>p\<close> on: a gap of \<open>n\<close> slots.\<close>

definition gap_at :: "nat \<Rightarrow> nat \<Rightarrow> 'a list \<Rightarrow> nat \<Rightarrow> 'a option" where
  "gap_at p n xs i = (if i < p then elem_at xs i else if i < p + n then None else elem_at xs (i - n))"

lemma gap_at_end [simp]: "gap_at (length xs) n xs = elem_at xs"
  by (auto simp: gap_at_def elem_at_def fun_eq_iff)

lemma vec_shift_right_rep:
  assumes r: "lin_rep ty xs m" and fl: "unat fin = length xs" "unat first \<le> length xs"
    and n: "0 < unat n" "length xs + unat n \<le> length m" "length m < 2 ^ 63"
  shows "\<exists>m'. vec_shift_right ty first fin n m = Some m' \<and> length m' = length m \<and>
           slots_hold ty (gap_at (unat first) (unat n) xs) m' \<and>
           (is_trivial ty \<longrightarrow> (\<forall>i < unat first + unat n. i < length xs \<longrightarrow> m' ! i = m ! i))"
proof -
  let ?p = "unat first" and ?n = "unat n"
  have hold: "slots_hold ty (elem_at xs) m" using r by (simp add: lin_rep_hold)
  have m64: "length m < 2 ^ 64" using n(3) by simp
  have count: "unat (fin - first) = length xs - ?p"
    using fl by (subst unat_sub) (simp_all add: word_le_nat_alt)
  show ?thesis
  proof (cases "fin - first = 0")
    case True
    then have "?p = length xs" using count fl by simp
    then show ?thesis using True hold by (simp add: vec_shift_right_def)
  next
    case False
    then have lt: "?p < length xs" using count fl by (metis diff_is_0_eq' le_neq_implies_less unat_eq_0)
    have u: "unat (first + n) = ?p + ?n" using fl n(2) m64 by (intro unat_add_small) linarith
    show ?thesis
    proof (cases "is_trivial ty")
      case True
      define m' where "m' = take (?p + ?n) m @ take (length xs - ?p) (drop ?p m) @ drop (?n + length xs) m"
      have "vec_shift_right ty first fin n m = Some m'"
        using True False u count fl n by (simp add: vec_shift_right_def slot_memcpy_def m'_def ac_simps)
      moreover have "length m' = length m" using n fl lt by (simp add: m'_def)
      moreover have "m' ! i = Some (xs ! i)" if "i < ?p + ?n" "i < length xs" for i
        using that lin_repD(2) [OF r that(2)] n by (simp add: m'_def nth_append)
      moreover have "m' ! i = Some (xs ! (i - ?n))" if "?p + ?n \<le> i" "i - ?n < length xs" for i
      proof -
        have "i - (?p + ?n) < length xs - ?p" "?p + (i - (?p + ?n)) = i - ?n" using that by auto
        then show ?thesis using that lin_repD(2) [OF r that(2)] n by (simp add: m'_def nth_append)
      qed
      ultimately show ?thesis
        using True n lin_repD(2) [OF r] lt by (auto simp: slots_hold_def gap_at_def elem_at_def)
    next
      case nt: False
      define h where "h k = (\<lambda>i. if i < ?p + k then elem_at xs i else if i < ?p + k + ?n then None
          else elem_at xs (i - ?n))" for k
      have "\<exists>m'. for_down (fin - first) (\<lambda>i. slot_relocate ty (unat (first + i + n)) (unat (first + i))) m = Some m' \<and>
              (length m' = length m \<and> slots_hold ty (h 0) m')"
      proof (rule for_down_rule)
        have "h (unat (fin - first)) = elem_at xs"
          using count fl by (auto simp: h_def elem_at_def fun_eq_iff)
        then show "length m = length m \<and> slots_hold ty (h (unat (fin - first))) m" using hold by simp
        fix i d
        assume i: "i < fin - first" and d: "length d = length m \<and> slots_hold ty (h (Suc (unat i))) d"
        then have k: "unat i < length xs - ?p" using count by (simp add: word_less_nat_alt)
        have u1: "unat (first + i) = ?p + unat i" using k n(2) fl m64 by (intro unat_add_small) linarith
        then have u2: "unat (first + i + n) = ?p + unat i + ?n"
          using k n(2) fl m64 by (subst unat_add_small) linarith+
        have "h (Suc (unat i)) (?p + unat i) = Some (xs ! (?p + unat i))"
          "h (Suc (unat i)) (?p + unat i + ?n) = None" "?p + unat i + ?n < length d"
          using k n d by (simp_all add: h_def)
        from hold_relocate [OF conjunct2 [OF d] this]
        obtain d' where d': "slot_relocate ty (?p + unat i + ?n) (?p + unat i) d = Some d'" "length d' = length d"
          "slots_hold ty ((h (Suc (unat i)))(?p + unat i := None, ?p + unat i + ?n := Some (xs ! (?p + unat i)))) d'"
          by blast
        moreover have "(h (Suc (unat i)))(?p + unat i := None, ?p + unat i + ?n := Some (xs ! (?p + unat i))) = h (unat i)"
          using k n by (auto simp: h_def fun_eq_iff elem_at_def)
        ultimately show "\<exists>d'. slot_relocate ty (unat (first + i + n)) (unat (first + i)) d = Some d' \<and>
            (length d' = length m \<and> slots_hold ty (h (unat i)) d')"
          using u1 u2 d by auto
      qed
      moreover have "h 0 = gap_at ?p ?n xs" by (simp add: h_def gap_at_def fun_eq_iff)
      ultimately show ?thesis using nt False by (simp add: vec_shift_right_def)
    qed
  qed
qed

text \<open>The live slots while the elements from \<open>p + n\<close> on move left over a gap, after \<open>k\<close> moves.\<close>

lemma elem_at_cut:
  "p + n \<le> length xs \<Longrightarrow>
   elem_at (take p xs @ drop (p + n) xs) i = (if i < p then elem_at xs i else elem_at xs (i + n))"
  by (auto simp: elem_at_def nth_append add.commute)

definition closing_at :: "nat \<Rightarrow> nat \<Rightarrow> 'a list \<Rightarrow> nat \<Rightarrow> nat \<Rightarrow> 'a option" where
  "closing_at p n xs k i =
     (if i < p then elem_at xs i else if i < p + k then elem_at xs (i + n)
      else if i < p + k + n then None else elem_at xs i)"

lemma closing_at_step:
  assumes "p + n + k < length xs" "0 < n"
  shows "(closing_at p n xs k)(p + n + k := None, p + k := Some (xs ! (p + n + k))) = closing_at p n xs (Suc k)"
proof
  fix i
  consider "i = p + k" | "i = p + n + k" | "i < p + k" | "p + k < i" "i \<noteq> p + n + k" by linarith
  then show "((closing_at p n xs k)(p + n + k := None, p + k := Some (xs ! (p + n + k)))) i = closing_at p n xs (Suc k) i"
    using assms by cases (auto simp: closing_at_def ac_simps)
qed

lemma closing_at_end:
  "p + n \<le> length xs \<Longrightarrow> closing_at p n xs (length xs - (p + n)) = elem_at (take p xs @ drop (p + n) xs)"
  by (rule ext) (auto simp: closing_at_def elem_at_cut)

lemma closing_at_0: "closing_at p n xs 0 i = (if p \<le> i \<and> i < p + n then None else elem_at xs i)"
  by (simp add: closing_at_def)
lemma vec_shift_left_rep:
  assumes r: "slots_hold ty (closing_at p (unat n) xs 0) m"
    and fl: "unat fin = length xs" "unat first = p + unat n" "p + unat n \<le> length xs"
    and n: "0 < unat n" "length xs \<le> length m"
  shows "\<exists>m'. vec_shift_left ty first fin n m = Some m' \<and> length m' = length m \<and>
           lin_rep ty (take p xs @ drop (p + unat n) xs) m'"
proof -
  let ?n = "unat n" and ?ys = "take p xs @ drop (p + unat n) xs"
  have count: "unat (fin - first) = length xs - (p + ?n)"
    using fl by (subst unat_sub) (simp_all add: word_le_nat_alt)
  show ?thesis
  proof (cases "fin - first = 0")
    case True
    then have "length xs - (p + ?n) = 0" using count by simp
    then have "closing_at p ?n xs 0 = elem_at ?ys" using closing_at_end [OF fl(3)] by simp
    with True r show ?thesis by (simp add: vec_shift_left_def lin_rep_hold)
  next
    case False
    then have lt: "p + ?n < length xs" using count fl by (metis diff_is_0_eq' le_neq_implies_less unat_eq_0)
    have u: "unat (first - n) = p" using fl by (subst unat_sub) (simp_all add: word_le_nat_alt)
    show ?thesis
    proof (cases "is_trivial ty")
      case True
      define m' where "m' = take p m @ take (length xs - (p + ?n)) (drop (p + ?n) m) @ drop (length xs - ?n) m"
      have live: "m ! i = Some (xs ! i)" if "i < length xs" "i < p \<or> p + ?n \<le> i" for i
      proof -
        have "closing_at p ?n xs 0 i = Some (xs ! i)" using that by (auto simp: closing_at_0)
        from hold_read [OF r this] show ?thesis by (simp add: slot_read_def split: if_splits)
      qed
      have "vec_shift_left ty first fin n m = Some m'"
        using True False u count fl n lt by (simp add: vec_shift_left_def slot_memcpy_def m'_def)
      moreover have "length m' = length m" using n fl lt by (simp add: m'_def)
      moreover have "m' ! i = Some (?ys ! i)" if i: "i < length ?ys" for i
      proof (cases "i < p")
        case True
        then show ?thesis using live [of i] lt n by (simp add: m'_def nth_append)
      next
        case F: False
        then have "i + ?n < length xs" "p + ?n + (i - p) = i + ?n" "i - p < length xs - (p + ?n)"
          using i lt by auto
        then show ?thesis using live [of "i + ?n"] lt n F
          by (simp add: m'_def nth_append add.commute [of "unat n" i])
      qed
      ultimately show ?thesis using True n by (auto simp: lin_rep_def)
    next
      case nt: False
      let ?P = "\<lambda>k m'. length m' = length m \<and> slots_hold ty (closing_at p ?n xs (k - (p + ?n))) m'"
      have "\<exists>m'. for_range first fin (\<lambda>i. slot_relocate ty (unat (i - n)) (unat i)) m = Some m' \<and> ?P (unat fin) m'"
      proof (rule for_range_rule [where P = ?P])
        show "unat first \<le> unat fin" using fl lt by simp
        show "?P (unat first) m" using r fl(2) by simp
        fix i d
        assume i: "unat first \<le> unat i" "i < fin" and d: "?P (unat i) d"
        define k where "k = unat i - (p + ?n)"
        have k: "unat i = p + ?n + k" "unat i < length xs" "Suc (unat i) - (p + ?n) = Suc k"
          using i fl by (auto simp: k_def word_less_nat_alt)
        have u1: "unat (i - n) = p + k" using k(1) by (subst unat_sub) (simp_all add: word_le_nat_alt)
        have "closing_at p ?n xs k (unat i) = Some (xs ! unat i)" "closing_at p ?n xs k (p + k) = None"
          "p + k < length d" "slots_hold ty (closing_at p ?n xs k) d"
          using k n d by (simp_all add: closing_at_def)
        from hold_relocate [OF this(4,1,2,3)]
        obtain d' where "slot_relocate ty (p + k) (unat i) d = Some d'" "length d' = length d"
          "slots_hold ty ((closing_at p ?n xs k)(unat i := None, p + k := Some (xs ! unat i))) d'"
          by blast
        then show "\<exists>d'. slot_relocate ty (unat (i - n)) (unat i) d = Some d' \<and> ?P (Suc (unat i)) d'"
          using closing_at_step [of p ?n k xs] k n(1) u1 d by simp
      qed
      then show ?thesis
        using nt False closing_at_end [OF fl(3)] fl(1) by (simp add: vec_shift_left_def lin_rep_hold)
    qed
  qed
qed

section \<open>Growing\<close>

lemma vec_relocate_rep:
  assumes r: "lin_rep ty xs m" "unat n = length xs" and b: "lin_rep ty [] b" "length xs \<le> length b"
  shows "\<exists>b' m'. for_range 0 n (\<lambda>i. slot_transfer ty (unat i) (unat i)) (b, m) = Some (b', m') \<and>
           length b' = length b \<and> lin_rep ty xs b' \<and> lin_rep ty [] m'"
proof -
  let ?P = "\<lambda>k s. length (fst s) = length b \<and> length (snd s) = length m \<and>
      slots_hold ty (elem_at (take k xs)) (fst s) \<and> slots_hold ty (\<lambda>i. if i < k then None else elem_at xs i) (snd s)"
  have "\<exists>s. for_range 0 n (\<lambda>i. slot_transfer ty (unat i) (unat i)) (b, m) = Some s \<and> ?P (unat n) s"
  proof (rule for_range_rule [where P = ?P])
    show "?P (unat 0) (b, m)" using assms by (simp add: lin_rep_hold)
    fix i s
    assume "i < n" and P: "?P (unat i) s"
    then have i: "unat i < length xs" using r(2) by (simp add: word_less_nat_alt)
    obtain d o' where s: "s = (d, o')" by fastforce
    have "slots_hold ty (\<lambda>j. if j < unat i then None else elem_at xs j) o'"
      "(if unat i < unat i then None else elem_at xs (unat i)) = Some (xs ! unat i)"
      "slots_hold ty (elem_at (take (unat i) xs)) d" "elem_at (take (unat i) xs) (unat i) = None" "unat i < length d"
      using P s i b(2) by simp_all
    from hold_transfer [OF this] obtain o2 where o2: "slot_transfer ty (unat i) (unat i) (d, o') = Some (d[unat i := Some (xs ! unat i)], o2)"
      "length o2 = length o'" "slots_hold ty ((\<lambda>j. if j < unat i then None else elem_at xs j)(unat i := None)) o2"
      "slots_hold ty ((elem_at (take (unat i) xs))(unat i := Some (xs ! unat i))) (d[unat i := Some (xs ! unat i)])"
      by blast
    have "(elem_at (take (unat i) xs))(unat i := Some (xs ! unat i)) = elem_at (take (Suc (unat i)) xs)"
      using i by (auto simp: elem_at_def fun_eq_iff nth_append take_Suc_conv_app_nth less_Suc_eq)
    moreover have "(\<lambda>j. if j < unat i then None else elem_at xs j)(unat i := None) =
        (\<lambda>j. if j < Suc (unat i) then None else elem_at xs j)"
      by (auto simp: fun_eq_iff)
    ultimately show "\<exists>s'. slot_transfer ty (unat i) (unat i) s = Some s' \<and> ?P (Suc (unat i)) s'"
      using o2 P s by auto
  qed simp
  then obtain b' m' where "for_range 0 n (\<lambda>i. slot_transfer ty (unat i) (unat i)) (b, m) = Some (b', m')"
      "?P (length xs) (b', m')"
    using r(2) by auto
  moreover have "(\<lambda>i. if i < length xs then None else elem_at xs i) = elem_at []"
    by (auto simp: fun_eq_iff elem_at_def)
  ultimately show ?thesis by (simp add: lin_rep_hold)
qed

lemma vec_reallocate_rep:
  assumes r: "vec_rep ty sz xs v" and c: "length xs \<le> unat c" "unat c * unat sz < 2 ^ 64" and nw: "new_limit nw"
  shows "(vec_reallocate nw ty sz c v = Some (Inl Bad_alloc, v) \<and> c \<noteq> 0) \<or>
    (\<exists>v'. vec_reallocate nw ty sz c v = Some (Inr (), v') \<and> vec_rep ty sz xs v' \<and> vec_cap v' = c \<and>
       vec_size v' = vec_size v)"
proof -
  note D = vec_repD [OF r]
  have sz0: "0 < unat sz" using D(1) by (simp add: sizeof_ok_def)
  define buf where "buf = (replicate (unat c) None :: 'a slots)"
  have buf: "lin_rep ty [] buf" "length buf = unat c" by (simp_all add: buf_def)
  have alloc: "vec_alloc nw sz c = (if c = 0 \<or> nw (c * sz) then Inr buf else Inl Bad_alloc)"
    using new_slots_fit [OF c(2) sz0, of nw] by (auto simp: vec_alloc_def buf_def)
  show ?thesis
  proof (cases "c = 0 \<or> nw (c * sz)")
    case False
    then show ?thesis using alloc by (simp add: vec_reallocate_def)
  next
    case True
    have lim: "unat c * unat sz < 2 ^ 63"
      using True new_limitD [OF nw _ c(2)] by (cases "c = 0") auto
    obtain b old where b: "(if is_trivial ty
             then map_option (\<lambda>b. (b, vec_data v)) (slot_memcpy buf 0 (vec_data v) 0 (unat (vec_size v)))
             else for_range 0 (vec_size v) (\<lambda>i. slot_transfer ty (unat i) (unat i)) (buf, vec_data v)) = Some (b, old)"
        "length b = unat c" "lin_rep ty xs b" "free_slots ty old = Some ()"
    proof (cases "is_trivial ty")
      case True
      define b where "b = take (length xs) (vec_data v) @ drop (length xs) buf"
      have "slot_memcpy buf 0 (vec_data v) 0 (unat (vec_size v)) = Some b"
        using D c(1) buf(2) by (simp add: slot_memcpy_def b_def)
      moreover have "lin_rep ty xs b"
        using D c(1) buf(2) True lin_repD(2) [OF D(2)] by (auto simp: lin_rep_def b_def nth_append)
      ultimately show thesis using True D c(1) buf(2) by (auto simp: free_slots_def b_def intro: that)
    next
      case False
      with vec_relocate_rep [OF D(2,4) buf(1)] buf(2) c(1) show thesis
        by (auto intro!: that free_slots_raw)
    qed
    then show ?thesis using True alloc D(1,4) lim by (auto simp: vec_reallocate_def vec_rep_def)
  qed
qed

lemma vec_new_cap_rep:
  assumes c: "unat cap * unat sz < 2 ^ 63" "sizeof_ok sz"
    and n: "unat cap < unat needed" "unat needed = unat cap + 1 \<or> 2 * (unat needed * unat sz) \<le> 2 ^ 64"
  shows "\<exists>c. vec_new_cap cap needed = Some c \<and> needed \<le> c \<and> unat c * unat sz < 2 ^ 64"
proof -
  define c0 where "c0 = (if cap \<noteq> 0 then cap * 2 else 4 :: usize)"
  have sz: "0 < unat sz" "unat sz < 2 ^ 48" using c(2) by (simp_all add: sizeof_ok_def)
  have le: "unat x \<le> unat x * unat sz" for x :: usize using sz by simp
  have cap63: "unat cap < 2 ^ 63" by (rule le_less_trans [OF le c(1)])
  have c0: "unat c0 = (if cap \<noteq> 0 then 2 * unat cap else 4)"
    using cap63 by (simp add: c0_def unat_word_ariths)
  let ?P = "\<lambda>c. unat c * unat sz < 2 ^ 64 \<and> 0 < unat c \<and> (c < needed \<longrightarrow> 2 * (unat needed * unat sz) \<le> 2 ^ 64)"
  have dbl: "2 * unat cap * unat sz < 2 ^ 64" unfolding mult.assoc by (rule double_below) (rule c(1))
  have small: "4 * unat sz < 2 ^ 64" using sz(2) by simp
  have "c0 < needed \<Longrightarrow> unat needed \<noteq> unat cap + 1"
  proof
    assume "c0 < needed" "unat needed = unat cap + 1"
    then have "unat c0 < unat cap + 1" by (simp add: word_less_nat_alt)
    then show False using c0 by (cases "cap = 0") (auto simp: unat_eq_0)
  qed
  then have P0: "?P c0"
    using n(2) dbl small c0 by (auto simp: unat_gt_0)
  have step: "?P (c * 2) \<and> unat needed - unat (c * 2) < unat needed - unat c" if P: "?P c" and b: "c < needed" for c
  proof -
    have cn: "unat c < unat needed" using b by (simp add: word_less_nat_alt)
    have lim: "2 * (unat needed * unat sz) \<le> 2 ^ 64" using P b by blast
    have "unat c * unat sz < unat needed * unat sz" using cn sz(1) by (rule mult_less_mono1)
    then have d: "2 * unat c * unat sz < 2 ^ 64" unfolding mult.assoc using lim by linarith
    have "2 * unat c \<le> 2 * unat c * unat sz" using sz(1) by simp
    then have "2 * unat c < 2 ^ 64" using d by (rule le_less_trans)
    then have u: "unat (c * 2) = 2 * unat c" by (simp add: unat_word_ariths)
    show ?thesis unfolding u using d lim P cn by auto
  qed
  obtain c where w: "while_option (\<lambda>c. c < needed) (\<lambda>c. c * 2) c0 = Some c"
    using measure_while_option_Some [of ?P "\<lambda>c. c < needed" "\<lambda>c. c * 2" "\<lambda>c. unat needed - unat c" c0] step P0
    by blast
  have "?P c" by (rule while_option_rule [where P = ?P, OF _ w P0]) (use step in blast)
  moreover have "\<not> c < needed" using while_option_stop [OF w] .
  ultimately show ?thesis using w by (auto simp: vec_new_cap_def c0_def)
qed

definition vec_request_ok :: "usize \<Rightarrow> nat \<Rightarrow> bool" where
  "vec_request_ok sz n \<longleftrightarrow> 2 * (n * unat sz) \<le> 2 ^ 64"

lemma vec_ensure_space_rep:
  assumes r: "vec_rep ty sz xs v" and nw: "new_limit nw"
    and e: "extra = 1 \<or> vec_request_ok sz (length xs + unat extra)"
  shows "(vec_ensure_space nw ty sz extra v = Some (Inl Bad_alloc, v) \<and> unat (vec_cap v) < length xs + unat extra) \<or>
    (\<exists>moved v'. vec_ensure_space nw ty sz extra v = Some (Inr moved, v') \<and> vec_rep ty sz xs v' \<and>
       length xs + unat extra \<le> unat (vec_cap v') \<and> vec_size v' = vec_size v \<and>
       (moved \<longleftrightarrow> unat (vec_cap v) < length xs + unat extra) \<and> (\<not> moved \<longrightarrow> v' = v))"
proof -
  note D = vec_repD [OF r]
  have sz: "0 < unat sz" using D(1) by (simp add: sizeof_ok_def)
  have fits: "length xs + unat extra < 2 ^ 64"
  proof (cases "extra = 1")
    case True
    then show ?thesis using D(6,7) by simp
  next
    case False
    then have "2 * ((length xs + unat extra) * unat sz) \<le> 2 ^ 64" using e by (simp add: vec_request_ok_def)
    moreover have "length xs + unat extra \<le> (length xs + unat extra) * unat sz" using sz by simp
    ultimately show ?thesis by (rule half_below)
  qed
  then have u: "unat (vec_size v + extra) = length xs + unat extra"
    using D(4) unat_add_small [of "vec_size v" extra] by simp
  show ?thesis
  proof (cases "vec_size v + extra \<le> vec_cap v")
    case True
    then show ?thesis using r u by (auto simp: vec_ensure_space_def word_le_nat_alt)
  next
    case False
    then have lt: "unat (vec_cap v) < unat (vec_size v + extra)" by (simp add: word_le_nat_alt)
    have need: "unat (vec_size v + extra) = unat (vec_cap v) + 1 \<or> 2 * (unat (vec_size v + extra) * unat sz) \<le> 2 ^ 64"
      using e u lt D(6) by (auto simp: vec_request_ok_def)
    obtain c where c: "vec_new_cap (vec_cap v) (vec_size v + extra) = Some c" "vec_size v + extra \<le> c"
        "unat c * unat sz < 2 ^ 64"
      using vec_new_cap_rep [OF D(5,1) lt need] by blast
    have le: "length xs + unat extra \<le> unat c" using c(2) u by (simp add: word_le_nat_alt)
    have grow: "vec_grow_to nw ty sz c v = vec_reallocate nw ty sz c v" "vec_cap v < c"
      using lt u le by (auto simp: vec_grow_to_def word_le_nat_alt word_less_nat_alt)
    have "length xs \<le> unat c" using le by simp
    from vec_reallocate_rep [OF r this c(3) nw] show ?thesis
      using c(1) grow False lt u le by (auto simp: vec_ensure_space_def)
  qed
qed

lemma vec_ensure_one:
  assumes "vec_rep ty sz xs v" "new_limit nw"
  obtains (full) "vec_ensure_space nw ty sz 1 v = Some (Inl Bad_alloc, v)" "length xs = unat (vec_cap v)"
  | (room) moved v1 where "vec_ensure_space nw ty sz 1 v = Some (Inr moved, v1)" "vec_rep ty sz xs v1"
      "length xs < unat (vec_cap v1)" "moved \<longleftrightarrow> length xs = unat (vec_cap v)" "\<not> moved \<longrightarrow> v1 = v"
proof -
  have le: "length xs \<le> unat (vec_cap v)" by (rule vec_repD(6) [OF assms(1)])
  consider "vec_ensure_space nw ty sz 1 v = Some (Inl Bad_alloc, v)" "unat (vec_cap v) < length xs + unat (1 :: usize)"
    | moved v1 where "vec_ensure_space nw ty sz 1 v = Some (Inr moved, v1)" "vec_rep ty sz xs v1"
        "length xs + unat (1 :: usize) \<le> unat (vec_cap v1)"
        "moved \<longleftrightarrow> unat (vec_cap v) < length xs + unat (1 :: usize)" "\<not> moved \<longrightarrow> v1 = v"
    using vec_ensure_space_rep [OF assms, of 1] by blast
  then show thesis
  proof cases
    case 1
    then show thesis using le by (intro full) simp_all
  next
    case (2 moved v1)
    then show thesis using le by (intro room [of moved v1]) auto
  qed
qed

section \<open>Invariance under the modifiers\<close>

lemma hold_weaken:
  assumes "slots_hold ty f m" "is_trivial ty" "\<And>i. g i = None \<or> g i = f i"
  shows "slots_hold ty g m"
  using assms unfolding slots_hold_def by metis

lemma closing_at_none [simp]: "closing_at p 0 xs 0 = elem_at xs"
  by (auto simp: closing_at_def fun_eq_iff)

lemma closing_at_tail: "p + n = length xs \<Longrightarrow> closing_at p n xs 0 = elem_at (take p xs)"
  by (auto simp: closing_at_def elem_at_def fun_eq_iff)

lemma vec_destroy_n_rep:
  assumes r: "lin_rep ty xs m" and f: "unat f + unat n \<le> length xs" "length xs < 2 ^ 64"
  shows "\<exists>m'. vec_destroy_n ty f n m = Some m' \<and> length m' = length m \<and>
           slots_hold ty (closing_at (unat f) (unat n) xs 0) m'"
proof (cases "is_trivial ty")
  case True
  have "slots_hold ty (closing_at (unat f) (unat n) xs 0) m"
    by (rule hold_weaken [of ty "elem_at xs"]) (use r True in \<open>auto simp: lin_rep_hold closing_at_0\<close>)
  with True show ?thesis by (simp add: vec_destroy_n_def)
next
  case False
  let ?P = "\<lambda>k d. length d = length m \<and> slots_hold ty (closing_at (unat f) k xs 0) d"
  have "\<exists>m'. for_range 0 n (\<lambda>i. slot_destroy ty (unat (f + i))) m = Some m' \<and> ?P (unat n) m'"
  proof (rule for_range_rule [where P = ?P])
    show "?P (unat 0) m" using r by (simp add: lin_rep_hold)
    fix i d
    assume "i < n" and P: "?P (unat i) d"
    then have i: "unat i < unat n" by (simp add: word_less_nat_alt)
    then have u: "unat (f + i) = unat f + unat i" using f by (intro unat_add_small) linarith
    have "closing_at (unat f) (unat i) xs 0 (unat f + unat i) = Some (xs ! (unat f + unat i))"
      using i f by (simp add: closing_at_0)
    note d = hold_destroy [OF conjunct2 [OF P] this]
    have "(closing_at (unat f) (unat i) xs 0)(unat f + unat i := None) = closing_at (unat f) (Suc (unat i)) xs 0"
      using i f by (auto simp: closing_at_0 fun_eq_iff elem_at_def)
    with d P show "\<exists>d'. slot_destroy ty (unat (f + i)) d = Some d' \<and> ?P (Suc (unat i)) d'"
      unfolding u using False by auto
  qed simp
  with False show ?thesis by (simp add: vec_destroy_n_def)
qed

lemma vec_truncate_rep:
  assumes r: "lin_rep ty xs m" and f: "unat f + unat n = length xs" "length xs < 2 ^ 64"
  shows "\<exists>m'. vec_destroy_n ty f n m = Some m' \<and> length m' = length m \<and> lin_rep ty (take (unat f) xs) m'"
  using vec_destroy_n_rep [OF r, of f n] f closing_at_tail [OF f(1)] by (auto simp: lin_rep_hold)

lemma vec_rep_size64: "vec_rep ty sz xs v \<Longrightarrow> length xs < 2 ^ 63"
  using vec_repD(6,7) by (rule le_less_trans)

lemma vec_clear_rep:
  assumes r: "vec_rep ty sz xs v"
  shows "\<exists>v'. vec_clear ty v = Some v' \<and> vec_rep ty sz [] v' \<and> vec_cap v' = vec_cap v \<and>
    lin_rep ty [] (vec_data v')"
  using vec_truncate_rep [OF vec_repD(2) [OF r], of 0 "vec_size v"] vec_repD [OF r] vec_rep_size64 [OF r]
  by (auto simp: vec_clear_def vec_rep_def)

lemma vec_destroy_rep: "vec_rep ty sz xs v \<Longrightarrow> vec_destroy ty v = Some ()"
  using vec_clear_rep [of ty sz xs v] by (auto simp: vec_destroy_def free_slots_raw)

lemma vec_construct_back_rep:
  assumes r: "vec_rep ty sz xs v" and room: "length xs < unat (vec_cap v)"
  shows "\<exists>v'. vec_construct_back ty x v = Some v' \<and> vec_rep ty sz (xs @ [x]) v' \<and> vec_cap v' = vec_cap v \<and>
    vec_size v' = vec_size v + 1 \<and> slot_read (length xs) (vec_data v') = Some x"
proof -
  note D = vec_repD [OF r]
  have "unat (vec_size v + 1) = Suc (length xs)"
    using D(4) vec_rep_size64 [OF r] unat_add_small [of "vec_size v" 1] by simp
  then show ?thesis
    using lin_rep_push [OF D(2), of x] room D by (simp add: vec_construct_back_def vec_rep_def slot_read_def)
qed

lemma vec_push_back_rep:
  assumes r: "vec_rep ty sz xs v" and nw: "new_limit nw"
  shows "(vec_push_back nw ty sz (Value x) v = Some (Inl Bad_alloc, v) \<and>
        vec_push_back_move nw ty sz x v = Some (Inl Bad_alloc, x, v)) \<or>
    (\<exists>v'. vec_push_back nw ty sz (Value x) v = Some (Inr (), v') \<and>
       vec_push_back_move nw ty sz x v = Some (Inr (), moved_from ty x, v') \<and>
       vec_rep ty sz (xs @ [x]) v')"
  using r nw
proof (cases rule: vec_ensure_one)
  case (room moved v1)
  note v1 = room(1-3)
  then obtain v2 where "vec_construct_back ty x v1 = Some v2" "vec_rep ty sz (xs @ [x]) v2"
    using vec_construct_back_rep [OF v1(2), of x] by auto
  with v1 show ?thesis by (simp add: vec_push_back_def vec_push_back_move_def)
qed (simp add: vec_push_back_def vec_push_back_move_def)

lemma vec_emplace_back_rep:
  assumes r: "vec_rep ty sz xs v" and nw: "new_limit nw"
  shows "vec_emplace_back nw ty sz mk args v = Some (Inl Bad_alloc, v) \<or>
    (\<exists>i v'. vec_emplace_back nw ty sz mk args v = Some (Inr i, v') \<and> vec_rep ty sz (xs @ [mk args]) v' \<and>
       unat i = length xs)"
  using r nw
proof (cases rule: vec_ensure_one)
  case (room moved v1)
  note v1 = room(1-3)
  then obtain v2 where "vec_construct_back ty (mk args) v1 = Some v2" "vec_rep ty sz (xs @ [mk args]) v2"
    using vec_construct_back_rep [OF v1(2), of "mk args"] by auto
  with v1 vec_repD(4) [OF v1(2)] show ?thesis by (simp add: vec_emplace_back_def)
qed (simp add: vec_emplace_back_def)

lemma vec_pop_back_rep:
  assumes r: "vec_rep ty sz (xs @ [x]) v"
  shows "\<exists>v'. vec_pop_back ty v = Some v' \<and> vec_rep ty sz xs v' \<and> vec_cap v' = vec_cap v" "vec_back v = Some x"
proof -
  note D = vec_repD [OF r]
  have "vec_size v \<noteq> 0" using D(4) by auto
  then have u: "unat (vec_size v - 1) = length xs" using D(4) by (simp add: unat_simps)
  show "\<exists>v'. vec_pop_back ty v = Some v' \<and> vec_rep ty sz xs v' \<and> vec_cap v' = vec_cap v"
    using lin_rep_pop(3) [OF D(2)] D u by (auto simp: vec_pop_back_def vec_rep_def)
  show "vec_back v = Some x" using lin_rep_pop(1) [OF D(2)] u by (simp add: vec_back_def vec_index_def)
qed

lemma vec_at_rep:
  assumes r: "vec_rep ty sz xs v"
  shows "vec_at v i = Some (if unat i < length xs then Inr (xs ! unat i) else Inl Out_of_range)"
    "unat i < length xs \<Longrightarrow> vec_index v i = Some (xs ! unat i)"
proof -
  note D = vec_repD [OF r]
  have "vec_size v \<le> i \<longleftrightarrow> \<not> unat i < length xs" using D(4) by (auto simp: word_le_nat_alt)
  moreover have idx: "vec_index v i = Some (xs ! unat i)" if "unat i < length xs" for i
    using lin_repD(2) [OF D(2) that] D(3,6) that by (simp add: vec_index_def slot_read_def)
  ultimately show "vec_at v i = Some (if unat i < length xs then Inr (xs ! unat i) else Inl Out_of_range)"
    "unat i < length xs \<Longrightarrow> vec_index v i = Some (xs ! unat i)"
    using idx [of i] by (auto simp: vec_at_def)
qed

subsection \<open>Insertion and erasure\<close>

lemma gap_at_fill:
  "p \<le> length xs \<Longrightarrow> (gap_at p 1 xs)(p := Some x) = elem_at (take p xs @ x # drop p xs)"
  by (rule ext) (auto simp: gap_at_def elem_at_def nth_append nth_Cons')

lemma vec_insert_rep:
  assumes r: "vec_rep ty sz xs v" and nw: "new_limit nw" and off: "unat off \<le> length xs"
  shows "vec_insert nw ty sz off (Value x) v = Some (Inl Bad_alloc, v) \<or>
    (\<exists>v'. vec_insert nw ty sz off (Value x) v = Some (Inr off, v') \<and>
       vec_rep ty sz (take (unat off) xs @ x # drop (unat off) xs) v')"
  using r nw
proof (cases rule: vec_ensure_one)
  case (room moved v1)
  note v1 = room(1-3)
  note D = vec_repD [OF v1(2)]
  obtain m1 where m1: "vec_shift_right ty off (vec_size v1) 1 (vec_data v1) = Some m1"
      "length m1 = length (vec_data v1)" "slots_hold ty (gap_at (unat off) 1 xs) m1"
    using vec_shift_right_rep [OF D(2,4) off, of 1] v1(3) D(3,7) by auto
  have "gap_at (unat off) 1 xs (unat off) = None" "unat off < length m1"
    using off v1(3) m1(2) D(3) by (simp_all add: gap_at_def)
  note c = hold_construct [OF m1(3) this, of x]
  have "unat (vec_size v1 + 1) = Suc (length xs)"
    using D(4) vec_rep_size64 [OF v1(2)] unat_add_small [of "vec_size v1" 1] by simp
  then have "vec_rep ty sz (take (unat off) xs @ x # drop (unat off) xs)
      (v1\<lparr>vec_data := m1[unat off := Some x], vec_size := vec_size v1 + 1\<rparr>)"
    using c(2) gap_at_fill [OF off, of x] D off m1(2) by (simp add: vec_rep_def lin_rep_hold)
  then show ?thesis using v1(1) m1(1) c(1) by (simp add: vec_insert_def)
qed (simp add: vec_insert_def)

lemma vec_emplace_insert: "vec_emplace nw ty sz mk off args v = vec_insert nw ty sz off (Value (mk args)) v"
  by (simp add: vec_emplace_def vec_insert_def cong: sum.case_cong)

lemma vec_erase_range_rep:
  assumes r: "vec_rep ty sz xs v" and f: "unat f \<le> unat l" "unat l \<le> length xs"
  shows "\<exists>v'. vec_erase_range ty f l v = Some (f, v') \<and>
           vec_rep ty sz (take (unat f) xs @ drop (unat l) xs) v'"
proof -
  note D = vec_repD [OF r]
  have n: "unat (l - f) = unat l - unat f" using f by (subst unat_sub) (simp_all add: word_le_nat_alt)
  have e: "unat f + unat (l - f) = unat l" using n f by simp
  show ?thesis
  proof (cases "l - f = 0")
    case True
    then have "l = f" by simp
    then show ?thesis using r by (simp add: vec_erase_range_def)
  next
    case False
    then have n0: "0 < unat (l - f)" by (simp add: unat_gt_0)
    obtain m1 where m1: "vec_destroy_n ty f (l - f) (vec_data v) = Some m1" "length m1 = length (vec_data v)"
        "slots_hold ty (closing_at (unat f) (unat (l - f)) xs 0) m1"
      using vec_destroy_n_rep [OF D(2), of f "l - f"] e f vec_rep_size64 [OF r] by auto
    obtain m2 where m2: "vec_shift_left ty l (vec_size v) (l - f) m1 = Some m2" "length m2 = length m1"
        "lin_rep ty (take (unat f) xs @ drop (unat l) xs) m2"
      using vec_shift_left_rep [OF m1(3) D(4) e [symmetric] _ n0] e f m1(2) D(3,6) by auto
    have "unat (vec_size v - (l - f)) = length xs - unat (l - f)"
      using D(4) n f by (subst unat_sub) (simp_all add: word_le_nat_alt)
    then have "vec_rep ty sz (take (unat f) xs @ drop (unat l) xs)
        (v\<lparr>vec_data := m2, vec_size := vec_size v - (l - f)\<rparr>)"
      using m1 m2 D n f by (simp add: vec_rep_def)
    then show ?thesis using False m1(1) m2(1) by (simp add: vec_erase_range_def Let_def)
  qed
qed

lemma vec_erase_rep:
  assumes r: "vec_rep ty sz xs v" and p: "unat p < length xs"
  shows "\<exists>v'. vec_erase ty p v = Some (p, v') \<and> vec_rep ty sz (take (unat p) xs @ drop (Suc (unat p)) xs) v'"
proof -
  have u: "unat (p + 1) = Suc (unat p)"
    using p vec_rep_size64 [OF r] unat_add_small [of p 1] by simp
  have n0: "(p + 1) - p = 1" by simp
  have d: "slot_destroy ty (unat p) m = vec_destroy_n ty p 1 m" if "unat p < length m" for m
    using that by (auto simp: vec_destroy_n_def slot_destroy_def for_range.simps [of 0] for_range.simps [of 1])
  have "vec_erase ty p v = vec_erase_range ty p (p + 1) v"
    using d [of "vec_data v"] p vec_repD [OF r] by (simp add: vec_erase_def vec_erase_range_def)
  with vec_erase_range_rep [OF r, of p "p + 1"] u p show ?thesis by simp
qed

subsection \<open>Filling and resizing\<close>

lemma vec_fill_rep:
  assumes r: "lin_rep ty xs m" and lo: "unat lo = length xs" "unat lo \<le> unat hi" "unat hi \<le> length m"
  shows "\<exists>m'. vec_fill ty moved (Value x) lo hi m = Some m' \<and> length m' = length m \<and>
           lin_rep ty (xs @ replicate (unat hi - unat lo) x) m'"
proof -
  let ?P = "\<lambda>k d. length d = length m \<and> lin_rep ty (xs @ replicate (k - length xs) x) d"
  have "\<exists>m'. vec_fill ty moved (Value x) lo hi m = Some m' \<and> ?P (unat hi) m'"
    unfolding vec_fill_def
  proof (rule for_range_rule [where P = ?P])
    show "?P (unat lo) m" using r lo(1) by simp
    fix i d
    assume i: "unat lo \<le> unat i" "i < hi" and P: "?P (unat i) d"
    let ?ys = "xs @ replicate (unat i - length xs) x"
    have len: "length ?ys = unat i" "Suc (unat i) - length xs = Suc (unat i - length xs)"
      using i(1) lo(1) by auto
    have "unat i < length d" using i(2) lo(3) P by (simp add: word_less_nat_alt)
    with lin_rep_push [OF conjunct2 [OF P], of x] len P
    show "\<exists>d'. (do { x \<leftarrow> arg_value moved d (Value x); slot_construct ty (unat i) x d }) = Some d' \<and>
        ?P (Suc (unat i)) d'"
      by (simp add: replicate_append_same)
  qed (use lo in simp)
  with lo show ?thesis by simp
qed

lemma vec_resize_rep:
  assumes r: "vec_rep ty sz xs v" and nw: "new_limit nw" and n: "vec_request_ok sz (unat count)"
  shows "(vec_resize nw ty sz count (Value x) v = Some (Inl Bad_alloc, v) \<and> length xs < unat count) \<or>
    (\<exists>v'. vec_resize nw ty sz count (Value x) v = Some (Inr (), v') \<and>
       vec_rep ty sz (take (unat count) xs @ replicate (unat count - length xs) x) v')"
proof -
  note D = vec_repD [OF r]
  consider "count < vec_size v" | "count = vec_size v" | "vec_size v < count" by fastforce
  then show ?thesis
  proof cases
    case 1
    then have lt: "unat count < length xs" using D(4) by (simp add: word_less_nat_alt)
    have "unat (vec_size v - count) = length xs - unat count"
      using D(4) lt by (subst unat_sub) (simp_all add: word_le_nat_alt)
    then have "unat count + unat (vec_size v - count) = length xs" using lt by simp
    from vec_truncate_rep [OF D(2) this] obtain m where "vec_destroy_n ty count (vec_size v - count) (vec_data v) = Some m"
        "length m = length (vec_data v)" "lin_rep ty (take (unat count) xs) m"
      using vec_rep_size64 [OF r] by auto
    then show ?thesis using 1 D lt by (simp add: vec_resize_def vec_rep_def)
  next
    case 2
    then show ?thesis using r D(4) by (simp add: vec_resize_def)
  next
    case 3
    then have lt: "length xs < unat count" using D(4) by (simp add: word_less_nat_alt)
    have e: "length xs + unat (count - vec_size v) = unat count"
      using D(4) lt by (subst unat_sub) (simp_all add: word_le_nat_alt)
    have not: "\<not> count < vec_size v" using 3 by simp
    consider "vec_ensure_space nw ty sz (count - vec_size v) v = Some (Inl Bad_alloc, v)"
      | moved v1 where "vec_ensure_space nw ty sz (count - vec_size v) v = Some (Inr moved, v1)"
          "vec_rep ty sz xs v1" "unat count \<le> unat (vec_cap v1)" "vec_size v1 = vec_size v"
      using vec_ensure_space_rep [OF r nw, of "count - vec_size v"] n e by auto
    then show ?thesis
    proof cases
      case 1
      then show ?thesis using 3 not lt by (simp add: vec_resize_def)
    next
      case (2 moved v1)
      note E = vec_repD [OF 2(2)]
      obtain m where "vec_fill ty moved (Value x) (vec_size v1) count (vec_data v1) = Some m"
          "length m = length (vec_data v1)" "lin_rep ty (xs @ replicate (unat count - length xs) x) m"
        using vec_fill_rep [OF E(2,4), of count moved x] E lt 2(3) by auto
      then show ?thesis using 2 3 not lt E by (auto simp: vec_resize_def vec_rep_def)
    qed
  qed
qed

lemma vec_grow_to_rep:
  assumes r: "vec_rep ty sz xs v" and nw: "new_limit nw" and n: "unat n * unat sz < 2 ^ 64"
  shows "vec_grow_to nw ty sz n v = Some (Inl Bad_alloc, v) \<or>
    (\<exists>v'. vec_grow_to nw ty sz n v = Some (Inr (), v') \<and> vec_rep ty sz xs v' \<and>
       unat n \<le> unat (vec_cap v') \<and> unat (vec_cap v') = max (unat (vec_cap v)) (unat n))"
proof (cases "n \<le> vec_cap v")
  case True
  then show ?thesis using r by (simp add: vec_grow_to_def word_le_nat_alt max_def)
next
  case False
  then have "length xs \<le> unat n" using vec_repD(6) [OF r] by (simp add: word_le_nat_alt)
  from vec_reallocate_rep [OF r this n nw] show ?thesis
    using False by (auto simp: vec_grow_to_def word_le_nat_alt)
qed

lemma vec_reserve_rep:
  assumes "vec_rep ty sz xs v" "new_limit nw" "unat n * unat sz < 2 ^ 64"
  shows "vec_reserve nw ty sz n v = Some (Inl Bad_alloc, v) \<or>
    (\<exists>v'. vec_reserve nw ty sz n v = Some (Inr (), v') \<and> vec_rep ty sz xs v' \<and>
       unat n \<le> unat (vec_cap v') \<and> unat (vec_cap v') = max (unat (vec_cap v)) (unat n))"
  using vec_grow_to_rep [OF assms] assms(1)
  by (auto simp: vec_reserve_def word_less_nat_alt max_def not_less)

lemma vec_shrink_rep:
  assumes r: "vec_rep ty sz xs v" and nw: "new_limit nw"
  shows "(vec_shrink_to_fit nw ty sz v = Some (Inl Bad_alloc, v) \<and> xs \<noteq> []) \<or>
    (\<exists>v'. vec_shrink_to_fit nw ty sz v = Some (Inr (), v') \<and> vec_rep ty sz xs v' \<and>
       unat (vec_cap v') = length xs)"
proof (cases "vec_size v < vec_cap v")
  case True
  note D = vec_repD [OF r]
  have "unat (vec_size v) * unat sz \<le> unat (vec_cap v) * unat sz"
    using D(4,6) by (intro mult_le_mono1) simp
  then have "unat (vec_size v) * unat sz < 2 ^ 63" using D(5) by (rule le_less_trans)
  then have "unat (vec_size v) * unat sz < 2 ^ 64" by (rule less_trans) simp
  from vec_reallocate_rep [OF r _ this nw] D(4) True show ?thesis
    by (auto simp: vec_shrink_to_fit_def unat_eq_0)
next
  case False
  then show ?thesis using r vec_repD(4,6) [OF r] by (simp add: vec_shrink_to_fit_def word_less_nat_alt)
qed

subsection \<open>Construction, assignment, comparison\<close>

lemma vec_append_all_rep:
  assumes "vec_rep ty sz xs v" "length xs + length ys \<le> unat (vec_cap v)"
  shows "\<exists>v'. vec_append_all ty ys v = Some v' \<and> vec_rep ty sz (xs @ ys) v'"
  using assms
proof (induction ys arbitrary: xs v)
  case Nil
  then show ?case by simp
next
  case (Cons y ys)
  then obtain v1 where v1: "vec_construct_back ty y v = Some v1" "vec_rep ty sz (xs @ [y]) v1"
      "vec_cap v1 = vec_cap v"
    using vec_construct_back_rep [OF Cons.prems(1), of y] by auto
  with Cons.IH [OF v1(2)] Cons.prems show ?case by simp
qed

lemma vec_push_all_rep:
  assumes "vec_rep ty sz xs v" "new_limit nw"
  shows "\<exists>v'. (vec_push_all nw ty sz ys v = Some (Inr (), v') \<and> vec_rep ty sz (xs @ ys) v') \<or>
    (\<exists>k < length ys. vec_push_all nw ty sz ys v = Some (Inl Bad_alloc, v') \<and> vec_rep ty sz (xs @ take k ys) v')"
  using assms
proof (induction ys arbitrary: xs v)
  case Nil
  then show ?case by simp
next
  case (Cons y ys)
  consider "vec_push_back nw ty sz (Value y) v = Some (Inl Bad_alloc, v)"
    | v1 where "vec_push_back nw ty sz (Value y) v = Some (Inr (), v1)" "vec_rep ty sz (xs @ [y]) v1"
    using vec_push_back_rep [OF Cons.prems, of y] by blast
  then show ?case
  proof cases
    case 1
    then show ?thesis using Cons.prems(1) by (intro exI [of _ v] disjI2 exI [of _ 0]) simp
  next
    case (2 v1)
    from Cons.IH [OF 2(2) Cons.prems(2)] obtain v' where
      "(vec_push_all nw ty sz ys v1 = Some (Inr (), v') \<and> vec_rep ty sz ((xs @ [y]) @ ys) v') \<or>
       (\<exists>k < length ys. vec_push_all nw ty sz ys v1 = Some (Inl Bad_alloc, v') \<and>
          vec_rep ty sz ((xs @ [y]) @ take k ys) v')" by blast
    then show ?thesis
    proof (elim disjE exE conjE)
      fix k
      assume "k < length ys" "vec_push_all nw ty sz ys v1 = Some (Inl Bad_alloc, v')"
        "vec_rep ty sz ((xs @ [y]) @ take k ys) v'"
      then show ?thesis using 2(1) by (intro exI [of _ v'] disjI2 exI [of _ "Suc k"]) simp
    qed (use 2(1) in auto)
  qed
qed

lemma vec_from_list_rep:
  assumes "length il * unat sz < 2 ^ 64" "sizeof_ok sz" "new_limit nw"
  shows "vec_from_list nw ty sz il = Some (Inl Bad_alloc, vec_new) \<or>
    (\<exists>v. vec_from_list nw ty sz il = Some (Inr (), v) \<and> vec_rep ty sz il v \<and> unat (vec_cap v) = length il)"
proof -
  have "length il \<le> length il * unat sz" using assms(2) by (simp add: sizeof_ok_def)
  then have u: "unat (of_nat (length il) :: usize) = length il"
    using assms(1) by (intro unat_of_nat_usize) (rule le_less_trans)
  consider "vec_grow_to nw ty sz (of_nat (length il)) vec_new = Some (Inl Bad_alloc, vec_new)"
    | v where "vec_grow_to nw ty sz (of_nat (length il)) vec_new = Some (Inr (), v)" "vec_rep ty sz [] v"
       "unat (vec_cap v) = length il"
    using vec_grow_to_rep [OF vec_rep_new [OF assms(2)] assms(3), of "of_nat (length il)" ty] assms(1) u
    by (auto simp: vec_new_def)
  then show ?thesis
  proof cases
    case (2 v)
    have cap: "vec_append_all ty ys p = Some p' \<Longrightarrow> vec_cap p' = vec_cap p" for ys p p'
      by (induction ys arbitrary: p) (auto simp: vec_construct_back_def split: bind_splits)
    from vec_append_all_rep [OF 2(2), of il] 2 cap show ?thesis by (fastforce simp: vec_from_list_def)
  qed (simp add: vec_from_list_def)
qed

lemma vec_copy_rep:
  assumes r: "vec_rep ty sz xs rhs" and nw: "new_limit nw"
  shows "vec_copy nw ty sz rhs = Some (Inl Bad_alloc, vec_new) \<or>
    (\<exists>v. vec_copy nw ty sz rhs = Some (Inr (), v) \<and> vec_rep ty sz xs v \<and> unat (vec_cap v) = length xs)"
proof -
  note D = vec_repD [OF r]
  have "unat (vec_size rhs) * unat sz \<le> unat (vec_cap rhs) * unat sz"
    using D(4,6) by (intro mult_le_mono1) simp
  then have "unat (vec_size rhs) * unat sz < 2 ^ 63" using D(5) by (rule le_less_trans)
  then have fit: "unat (vec_size rhs) * unat sz < 2 ^ 64" by (rule less_trans) simp
  consider "vec_grow_to nw ty sz (vec_size rhs) vec_new = Some (Inl Bad_alloc, vec_new)"
    | v where "vec_grow_to nw ty sz (vec_size rhs) vec_new = Some (Inr (), v)" "vec_rep ty sz [] v"
       "unat (vec_cap v) = length xs"
    using vec_grow_to_rep [OF vec_rep_new [OF D(1)] nw fit, of ty] D(4) by (auto simp: vec_new_def)
  then show ?thesis
  proof cases
    case (2 v)
    note E = vec_repD [OF 2(2)]
    have "length xs \<le> length (vec_data v)" using E(3) 2(3) by simp
    from copy_elems_rep [OF D(2) E(2) D(4) this] obtain m where
      "copy_elems ty (vec_size rhs) (vec_data rhs) (vec_data v) = Some m" "length m = length (vec_data v)"
      "lin_rep ty xs m" by blast
    then show ?thesis using 2 E D(4) by (simp add: vec_copy_def vec_rep_def)
  qed (simp add: vec_copy_def)
qed

lemma vec_replace_by_rep:
  assumes "vec_rep ty sz ys v"
  shows "vec_replace_by ty v (Inl e, t) = Some (Inl e, v)" "vec_replace_by ty v (Inr (), t) = Some (Inr (), t)"
  using vec_destroy_rep [OF assms] by (simp_all add: vec_replace_by_def vec_swap_def)

lemma vec_assign_rep:
  assumes "vec_rep ty sz xs rhs" "vec_rep ty sz ys v" "new_limit nw"
  shows "vec_assign nw ty sz v (Other rhs) = Some (Inl Bad_alloc, v) \<or>
      (\<exists>v'. vec_assign nw ty sz v (Other rhs) = Some (Inr (), v') \<and> vec_rep ty sz xs v')"
    "vec_assign_move ty v (Other rhs) = Some (rhs, Other vec_new)"
proof -
  show "vec_assign nw ty sz v (Other rhs) = Some (Inl Bad_alloc, v) \<or>
      (\<exists>v'. vec_assign nw ty sz v (Other rhs) = Some (Inr (), v') \<and> vec_rep ty sz xs v')"
    using vec_copy_rep [OF assms(1,3)] vec_replace_by_rep [OF assms(2)] by auto
  show "vec_assign_move ty v (Other rhs) = Some (rhs, Other vec_new)"
    using vec_clear_rep [OF assms(2)] by (auto simp: free_slots_raw)
qed

lemma vec_eq_rep:
  assumes "vec_rep ty sz xs a" "vec_rep ty' sz' ys b"
  shows "vec_eq ty same_bytes eq a b = Some (list_all2 (if is_trivial ty then same_bytes else eq) xs ys)"
proof (cases "length xs = length ys")
  case True
  then have s: "vec_size a = vec_size b"
    using vec_repD(4) [OF assms(1)] vec_repD(4) [OF assms(2)] by (simp add: usize_eq_iff)
  have "all_range 0 (vec_size a) (\<lambda>i. do { x \<leftarrow> vec_index a i; y \<leftarrow> vec_index b i;
          Some (if is_trivial ty then same_bytes x y else eq x y) }) =
      Some (\<forall>k. unat (0 :: usize) \<le> k \<and> k < unat (vec_size a) \<longrightarrow>
        (if is_trivial ty then same_bytes else eq) (xs ! k) (ys ! k))"
    by (rule all_range_eq)
       (use vec_at_rep(2) [OF assms(1)] vec_at_rep(2) [OF assms(2)] vec_repD(4) [OF assms(1)] True
        in \<open>simp add: word_less_nat_alt\<close>)
  then show ?thesis
    using s True vec_repD(4) [OF assms(1)] by (simp add: vec_eq_def list_all2_conv_all_nth)
next
  case False
  then show ?thesis
    using vec_repD(4) [OF assms(1)] vec_repD(4) [OF assms(2)]
      list_all2_lengthD [of "if is_trivial ty then same_bytes else eq" xs ys]
    by (auto simp: vec_eq_def usize_eq_iff)
qed

text \<open>Lexicographic order of lists, with the elements compared by \<open>lt\<close> both ways.\<close>

fun list_less :: "('a \<Rightarrow> 'a \<Rightarrow> bool) \<Rightarrow> 'a list \<Rightarrow> 'a list \<Rightarrow> bool" where
  "list_less lt [] [] \<longleftrightarrow> False"
| "list_less lt [] (y # ys) \<longleftrightarrow> True"
| "list_less lt (x # xs) [] \<longleftrightarrow> False"
| "list_less lt (x # xs) (y # ys) \<longleftrightarrow> lt x y \<or> (\<not> lt y x \<and> list_less lt xs ys)"

lemma vec_less_from:
  assumes "vec_rep ty sz xs a" "vec_rep ty' sz' ys b"
  shows "unat i \<le> length xs \<Longrightarrow> unat i \<le> length ys \<Longrightarrow>
    lex_compare lt i a b = Some (list_less lt (drop (unat i) xs) (drop (unat i) ys))"
  using assms
proof (induction lt i a b rule: lex_compare.induct)
  case (1 lt i a b)
  note s = vec_repD(4) [OF 1(4)] vec_repD(4) [OF 1(5)]
  show ?case
  proof (cases "i < vec_size a \<and> i < vec_size b")
    case True
    then have l: "unat i < length xs" "unat i < length ys" using s by (simp_all add: word_less_nat_alt)
    have u: "unat (i + 1) = Suc (unat i)" using True unat_plus1 by blast
    note idx = vec_at_rep(2) [OF 1(4) l(1)] vec_at_rep(2) [OF 1(5) l(2)]
    have d: "drop (unat i) xs = xs ! unat i # drop (Suc (unat i)) xs"
      "drop (unat i) ys = ys ! unat i # drop (Suc (unat i)) ys"
      using l by (simp_all add: Cons_nth_drop_Suc)
    have IH: "lex_compare lt (i + 1) a b = Some (list_less lt (drop (Suc (unat i)) xs) (drop (Suc (unat i)) ys))"
      if "\<not> lt (xs ! unat i) (ys ! unat i)" "\<not> lt (ys ! unat i) (xs ! unat i)"
      using 1(1) [OF True idx that] 1(4,5) l u by simp
    show ?thesis using True idx d IH by (simp add: lex_compare.simps [of lt i])
  next
    case False
    then have c: "lex_compare lt i a b = Some (\<not> unat i < length xs \<and> unat i < length ys)"
      "\<not> (unat i < length xs \<and> unat i < length ys)"
      using s by (auto simp: lex_compare.simps [of lt i] word_less_nat_alt)
    show ?thesis
    proof (cases "unat i < length ys")
      case True
      then have "drop (unat i) ys = ys ! unat i # drop (Suc (unat i)) ys" by (simp add: Cons_nth_drop_Suc)
      then show ?thesis using c True 1(2) by simp
    next
      case F: False
      then have "drop (unat i) ys = []" by simp
      then show ?thesis using c F by (cases "drop (unat i) xs") simp_all
    qed
  qed
qed

lemma vec_less_rep:
  assumes "vec_rep ty sz xs a" "vec_rep ty' sz' ys b"
  shows "vec_less lt a b = Some (list_less lt xs ys)" "vec_less_eq lt a b = Some (\<not> list_less lt ys xs)"
  using vec_less_from [OF assms, of 0 lt] vec_less_from [OF assms(2,1), of 0 lt]
  by (simp_all add: vec_less_def vec_less_eq_def)

section \<open>The array contract\<close>

text \<open>The operations of a client that pops behind a test for emptiness.\<close>

definition vec_offer :: "'a elem_type \<Rightarrow> usize \<Rightarrow> (usize \<Rightarrow> bool) \<Rightarrow> 'a \<Rightarrow> 'a vector \<Rightarrow> (bool \<times> 'a vector) option" where
  "vec_offer ty sz nw x v = map_option (map_prod (case_sum (\<lambda>_. False) (\<lambda>_. True)) id) (vec_push_back nw ty sz (Value x) v)"

definition vec_poll :: "'a elem_type \<Rightarrow> 'a vector \<Rightarrow> ('a option \<times> 'a vector) option" where
  "vec_poll ty v =
     (if vec_empty v then Some (None, v)
      else do { x \<leftarrow> vec_back v; v' \<leftarrow> vec_pop_back ty v; Some (Some x, v') })"

interpretation vec: back_sequence "vec_inv ty sz" vec_list new_limit "vec_offer ty sz" "vec_poll ty" vec_at
  for ty :: "'a elem_type" and sz
proof unfold_locales
  fix v :: "'a vector" and x
  assume "vec_inv ty sz v"
  then have r: "vec_rep ty sz (vec_list v) v" by (simp add: vec_inv_def)
  show "\<exists>ok v'. vec_offer ty sz nw x v = Some (ok, v') \<and> vec_inv ty sz v' \<and>
      vec_list v' = (if ok then vec_list v @ [x] else vec_list v)" if "new_limit nw" for nw
    using vec_push_back_rep [OF r that, of x]
  proof (elim disjE exE conjE)
    assume "vec_push_back nw ty sz (Value x) v = Some (Inl Bad_alloc, v)"
    then show ?thesis using vec_rep_inv [OF r] by (intro exI [of _ False] exI [of _ v]) (simp add: vec_offer_def)
  next
    fix v'
    assume "vec_push_back nw ty sz (Value x) v = Some (Inr (), v')" and r': "vec_rep ty sz (vec_list v @ [x]) v'"
    then show ?thesis using vec_rep_inv [OF r'] vec_rep_list [OF r']
      by (intro exI [of _ True] exI [of _ v']) (simp add: vec_offer_def)
  qed
  show "\<exists>v'. vec_poll ty v = Some (Some x, v') \<and> vec_inv ty sz v' \<and> vec_list v' = xs"
    if "vec_list v = xs @ [x]" for xs
  proof -
    have r': "vec_rep ty sz (xs @ [x]) v" using r that by simp
    have "\<not> vec_empty v" using vec_repD(4) [OF r'] by (auto simp: vec_empty_def)
    moreover obtain v' where "vec_pop_back ty v = Some v'" and v': "vec_rep ty sz xs v'"
      using vec_pop_back_rep(1) [OF r'] by blast
    ultimately show ?thesis
      using vec_pop_back_rep(2) [OF r'] vec_rep_list [OF v'] vec_rep_inv [OF v'] by (simp add: vec_poll_def)
  qed
  show "vec_poll ty v = Some (None, v)" if "vec_list v = []"
    using vec_repD(4) [OF r] that by (simp add: vec_poll_def vec_empty_def unat_eq_0)
  show "vec_at v i = Some (if unat i < length (vec_list v) then Inr (vec_list v ! unat i) else Inl Out_of_range)" for i
    using vec_at_rep(1) [OF r] .
qed

section \<open>Editing histories\<close>

datatype 'a vec_op =
    Push_back 'a
  | Pop_back
  | Insert_at usize 'a
  | Erase_at usize
  | Erase_range usize usize
  | Resize usize 'a
  | Reserve usize
  | Shrink_to_fit
  | Clear

text \<open>What each operation does to the sequence, and when its preconditions hold.\<close>

fun vec_op_spec :: "'a vec_op \<Rightarrow> 'a list \<Rightarrow> 'a list" where
  "vec_op_spec (Push_back x) xs = xs @ [x]"
| "vec_op_spec Pop_back xs = butlast xs"
| "vec_op_spec (Insert_at i x) xs = take (unat i) xs @ x # drop (unat i) xs"
| "vec_op_spec (Erase_at i) xs = take (unat i) xs @ drop (Suc (unat i)) xs"
| "vec_op_spec (Erase_range i j) xs = take (unat i) xs @ drop (unat j) xs"
| "vec_op_spec (Resize n x) xs = take (unat n) xs @ replicate (unat n - length xs) x"
| "vec_op_spec (Reserve n) xs = xs"
| "vec_op_spec Shrink_to_fit xs = xs"
| "vec_op_spec Clear xs = []"

fun vec_op_pre :: "usize \<Rightarrow> 'a vec_op \<Rightarrow> 'a list \<Rightarrow> bool" where
  "vec_op_pre sz Pop_back xs \<longleftrightarrow> xs \<noteq> []"
| "vec_op_pre sz (Insert_at i x) xs \<longleftrightarrow> unat i \<le> length xs"
| "vec_op_pre sz (Erase_at i) xs \<longleftrightarrow> unat i < length xs"
| "vec_op_pre sz (Erase_range i j) xs \<longleftrightarrow> unat i \<le> unat j \<and> unat j \<le> length xs"
| "vec_op_pre sz (Resize n x) xs \<longleftrightarrow> vec_request_ok sz (unat n)"
| "vec_op_pre sz (Reserve n) xs \<longleftrightarrow> unat n * unat sz < 2 ^ 64"
| "vec_op_pre sz _ xs \<longleftrightarrow> True"

text \<open>The operation of the vector, with the returned iterators dropped.\<close>

fun vec_op_step :: "(usize \<Rightarrow> bool) \<Rightarrow> 'a elem_type \<Rightarrow> usize \<Rightarrow> 'a vec_op \<Rightarrow> 'a vector \<Rightarrow>
    ((exn + unit) \<times> 'a vector) option" where
  "vec_op_step nw ty sz (Push_back x) v = vec_push_back nw ty sz (Value x) v"
| "vec_op_step nw ty sz Pop_back v = map_option (Pair (Inr ())) (vec_pop_back ty v)"
| "vec_op_step nw ty sz (Insert_at i x) v =
     map_option (map_prod (map_sum id (\<lambda>_. ())) id) (vec_insert nw ty sz i (Value x) v)"
| "vec_op_step nw ty sz (Erase_at i) v = map_option (\<lambda>p. (Inr (), snd p)) (vec_erase ty i v)"
| "vec_op_step nw ty sz (Erase_range i j) v = map_option (\<lambda>p. (Inr (), snd p)) (vec_erase_range ty i j v)"
| "vec_op_step nw ty sz (Resize n x) v = vec_resize nw ty sz n (Value x) v"
| "vec_op_step nw ty sz (Reserve n) v = vec_reserve nw ty sz n v"
| "vec_op_step nw ty sz Shrink_to_fit v = vec_shrink_to_fit nw ty sz v"
| "vec_op_step nw ty sz Clear v = map_option (Pair (Inr ())) (vec_clear ty v)"

lemma vec_op_step_rep:
  assumes r: "vec_rep ty sz xs v" and nw: "new_limit nw" and pre: "vec_op_pre sz i xs"
  shows "vec_op_step nw ty sz i v = Some (Inl Bad_alloc, v) \<or>
    (\<exists>v'. vec_op_step nw ty sz i v = Some (Inr (), v') \<and> vec_rep ty sz (vec_op_spec i xs) v')"
proof (cases i)
  case (Push_back x)
  then show ?thesis using vec_push_back_rep [OF r nw, of x] by auto
next
  case Pop_back
  then obtain ys y where "xs = ys @ [y]" using pre by (cases xs rule: rev_cases) auto
  with Pop_back show ?thesis using vec_pop_back_rep(1) [of ty sz ys y v] r by auto
next
  case (Insert_at k x)
  then show ?thesis using vec_insert_rep [OF r nw, of k x] pre by auto
next
  case (Erase_at k)
  then show ?thesis using vec_erase_rep [OF r, of k] pre by auto
next
  case (Erase_range j k)
  then show ?thesis using vec_erase_range_rep [OF r, of j k] pre by auto
next
  case (Resize n x)
  then show ?thesis using vec_resize_rep [OF r nw, of n x] pre by auto
next
  case (Reserve n)
  then show ?thesis using vec_reserve_rep [OF r nw, of n] pre by auto
next
  case Shrink_to_fit
  then show ?thesis using vec_shrink_rep [OF r nw] by auto
next
  case Clear
  then show ?thesis using vec_clear_rep [OF r] by auto
qed

text \<open>A history with the outcomes of allocations; \<open>vec_replay\<close> is its meaning on lists.\<close>

fun vec_replay :: "('a vec_op \<times> (exn + unit)) list \<Rightarrow> 'a list \<Rightarrow> 'a list" where
  "vec_replay [] xs = xs"
| "vec_replay ((i, r) # log) xs = vec_replay log (case r of Inl _ \<Rightarrow> xs | Inr _ \<Rightarrow> vec_op_spec i xs)"

text \<open>One operation of a history, with the outcome of the allocation it may make.\<close>

definition vec_step :: "'a elem_type \<Rightarrow> usize \<Rightarrow> (usize \<Rightarrow> bool) \<times> 'a vec_op \<Rightarrow> 'a vector \<Rightarrow>
    ((exn + unit) \<times> 'a vector) option" where
  "vec_step ty sz = (\<lambda>(nw, i). vec_op_step nw ty sz i)"

lemma vec_run_rep:
  assumes "vec_rep ty sz xs v" "\<forall>nw \<in> fst ` set ops. new_limit nw"
  shows "\<exists>k \<le> length ops. \<exists>outs v'. run_ops (vec_step ty sz) (take k ops) v = Some (outs, v') \<and>
    vec_rep ty sz (vec_replay (zip (map snd (take k ops)) outs) xs) v' \<and>
    (k < length ops \<longrightarrow> \<not> vec_op_pre sz (snd (ops ! k)) (vec_replay (zip (map snd (take k ops)) outs) xs))"
  using assms
proof (induction ops arbitrary: xs v)
  case Nil
  then show ?case by simp
next
  case (Cons io ops)
  obtain nw i where io: "io = (nw, i)" by (cases io)
  show ?case
  proof (cases "vec_op_pre sz i xs")
    case False
    then show ?thesis using Cons.prems(1) io by (intro exI [of _ 0]) simp
  next
    case True
    obtain r v1 ys where 1: "vec_step ty sz io v = Some (r, v1)" "vec_rep ty sz ys v1"
        "ys = (case r of Inl _ \<Rightarrow> xs | Inr _ \<Rightarrow> vec_op_spec i xs)"
      using vec_op_step_rep [OF Cons.prems(1) _ True, of nw] Cons.prems io by (auto simp: vec_step_def)
    from Cons.IH [OF 1(2)] Cons.prems(2) obtain k outs v' where
      "k \<le> length ops" "run_ops (vec_step ty sz) (take k ops) v1 = Some (outs, v')"
      "vec_rep ty sz (vec_replay (zip (map snd (take k ops)) outs) ys) v'"
      "k < length ops \<longrightarrow> \<not> vec_op_pre sz (snd (ops ! k)) (vec_replay (zip (map snd (take k ops)) outs) ys)"
      by auto
    with 1 io show ?thesis by (intro exI [of _ "Suc k"]) simp
  qed
qed

section \<open>Properties\<close>

text \<open>
  C17. Every history of insertions, erasures, resizes and reallocations of a vector, whatever
  allocations fail, runs without undefined behaviour and without a leak as long as the
  preconditions of the operations hold, and performs the corresponding edits of a list; an
  operation that throws \<open>bad_alloc\<close> changes nothing.
\<close>

theorem vector_histories:
  assumes "sizeof_ok sz" "\<forall>nw \<in> fst ` set ops. new_limit nw"
  shows "\<exists>k \<le> length ops. \<exists>outs v. run_ops (vec_step ty sz) (take k ops) vec_new = Some (outs, v) \<and>
    vec_inv ty sz v \<and> vec_list v = vec_replay (zip (map snd (take k ops)) outs) [] \<and>
    vec_destroy ty v = Some () \<and> (k < length ops \<longrightarrow> \<not> vec_op_pre sz (snd (ops ! k)) (vec_list v))"
proof -
  obtain k outs v where k: "k \<le> length ops" "run_ops (vec_step ty sz) (take k ops) vec_new = Some (outs, v)"
    and r: "vec_rep ty sz (vec_replay (zip (map snd (take k ops)) outs) []) v"
    and pre: "k < length ops \<longrightarrow> \<not> vec_op_pre sz (snd (ops ! k)) (vec_replay (zip (map snd (take k ops)) outs) [])"
    using vec_run_rep [OF vec_rep_new [OF assms(1)] assms(2)] by blast
  show ?thesis
    using k pre vec_rep_list [OF r] vec_rep_inv [OF r] vec_destroy_rep [OF r]
    by (intro exI [of _ k] conjI exI [of _ outs] exI [of _ v]) simp_all
qed

theorem vector_histories_witness:
  "\<exists>outs v. run_ops (vec_step \<lparr>is_trivial = False, residue = \<lambda>_. 0 :: int\<rparr> 8) [(\<lambda>b. b < 4096, Push_back 7)] vec_new
       = Some (outs, v) \<and> vec_list v = vec_replay (zip [Push_back 7] outs) []"
proof -
  let ?ty = "\<lparr>is_trivial = False, residue = \<lambda>_. 0 :: int\<rparr>"
  let ?ops = "[(\<lambda>b :: usize. b < 4096, Push_back 7)] :: ((usize \<Rightarrow> bool) \<times> int vec_op) list"
  have "new_limit (\<lambda>b. b < 4096)" by (auto simp: new_limit_def word_less_nat_alt)
  then have "\<forall>nw \<in> fst ` set ?ops. new_limit nw" "sizeof_ok 8" by (simp_all add: sizeof_ok_def)
  from vector_histories [OF this(2,1), of ?ty] obtain k outs v where
    k: "k \<le> 1" "run_ops (vec_step ?ty 8) (take k ?ops) vec_new = Some (outs, v)"
      "vec_list v = vec_replay (zip (map snd (take k ?ops)) outs) []"
      "k < 1 \<longrightarrow> \<not> vec_op_pre 8 (snd (?ops ! k)) (vec_list v)"
    by auto
  then have "k = 1" by (cases "k < 1") auto
  with k show ?thesis by auto
qed

text \<open>
  After any history of pushes and pops at the back, with any failures of allocation, the
  vector holds exactly what the reported results say, \<open>at(i)\<close> returns its \<open>i\<close>-th element
  and throws \<open>out_of_range\<close> from its size on, and popping everything returns the elements
  in reverse.
\<close>

theorem vector_back_histories:
  assumes "sizeof_ok sz" "\<forall>nw \<in> fst ` set ops. new_limit nw"
  shows "\<exists>outs v. run_ops (\<lambda>(nw, i). container_step (vec_offer ty sz nw) (vec_poll ty) i) ops vec_new = Some (outs, v) \<and>
    back_replay (zip (map snd ops) outs) [] = Some (vec_list v) \<and>
    (\<forall>i. vec_at v i = Some (if unat i < length (vec_list v) then Inr (vec_list v ! unat i) else Inl Out_of_range)) \<and>
    (\<exists>v'. pop_batch (vec_poll ty) (length (vec_list v)) v = Some (rev (vec_list v), v'))"
proof -
  have n: "vec_inv ty sz vec_new" "vec_list vec_new = []"
    using vec_rep_inv [OF vec_rep_new [OF assms(1)]] by (simp_all add: vec_list_def vec_new_def)
  obtain outs v where "run_ops (\<lambda>(nw, i). container_step (vec_offer ty sz nw) (vec_poll ty) i) ops vec_new = Some (outs, v)"
      "back_replay (zip (map snd ops) outs) [] = Some (vec_list v)" "vec_inv ty sz v"
    using vec.histories [OF n(1) assms(2), unfolded n(2)] by blast
  with vec.elem_nth vec.drain show ?thesis by blast
qed

theorem vector_back_histories_witness:
  "\<exists>outs v. run_ops (\<lambda>(nw, i). container_step (vec_offer \<lparr>is_trivial = True, residue = id\<rparr> 8 nw)
       (vec_poll \<lparr>is_trivial = True, residue = id\<rparr>) i) [(\<lambda>b. b < 4096, Push (3 :: int)), (\<lambda>b. False, Pop)] vec_new = Some (outs, v) \<and>
     back_replay (zip [Push 3, Pop] outs) [] = Some (vec_list v) \<and> vec_at v 9 \<noteq> None"
proof -
  have "new_limit (\<lambda>b. b < 4096)" "new_limit (\<lambda>b. False)"
    by (auto simp: new_limit_def word_less_nat_alt)
  then show ?thesis
    using vector_back_histories [of 8 "[(\<lambda>b. b < 4096, Push (3 :: int)), (\<lambda>b. False, Pop)]" "\<lparr>is_trivial = True, residue = id\<rparr>"]
    by (auto simp: sizeof_ok_def)
qed

text \<open>
  C40. Copying and assigning vectors gives an equal array with no spare capacity and leaves the
  source alone, or throws \<open>bad_alloc\<close> and leaves the target as it was; moving hands over
  the buffer and leaves an empty vector; \<open>==\<close> compares element by element, by bytes for
  trivially copyable elements and by the elements' \<open>==\<close> otherwise, and \<open><\<close> is the
  lexicographic order.
\<close>

theorem vector_value_semantics:
  assumes "vec_inv ty sz v" "vec_inv ty sz t" "new_limit nw"
  shows "(vec_copy nw ty sz t = Some (Inl Bad_alloc, vec_new) \<or>
      (\<exists>v'. vec_copy nw ty sz t = Some (Inr (), v') \<and> vec_inv ty sz v' \<and> vec_list v' = vec_list t \<and>
         unat (vec_cap v') = length (vec_list t))) \<and>
    (vec_assign nw ty sz v (Other t) = Some (Inl Bad_alloc, v) \<or>
      (\<exists>v'. vec_assign nw ty sz v (Other t) = Some (Inr (), v') \<and> vec_inv ty sz v' \<and> vec_list v' = vec_list t)) \<and>
    vec_assign_move ty v (Other t) = Some (t, Other vec_new) \<and>
    vec_eq ty same_bytes eq v t =
      Some (list_all2 (if is_trivial ty then same_bytes else eq) (vec_list v) (vec_list t)) \<and>
    vec_less lt v t = Some (list_less lt (vec_list v) (vec_list t))"
proof -
  have r: "vec_rep ty sz (vec_list v) v" "vec_rep ty sz (vec_list t) t"
    using assms(1,2) by (simp_all add: vec_inv_def)
  have 1: "vec_copy nw ty sz t = Some (Inl Bad_alloc, vec_new) \<or>
      (\<exists>v'. vec_copy nw ty sz t = Some (Inr (), v') \<and> vec_inv ty sz v' \<and> vec_list v' = vec_list t \<and>
         unat (vec_cap v') = length (vec_list t))"
    using vec_copy_rep [OF r(2) assms(3)] vec_rep_list vec_rep_inv by blast
  have 2: "vec_assign nw ty sz v (Other t) = Some (Inl Bad_alloc, v) \<or>
      (\<exists>v'. vec_assign nw ty sz v (Other t) = Some (Inr (), v') \<and> vec_inv ty sz v' \<and> vec_list v' = vec_list t)"
    using vec_assign_rep(1) [OF r(2,1) assms(3)] vec_rep_list vec_rep_inv by blast
  show ?thesis
    by (intro conjI 1 2 vec_eq_rep [OF r] vec_less_rep(1) [OF r] vec_assign_rep(2) [OF r(2,1) assms(3)])
qed

theorem vector_value_semantics_witness:
  "vec_eq \<lparr>is_trivial = False, residue = \<lambda>_. 0\<rparr> (\<lambda>_ _. False) (=)
     \<lparr>vec_data = [Some 10, Some 20 :: int option, None], vec_size = 2, vec_cap = 3\<rparr>
     \<lparr>vec_data = [Some 10, Some 30], vec_size = 2, vec_cap = 2\<rparr> = Some False \<and>
   vec_less (<) \<lparr>vec_data = [Some 10, Some 20 :: int option, None], vec_size = 2, vec_cap = 3\<rparr>
     \<lparr>vec_data = [Some 10, Some 30], vec_size = 2, vec_cap = 2\<rparr> = Some True \<and>
   vec_assign_move \<lparr>is_trivial = False, residue = \<lambda>_. 0\<rparr>
     \<lparr>vec_data = [Some 10, Some 20 :: int option, None], vec_size = 2, vec_cap = 3\<rparr>
     (Other \<lparr>vec_data = [Some 10, Some 30], vec_size = 2, vec_cap = 2\<rparr>) =
   Some (\<lparr>vec_data = [Some 10, Some 30], vec_size = 2, vec_cap = 2\<rparr>, Other vec_new)"
proof -
  let ?ty = "\<lparr>is_trivial = False, residue = \<lambda>_. 0\<rparr> :: int elem_type"
  let ?v = "\<lparr>vec_data = [Some 10, Some 20 :: int option, None], vec_size = 2, vec_cap = 3\<rparr>"
  let ?t = "\<lparr>vec_data = [Some 10, Some 30 :: int option], vec_size = 2, vec_cap = 2\<rparr>"
  have nw: "new_limit (\<lambda>b. b < 4096)" by (auto simp: new_limit_def word_less_nat_alt)
  have l: "vec_list ?v = [10, 20]" "vec_list ?t = [10, 30]" by (simp_all add: vec_list_def)
  have "vec_rep ?ty 4 [10, 20] ?v" "vec_rep ?ty 4 [10, 30] ?t"
    by (auto simp: vec_rep_def sizeof_ok_def lin_rep_def less_Suc_eq nth_Cons')
  from vector_value_semantics [OF this [THEN vec_rep_inv] nw, of "\<lambda>_ _. False" "(=)" "(<)"] l
  show ?thesis by simp
qed

text \<open>
  \<open>insert(pos, v[k])\<close>, a reference to an element of the vector itself: with spare capacity
  an element before \<open>pos\<close> is copied correctly, but for \<open>k\<close> behind \<open>pos\<close> the shift has
  already happened and the element in front of it, \<open>v[k - 1]\<close>, is inserted instead; for
  \<open>k = pos\<close> the slot has been vacated (undefined behaviour unless \<open>T\<close> is trivially
  copyable); without spare capacity the reference dangles.
\<close>

theorem vector_insert_own_element:
  assumes "vec_inv ty sz v" "new_limit nw" "unat off \<le> length (vec_list v)" "k < length (vec_list v)"
  shows "vec_insert nw ty sz off (Own k) v =
    (if length (vec_list v) = unat (vec_cap v)
     then (if vec_ensure_space nw ty sz 1 v = Some (Inl Bad_alloc, v) then Some (Inl Bad_alloc, v) else None)
     else if k < unat off then vec_insert nw ty sz off (Value (vec_list v ! k)) v
     else if unat off < k then vec_insert nw ty sz off (Value (vec_list v ! (k - 1))) v
     else if is_trivial ty then vec_insert nw ty sz off (Value (vec_list v ! k)) v
     else None)"
proof -
  have r: "vec_rep ty sz (vec_list v) v" using assms(1) by (simp add: vec_inv_def)
  note D = vec_repD [OF r]
  show ?thesis
    using r assms(2)
  proof (cases rule: vec_ensure_one)
    case full
    then show ?thesis by (simp add: vec_insert_def)
  next
    case (room moved v1)
    note E = vec_repD [OF room(2)]
    obtain m1 where m1: "vec_shift_right ty off (vec_size v1) 1 (vec_data v1) = Some m1"
        "length m1 = length (vec_data v1)" "slots_hold ty (gap_at (unat off) 1 (vec_list v)) m1"
        "is_trivial ty \<longrightarrow> (\<forall>i < unat off + 1. i < length (vec_list v) \<longrightarrow> m1 ! i = vec_data v1 ! i)"
      using vec_shift_right_rep [OF E(2,4) assms(3), of 1] room(3) E(3,7) by auto
    have ins: "vec_insert nw ty sz off a v = Option.bind (arg_value moved m1 a) (\<lambda>x.
        Option.bind (slot_construct ty (unat off) x m1) (\<lambda>m2.
          Some (Inr off, v1\<lparr>vec_data := m2, vec_size := vec_size v1 + 1\<rparr>)))" for a
      using room(1) m1(1) by (simp add: vec_insert_def)
    have rd: "slot_read k m1 = gap_at (unat off) 1 (vec_list v) k" if "k \<noteq> unat off"
      using hold_read [OF m1(3), of k] that assms(4) by (cases "k < unat off") (simp_all add: gap_at_def)
    have at_off: "slot_read k m1 = (if is_trivial ty then Some (vec_list v ! k) else None)" if "k = unat off"
      using that m1(2,3,4) lin_repD(2) [OF E(2) assms(4)] assms(4) E(3,6)
      by (auto simp: slot_read_def slots_hold_def gap_at_def)
    show ?thesis
      unfolding ins
      using room rd at_off assms(4) by (auto simp: gap_at_def)
  qed
qed

theorem vector_insert_own_element_witness:
  "vec_insert (\<lambda>b. b < 4096) \<lparr>is_trivial = True, residue = id\<rparr> 8 0 (Own 1)
     \<lparr>vec_data = [Some 10, Some 20 :: int option, None], vec_size = 2, vec_cap = 3\<rparr> =
   vec_insert (\<lambda>b. b < 4096) \<lparr>is_trivial = True, residue = id\<rparr> 8 0 (Value 10)
     \<lparr>vec_data = [Some 10, Some 20, None], vec_size = 2, vec_cap = 3\<rparr>"
proof -
  let ?v = "\<lparr>vec_data = [Some 10, Some 20 :: int option, None], vec_size = 2, vec_cap = 3\<rparr>"
  have nw: "new_limit (\<lambda>b. b < 4096)" by (auto simp: new_limit_def word_less_nat_alt)
  have l: "vec_list ?v = [10, 20]" by (simp add: vec_list_def)
  have "vec_rep \<lparr>is_trivial = True, residue = id\<rparr> 8 [10, 20] ?v"
    by (auto simp: vec_rep_def sizeof_ok_def lin_rep_def less_Suc_eq nth_Cons')
  from vector_insert_own_element [OF vec_rep_inv [OF this] nw, of 0 1] l show ?thesis by simp
qed

text \<open>
  The doubling loop from 4 visits the powers of two and then stays at 0: its value is at most
  \<open>2^63\<close> in every round.
\<close>

lemma doubling_bounded: "unat (((\<lambda>c. c * 2) ^^ k) (4 :: usize)) \<le> 2 ^ 63"
proof -
  have po2: "((\<lambda>c. c * 2) ^^ k) (4 :: usize) = 2 ^ (k + 2)" by (induction k) simp_all
  have "unat (2 ^ j :: usize) \<le> 2 ^ 63" for j
  proof (cases "j < 64")
    case True
    then have "(2 :: nat) ^ j \<le> 2 ^ 63" by (intro power_increasing) auto
    with True show ?thesis by (simp add: unat_po2)
  next
    case False
    then have z: "(2 ^ j :: usize) = 0" by (simp add: exp_eq_zero_iff)
    show ?thesis unfolding z by simp
  qed
  then show ?thesis unfolding po2 .
qed

text \<open>
  C32. The doubling loop of \<open>ensure_space\<close> has no check for overflow: a resize of an empty
  vector to more than 2^63 elements doubles the capacity 4 up to 2^63 and then to 0, and
  never returns. Stated of the loop itself, whose body has no other way to fail: its condition
  holds after every number of rounds, so that \<open>vec_new_cap\<close>, the capacity it ends with, is
  \<open>None\<close>; and the resize enters this loop before anything else, and does all that it does with
  the capacity that the loop gives it.
\<close>

theorem vector_resize_diverges:
  assumes "2 ^ 63 < unat count"
  shows "(\<forall>k. ((\<lambda>c. c * 2) ^^ k) 4 < count) \<and> vec_new_cap 0 count = None \<and>
    vec_resize nw ty sz count value vec_new =
      Option.bind (vec_new_cap 0 count) (\<lambda>new_cap. do {
        (r, v1) \<leftarrow> vec_grow_to nw ty sz new_cap vec_new;
        (case r of
           Inl e \<Rightarrow> Some (Inl e, v1)
         | Inr _ \<Rightarrow> do {
             m \<leftarrow> vec_fill ty (0 < new_cap) value (vec_size v1) count (vec_data v1);
             Some (Inr (), v1\<lparr>vec_data := m, vec_size := count\<rparr>)
           })
      }) \<and>
    vec_resize nw ty sz count value vec_new = None"
proof -
  have goes_on: "\<forall>k. ((\<lambda>c. c * 2) ^^ k) 4 < count"
    using doubling_bounded assms by (auto simp: word_less_nat_alt intro: le_less_trans)
  then have "while_option (\<lambda>c. c < count) (\<lambda>c. c * 2) (4 :: usize) = None" by (simp add: while_option_def)
  then have loop: "vec_new_cap 0 count = None" by (simp add: vec_new_cap_def)
  have "count \<noteq> 0" using assms by auto
  with goes_on loop show ?thesis
    by (simp add: vec_resize_def vec_new_def vec_ensure_space_def word_gt_0)
qed

theorem vector_resize_diverges_witness:
  "vec_new_cap 0 (2 ^ 63 + 1) = None \<and> vec_new_cap 0 (2 ^ 63) = Some (2 ^ 63) \<and>
   vec_resize (\<lambda>b. False) \<lparr>is_trivial = True, residue = id\<rparr> 1 (2 ^ 63 + 1) (Value (0 :: int)) vec_new = None"
proof -
  have "2 ^ 63 < unat (2 ^ 63 + 1 :: usize)" by simp
  from vector_resize_diverges [OF this, of "\<lambda>b. False" "\<lparr>is_trivial = True, residue = id\<rparr>" 1 "Value (0 :: int)"]
  have "vec_new_cap 0 (2 ^ 63 + 1) = None"
    "vec_resize (\<lambda>b. False) \<lparr>is_trivial = True, residue = id\<rparr> 1 (2 ^ 63 + 1) (Value (0 :: int)) vec_new = None"
    by blast+
  moreover have "vec_new_cap 0 (2 ^ 63) = Some (2 ^ 63)"
    by (simp add: vec_new_cap_def while_option_unfold)
  ultimately show ?thesis by blast
qed

text \<open>
  The iterator-range constructor either builds exactly the given sequence or throws
  \<open>bad_alloc\<close> after some prefix; the elements of that prefix are then live in storage no
  destructor will release, since the destructor of a partly constructed object does not run.
\<close>

theorem vector_range_constructor:
  assumes "sizeof_ok sz" "new_limit nw"
  shows "(\<exists>v. vec_from_range nw ty sz xs = Some (Inr (), v) \<and> vec_inv ty sz v \<and> vec_list v = xs) \<or>
    (\<exists>k < length xs. \<exists>v. vec_from_range nw ty sz xs = Some (Inl Bad_alloc, v) \<and> vec_list v = take k xs \<and>
       (0 < k \<and> \<not> is_trivial ty \<longrightarrow> free_slots ty (vec_data v) = None))"
proof -
  consider v where "vec_from_range nw ty sz xs = Some (Inr (), v)" "vec_rep ty sz xs v"
    | k v where "k < length xs" "vec_from_range nw ty sz xs = Some (Inl Bad_alloc, v)" "vec_rep ty sz (take k xs) v"
    using vec_push_all_rep [OF vec_rep_new [OF assms(1)] assms(2), of ty xs] by (auto simp: vec_from_range_def)
  then show ?thesis
  proof cases
    case (1 v)
    then show ?thesis using vec_rep_list [OF 1(2)] vec_rep_inv [OF 1(2)] by blast
  next
    case (2 k v)
    have "free_slots ty (vec_data v) = None" if k: "0 < k" and ty: "\<not> is_trivial ty"
    proof -
      have "0 < length (take k xs)" using k 2(1) by simp
      from lin_repD(2) [OF vec_repD(2) [OF 2(3)] this] have "vec_data v ! 0 \<noteq> None" by simp
      moreover have "0 < length (vec_data v)" using vec_repD(3,6) [OF 2(3)] k 2(1) by simp
      ultimately show ?thesis using ty by (auto simp: free_slots_def list_all_length)
    qed
    then show ?thesis using 2 vec_rep_list [OF 2(3)] by blast
  qed
qed

theorem vector_range_constructor_witness:
  "\<exists>v. vec_from_range (\<lambda>b. b \<le> 32) \<lparr>is_trivial = False, residue = \<lambda>_. 0 :: int\<rparr> 8 [] = Some (Inr (), v) \<and>
     vec_list v = []"
proof -
  have "new_limit (\<lambda>b. b \<le> 32)" by (auto simp: new_limit_def word_le_nat_alt)
  then show ?thesis
    using vector_range_constructor [of 8 "\<lambda>b. b \<le> 32" "\<lparr>is_trivial = False, residue = \<lambda>_. 0 :: int\<rparr>" "[]"]
    by (auto simp: sizeof_ok_def)
qed

text \<open>
  \<open>reserve\<close> and \<open>shrink_to_fit\<close> never change the elements: after a reserve the capacity
  is the larger of the old one and the request, after \<open>shrink_to_fit\<close> it is the size, and
  when memory runs out the vector is as before.
\<close>

theorem vector_reserve_and_shrink:
  assumes "vec_inv ty sz v" "new_limit nw" "unat n * unat sz < 2 ^ 64"
  shows "(vec_reserve nw ty sz n v = Some (Inl Bad_alloc, v) \<or>
      (\<exists>v'. vec_reserve nw ty sz n v = Some (Inr (), v') \<and> vec_inv ty sz v' \<and> vec_list v' = vec_list v \<and>
         unat (vec_cap v') = max (unat (vec_cap v)) (unat n))) \<and>
    (vec_shrink_to_fit nw ty sz v = Some (Inl Bad_alloc, v) \<or>
      (\<exists>v'. vec_shrink_to_fit nw ty sz v = Some (Inr (), v') \<and> vec_inv ty sz v' \<and> vec_list v' = vec_list v \<and>
         unat (vec_cap v') = length (vec_list v)))"
proof -
  have r: "vec_rep ty sz (vec_list v) v" using assms(1) by (simp add: vec_inv_def)
  have 1: "vec_reserve nw ty sz n v = Some (Inl Bad_alloc, v) \<or>
      (\<exists>v'. vec_reserve nw ty sz n v = Some (Inr (), v') \<and> vec_inv ty sz v' \<and> vec_list v' = vec_list v \<and>
         unat (vec_cap v') = max (unat (vec_cap v)) (unat n))"
    using vec_reserve_rep [OF r assms(2,3)] vec_rep_list vec_rep_inv by blast
  have 2: "vec_shrink_to_fit nw ty sz v = Some (Inl Bad_alloc, v) \<or>
      (\<exists>v'. vec_shrink_to_fit nw ty sz v = Some (Inr (), v') \<and> vec_inv ty sz v' \<and> vec_list v' = vec_list v \<and>
         unat (vec_cap v') = length (vec_list v))"
    using vec_shrink_rep [OF r assms(2)] vec_rep_list vec_rep_inv by blast
  show ?thesis by (rule conjI [OF 1 2])
qed

theorem vector_reserve_and_shrink_witness:
  "\<exists>v. vec_shrink_to_fit (\<lambda>b. b < 4096) \<lparr>is_trivial = True, residue = id\<rparr> 8
     \<lparr>vec_data = [Some 10, None :: int option], vec_size = 1, vec_cap = 2\<rparr> = Some (Inr (), v) \<and> unat (vec_cap v) = 1"
proof -
  let ?v = "\<lparr>vec_data = [Some 10, None :: int option], vec_size = 1, vec_cap = 2\<rparr>"
    and ?ty = "\<lparr>is_trivial = True, residue = id\<rparr> :: int elem_type"
  have nw: "new_limit (\<lambda>b. b < 4096)" by (auto simp: new_limit_def word_less_nat_alt)
  have l: "vec_list ?v = [10]" by (simp add: vec_list_def)
  have r: "vec_rep ?ty 8 [10] ?v" by (auto simp: vec_rep_def sizeof_ok_def lin_rep_def)
  have "vec_shrink_to_fit (\<lambda>b. b < 4096) ?ty 8 ?v \<noteq> Some (Inl Bad_alloc, ?v)"
    by (simp add: vec_shrink_to_fit_def vec_reallocate_def vec_alloc_def new_slots_def slot_memcpy_def free_slots_def)
  then show ?thesis using vector_reserve_and_shrink [OF vec_rep_inv [OF r] nw, of 4] l by auto
qed

end
