(* ===== verification/Traversal.thy ===== *)
theory Traversal
  imports HpcInterfaces
begin

text \<open>
  Ranges of iterators, as the containers offer them: what a bidirectional iterator promises of
  the positions of a container, \<open>std::reverse_iterator\<close>, which the containers use for
  \<open>rbegin\<close> and \<open>rend\<close>, and the loop
  \<open>for (auto it = first; it != last; ++it)\<close> over either.
\<close>

section \<open>Reverse iterators and loops over a range\<close>

datatype 'i reverse_iterator = Reverse 'i

text \<open>\<open>*r\<close> is the element before the position held; \<open>++r\<close> moves the position back.\<close>

fun rev_deref :: "('i \<Rightarrow> 'i option) \<Rightarrow> ('i \<Rightarrow> 'a option) \<Rightarrow> 'i reverse_iterator \<Rightarrow> 'a option" where
  "rev_deref dec deref (Reverse i) = do { t \<leftarrow> dec i; deref t }"

fun rev_inc :: "('i \<Rightarrow> 'i option) \<Rightarrow> 'i reverse_iterator \<Rightarrow> 'i reverse_iterator option" where
  "rev_inc dec (Reverse i) = map_option Reverse (dec i)"

fun rev_same :: "('i \<Rightarrow> 'i \<Rightarrow> bool) \<Rightarrow> 'i reverse_iterator \<Rightarrow> 'i reverse_iterator \<Rightarrow> bool" where
  "rev_same same (Reverse a) (Reverse b) \<longleftrightarrow> same a b"

text \<open>The elements a loop over a range visits; it may fault or not end.\<close>

partial_function (option) range_walk :: "('i \<Rightarrow> 'i option) \<Rightarrow> ('i \<Rightarrow> 'a option) \<Rightarrow> ('i \<Rightarrow> 'i \<Rightarrow> bool) \<Rightarrow>
    'i \<Rightarrow> 'i \<Rightarrow> 'a list option" where
  "range_walk inc deref same it end_it =
     (if same it end_it then Some []
      else do {
        x \<leftarrow> deref it;
        it' \<leftarrow> inc it;
        xs \<leftarrow> range_walk inc deref same it' end_it;
        Some (x # xs)
      })"

section \<open>The contract\<close>

text \<open>\<open>pos s i\<close> is \<open>begin() + i\<close>.\<close>

locale iterator_range =
  fixes inv :: "'s \<Rightarrow> bool"
    and contents :: "'s \<Rightarrow> 'a list"
    and pos :: "'s \<Rightarrow> nat \<Rightarrow> 'i"
    and inc :: "'s \<Rightarrow> 'i \<Rightarrow> 'i option"
    and dec :: "'s \<Rightarrow> 'i \<Rightarrow> 'i option"
    and deref :: "'s \<Rightarrow> 'i \<Rightarrow> 'a option"
    and same :: "'i \<Rightarrow> 'i \<Rightarrow> bool"
  assumes inc_pos: "inv s \<Longrightarrow> i < length (contents s) \<Longrightarrow> inc s (pos s i) = Some (pos s (Suc i))"
    and dec_pos: "inv s \<Longrightarrow> i < length (contents s) \<Longrightarrow> dec s (pos s (Suc i)) = Some (pos s i)"
    and deref_pos: "inv s \<Longrightarrow> i < length (contents s) \<Longrightarrow> deref s (pos s i) = Some (contents s ! i)"
    and same_pos: "inv s \<Longrightarrow> i \<le> length (contents s) \<Longrightarrow> j \<le> length (contents s) \<Longrightarrow>
      same (pos s i) (pos s j) \<longleftrightarrow> i = j"
begin

lemma walk_between:
  assumes "inv s"
  shows "i + d \<le> length (contents s) \<Longrightarrow>
    range_walk (inc s) (deref s) same (pos s i) (pos s (i + d)) = Some (take d (drop i (contents s)))"
proof (induction d arbitrary: i)
  case 0
  then show ?case using same_pos [OF assms, of i i] by (simp add: range_walk.simps)
next
  case (Suc d)
  then have "i < length (contents s)" by simp
  moreover from this have "take (Suc d) (drop i (contents s)) = contents s ! i # take d (drop (Suc i) (contents s))"
    by (simp add: Cons_nth_drop_Suc [symmetric])
  ultimately show ?case
    using Suc.IH [of "Suc i"] Suc.prems inc_pos [OF assms] deref_pos [OF assms] same_pos [OF assms, of i "i + Suc d"]
    by (simp add: range_walk.simps [of _ _ _ "pos s i"])
qed

lemma walk: "inv s \<Longrightarrow> range_walk (inc s) (deref s) same (pos s 0) (pos s (length (contents s))) = Some (contents s)"
  using walk_between [of s 0 "length (contents s)"] by simp

lemma reverse_walk_down:
  assumes "inv s"
  shows "i \<le> length (contents s) \<Longrightarrow>
    range_walk (rev_inc (dec s)) (rev_deref (dec s) (deref s)) (rev_same same) (Reverse (pos s i)) (Reverse (pos s 0)) =
      Some (rev (take i (contents s)))"
proof (induction i)
  case 0
  then show ?case using same_pos [OF assms, of 0 0] by (simp add: range_walk.simps)
next
  case (Suc i)
  then have "i < length (contents s)" by simp
  then show ?case
    using Suc.IH dec_pos [OF assms] deref_pos [OF assms] same_pos [OF assms, of "Suc i" 0]
    by (simp add: range_walk.simps [of _ _ _ "Reverse (pos s (Suc i))"] take_Suc_conv_app_nth)
qed

lemma reverse_walk:
  "inv s \<Longrightarrow>
   range_walk (rev_inc (dec s)) (rev_deref (dec s) (deref s)) (rev_same same)
     (Reverse (pos s (length (contents s)))) (Reverse (pos s 0)) = Some (rev (contents s))"
  using reverse_walk_down [of s "length (contents s)"] by simp

end

end
