(* ===== verification/VectorIterators.thy ===== *)
theory VectorIterators
  imports Vector Traversal "HOL-Library.List_Lexorder"
begin

text \<open>
  The iterators of \<open>hpc::core::vector<T>\<close> (\<open>include/hpc/core/vector.hpp\<close>), which are
  pointers into its buffer, here indices of its slots, and its comparison operators as the
  order of lists.
\<close>

section \<open>Pointers into the buffer\<close>

definition vec_begin :: "'a vector \<Rightarrow> nat" where
  "vec_begin v = 0"

definition vec_end :: "'a vector \<Rightarrow> nat" where
  "vec_end v = vec_begin v + unat (vec_size v)"

definition vec_rbegin :: "'a vector \<Rightarrow> nat reverse_iterator" where
  "vec_rbegin v = Reverse (vec_end v)"

definition vec_rend :: "'a vector \<Rightarrow> nat reverse_iterator" where
  "vec_rend v = Reverse (vec_begin v)"

text \<open>A pointer stays within the buffer or one past its end.\<close>

definition vec_inc :: "'a vector \<Rightarrow> nat \<Rightarrow> nat option" where
  "vec_inc v p = (if p < length (vec_data v) then Some (p + 1) else None)"

definition vec_dec :: "'a vector \<Rightarrow> nat \<Rightarrow> nat option" where
  "vec_dec v p = (if 0 < p then Some (p - 1) else None)"

definition vec_deref :: "'a vector \<Rightarrow> nat \<Rightarrow> 'a option" where
  "vec_deref v p = slot_read p (vec_data v)"

interpretation vec_range: iterator_range "vec_inv ty sz" vec_list "\<lambda>v i. vec_begin v + i" vec_inc vec_dec vec_deref "(=)"
proof unfold_locales
  fix v :: "'a vector" and i
  assume "vec_inv ty sz v"
  then have r: "vec_rep ty sz (vec_list v) v" by (simp add: vec_inv_def)
  note D = vec_repD [OF r]
  show "vec_inc v (vec_begin v + i) = Some (vec_begin v + Suc i)" if "i < length (vec_list v)"
    using that D(3,6) by (simp add: vec_inc_def vec_begin_def)
  show "vec_dec v (vec_begin v + Suc i) = Some (vec_begin v + i)"
    by (simp add: vec_dec_def vec_begin_def)
  show "vec_deref v (vec_begin v + i) = Some (vec_list v ! i)" if "i < length (vec_list v)"
    using lin_repD [OF D(2)] that by (simp add: vec_deref_def vec_begin_def slot_read_def)
qed simp

lemma vec_end_list: "vec_inv ty sz v \<Longrightarrow> vec_end v = vec_begin v + length (vec_list v)"
  using vec_repD(4) [of ty sz "vec_list v" v] by (simp add: vec_inv_def vec_end_def)

section \<open>The derived operators\<close>

definition vec_neq :: "'a elem_type \<Rightarrow> ('a \<Rightarrow> 'a \<Rightarrow> bool) \<Rightarrow> ('a \<Rightarrow> 'a \<Rightarrow> bool) \<Rightarrow> 'a vector \<Rightarrow> 'a vector \<Rightarrow> bool option" where
  "vec_neq ty same_bytes eq a b = map_option Not (vec_eq ty same_bytes eq a b)"

definition vec_greater :: "('a \<Rightarrow> 'a \<Rightarrow> bool) \<Rightarrow> 'a vector \<Rightarrow> 'a vector \<Rightarrow> bool option" where
  "vec_greater lt a b = vec_less lt b a"

definition vec_greater_eq :: "('a \<Rightarrow> 'a \<Rightarrow> bool) \<Rightarrow> 'a vector \<Rightarrow> 'a vector \<Rightarrow> bool option" where
  "vec_greater_eq lt a b = map_option Not (vec_less lt a b)"

lemma list_less_order: "list_less (<) xs ys \<longleftrightarrow> xs < ys" for xs ys :: "'a :: linorder list"
  by (induction "(<) :: 'a \<Rightarrow> 'a \<Rightarrow> bool" xs ys rule: list_less.induct) auto

text \<open>The overloads of \<open>insert\<close> for a copied and for a moved value; the second changes its argument.\<close>

definition vec_insert_copy :: "(usize \<Rightarrow> bool) \<Rightarrow> 'a elem_type \<Rightarrow> usize \<Rightarrow> usize \<Rightarrow> 'a arg \<Rightarrow> 'a vector \<Rightarrow>
    ((exn + usize) \<times> 'a vector) option" where
  "vec_insert_copy nw ty sz pos v vec = vec_insert nw ty sz pos v vec"

definition vec_insert_move :: "(usize \<Rightarrow> bool) \<Rightarrow> 'a elem_type \<Rightarrow> usize \<Rightarrow> usize \<Rightarrow> 'a \<Rightarrow> 'a vector \<Rightarrow>
    ((exn + usize) \<times> 'a \<times> 'a vector) option" where
  "vec_insert_move nw ty sz pos v vec =
     map_option (\<lambda>(r, vec'). (r, case r of Inl _ \<Rightarrow> v | Inr _ \<Rightarrow> moved_from ty v, vec')) (vec_insert nw ty sz pos (Value v) vec)"

section \<open>Properties\<close>

text \<open>
  C39. A loop from \<open>begin()\<close> to \<open>end()\<close> of a vector visits its elements in order, one from
  \<open>rbegin()\<close> to \<open>rend()\<close> in reverse order; and over a totally ordered element type the six
  comparison operators are those of the lexicographic order of the sequences, with \<open>==\<close>
  exactly for equal sequences (for trivially copyable elements, when equal values have equal
  bytes).
\<close>

theorem vector_order_and_traversal:
  fixes v w :: "'a :: linorder vector"
  assumes "vec_inv ty sz v" "vec_inv ty sz w"
  shows "range_walk (vec_inc v) (vec_deref v) (=) (vec_begin v) (vec_end v) = Some (vec_list v) \<and>
    range_walk (rev_inc (vec_dec v)) (rev_deref (vec_dec v) (vec_deref v)) (rev_same (=)) (vec_rbegin v) (vec_rend v) =
      Some (rev (vec_list v)) \<and>
    vec_eq ty (=) (=) v w = Some (vec_list v = vec_list w) \<and>
    vec_neq ty (=) (=) v w = Some (vec_list v \<noteq> vec_list w) \<and>
    vec_less (<) v w = Some (vec_list v < vec_list w) \<and>
    vec_less_eq (<) v w = Some (vec_list v \<le> vec_list w) \<and>
    vec_greater (<) v w = Some (vec_list v > vec_list w) \<and>
    vec_greater_eq (<) v w = Some (vec_list v \<ge> vec_list w)"
proof -
  have r: "vec_rep ty sz (vec_list v) v" "vec_rep ty sz (vec_list w) w" using assms by (simp_all add: vec_inv_def)
  show ?thesis
    using vec_range.walk [OF assms(1)] vec_range.reverse_walk [OF assms(1)] vec_end_list [OF assms(1)]
      vec_eq_rep [OF r] vec_less_rep [OF r] vec_less_rep [OF r(2,1)]
    by (auto simp: vec_rbegin_def vec_rend_def vec_neq_def vec_greater_def vec_greater_eq_def list_less_order list_all2_eq
        not_less)
qed

theorem vector_order_and_traversal_witness:
  "\<exists>v w :: int vector. vec_inv \<lparr>is_trivial = False, residue = id\<rparr> 4 v \<and> vec_list v = [4, 5] \<and> vec_list w = [] \<and>
     range_walk (rev_inc (vec_dec v)) (rev_deref (vec_dec v) (vec_deref v)) (rev_same (=)) (vec_rbegin v) (vec_rend v) =
       Some [5, 4] \<and> vec_greater (<) v w = Some True"
proof -
  let ?ty = "\<lparr>is_trivial = False, residue = id\<rparr> :: int elem_type"
  have n: "vec_inv ?ty 4 vec_new" by (rule vec_rep_inv [OF vec_rep_new]) (simp add: sizeof_ok_def)
  let ?v = "\<lparr>vec_data = [Some 4, Some 5], vec_size = 2, vec_cap = 2\<rparr> :: int vector"
  have "vec_rep ?ty 4 [4, 5] ?v" by (auto simp: vec_rep_def lin_rep_def sizeof_ok_def less_Suc_eq nth_Cons')
  note v = vec_rep_inv [OF this] vec_rep_list [OF this]
  have w: "vec_list (vec_new :: int vector) = []" by (simp add: vec_list_def vec_new_def)
  from vector_order_and_traversal [OF v(1) n] v w show ?thesis
    by (intro exI [of _ ?v] exI [of _ "vec_new :: int vector"]) simp
qed

end
