(* ===== verification/Deque.thy ===== *)
theory Deque
  imports HeapBuffers
begin

text \<open>
  \<open>hpc::core::deque<T>\<close> (\<open>include/hpc/core/deque.hpp\<close>): a double-ended queue in chunks of
  \<open>ce\<close> elements (\<open>chunk_elems\<close>) on the heap, found through an array of chunk pointers (the
  map). The element type is \<open>ty\<close>.

  Memory. A chunk pointer is an address, \<open>None\<close> the null pointer; \<open>de_heap\<close> is the part of
  the heap that the deque owns, chunk by chunk. A pointer into the map is an index. The
  pointers \<open>first_\<close> and \<open>last_\<close> of an iterator are always set together, to the two ends
  of one chunk, and \<open>cur_\<close> points into that chunk: the model keeps \<open>first_\<close> and the offset
  of \<open>cur_\<close> from it.

  The outcome of the allocations of an operation is the parameter \<open>mem\<close>: whether an array for
  the map is returned, and which address is returned for a chunk, given the addresses in use.
  All that is relied on is \<open>fresh_mem\<close>, that a returned chunk is not one in use, and that objects
  lie below the address \<open>2^63\<close>. The number that stands for the address of a chunk is the address
  divided by the size of a chunk, which is different for different chunks.

  Sizes are natural numbers; where the code's arithmetic on them wraps around, \<open>size_wrap\<close> and
  \<open>size_minus\<close> say so.
\<close>

section \<open>Chunks\<close>

type_synonym chunk_ptr = "nat option"
type_synonym 'a chunk_heap = "nat \<Rightarrow> 'a slots option"
type_synonym mem = "bool \<times> (nat set \<Rightarrow> nat option)"

definition fresh_mem :: "mem \<Rightarrow> bool" where
  "fresh_mem mem \<longleftrightarrow> (\<forall>used c. snd mem used = Some c \<longrightarrow> c \<notin> used)"

text \<open>
  An array for the map: the number of bytes asked for wraps around. \<open>None\<close> stands for entries
  that are not yet set.
\<close>

definition alloc_map :: "mem \<Rightarrow> nat \<Rightarrow> exn + chunk_ptr list" where
  "alloc_map mem n = (if fst mem then Inr (replicate (size_wrap (n * 8) div 8) None) else Inl Bad_alloc)"

text \<open>
  Chunks have \<open>chunk_elems * sizeof(T)\<close> bytes, which is more than 256: the chunk of number \<open>c\<close>
  lies below the address \<open>2^63\<close> only if there are at most \<open>2^55\<close> such numbers and \<open>2^63\<close>
  elements up to its end. An allocation that does not fit fails.
\<close>

definition chunk_fits :: "nat \<Rightarrow> nat \<Rightarrow> bool" where
  "chunk_fits ce c \<longleftrightarrow> c < 2 ^ 55 \<and> Suc c * ce \<le> 2 ^ 63"

definition alloc_chunk :: "mem \<Rightarrow> nat \<Rightarrow> 'a chunk_heap \<Rightarrow> exn + nat \<times> 'a chunk_heap" where
  "alloc_chunk mem ce h =
     (case snd mem (dom h) of
        None \<Rightarrow> Inl Bad_alloc
      | Some c \<Rightarrow> if chunk_fits ce c then Inr (c, h(c \<mapsto> replicate ce None)) else Inl Bad_alloc)"

lemma alloc_chunkE:
  assumes "fresh_mem mem"
  obtains "alloc_chunk mem ce h = Inl Bad_alloc"
    | c where "alloc_chunk mem ce h = Inr (c, h(c \<mapsto> replicate ce None))" "c \<notin> dom h" "chunk_fits ce c"
proof (cases "snd mem (dom h)")
  case None
  then show ?thesis using that(1) by (simp add: alloc_chunk_def)
next
  case (Some c)
  then have "c \<notin> dom h" using assms by (auto simp: fresh_mem_def)
  then show ?thesis using Some that by (cases "chunk_fits ce c") (simp_all add: alloc_chunk_def)
qed

definition free_chunk :: "'a elem_type \<Rightarrow> chunk_ptr \<Rightarrow> 'a chunk_heap \<Rightarrow> 'a chunk_heap option" where
  "free_chunk ty p h =
     (case p of
        None \<Rightarrow> Some h
      | Some c \<Rightarrow> do { m \<leftarrow> h c; _ \<leftarrow> free_slots ty m; Some (h(c := None)) })"

text \<open>Construction, destruction and reading of the object at an offset of a chunk.\<close>

definition chunk_construct :: "'a elem_type \<Rightarrow> chunk_ptr \<Rightarrow> nat \<Rightarrow> 'a \<Rightarrow> 'a chunk_heap \<Rightarrow> 'a chunk_heap option" where
  "chunk_construct ty p i x h = do { c \<leftarrow> p; m \<leftarrow> h c; m' \<leftarrow> slot_construct ty i x m; Some (h(c \<mapsto> m')) }"

definition chunk_destroy :: "'a elem_type \<Rightarrow> chunk_ptr \<Rightarrow> nat \<Rightarrow> 'a chunk_heap \<Rightarrow> 'a chunk_heap option" where
  "chunk_destroy ty p i h =
     (if is_trivial ty then Some h
      else do { c \<leftarrow> p; m \<leftarrow> h c; m' \<leftarrow> slot_destroy ty i m; Some (h(c \<mapsto> m')) })"

definition chunk_read :: "chunk_ptr \<Rightarrow> nat \<Rightarrow> 'a chunk_heap \<Rightarrow> 'a option" where
  "chunk_read p i h = do { c \<leftarrow> p; m \<leftarrow> h c; slot_read i m }"

definition destroy_range :: "'a elem_type \<Rightarrow> chunk_ptr \<Rightarrow> nat \<Rightarrow> nat \<Rightarrow> 'a chunk_heap \<Rightarrow> 'a chunk_heap option" where
  "destroy_range ty p i j h =
     (if is_trivial ty then Some h
      else if i \<le> j then run_each (chunk_destroy ty p) [i..<j] h
      else None)"

section \<open>Iterators\<close>

record iter =
  it_cur :: nat
  it_first :: chunk_ptr
  it_node :: nat

definition null_iter :: iter where
  "null_iter = \<lparr>it_cur = 0, it_first = None, it_node = 0\<rparr>"

text \<open>The chunk pointer at a place of the map.\<close>

definition map_entry :: "chunk_ptr list \<Rightarrow> nat \<Rightarrow> chunk_ptr option" where
  "map_entry mp n = (if n < length mp then Some (mp ! n) else None)"

text \<open>\<open>set_node\<close> reads the chunk pointer from the map; \<open>cur_\<close> is left alone.\<close>

definition set_node :: "chunk_ptr list \<Rightarrow> nat \<Rightarrow> iter \<Rightarrow> iter option" where
  "set_node mp n it = map_option (\<lambda>p. it\<lparr>it_node := n, it_first := p\<rparr>) (map_entry mp n)"

definition iter_deref :: "'a chunk_heap \<Rightarrow> iter \<Rightarrow> 'a option" where
  "iter_deref h it = chunk_read (it_first it) (it_cur it) h"

definition iter_inc :: "nat \<Rightarrow> chunk_ptr list \<Rightarrow> iter \<Rightarrow> iter option" where
  "iter_inc ce mp it =
     (if it_cur it + 1 = ce then map_option (it_cur_update (\<lambda>_. 0)) (set_node mp (it_node it + 1) it)
      else Some (it\<lparr>it_cur := it_cur it + 1\<rparr>))"

definition iter_dec :: "nat \<Rightarrow> chunk_ptr list \<Rightarrow> iter \<Rightarrow> iter option" where
  "iter_dec ce mp it =
     (if it_cur it = 0 then
        if it_node it = 0 then None
        else map_option (it_cur_update (\<lambda>_. ce - 1)) (set_node mp (it_node it - 1) it)
      else Some (it\<lparr>it_cur := it_cur it - 1\<rparr>))"

definition iter_add :: "nat \<Rightarrow> chunk_ptr list \<Rightarrow> int \<Rightarrow> iter \<Rightarrow> iter option" where
  "iter_add ce mp n it =
     (let off = n + int (it_cur it) in
      if 0 \<le> off \<and> off < int ce then Some (it\<lparr>it_cur := nat off\<rparr>)
      else
        let node_off = (if 0 < off then off div int ce else - ((- off - 1) div int ce) - 1);
            node = int (it_node it) + node_off in
        if node < 0 then None
        else map_option (it_cur_update (\<lambda>_. nat (off - node_off * int ce))) (set_node mp (nat node) it))"

definition iter_diff :: "nat \<Rightarrow> iter \<Rightarrow> iter \<Rightarrow> int" where
  "iter_diff ce a b =
     int ce * (int (it_node a) - int (it_node b) - 1) + int (it_cur a) + (int ce - int (it_cur b))"

definition iter_eq :: "iter \<Rightarrow> iter \<Rightarrow> bool" where
  "iter_eq a b \<longleftrightarrow> it_first a = it_first b \<and> it_cur a = it_cur b"

definition iter_less :: "iter \<Rightarrow> iter \<Rightarrow> bool" where
  "iter_less a b \<longleftrightarrow> (if it_node a = it_node b then it_cur a < it_cur b else it_node a < it_node b)"

section \<open>State\<close>

record 'a deque =
  de_map :: "chunk_ptr list option"
  de_map_size :: nat
  de_start :: iter
  de_finish :: iter
  de_heap :: "'a chunk_heap"

definition de_moved_from :: "'a deque" where
  "de_moved_from = \<lparr>de_map = None, de_map_size = 0, de_start = null_iter, de_finish = null_iter, de_heap = Map.empty\<rparr>"

definition de_empty :: "'a deque \<Rightarrow> bool" where
  "de_empty d \<longleftrightarrow> iter_eq (de_start d) (de_finish d)"

definition de_size :: "nat \<Rightarrow> 'a deque \<Rightarrow> nat" where
  "de_size ce d = (if de_map d = None then 0 else nat (iter_diff ce (de_finish d) (de_start d)))"

definition de_index :: "nat \<Rightarrow> 'a deque \<Rightarrow> nat \<Rightarrow> 'a option" where
  "de_index ce d i = do { mp \<leftarrow> de_map d; it \<leftarrow> iter_add ce mp (int i) (de_start d); iter_deref (de_heap d) it }"

definition de_at :: "nat \<Rightarrow> 'a deque \<Rightarrow> usize \<Rightarrow> (exn + 'a) option" where
  "de_at ce d i =
     (if de_size ce d \<le> unat i then Some (Inl Out_of_range) else map_option Inr (de_index ce d (unat i)))"

definition de_front :: "'a deque \<Rightarrow> 'a option" where
  "de_front d = iter_deref (de_heap d) (de_start d)"

definition de_back :: "nat \<Rightarrow> 'a deque \<Rightarrow> 'a option" where
  "de_back ce d = do { mp \<leftarrow> de_map d; t \<leftarrow> iter_dec ce mp (de_finish d); iter_deref (de_heap d) t }"

section \<open>Map management\<close>

text \<open>\<open>std::copy\<close> and \<open>std::copy_backward\<close> of \<open>n\<close> chunk pointers within the map.\<close>

definition copy_pointer :: "nat \<Rightarrow> nat \<Rightarrow> nat \<Rightarrow> chunk_ptr list \<Rightarrow> chunk_ptr list option" where
  "copy_pointer dst src k mp =
     (if dst + k < length mp \<and> src + k < length mp then Some (mp[dst + k := mp ! (src + k)]) else None)"

definition copy_forward :: "nat \<Rightarrow> nat \<Rightarrow> nat \<Rightarrow> chunk_ptr list \<Rightarrow> chunk_ptr list option" where
  "copy_forward dst src n = run_each (copy_pointer dst src) [0..<n]"

definition copy_backward :: "nat \<Rightarrow> nat \<Rightarrow> nat \<Rightarrow> chunk_ptr list \<Rightarrow> chunk_ptr list option" where
  "copy_backward dst src n = run_each (copy_pointer dst src) (rev [0..<n])"

text \<open>\<open>std::copy\<close> from the old map into a new one, whose other entries are indeterminate.\<close>

definition copy_to_new :: "nat \<Rightarrow> chunk_ptr list \<Rightarrow> nat \<Rightarrow> nat \<Rightarrow> chunk_ptr list \<Rightarrow> chunk_ptr list option" where
  "copy_to_new dst old src n =
     run_each (\<lambda>k new. if dst + k < length new \<and> src + k < length old
                       then Some (new[dst + k := old ! (src + k)]) else None) [0..<n]"

text \<open>\<open>start_.set_node(new_nstart); finish_.set_node(new_nstart + old_num - 1)\<close> on the map \<open>mp\<close>.\<close>

definition de_relink :: "chunk_ptr list \<Rightarrow> nat \<Rightarrow> nat \<Rightarrow> nat \<Rightarrow> 'a deque \<Rightarrow> ((exn + unit) \<times> 'a deque) option" where
  "de_relink mp n nstart old_num d = do {
     st \<leftarrow> set_node mp nstart (de_start d);
     fi \<leftarrow> set_node mp (nstart + old_num - 1) (de_finish d);
     Some (Inr (), d\<lparr>de_map := Some mp, de_map_size := n, de_start := st, de_finish := fi\<rparr>)
   }"

definition de_reallocate_map :: "mem \<Rightarrow> nat \<Rightarrow> bool \<Rightarrow> 'a deque \<Rightarrow> ((exn + unit) \<times> 'a deque) option" where
  "de_reallocate_map mem nodes_to_add add_at_front d = do {
     mp \<leftarrow> de_map d;
     let snode = it_node (de_start d);
     let old_num = it_node (de_finish d) - snode + 1;
     let new_num = size_wrap (old_num + nodes_to_add);
     if size_wrap (2 * new_num) < de_map_size d then do {
       let nstart = size_minus (de_map_size d) new_num div 2 + (if add_at_front then nodes_to_add else 0);
       mp' \<leftarrow> (if nstart < snode then copy_forward nstart snode old_num mp
               else copy_backward nstart snode old_num mp);
       de_relink mp' (de_map_size d) nstart old_num d
     } else do {
       let new_size = size_wrap (de_map_size d + max (de_map_size d) nodes_to_add + 2);
       case alloc_map mem new_size of
         Inl e \<Rightarrow> Some (Inl e, d)
       | Inr new_map \<Rightarrow> do {
           let nstart = size_minus new_size new_num div 2 + (if add_at_front then nodes_to_add else 0);
           mp' \<leftarrow> copy_to_new nstart mp snode old_num new_map;
           de_relink mp' new_size nstart old_num d
         }
     }
   }"

definition de_reserve_map_at_back :: "mem \<Rightarrow> 'a deque \<Rightarrow> ((exn + unit) \<times> 'a deque) option" where
  "de_reserve_map_at_back mem d =
     (if de_map_size d - it_node (de_finish d) < 1 + 1 then de_reallocate_map mem 1 False d
      else Some (Inr (), d))"

definition de_reserve_map_at_front :: "mem \<Rightarrow> 'a deque \<Rightarrow> ((exn + unit) \<times> 'a deque) option" where
  "de_reserve_map_at_front mem d =
     (if it_node (de_start d) < 1 then de_reallocate_map mem 1 True d else Some (Inr (), d))"

text \<open>\<open>*(map_ + n) = alloc_chunk()\<close>\<close>

definition de_new_chunk_at :: "mem \<Rightarrow> nat \<Rightarrow> nat \<Rightarrow> 'a deque \<Rightarrow> ((exn + unit) \<times> 'a deque) option" where
  "de_new_chunk_at mem ce n d =
     (case alloc_chunk mem ce (de_heap d) of
        Inl e \<Rightarrow> Some (Inl e, d)
      | Inr (c, h) \<Rightarrow> do {
          mp \<leftarrow> de_map d;
          if n < length mp then Some (Inr (), d\<lparr>de_map := Some (mp[n := Some c]), de_heap := h\<rparr>) else None
        })"

section \<open>Insertion and removal at both ends\<close>

definition de_push_back_aux :: "mem \<Rightarrow> 'a elem_type \<Rightarrow> nat \<Rightarrow> 'a \<Rightarrow> 'a deque \<Rightarrow> ((exn + unit) \<times> 'a deque) option" where
  "de_push_back_aux mem ty ce x d = do {
     (r1, d1) \<leftarrow> de_reserve_map_at_back mem d;
     (case r1 of
        Inl e \<Rightarrow> Some (Inl e, d1)
      | Inr _ \<Rightarrow> do {
          (r2, d2) \<leftarrow> de_new_chunk_at mem ce (it_node (de_finish d1) + 1) d1;
          (case r2 of
             Inl e \<Rightarrow> Some (Inl e, d2)
           | Inr _ \<Rightarrow> do {
               h \<leftarrow> chunk_construct ty (it_first (de_finish d2)) (it_cur (de_finish d2)) x (de_heap d2);
               mp \<leftarrow> de_map d2;
               fi \<leftarrow> set_node mp (it_node (de_finish d2) + 1) (de_finish d2);
               Some (Inr (), d2\<lparr>de_heap := h, de_finish := fi\<lparr>it_cur := 0\<rparr>\<rparr>)
             })
        })
   }"

definition de_push_front_aux :: "mem \<Rightarrow> 'a elem_type \<Rightarrow> nat \<Rightarrow> 'a \<Rightarrow> 'a deque \<Rightarrow> ((exn + unit) \<times> 'a deque) option" where
  "de_push_front_aux mem ty ce x d = do {
     (r1, d1) \<leftarrow> de_reserve_map_at_front mem d;
     (case r1 of
        Inl e \<Rightarrow> Some (Inl e, d1)
      | Inr _ \<Rightarrow>
          if it_node (de_start d1) = 0 then None
          else do {
            (r2, d2) \<leftarrow> de_new_chunk_at mem ce (it_node (de_start d1) - 1) d1;
            (case r2 of
               Inl e \<Rightarrow> Some (Inl e, d2)
             | Inr _ \<Rightarrow> do {
                 mp \<leftarrow> de_map d2;
                 st \<leftarrow> set_node mp (it_node (de_start d2) - 1) (de_start d2);
                 h \<leftarrow> chunk_construct ty (it_first st) (ce - 1) x (de_heap d2);
                 Some (Inr (), d2\<lparr>de_heap := h, de_start := st\<lparr>it_cur := ce - 1\<rparr>\<rparr>)
               })
          })
   }"

definition de_push_back :: "mem \<Rightarrow> 'a elem_type \<Rightarrow> nat \<Rightarrow> 'a \<Rightarrow> 'a deque \<Rightarrow> ((exn + unit) \<times> 'a deque) option" where
  "de_push_back mem ty ce x d =
     (let fi = de_finish d in
      if it_cur fi \<noteq> ce - 1 then do {
        h \<leftarrow> chunk_construct ty (it_first fi) (it_cur fi) x (de_heap d);
        Some (Inr (), d\<lparr>de_heap := h, de_finish := fi\<lparr>it_cur := it_cur fi + 1\<rparr>\<rparr>)
      } else de_push_back_aux mem ty ce x d)"

definition de_push_front :: "mem \<Rightarrow> 'a elem_type \<Rightarrow> nat \<Rightarrow> 'a \<Rightarrow> 'a deque \<Rightarrow> ((exn + unit) \<times> 'a deque) option" where
  "de_push_front mem ty ce x d =
     (let st = de_start d in
      if it_cur st \<noteq> 0 then do {
        h \<leftarrow> chunk_construct ty (it_first st) (it_cur st - 1) x (de_heap d);
        Some (Inr (), d\<lparr>de_heap := h, de_start := st\<lparr>it_cur := it_cur st - 1\<rparr>\<rparr>)
      } else de_push_front_aux mem ty ce x d)"

definition de_pop_back_aux :: "'a elem_type \<Rightarrow> nat \<Rightarrow> 'a deque \<Rightarrow> 'a deque option" where
  "de_pop_back_aux ty ce d = do {
     mp \<leftarrow> de_map d;
     p \<leftarrow> map_entry mp (it_node (de_finish d));
     h1 \<leftarrow> free_chunk ty p (de_heap d);
     fi \<leftarrow> (if it_node (de_finish d) = 0 then None else set_node mp (it_node (de_finish d) - 1) (de_finish d));
     h2 \<leftarrow> chunk_destroy ty (it_first fi) (ce - 1) h1;
     Some (d\<lparr>de_heap := h2, de_finish := fi\<lparr>it_cur := ce - 1\<rparr>\<rparr>)
   }"

definition de_pop_front_aux :: "'a elem_type \<Rightarrow> 'a deque \<Rightarrow> 'a deque option" where
  "de_pop_front_aux ty d = do {
     mp \<leftarrow> de_map d;
     h1 \<leftarrow> chunk_destroy ty (it_first (de_start d)) (it_cur (de_start d)) (de_heap d);
     p \<leftarrow> map_entry mp (it_node (de_start d));
     h2 \<leftarrow> free_chunk ty p h1;
     st \<leftarrow> set_node mp (it_node (de_start d) + 1) (de_start d);
     Some (d\<lparr>de_heap := h2, de_start := st\<lparr>it_cur := 0\<rparr>\<rparr>)
   }"

definition de_pop_back :: "'a elem_type \<Rightarrow> nat \<Rightarrow> 'a deque \<Rightarrow> 'a deque option" where
  "de_pop_back ty ce d =
     (let fi = de_finish d in
      if it_cur fi \<noteq> 0 then do {
        h \<leftarrow> chunk_destroy ty (it_first fi) (it_cur fi - 1) (de_heap d);
        Some (d\<lparr>de_heap := h, de_finish := fi\<lparr>it_cur := it_cur fi - 1\<rparr>\<rparr>)
      } else de_pop_back_aux ty ce d)"

definition de_pop_front :: "'a elem_type \<Rightarrow> nat \<Rightarrow> 'a deque \<Rightarrow> 'a deque option" where
  "de_pop_front ty ce d =
     (let st = de_start d in
      if it_cur st \<noteq> ce - 1 then do {
        h \<leftarrow> chunk_destroy ty (it_first st) (it_cur st) (de_heap d);
        Some (d\<lparr>de_heap := h, de_start := st\<lparr>it_cur := it_cur st + 1\<rparr>\<rparr>)
      } else de_pop_front_aux ty d)"

text \<open>
  The overloads for rvalues change their argument, returned second; \<open>emplace\<close> returns the
  address of the new element.
\<close>

definition de_push_back_move :: "mem \<Rightarrow> 'a elem_type \<Rightarrow> nat \<Rightarrow> 'a \<Rightarrow> 'a deque \<Rightarrow>
    ((exn + unit) \<times> 'a \<times> 'a deque) option" where
  "de_push_back_move mem ty ce x d =
     map_option (\<lambda>(r, d'). (r, case r of Inl _ \<Rightarrow> x | Inr _ \<Rightarrow> moved_from ty x, d')) (de_push_back mem ty ce x d)"

definition de_push_front_move :: "mem \<Rightarrow> 'a elem_type \<Rightarrow> nat \<Rightarrow> 'a \<Rightarrow> 'a deque \<Rightarrow>
    ((exn + unit) \<times> 'a \<times> 'a deque) option" where
  "de_push_front_move mem ty ce x d =
     map_option (\<lambda>(r, d'). (r, case r of Inl _ \<Rightarrow> x | Inr _ \<Rightarrow> moved_from ty x, d')) (de_push_front mem ty ce x d)"

definition de_emplace_back :: "mem \<Rightarrow> 'a elem_type \<Rightarrow> nat \<Rightarrow> ('b \<Rightarrow> 'a) \<Rightarrow> 'b \<Rightarrow> 'a deque \<Rightarrow>
    ((exn + chunk_ptr \<times> nat) \<times> 'a deque) option" where
  "de_emplace_back mem ty ce mk args d =
     map_option (map_prod (map_sum id (\<lambda>_. (it_first (de_finish d), it_cur (de_finish d)))) id)
       (de_push_back mem ty ce (mk args) d)"

definition de_emplace_front :: "mem \<Rightarrow> 'a elem_type \<Rightarrow> nat \<Rightarrow> ('b \<Rightarrow> 'a) \<Rightarrow> 'b \<Rightarrow> 'a deque \<Rightarrow>
    ((exn + chunk_ptr \<times> nat) \<times> 'a deque) option" where
  "de_emplace_front mem ty ce mk args d =
     map_option (\<lambda>(r, d'). (map_sum id (\<lambda>_. (it_first (de_start d'), it_cur (de_start d'))) r, d'))
       (de_push_front mem ty ce (mk args) d)"

section \<open>Clearing and tearing down\<close>

definition de_clear :: "'a elem_type \<Rightarrow> nat \<Rightarrow> 'a deque \<Rightarrow> 'a deque option" where
  "de_clear ty ce d =
     (case de_map d of
        None \<Rightarrow> Some d
      | Some mp \<Rightarrow> do {
          let st = de_start d;
          let fi = de_finish d;
          h1 \<leftarrow> run_each (\<lambda>n h. do {
                  p \<leftarrow> map_entry mp n;
                  h' \<leftarrow> destroy_range ty p 0 ce h;
                  free_chunk ty p h'
                }) [it_node st + 1..<it_node fi] (de_heap d);
          h2 \<leftarrow> (if it_node st \<noteq> it_node fi then do {
                   h' \<leftarrow> destroy_range ty (it_first st) (it_cur st) ce h1;
                   h'' \<leftarrow> destroy_range ty (it_first fi) 0 (it_cur fi) h';
                   p \<leftarrow> map_entry mp (it_node fi);
                   free_chunk ty p h''
                 } else destroy_range ty (it_first st) (it_cur st) (it_cur fi) h1);
          fi' \<leftarrow> set_node mp (it_node st) fi;
          Some (d\<lparr>de_heap := h2, de_start := st\<lparr>it_cur := 0\<rparr>, de_finish := fi'\<lparr>it_cur := 0\<rparr>\<rparr>)
        })"

definition de_teardown :: "'a elem_type \<Rightarrow> nat \<Rightarrow> 'a deque \<Rightarrow> 'a deque option" where
  "de_teardown ty ce d =
     (case de_map d of
        None \<Rightarrow> Some d
      | Some mp \<Rightarrow> do {
          let st = de_start d;
          let fi = de_finish d;
          h1 \<leftarrow> run_each (\<lambda>n h. do {
                  p \<leftarrow> map_entry mp n;
                  destroy_range ty p (if n = it_node st then it_cur st else 0) ce h
                }) [it_node st..<it_node fi] (de_heap d);
          h2 \<leftarrow> (if it_node st = it_node fi then destroy_range ty (it_first st) (it_cur st) (it_cur fi) h1
                 else destroy_range ty (it_first fi) 0 (it_cur fi) h1);
          h3 \<leftarrow> run_each (\<lambda>n h. Option.bind (map_entry mp n) (\<lambda>p. free_chunk ty p h))
                  [it_node st..<it_node fi + 1] h2;
          Some (d\<lparr>de_heap := h3, de_map := None\<rparr>)
        })"

section \<open>Construction\<close>

fun de_alloc_nodes :: "mem \<Rightarrow> nat \<Rightarrow> nat list \<Rightarrow> chunk_ptr list \<times> 'a chunk_heap \<Rightarrow>
    ((exn + unit) \<times> chunk_ptr list \<times> 'a chunk_heap) option" where
  "de_alloc_nodes mem ce [] s = Some (Inr (), s)"
| "de_alloc_nodes mem ce (n # ns) (mp, h) =
     (case alloc_chunk mem ce h of
        Inl e \<Rightarrow> Some (Inl e, mp, h)
      | Inr (c, h') \<Rightarrow> if n < length mp then de_alloc_nodes mem ce ns (mp[n := Some c], h') else None)"

text \<open>
  After an exception the second component is the deque that the constructor abandons.
  \<open>std::fill\<close> writes \<open>map_size_\<close> entries, whatever the size of the array is.
\<close>

definition de_init_map :: "mem \<Rightarrow> nat \<Rightarrow> usize \<Rightarrow> ((exn + unit) \<times> 'a deque) option" where
  "de_init_map mem ce num_elements =
     (let num_nodes = size_wrap (unat num_elements div ce + 1);
          map_size = max 8 (size_wrap (num_nodes + 2)) in
      case alloc_map mem map_size of
        Inl e \<Rightarrow> Some (Inl e, de_moved_from\<lparr>de_map_size := map_size\<rparr>)
      | Inr new_map \<Rightarrow>
        if length new_map < map_size then None
        else let nstart = size_minus map_size num_nodes div 2; nfinish = nstart + num_nodes in do {
          (r, mp, h) \<leftarrow> de_alloc_nodes mem ce [nstart..<nfinish] (new_map, Map.empty);
          let d = \<lparr>de_map = Some mp, de_map_size = map_size, de_start = null_iter, de_finish = null_iter, de_heap = h\<rparr>;
          case r of
             Inl e \<Rightarrow> Some (Inl e, d)
           | Inr _ \<Rightarrow> do {
               st \<leftarrow> set_node mp nstart null_iter;
               fi \<leftarrow> set_node mp (nfinish - 1) null_iter;
               Some (Inr (), d\<lparr>de_start := st\<lparr>it_cur := 0\<rparr>, de_finish := fi\<lparr>it_cur := unat num_elements mod ce\<rparr>\<rparr>)
             }
        })"

definition de_value_fill :: "'a elem_type \<Rightarrow> nat \<Rightarrow> 'a \<Rightarrow> 'a deque \<Rightarrow> 'a deque option" where
  "de_value_fill ty ce x d = do {
     mp \<leftarrow> de_map d;
     h1 \<leftarrow> run_each (\<lambda>n h. do {
             p \<leftarrow> map_entry mp n;
             run_each (\<lambda>i. chunk_construct ty p i x) [0..<ce] h
           }) [it_node (de_start d)..<it_node (de_finish d)] (de_heap d);
     h2 \<leftarrow> run_each (\<lambda>i. chunk_construct ty (it_first (de_finish d)) i x) [0..<it_cur (de_finish d)] h1;
     Some (d\<lparr>de_heap := h2\<rparr>)
   }"

definition de_filled :: "mem \<Rightarrow> 'a elem_type \<Rightarrow> nat \<Rightarrow> usize \<Rightarrow> 'a \<Rightarrow> ((exn + unit) \<times> 'a deque) option" where
  "de_filled mem ty ce count x = do {
     (r, d) \<leftarrow> de_init_map mem ce count;
     (case r of Inl e \<Rightarrow> Some (Inl e, d) | Inr _ \<Rightarrow> map_option (Pair (Inr ())) (de_value_fill ty ce x d))
   }"

definition de_construct_list :: "'a elem_type \<Rightarrow> nat \<Rightarrow> chunk_ptr list \<Rightarrow> 'a list \<Rightarrow> iter \<times> 'a chunk_heap \<Rightarrow>
    (iter \<times> 'a chunk_heap) option" where
  "de_construct_list ty ce mp =
     run_each (\<lambda>v (dst, h). do {
       h' \<leftarrow> chunk_construct ty (it_first dst) (it_cur dst) v h;
       dst' \<leftarrow> iter_inc ce mp dst;
       Some (dst', h')
     })"

definition de_from_list :: "mem \<Rightarrow> 'a elem_type \<Rightarrow> nat \<Rightarrow> 'a list \<Rightarrow> ((exn + unit) \<times> 'a deque) option" where
  "de_from_list mem ty ce il = do {
     (r, d) \<leftarrow> de_init_map mem ce (of_nat (length il));
     (case r of
        Inl e \<Rightarrow> Some (Inl e, d)
      | Inr _ \<Rightarrow> do {
          mp \<leftarrow> de_map d;
          (_, h) \<leftarrow> de_construct_list ty ce mp il (de_start d, de_heap d);
          Some (Inr (), d\<lparr>de_heap := h\<rparr>)
        })
   }"

fun de_push_all :: "mem \<Rightarrow> 'a elem_type \<Rightarrow> nat \<Rightarrow> 'a list \<Rightarrow> 'a deque \<Rightarrow> ((exn + unit) \<times> 'a deque) option" where
  "de_push_all mem ty ce [] d = Some (Inr (), d)"
| "de_push_all mem ty ce (x # xs) d = do {
     (r, d') \<leftarrow> de_push_back mem ty ce x d;
     (case r of Inl e \<Rightarrow> Some (Inl e, d') | Inr _ \<Rightarrow> de_push_all mem ty ce xs d')
   }"

definition de_new :: "mem \<Rightarrow> nat \<Rightarrow> ((exn + unit) \<times> 'a deque) option" where
  "de_new mem ce = de_init_map mem ce 0"

definition de_from_range :: "mem \<Rightarrow> 'a elem_type \<Rightarrow> nat \<Rightarrow> 'a list \<Rightarrow> ((exn + unit) \<times> 'a deque) option" where
  "de_from_range mem ty ce xs = do {
     (r, d) \<leftarrow> de_init_map mem ce 0;
     (case r of Inl e \<Rightarrow> Some (Inl e, d) | Inr _ \<Rightarrow> de_push_all mem ty ce xs d)
   }"

definition de_copy_from :: "'a elem_type \<Rightarrow> nat \<Rightarrow> 'a deque \<Rightarrow> 'a deque \<Rightarrow> 'a deque option" where
  "de_copy_from ty ce rhs d = do {
     mp \<leftarrow> de_map d;
     (_, _, h) \<leftarrow> run_each (\<lambda>_ (src, dst, h). do {
         x \<leftarrow> iter_deref (de_heap rhs) src;
         h' \<leftarrow> chunk_construct ty (it_first dst) (it_cur dst) x h;
         smp \<leftarrow> de_map rhs;
         src' \<leftarrow> iter_inc ce smp src;
         dst' \<leftarrow> iter_inc ce mp dst;
         Some (src', dst', h')
       }) [0..<de_size ce rhs] (de_start rhs, de_start d, de_heap d);
     Some (d\<lparr>de_heap := h\<rparr>)
   }"

definition de_copy :: "mem \<Rightarrow> 'a elem_type \<Rightarrow> nat \<Rightarrow> 'a deque \<Rightarrow> ((exn + unit) \<times> 'a deque) option" where
  "de_copy mem ty ce rhs = do {
     (r, d) \<leftarrow> de_init_map mem ce (of_nat (de_size ce rhs));
     (case r of Inl e \<Rightarrow> Some (Inl e, d) | Inr _ \<Rightarrow> map_option (Pair (Inr ())) (de_copy_from ty ce rhs d))
   }"

definition de_move :: "'a deque \<Rightarrow> 'a deque \<times> 'a deque" where
  "de_move rhs = (rhs, de_moved_from)"

definition de_swap :: "'a deque \<Rightarrow> 'a deque \<Rightarrow> 'a deque \<times> 'a deque" where
  "de_swap d other = (other, d)"

definition de_replace_by :: "'a elem_type \<Rightarrow> nat \<Rightarrow> 'a deque \<Rightarrow> ((exn + unit) \<times> 'a deque) \<Rightarrow>
    ((exn + unit) \<times> 'a deque) option" where
  "de_replace_by ty ce d tmp =
     (case tmp of
        (Inl e, _) \<Rightarrow> Some (Inl e, d)
      | (Inr _, t) \<Rightarrow> do {
          let (d', t') = de_swap d t;
          _ \<leftarrow> de_teardown ty ce t';
          Some (Inr (), d')
        })"

fun de_assign :: "mem \<Rightarrow> 'a elem_type \<Rightarrow> nat \<Rightarrow> 'a deque \<Rightarrow> 'a deque operand \<Rightarrow>
    ((exn + unit) \<times> 'a deque) option" where
  "de_assign mem ty ce d Self = Some (Inr (), d)"
| "de_assign mem ty ce d (Other rhs) = Option.bind (de_copy mem ty ce rhs) (de_replace_by ty ce d)"

definition de_assign_list :: "mem \<Rightarrow> 'a elem_type \<Rightarrow> nat \<Rightarrow> 'a deque \<Rightarrow> 'a list \<Rightarrow>
    ((exn + unit) \<times> 'a deque) option" where
  "de_assign_list mem ty ce d il = Option.bind (de_from_list mem ty ce il) (de_replace_by ty ce d)"

fun de_assign_move :: "'a elem_type \<Rightarrow> nat \<Rightarrow> 'a deque \<Rightarrow> 'a deque operand \<Rightarrow> ('a deque \<times> 'a deque operand) option" where
  "de_assign_move ty ce d Self = Some (d, Self)"
| "de_assign_move ty ce d (Other rhs) = do {
     _ \<leftarrow> de_teardown ty ce d;
     Some (rhs, Other de_moved_from)
   }"

definition de_resize :: "mem \<Rightarrow> 'a elem_type \<Rightarrow> nat \<Rightarrow> nat \<Rightarrow> 'a \<Rightarrow> 'a deque \<Rightarrow>
    ((exn + unit) \<times> 'a deque) option" where
  "de_resize mem ty ce count x d =
     (let s = de_size ce d in
      if count < s then map_option (Pair (Inr ())) (run_each (\<lambda>_. de_pop_back ty ce) [count..<s] d)
      else de_push_all mem ty ce (replicate (count - s) x) d)"

partial_function (option) de_equal_from ::
  "('a \<Rightarrow> 'a \<Rightarrow> bool) \<Rightarrow> nat \<Rightarrow> 'a deque \<Rightarrow> 'a deque \<Rightarrow> iter \<Rightarrow> iter \<Rightarrow> bool option" where
  "de_equal_from eq ce a b ai bi =
     (if iter_eq ai (de_finish a) then Some True
      else do {
        x \<leftarrow> iter_deref (de_heap a) ai;
        y \<leftarrow> iter_deref (de_heap b) bi;
        if \<not> eq x y then Some False
        else do {
          amp \<leftarrow> de_map a;
          bmp \<leftarrow> de_map b;
          ai' \<leftarrow> iter_inc ce amp ai;
          bi' \<leftarrow> iter_inc ce bmp bi;
          de_equal_from eq ce a b ai' bi'
        }
      })"

declare de_equal_from.simps [code]

definition de_eq :: "('a \<Rightarrow> 'a \<Rightarrow> bool) \<Rightarrow> nat \<Rightarrow> 'a deque \<Rightarrow> 'a deque \<Rightarrow> bool option" where
  "de_eq eq ce a b =
     (if de_size ce a \<noteq> de_size ce b then Some False else de_equal_from eq ce a b (de_start a) (de_start b))"

definition de_neq :: "('a \<Rightarrow> 'a \<Rightarrow> bool) \<Rightarrow> nat \<Rightarrow> 'a deque \<Rightarrow> 'a deque \<Rightarrow> bool option" where
  "de_neq eq ce a b = map_option Not (de_eq eq ce a b)"

section \<open>Chunks that hold a sequence\<close>

text \<open>
  The chunks \<open>cs\<close>, laid end to end, hold the objects given by \<open>F\<close> on their positions, and
  the deque owns no other memory.
\<close>

definition chunk_part :: "nat \<Rightarrow> (nat \<Rightarrow> 'a option) \<Rightarrow> nat \<Rightarrow> nat \<Rightarrow> 'a option" where
  "chunk_part ce F j i = (if i < ce then F (j * ce + i) else None)"

definition chunks_hold :: "'a elem_type \<Rightarrow> nat \<Rightarrow> 'a chunk_heap \<Rightarrow> nat list \<Rightarrow> (nat \<Rightarrow> 'a option) \<Rightarrow> bool" where
  "chunks_hold ty ce h cs F \<longleftrightarrow> distinct cs \<and> dom h = set cs \<and> (\<forall>c \<in> set cs. chunk_fits ce c) \<and>
     (\<forall>j < length cs. \<exists>m. h (cs ! j) = Some m \<and> length m = ce \<and> slots_hold ty (chunk_part ce F j) m)"

definition window :: "nat \<Rightarrow> 'a list \<Rightarrow> nat \<Rightarrow> 'a option" where
  "window s xs p = (if s \<le> p then elem_at xs (p - s) else None)"

lemma chunks_holdD:
  assumes "chunks_hold ty ce h cs F"
  shows "distinct cs" "dom h = set cs"
    "j < length cs \<Longrightarrow> \<exists>m. h (cs ! j) = Some m \<and> length m = ce \<and> slots_hold ty (chunk_part ce F j) m"
    "c \<in> set cs \<Longrightarrow> chunk_fits ce c"
  using assms by (auto simp: chunks_hold_def)

text \<open>How many chunks and places there can be.\<close>

lemma chunks_bound:
  assumes "chunks_hold ty ce h cs F"
  shows "length cs \<le> 2 ^ 55" "length cs * ce \<le> 2 ^ 63"
proof -
  note H = chunks_holdD [OF assms]
  have card: "card (set cs) = length cs" using H(1) by (rule distinct_card)
  have "set cs \<subseteq> {..<2 ^ 55}" using H(4) by (auto simp: chunk_fits_def)
  then show "length cs \<le> 2 ^ 55" using card card_mono [of "{..<2 ^ 55 :: nat}" "set cs"] by simp
  show "length cs * ce \<le> 2 ^ 63"
  proof (cases "cs = []")
    case False
    then have m: "Max (set cs) \<in> set cs" by simp
    have "set cs \<subseteq> {..Max (set cs)}" by auto
    then have "length cs \<le> Suc (Max (set cs))" using card card_mono [of "{..Max (set cs)}" "set cs"] by simp
    then have "length cs * ce \<le> Suc (Max (set cs)) * ce" by (rule mult_le_mono1)
    also have "\<dots> \<le> 2 ^ 63" using H(4) [OF m] by (simp only: chunk_fits_def)
    finally show ?thesis .
  qed simp
qed

lemma chunks_cong: "chunks_hold ty ce h cs F \<Longrightarrow> (\<And>q. q < length cs * ce \<Longrightarrow> F q = G q) \<Longrightarrow> chunks_hold ty ce h cs G"
proof -
  assume h: "chunks_hold ty ce h cs F" and eq: "\<And>q. q < length cs * ce \<Longrightarrow> F q = G q"
  have "chunk_part ce F j = chunk_part ce G j" if "j < length cs" for j
  proof
    fix i
    have "j * ce + i < length cs * ce" if "i < ce"
    proof -
      have "j * ce + i < Suc j * ce" using that by simp
      also have "\<dots> \<le> length cs * ce" using \<open>j < length cs\<close> by (intro mult_le_mono1) simp
      finally show ?thesis .
    qed
    then show "chunk_part ce F j i = chunk_part ce G j i" using eq by (simp add: chunk_part_def)
  qed
  with h show ?thesis by (auto simp: chunks_hold_def)
qed

lemma chunks_weaken:
  assumes "chunks_hold ty ce h cs F" "is_trivial ty" "\<And>q. G q = None \<or> G q = F q"
  shows "chunks_hold ty ce h cs G"
proof -
  have "slots_hold ty (chunk_part ce G j) m" if "slots_hold ty (chunk_part ce F j) m" for j m
    using that assms(2,3) unfolding slots_hold_def chunk_part_def by metis
  with assms(1) show ?thesis unfolding chunks_hold_def by meson
qed

text \<open>One chunk is replaced.\<close>

lemma chunks_update:
  assumes h: "chunks_hold ty ce h cs F" and j: "j < length cs"
    and m: "length m = ce" "slots_hold ty (chunk_part ce G j) m"
    and eq: "\<And>i k. k \<noteq> j \<Longrightarrow> i < ce \<Longrightarrow> G (k * ce + i) = F (k * ce + i)"
  shows "chunks_hold ty ce (h(cs ! j \<mapsto> m)) cs G"
proof -
  have "\<exists>m'. (h(cs ! j \<mapsto> m)) (cs ! k) = Some m' \<and> length m' = ce \<and> slots_hold ty (chunk_part ce G k) m'"
    if k: "k < length cs" for k
  proof (cases "k = j")
    case True
    then show ?thesis using m by simp
  next
    case False
    then have "cs ! k \<noteq> cs ! j" using chunks_holdD(1) [OF h] j k by (simp add: nth_eq_iff_index_eq)
    moreover have "chunk_part ce G k = chunk_part ce F k" using eq [OF False] by (auto simp: chunk_part_def fun_eq_iff)
    ultimately show ?thesis using chunks_holdD(3) [OF h k] by simp
  qed
  moreover have "dom (h(cs ! j \<mapsto> m)) = set cs" using chunks_holdD(2) [OF h] j by auto
  ultimately show ?thesis using chunks_holdD(1,4) [OF h] by (auto simp: chunks_hold_def)
qed

lemma chunk_pos_eq: "i < ce \<Longrightarrow> i' < ce \<Longrightarrow> j * ce + i = j' * ce + i' \<longleftrightarrow> j = j' \<and> i = i'" for i :: nat
proof
  assume a: "i < ce" "i' < ce" "j * ce + i = j' * ce + i'"
  have "(j * ce + i) div ce = j" "(j' * ce + i') div ce = j'" using a(1,2) by simp_all
  with a show "j = j' \<and> i = i'" by auto
qed simp

lemma chunks_construct:
  assumes h: "chunks_hold ty ce h cs F" and j: "j < length cs" and i: "i < ce" "F (j * ce + i) = None"
  shows "\<exists>h'. chunk_construct ty (Some (cs ! j)) i x h = Some h' \<and> chunks_hold ty ce h' cs (F(j * ce + i := Some x))"
proof -
  obtain m where m: "h (cs ! j) = Some m" "length m = ce" "slots_hold ty (chunk_part ce F j) m"
    using chunks_holdD(3) [OF h j] by blast
  have "chunk_part ce F j i = None" "i < length m" using i m(2) by (simp_all add: chunk_part_def)
  note c = hold_construct [OF m(3) this, of x]
  have "(chunk_part ce F j)(i := Some x) = chunk_part ce (F(j * ce + i := Some x)) j"
    using i(1) by (auto simp: chunk_part_def fun_eq_iff)
  then have "chunks_hold ty ce (h(cs ! j \<mapsto> m[i := Some x])) cs (F(j * ce + i := Some x))"
    using c(2) m(2) i(1) by (intro chunks_update [OF h j]) (auto simp: chunk_pos_eq)
  then show ?thesis using c(1) m(1) by (simp add: chunk_construct_def)
qed

lemma chunks_destroy:
  assumes h: "chunks_hold ty ce h cs F" and j: "j < length cs" and i: "i < ce" "F (j * ce + i) = Some x"
  shows "\<exists>h'. chunk_destroy ty (Some (cs ! j)) i h = Some h' \<and> chunks_hold ty ce h' cs (F(j * ce + i := None))"
proof (cases "is_trivial ty")
  case True
  then show ?thesis using chunks_weaken [OF h True, of "F(j * ce + i := None)"] by (simp add: chunk_destroy_def)
next
  case False
  obtain m where m: "h (cs ! j) = Some m" "length m = ce" "slots_hold ty (chunk_part ce F j) m"
    using chunks_holdD(3) [OF h j] by blast
  have "chunk_part ce F j i = Some x" using i by (simp add: chunk_part_def)
  note d = hold_destroy [OF m(3) this]
  have "(chunk_part ce F j)(i := None) = chunk_part ce (F(j * ce + i := None)) j"
    using i(1) by (auto simp: chunk_part_def fun_eq_iff)
  then have "chunks_hold ty ce (h(cs ! j \<mapsto> m[i := None])) cs (F(j * ce + i := None))"
    using d(2) m(2) i(1) False by (intro chunks_update [OF h j]) (auto simp: chunk_pos_eq)
  then show ?thesis using d(1) m(1) False by (simp add: chunk_destroy_def)
qed

lemma chunks_read:
  assumes h: "chunks_hold ty ce h cs F" and j: "j < length cs" and i: "i < ce" "F (j * ce + i) = Some x"
  shows "chunk_read (Some (cs ! j)) i h = Some x"
proof -
  obtain m where m: "h (cs ! j) = Some m" "slots_hold ty (chunk_part ce F j) m"
    using chunks_holdD(3) [OF h j] by blast
  have "chunk_part ce F j i = Some x" using i by (simp add: chunk_part_def)
  from hold_read [OF m(2) this] m(1) show ?thesis by (simp add: chunk_read_def)
qed

lemma destroy_range_rep:
  assumes h: "chunks_hold ty ce h cs F" and j: "j < length cs" and ab: "a \<le> b" "b \<le> ce"
    and live: "\<And>i. a \<le> i \<Longrightarrow> i < b \<Longrightarrow> F (j * ce + i) \<noteq> None"
  shows "\<exists>h'. destroy_range ty (Some (cs ! j)) a b h = Some h' \<and>
    chunks_hold ty ce h' cs (\<lambda>q. if j * ce + a \<le> q \<and> q < j * ce + b then None else F q)"
proof (cases "is_trivial ty")
  case True
  then show ?thesis
    using chunks_weaken [OF h True, of "\<lambda>q. if j * ce + a \<le> q \<and> q < j * ce + b then None else F q"]
    by (simp add: destroy_range_def)
next
  case False
  let ?G = "\<lambda>k q. if j * ce + a \<le> q \<and> q < j * ce + k then None else F q"
  have "\<exists>h'. run_each (chunk_destroy ty (Some (cs ! j))) [a..<b] h = Some h' \<and> chunks_hold ty ce h' cs (?G b)"
  proof (rule run_each_upt [where P = "\<lambda>k h. chunks_hold ty ce h cs (?G k)"])
    have "?G a = F" by (auto simp: fun_eq_iff)
    then show "chunks_hold ty ce h cs (?G a)" using h by simp
    fix k g
    assume k: "a \<le> k" "k < b" and g: "chunks_hold ty ce g cs (?G k)"
    obtain x where x: "F (j * ce + k) = Some x" using live k by blast
    have "?G k (j * ce + k) = Some x" "k < ce" using x k ab(2) by simp_all
    from chunks_destroy [OF g j this(2,1)] obtain g' where
      "chunk_destroy ty (Some (cs ! j)) k g = Some g'" "chunks_hold ty ce g' cs ((?G k)(j * ce + k := None))"
      by blast
    moreover have "(?G k)(j * ce + k := None) = ?G (Suc k)" using k by (auto simp: fun_eq_iff less_Suc_eq)
    ultimately show "\<exists>g'. chunk_destroy ty (Some (cs ! j)) k g = Some g' \<and> chunks_hold ty ce g' cs (?G (Suc k))"
      by simp
  qed (rule ab(1))
  then show ?thesis using False ab(1) by (simp add: destroy_range_def)
qed

text \<open>A chunk that holds no object is freed; a new chunk is added at either end.\<close>

lemma chunks_free:
  assumes h: "chunks_hold ty ce h (as @ c # bs) F" and raw: "\<And>i. i < ce \<Longrightarrow> F (length as * ce + i) = None"
  shows "free_chunk ty (Some c) h = Some (h(c := None))"
    "chunks_hold ty ce (h(c := None)) (as @ bs) (\<lambda>q. if q < length as * ce then F q else F (q + ce))"
proof -
  have n: "length as < length (as @ c # bs)" by simp
  obtain m where m: "h c = Some m" "length m = ce" "slots_hold ty (chunk_part ce F (length as)) m"
    using chunks_holdD(3) [OF h n] by auto
  have "chunk_part ce F (length as) = (\<lambda>_. None)" using raw by (auto simp: chunk_part_def)
  with m have "free_slots ty m = Some ()" by (auto simp: free_slots_def slots_hold_def list_all_length)
  with m(1) show "free_chunk ty (Some c) h = Some (h(c := None))" by (simp add: free_chunk_def)
  let ?G = "\<lambda>q. if q < length as * ce then F q else F (q + ce)"
  have "\<exists>m. (h(c := None)) ((as @ bs) ! j) = Some m \<and> length m = ce \<and> slots_hold ty (chunk_part ce ?G j) m"
    if j: "j < length (as @ bs)" for j
  proof -
    define k where "k = (if j < length as then j else Suc j)"
    have k: "k < length (as @ c # bs)" "(as @ c # bs) ! k = (as @ bs) ! j"
      using j by (auto simp: k_def nth_append)
    have "(as @ bs) ! j \<in> set (as @ bs)" by (rule nth_mem [OF j])
    then have ne: "(as @ bs) ! j \<noteq> c" using chunks_holdD(1) [OF h] by auto
    have "chunk_part ce ?G j = chunk_part ce F k"
    proof
      fix i
      have "j * ce + i < length as * ce \<longleftrightarrow> j < length as" if "i < ce"
      proof
        assume "j < length as"
        then have "Suc j * ce \<le> length as * ce" by (intro mult_le_mono1) simp
        with that show "j * ce + i < length as * ce" by simp
      next
        assume "j * ce + i < length as * ce"
        then have "j * ce < length as * ce" by linarith
        then show "j < length as" by simp
      qed
      then show "chunk_part ce ?G j i = chunk_part ce F k i"
        by (auto simp: chunk_part_def k_def ac_simps)
    qed
    then show ?thesis using chunks_holdD(3) [OF h k(1)] k(2) ne by simp
  qed
  moreover have "dom (h(c := None)) = set (as @ bs)" "distinct (as @ bs)"
    using chunks_holdD(1,2) [OF h] by auto
  moreover have "chunk_fits ce k" if "k \<in> set (as @ bs)" for k using chunks_holdD(4) [OF h, of k] that by auto
  ultimately show "chunks_hold ty ce (h(c := None)) (as @ bs) ?G" by (auto simp: chunks_hold_def)
qed

lemma chunks_new_back:
  assumes h: "chunks_hold ty ce h cs F" and c: "c \<notin> dom h" "chunk_fits ce c" and raw: "\<And>i. i < ce \<Longrightarrow> F (length cs * ce + i) = None"
  shows "chunks_hold ty ce (h(c \<mapsto> replicate ce None)) (cs @ [c]) F"
proof -
  let ?h = "h(c \<mapsto> replicate ce None)"
  have nc: "c \<notin> set cs" using c(1) chunks_holdD(2) [OF h] by simp
  have "\<exists>m. ?h ((cs @ [c]) ! j) = Some m \<and> length m = ce \<and> slots_hold ty (chunk_part ce F j) m"
    if "j < length (cs @ [c])" for j
  proof (cases "j < length cs")
    case True
    then have "cs ! j \<noteq> c" using nc by auto
    then show ?thesis using chunks_holdD(3) [OF h True] True by (simp add: nth_append)
  next
    case False
    then have "j = length cs" using that by simp
    then show ?thesis using raw by (auto simp: slots_hold_def chunk_part_def)
  qed
  then show ?thesis using chunks_holdD(1,2,4) [OF h] nc c(2) by (auto simp: chunks_hold_def)
qed

lemma chunks_new_front:
  assumes h: "chunks_hold ty ce h cs F" and c: "c \<notin> dom h" "chunk_fits ce c"
  shows "chunks_hold ty ce (h(c \<mapsto> replicate ce None)) (c # cs) (\<lambda>q. if q < ce then None else F (q - ce))"
proof -
  let ?h = "h(c \<mapsto> replicate ce None)" and ?G = "\<lambda>q. if q < ce then None else F (q - ce)"
  have nc: "c \<notin> set cs" using c(1) chunks_holdD(2) [OF h] by simp
  have "\<exists>m. ?h ((c # cs) ! j) = Some m \<and> length m = ce \<and> slots_hold ty (chunk_part ce ?G j) m"
    if "j < length (c # cs)" for j
  proof (cases j)
    case 0
    then show ?thesis by (auto simp: slots_hold_def chunk_part_def)
  next
    case (Suc k)
    then have k: "k < length cs" using that by simp
    then have "cs ! k \<noteq> c" using nc by auto
    moreover have "chunk_part ce ?G j = chunk_part ce F k" using Suc by (auto simp: chunk_part_def fun_eq_iff)
    ultimately show ?thesis using chunks_holdD(3) [OF h k] Suc by simp
  qed
  then show ?thesis using chunks_holdD(1,2,4) [OF h] nc c(2) by (auto simp: chunks_hold_def)
qed

section \<open>Positions\<close>

text \<open>
  The map links the chunks \<open>cs\<close> from its entry \<open>base\<close> on; \<open>pos_iter ce base cs p\<close> is the
  iterator to position \<open>p\<close> of these chunks laid end to end.
\<close>

definition de_links :: "nat \<Rightarrow> nat list \<Rightarrow> chunk_ptr list \<Rightarrow> bool" where
  "de_links base cs mp \<longleftrightarrow> length mp < 2 ^ 61 \<and> base + length cs \<le> length mp \<and> (\<forall>k < length cs. mp ! (base + k) = Some (cs ! k))"

definition pos_iter :: "nat \<Rightarrow> nat \<Rightarrow> nat list \<Rightarrow> nat \<Rightarrow> iter" where
  "pos_iter ce base cs p = \<lparr>it_cur = p mod ce, it_first = Some (cs ! (p div ce)), it_node = base + p div ce\<rparr>"

lemma pos_iter_simps [simp]:
  "it_cur (pos_iter ce base cs p) = p mod ce" "it_first (pos_iter ce base cs p) = Some (cs ! (p div ce))"
  "it_node (pos_iter ce base cs p) = base + p div ce"
  by (simp_all add: pos_iter_def)

lemma map_entry_links: "de_links base cs mp \<Longrightarrow> j < length cs \<Longrightarrow> map_entry mp (base + j) = Some (Some (cs ! j))"
  by (simp add: de_links_def map_entry_def)

lemma set_node_links:
  "de_links base cs mp \<Longrightarrow> j < length cs \<Longrightarrow>
   set_node mp (base + j) it = Some (it\<lparr>it_node := base + j, it_first := Some (cs ! j)\<rparr>)"
  by (simp add: set_node_def map_entry_links)

lemma iter_inc_pos:
  assumes "de_links base cs mp" "0 < ce" "Suc p div ce < length cs"
  shows "iter_inc ce mp (pos_iter ce base cs p) = Some (pos_iter ce base cs (Suc p))"
proof (cases "Suc (p mod ce) = ce")
  case True
  then have "Suc p div ce = Suc (p div ce)" "Suc p mod ce = 0" by (simp_all add: div_Suc mod_Suc)
  then show ?thesis
    using True assms set_node_links [OF assms(1), of "Suc (p div ce)"] by (simp add: iter_inc_def pos_iter_def)
next
  case False
  then have "Suc p div ce = p div ce" "Suc p mod ce = Suc (p mod ce)"
    by (simp_all add: div_Suc mod_Suc)
  then show ?thesis using False by (simp add: iter_inc_def pos_iter_def)
qed

lemma iter_dec_pos:
  assumes "de_links base cs mp" "0 < ce" "Suc p div ce < length cs"
  shows "iter_dec ce mp (pos_iter ce base cs (Suc p)) = Some (pos_iter ce base cs p)"
proof (cases "Suc (p mod ce) = ce")
  case True
  then have s: "Suc p div ce = Suc (p div ce)" "Suc p mod ce = 0" "p mod ce = ce - 1"
    by (simp_all add: div_Suc mod_Suc)
  then show ?thesis
    using assms set_node_links [OF assms(1), of "p div ce"] by (simp add: iter_dec_def pos_iter_def)
next
  case False
  then have "Suc p div ce = p div ce" "Suc p mod ce = Suc (p mod ce)"
    by (simp_all add: div_Suc mod_Suc)
  then show ?thesis by (simp add: iter_dec_def pos_iter_def)
qed

lemma iter_add_pos:
  assumes l: "de_links base cs mp" and ce: "0 < ce" and q: "int p + n = int q" "q div ce < length cs"
  shows "iter_add ce mp n (pos_iter ce base cs p) = Some (pos_iter ce base cs q)"
proof -
  define off where "off = n + int (p mod ce)"
  have p: "int p = int ce * int (p div ce) + int (p mod ce)"
    by (metis of_nat_add of_nat_mult mult_div_mod_eq)
  then have off: "off = int q - int ce * int (p div ce)" using q(1) by (simp add: off_def)
  have dm: "off div int ce = int (q div ce) - int (p div ce)" "off mod int ce = int (q mod ce)"
  proof -
    have e: "off = int q + (- int (p div ce)) * int ce" using off by (simp add: mult.commute)
    have "off div int ce = - int (p div ce) + int q div int ce"
      unfolding e by (rule div_mult_self1) (use ce in simp)
    then show "off div int ce = int (q div ce) - int (p div ce)" by (simp add: zdiv_int)
    have "off mod int ce = int q mod int ce" unfolding e by (rule mod_mult_self1)
    then show "off mod int ce = int (q mod ce)" by (simp add: zmod_int)
  qed
  show ?thesis
  proof (cases "0 \<le> off \<and> off < int ce")
    case True
    then have "off div int ce = 0" "off mod int ce = off" by simp_all
    then have "q div ce = p div ce" "nat off = q mod ce" using dm by simp_all
    then show ?thesis using True by (simp add: iter_add_def off_def pos_iter_def)
  next
    case False
    have nd: "(if 0 < off then off div int ce else - ((- off - 1) div int ce) - 1) = off div int ce"
    proof (cases "0 < off")
      case F: False
      then have "off < 0" using False ce by auto
      have m: "0 \<le> off mod int ce" "off mod int ce < int ce" using ce by simp_all
      have "off = int ce * (off div int ce) + off mod int ce" by simp
      then have e: "- off - 1 = int ce * (- (off div int ce) - 1) + (int ce - 1 - off mod int ce)"
        unfolding right_diff_distrib mult_minus_right by linarith
      have "(- off - 1) div int ce = - (off div int ce) - 1"
        using m by (intro int_div_pos_eq [OF e]) linarith+
      then show ?thesis using F by simp
    qed simp
    have node: "int (base + p div ce) + off div int ce = int (base + q div ce)" using dm(1) by simp
    have cur: "off - (off div int ce) * int ce = int (q mod ce)"
      using dm(2) by (simp add: minus_div_mult_eq_mod)
    have neg: "\<not> int (base + q div ce) < 0" by simp
    have "iter_add ce mp n (pos_iter ce base cs p) =
        map_option (it_cur_update (\<lambda>_. nat (int (q mod ce))))
          (set_node mp (nat (int (base + q div ce))) (pos_iter ce base cs p))"
      using False unfolding iter_add_def Let_def pos_iter_simps off_def [symmetric] nd node cur
      by (simp only: neg if_False if_False)
    then have "iter_add ce mp n (pos_iter ce base cs p) =
        map_option (it_cur_update (\<lambda>_. q mod ce)) (set_node mp (base + q div ce) (pos_iter ce base cs p))"
      unfolding nat_int .
    then show ?thesis
      using set_node_links [OF l q(2)] by (simp add: pos_iter_def)
  qed
qed

lemma iter_diff_pos: "0 < ce \<Longrightarrow> iter_diff ce (pos_iter ce base cs p) (pos_iter ce base cs q) = int p - int q"
proof -
  have "int p = int ce * int (p div ce) + int (p mod ce)" "int q = int ce * int (q div ce) + int (q mod ce)"
    by (metis of_nat_add of_nat_mult mult_div_mod_eq)+
  then show ?thesis by (simp add: iter_diff_def algebra_simps)
qed

lemma iter_eq_pos:
  assumes "distinct cs" "p div ce < length cs" "q div ce < length cs"
  shows "iter_eq (pos_iter ce base cs p) (pos_iter ce base cs q) \<longleftrightarrow> p = q"
  using assms by (auto simp: iter_eq_def nth_eq_iff_index_eq) (metis mult_div_mod_eq)

lemma iter_less_pos: "0 < ce \<Longrightarrow> iter_less (pos_iter ce base cs p) (pos_iter ce base cs q) \<longleftrightarrow> p < q"
proof -
  assume "0 < ce"
  have pq: "p = ce * (p div ce) + p mod ce" "q = ce * (q div ce) + q mod ce" by simp_all
  show ?thesis
  proof (cases "p div ce = q div ce")
    case True
    with pq have "p < q \<longleftrightarrow> p mod ce < q mod ce" by (metis nat_add_left_cancel_less)
    with True show ?thesis by (simp add: iter_less_def)
  next
    case False
    have "p div ce < q div ce \<longleftrightarrow> p < q"
    proof
      assume "p div ce < q div ce"
      then show "p < q" by (meson div_le_mono leD le_less_linear)
    next
      assume "p < q"
      then have "p div ce \<le> q div ce" by (simp add: div_le_mono)
      with False show "p div ce < q div ce" by simp
    qed
    with False show ?thesis by (simp add: iter_less_def)
  qed
qed

lemma pos_chunk: "0 < ce \<Longrightarrow> (p div ce) * ce + p mod ce = p" for p :: nat
  by simp

section \<open>The layout of a deque\<close>

text \<open>
  \<open>xs\<close> occupies the positions from \<open>s\<close> on; \<open>finish_\<close> is the position behind the last
  element, always within the last chunk.
\<close>

definition de_layout :: "'a elem_type \<Rightarrow> nat \<Rightarrow> nat \<Rightarrow> nat list \<Rightarrow> nat \<Rightarrow> 'a list \<Rightarrow> 'a deque \<Rightarrow> bool" where
  "de_layout ty ce base cs s xs d \<longleftrightarrow> 0 < ce \<and> s < ce \<and> Suc ((s + length xs) div ce) = length cs \<and>
     (\<exists>mp. de_map d = Some mp \<and> de_map_size d = length mp \<and> de_links base cs mp) \<and>
     de_start d = pos_iter ce base cs s \<and> de_finish d = pos_iter ce base cs (s + length xs) \<and>
     chunks_hold ty ce (de_heap d) cs (window s xs)"

definition de_rep :: "'a elem_type \<Rightarrow> nat \<Rightarrow> 'a list \<Rightarrow> 'a deque \<Rightarrow> bool" where
  "de_rep ty ce xs d \<longleftrightarrow> (\<exists>base cs s. de_layout ty ce base cs s xs d)"

definition de_contents :: "nat \<Rightarrow> 'a deque \<Rightarrow> 'a list" where
  "de_contents ce d = map (\<lambda>i. the (de_index ce d i)) [0..<de_size ce d]"

definition de_inv :: "'a elem_type \<Rightarrow> nat \<Rightarrow> 'a deque \<Rightarrow> bool" where
  "de_inv ty ce d \<longleftrightarrow> de_rep ty ce (de_contents ce d) d"

lemma de_layoutD:
  assumes "de_layout ty ce base cs s xs d"
  obtains mp where "0 < ce" "s < ce" "Suc ((s + length xs) div ce) = length cs" "de_map d = Some mp"
    "de_map_size d = length mp" "de_links base cs mp" "de_start d = pos_iter ce base cs s"
    "de_finish d = pos_iter ce base cs (s + length xs)" "chunks_hold ty ce (de_heap d) cs (window s xs)"
  using assms by (auto simp: de_layout_def)

lemma window_nth [simp]: "i < length xs \<Longrightarrow> window s xs (s + i) = Some (xs ! i)"
  by (simp add: window_def)

lemma window_None: "q < s \<or> s + length xs \<le> q \<Longrightarrow> window s xs q = None"
  by (auto simp: window_def elem_at_def)

lemma de_layout_index:
  assumes "de_layout ty ce base cs s xs d" "i < length xs"
  shows "de_index ce d i = Some (xs ! i)"
  using assms(1)
proof (cases rule: de_layoutD)
  case (1 mp)
  have q: "(s + i) div ce < length cs"
    using 1(3) assms(2) div_le_mono [of "s + i" "s + length xs" ce] by simp
  have "iter_add ce mp (int i) (pos_iter ce base cs s) = Some (pos_iter ce base cs (s + i))"
    using 1 q by (intro iter_add_pos) simp_all
  moreover have "chunk_read (Some (cs ! ((s + i) div ce))) ((s + i) mod ce) (de_heap d) = Some (xs ! i)"
    using 1 q assms(2) by (intro chunks_read [OF 1(9)]) simp_all
  ultimately show ?thesis using 1 by (simp add: de_index_def iter_deref_def)
qed

lemma de_layout_size: "de_layout ty ce base cs s xs d \<Longrightarrow> de_size ce d = length xs"
  by (erule de_layoutD) (simp add: de_size_def iter_diff_pos)

lemma de_layout_contents:
  assumes "de_layout ty ce base cs s xs d"
  shows "de_contents ce d = xs"
  using de_layout_size [OF assms] de_layout_index [OF assms]
  by (auto simp: de_contents_def intro!: nth_equalityI)

lemma de_rep_contents: "de_rep ty ce xs d \<Longrightarrow> de_contents ce d = xs"
  using de_layout_contents by (auto simp: de_rep_def)

lemma de_rep_inv: "de_rep ty ce xs d \<Longrightarrow> de_inv ty ce d"
  by (simp add: de_inv_def de_rep_contents)

lemma de_layout_empty:
  assumes "de_layout ty ce base cs s xs d"
  shows "de_empty d \<longleftrightarrow> xs = []"
  using assms
proof (cases rule: de_layoutD)
  case (1 mp)
  have "0 < length cs" using 1(3) by (metis zero_less_Suc)
  then have "s div ce < length cs" using 1(2) by simp
  then show ?thesis
    using 1 iter_eq_pos [OF chunks_holdD(1) [OF 1(9)], of s ce "s + length xs" base] by (simp add: de_empty_def)
qed

section \<open>Moving the map entries\<close>

lemma copy_forward_rep:
  assumes "dst \<le> src" "src + n \<le> length mp"
  shows "\<exists>mp'. copy_forward dst src n mp = Some mp' \<and> length mp' = length mp \<and>
    (\<forall>k < n. mp' ! (dst + k) = mp ! (src + k))"
proof -
  let ?P = "\<lambda>k m. length m = length mp \<and> (\<forall>i < k. m ! (dst + i) = mp ! (src + i)) \<and>
      (\<forall>i. dst + k \<le> i \<and> i < length mp \<longrightarrow> m ! i = mp ! i)"
  have "\<exists>m. run_each (copy_pointer dst src) [0..<n] mp = Some m \<and> ?P n m"
  proof (rule run_each_upt [where P = ?P])
    fix k m
    assume k: "0 \<le> k" "k < n" and P: "?P k m"
    have b: "dst + k < length m" "src + k < length m" using k assms P by auto
    have "m ! (src + k) = mp ! (src + k)" using P b assms(1) by simp
    with b P show "\<exists>m'. copy_pointer dst src k m = Some m' \<and> ?P (Suc k) m'"
      by (auto simp: copy_pointer_def nth_list_update less_Suc_eq)
  qed auto
  then show ?thesis by (auto simp: copy_forward_def)
qed

lemma copy_backward_rep:
  assumes "src \<le> dst" "dst + n \<le> length mp"
  shows "\<exists>mp'. copy_backward dst src n mp = Some mp' \<and> length mp' = length mp \<and>
    (\<forall>k < n. mp' ! (dst + k) = mp ! (src + k)) \<and> (\<forall>i. dst + n \<le> i \<longrightarrow> i < length mp \<longrightarrow> mp' ! i = mp ! i)"
  using assms
proof (induction n arbitrary: mp)
  case 0
  then show ?case by (simp add: copy_backward_def)
next
  case (Suc n)
  define m1 where "m1 = mp[dst + n := mp ! (src + n)]"
  have 1: "copy_pointer dst src n mp = Some m1" using Suc.prems by (simp add: copy_pointer_def m1_def)
  have "dst + n \<le> length m1" using Suc.prems by (simp add: m1_def)
  then obtain m2 where m2: "copy_backward dst src n m1 = Some m2" "length m2 = length m1"
      "\<forall>k < n. m2 ! (dst + k) = m1 ! (src + k)" "\<forall>i. dst + n \<le> i \<longrightarrow> i < length m1 \<longrightarrow> m2 ! i = m1 ! i"
    using Suc.IH [OF Suc.prems(1)] by blast
  have "copy_backward dst src (Suc n) mp = Some m2" using 1 m2(1) by (simp add: copy_backward_def)
  moreover have "m2 ! (dst + k) = mp ! (src + k)" if "k < Suc n" for k
    using m2 that Suc.prems by (cases "k = n") (auto simp: m1_def)
  moreover have "m2 ! i = mp ! i" if "dst + Suc n \<le> i" "i < length mp" for i
    using m2 that by (auto simp: m1_def)
  ultimately show ?case using m2(2) by (auto simp: m1_def)
qed

lemma copy_to_new_rep:
  assumes "dst + n \<le> length new" "src + n \<le> length old"
  shows "\<exists>new'. copy_to_new dst old src n new = Some new' \<and> length new' = length new \<and>
    (\<forall>k < n. new' ! (dst + k) = old ! (src + k))"
proof -
  let ?P = "\<lambda>k m. length m = length new \<and> (\<forall>i < k. m ! (dst + i) = old ! (src + i))"
  let ?body = "\<lambda>k new. if dst + k < length new \<and> src + k < length old
                       then Some (new[dst + k := old ! (src + k)]) else None"
  have "\<exists>m. run_each ?body [0..<n] new = Some m \<and> ?P n m"
    by (rule run_each_upt [where P = ?P]) (use assms in \<open>auto simp: nth_list_update less_Suc_eq\<close>)
  then show ?thesis by (auto simp: copy_to_new_def)
qed

lemma de_relink_rep:
  assumes l: "de_layout ty ce base cs s xs d" "de_map d = Some mp"
    and mp': "length mp' < 2 ^ 61" "nstart + length cs \<le> length mp'" "\<forall>k < length cs. mp' ! (nstart + k) = mp ! (base + k)"
  shows "\<exists>d'. de_relink mp' (length mp') nstart (length cs) d = Some (Inr (), d') \<and>
    de_layout ty ce nstart cs s xs d' \<and> de_heap d' = de_heap d \<and> de_map_size d' = length mp'"
  using l(1)
proof (cases rule: de_layoutD)
  case (1 mp0)
  obtain k where k: "length cs = Suc k" "(s + length xs) div ce = k" using 1(3) by metis
  have links: "de_links nstart cs mp'" using 1(4,6) l(2) mp' by (simp add: de_links_def)
  have "set_node mp' nstart (de_start d) = Some (pos_iter ce nstart cs s)"
    using set_node_links [OF links, of 0] 1(2,7) k(1) by (simp add: pos_iter_def)
  moreover have "set_node mp' (nstart + length cs - 1) (de_finish d) = Some (pos_iter ce nstart cs (s + length xs))"
    using set_node_links [OF links, of k] 1(8) k by (simp add: pos_iter_def)
  ultimately show ?thesis using 1 links by (simp add: de_relink_def de_layout_def)
qed

lemma de_reallocate_map_rep:
  assumes l: "de_layout ty ce base cs s xs d"
  shows "de_reallocate_map mem 1 front d = Some (Inl Bad_alloc, d) \<or>
    (\<exists>d' base'. de_reallocate_map mem 1 front d = Some (Inr (), d') \<and> de_layout ty ce base' cs s xs d' \<and>
       de_heap d' = de_heap d \<and> (if front then 0 < base' else base' + length cs < de_map_size d'))"
  using l
proof (cases rule: de_layoutD)
  case (1 mp)
  let ?n = "length cs"
  have n: "it_node (de_start d) = base" "it_node (de_finish d) - base + 1 = ?n"
    using 1(2,3,7,8) by simp_all
  have len: "base + ?n \<le> length mp" and short: "length mp < 2 ^ 61" using 1(6) by (simp_all add: de_links_def)
  have few: "?n \<le> 2 ^ 55" by (rule chunks_bound(1) [OF 1(9)])
  have new_num: "size_wrap (?n + 1) = ?n + 1" "size_wrap (2 * (?n + 1)) = 2 * (?n + 1)"
    using few by (simp_all add: size_wrap_def)
  show ?thesis
  proof (cases "2 * (?n + 1) < length mp")
    case True
    define ns where "ns = size_minus (length mp) (?n + 1) div 2 + (if front then 1 else 0)"
    have "size_minus (length mp) (?n + 1) = length mp - (?n + 1)"
      by (rule size_minus_small) (use True short in simp)+
    then have ns: "ns + ?n \<le> length mp" "if front then 0 < ns else ns + ?n < length mp"
      using True by (auto simp: ns_def)
    obtain mp' where mp': "(if ns < base then copy_forward ns base ?n mp else copy_backward ns base ?n mp) = Some mp'"
        "length mp' = length mp" "\<forall>k < ?n. mp' ! (ns + k) = mp ! (base + k)"
      using copy_forward_rep [of ns base ?n mp] copy_backward_rep [of base ns ?n mp] len ns(1)
      by (cases "ns < base") auto
    have "length mp' < 2 ^ 61" "ns + ?n \<le> length mp'" using ns(1) mp'(2) short by simp_all
    from de_relink_rep [OF l 1(4) this mp'(3)] obtain d' where d': "de_relink mp' (length mp) ns ?n d = Some (Inr (), d')"
        "de_layout ty ce ns cs s xs d'" "de_heap d' = de_heap d" "de_map_size d' = length mp"
      unfolding mp'(2) by blast
    have "de_reallocate_map mem 1 front d = Some (Inr (), d')"
      using True unfolding de_reallocate_map_def 1(4,5) Let_def n new_num ns_def [symmetric] using mp'(1) d'(1)
      by simp
    then show ?thesis using d' ns(2) by auto
  next
    case False
    show ?thesis
    proof (cases "fst mem")
      case T: True
      define sz where "sz = length mp + max (length mp) 1 + 2"
      define ns where "ns = size_minus sz (?n + 1) div 2 + (if front then 1 else 0)"
      have sz: "sz < 2 ^ 61" "?n + 1 \<le> sz" using False few len by (auto simp: sz_def max_def)
      then have wrap: "size_wrap sz = sz" "size_wrap (sz * 8) div 8 = sz" by (auto intro: size_wrap_small)
      have "size_minus sz (?n + 1) = sz - (?n + 1)" by (rule size_minus_small) (use sz in simp)+
      then have ns: "ns + ?n \<le> sz" "if front then 0 < ns else ns + ?n < sz"
        using len by (auto simp: ns_def sz_def)
      obtain mp' where mp': "copy_to_new ns mp base ?n (replicate sz None) = Some mp'" "length mp' = sz"
          "\<forall>k < ?n. mp' ! (ns + k) = mp ! (base + k)"
        using copy_to_new_rep [of ns ?n "replicate sz None" base mp] ns(1) len by auto
      have "length mp' < 2 ^ 61" "ns + ?n \<le> length mp'" using ns(1) mp'(2) sz(1) by simp_all
      from de_relink_rep [OF l 1(4) this mp'(3)] obtain d' where d': "de_relink mp' sz ns ?n d = Some (Inr (), d')"
          "de_layout ty ce ns cs s xs d'" "de_heap d' = de_heap d" "de_map_size d' = sz"
        unfolding mp'(2) by blast
      have "de_reallocate_map mem 1 front d = Some (Inr (), d')"
        using False T unfolding de_reallocate_map_def alloc_map_def 1(4,5) Let_def n new_num sz_def [symmetric] wrap
          ns_def [symmetric]
        using mp'(1) d'(1) by simp
      then show ?thesis using d' ns(2) by auto
    next
      case F: False
      have "de_reallocate_map mem 1 front d = Some (Inl Bad_alloc, d)"
        using False F unfolding de_reallocate_map_def alloc_map_def 1(4,5) Let_def n new_num by simp
      then show ?thesis by blast
    qed
  qed
qed

section \<open>Insertion and removal preserve the layout\<close>

lemma window_snoc: "(window s xs)(s + length xs := Some x) = window s (xs @ [x])"
  by (auto simp: window_def elem_at_def nth_append fun_eq_iff)

lemma window_cons: "(window (Suc s) xs)(s := Some x) = window s (x # xs)"
  by (auto simp: window_def elem_at_def nth_Cons' fun_eq_iff)

lemma window_butlast: "(window s (xs @ [x]))(s + length xs := None) = window s xs"
  by (auto simp: window_def elem_at_def nth_append fun_eq_iff)

lemma window_tl: "(window s (x # xs))(s := None) = window (Suc s) xs"
  by (auto simp: window_def elem_at_def nth_Cons' fun_eq_iff Suc_le_eq diff_Suc split: nat.splits)

lemma window_shift: "(\<lambda>q. if q < ce then None else window s xs (q - ce)) = window (s + ce) xs"
  by (auto simp: window_def fun_eq_iff add.commute)

lemma de_layout_pos:
  assumes "de_layout ty ce base cs s xs d"
  shows "0 < ce" "(s + length xs) div ce < length cs" "s < ce" "0 < length cs"
    "length cs = Suc ((s + length xs) div ce)"
  using assms by (auto simp: de_layout_def)

text \<open>An address is the chunk and the offset of an element; \<open>de_address\<close> gives that of the \<open>i\<close>-th.\<close>

definition de_address :: "nat \<Rightarrow> 'a deque \<Rightarrow> nat \<Rightarrow> (chunk_ptr \<times> nat) option" where
  "de_address ce d i = do {
     mp \<leftarrow> de_map d;
     it \<leftarrow> iter_add ce mp (int i) (de_start d);
     Some (it_first it, it_cur it)
   }"

lemma de_layout_address:
  assumes l: "de_layout ty ce base cs s xs d" and i: "i < length xs"
  shows "de_address ce d i = Some (Some (cs ! ((s + i) div ce)), (s + i) mod ce)"
  using l
proof (cases rule: de_layoutD)
  case (1 mp)
  have "(s + i) div ce < length cs"
    using 1(3) i div_le_mono [of "s + i" "s + length xs" ce] by simp
  then have "iter_add ce mp (int i) (pos_iter ce base cs s) = Some (pos_iter ce base cs (s + i))"
    using 1 by (intro iter_add_pos) simp_all
  then show ?thesis using 1 by (simp add: de_address_def)
qed

lemma de_construct_finish:
  assumes l: "de_layout ty ce base cs s xs d"
  shows "\<exists>h. chunk_construct ty (it_first (de_finish d)) (it_cur (de_finish d)) x (de_heap d) = Some h \<and>
    chunks_hold ty ce h cs (window s (xs @ [x]))"
  using l
proof (cases rule: de_layoutD)
  case (1 mp)
  let ?p = "s + length xs"
  note P = de_layout_pos [OF l]
  have "?p mod ce < ce" "window s xs (?p div ce * ce + ?p mod ce) = None"
    using P(1) by (simp_all add: window_None)
  from chunks_construct [OF 1(9) P(2) this, of x] show ?thesis
    unfolding 1(8) pos_iter_simps pos_chunk [OF P(1)] window_snoc .
qed

lemma de_push_back_aux_rep:
  assumes l: "de_layout ty ce base cs s xs d" and m: "fresh_mem mem" and full: "(s + length xs) mod ce = ce - 1"
  shows "\<exists>d' base'. (de_push_back_aux mem ty ce x d = Some (Inl Bad_alloc, d') \<and> de_layout ty ce base' cs s xs d') \<or>
    (\<exists>c. de_push_back_aux mem ty ce x d = Some (Inr (), d') \<and> de_layout ty ce base' (cs @ [c]) s (xs @ [x]) d')"
proof -
  let ?p = "s + length xs"
  note P = de_layout_pos [OF l]
  have next_chunk: "Suc ?p div ce = length cs" "Suc ?p mod ce = 0"
    using full P(1,5) by (simp_all add: div_Suc mod_Suc)
  obtain d1 base1 where r: "(de_reserve_map_at_back mem d = Some (Inl Bad_alloc, d) \<and> d1 = d \<and> base1 = base) \<or>
      (de_reserve_map_at_back mem d = Some (Inr (), d1) \<and> base1 + length cs < de_map_size d1)"
    and l1: "de_layout ty ce base1 cs s xs d1"
  proof (cases "de_map_size d - it_node (de_finish d) < 2")
    case True
    with de_reallocate_map_rep [OF l, of mem False] l that show thesis
      by (auto simp: de_reserve_map_at_back_def)
  next
    case False
    from l have "it_node (de_finish d) + 1 = base + length cs" by (auto simp: de_layout_def)
    with False have "base + length cs < de_map_size d" by linarith
    with False l that [of d base] show thesis by (simp add: de_reserve_map_at_back_def)
  qed
  show ?thesis
    using r
  proof (elim disjE conjE)
    assume "de_reserve_map_at_back mem d = Some (Inl Bad_alloc, d)"
    then have "de_push_back_aux mem ty ce x d = Some (Inl Bad_alloc, d)" by (simp add: de_push_back_aux_def)
    with l show ?thesis by blast
  next
    assume res: "de_reserve_map_at_back mem d = Some (Inr (), d1)" and room: "base1 + length cs < de_map_size d1"
    from l1 show ?thesis
    proof (cases rule: de_layoutD)
      case (1 mp)
      have node: "it_node (de_finish d1) + 1 = base1 + length cs" using 1(3,8) by simp
      show ?thesis
      proof (cases rule: alloc_chunkE [OF m, of ce "de_heap d1", case_names None Some])
        case None
        then have "de_push_back_aux mem ty ce x d = Some (Inl Bad_alloc, d1)"
          using res by (simp add: de_push_back_aux_def de_new_chunk_at_def)
        with l1 show ?thesis by blast
      next
        case (Some c)
        let ?h = "(de_heap d1)(c \<mapsto> replicate ce None)" and ?cs = "cs @ [c]"
        let ?mp = "mp[base1 + length cs := Some c]"
        define d2 where "d2 = d1\<lparr>de_map := Some ?mp, de_heap := ?h\<rparr>"
        have new: "de_new_chunk_at mem ce (it_node (de_finish d1) + 1) d1 = Some (Inr (), d2)"
          using Some(1) room 1(4,5) node by (simp add: de_new_chunk_at_def d2_def)
        have links: "de_links base1 ?cs ?mp"
          using 1(5,6) room by (auto simp: de_links_def nth_append nth_list_update less_Suc_eq)
        have h2: "chunks_hold ty ce ?h ?cs (window s xs)"
        proof (rule chunks_new_back [OF 1(9) Some(2,3)])
          fix i assume "i < ce"
          have "?p < length cs * ce"
            using P(1,2) by (simp add: div_less_iff_less_mult mult.commute)
          then show "window s xs (length cs * ce + i) = None" by (intro window_None) linarith
        qed
        have fin: "it_first (de_finish d2) = Some (?cs ! (?p div ce))" "it_cur (de_finish d2) = ?p mod ce"
          "it_node (de_finish d2) + 1 = base1 + length cs"
          using 1(8) P(2) node by (simp_all add: d2_def nth_append)
        have "?p div ce < length ?cs" "?p mod ce < ce" "window s xs (?p div ce * ce + ?p mod ce) = None"
          using P(1,2) by (simp_all add: window_None)
        from chunks_construct [OF h2 this, of x] obtain h where
          h: "chunk_construct ty (Some (?cs ! (?p div ce))) (?p mod ce) x ?h = Some h"
            "chunks_hold ty ce h ?cs (window s (xs @ [x]))"
          unfolding pos_chunk [OF P(1)] window_snoc by blast
        define d3 where "d3 = d2\<lparr>de_heap := h, de_finish := pos_iter ce base1 ?cs (Suc ?p)\<rparr>"
        have "set_node ?mp (base1 + length cs) (de_finish d2) =
            Some ((de_finish d2)\<lparr>it_node := base1 + length cs, it_first := Some c\<rparr>)"
          using set_node_links [OF links, of "length cs"] by simp
        then have "de_push_back_aux mem ty ce x d = Some (Inr (), d3)"
          using res new fin h(1) next_chunk
          by (simp add: de_push_back_aux_def d3_def pos_iter_def) (simp add: d2_def)
        moreover have "de_layout ty ce base1 ?cs s (xs @ [x]) d3"
          using 1 next_chunk links h(2) P(4) by (auto simp: de_layout_def d3_def d2_def pos_iter_def nth_append)
        ultimately show ?thesis by blast
      qed
    qed
  qed
qed

lemma de_push_back_rep:
  assumes l: "de_layout ty ce base cs s xs d" and m: "fresh_mem mem"
  shows "\<exists>d' base'. (de_push_back mem ty ce x d = Some (Inl Bad_alloc, d') \<and> de_layout ty ce base' cs s xs d') \<or>
    (\<exists>cs'. de_push_back mem ty ce x d = Some (Inr (), d') \<and> de_layout ty ce base' (cs @ cs') s (xs @ [x]) d')"
proof (cases "(s + length xs) mod ce = ce - 1")
  case True
  then have "de_push_back mem ty ce x d = de_push_back_aux mem ty ce x d"
    using l by (auto simp: de_push_back_def de_layout_def)
  with de_push_back_aux_rep [OF l m True, of x] show ?thesis by metis
next
  case False
  let ?p = "s + length xs"
  note P = de_layout_pos [OF l]
  have p: "Suc ?p div ce = ?p div ce" "Suc ?p mod ce = Suc (?p mod ce)"
  proof -
    have "Suc (?p mod ce) \<noteq> ce" using False by linarith
    then show "Suc ?p div ce = ?p div ce" "Suc ?p mod ce = Suc (?p mod ce)"
      by (simp_all add: div_Suc mod_Suc)
  qed
  obtain h where h: "chunk_construct ty (it_first (de_finish d)) (it_cur (de_finish d)) x (de_heap d) = Some h"
      "chunks_hold ty ce h cs (window s (xs @ [x]))"
    using de_construct_finish [OF l, of x] by blast
  define d' where "d' = d\<lparr>de_heap := h, de_finish := (de_finish d)\<lparr>it_cur := it_cur (de_finish d) + 1\<rparr>\<rparr>"
  have fin: "de_finish d = pos_iter ce base cs ?p" using l by (simp add: de_layout_def)
  have "de_push_back mem ty ce x d = Some (Inr (), d')"
    using False h(1) fin by (simp add: de_push_back_def d'_def Let_def)
  moreover have "de_layout ty ce base (cs @ []) s (xs @ [x]) d'"
    using l h(2) p fin by (auto simp: de_layout_def d'_def pos_iter_def)
  ultimately show ?thesis by blast
qed

lemma de_pop_back_rep:
  assumes l: "de_layout ty ce base cs s (xs @ [x]) d"
  shows "\<exists>d' k. de_pop_back ty ce d = Some d' \<and> de_layout ty ce base (take k cs) s xs d'"
    "de_back ce d = Some x"
proof -
  let ?p = "s + length xs"
  note P = de_layout_pos [OF l]
  have Sp: "s + length (xs @ [x]) = Suc ?p" by simp
  have "?p div ce \<le> Suc ?p div ce" by (rule div_le_mono) simp
  then have pc: "?p div ce < length cs" using P(2) unfolding Sp by (rule le_less_trans)
  have live: "window s (xs @ [x]) (?p div ce * ce + ?p mod ce) = Some x" "?p mod ce < ce"
    using P(1) by (simp_all add: window_def elem_at_def)
  have "(\<exists>d' k. de_pop_back ty ce d = Some d' \<and> de_layout ty ce base (take k cs) s xs d') \<and> de_back ce d = Some x"
    using l
  proof (cases rule: de_layoutD)
    case (1 mp)
    have fin: "de_finish d = pos_iter ce base cs (Suc ?p)" using 1(8) by simp
    have "iter_dec ce mp (de_finish d) = Some (pos_iter ce base cs ?p)"
      unfolding fin by (rule iter_dec_pos [OF 1(6) P(1)]) (use P(2) in simp)
    then have bk: "de_back ce d = Some x"
      using chunks_read [OF 1(9) pc live(2,1)] 1(4) by (simp add: de_back_def iter_deref_def)
    have "\<exists>d' k. de_pop_back ty ce d = Some d' \<and> de_layout ty ce base (take k cs) s xs d'"
    proof (cases "Suc ?p mod ce = 0")
      case False
      then have e: "Suc ?p div ce = ?p div ce" "Suc ?p mod ce = Suc (?p mod ce)"
        by (auto simp: div_Suc mod_Suc split: if_splits)
      obtain h where h: "chunk_destroy ty (Some (cs ! (?p div ce))) (?p mod ce) (de_heap d) = Some h"
          "chunks_hold ty ce h cs (window s xs)"
        using chunks_destroy [OF 1(9) pc live(2,1)] unfolding pos_chunk [OF P(1)] window_butlast by blast
      define d' where "d' = d\<lparr>de_heap := h, de_finish := pos_iter ce base cs ?p\<rparr>"
      have "de_pop_back ty ce d = Some d'"
        using fin e h(1) by (simp add: de_pop_back_def d'_def pos_iter_def)
      moreover have "de_layout ty ce base (take (length cs) cs) s xs d'"
        using 1 e h(2) by (auto simp: de_layout_def d'_def)
      ultimately show ?thesis by blast
    next
      case True
      then have e: "Suc ?p div ce = Suc (?p div ce)" "?p mod ce = ce - 1"
        using P(1) by (auto simp: div_Suc mod_Suc split: if_splits)
      have lc: "length cs = Suc (Suc (?p div ce))" using P(5) e(1) by simp
      then obtain cs1 c where cs: "cs = cs1 @ [c]" by (cases cs rule: rev_cases) auto
      have lc1: "length cs1 = Suc (?p div ce)" using lc cs by simp
      have raw: "window s (xs @ [x]) (length cs1 * ce + i) = None" if "i < ce" for i
      proof -
        have "Suc ?p = length cs1 * ce" using True lc1 e(1) by (metis div_mult_mod_eq add.right_neutral)
        then show ?thesis by (intro window_None) simp
      qed
      have hold: "chunks_hold ty ce (de_heap d) (cs1 @ c # []) (window s (xs @ [x]))" using 1(9) cs by simp
      note fr = chunks_free [OF hold raw]
      have h1: "chunks_hold ty ce ((de_heap d)(c := None)) cs1 (window s (xs @ [x]))"
        by (rule chunks_cong [OF fr(2) [unfolded append_Nil2]]) auto
      have pc1: "?p div ce < length cs1" using lc1 by simp
      obtain h where h: "chunk_destroy ty (Some (cs1 ! (?p div ce))) (?p mod ce) ((de_heap d)(c := None)) = Some h"
          "chunks_hold ty ce h cs1 (window s xs)"
        using chunks_destroy [OF h1 pc1 live(2,1)] unfolding pos_chunk [OF P(1)] window_butlast by blast
      define d' where "d' = d\<lparr>de_heap := h, de_finish := pos_iter ce base cs1 ?p\<rparr>"
      have entry: "map_entry mp (it_node (de_finish d)) = Some (Some c)"
        using map_entry_links [OF 1(6), of "length cs1"] fin e(1) lc1 cs by (simp add: nth_append)
      have node: "set_node mp (it_node (de_finish d) - 1) (de_finish d) =
          Some ((de_finish d)\<lparr>it_node := base + ?p div ce, it_first := Some (cs1 ! (?p div ce))\<rparr>)"
        using set_node_links [OF 1(6), of "?p div ce"] fin e(1) lc cs pc1 by (simp add: nth_append)
      have "de_pop_back_aux ty ce d = Some d'"
        unfolding de_pop_back_aux_def 1(4) using entry fr(1) node fin e h(1)
        by (simp add: d'_def pos_iter_def)
      then have "de_pop_back ty ce d = Some d'" using True fin by (simp add: de_pop_back_def Let_def)
      moreover have "de_layout ty ce base cs1 s xs d'"
        using 1 h(2) lc1 cs e by (auto simp: de_layout_def d'_def de_links_def pos_iter_def nth_append)
      moreover have "cs1 = take (length cs1) cs" using cs by simp
      ultimately show ?thesis by metis
    qed
    with bk show ?thesis by blast
  qed
  then show "\<exists>d' k. de_pop_back ty ce d = Some d' \<and> de_layout ty ce base (take k cs) s xs d'"
    "de_back ce d = Some x" by blast+
qed

lemma div_next_chunk: "0 < ce \<Longrightarrow> (ce + n) div ce = Suc (n div ce)" "(ce + n) mod ce = n mod ce" for ce :: nat
  by (simp_all add: div_add_self1)

lemma de_push_front_aux_rep:
  assumes l: "de_layout ty ce base cs 0 xs d" and m: "fresh_mem mem"
  shows "\<exists>d' base'. (de_push_front_aux mem ty ce x d = Some (Inl Bad_alloc, d') \<and> de_layout ty ce base' cs 0 xs d') \<or>
    (\<exists>c. de_push_front_aux mem ty ce x d = Some (Inr (), d') \<and> de_layout ty ce base' (c # cs) (ce - 1) (x # xs) d')"
proof -
  note P = de_layout_pos [OF l]
  obtain d1 base1 where r: "(de_reserve_map_at_front mem d = Some (Inl Bad_alloc, d) \<and> d1 = d \<and> base1 = base) \<or>
      (de_reserve_map_at_front mem d = Some (Inr (), d1) \<and> 0 < base1)"
    and l1: "de_layout ty ce base1 cs 0 xs d1"
  proof (cases "it_node (de_start d) < 1")
    case True
    with de_reallocate_map_rep [OF l, of mem True] l that show thesis
      by (auto simp: de_reserve_map_at_front_def)
  next
    case False
    from l have "it_node (de_start d) = base" by (auto simp: de_layout_def)
    with False l that [of d base] show thesis by (simp add: de_reserve_map_at_front_def)
  qed
  show ?thesis
    using r
  proof (elim disjE conjE)
    assume "de_reserve_map_at_front mem d = Some (Inl Bad_alloc, d)"
    then have "de_push_front_aux mem ty ce x d = Some (Inl Bad_alloc, d)" by (simp add: de_push_front_aux_def)
    with l show ?thesis by blast
  next
    assume res: "de_reserve_map_at_front mem d = Some (Inr (), d1)" and room: "0 < base1"
    from l1 show ?thesis
    proof (cases rule: de_layoutD)
      case (1 mp)
      have node: "it_node (de_start d1) = base1" using 1(7) by simp
      show ?thesis
      proof (cases rule: alloc_chunkE [OF m, of ce "de_heap d1", case_names None Some])
        case None
        then have "de_push_front_aux mem ty ce x d = Some (Inl Bad_alloc, d1)"
          using res room node by (simp add: de_push_front_aux_def de_new_chunk_at_def)
        with l1 show ?thesis by blast
      next
        case (Some c)
        let ?h = "(de_heap d1)(c \<mapsto> replicate ce None)" and ?cs = "c # cs"
        let ?mp = "mp[base1 - 1 := Some c]"
        define d2 where "d2 = d1\<lparr>de_map := Some ?mp, de_heap := ?h\<rparr>"
        have "base1 + length cs \<le> length mp" using 1(6) by (simp add: de_links_def)
        then have inb: "base1 - 1 < length mp" using P(4) room by linarith
        have new: "de_new_chunk_at mem ce (base1 - 1) d1 = Some (Inr (), d2)"
          using Some(1) inb 1(4) by (simp add: de_new_chunk_at_def d2_def)
        have links: "de_links (base1 - 1) ?cs ?mp"
          unfolding de_links_def
        proof (intro conjI allI impI)
          show "length ?mp < 2 ^ 61" "base1 - 1 + length ?cs \<le> length ?mp" using 1(6) room by (simp_all add: de_links_def)
          fix k assume k: "k < length ?cs"
          show "?mp ! (base1 - 1 + k) = Some (?cs ! k)"
          proof (cases k)
            case 0
            then show ?thesis using inb by simp
          next
            case (Suc j)
            then have "base1 - 1 + k = base1 + j" "j < length cs" using k room by auto
            then show ?thesis using 1(6) Suc room by (simp add: de_links_def)
          qed
        qed
        have h2: "chunks_hold ty ce ?h ?cs (window ce xs)"
          using chunks_new_front [OF 1(9) Some(2,3)] unfolding window_shift by simp
        have "0 < length ?cs" "ce - 1 < ce" "window ce xs (0 * ce + (ce - 1)) = None"
          using P(1) by (simp_all add: window_None)
        from chunks_construct [OF h2 this, of x] obtain h where
          h: "chunk_construct ty (Some c) (ce - 1) x ?h = Some h"
            "chunks_hold ty ce h ?cs ((window ce xs)(ce - 1 := Some x))" by auto
        have w: "(window ce xs)(ce - 1 := Some x) = window (ce - 1) (x # xs)"
          using window_cons [of "ce - 1" xs x] P(1) by simp
        define d3 where "d3 = d2\<lparr>de_heap := h, de_start := pos_iter ce (base1 - 1) ?cs (ce - 1)\<rparr>"
        have "set_node ?mp (base1 - 1) (de_start d2) =
            Some ((de_start d2)\<lparr>it_node := base1 - 1, it_first := Some c\<rparr>)"
          using set_node_links [OF links, of 0] by simp
        then have "de_push_front_aux mem ty ce x d = Some (Inr (), d3)"
          using res new h(1) room node P(1)
          by (simp add: de_push_front_aux_def d3_def pos_iter_def) (simp add: d2_def 1(7))
        moreover have "pos_iter ce base1 cs (length xs) = pos_iter ce (base1 - 1) ?cs (ce + length xs)"
          using room P(1) by (simp add: pos_iter_def div_next_chunk)
        moreover have e: "ce - 1 + length (x # xs) = ce + length xs" using P(1) by simp
        have "de_layout ty ce (base1 - 1) ?cs (ce - 1) (x # xs) d3"
          unfolding de_layout_def e
        proof (intro conjI)
          show "\<exists>mp. de_map d3 = Some mp \<and> de_map_size d3 = length mp \<and> de_links (base1 - 1) ?cs mp"
            using links 1(5) by (simp add: d3_def d2_def)
          show "de_finish d3 = pos_iter ce (base1 - 1) ?cs (ce + length xs)"
            using 1(8) \<open>pos_iter ce base1 cs (length xs) = _\<close> by (simp add: d3_def d2_def)
          show "chunks_hold ty ce (de_heap d3) ?cs (window (ce - 1) (x # xs))"
            using h(2) w by (simp add: d3_def)
          show "Suc ((ce + length xs) div ce) = length ?cs" using 1(3) P(1) by (simp add: div_next_chunk)
        qed (use P(1) in \<open>simp_all add: d3_def\<close>)
        ultimately show ?thesis by blast
      qed
    qed
  qed
qed

lemma de_push_front_rep:
  assumes l: "de_layout ty ce base cs s xs d" and m: "fresh_mem mem"
  shows "\<exists>d' base'. (de_push_front mem ty ce x d = Some (Inl Bad_alloc, d') \<and> de_layout ty ce base' cs s xs d') \<or>
    (\<exists>cs' s'. de_push_front mem ty ce x d = Some (Inr (), d') \<and> de_layout ty ce base' (cs' @ cs) s' (x # xs) d' \<and>
       Suc s' = length cs' * ce + s)"
proof (cases s)
  case 0
  then have "de_push_front mem ty ce x d = de_push_front_aux mem ty ce x d"
    using l by (auto simp: de_push_front_def de_layout_def)
  moreover have "Suc (ce - 1) = length [c] * ce + s" for c :: nat
    using 0 de_layout_pos(1) [OF l] by simp
  ultimately show ?thesis
    using de_push_front_aux_rep [OF l [unfolded 0] m, of x] 0 by (metis append_Cons append_Nil)
next
  case (Suc s')
  note P = de_layout_pos [OF l]
  have s': "s' < ce" "s' div ce = 0" "s' mod ce = s'" "s mod ce = s" "s div ce = 0" using Suc P(3) by simp_all
  from l show ?thesis
  proof (cases rule: de_layoutD)
    case (1 mp)
    have "window s xs (0 * ce + s') = None" using Suc by (simp add: window_None)
    from chunks_construct [OF 1(9) P(4) s'(1) this, of x] obtain h where
      h: "chunk_construct ty (Some (cs ! 0)) s' x (de_heap d) = Some h" "chunks_hold ty ce h cs (window s' (x # xs))"
      using window_cons [of s' xs x] Suc by auto
    define d' where "d' = d\<lparr>de_heap := h, de_start := pos_iter ce base cs s'\<rparr>"
    have "de_push_front mem ty ce x d = Some (Inr (), d')"
      using 1(7) s' h(1) Suc by (simp add: de_push_front_def d'_def pos_iter_def)
    moreover have "de_layout ty ce base ([] @ cs) s' (x # xs) d'"
      using 1 h(2) s'(1) Suc by (auto simp: de_layout_def d'_def)
    moreover have "Suc s' = length [] * ce + s" using Suc by simp
    ultimately show ?thesis by blast
  qed
qed

lemma de_pop_front_rep:
  assumes l: "de_layout ty ce base cs s (x # xs) d"
  shows "\<exists>d' base' j s'. de_pop_front ty ce d = Some d' \<and> de_layout ty ce base' (drop j cs) s' xs d' \<and> Suc s = j * ce + s'"
    "de_front d = Some x"
proof -
  note P = de_layout_pos [OF l]
  have s: "s div ce = 0" "s mod ce = s" using P(3) by simp_all
  have live: "window s (x # xs) (0 * ce + s) = Some x" by (simp add: window_def elem_at_def)
  have "(\<exists>d' base' j s'. de_pop_front ty ce d = Some d' \<and> de_layout ty ce base' (drop j cs) s' xs d' \<and>
      Suc s = j * ce + s') \<and> de_front d = Some x"
    using l
  proof (cases rule: de_layoutD)
    case (1 mp)
    have front: "de_front d = Some x"
      using chunks_read [OF 1(9) P(4,3) live] 1(7) s by (simp add: de_front_def iter_deref_def)
    obtain h where h: "chunk_destroy ty (Some (cs ! 0)) s (de_heap d) = Some h" "chunks_hold ty ce h cs (window (Suc s) xs)"
      using chunks_destroy [OF 1(9) P(4,3) live] window_tl [of s x xs] by auto
    have "\<exists>d' base' j s'. de_pop_front ty ce d = Some d' \<and> de_layout ty ce base' (drop j cs) s' xs d' \<and>
        Suc s = j * ce + s'"
    proof (cases "s = ce - 1")
      case False
      then have s1: "Suc s < ce" using P(3) by linarith
      define d' where "d' = d\<lparr>de_heap := h, de_start := pos_iter ce base cs (Suc s)\<rparr>"
      have "de_pop_front ty ce d = Some d'"
        using False 1(7) s s1 h(1) by (simp add: de_pop_front_def d'_def pos_iter_def)
      moreover have "de_layout ty ce base (drop 0 cs) (Suc s) xs d'"
        using 1 h(2) s1 by (auto simp: de_layout_def d'_def)
      moreover have "Suc s = 0 * ce + Suc s" by simp
      ultimately show ?thesis by blast
    next
      case True
      then have ss: "Suc s = ce" using P(1) by simp
      obtain c cs1 where cs: "cs = c # cs1" using P(4) by (cases cs) auto
      have sl: "s + length (x # xs) = ce + length xs" using ss by simp
      have dv: "(ce + length xs) div ce = Suc (length xs div ce)" "(ce + length xs) mod ce = length xs mod ce"
        using div_next_chunk [of ce "length xs"] P(1) by simp_all
      have len: "length cs1 = Suc (length xs div ce)" using 1(3) cs unfolding sl dv by simp
      have hold: "chunks_hold ty ce h ([] @ c # cs1) (window ce xs)" using h(2) cs ss by simp
      have raw: "window ce xs (length ([] :: nat list) * ce + i) = None" if "i < ce" for i
        using that by (simp add: window_None)
      note fr = chunks_free [OF hold raw]
      have "(\<lambda>q. if q < length ([] :: nat list) * ce then window ce xs q else window ce xs (q + ce)) = window 0 xs"
        by (auto simp: window_def fun_eq_iff)
      with fr(2) have h2: "chunks_hold ty ce (h(c := None)) cs1 (window 0 xs)" by simp
      define d' where "d' = d\<lparr>de_heap := h(c := None), de_start := pos_iter ce (Suc base) cs1 0\<rparr>"
      have entry: "map_entry mp base = Some (Some c)" using map_entry_links [OF 1(6), of 0] cs by simp
      have node: "set_node mp (base + 1) (de_start d) = Some ((de_start d)\<lparr>it_node := base + 1, it_first := Some (cs1 ! 0)\<rparr>)"
        using set_node_links [OF 1(6), of 1] cs len by simp
      have "de_pop_front_aux ty d = Some d'"
        using entry node fr(1) h(1) 1(4,7) s cs by (simp add: de_pop_front_aux_def d'_def pos_iter_def)
      then have "de_pop_front ty ce d = Some d'" using True 1(7) s by (simp add: de_pop_front_def Let_def)
      moreover have "de_finish d = pos_iter ce (Suc base) cs1 (length xs)"
        unfolding 1(8) sl using dv cs by (simp add: pos_iter_def)
      then have "de_layout ty ce (Suc base) (drop 1 cs) 0 xs d'"
        using 1 h2 cs len P(1) by (auto simp: de_layout_def d'_def de_links_def)
      moreover have "Suc s = 1 * ce + 0" using ss by simp
      ultimately show ?thesis by blast
    qed
    with front show ?thesis by blast
  qed
  then show "\<exists>d' base' j s'. de_pop_front ty ce d = Some d' \<and> de_layout ty ce base' (drop j cs) s' xs d' \<and> Suc s = j * ce + s'"
    "de_front d = Some x" by blast+
qed

section \<open>Construction\<close>

text \<open>A deque whose places for \<open>n\<close> elements have been allocated but not constructed.\<close>

definition de_blank :: "'a elem_type \<Rightarrow> nat \<Rightarrow> nat \<Rightarrow> nat list \<Rightarrow> nat \<Rightarrow> 'a deque \<Rightarrow> bool" where
  "de_blank ty ce base cs n d \<longleftrightarrow> 0 < ce \<and> Suc (n div ce) = length cs \<and>
     (\<exists>mp. de_map d = Some mp \<and> de_map_size d = length mp \<and> de_links base cs mp) \<and>
     de_start d = pos_iter ce base cs 0 \<and> de_finish d = pos_iter ce base cs n \<and>
     chunks_hold ty ce (de_heap d) cs (window 0 [])"

lemma window_Nil [simp]: "window s [] = (\<lambda>_. None)"
  by (auto simp: window_def fun_eq_iff)

lemma de_blank_fill:
  assumes "de_blank ty ce base cs (length xs) d" "chunks_hold ty ce h cs (window 0 xs)"
  shows "de_layout ty ce base cs 0 xs (d\<lparr>de_heap := h\<rparr>)"
  using assms by (auto simp: de_blank_def de_layout_def)

lemma de_alloc_nodes_rep:
  assumes "fresh_mem mem" "chunks_hold ty ce h cs (\<lambda>_. None)" "de_links base cs mp" "base + length cs + k \<le> length mp"
  shows "\<exists>r mp' h'. de_alloc_nodes mem ce [base + length cs..<base + length cs + k] (mp, h) = Some (r, mp', h') \<and>
    (r = Inl Bad_alloc \<or> (r = Inr () \<and> (\<exists>cs'. length cs' = k \<and> length mp' = length mp \<and>
       chunks_hold ty ce h' (cs @ cs') (\<lambda>_. None) \<and> de_links base (cs @ cs') mp')))"
  using assms
proof (induction k arbitrary: cs mp h)
  case 0
  then show ?case by simp
next
  case (Suc k)
  let ?n = "base + length cs"
  have upt: "[?n..<?n + Suc k] = ?n # [Suc ?n..<Suc ?n + k]" by (simp add: upt_conv_Cons)
  show ?case
  proof (cases rule: alloc_chunkE [OF Suc.prems(1), of ce h, case_names None Some])
    case None
    then show ?thesis unfolding upt by simp
  next
    case (Some c)
    let ?mp = "mp[?n := Some c]" and ?h = "h(c \<mapsto> replicate ce None)"
    have "chunks_hold ty ce ?h (cs @ [c]) (\<lambda>_. None)"
      using Suc.prems(2) Some(2,3) by (intro chunks_new_back) simp_all
    moreover have "de_links base (cs @ [c]) ?mp"
      using Suc.prems(3,4) by (auto simp: de_links_def nth_append nth_list_update less_Suc_eq)
    moreover have "base + length (cs @ [c]) + k \<le> length ?mp" using Suc.prems(4) by simp
    ultimately obtain r mp' h' where IH:
      "de_alloc_nodes mem ce [base + length (cs @ [c])..<base + length (cs @ [c]) + k] (?mp, ?h) = Some (r, mp', h')"
      "r = Inl Bad_alloc \<or> (r = Inr () \<and> (\<exists>cs'. length cs' = k \<and> length mp' = length ?mp \<and>
         chunks_hold ty ce h' ((cs @ [c]) @ cs') (\<lambda>_. None) \<and> de_links base ((cs @ [c]) @ cs') mp'))"
      using Suc.IH [OF Suc.prems(1)] by blast
    have "?n < length mp" using Suc.prems(4) by simp
    then have "de_alloc_nodes mem ce [?n..<?n + Suc k] (mp, h) = Some (r, mp', h')"
      unfolding upt using Some(1) IH(1) by simp
    moreover have "r = Inl Bad_alloc \<or> (r = Inr () \<and> (\<exists>cs'. length cs' = Suc k \<and> length mp' = length mp \<and>
         chunks_hold ty ce h' (cs @ cs') (\<lambda>_. None) \<and> de_links base (cs @ cs') mp'))"
      using IH(2)
    proof (elim disjE conjE exE)
      fix cs'
      assume "r = Inr ()" "length cs' = k" "length mp' = length ?mp"
        "chunks_hold ty ce h' ((cs @ [c]) @ cs') (\<lambda>_. None)" "de_links base ((cs @ [c]) @ cs') mp'"
      then show ?thesis by (intro disjI2 conjI exI [of _ "c # cs'"]) simp_all
    qed simp
    ultimately show ?thesis by blast
  qed
qed

text \<open>A count whose map takes less than \<open>2^64\<close> bytes.\<close>

definition de_count_fits :: "nat \<Rightarrow> usize \<Rightarrow> bool" where
  "de_count_fits ce n \<longleftrightarrow> unat n div ce + 3 < 2 ^ 61"

lemma de_init_map_sizes:
  assumes "de_count_fits ce n" "k = unat n div ce + 1" "ms = max 8 (k + 2)"
  shows "size_wrap k = k" "size_wrap (k + 2) = k + 2" "size_wrap (ms * 8) div 8 = ms" "size_minus ms k = ms - k" "ms < 2 ^ 61"
proof -
  have k: "k + 2 < 2 ^ 61" using assms(1,2) by (simp add: de_count_fits_def)
  then show ms: "ms < 2 ^ 61" using assms(3) by simp
  then have "size_wrap (ms * 8) = ms * 8" by (intro size_wrap_small) simp
  then show "size_wrap (ms * 8) div 8 = ms" by simp
  show "size_wrap k = k" "size_wrap (k + 2) = k + 2" by (intro size_wrap_small; use k in simp)+
  show "size_minus ms k = ms - k" by (rule size_minus_small) (use ms assms(3) in auto)
qed

text \<open>The constructor after the map has been allocated.\<close>

lemma de_init_map_unfold:
  assumes "de_count_fits ce n" "fst mem" "k = unat n div ce + 1" "ms = max 8 (k + 2)" "ns = (ms - k) div 2"
  shows "de_init_map mem ce n = do {
      (r, mp, h) \<leftarrow> de_alloc_nodes mem ce [ns..<ns + k] (replicate ms None, Map.empty);
      let d = \<lparr>de_map = Some mp, de_map_size = ms, de_start = null_iter, de_finish = null_iter, de_heap = h\<rparr>;
      case r of
         Inl e \<Rightarrow> Some (Inl e, d)
       | Inr _ \<Rightarrow> do {
           st \<leftarrow> set_node mp ns null_iter;
           fi \<leftarrow> set_node mp (ns + k - 1) null_iter;
           Some (Inr (), d\<lparr>de_start := st\<lparr>it_cur := 0\<rparr>, de_finish := fi\<lparr>it_cur := unat n mod ce\<rparr>\<rparr>)
         }
    }"
  unfolding de_init_map_def Let_def assms(3) [symmetric] de_init_map_sizes(1,2) [OF assms(1,3,4)] assms(4) [symmetric]
    alloc_map_def de_init_map_sizes(3,4) [OF assms(1,3,4)] assms(5) [symmetric]
  using assms(2) by simp

lemma de_init_map_rep:
  fixes ty :: "'a elem_type"
  assumes "0 < ce" "fresh_mem mem" "de_count_fits ce n"
  shows "(\<exists>d :: 'a deque. de_init_map mem ce n = Some (Inl Bad_alloc, d)) \<or>
    (\<exists>d base cs. de_init_map mem ce n = Some (Inr (), d) \<and> de_blank ty ce base cs (unat n) d)"
proof -
  define k where "k = unat n div ce + 1"
  define ms where "ms = max 8 (k + 2)"
  define ns where "ns = (ms - k) div 2"
  note sizes = de_init_map_sizes [OF assms(3) k_def ms_def]
  have fit: "ns + k \<le> ms" by (auto simp: ns_def ms_def)
  show ?thesis
  proof (cases "fst mem")
    case False
    then show ?thesis by (simp add: de_init_map_def alloc_map_def Let_def)
  next
    case True
    have "chunks_hold ty ce (Map.empty :: 'a chunk_heap) [] (\<lambda>_. None)" by (simp add: chunks_hold_def)
    moreover have "de_links ns [] (replicate ms None)" using fit sizes(5) by (simp add: de_links_def)
    ultimately obtain r mp h where a: "de_alloc_nodes mem ce [ns..<ns + k] (replicate ms None, Map.empty) = Some (r, mp, h)"
        "r = Inl Bad_alloc \<or> (r = Inr () \<and> (\<exists>cs. length cs = k \<and> length mp = ms \<and>
           chunks_hold ty ce h cs (\<lambda>_. None) \<and> de_links ns cs mp))"
      using de_alloc_nodes_rep [OF assms(2), of ty ce Map.empty "[]" ns "replicate ms None" k] fit by auto
    define d0 where "d0 = \<lparr>de_map = Some mp, de_map_size = ms, de_start = null_iter, de_finish = null_iter, de_heap = h\<rparr>"
    note unfold = de_init_map_unfold [where 'a = 'a, OF assms(3) True k_def ms_def ns_def, unfolded a(1) Let_def, simplified, folded d0_def]
    show ?thesis
      using a(2)
    proof (elim disjE conjE exE)
      fix cs
      assume cs: "r = Inr ()" "length cs = k" "length mp = ms" "chunks_hold ty ce h cs (\<lambda>_. None)" "de_links ns cs mp"
      define d where "d = d0\<lparr>de_start := pos_iter ce ns cs 0, de_finish := pos_iter ce ns cs (unat n)\<rparr>"
      have "set_node mp ns null_iter = Some (null_iter\<lparr>it_node := ns, it_first := Some (cs ! 0)\<rparr>)"
        "set_node mp (ns + k - 1) null_iter = Some (null_iter\<lparr>it_node := ns + unat n div ce, it_first := Some (cs ! (unat n div ce))\<rparr>)"
        using set_node_links [OF cs(5), of 0] set_node_links [OF cs(5), of "unat n div ce"] cs(2) by (simp_all add: k_def)
      then have "de_init_map mem ce n = Some (Inr (), d)"
        using unfold cs(1) by (simp add: d_def d0_def pos_iter_def null_iter_def)
      moreover have "de_blank ty ce ns cs (unat n) d"
        using cs assms(1) by (auto simp: de_blank_def d_def d0_def k_def)
      ultimately show ?thesis by blast
    qed (simp add: unfold d0_def)
  qed
qed

lemma de_construct_list_rep:
  assumes "de_links base cs mp" "0 < ce" "chunks_hold ty ce h cs (window 0 ys)"
    "(length ys + length vs) div ce < length cs"
  shows "\<exists>h'. de_construct_list ty ce mp vs (pos_iter ce base cs (length ys), h) =
      Some (pos_iter ce base cs (length ys + length vs), h') \<and> chunks_hold ty ce h' cs (window 0 (ys @ vs))"
  using assms(3,4)
proof (induction vs arbitrary: ys h)
  case Nil
  then show ?case by (simp add: de_construct_list_def)
next
  case (Cons v vs)
  let ?p = "length ys"
  have "?p div ce \<le> (?p + length (v # vs)) div ce" "Suc ?p div ce \<le> (?p + length (v # vs)) div ce"
    by (intro div_le_mono; simp)+
  then have b: "?p div ce < length cs" "Suc ?p div ce < length cs"
    using Cons.prems(2) by (auto intro: le_less_trans)
  have "?p mod ce < ce" "window 0 ys (?p div ce * ce + ?p mod ce) = None"
    using assms(2) by (simp_all add: window_None)
  from chunks_construct [OF Cons.prems(1) b(1) this, of v] obtain h1 where
    h1: "chunk_construct ty (Some (cs ! (?p div ce))) (?p mod ce) v h = Some h1" "chunks_hold ty ce h1 cs (window 0 (ys @ [v]))"
    unfolding pos_chunk [OF assms(2)] using window_snoc [of 0 ys v] by auto
  have inc: "iter_inc ce mp (pos_iter ce base cs ?p) = Some (pos_iter ce base cs (length (ys @ [v])))"
    using iter_inc_pos [OF assms(1,2) b(2)] by simp
  have "(length (ys @ [v]) + length vs) div ce < length cs" using Cons.prems(2) by simp
  from Cons.IH [OF h1(2) this] h1(1) inc show ?case by (simp add: de_construct_list_def)
qed

lemma de_from_list_rep:
  assumes "0 < ce" "fresh_mem mem" "length il < 2 ^ 64" "de_count_fits ce (of_nat (length il))"
  shows "(\<exists>d. de_from_list mem ty ce il = Some (Inl Bad_alloc, d)) \<or>
    (\<exists>d. de_from_list mem ty ce il = Some (Inr (), d) \<and> de_rep ty ce il d)"
  using de_init_map_rep [OF assms(1,2,4), of ty]
proof (elim disjE exE conjE)
  fix d base cs
  assume d: "de_init_map mem ce (of_nat (length il)) = Some (Inr (), d)" and "de_blank ty ce base cs (unat (of_nat (length il) :: usize)) d"
  then have b: "de_blank ty ce base cs (length il) d" using assms(3) by (simp add: unat_of_nat_usize)
  from b obtain mp where mp: "de_map d = Some mp" "de_links base cs mp" "Suc (length il div ce) = length cs"
      "de_start d = pos_iter ce base cs 0" "chunks_hold ty ce (de_heap d) cs (window 0 [])"
    by (auto simp: de_blank_def)
  obtain h where "de_construct_list ty ce mp il (pos_iter ce base cs 0, de_heap d) =
        Some (pos_iter ce base cs (length il), h)" "chunks_hold ty ce h cs (window 0 il)"
    using de_construct_list_rep [OF mp(2) assms(1) mp(5), of il] mp(3) by auto
  then show ?thesis
    using d mp de_blank_fill [OF b] by (auto simp: de_from_list_def de_rep_def)
qed (auto simp: de_from_list_def)

lemma de_value_fill_rep:
  assumes b: "de_blank ty ce base cs n d"
  shows "\<exists>d'. de_value_fill ty ce x d = Some d' \<and> de_layout ty ce base cs 0 (replicate n x) d'"
proof -
  obtain mp where mp: "0 < ce" "de_map d = Some mp" "de_links base cs mp" "Suc (n div ce) = length cs"
      "de_start d = pos_iter ce base cs 0" "de_finish d = pos_iter ce base cs n"
      "chunks_hold ty ce (de_heap d) cs (window 0 [])"
    using b by (auto simp: de_blank_def)
  let ?W = "\<lambda>k h. chunks_hold ty ce h cs (window 0 (replicate k x))"
  have inner: "\<exists>h'. run_each (\<lambda>i. chunk_construct ty (Some (cs ! j)) i x) [0..<m] h = Some h' \<and> ?W (j * ce + m) h'"
    if "j < length cs" "m \<le> ce" "?W (j * ce) h" for j m h
  proof (rule run_each_upt [where P = "\<lambda>i. ?W (j * ce + i)"])
    fix i g
    assume i: "0 \<le> i" "i < m" and g: "?W (j * ce + i) g"
    have "i < ce" "window 0 (replicate (j * ce + i) x) (j * ce + i) = None"
      using i that(2) by (simp_all add: window_None)
    from chunks_construct [OF g that(1) this, of x] show
      "\<exists>g'. chunk_construct ty (Some (cs ! j)) i x g = Some g' \<and> ?W (j * ce + Suc i) g'"
      using window_snoc [of 0 "replicate (j * ce + i) x" x] by (simp add: replicate_append_same [symmetric])
  qed (use that in simp_all)
  let ?body = "\<lambda>n h. do { p \<leftarrow> map_entry mp n; run_each (\<lambda>i. chunk_construct ty p i x) [0..<ce] h }"
  have "\<exists>h. run_each ?body [base..<base + n div ce] (de_heap d) = Some h \<and> ?W ((base + n div ce - base) * ce) h"
  proof (rule run_each_upt [where P = "\<lambda>i. ?W ((i - base) * ce)"])
    fix i g
    assume i: "base \<le> i" "i < base + n div ce" and g: "?W ((i - base) * ce) g"
    obtain j where j: "i = base + j" "j < n div ce" using i by (auto simp: le_iff_add)
    have jl: "j < length cs" using j(2) mp(4) by simp
    have "?W (j * ce) g" using g j(1) by simp
    from inner [OF jl order_refl this] obtain g' where
      "run_each (\<lambda>i. chunk_construct ty (Some (cs ! j)) i x) [0..<ce] g = Some g'" "?W (j * ce + ce) g'" by blast
    then show "\<exists>g'. ?body i g = Some g' \<and> ?W ((Suc i - base) * ce) g'"
      using map_entry_links [OF mp(3) jl] j(1) by (simp add: add.commute)
  qed (use mp in simp_all)
  then obtain h1 where h1: "run_each ?body [base..<base + n div ce] (de_heap d) = Some h1" "?W (n div ce * ce) h1"
    by auto
  have "n div ce < length cs" "n mod ce \<le> ce" using mp(1,4) by (simp_all add: less_imp_le)
  from inner [OF this h1(2)] obtain h2 where
    h2: "run_each (\<lambda>i. chunk_construct ty (Some (cs ! (n div ce))) i x) [0..<n mod ce] h1 = Some h2"
      "chunks_hold ty ce h2 cs (window 0 (replicate n x))" by auto
  have "de_value_fill ty ce x d = Some (d\<lparr>de_heap := h2\<rparr>)"
    using mp h1(1) h2(1) by (simp add: de_value_fill_def)
  moreover have "de_layout ty ce base cs 0 (replicate n x) (d\<lparr>de_heap := h2\<rparr>)"
    using de_blank_fill [of ty ce base cs "replicate n x" d h2] b h2(2) by simp
  ultimately show ?thesis by blast
qed

text \<open>A deque that exists has a number of elements that its copy can be asked for.\<close>

lemma de_layout_count:
  assumes "de_layout ty ce base cs s xs d"
  shows "unat (of_nat (length xs) :: usize) = length xs" "de_count_fits ce (of_nat (length xs))"
proof -
  note P = de_layout_pos [OF assms]
  have h: "chunks_hold ty ce (de_heap d) cs (window s xs)" using assms by (simp add: de_layout_def)
  note b = chunks_bound [OF h]
  have "s + length xs < length cs * ce" using P(1,2) by (simp add: div_less_iff_less_mult)
  then have "length xs < 2 ^ 64" using b(2) by simp
  then show u: "unat (of_nat (length xs) :: usize) = length xs" by (rule unat_of_nat_usize)
  have "length xs div ce \<le> (s + length xs) div ce" by (rule div_le_mono) simp
  then have "length xs div ce < 2 ^ 55" using P(2) b(1) by simp
  then show "de_count_fits ce (of_nat (length xs))" by (simp add: de_count_fits_def u)
qed

text \<open>One round of the loop of \<open>copy_from\<close>: the element is read, constructed, both iterators move on.\<close>

lemma de_copy_step:
  assumes ce: "0 < ce" and i: "i < length xs"
    and src: "de_links base' cs' smp" "chunks_hold ty ce hs cs' (window s xs)" "(s + length xs) div ce < length cs'"
    and dst: "de_links base cs mp" "chunks_hold ty ce h cs (window 0 (take i xs))" "length xs div ce < length cs"
  shows "iter_deref hs (pos_iter ce base' cs' (s + i)) = Some (xs ! i)"
    "\<exists>h'. chunk_construct ty (it_first (pos_iter ce base cs i)) (it_cur (pos_iter ce base cs i)) (xs ! i) h = Some h' \<and>
       chunks_hold ty ce h' cs (window 0 (take (Suc i) xs))"
    "iter_inc ce smp (pos_iter ce base' cs' (s + i)) = Some (pos_iter ce base' cs' (s + Suc i))"
    "iter_inc ce mp (pos_iter ce base cs i) = Some (pos_iter ce base cs (Suc i))"
proof -
  have "(s + i) div ce \<le> (s + length xs) div ce" "Suc (s + i) div ce \<le> (s + length xs) div ce"
    "i div ce \<le> length xs div ce" "Suc i div ce \<le> length xs div ce"
    using i by (intro div_le_mono; simp)+
  then have bd: "(s + i) div ce < length cs'" "Suc (s + i) div ce < length cs'"
    "i div ce < length cs" "Suc i div ce < length cs"
    using src(3) dst(3) by linarith+
  show "iter_deref hs (pos_iter ce base' cs' (s + i)) = Some (xs ! i)"
    using chunks_read [OF src(2) bd(1), of "(s + i) mod ce" "xs ! i"] ce i by (simp add: iter_deref_def)
  have "i mod ce < ce" "window 0 (take i xs) (i div ce * ce + i mod ce) = None"
    using ce i by (simp_all add: window_None)
  from chunks_construct [OF dst(2) bd(3) this, of "xs ! i"]
  show "\<exists>h'. chunk_construct ty (it_first (pos_iter ce base cs i)) (it_cur (pos_iter ce base cs i)) (xs ! i) h = Some h' \<and>
      chunks_hold ty ce h' cs (window 0 (take (Suc i) xs))"
    unfolding pos_chunk [OF ce] using window_snoc [of 0 "take i xs" "xs ! i"] i
    by (auto simp: take_Suc_conv_app_nth min_absorb2)
  show "iter_inc ce smp (pos_iter ce base' cs' (s + i)) = Some (pos_iter ce base' cs' (s + Suc i))"
    "iter_inc ce mp (pos_iter ce base cs i) = Some (pos_iter ce base cs (Suc i))"
    using iter_inc_pos [OF src(1) ce bd(2)] iter_inc_pos [OF dst(1) ce bd(4)] by simp_all
qed

lemma de_copy_rep:
  assumes r: "de_rep ty ce xs rhs" and m: "fresh_mem mem"
  shows "(\<exists>d. de_copy mem ty ce rhs = Some (Inl Bad_alloc, d)) \<or>
    (\<exists>d. de_copy mem ty ce rhs = Some (Inr (), d) \<and> de_rep ty ce xs d)"
proof -
  obtain base' cs' s where l: "de_layout ty ce base' cs' s xs rhs" using r by (auto simp: de_rep_def)
  note P = de_layout_pos [OF l] and sz = de_layout_size [OF l] and count = de_layout_count [OF l]
  from l obtain smp where R: "de_map rhs = Some smp" "de_links base' cs' smp" "de_start rhs = pos_iter ce base' cs' s"
      "chunks_hold ty ce (de_heap rhs) cs' (window s xs)" by (auto simp: de_layout_def)
  show ?thesis
    using de_init_map_rep [OF P(1) m count(2), of ty]
  proof (elim disjE exE conjE)
    fix d base cs
    assume d: "de_init_map mem ce (of_nat (length xs)) = Some (Inr (), d)"
      and "de_blank ty ce base cs (unat (of_nat (length xs) :: usize)) d"
    then have b: "de_blank ty ce base cs (length xs) d" using count(1) by simp
    then obtain mp where mp: "de_map d = Some mp" "de_links base cs mp" "Suc (length xs div ce) = length cs"
        "de_start d = pos_iter ce base cs 0" "chunks_hold ty ce (de_heap d) cs (window 0 [])"
      by (auto simp: de_blank_def)
    let ?body = "\<lambda>_ (src, dst, h). do {
              x \<leftarrow> iter_deref (de_heap rhs) src;
              h' \<leftarrow> chunk_construct ty (it_first dst) (it_cur dst) x h;
              smp \<leftarrow> de_map rhs;
              src' \<leftarrow> iter_inc ce smp src;
              dst' \<leftarrow> iter_inc ce mp dst;
              Some (src', dst', h')
            }"
    let ?P = "\<lambda>i st. \<exists>h. st = (pos_iter ce base' cs' (s + i), pos_iter ce base cs i, h) \<and>
        chunks_hold ty ce h cs (window 0 (take i xs))"
    have "\<exists>st. run_each ?body [0..<length xs] (de_start rhs, de_start d, de_heap d) = Some st \<and> ?P (length xs) st"
    proof (rule run_each_upt [where P = ?P])
      show "?P 0 (de_start rhs, de_start d, de_heap d)" using R(3) mp(4,5) by simp
      fix i st
      assume i: "0 \<le> i" "i < length xs" and st: "?P i st"
      then obtain h where h: "st = (pos_iter ce base' cs' (s + i), pos_iter ce base cs i, h)"
        "chunks_hold ty ce h cs (window 0 (take i xs))" by blast
      note step = de_copy_step [OF P(1) i(2) R(2,4) _ mp(2) h(2)]
      show "\<exists>st'. ?body i st = Some st' \<and> ?P (Suc i) st'"
        using step P(2) mp(3) R(1) h(1) by fastforce
    qed simp
    then obtain a b' h where "run_each ?body [0..<length xs] (de_start rhs, de_start d, de_heap d) = Some (a, b', h)"
        "chunks_hold ty ce h cs (window 0 xs)" by auto
    then show ?thesis
      using d mp(1) sz de_blank_fill [OF b] by (auto simp: de_copy_def de_copy_from_def de_rep_def)
  next
    fix d :: "'a deque"
    assume "de_init_map mem ce (of_nat (length xs)) = Some (Inl Bad_alloc, d)"
    then show ?thesis using sz by (simp add: de_copy_def de_copy_from_def)
  qed
qed

section \<open>Clearing, tearing down, comparing\<close>

lemma window_live: "s \<le> q \<Longrightarrow> q < s + length xs \<Longrightarrow> window s xs q \<noteq> None"
  by (auto simp: window_def elem_at_def)

lemma de_clear_rep:
  assumes l: "de_layout ty ce base cs s xs d"
  shows "\<exists>d'. de_clear ty ce d = Some d' \<and> de_layout ty ce base [cs ! 0] 0 [] d'"
  using l
proof (cases rule: de_layoutD)
  case (1 mp)
  note P = de_layout_pos [OF l]
  let ?f = "(s + length xs) mod ce" and ?k = "(s + length xs) div ce" and ?F = "window s xs"
  have lk: "length cs = Suc ?k" using P(5) by simp
  have pos: "s + length xs = ?k * ce + ?f" by simp
  have fc: "?f < ce" using P(1) by simp
  have st: "it_node (de_start d) = base" "it_first (de_start d) = Some (cs ! 0)" "it_cur (de_start d) = s"
    and fi: "it_node (de_finish d) = base + ?k" "it_first (de_finish d) = Some (cs ! ?k)" "it_cur (de_finish d) = ?f"
    using 1(7,8) P(3) by simp_all
  have node: "set_node mp base (de_finish d) = Some ((de_finish d)\<lparr>it_node := base, it_first := Some (cs ! 0)\<rparr>)"
    using set_node_links [OF 1(6), of 0] P(4) by simp
  have "base + length cs \<le> length mp" using 1(6) by (simp add: de_links_def)
  with P(4) have "Suc base \<le> length mp" by linarith
  moreover have "mp ! base = Some (cs ! 0)" using 1(6) P(4) unfolding de_links_def by force
  ultimately have links: "de_links base [cs ! 0] mp" using 1(6) by (simp add: de_links_def)
  have finish: "\<exists>d'. de_clear ty ce d = Some d' \<and> de_layout ty ce base [cs ! 0] 0 [] d'"
    if h1: "run_each (\<lambda>n h. do { p \<leftarrow> map_entry mp n; h' \<leftarrow> destroy_range ty p 0 ce h; free_chunk ty p h' })
              [base + 1..<base + ?k] (de_heap d) = Some h1"
      and h2: "(if it_node (de_start d) \<noteq> it_node (de_finish d) then do {
                   h' \<leftarrow> destroy_range ty (it_first (de_start d)) (it_cur (de_start d)) ce h1;
                   h'' \<leftarrow> destroy_range ty (it_first (de_finish d)) 0 (it_cur (de_finish d)) h';
                   p \<leftarrow> map_entry mp (it_node (de_finish d));
                   free_chunk ty p h''
                 } else destroy_range ty (it_first (de_start d)) (it_cur (de_start d)) (it_cur (de_finish d)) h1) = Some h2"
      and H: "chunks_hold ty ce h2 [cs ! 0] (\<lambda>_. None)" for h1 h2
  proof -
    define d' where "d' = d\<lparr>de_heap := h2, de_start := (de_start d)\<lparr>it_cur := 0\<rparr>,
        de_finish := pos_iter ce base [cs ! 0] 0\<rparr>"
    have "de_clear ty ce d = Some d'"
      unfolding de_clear_def 1(4) Let_def option.case using h1 h2 node st(1) fi(1)
      by (simp add: d'_def pos_iter_def)
    moreover have "de_layout ty ce base [cs ! 0] 0 [] d'"
      using 1 links H P(3) by (auto simp: de_layout_def d'_def pos_iter_def)
    ultimately show ?thesis by blast
  qed
  show ?thesis
  proof (cases "?k = 0")
    case True
    then have c1: "cs = [cs ! 0]" using lk by (cases cs) auto
    have pz: "s + length xs = ?f" using pos True by simp
    obtain h2 where "destroy_range ty (Some (cs ! 0)) s ?f (de_heap d) = Some h2"
        "chunks_hold ty ce h2 cs (\<lambda>q. if 0 * ce + s \<le> q \<and> q < 0 * ce + ?f then None else ?F q)"
      using destroy_range_rep [OF 1(9) P(4), of s ?f] fc pz window_live [of s _ xs] by fastforce
    moreover have "(\<lambda>q. if 0 * ce + s \<le> q \<and> q < 0 * ce + ?f then None else ?F q) = (\<lambda>_. None)"
      using pz by (auto simp: fun_eq_iff window_def elem_at_def)
    ultimately show ?thesis
      using finish [of "de_heap d" h2] st fi True c1 by simp
  next
    case False
    let ?G = "\<lambda>j q. if q < ce then ?F q else ?F (q + j * ce)"
    let ?body = "\<lambda>n h. do { p \<leftarrow> map_entry mp n; h' \<leftarrow> destroy_range ty p 0 ce h; free_chunk ty p h' }"
    let ?P = "\<lambda>n h. chunks_hold ty ce h (cs ! 0 # drop (n - base) cs) (?G (n - base - 1))"
    have "\<exists>h1. run_each ?body [base + 1..<base + ?k] (de_heap d) = Some h1 \<and> ?P (base + ?k) h1"
    proof (rule run_each_upt [where P = ?P])
      show "base + 1 \<le> base + ?k" using False by simp
      have "cs ! 0 # drop 1 cs = cs" using P(4) by (cases cs) auto
      moreover have "base + 1 - base = 1" "?G (1 - 1) = ?F" by (simp_all add: fun_eq_iff)
      ultimately show "?P (base + 1) (de_heap d)" using 1(9) by (metis diff_self_eq_0)
      fix n h
      assume n: "base + 1 \<le> n" "n < base + ?k" and h: "?P n h"
      define j where "j = n - base - 1"
      have j: "n = base + Suc j" "Suc j < ?k" using n by (auto simp: j_def)
      have dj: "drop (Suc j) cs = cs ! Suc j # drop (Suc (Suc j)) cs" using j(2) lk by (simp add: Cons_nth_drop_Suc)
      have hj: "chunks_hold ty ce h (cs ! 0 # cs ! Suc j # drop (Suc (Suc j)) cs) (?G j)"
        using h dj unfolding j_def [symmetric] by (simp add: j(1))
      have live: "?G j (1 * ce + i) \<noteq> None" if "i < ce" for i
      proof -
        have "Suc (Suc j) * ce \<le> ?k * ce" using j(2) by (intro mult_le_mono1) simp
        then have "Suc j * ce + ce \<le> ?k * ce" by simp
        then have "Suc j * ce + i < s + length xs" using pos that by linarith
        moreover have "s \<le> Suc j * ce + i" using P(3) by simp
        ultimately show ?thesis using window_live [of s "Suc j * ce + i" xs] by (simp add: ac_simps)
      qed
      obtain h' where h': "destroy_range ty (Some (cs ! Suc j)) 0 ce h = Some h'"
          "chunks_hold ty ce h' (cs ! 0 # cs ! Suc j # drop (Suc (Suc j)) cs)
             (\<lambda>q. if 1 * ce + 0 \<le> q \<and> q < 1 * ce + ce then None else ?G j q)"
        using destroy_range_rep [OF hj, of 1 0 ce] live by auto
      let ?H = "\<lambda>q. if 1 * ce + 0 \<le> q \<and> q < 1 * ce + ce then None else ?G j q"
      have h'': "chunks_hold ty ce h' ([cs ! 0] @ cs ! Suc j # drop (Suc (Suc j)) cs) ?H" using h'(2) by simp
      have raw: "?H (length [cs ! 0] * ce + i) = None" if "i < ce" for i using that by simp
      note fr = chunks_free [OF h'' raw]
      have "(\<lambda>q. if q < length [cs ! 0] * ce then ?H q else ?H (q + ce)) = ?G (Suc j)"
        by (auto simp: fun_eq_iff ac_simps)
      with fr(2) have "chunks_hold ty ce (h'(cs ! Suc j := None)) (cs ! 0 # drop (Suc (Suc j)) cs) (?G (Suc j))"
        by simp
      moreover have "map_entry mp n = Some (Some (cs ! Suc j))"
        using map_entry_links [OF 1(6), of "Suc j"] j lk by simp
      moreover have e: "Suc n - base = Suc (Suc j)" "Suc (Suc j) - 1 = Suc j" using j(1) by simp_all
      ultimately show "\<exists>h'. ?body n h = Some h' \<and> ?P (Suc n) h'"
        using h'(1) fr(1) unfolding e by simp
    qed
    then obtain h1 where h1: "run_each ?body [base + 1..<base + ?k] (de_heap d) = Some h1" "?P (base + ?k) h1"
      by blast
    have dk: "drop ?k cs = [cs ! ?k]" using lk by (simp add: Cons_nth_drop_Suc [symmetric])
    let ?g = "?G (?k - 1)"
    have hold1: "chunks_hold ty ce h1 [cs ! 0, cs ! ?k] ?g" using h1(2) unfolding add_diff_cancel_left' dk .
    have kce: "ce \<le> ?k * ce" using False by simp
    have live0: "?g (0 * ce + i) \<noteq> None" if "s \<le> i" "i < ce" for i
    proof -
      have "i < s + length xs" using pos kce that(2) by linarith
      then show ?thesis using that window_live [of s i xs] by simp
    qed
    obtain h2 where h2: "destroy_range ty (Some (cs ! 0)) s ce h1 = Some h2"
        "chunks_hold ty ce h2 [cs ! 0, cs ! ?k] (\<lambda>q. if 0 * ce + s \<le> q \<and> q < 0 * ce + ce then None else ?g q)"
      using destroy_range_rep [OF hold1, of 0 s ce] live0 P(3) by auto
    let ?g2 = "\<lambda>q. if 0 * ce + s \<le> q \<and> q < 0 * ce + ce then None else ?g q"
    have shift: "1 * ce + i + (?k - 1) * ce = ?k * ce + i" for i
      using False by (cases ?k) (simp_all add: add_mult_distrib)
    have live1: "?g2 (1 * ce + i) \<noteq> None" if "0 \<le> i" "i < ?f" for i
    proof -
      have "?k * ce + i < s + length xs" "s \<le> ?k * ce + i" using pos that P(3) kce by linarith+
      from window_live [OF this(2,1)] have "?F (1 * ce + i + (?k - 1) * ce) \<noteq> None" unfolding shift .
      then show ?thesis by simp
    qed
    obtain h3 where h3: "destroy_range ty (Some (cs ! ?k)) 0 ?f h2 = Some h3"
        "chunks_hold ty ce h3 [cs ! 0, cs ! ?k] (\<lambda>q. if 1 * ce + 0 \<le> q \<and> q < 1 * ce + ?f then None else ?g2 q)"
      using destroy_range_rep [OF h2(2), of 1 0 ?f] live1 fc by auto
    let ?g3 = "\<lambda>q. if 1 * ce + 0 \<le> q \<and> q < 1 * ce + ?f then None else ?g2 q"
    have none: "?g3 q = None" for q
    proof (cases "q < ce")
      case True
      then show ?thesis by (simp add: window_None)
    next
      case F: False
      then obtain i where i: "q = 1 * ce + i" by (metis le_add_diff_inverse linorder_not_le mult_1)
      show ?thesis
      proof (cases "i < ?f")
        case False
        then have "s + length xs \<le> ?k * ce + i" using pos by linarith
        then have "?F (1 * ce + i + (?k - 1) * ce) = None" unfolding shift by (simp add: window_None)
        then show ?thesis using i by simp
      qed (use i in simp)
    qed
    then have "chunks_hold ty ce h3 ([cs ! 0] @ cs ! ?k # []) (\<lambda>_. None)"
      using h3(2) by simp
    note fr = chunks_free [OF this refl]
    have "map_entry mp (base + ?k) = Some (Some (cs ! ?k))"
      using map_entry_links [OF 1(6), of ?k] lk by simp
    then show ?thesis
      using finish [of h1 "h3(cs ! ?k := None)"] h1(1) st fi False h2(1) h3(1) fr by simp
  qed
qed

lemma de_teardown_rep:
  assumes l: "de_layout ty ce base cs s xs d"
  shows "\<exists>d'. de_teardown ty ce d = Some d' \<and> de_heap d' = Map.empty \<and> de_map d' = None"
  using l
proof (cases rule: de_layoutD)
  case (1 mp)
  note P = de_layout_pos [OF l]
  let ?f = "(s + length xs) mod ce" and ?k = "(s + length xs) div ce" and ?F = "window s xs"
  have lk: "length cs = Suc ?k" using P(5) by simp
  have pos: "s + length xs = ?k * ce + ?f" by simp
  have fc: "?f < ce" using P(1) by simp
  have st: "it_node (de_start d) = base" "it_first (de_start d) = Some (cs ! 0)" "it_cur (de_start d) = s"
    and fi: "it_node (de_finish d) = base + ?k" "it_first (de_finish d) = Some (cs ! ?k)" "it_cur (de_finish d) = ?f"
    using 1(7,8) P(3) by simp_all
  let ?body = "\<lambda>n h. do { p \<leftarrow> map_entry mp n;
      destroy_range ty p (if n = it_node (de_start d) then it_cur (de_start d) else 0) ce h }"
  let ?G = "\<lambda>m q. if q < m then None else ?F q"
  let ?P = "\<lambda>n h. chunks_hold ty ce h cs (?G ((n - base) * ce))"
  have "\<exists>h1. run_each ?body [base..<base + ?k] (de_heap d) = Some h1 \<and> ?P (base + ?k) h1"
  proof (rule run_each_upt [where P = ?P])
    show "?P base (de_heap d)" using 1(9) by simp
    fix n h
    assume n: "base \<le> n" "n < base + ?k" and h: "?P n h"
    define j where "j = n - base"
    have j: "n = base + j" "j < ?k" "j < length cs" using n lk by (auto simp: j_def)
    define a where "a = (if j = 0 then s else 0)"
    have hj: "chunks_hold ty ce h cs (?G (j * ce))" using h j(1) by simp
    have live: "?G (j * ce) (j * ce + i) \<noteq> None" if "a \<le> i" "i < ce" for i
    proof -
      have "Suc j * ce \<le> ?k * ce" using j(2) by (intro mult_le_mono1) simp
      then have "j * ce + ce \<le> ?k * ce" by simp
      then have "j * ce + i < s + length xs" using pos that(2) by linarith
      moreover have "s \<le> j * ce + i"
      proof (cases "j = 0")
        case False
        then have "ce \<le> j * ce" by simp
        with P(3) show ?thesis by linarith
      qed (use that a_def in simp)
      ultimately show ?thesis using window_live [of s "j * ce + i" xs] by simp
    qed
    have "a \<le> ce" using P(3) by (simp add: a_def)
    from destroy_range_rep [OF hj j(3) this order_refl live] obtain h' where
      h': "destroy_range ty (Some (cs ! j)) a ce h = Some h'"
        "chunks_hold ty ce h' cs (\<lambda>q. if j * ce + a \<le> q \<and> q < j * ce + ce then None else ?G (j * ce) q)" by blast
    have "(\<lambda>q. if j * ce + a \<le> q \<and> q < j * ce + ce then None else ?G (j * ce) q) = ?G (Suc j * ce)"
      by (auto simp: fun_eq_iff a_def window_None)
    then have "chunks_hold ty ce h' cs (?G (Suc j * ce))" using h'(2) by metis
    moreover have "(if n = it_node (de_start d) then it_cur (de_start d) else 0) = a" "Suc n - base = Suc j"
      using j(1) st by (simp_all add: a_def)
    moreover have "map_entry mp n = Some (Some (cs ! j))" using map_entry_links [OF 1(6) j(3)] j(1) by simp
    ultimately show "\<exists>h'. ?body n h = Some h' \<and> ?P (Suc n) h'"
      using h'(1) by (simp only: bind.bind_lunit) blast
  qed simp
  then obtain h1 where h1: "run_each ?body [base..<base + ?k] (de_heap d) = Some h1" "chunks_hold ty ce h1 cs (?G (?k * ce))"
    by auto
  define a where "a = (if ?k = 0 then s else 0)"
  have kl: "?k < length cs" using lk by simp
  have af: "a \<le> ?f"
  proof (cases "?k = 0")
    case True
    then show ?thesis using pos by (simp add: a_def)
  qed (simp add: a_def)
  have live: "?G (?k * ce) (?k * ce + i) \<noteq> None" if "a \<le> i" "i < ?f" for i
  proof -
    have "?k * ce + i < s + length xs" using pos that(2) by linarith
    moreover have "s \<le> ?k * ce + i"
    proof (cases "?k = 0")
      case False
      then have "ce \<le> ?k * ce" by simp
      with P(3) show ?thesis by linarith
    qed (use that a_def in simp)
    ultimately show ?thesis using window_live [of s "?k * ce + i" xs] by simp
  qed
  obtain h2 where h2: "destroy_range ty (Some (cs ! ?k)) a ?f h1 = Some h2"
      "chunks_hold ty ce h2 cs (\<lambda>q. if ?k * ce + a \<le> q \<and> q < ?k * ce + ?f then None else ?G (?k * ce) q)"
    using destroy_range_rep [OF h1(2) kl af less_imp_le [OF fc] live] by blast
  have "(\<lambda>q. if ?k * ce + a \<le> q \<and> q < ?k * ce + ?f then None else ?G (?k * ce) q) = (\<lambda>_. None)"
  proof
    fix q
    consider "q < ?k * ce" | "?k * ce \<le> q" "q < ?k * ce + a" | "?k * ce + a \<le> q" "q < ?k * ce + ?f"
      | "s + length xs \<le> q" using pos by linarith
    then show "(if ?k * ce + a \<le> q \<and> q < ?k * ce + ?f then None else ?G (?k * ce) q) = None"
      by cases (auto simp: a_def window_None split: if_splits)
  qed
  with h2(2) have none: "chunks_hold ty ce h2 cs (\<lambda>_. None)" by simp
  let ?free = "\<lambda>n h. Option.bind (map_entry mp n) (\<lambda>p. free_chunk ty p h)"
  let ?Q = "\<lambda>n h. chunks_hold ty ce h (drop (n - base) cs) (\<lambda>_. None)"
  have "\<exists>h3. run_each ?free [base..<base + ?k + 1] h2 = Some h3 \<and> ?Q (base + ?k + 1) h3"
  proof (rule run_each_upt [where P = ?Q])
    show "?Q base h2" using none by simp
    fix n h
    assume n: "base \<le> n" "n < base + ?k + 1" and h: "?Q n h"
    define j where "j = n - base"
    have j: "n = base + j" "j < length cs" using n lk by (auto simp: j_def)
    have "chunks_hold ty ce h ([] @ cs ! j # drop (Suc j) cs) (\<lambda>_. None)"
      using h j by (simp add: Cons_nth_drop_Suc)
    note fr = chunks_free [OF this refl]
    show "\<exists>h'. ?free n h = Some h' \<and> ?Q (Suc n) h'"
      using fr map_entry_links [OF 1(6) j(2)] j(1) by (simp add: Suc_diff_le)
  qed simp
  then obtain h3 where h3: "run_each ?free [base..<base + ?k + 1] h2 = Some h3" "chunks_hold ty ce h3 [] (\<lambda>_. None)"
    using lk by auto
  have "h3 = Map.empty" using chunks_holdD(2) [OF h3(2)] by simp
  moreover have "(if it_node (de_start d) = it_node (de_finish d)
      then destroy_range ty (it_first (de_start d)) (it_cur (de_start d)) (it_cur (de_finish d)) h1
      else destroy_range ty (it_first (de_finish d)) 0 (it_cur (de_finish d)) h1) = Some h2"
    using h2(1) st fi by (cases "?k = 0") (simp_all add: a_def)
  ultimately show ?thesis
    unfolding de_teardown_def 1(4) Let_def option.case using h1(1) h3(1) st(1) fi(1) by simp
qed

section \<open>The operations on the represented sequence\<close>

lemma de_push_back_cases:
  assumes "de_rep ty ce xs d" "fresh_mem mem"
  obtains d' where "de_push_back mem ty ce x d = Some (Inl Bad_alloc, d')" "de_rep ty ce xs d'"
    | d' where "de_push_back mem ty ce x d = Some (Inr (), d')" "de_rep ty ce (xs @ [x]) d'"
proof -
  obtain base cs s where l: "de_layout ty ce base cs s xs d" using assms(1) by (auto simp: de_rep_def)
  show ?thesis using de_push_back_rep [OF l assms(2), of x] that unfolding de_rep_def by blast
qed

lemma de_push_front_cases:
  assumes "de_rep ty ce xs d" "fresh_mem mem"
  obtains d' where "de_push_front mem ty ce x d = Some (Inl Bad_alloc, d')" "de_rep ty ce xs d'"
    | d' where "de_push_front mem ty ce x d = Some (Inr (), d')" "de_rep ty ce (x # xs) d'"
proof -
  obtain base cs s where l: "de_layout ty ce base cs s xs d" using assms(1) by (auto simp: de_rep_def)
  show ?thesis using de_push_front_rep [OF l assms(2), of x] that unfolding de_rep_def by blast
qed

lemma de_pop_back_ok:
  assumes "de_rep ty ce (xs @ [x]) d"
  shows "\<exists>d'. de_pop_back ty ce d = Some d' \<and> de_rep ty ce xs d'" "de_back ce d = Some x"
proof -
  obtain base cs s where l: "de_layout ty ce base cs s (xs @ [x]) d" using assms by (auto simp: de_rep_def)
  show "\<exists>d'. de_pop_back ty ce d = Some d' \<and> de_rep ty ce xs d'" "de_back ce d = Some x"
    using de_pop_back_rep [OF l] unfolding de_rep_def by blast+
qed

lemma de_pop_front_ok:
  assumes "de_rep ty ce (x # xs) d"
  shows "\<exists>d'. de_pop_front ty ce d = Some d' \<and> de_rep ty ce xs d'" "de_front d = Some x"
proof -
  obtain base cs s where l: "de_layout ty ce base cs s (x # xs) d" using assms by (auto simp: de_rep_def)
  show "\<exists>d'. de_pop_front ty ce d = Some d' \<and> de_rep ty ce xs d'" "de_front d = Some x"
    using de_pop_front_rep [OF l] unfolding de_rep_def by blast+
qed

lemma de_clear_ok: "de_rep ty ce xs d \<Longrightarrow> \<exists>d'. de_clear ty ce d = Some d' \<and> de_rep ty ce [] d'"
  unfolding de_rep_def using de_clear_rep by blast

lemma de_teardown_ok:
  "de_rep ty ce xs d \<Longrightarrow> \<exists>d'. de_teardown ty ce d = Some d' \<and> de_heap d' = Map.empty \<and> de_map d' = None"
  unfolding de_rep_def using de_teardown_rep by blast

lemma de_rep_size: "de_rep ty ce xs d \<Longrightarrow> de_size ce d = length xs"
  unfolding de_rep_def using de_layout_size by blast

lemma de_rep_empty: "de_rep ty ce xs d \<Longrightarrow> de_empty d \<longleftrightarrow> xs = []"
  unfolding de_rep_def using de_layout_empty by blast

lemma de_rep_index: "de_rep ty ce xs d \<Longrightarrow> i < length xs \<Longrightarrow> de_index ce d i = Some (xs ! i)"
  unfolding de_rep_def using de_layout_index by blast

lemma de_rep_at:
  "de_rep ty ce xs d \<Longrightarrow>
   de_at ce d i = Some (if unat i < length xs then Inr (xs ! unat i) else Inl Out_of_range)"
  using de_rep_size [of ty ce xs d] de_rep_index [of ty ce xs d "unat i"] by (auto simp: de_at_def)

lemma de_blank_rep:
  "de_blank ty ce base cs 0 d \<Longrightarrow> de_rep ty ce [] d"
  unfolding de_rep_def de_layout_def de_blank_def by (intro exI [of _ base] exI [of _ cs] exI [of _ 0]) auto

lemma de_new_cases:
  assumes "0 < ce" "fresh_mem mem"
  obtains d :: "'a deque" where "de_new mem ce = Some (Inl Bad_alloc, d)"
    | d :: "'a deque" where "de_new mem ce = Some (Inr (), d)" "de_rep ty ce [] d"
proof -
  have "de_count_fits ce 0" by (simp add: de_count_fits_def)
  from de_init_map_rep [OF assms this, of ty] show thesis
    using de_blank_rep that unfolding de_new_def by fastforce
qed

text \<open>A sequence of insertions at the back may stop at any of them for want of memory.\<close>

lemma de_push_all_rep:
  "de_rep ty ce ys d \<Longrightarrow> fresh_mem mem \<Longrightarrow>
   (\<exists>d' k. k < length xs \<and> de_push_all mem ty ce xs d = Some (Inl Bad_alloc, d') \<and> de_rep ty ce (ys @ take k xs) d') \<or>
   (\<exists>d'. de_push_all mem ty ce xs d = Some (Inr (), d') \<and> de_rep ty ce (ys @ xs) d')"
proof (induction xs arbitrary: ys d)
  case Nil
  then show ?case by simp
next
  case (Cons x xs)
  from Cons.prems show ?case
  proof (cases rule: de_push_back_cases [where x = x])
    case (1 d')
    then show ?thesis by (intro disjI1 exI [of _ d'] exI [of _ 0]) simp
  next
    case (2 d1)
    from Cons.IH [OF 2(2) Cons.prems(2)] show ?thesis
    proof (elim disjE exE conjE)
      fix d' k
      assume "k < length xs" "de_push_all mem ty ce xs d1 = Some (Inl Bad_alloc, d')" "de_rep ty ce ((ys @ [x]) @ take k xs) d'"
      then show ?thesis using 2(1) by (intro disjI1 exI [of _ d'] exI [of _ "Suc k"]) simp
    qed (use 2(1) in simp)
  qed
qed

lemma de_resize_rep:
  assumes r: "de_rep ty ce xs d" and m: "fresh_mem mem"
  shows "(\<exists>d' k. k < n - length xs \<and> de_resize mem ty ce n x d = Some (Inl Bad_alloc, d') \<and>
      de_rep ty ce (xs @ replicate k x) d') \<or>
    (\<exists>d'. de_resize mem ty ce n x d = Some (Inr (), d') \<and> de_rep ty ce (take n xs @ replicate (n - length xs) x) d')"
proof (cases "n < length xs")
  case True
  let ?P = "\<lambda>i d. de_rep ty ce (take (length xs - (i - n)) xs) d"
  have "\<exists>d'. run_each (\<lambda>_. de_pop_back ty ce) [n..<length xs] d = Some d' \<and> ?P (length xs) d'"
  proof (rule run_each_upt [where P = ?P])
    fix i g
    assume i: "n \<le> i" "i < length xs" and g: "?P i g"
    define k where "k = length xs - Suc (i - n)"
    have k: "length xs - (i - n) = Suc k" "length xs - (Suc i - n) = k" "k < length xs"
      using i by (simp_all add: k_def)
    have "de_rep ty ce (take k xs @ [xs ! k]) g" using g k by (simp add: take_Suc_conv_app_nth)
    from de_pop_back_ok(1) [OF this] show "\<exists>g'. de_pop_back ty ce g = Some g' \<and> ?P (Suc i) g'"
      unfolding k(2) .
  qed (use r True in simp_all)
  then show ?thesis using True de_rep_size [OF r] by (auto simp: de_resize_def)
next
  case False
  then show ?thesis
    using de_push_all_rep [OF r m, of "replicate (n - length xs) x"] de_rep_size [OF r]
    by (auto simp: de_resize_def min_def)
qed

section \<open>Comparison and assignment\<close>

lemma de_equal_from_rep:
  assumes a: "de_layout ty ce base cs s xs a" and b: "de_layout ty' ce base' cs' s' ys b"
    and "length xs = length ys" and "j \<le> length xs"
  shows "de_equal_from eq ce a b (pos_iter ce base cs (s + j)) (pos_iter ce base' cs' (s' + j)) =
    Some (list_all2 eq (drop j xs) (drop j ys))"
  using assms(4)
proof (induction "length xs - j" arbitrary: j)
  case 0
  then show ?case using a assms(3) by (subst de_equal_from.simps) (simp add: de_layout_def iter_eq_def)
next
  case (Suc n)
  then have j: "j < length xs" "j < length ys" using assms(3) by auto
  note P = de_layout_pos [OF a] and Q = de_layout_pos [OF b]
  from a obtain mp where A: "de_map a = Some mp" "de_links base cs mp" "de_finish a = pos_iter ce base cs (s + length xs)"
      "chunks_hold ty ce (de_heap a) cs (window s xs)" by (auto simp: de_layout_def)
  from b obtain mp' where B: "de_map b = Some mp'" "de_links base' cs' mp'"
      "chunks_hold ty' ce (de_heap b) cs' (window s' ys)" by (auto simp: de_layout_def)
  have "(s + j) div ce \<le> (s + length xs) div ce" "Suc (s + j) div ce \<le> (s + length xs) div ce"
    "(s' + j) div ce \<le> (s' + length ys) div ce" "Suc (s' + j) div ce \<le> (s' + length ys) div ce"
    using j by (intro div_le_mono; simp)+
  then have bd: "(s + j) div ce < length cs" "Suc (s + j) div ce < length cs"
      "(s' + j) div ce < length cs'" "Suc (s' + j) div ce < length cs'"
    using P(2) Q(2) by linarith+
  have ne: "\<not> iter_eq (pos_iter ce base cs (s + j)) (de_finish a)"
    using iter_eq_pos [OF chunks_holdD(1) [OF A(4)] bd(1) P(2)] j(1) A(3) by simp
  have rd: "iter_deref (de_heap a) (pos_iter ce base cs (s + j)) = Some (xs ! j)"
      "iter_deref (de_heap b) (pos_iter ce base' cs' (s' + j)) = Some (ys ! j)"
    using chunks_read [OF A(4) bd(1), of "(s + j) mod ce" "xs ! j"]
      chunks_read [OF B(3) bd(3), of "(s' + j) mod ce" "ys ! j"] P(1) j by (simp_all add: iter_deref_def)
  have IH: "de_equal_from eq ce a b (pos_iter ce base cs (Suc (s + j))) (pos_iter ce base' cs' (Suc (s' + j))) =
      Some (list_all2 eq (drop (Suc j) xs) (drop (Suc j) ys))"
    using Suc.hyps(1) [of "Suc j"] Suc.hyps(2) j by simp
  have "drop j xs = xs ! j # drop (Suc j) xs" "drop j ys = ys ! j # drop (Suc j) ys"
    using j by (simp_all add: Cons_nth_drop_Suc)
  then show ?case
    using ne rd A(1) B(1) IH iter_inc_pos [OF A(2) P(1) bd(2)] iter_inc_pos [OF B(2) P(1) bd(4)]
    by (subst de_equal_from.simps) simp
qed

lemma de_eq_rep:
  assumes "de_rep ty ce xs a" "de_rep ty' ce ys b"
  shows "de_eq eq ce a b = Some (list_all2 eq xs ys)"
proof -
  obtain base cs s base' cs' s' where l: "de_layout ty ce base cs s xs a" "de_layout ty' ce base' cs' s' ys b"
    using assms by (auto simp: de_rep_def)
  then have "de_start a = pos_iter ce base cs s" "de_start b = pos_iter ce base' cs' s'"
    by (auto simp: de_layout_def)
  then show ?thesis
    using de_equal_from_rep [OF l, of 0 eq] de_rep_size [OF assms(1)] de_rep_size [OF assms(2)]
    by (auto simp: de_eq_def dest: list_all2_lengthD)
qed

lemma de_filled_rep:
  assumes "0 < ce" "fresh_mem mem" "de_count_fits ce n"
  shows "(\<exists>d. de_filled mem ty ce n x = Some (Inl Bad_alloc, d)) \<or>
    (\<exists>d. de_filled mem ty ce n x = Some (Inr (), d) \<and> de_rep ty ce (replicate (unat n) x) d)"
  using de_init_map_rep [OF assms, of ty]
proof (elim disjE exE conjE)
  fix d base cs
  assume d: "de_init_map mem ce n = Some (Inr (), d)" and b: "de_blank ty ce base cs (unat n) d"
  from de_value_fill_rep [OF b, of x] d show ?thesis
    unfolding de_filled_def de_rep_def by auto
qed (simp add: de_filled_def)

text \<open>
  A count for whose map the bytes wrap around, but not the number of entries: the array that is
  returned is too small, and filling it with null pointers writes behind its end.
\<close>

lemma de_filled_wraps:
  assumes "unat n div ce + 3 < 2 ^ 64" "\<not> de_count_fits ce n"
  shows "de_filled mem ty ce n x = (if fst mem then None else Some (Inl Bad_alloc,
    de_moved_from\<lparr>de_map_size := unat n div ce + 3\<rparr>))"
proof -
  let ?k = "unat n div ce + 1"
  have k: "?k + 2 < 2 ^ 64" "2 ^ 61 \<le> ?k + 2" using assms by (simp_all add: de_count_fits_def)
  then have m: "max 8 (size_wrap (size_wrap ?k + 2)) = ?k + 2" by simp
  have "size_wrap ((?k + 2) * 8) div 8 < 2 ^ 61" by (simp add: size_wrap_def div_less_iff_less_mult)
  then have "length (replicate (size_wrap ((?k + 2) * 8) div 8) (None :: chunk_ptr)) < ?k + 2" using k(2) by simp
  then show ?thesis unfolding de_filled_def de_init_map_def Let_def m alloc_map_def by (simp add: add.commute)
qed

lemma de_from_range_rep:
  assumes "0 < ce" "fresh_mem mem"
  shows "(\<exists>d. de_from_range mem ty ce xs = Some (Inl Bad_alloc, d)) \<or>
    (\<exists>d. de_from_range mem ty ce xs = Some (Inr (), d) \<and> de_rep ty ce xs d)"
proof -
  have "de_count_fits ce 0" by (simp add: de_count_fits_def)
  from de_init_map_rep [OF assms this, of ty] show ?thesis
  proof (elim disjE exE conjE)
    fix d base cs
    assume d: "de_init_map mem ce 0 = Some (Inr (), d)" and "de_blank ty ce base cs (unat (0 :: usize)) d"
    then have "de_rep ty ce [] d" by (simp add: de_blank_rep)
    from de_push_all_rep [OF this assms(2), of xs] d show ?thesis
      unfolding de_from_range_def by auto
  qed (simp add: de_from_range_def)
qed

text \<open>Assignment through a temporary: the previous deque is torn down, or kept after a failure.\<close>

lemma de_replace_by_rep:
  assumes "de_rep ty ce xs d"
  shows "de_replace_by ty ce d (Inl e, t) = Some (Inl e, d)"
    "de_replace_by ty ce d (Inr (), t) = Some (Inr (), t)"
  using de_teardown_ok [OF assms] by (auto simp: de_replace_by_def de_swap_def)

lemma de_assign_rep:
  assumes "de_rep ty ce xs d" "de_rep ty ce ys rhs" "fresh_mem mem"
  shows "de_assign mem ty ce d (Other rhs) = Some (Inl Bad_alloc, d) \<or>
    (\<exists>d'. de_assign mem ty ce d (Other rhs) = Some (Inr (), d') \<and> de_rep ty ce ys d')"
  using de_copy_rep [OF assms(2,3)] de_replace_by_rep [OF assms(1)] by auto

lemma de_assign_list_rep:
  assumes "de_rep ty ce xs d" "fresh_mem mem" "length il < 2 ^ 64" "de_count_fits ce (of_nat (length il))"
  shows "de_assign_list mem ty ce d il = Some (Inl Bad_alloc, d) \<or>
    (\<exists>d'. de_assign_list mem ty ce d il = Some (Inr (), d') \<and> de_rep ty ce il d')"
proof -
  have "0 < ce" using assms(1) de_layout_pos(1) unfolding de_rep_def by blast
  then show ?thesis
    using de_from_list_rep [OF _ assms(2-4), of ty] de_replace_by_rep [OF assms(1)]
    unfolding de_assign_list_def by auto
qed

section \<open>The array contract\<close>

definition de_offer :: "'a elem_type \<Rightarrow> nat \<Rightarrow> mem \<Rightarrow> 'a \<Rightarrow> 'a deque \<Rightarrow> (bool \<times> 'a deque) option" where
  "de_offer ty ce mem x d =
     map_option (map_prod (case_sum (\<lambda>_. False) (\<lambda>_. True)) id) (de_push_back mem ty ce x d)"

definition de_poll_back :: "'a elem_type \<Rightarrow> nat \<Rightarrow> 'a deque \<Rightarrow> ('a option \<times> 'a deque) option" where
  "de_poll_back ty ce d =
     (if de_empty d then Some (None, d)
      else do { x \<leftarrow> de_back ce d; d' \<leftarrow> de_pop_back ty ce d; Some (Some x, d') })"

definition de_poll_front :: "'a elem_type \<Rightarrow> nat \<Rightarrow> 'a deque \<Rightarrow> ('a option \<times> 'a deque) option" where
  "de_poll_front ty ce d =
     (if de_empty d then Some (None, d)
      else do { x \<leftarrow> de_front d; d' \<leftarrow> de_pop_front ty ce d; Some (Some x, d') })"

lemma de_invD: "de_inv ty ce d \<Longrightarrow> de_rep ty ce (de_contents ce d) d"
  by (simp add: de_inv_def)

interpretation de_seq: back_sequence "de_inv ty ce" "de_contents ce" fresh_mem "de_offer ty ce" "de_poll_back ty ce" "de_at ce"
  for ty :: "'a elem_type" and ce
proof unfold_locales
  fix d :: "'a deque" and x
  assume "de_inv ty ce d"
  note r = de_invD [OF this]
  show "\<exists>ok d'. de_offer ty ce mem x d = Some (ok, d') \<and> de_inv ty ce d' \<and>
      de_contents ce d' = (if ok then de_contents ce d @ [x] else de_contents ce d)" if m: "fresh_mem mem" for mem
    using r m
  proof (cases rule: de_push_back_cases [where x = x])
    case (1 d')
    then show ?thesis using de_rep_inv [OF 1(2)] de_rep_contents [OF 1(2)]
      by (intro exI [of _ False] exI [of _ d']) (simp add: de_offer_def)
  next
    case (2 d')
    then show ?thesis using de_rep_inv [OF 2(2)] de_rep_contents [OF 2(2)]
      by (intro exI [of _ True] exI [of _ d']) (simp add: de_offer_def)
  qed
  show "\<exists>d'. de_poll_back ty ce d = Some (Some x, d') \<and> de_inv ty ce d' \<and> de_contents ce d' = xs"
    if "de_contents ce d = xs @ [x]" for xs
  proof -
    have r': "de_rep ty ce (xs @ [x]) d" using r that by simp
    obtain d' where "de_pop_back ty ce d = Some d'" and d': "de_rep ty ce xs d'"
      using de_pop_back_ok(1) [OF r'] by blast
    then show ?thesis
      using de_pop_back_ok(2) [OF r'] de_rep_empty [OF r'] de_rep_contents [OF d'] de_rep_inv [OF d']
      by (simp add: de_poll_back_def)
  qed
  show "de_poll_back ty ce d = Some (None, d)" if "de_contents ce d = []"
    using de_rep_empty [OF r] that by (simp add: de_poll_back_def)
  show "de_at ce d i = Some (if unat i < length (de_contents ce d) then Inr (de_contents ce d ! unat i) else Inl Out_of_range)" for i
    using de_rep_at [OF r] .
qed

section \<open>Histories at both ends\<close>

datatype 'a deque_op = At_back 'a | At_front 'a | Off_back | Off_front | Wipe

fun deque_op_spec :: "'a deque_op \<Rightarrow> 'a list \<Rightarrow> 'a list" where
  "deque_op_spec (At_back x) xs = xs @ [x]"
| "deque_op_spec (At_front x) xs = x # xs"
| "deque_op_spec Off_back xs = butlast xs"
| "deque_op_spec Off_front xs = drop 1 xs"
| "deque_op_spec Wipe xs = []"

fun deque_op_pre :: "'a deque_op \<Rightarrow> 'a list \<Rightarrow> bool" where
  "deque_op_pre Off_back xs \<longleftrightarrow> xs \<noteq> []"
| "deque_op_pre Off_front xs \<longleftrightarrow> xs \<noteq> []"
| "deque_op_pre _ xs \<longleftrightarrow> True"

fun deque_op_step :: "mem \<Rightarrow> 'a elem_type \<Rightarrow> nat \<Rightarrow> 'a deque_op \<Rightarrow> 'a deque \<Rightarrow> ((exn + unit) \<times> 'a deque) option" where
  "deque_op_step mem ty ce (At_back x) d = de_push_back mem ty ce x d"
| "deque_op_step mem ty ce (At_front x) d = de_push_front mem ty ce x d"
| "deque_op_step mem ty ce Off_back d = map_option (Pair (Inr ())) (de_pop_back ty ce d)"
| "deque_op_step mem ty ce Off_front d = map_option (Pair (Inr ())) (de_pop_front ty ce d)"
| "deque_op_step mem ty ce Wipe d = map_option (Pair (Inr ())) (de_clear ty ce d)"

definition deque_step :: "'a elem_type \<Rightarrow> nat \<Rightarrow> mem \<times> 'a deque_op \<Rightarrow> 'a deque \<Rightarrow> ((exn + unit) \<times> 'a deque) option" where
  "deque_step ty ce = (\<lambda>(mem, i). deque_op_step mem ty ce i)"

fun deque_replay :: "('a deque_op \<times> (exn + unit)) list \<Rightarrow> 'a list \<Rightarrow> 'a list" where
  "deque_replay [] xs = xs"
| "deque_replay ((i, r) # log) xs = deque_replay log (case r of Inl _ \<Rightarrow> xs | Inr _ \<Rightarrow> deque_op_spec i xs)"

lemma deque_op_step_rep:
  assumes r: "de_rep ty ce xs d" and m: "fresh_mem mem" and pre: "deque_op_pre i xs"
  shows "\<exists>res d'. deque_op_step mem ty ce i d = Some (res, d') \<and>
    de_rep ty ce (case res of Inl _ \<Rightarrow> xs | Inr _ \<Rightarrow> deque_op_spec i xs) d'"
proof (cases i)
  case (At_back x)
  from r m show ?thesis
    by (cases rule: de_push_back_cases [where x = x]) (use At_back in simp_all)
next
  case (At_front x)
  from r m show ?thesis
    by (cases rule: de_push_front_cases [where x = x]) (use At_front in simp_all)
next
  case Off_back
  then obtain ys y where "xs = ys @ [y]" using pre by (cases xs rule: rev_cases) auto
  with Off_back show ?thesis using de_pop_back_ok(1) [of ty ce ys y d] r by auto
next
  case Off_front
  then obtain y ys where "xs = y # ys" using pre by (cases xs) auto
  with Off_front show ?thesis using de_pop_front_ok(1) [of ty ce y ys d] r by auto
next
  case Wipe
  then show ?thesis using de_clear_ok [OF r] by auto
qed

lemma deque_run_rep:
  assumes "de_rep ty ce xs d" "\<forall>mem \<in> fst ` set ops. fresh_mem mem"
  shows "\<exists>k \<le> length ops. \<exists>outs d'. run_ops (deque_step ty ce) (take k ops) d = Some (outs, d') \<and>
    de_rep ty ce (deque_replay (zip (map snd (take k ops)) outs) xs) d' \<and>
    (k < length ops \<longrightarrow> \<not> deque_op_pre (snd (ops ! k)) (deque_replay (zip (map snd (take k ops)) outs) xs))"
  using assms
proof (induction ops arbitrary: xs d)
  case Nil
  then show ?case by simp
next
  case (Cons io ops)
  obtain mem i where io: "io = (mem, i)" by (cases io)
  show ?case
  proof (cases "deque_op_pre i xs")
    case False
    then show ?thesis using Cons.prems(1) io by (intro exI [of _ 0]) simp
  next
    case True
    obtain res d1 where 1: "deque_step ty ce io d = Some (res, d1)"
        "de_rep ty ce (case res of Inl _ \<Rightarrow> xs | Inr _ \<Rightarrow> deque_op_spec i xs) d1"
      using deque_op_step_rep [OF Cons.prems(1) _ True, of mem] Cons.prems io by (auto simp: deque_step_def)
    have "\<forall>mem \<in> fst ` set ops. fresh_mem mem" using Cons.prems(2) by simp
    from Cons.IH [OF 1(2) this] obtain k outs d' where k: "k \<le> length ops"
        "run_ops (deque_step ty ce) (take k ops) d1 = Some (outs, d')"
        "de_rep ty ce (deque_replay (zip (map snd (take k ops)) outs) (case res of Inl _ \<Rightarrow> xs | Inr _ \<Rightarrow> deque_op_spec i xs)) d'"
        "k < length ops \<longrightarrow> \<not> deque_op_pre (snd (ops ! k))
           (deque_replay (zip (map snd (take k ops)) outs) (case res of Inl _ \<Rightarrow> xs | Inr _ \<Rightarrow> deque_op_spec i xs))"
      by blast
    then show ?thesis using 1(1) io
      by (intro exI [of _ "Suc k"] conjI exI [of _ "res # outs"] exI [of _ d']) simp_all
  qed
qed

text \<open>A heap that serves \<open>j\<close> chunks and then fails.\<close>

definition limited_mem :: "nat \<Rightarrow> mem" where
  "limited_mem j = (True, \<lambda>used. if finite used \<and> card used < j then Some (Suc (Max (insert 0 used))) else None)"

lemma limited_mem_fresh: "fresh_mem (limited_mem j)"
proof -
  have "Suc (Max (insert 0 used)) \<notin> used" if "finite used" for used
    using Max_ge [of "insert 0 used" "Suc (Max (insert 0 used))"] that
    by (metis Suc_n_not_le_n finite_insert insertCI)
  then show ?thesis by (auto simp: fresh_mem_def limited_mem_def split: if_splits)
qed

lemma chunk_fits_mono: "chunk_fits ce j \<Longrightarrow> c \<le> j \<Longrightarrow> chunk_fits ce c"
  unfolding chunk_fits_def using mult_le_mono1 [of "Suc c" "Suc j" ce] by linarith

lemma limited_mem_next:
  assumes "dom h = {Suc 0..m}" "chunk_fits ce j"
  shows "alloc_chunk (limited_mem j) ce h = (if m < j then Inr (Suc m, h(Suc m \<mapsto> replicate ce None)) else Inl Bad_alloc)"
    "dom (h(Suc m \<mapsto> s)) = {Suc 0..Suc m}"
proof -
  have "Max (insert 0 {Suc 0..m}) = m"
    by (rule Max_eqI) auto
  moreover have "chunk_fits ce (Suc m)" if "m < j" using chunk_fits_mono [OF assms(2)] that by simp
  ultimately show "alloc_chunk (limited_mem j) ce h = (if m < j then Inr (Suc m, h(Suc m \<mapsto> replicate ce None)) else Inl Bad_alloc)"
    using assms(1) by (simp add: alloc_chunk_def limited_mem_def)
  show "dom (h(Suc m \<mapsto> s)) = {Suc 0..Suc m}" using assms(1) by auto
qed

lemma de_alloc_nodes_limited:
  assumes "chunk_fits ce j" "dom h = {Suc 0..m}" "m \<le> j" "j < m + length ns" "\<forall>n \<in> set ns. n < length mp"
  shows "\<exists>mp' h'. de_alloc_nodes (limited_mem j) ce ns (mp, h) = Some (Inl Bad_alloc, mp', h') \<and> dom h' = {Suc 0..j}"
  using assms(2-5)
proof (induction ns arbitrary: m mp h)
  case (Cons n ns)
  note alloc = limited_mem_next [OF Cons.prems(1) assms(1)]
  show ?case
  proof (cases "m < j")
    case True
    then show ?thesis
      using Cons.IH [OF alloc(2) [of "replicate ce None"], of "mp[n := Some (Suc m)]"] Cons.prems alloc(1)
      by (simp del: fun_upd_apply)
  next
    case False
    then have "m = j" using Cons.prems(2) by simp
    then show ?thesis using Cons.prems(1) alloc(1) by simp
  qed
qed simp

lemma de_alloc_nodes_ample:
  assumes "chunk_fits ce j" "dom h = {Suc 0..m}" "m + length ns \<le> j" "\<forall>n \<in> set ns. n < length mp"
  shows "\<exists>mp' h'. de_alloc_nodes (limited_mem j) ce ns (mp, h) = Some (Inr (), mp', h')"
  using assms(2-4)
proof (induction ns arbitrary: m mp h)
  case (Cons n ns)
  note alloc = limited_mem_next [OF Cons.prems(1) assms(1)]
  show ?case
    using Cons.IH [OF alloc(2) [of "replicate ce None"], of "mp[n := Some (Suc m)]"] Cons.prems alloc(1)
    by (simp del: fun_upd_apply)
qed simp

lemma de_init_map_ample:
  fixes d :: "'a deque"
  assumes "unat n div ce < j" "chunk_fits ce j" "de_count_fits ce n"
  shows "de_init_map (limited_mem j) ce n \<noteq> Some (Inl e, d)"
proof -
  define k where "k = unat n div ce + 1"
  define ms where "ms = max 8 (k + 2)"
  define ns where "ns = (ms - k) div 2"
  have "\<exists>mp h. de_alloc_nodes (limited_mem j) ce [ns..<ns + k] (replicate ms None, Map.empty :: 'a chunk_heap) = Some (Inr (), mp, h)"
    using assms(1,2) by (intro de_alloc_nodes_ample) (auto simp: k_def ms_def ns_def)
  then show ?thesis
    using de_init_map_unfold [where 'a = 'a and mem = "limited_mem j", OF assms(3) _ k_def ms_def ns_def]
    by (auto simp: limited_mem_def Let_def bind_eq_Some_conv)
qed

lemma de_from_list_ample:
  fixes ty :: "'a elem_type"
  assumes "0 < ce" "length il div ce < j" "chunk_fits ce j" "length il < 2 ^ 55"
  shows "\<exists>d. de_from_list (limited_mem j) ty ce il = Some (Inr (), d) \<and> de_rep ty ce il d"
proof -
  have l: "length il < 2 ^ 64" using assms(4) by simp
  then have u: "unat (of_nat (length il) :: usize) = length il" by (rule unat_of_nat_usize)
  have "length il div ce \<le> length il" by (rule div_le_dividend)
  then have "length il div ce < 2 ^ 55" using assms(4) by (rule le_less_trans)
  then have fits: "de_count_fits ce (of_nat (length il))" by (simp add: de_count_fits_def u)
  have "de_from_list (limited_mem j) ty ce il \<noteq> Some (Inl Bad_alloc, d)" for d
  proof
    assume a: "de_from_list (limited_mem j) ty ce il = Some (Inl Bad_alloc, d)"
    then obtain r and d1 :: "'a deque" where i: "de_init_map (limited_mem j) ce (of_nat (length il)) = Some (r, d1)"
      by (auto simp: de_from_list_def bind_eq_Some_conv)
    with a have "r = Inl Bad_alloc" by (cases r) (auto simp: de_from_list_def bind_eq_Some_conv)
    with i de_init_map_ample [of "of_nat (length il)" ce j Bad_alloc d1] assms(2,3) fits u show False by simp
  qed
  then show ?thesis using de_from_list_rep [OF assms(1) limited_mem_fresh l fits, of j ty] by blast
qed

lemma de_init_map_ends:
  fixes d :: "'a deque"
  assumes "de_init_map mem ce n = Some (Inr (), d)"
  shows "it_cur (de_start d) = 0 \<and> it_cur (de_finish d) = unat n mod ce"
proof -
  obtain mp where m: "alloc_map mem (max 8 (size_wrap (size_wrap (unat n div ce + 1) + 2))) = Inr mp"
    using assms unfolding de_init_map_def Let_def by (auto split: sum.splits)
  let ?k = "size_wrap (unat n div ce + 1)"
  let ?ms = "max 8 (size_wrap (?k + 2))"
  obtain r mp' h where a: "de_alloc_nodes mem ce [size_minus ?ms ?k div 2..<size_minus ?ms ?k div 2 + ?k] (mp, Map.empty :: 'a chunk_heap) = Some (r, mp', h)"
    using assms unfolding de_init_map_def Let_def m by (auto simp: bind_eq_Some_conv split: if_splits)
  show ?thesis
    using assms unfolding de_init_map_def Let_def m sum.case(2) a
    by (cases r) (auto simp: bind_eq_Some_conv split: if_splits)
qed

lemma de_from_list_ends:
  fixes d :: "'a deque"
  assumes "de_from_list mem ty ce il = Some (Inr (), d)" "length il < 2 ^ 64"
  shows "it_cur (de_start d) = 0" "it_cur (de_finish d) = length il mod ce"
proof -
  obtain r and d1 :: "'a deque" where a: "de_init_map mem ce (of_nat (length il)) = Some (r, d1)"
    using assms(1) by (auto simp: de_from_list_def bind_eq_Some_conv)
  with assms(1) obtain h where "r = Inr ()" "d = d1\<lparr>de_heap := h\<rparr>"
    by (cases r) (auto simp: de_from_list_def bind_eq_Some_conv)
  then show "it_cur (de_start d) = 0" "it_cur (de_finish d) = length il mod ce"
    using de_init_map_ends [of mem ce "of_nat (length il)" d1] a unat_of_nat_usize [OF assms(2)] by simp_all
qed

lemma de_push_room:
  assumes "de_rep ty ce xs d" "fresh_mem mem"
  shows "it_cur (de_finish d) \<noteq> ce - 1 \<Longrightarrow> \<exists>d'. de_push_back mem ty ce x d = Some (Inr (), d')"
    "it_cur (de_start d) \<noteq> 0 \<Longrightarrow> \<exists>d'. de_push_front mem ty ce x d = Some (Inr (), d')"
  subgoal by (rule de_push_back_cases [OF assms, of x]) (auto simp: de_push_back_def Let_def bind_eq_Some_conv)
  subgoal by (rule de_push_front_cases [OF assms, of x]) (auto simp: de_push_front_def Let_def bind_eq_Some_conv)
  done

lemma de_filled_ample:
  assumes "unat n div ce < j" "chunk_fits ce j" "de_count_fits ce n"
  shows "de_filled (limited_mem j) ty ce n x \<noteq> Some (Inl Bad_alloc, d)"
  using de_init_map_ample [OF assms] by (auto simp: de_filled_def bind_eq_Some_conv split: sum.splits)

lemma de_copy_ample:
  assumes "de_rep ty ce xs t" "length xs div ce < j" "chunk_fits ce j"
  shows "de_copy (limited_mem j) ty ce t \<noteq> Some (Inl Bad_alloc, d)"
proof -
  obtain base cs s where l: "de_layout ty ce base cs s xs t" using assms(1) by (auto simp: de_rep_def)
  note count = de_layout_count [OF l] and sz = de_layout_size [OF l]
  show ?thesis
    using de_init_map_ample [OF _ assms(3) count(2)] assms(2)
    by (auto simp: de_copy_def sz count(1) bind_eq_Some_conv split: sum.splits)
qed

section \<open>Addresses\<close>

lemma de_position_chunk:
  assumes "de_layout ty ce base cs s xs d" "i < length xs"
  shows "(s + i) div ce < length cs"
  using de_layout_pos(2) [OF assms(1)] div_le_mono [of "s + i" "s + length xs" ce] assms(2) by simp

lemma chunk_shift:
  fixes ce :: nat
  assumes "0 < ce" shows "(n * ce + q) div ce = n + q div ce" "(n * ce + q) mod ce = q mod ce"
  using assms by simp_all

lemma de_stable_push_back:
  assumes "de_inv ty ce d" "fresh_mem mem" "i < length (de_contents ce d)"
  shows "de_push_back mem ty ce x d = Some (r, d') \<Longrightarrow> de_address ce d' i = de_address ce d i"
proof -
  assume p: "de_push_back mem ty ce x d = Some (r, d')"
  let ?xs = "de_contents ce d"
  obtain base cs s where l: "de_layout ty ce base cs s ?xs d" using de_invD [OF assms(1)] by (auto simp: de_rep_def)
  note b = de_position_chunk [OF l assms(3)]
  from de_push_back_rep [OF l assms(2), of x] p
  obtain base' cs' ys where "de_layout ty ce base' (cs @ cs') s ys d'" "i < length ys"
    using assms(3) by (metis append_Nil2 length_append_singleton less_SucI option.inject prod.inject)
  from de_layout_address [OF this] de_layout_address [OF l assms(3)] b show ?thesis
    by (simp add: nth_append)
qed

lemma de_stable_push_front:
  assumes "de_inv ty ce d" "fresh_mem mem" "i < length (de_contents ce d)"
  shows "de_push_front mem ty ce x d = Some (Inr (), d') \<Longrightarrow> de_address ce d' (Suc i) = de_address ce d i"
    "de_push_front mem ty ce x d = Some (Inl e, d') \<Longrightarrow> de_address ce d' i = de_address ce d i"
proof -
  let ?xs = "de_contents ce d"
  obtain base cs s where l: "de_layout ty ce base cs s ?xs d" using de_invD [OF assms(1)] by (auto simp: de_rep_def)
  note b = de_position_chunk [OF l assms(3)] and a = de_layout_address [OF l assms(3)]
  note ce = de_layout_pos(1) [OF l]
  show "de_address ce d' (Suc i) = de_address ce d i" if p: "de_push_front mem ty ce x d = Some (Inr (), d')"
  proof -
    obtain base' cs' s' where l': "de_layout ty ce base' (cs' @ cs) s' (x # ?xs) d'" and e: "Suc s' = length cs' * ce + s"
      using de_push_front_rep [OF l assms(2), of x] p by auto
    have q: "s' + Suc i = length cs' * ce + (s + i)" using e by simp
    have "Suc i < length (x # ?xs)" using assms(3) by simp
    from de_layout_address [OF l' this] a b show ?thesis
      unfolding q chunk_shift [OF ce] by (simp add: nth_append)
  qed
  show "de_address ce d' i = de_address ce d i" if p: "de_push_front mem ty ce x d = Some (Inl e, d')"
  proof -
    obtain base' where "de_layout ty ce base' cs s ?xs d'"
      using de_push_front_rep [OF l assms(2), of x] p by auto
    from de_layout_address [OF this assms(3)] a show ?thesis by simp
  qed
qed

lemma de_stable_pop_back:
  assumes "de_inv ty ce d" "Suc i < length (de_contents ce d)"
  shows "de_pop_back ty ce d = Some d' \<Longrightarrow> de_address ce d' i = de_address ce d i"
proof -
  assume p: "de_pop_back ty ce d = Some d'"
  obtain xs x where xs: "de_contents ce d = xs @ [x]" using assms(2) by (cases "de_contents ce d" rule: rev_cases) auto
  obtain base cs s where l: "de_layout ty ce base cs s (xs @ [x]) d"
    using de_invD [OF assms(1)] xs by (auto simp: de_rep_def)
  obtain k where l': "de_layout ty ce base (take k cs) s xs d'" using de_pop_back_rep(1) [OF l] p by auto
  have i: "i < length xs" "i < length (xs @ [x])" using assms(2) xs by simp_all
  show ?thesis
    using de_layout_address [OF l' i(1)] de_layout_address [OF l i(2)] de_position_chunk [OF l' i(1)] by simp
qed

lemma de_stable_pop_front:
  assumes "de_inv ty ce d" "Suc i < length (de_contents ce d)"
  shows "de_pop_front ty ce d = Some d' \<Longrightarrow> de_address ce d' i = de_address ce d (Suc i)"
proof -
  assume p: "de_pop_front ty ce d = Some d'"
  obtain xs x where xs: "de_contents ce d = x # xs" using assms(2) by (cases "de_contents ce d") auto
  obtain base cs s where l: "de_layout ty ce base cs s (x # xs) d"
    using de_invD [OF assms(1)] xs by (auto simp: de_rep_def)
  obtain base' j s' where l': "de_layout ty ce base' (drop j cs) s' xs d'" and e: "Suc s = j * ce + s'"
    using de_pop_front_rep(1) [OF l] p by auto
  have i: "i < length xs" "Suc i < length (x # xs)" using assms(2) xs by simp_all
  have q: "s + Suc i = j * ce + (s' + i)" using e by simp
  have "j \<le> length cs" using de_layout_pos(4) [OF l'] by simp
  then show ?thesis
    using de_layout_address [OF l' i(1)] de_layout_address [OF l i(2)]
    unfolding q chunk_shift [OF de_layout_pos(1) [OF l]] by simp
qed

section \<open>Iterators of a deque\<close>

text \<open>\<open>begin() + i\<close>.\<close>

definition de_nth_iter :: "nat \<Rightarrow> 'a deque \<Rightarrow> nat \<Rightarrow> iter option" where
  "de_nth_iter ce d i = do { mp \<leftarrow> de_map d; iter_add ce mp (int i) (de_start d) }"

lemma de_layout_nth_iter:
  assumes l: "de_layout ty ce base cs s xs d" and i: "i \<le> length xs"
  shows "de_nth_iter ce d i = Some (pos_iter ce base cs (s + i))" "(s + i) div ce < length cs"
proof -
  show q: "(s + i) div ce < length cs"
    using de_layout_pos(2) [OF l] div_le_mono [of "s + i" "s + length xs" ce] i by simp
  from l obtain mp where "de_map d = Some mp" "de_links base cs mp" "de_start d = pos_iter ce base cs s"
    by (auto simp: de_layout_def)
  then show "de_nth_iter ce d i = Some (pos_iter ce base cs (s + i))"
    using iter_add_pos [of base cs mp ce s "int i" "s + i"] q de_layout_pos(1) [OF l] by (simp add: de_nth_iter_def)
qed

section \<open>Properties\<close>

text \<open>
  C15. From the default constructor on, every history of \<open>push_back\<close>, \<open>push_front\<close>,
  \<open>pop_back\<close>, \<open>pop_front\<close> and \<open>clear\<close>, whatever allocations of chunks or of the map
  fail, runs without undefined behaviour as long as no pop meets an empty deque, and performs
  the corresponding operations on a list; an operation that throws \<open>bad_alloc\<close> leaves the
  contents as they were. The destructor then destroys every element once and frees every
  chunk.
\<close>

theorem deque_histories:
  fixes ty :: "'a elem_type"
  assumes "0 < ce" "fresh_mem mem" "\<forall>mem \<in> fst ` set ops. fresh_mem mem"
  shows "(\<exists>d :: 'a deque. de_new mem ce = Some (Inl Bad_alloc, d)) \<or>
    (\<exists>d0. de_new mem ce = Some (Inr (), d0) \<and>
      (\<exists>k \<le> length ops. \<exists>outs d d'. run_ops (deque_step ty ce) (take k ops) d0 = Some (outs, d) \<and>
        de_inv ty ce d \<and> de_contents ce d = deque_replay (zip (map snd (take k ops)) outs) [] \<and>
        (k < length ops \<longrightarrow> \<not> deque_op_pre (snd (ops ! k)) (de_contents ce d)) \<and>
        de_teardown ty ce d = Some d' \<and> de_heap d' = Map.empty \<and> de_map d' = None))"
  using assms(1,2)
proof (cases rule: de_new_cases [where ty = ty])
  case (2 d0)
  from deque_run_rep [OF 2(2) assms(3)] obtain k outs d where
    k: "k \<le> length ops" "run_ops (deque_step ty ce) (take k ops) d0 = Some (outs, d)"
    and r: "de_rep ty ce (deque_replay (zip (map snd (take k ops)) outs) []) d"
    and pre: "k < length ops \<longrightarrow> \<not> deque_op_pre (snd (ops ! k)) (deque_replay (zip (map snd (take k ops)) outs) [])"
    by blast
  show ?thesis
    using 2(1) k pre de_rep_inv [OF r] de_rep_contents [OF r] de_teardown_ok [OF r] by auto
qed auto

theorem deque_histories_witness:
  "\<exists>d0 :: int deque. de_new (limited_mem 2) 64 = Some (Inr (), d0) \<and>
     (\<exists>outs d. run_ops (deque_step \<lparr>is_trivial = False, residue = id\<rparr> 64)
        [(limited_mem 0, At_front 7), (limited_mem 1, At_back 8)] d0 = Some (outs, d) \<and>
        de_contents 64 d = deque_replay (zip [At_front 7, At_back 8] outs) [])"
proof -
  let ?ops = "[(limited_mem 0, At_front 7), (limited_mem 1, At_back 8)] :: (mem \<times> int deque_op) list"
  have n: "de_new (limited_mem 2) 64 \<noteq> Some (Inl Bad_alloc, d)" for d :: "int deque"
    using de_init_map_ample [of 0 64 2] by (simp add: de_new_def chunk_fits_def de_count_fits_def)
  have "\<forall>mem \<in> fst ` set ?ops. fresh_mem mem" by (simp add: limited_mem_fresh)
  from deque_histories [where ce = 64 and mem = "limited_mem 2" and ops = ?ops and
      ty = "\<lparr>is_trivial = False, residue = id\<rparr>", OF zero_less_numeral limited_mem_fresh this] n
  obtain d0 k outs d where d: "de_new (limited_mem 2) 64 = Some (Inr (), d0)"
    "run_ops (deque_step \<lparr>is_trivial = False, residue = id\<rparr> 64) (take k ?ops) d0 = Some (outs, d)"
    "de_contents 64 d = deque_replay (zip (map snd (take k ?ops)) outs) []" "k \<le> length ?ops"
    "k < length ?ops \<longrightarrow> \<not> deque_op_pre (snd (?ops ! k)) (de_contents 64 d)"
    by blast
  have "k = 2"
  proof (rule ccontr)
    assume "k \<noteq> 2"
    then have "k = 0 \<or> k = 1" using d(4) by auto
    with d(5) show False by auto
  qed
  with d show ?thesis by auto
qed

text \<open>
  C16. References stay valid: no operation at either end moves an element that stays.
  The address of every element, the first, the last and the only one included, is the same
  after \<open>push_back\<close> and \<open>push_front\<close>, also when the map is reallocated or when an allocation
  fails and the push throws; the address of every element but the removed one is the same
  after \<open>pop_back\<close> and \<open>pop_front\<close>.
\<close>

theorem deque_reference_stability:
  assumes "de_inv ty ce d" "fresh_mem mem" "i < length (de_contents ce d)"
  shows "(\<forall>r d'. de_push_back mem ty ce x d = Some (r, d') \<longrightarrow> de_address ce d' i = de_address ce d i) \<and>
    (\<forall>d'. de_push_front mem ty ce x d = Some (Inr (), d') \<longrightarrow> de_address ce d' (Suc i) = de_address ce d i) \<and>
    (\<forall>e d'. de_push_front mem ty ce x d = Some (Inl e, d') \<longrightarrow> de_address ce d' i = de_address ce d i) \<and>
    (Suc i < length (de_contents ce d) \<longrightarrow>
      (\<forall>d'. de_pop_back ty ce d = Some d' \<longrightarrow> de_address ce d' i = de_address ce d i) \<and>
      (\<forall>d'. de_pop_front ty ce d = Some d' \<longrightarrow> de_address ce d' i = de_address ce d (Suc i)))"
  using de_stable_push_back [OF assms] de_stable_push_front [OF assms]
    de_stable_pop_back [OF assms(1)] de_stable_pop_front [OF assms(1)] by blast

theorem deque_reference_stability_witness:
  "\<exists>(d :: int deque) d1 d2 a. de_contents 9 d = [4] \<and> de_address 9 d 0 = Some a \<and>
    de_push_back (limited_mem 1) \<lparr>is_trivial = False, residue = id\<rparr> 9 6 d = Some (Inr (), d1) \<and>
    de_address 9 d1 0 = Some a \<and>
    de_push_front (limited_mem 1) \<lparr>is_trivial = False, residue = id\<rparr> 9 6 d = Some (Inr (), d2) \<and>
    de_address 9 d2 1 = Some a"
proof -
  let ?ty = "\<lparr>is_trivial = False, residue = id\<rparr> :: int elem_type"
  obtain e where e: "de_from_list (limited_mem 9) ?ty 9 [3, 4] = Some (Inr (), e)" "de_rep ?ty 9 [3, 4] e"
    using de_from_list_ample [of 9 "[3, 4] :: int list" 9 ?ty] by (auto simp: chunk_fits_def)
  have ends: "it_cur (de_start e) = 0" "it_cur (de_finish e) = 2" using de_from_list_ends [OF e(1)] by simp_all
  obtain d where d: "de_pop_front ?ty 9 e = Some d" "de_rep ?ty 9 [4] d" using de_pop_front_ok(1) [OF e(2)] by blast
  have cur: "it_cur (de_start d) = 1" "it_cur (de_finish d) = 2"
    using d(1) ends by (auto simp: de_pop_front_def Let_def bind_eq_Some_conv)
  obtain d1 where d1: "de_push_back (limited_mem 1) ?ty 9 6 d = Some (Inr (), d1)"
    using de_push_room(1) [OF d(2) limited_mem_fresh] cur by auto
  obtain d2 where d2: "de_push_front (limited_mem 1) ?ty 9 6 d = Some (Inr (), d2)"
    using de_push_room(2) [OF d(2) limited_mem_fresh] cur by auto
  obtain base cs s where "de_layout ?ty 9 base cs s [4] d" using d(2) by (auto simp: de_rep_def)
  from de_layout_address [OF this, of 0] obtain a where a: "de_address 9 d 0 = Some a" by simp
  note i = de_rep_inv [OF d(2)] and c = de_rep_contents [OF d(2)]
  have "0 < length (de_contents 9 d)" unfolding c by simp
  from deque_reference_stability [OF i limited_mem_fresh this, of 1 6] d1 d2 a
  have "de_address 9 d1 0 = Some a" "de_address 9 d2 1 = Some a" by auto
  with d1 d2 a c show ?thesis by blast
qed

text \<open>
  Iterators are random access: \<open>begin() + i\<close> points to the \<open>i\<close>-th element,
  \<open>begin() + size()\<close> is \<open>end()\<close>, and distance, comparison, addition of a signed offset,
  increment and decrement work across chunk borders as on indices.
\<close>

theorem deque_iterators:
  assumes "de_inv ty ce d" "n = length (de_contents ce d)" "i \<le> n" "j \<le> n"
  shows "\<exists>mp a b. de_map d = Some mp \<and> de_nth_iter ce d i = Some a \<and> de_nth_iter ce d j = Some b \<and>
    (i < n \<longrightarrow> iter_deref (de_heap d) a = Some (de_contents ce d ! i) \<and> iter_inc ce mp a = de_nth_iter ce d (i + 1)) \<and>
    (0 < i \<longrightarrow> iter_dec ce mp a = de_nth_iter ce d (i - 1)) \<and>
    de_nth_iter ce d n = Some (de_finish d) \<and>
    iter_diff ce b a = int j - int i \<and> (iter_eq a b \<longleftrightarrow> i = j) \<and> (iter_less a b \<longleftrightarrow> i < j) \<and>
    iter_add ce mp (int j - int i) a = Some b"
proof -
  let ?xs = "de_contents ce d"
  obtain base cs s where l: "de_layout ty ce base cs s ?xs d" using de_invD [OF assms(1)] by (auto simp: de_rep_def)
  note P = de_layout_pos [OF l] and nth = de_layout_nth_iter [OF l]
  from l obtain mp where mp: "de_map d = Some mp" "de_links base cs mp" "de_finish d = pos_iter ce base cs (s + n)"
      "distinct cs" using assms(2) by (auto simp: de_layout_def dest: chunks_holdD(1))
  have ij: "i \<le> length ?xs" "j \<le> length ?xs" using assms(2-4) by simp_all
  note I = nth [OF ij(1)] and J = nth [OF ij(2)]
  have N: "de_nth_iter ce d n = Some (de_finish d)" using nth(1) [of n] mp(3) assms(2) by simp
  have inc: "iter_deref (de_heap d) (pos_iter ce base cs (s + i)) = Some (?xs ! i)"
    "iter_inc ce mp (pos_iter ce base cs (s + i)) = de_nth_iter ce d (i + 1)" if "i < n"
    using that de_layout_index [OF l, of i] I mp assms(2) nth [of "Suc i"]
      iter_inc_pos [OF mp(2) P(1), of "s + i"] by (simp_all add: de_index_def de_nth_iter_def)
  have dec: "iter_dec ce mp (pos_iter ce base cs (s + i)) = de_nth_iter ce d (i - 1)" if "0 < i"
  proof -
    obtain k where "i = Suc k" using \<open>0 < i\<close> by (cases i) auto
    then show ?thesis using iter_dec_pos [OF mp(2) P(1), of "s + k"] I nth [of k] ij by simp
  qed
  have "iter_add ce mp (int j - int i) (pos_iter ce base cs (s + i)) = Some (pos_iter ce base cs (s + j))"
    using J by (intro iter_add_pos [OF mp(2) P(1)]) simp_all
  moreover have "iter_diff ce (pos_iter ce base cs (s + j)) (pos_iter ce base cs (s + i)) = int j - int i"
    "iter_eq (pos_iter ce base cs (s + i)) (pos_iter ce base cs (s + j)) \<longleftrightarrow> i = j"
    "iter_less (pos_iter ce base cs (s + i)) (pos_iter ce base cs (s + j)) \<longleftrightarrow> i < j"
    using iter_diff_pos [OF P(1)] iter_eq_pos [OF mp(4) I(2) J(2)] iter_less_pos [OF P(1)] by simp_all
  ultimately show ?thesis
    by (intro exI [of _ mp] exI [of _ "pos_iter ce base cs (s + i)"] exI [of _ "pos_iter ce base cs (s + j)"] conjI
        impI mp(1) I(1) J(1) N inc dec)
qed

theorem deque_iterators_witness:
  "\<exists>d :: int deque. de_inv \<lparr>is_trivial = False, residue = id\<rparr> 2 d \<and> de_contents 2 d = [4, 5, 6] \<and>
    (\<exists>mp a b. de_map d = Some mp \<and> de_nth_iter 2 d 3 = Some a \<and> de_nth_iter 2 d 0 = Some b \<and> iter_diff 2 b a = - 3)"
proof -
  let ?ty = "\<lparr>is_trivial = False, residue = id\<rparr> :: int elem_type"
  obtain d where d: "de_rep ?ty 2 [4, 5, 6] d"
    using de_from_list_ample [of 2 "[4, 5, 6] :: int list" 9 ?ty] by (auto simp: chunk_fits_def)
  note i = de_rep_inv [OF d] and c = de_rep_contents [OF d]
  have le: "3 \<le> length (de_contents 2 d)" "0 \<le> length (de_contents 2 d)" unfolding c by simp_all
  from deque_iterators [OF i refl le] obtain mp a b where "de_map d = Some mp" "de_nth_iter 2 d 3 = Some a"
    "de_nth_iter 2 d 0 = Some b" "iter_diff 2 b a = int 0 - int 3" by blast
  with i c show ?thesis by auto
qed

lemma de_resize_values:
  assumes "de_rep ty ce (de_contents ce d) d" "fresh_mem mem"
  shows "\<exists>d' k. de_resize mem ty ce n x d = Some (Inl Bad_alloc, d') \<and> de_inv ty ce d' \<and>
        de_contents ce d' = de_contents ce d @ replicate k x \<and> length (de_contents ce d) + k < n \<or>
      de_resize mem ty ce n x d = Some (Inr (), d') \<and> de_inv ty ce d' \<and>
        de_contents ce d' = take n (de_contents ce d) @ replicate (n - length (de_contents ce d)) x"
proof -
  have v: "de_inv ty ce d' \<and> de_contents ce d' = xs" if "de_rep ty ce xs d'" for xs d'
    using de_rep_inv [OF that] de_rep_contents [OF that] ..
  from de_resize_rep [OF assms, of n x] show ?thesis
  proof (elim disjE exE conjE)
    fix d' k
    assume "k < n - length (de_contents ce d)" "de_resize mem ty ce n x d = Some (Inl Bad_alloc, d')"
      "de_rep ty ce (de_contents ce d @ replicate k x) d'"
    then show ?thesis using v [of "de_contents ce d @ replicate k x" d'] less_diff_conv [of k] by (metis add.commute)
  next
    fix d'
    assume "de_resize mem ty ce n x d = Some (Inr (), d')"
      "de_rep ty ce (take n (de_contents ce d) @ replicate (n - length (de_contents ce d)) x) d'"
    then show ?thesis using v by blast
  qed
qed



text \<open>
  After any history of pushes and pops at the back, with any failures of allocation, the
  deque holds exactly what the reported results say, \<open>at(i)\<close> returns its \<open>i\<close>-th element and
  throws \<open>out_of_range\<close> from its size on, and popping everything returns the elements in
  reverse.
\<close>

theorem deque_back_histories:
  assumes "de_inv ty ce d0" "de_contents ce d0 = []" "\<forall>mem \<in> fst ` set ops. fresh_mem mem"
  shows "\<exists>outs d. run_ops (\<lambda>(mem, i). container_step (de_offer ty ce mem) (de_poll_back ty ce) i) ops d0 = Some (outs, d) \<and>
    back_replay (zip (map snd ops) outs) [] = Some (de_contents ce d) \<and>
    (\<forall>i. de_at ce d i = Some (if unat i < length (de_contents ce d) then Inr (de_contents ce d ! unat i) else Inl Out_of_range)) \<and>
    (\<exists>d'. pop_batch (de_poll_back ty ce) (length (de_contents ce d)) d = Some (rev (de_contents ce d), d'))"
proof -
  obtain outs d where "run_ops (\<lambda>(mem, i). container_step (de_offer ty ce mem) (de_poll_back ty ce) i) ops d0 = Some (outs, d)"
      "back_replay (zip (map snd ops) outs) [] = Some (de_contents ce d)" "de_inv ty ce d"
    using de_seq.histories [OF assms(1,3), unfolded assms(2)] by blast
  with de_seq.elem_nth de_seq.drain show ?thesis by blast
qed

theorem deque_back_histories_witness:
  "\<exists>d0 d :: int deque. \<exists>outs. de_contents 3 d0 = [] \<and>
     run_ops (\<lambda>(mem, i). container_step (de_offer \<lparr>is_trivial = False, residue = id\<rparr> 3 mem)
       (de_poll_back \<lparr>is_trivial = False, residue = id\<rparr> 3) i) [(limited_mem 0, Push 4), (limited_mem 0, Pop)] d0 = Some (outs, d) \<and>
     back_replay (zip [Push 4, Pop] outs) [] = Some (de_contents 3 d)"
proof -
  let ?ty = "\<lparr>is_trivial = False, residue = id\<rparr> :: int elem_type"
  obtain d0 where d: "de_rep ?ty 3 [] d0"
    using de_from_list_ample [of 3 "[] :: int list" 9 ?ty] by (auto simp: chunk_fits_def)
  have "\<forall>mem \<in> fst ` set [(limited_mem 0, Push 4), (limited_mem 0, Pop :: int container_op)]. fresh_mem mem"
    by (simp add: limited_mem_fresh)
  from deque_back_histories [OF de_rep_inv [OF d] de_rep_contents [OF d] this] de_rep_contents [OF d]
  show ?thesis by auto
qed

text \<open>
  A constructor that needs several chunks and fails to get one of them throws
  \<open>bad_alloc\<close> with the map and the chunks it has allocated so far: the destructor does not
  run for them, so all of that memory is leaked.
\<close>

theorem deque_constructor_leaks:
  fixes ty :: "'a elem_type"
  assumes "j \<le> unat n div ce" "chunk_fits ce j" "de_count_fits ce n"
  shows "\<exists>d. de_filled (limited_mem j) ty ce n x = Some (Inl Bad_alloc, d) \<and> de_map d \<noteq> None \<and>
    card (dom (de_heap d)) = j"
proof -
  define k where "k = unat n div ce + 1"
  define ms where "ms = max 8 (k + 2)"
  define ns where "ns = (ms - k) div 2"
  have "\<exists>mp h. de_alloc_nodes (limited_mem j) ce [ns..<ns + k] (replicate ms None, Map.empty :: 'a chunk_heap) =
      Some (Inl Bad_alloc, mp, h) \<and> dom h = {Suc 0..j}"
    by (rule de_alloc_nodes_limited [OF assms(2), where m = 0]) (use assms(1) in \<open>auto simp: k_def ms_def ns_def\<close>)
  then show ?thesis
    using de_init_map_unfold [where 'a = 'a and mem = "limited_mem j", OF assms(3) _ k_def ms_def ns_def]
    by (auto simp: limited_mem_def Let_def de_filled_def)
qed

theorem deque_constructor_leaks_witness:
  "\<exists>d :: int deque. de_filled (limited_mem 2) \<lparr>is_trivial = True, residue = id\<rparr> 64 200 7 = Some (Inl Bad_alloc, d) \<and>
     card (dom (de_heap d)) = 2"
  using deque_constructor_leaks [of 2 200 64 "\<lparr>is_trivial = True, residue = id\<rparr> :: int elem_type" 7]
  by (auto simp: chunk_fits_def de_count_fits_def)

text \<open>
  A deque that has been moved from is empty, has size 0 and can be cleared, destroyed
  and assigned to, but every insertion into it is undefined behaviour: it accesses memory
  through a null pointer (\<open>std::deque\<close> allows it).
\<close>

theorem deque_moved_from_unusable:
  "snd (de_move d) = de_moved_from \<and> de_empty (de_moved_from :: 'a deque) \<and> de_size ce (de_moved_from :: 'a deque) = 0 \<and>
   de_clear ty ce de_moved_from = Some de_moved_from \<and> de_teardown ty ce de_moved_from = Some de_moved_from \<and>
   de_push_back mem ty ce x de_moved_from = None \<and> de_push_front mem ty ce x de_moved_from = None"
  by (simp add: de_move_def de_moved_from_def de_empty_def iter_eq_def null_iter_def de_size_def de_clear_def
      de_teardown_def de_push_back_def de_push_front_def de_push_back_aux_def de_push_front_aux_def
      de_reserve_map_at_back_def de_reserve_map_at_front_def de_reallocate_map_def alloc_map_def chunk_construct_def Let_def)

end
