(* ===== verification/DequeIterators.thy ===== *)
theory DequeIterators
  imports Deque Traversal
begin

text \<open>
  The rest of the iterator interface of \<open>hpc::core::deque<T>\<close> (\<open>include/hpc/core/deque.hpp\<close>):
  \<open>begin\<close>, \<open>end\<close>, \<open>rbegin\<close>, \<open>rend\<close>, the arithmetic and comparison operators that are
  defined through others, and the loops over a whole deque in both directions.
\<close>

section \<open>Operators\<close>

definition chunk_elems :: "usize \<Rightarrow> usize" where
  "chunk_elems sz = (if sz < 512 then 512 div sz else 1)"

definition iter_sub :: "nat \<Rightarrow> chunk_ptr list \<Rightarrow> int \<Rightarrow> iter \<Rightarrow> iter option" where
  "iter_sub ce mp n it = iter_add ce mp (- n) it"

text \<open>\<open>i + n\<close> and \<open>n + i\<close>, \<open>i - n\<close>, \<open>i[n]\<close>\<close>

definition iter_plus :: "nat \<Rightarrow> chunk_ptr list \<Rightarrow> iter \<Rightarrow> int \<Rightarrow> iter option" where
  "iter_plus ce mp i n = iter_add ce mp n i"

definition iter_minus :: "nat \<Rightarrow> chunk_ptr list \<Rightarrow> iter \<Rightarrow> int \<Rightarrow> iter option" where
  "iter_minus ce mp i n = iter_sub ce mp n i"

definition iter_at :: "nat \<Rightarrow> chunk_ptr list \<Rightarrow> 'a chunk_heap \<Rightarrow> iter \<Rightarrow> int \<Rightarrow> 'a option" where
  "iter_at ce mp h i n = do { t \<leftarrow> iter_plus ce mp i n; iter_deref h t }"

definition iter_greater :: "iter \<Rightarrow> iter \<Rightarrow> bool" where
  "iter_greater a b \<longleftrightarrow> iter_less b a"

definition iter_less_eq :: "iter \<Rightarrow> iter \<Rightarrow> bool" where
  "iter_less_eq a b \<longleftrightarrow> \<not> iter_less b a"

definition iter_greater_eq :: "iter \<Rightarrow> iter \<Rightarrow> bool" where
  "iter_greater_eq a b \<longleftrightarrow> \<not> iter_less a b"

definition de_begin :: "'a deque \<Rightarrow> iter" where
  "de_begin d = de_start d"

definition de_end :: "'a deque \<Rightarrow> iter" where
  "de_end d = de_finish d"

definition de_rbegin :: "'a deque \<Rightarrow> iter reverse_iterator" where
  "de_rbegin d = Reverse (de_end d)"

definition de_rend :: "'a deque \<Rightarrow> iter reverse_iterator" where
  "de_rend d = Reverse (de_begin d)"

text \<open>Increment and decrement with the map of the deque that the iterator points into.\<close>

definition de_inc :: "nat \<Rightarrow> 'a deque \<Rightarrow> iter \<Rightarrow> iter option" where
  "de_inc ce d it = do { mp \<leftarrow> de_map d; iter_inc ce mp it }"

definition de_dec :: "nat \<Rightarrow> 'a deque \<Rightarrow> iter \<Rightarrow> iter option" where
  "de_dec ce d it = do { mp \<leftarrow> de_map d; iter_dec ce mp it }"

section \<open>The iterators of a deque are a range\<close>

definition de_pos :: "nat \<Rightarrow> 'a deque \<Rightarrow> nat \<Rightarrow> iter" where
  "de_pos ce d i = the (de_nth_iter ce d i)"

lemma de_pos_layout:
  assumes "de_inv ty ce d"
  obtains base cs s mp where "de_layout ty ce base cs s (de_contents ce d) d" "de_map d = Some mp"
    "de_links base cs mp" "distinct cs" "0 < ce"
    "\<And>i. i \<le> length (de_contents ce d) \<Longrightarrow> de_pos ce d i = pos_iter ce base cs (s + i) \<and> (s + i) div ce < length cs"
    "de_begin d = de_pos ce d 0" "de_end d = de_pos ce d (length (de_contents ce d))"
proof -
  obtain base cs s where l: "de_layout ty ce base cs s (de_contents ce d) d"
    using de_invD [OF assms] by (auto simp: de_rep_def)
  note nth = de_layout_nth_iter [OF l]
  from l obtain mp where mp: "de_map d = Some mp" "de_links base cs mp" "distinct cs"
      "de_start d = pos_iter ce base cs s" "de_finish d = pos_iter ce base cs (s + length (de_contents ce d))"
    by (auto simp: de_layout_def dest: chunks_holdD(1))
  have p: "de_pos ce d i = pos_iter ce base cs (s + i) \<and> (s + i) div ce < length cs"
    if "i \<le> length (de_contents ce d)" for i
    using nth [OF that] by (simp add: de_pos_def)
  from that [OF l mp(1-3) de_layout_pos(1) [OF l] p] show ?thesis
    using p mp(4,5) by (simp add: de_begin_def de_end_def)
qed

interpretation de_range: iterator_range "de_inv ty ce" "de_contents ce" "de_pos ce" "de_inc ce" "de_dec ce"
    "\<lambda>d. iter_deref (de_heap d)" iter_eq
proof unfold_locales
  fix d :: "'a deque" and i j
  assume inv: "de_inv ty ce d"
  obtain base cs s mp where P: "de_layout ty ce base cs s (de_contents ce d) d" "de_map d = Some mp"
    "de_links base cs mp" "distinct cs" "0 < ce"
    "\<And>i. i \<le> length (de_contents ce d) \<Longrightarrow> de_pos ce d i = pos_iter ce base cs (s + i) \<and> (s + i) div ce < length cs"
    by (rule de_pos_layout [OF inv]) blast
  show "de_inc ce d (de_pos ce d i) = Some (de_pos ce d (Suc i))" if i: "i < length (de_contents ce d)"
    using P(2) P(6) [of i] P(6) [of "Suc i"] i iter_inc_pos [OF P(3,5), of "s + i"] by (simp add: de_inc_def)
  show "de_dec ce d (de_pos ce d (Suc i)) = Some (de_pos ce d i)" if i: "i < length (de_contents ce d)"
    using P(2) P(6) [of i] P(6) [of "Suc i"] i iter_dec_pos [OF P(3,5), of "s + i"] by (simp add: de_dec_def)
  show "iter_deref (de_heap d) (de_pos ce d i) = Some (de_contents ce d ! i)" if i: "i < length (de_contents ce d)"
    using P(6) [of i] i de_layout_index [OF P(1) i] de_layout_nth_iter(1) [OF P(1), of i] P(2)
    by (simp add: de_index_def de_nth_iter_def)
  show "iter_eq (de_pos ce d i) (de_pos ce d j) \<longleftrightarrow> i = j"
    if i: "i \<le> length (de_contents ce d)" "j \<le> length (de_contents ce d)"
    using P(6) [OF i(1)] P(6) [OF i(2)] iter_eq_pos [OF P(4), of "s + i" ce "s + j" base] by simp
qed

text \<open>At least one element fits a chunk, and a chunk of several takes at most 512 bytes.\<close>

lemma chunk_elems_bounds:
  assumes "sizeof_ok sz"
  shows "0 < unat (chunk_elems sz)" "unat (chunk_elems sz) * unat sz \<le> max 512 (unat sz)"
proof -
  have "0 < unat (chunk_elems sz) \<and> unat (chunk_elems sz) * unat sz \<le> max 512 (unat sz)"
  proof (cases "sz < 512")
    case True
    then have l: "unat sz \<le> 512" by (simp add: word_less_nat_alt)
    then have "0 < 512 div unat sz" using assms by (simp add: sizeof_ok_def div_greater_zero_iff)
    moreover have "512 div unat sz * unat sz \<le> max 512 (unat sz)"
      by (rule le_trans [OF div_times_less_eq_dividend]) simp
    moreover have "unat (chunk_elems sz) = 512 div unat sz" using True by (simp add: chunk_elems_def unat_div)
    ultimately show ?thesis by (simp only:)
  qed (simp add: chunk_elems_def)
  then show "0 < unat (chunk_elems sz)" "unat (chunk_elems sz) * unat sz \<le> max 512 (unat sz)" by auto
qed

section \<open>Properties\<close>

text \<open>
  C30. The iterators of a deque. A loop from \<open>begin()\<close> to \<open>end()\<close> visits the elements in
  order and ends, one from \<open>rbegin()\<close> to \<open>rend()\<close> visits them in reverse order; between any
  two positions of the deque, \<open>+\<close>, \<open>-\<close> and \<open>[]\<close> with a signed offset, distance and all six
  comparisons act as on indices, across the borders of chunks.
\<close>

theorem deque_traversals:
  assumes "de_inv ty ce d"
  shows "range_walk (de_inc ce d) (iter_deref (de_heap d)) iter_eq (de_begin d) (de_end d) = Some (de_contents ce d) \<and>
    range_walk (rev_inc (de_dec ce d)) (rev_deref (de_dec ce d) (iter_deref (de_heap d))) (rev_same iter_eq)
      (de_rbegin d) (de_rend d) = Some (rev (de_contents ce d)) \<and>
    (\<exists>mp. de_map d = Some mp \<and> (\<forall>i j. i \<le> length (de_contents ce d) \<longrightarrow> j \<le> length (de_contents ce d) \<longrightarrow>
      (let a = de_pos ce d i; b = de_pos ce d j in
        iter_plus ce mp a (int j - int i) = Some b \<and> iter_minus ce mp a (int i - int j) = Some b \<and>
        (j < length (de_contents ce d) \<longrightarrow>
          iter_at ce mp (de_heap d) a (int j - int i) = Some (de_contents ce d ! j)) \<and>
        iter_diff ce b a = int j - int i \<and> (iter_eq a b \<longleftrightarrow> i = j) \<and>
        (iter_less a b \<longleftrightarrow> i < j) \<and> (iter_greater a b \<longleftrightarrow> j < i) \<and>
        (iter_less_eq a b \<longleftrightarrow> i \<le> j) \<and> (iter_greater_eq a b \<longleftrightarrow> j \<le> i))))"
proof -
  let ?n = "length (de_contents ce d)"
  obtain base cs s mp where P: "de_map d = Some mp" "de_links base cs mp" "distinct cs" "0 < ce"
    "\<And>i. i \<le> ?n \<Longrightarrow> de_pos ce d i = pos_iter ce base cs (s + i) \<and> (s + i) div ce < length cs"
    "de_begin d = de_pos ce d 0" "de_end d = de_pos ce d ?n"
    by (rule de_pos_layout [OF assms]) blast
  have add: "iter_add ce mp (int j - int i) (de_pos ce d i) = Some (de_pos ce d j)" if "i \<le> ?n" "j \<le> ?n" for i j
    using P(5) [OF that(1)] P(5) [OF that(2)] by (simp add: iter_add_pos [OF P(2,4)])
  have le: "iter_less (de_pos ce d i) (de_pos ce d j) \<longleftrightarrow> i < j"
    "iter_diff ce (de_pos ce d j) (de_pos ce d i) = int j - int i" if "i \<le> ?n" "j \<le> ?n" for i j
    using P(5) [OF that(1)] P(5) [OF that(2)] by (simp_all add: iter_less_pos [OF P(4)] iter_diff_pos [OF P(4)])
  have all: "\<forall>i j. i \<le> ?n \<longrightarrow> j \<le> ?n \<longrightarrow>
      (let a = de_pos ce d i; b = de_pos ce d j in
        iter_plus ce mp a (int j - int i) = Some b \<and> iter_minus ce mp a (int i - int j) = Some b \<and>
        (j < ?n \<longrightarrow> iter_at ce mp (de_heap d) a (int j - int i) = Some (de_contents ce d ! j)) \<and>
        iter_diff ce b a = int j - int i \<and> (iter_eq a b \<longleftrightarrow> i = j) \<and>
        (iter_less a b \<longleftrightarrow> i < j) \<and> (iter_greater a b \<longleftrightarrow> j < i) \<and>
        (iter_less_eq a b \<longleftrightarrow> i \<le> j) \<and> (iter_greater_eq a b \<longleftrightarrow> j \<le> i))"
    using de_range.deref_pos [OF assms] de_range.same_pos [OF assms]
    by (auto simp: Let_def iter_plus_def iter_minus_def iter_sub_def iter_at_def iter_greater_def iter_less_eq_def
        iter_greater_eq_def add le)
  then show ?thesis
    using de_range.walk [OF assms] de_range.reverse_walk [OF assms] P(1,6,7)
    by (simp add: de_rbegin_def de_rend_def)
qed

theorem deque_traversals_witness:
  "\<exists>d :: int deque. de_inv \<lparr>is_trivial = False, residue = id\<rparr> 2 d \<and>
    range_walk (de_inc 2 d) (iter_deref (de_heap d)) iter_eq (de_begin d) (de_end d) = Some [4, 5, 6] \<and>
    range_walk (rev_inc (de_dec 2 d)) (rev_deref (de_dec 2 d) (iter_deref (de_heap d))) (rev_same iter_eq)
      (de_rbegin d) (de_rend d) = Some [6, 5, 4]"
proof -
  let ?ty = "\<lparr>is_trivial = False, residue = id\<rparr> :: int elem_type"
  obtain d where d: "de_rep ?ty 2 [4, 5, 6] d"
    using de_from_list_ample [of 2 "[4, 5, 6] :: int list" 9 ?ty] by (auto simp: chunk_fits_def)
  from deque_traversals [OF de_rep_inv [OF d]] de_rep_inv [OF d] de_rep_contents [OF d] show ?thesis by auto
qed

end
