(* ===== verification/MpmcRing.thy ===== *)
theory MpmcRing
  imports PowerOfTwo HeapBuffers "HOL-Library.Multiset"
begin

text \<open>
  \<open>hpc::core::mpmc_ring_buffer<T>\<close> (\<open>include/hpc/core/mpmc_ring_buffer.hpp\<close>): a bounded
  ring for any number of producers and consumers, in which every cell carries a sequence
  counter.

  Each atomic access is a step of its own: \<open>mp_step\<close> is what one thread does between two
  of its accesses to shared memory, by cases of its program counter \<open>mp_pc\<close>, whose
  arguments are the thread's local variables. \<open>mp_run\<close> is the set of all interleavings of
  any number of threads (numbered by \<open>nat\<close>), each of which calls \<open>try_push\<close> and \<open>try_pop\<close>
  any number of times; its first argument is the log of the events of the run. The
  interleavings are sequentially consistent; \<open>MpmcReleaseAcquire\<close> has the memory orders of the
  code. \<open>compare_exchange_weak\<close> may fail spuriously:
  the second argument of \<open>mp_step\<close> says whether it does.

  The array \<open>cells_\<close> is kept as two lists, one per field of \<open>cell\<close>.
\<close>

section \<open>State\<close>

record 'a mpmc =
  mp_capacity :: usize
  mp_mask :: usize
  mp_head :: usize
  mp_tail :: usize
  mp_seqs :: "usize list"
  mp_storage :: "'a slots"

text \<open>
  The constructor. \<open>csz\<close> is \<open>sizeof(cell)\<close>; a cell that is initialised outside of the
  memory obtained is undefined behaviour.
\<close>

definition mp_new :: "(usize \<Rightarrow> bool) \<Rightarrow> usize \<Rightarrow> usize \<Rightarrow> (exn + 'a mpmc) option" where
  "mp_new nw csz capacity = do {
     n \<leftarrow> round_up_to_power_of_two capacity;
     (case new_slots nw csz n of
        Inl e \<Rightarrow> Some (Inl e)
      | Inr m \<Rightarrow>
          if length m < unat n then None
          else Some (Inr \<lparr>mp_capacity = n, mp_mask = n - 1, mp_head = 0, mp_tail = 0,
                          mp_seqs = map of_nat [0..<unat n], mp_storage = take (unat n) m\<rparr>))
   }"

text \<open>\<open>~mpmc_ring_buffer\<close> destroys the cells, not the elements in them.\<close>

definition mp_destroy :: "'a elem_type \<Rightarrow> 'a mpmc \<Rightarrow> unit option" where
  "mp_destroy ty s = free_slots ty (mp_storage s)"

definition mp_cell :: "'a mpmc \<Rightarrow> usize \<Rightarrow> nat" where
  "mp_cell s i = unat (i AND mp_mask s)"

definition mp_load_seq :: "'a mpmc \<Rightarrow> usize \<Rightarrow> usize option" where
  "mp_load_seq s i = (if mp_cell s i < length (mp_seqs s) then Some (mp_seqs s ! mp_cell s i) else None)"

definition mp_store_seq :: "usize \<Rightarrow> usize \<Rightarrow> 'a mpmc \<Rightarrow> 'a mpmc option" where
  "mp_store_seq i v s =
     (if mp_cell s i < length (mp_seqs s) then Some (s\<lparr>mp_seqs := (mp_seqs s)[mp_cell s i := v]\<rparr>) else None)"

text \<open>The difference of two words as \<open>intptr_t\<close>; signed overflow is undefined behaviour.\<close>

definition intptr_diff :: "usize \<Rightarrow> usize \<Rightarrow> int option" where
  "intptr_diff a b = (let d = sint a - sint b in if - (2 ^ 63) \<le> d \<and> d < 2 ^ 63 then Some d else None)"

definition mp_empty :: "'a mpmc \<Rightarrow> bool" where
  "mp_empty s \<longleftrightarrow> mp_head s = mp_tail s"

definition mp_full :: "'a mpmc \<Rightarrow> bool option" where
  "mp_full s = map_option (\<lambda>q. q < mp_tail s) (mp_load_seq s (mp_tail s))"

definition mp_approximate_size :: "'a mpmc \<Rightarrow> usize" where
  "mp_approximate_size s = mp_tail s - mp_head s"

section \<open>The steps of a thread\<close>

datatype 'a mp_pc =
    Idle
  | Push_load 'a
  | Push_check 'a usize
  | Push_claim 'a usize
  | Push_construct 'a usize
  | Push_publish usize
  | Pop_load
  | Pop_check usize
  | Pop_claim usize
  | Pop_move usize
  | Pop_publish usize 'a

text \<open>
  Events: a producer claims the next index for its element, a consumer claims the next index;
  an operation returns. A successful pop is logged with its local \<open>head\<close>.
\<close>

datatype 'a mp_event =
    Enqueued 'a
  | Dequeued
  | Push_returns bool
  | Pop_returns "(usize \<times> 'a) option"

fun mp_step :: "'a elem_type \<Rightarrow> bool \<Rightarrow> 'a mp_pc \<Rightarrow> 'a mpmc \<Rightarrow> ('a mp_event list \<times> 'a mp_pc \<times> 'a mpmc) option" where
  "mp_step ty spurious Idle s = Some ([], Idle, s)"
| "mp_step ty spurious (Push_load x) s = Some ([], Push_check x (mp_tail s), s)"
| "mp_step ty spurious (Push_check x tail) s = do {
     seq \<leftarrow> mp_load_seq s tail;
     diff \<leftarrow> intptr_diff seq tail;
     Some (if diff = 0 then ([], Push_claim x tail, s)
           else if diff < 0 then ([Push_returns False], Idle, s)
           else ([], Push_load x, s))
   }"
| "mp_step ty spurious (Push_claim x tail) s =
     Some (if mp_tail s = tail \<and> \<not> spurious
           then ([Enqueued x], Push_construct x tail, s\<lparr>mp_tail := tail + 1\<rparr>)
           else ([], Push_load x, s))"
| "mp_step ty spurious (Push_construct x tail) s = do {
     m \<leftarrow> slot_construct ty (mp_cell s tail) x (mp_storage s);
     Some ([], Push_publish tail, s\<lparr>mp_storage := m\<rparr>)
   }"
| "mp_step ty spurious (Push_publish tail) s = do {
     s' \<leftarrow> mp_store_seq tail (tail + 1) s;
     Some ([Push_returns True], Idle, s')
   }"
| "mp_step ty spurious Pop_load s = Some ([], Pop_check (mp_head s), s)"
| "mp_step ty spurious (Pop_check head) s = do {
     seq \<leftarrow> mp_load_seq s head;
     diff \<leftarrow> intptr_diff seq (head + 1);
     Some (if diff = 0 then ([], Pop_claim head, s)
           else if diff < 0 then ([Pop_returns None], Idle, s)
           else ([], Pop_load, s))
   }"
| "mp_step ty spurious (Pop_claim head) s =
     Some (if mp_head s = head \<and> \<not> spurious
           then ([Dequeued], Pop_move head, s\<lparr>mp_head := head + 1\<rparr>)
           else ([], Pop_load, s))"
| "mp_step ty spurious (Pop_move head) s = do {
     (x, m1) \<leftarrow> slot_move ty (mp_cell s head) (mp_storage s);
     m2 \<leftarrow> slot_destroy ty (mp_cell s head) m1;
     Some ([], Pop_publish head x, s\<lparr>mp_storage := m2\<rparr>)
   }"
| "mp_step ty spurious (Pop_publish head x) s = do {
     s' \<leftarrow> mp_store_seq head (head + mp_capacity s) s;
     Some ([Pop_returns (Some (head, x))], Idle, s')
   }"

inductive mp_run :: "'a elem_type \<Rightarrow> 'a mpmc \<Rightarrow> 'a mp_event list \<Rightarrow> (nat \<Rightarrow> 'a mp_pc) \<Rightarrow> 'a mpmc \<Rightarrow> bool"
  for ty s0 where
  mp_start: "mp_run ty s0 [] (\<lambda>_. Idle) s0"
| mp_call_push: "mp_run ty s0 log pcs s \<Longrightarrow> pcs t = Idle \<Longrightarrow> mp_run ty s0 log (pcs(t := Push_load x)) s"
| mp_call_pop: "mp_run ty s0 log pcs s \<Longrightarrow> pcs t = Idle \<Longrightarrow> mp_run ty s0 log (pcs(t := Pop_load)) s"
| mp_thread: "mp_run ty s0 log pcs s \<Longrightarrow> pcs t \<noteq> Idle \<Longrightarrow> mp_step ty spurious (pcs t) s = Some (es, pc, s') \<Longrightarrow>
    mp_run ty s0 (log @ es) (pcs(t := pc)) s'"

section \<open>Operations of a thread on its own\<close>

text \<open>
  A call that runs without interference and without spurious failures, until the thread is
  idle again.
\<close>

partial_function (option) mp_complete ::
  "'a elem_type \<Rightarrow> 'a mp_event list \<Rightarrow> 'a mp_pc \<Rightarrow> 'a mpmc \<Rightarrow> ('a mp_event list \<times> 'a mpmc) option" where
  "mp_complete ty log pc s =
     (if pc = Idle then Some (log, s)
      else do {
        (es, pc', s') \<leftarrow> mp_step ty False pc s;
        mp_complete ty (log @ es) pc' s'
      })"

declare mp_complete.simps [code]

definition mp_try_emplace :: "'a elem_type \<Rightarrow> ('b \<Rightarrow> 'a) \<Rightarrow> 'b \<Rightarrow> 'a mpmc \<Rightarrow> (bool \<times> 'a mpmc) option" where
  "mp_try_emplace ty mk args s = do {
     (log, s') \<leftarrow> mp_complete ty [] (Push_load (mk args)) s;
     Some (last log = Push_returns True, s')
   }"

definition mp_try_push :: "'a elem_type \<Rightarrow> 'a \<Rightarrow> 'a mpmc \<Rightarrow> (bool \<times> 'a mpmc) option" where
  "mp_try_push ty x s = mp_try_emplace ty id x s"

definition mp_try_pop :: "'a elem_type \<Rightarrow> 'a mpmc \<Rightarrow> ('a option \<times> 'a mpmc) option" where
  "mp_try_pop ty s = do {
     (log, s') \<leftarrow> mp_complete ty [] Pop_load s;
     Some (case last log of Pop_returns (Some (_, x)) \<Rightarrow> Some x | _ \<Rightarrow> None, s')
   }"

definition mp_try_push_batch :: "'a elem_type \<Rightarrow> 'a list \<Rightarrow> 'a mpmc \<Rightarrow> (nat \<times> 'a mpmc) option" where
  "mp_try_push_batch ty = push_batch (mp_try_push ty)"

definition mp_try_pop_batch :: "'a elem_type \<Rightarrow> nat \<Rightarrow> 'a mpmc \<Rightarrow> ('a list \<times> 'a mpmc) option" where
  "mp_try_pop_batch ty = pop_batch (mp_try_pop ty)"

section \<open>Tickets\<close>

text \<open>
  The events of a log by kind. The \<open>k\<close>-th element enqueued has ticket \<open>k\<close>; so has the
  \<open>k\<close>-th claim of a consumer.
\<close>

fun mp_pushed :: "'a mp_event list \<Rightarrow> 'a list" where
  "mp_pushed [] = []"
| "mp_pushed (Enqueued x # log) = x # mp_pushed log"
| "mp_pushed (_ # log) = mp_pushed log"

fun mp_claims :: "'a mp_event list \<Rightarrow> nat" where
  "mp_claims [] = 0"
| "mp_claims (Dequeued # log) = Suc (mp_claims log)"
| "mp_claims (_ # log) = mp_claims log"

fun mp_returned :: "'a mp_event list \<Rightarrow> (nat \<times> 'a) list" where
  "mp_returned [] = []"
| "mp_returned (Pop_returns (Some (k, x)) # log) = (unat k, x) # mp_returned log"
| "mp_returned (_ # log) = mp_returned log"

lemma mp_pushed_append [simp]: "mp_pushed (log @ log') = mp_pushed log @ mp_pushed log'"
  by (induction log rule: mp_pushed.induct) simp_all

lemma mp_claims_append [simp]: "mp_claims (log @ log') = mp_claims log + mp_claims log'"
  by (induction log rule: mp_claims.induct) simp_all

lemma mp_returned_append [simp]: "mp_returned (log @ log') = mp_returned log @ mp_returned log'"
  by (induction log rule: mp_returned.induct) simp_all

section \<open>The phases of a cell\<close>

text \<open>
  At every moment a cell serves one ticket \<open>j\<close> and is in one of six phases: free for the
  producer of \<open>j\<close>, claimed by its thread, built (constructed, not yet published), full, taken
  by the thread of the consumer of \<open>j\<close>, and emptied (not yet released). A release makes it free for
  ticket \<open>j + c\<close>.
\<close>

datatype mp_phase = Free | Claimed nat | Built nat | Full | Taken nat | Emptied nat

fun mp_owner :: "mp_phase \<Rightarrow> nat option" where
  "mp_owner Free = None"
| "mp_owner (Claimed t) = Some t"
| "mp_owner (Built t) = Some t"
| "mp_owner Full = None"
| "mp_owner (Taken t) = Some t"
| "mp_owner (Emptied t) = Some t"

fun mp_seq_of :: "nat \<times> mp_phase \<Rightarrow> nat" where
  "mp_seq_of (j, Free) = j"
| "mp_seq_of (j, Claimed t) = j"
| "mp_seq_of (j, Built t) = j"
| "mp_seq_of (j, ph) = Suc j"

fun mp_live :: "'a list \<Rightarrow> nat \<times> mp_phase \<Rightarrow> 'a option" where
  "mp_live P (j, Built t) = Some (P ! j)"
| "mp_live P (j, Full) = Some (P ! j)"
| "mp_live P (j, Taken t) = Some (P ! j)"
| "mp_live P (j, ph) = None"

text \<open>
  \<open>P\<close> is the list of the elements enqueued so far, \<open>H\<close> the number of claims by consumers,
  \<open>c\<close> the capacity. What holds of the cell \<open>i\<close> in phase \<open>ph\<close> of ticket \<open>j\<close>:
\<close>

fun mp_cell_ok :: "'a list \<Rightarrow> nat \<Rightarrow> nat \<Rightarrow> (nat \<Rightarrow> 'a mp_pc) \<Rightarrow> nat \<Rightarrow> nat \<times> mp_phase \<Rightarrow> bool" where
  "mp_cell_ok P H c pcs i (j, ph) \<longleftrightarrow> j mod c = i \<and> length P \<le> j + c \<and>
     (case ph of
        Free \<Rightarrow> length P \<le> j \<and> j < H + c
      | Claimed t \<Rightarrow> H \<le> j \<and> j < length P \<and> pcs t = Push_construct (P ! j) (of_nat j)
      | Built t \<Rightarrow> H \<le> j \<and> j < length P \<and> pcs t = Push_publish (of_nat j)
      | Full \<Rightarrow> H \<le> j \<and> j < length P
      | Taken t \<Rightarrow> j < H \<and> pcs t = Pop_move (of_nat j)
      | Emptied t \<Rightarrow> j < H \<and> pcs t = Pop_publish (of_nat j) (P ! j))"

definition mp_cells :: "'a list \<Rightarrow> nat \<Rightarrow> nat \<Rightarrow> (nat \<Rightarrow> nat \<times> mp_phase) \<Rightarrow> (nat \<Rightarrow> 'a mp_pc) \<Rightarrow> bool" where
  "mp_cells P H c phase pcs \<longleftrightarrow> (\<forall>i < c. mp_cell_ok P H c pcs i (phase i))"

text \<open>What a thread knows at each of its program points.\<close>

fun mp_thread_ok :: "'a list \<Rightarrow> nat \<Rightarrow> nat \<Rightarrow> (nat \<Rightarrow> nat \<times> mp_phase) \<Rightarrow> nat \<Rightarrow> 'a mp_pc \<Rightarrow> bool" where
  "mp_thread_ok P H c phase t (Push_check x w) \<longleftrightarrow> (\<exists>k \<le> length P. w = of_nat k)"
| "mp_thread_ok P H c phase t (Push_claim x w) \<longleftrightarrow>
     (\<exists>k \<le> length P. w = of_nat k \<and> (k = length P \<longrightarrow> phase (k mod c) = (k, Free)))"
| "mp_thread_ok P H c phase t (Push_construct x w) \<longleftrightarrow>
     (\<exists>j < length P. w = of_nat j \<and> x = P ! j \<and> phase (j mod c) = (j, Claimed t))"
| "mp_thread_ok P H c phase t (Push_publish w) \<longleftrightarrow> (\<exists>j < length P. w = of_nat j \<and> phase (j mod c) = (j, Built t))"
| "mp_thread_ok P H c phase t (Pop_check w) \<longleftrightarrow> (\<exists>k \<le> H. w = of_nat k)"
| "mp_thread_ok P H c phase t (Pop_claim w) \<longleftrightarrow>
     (\<exists>k \<le> H. w = of_nat k \<and> (k = H \<longrightarrow> phase (k mod c) = (k, Full)))"
| "mp_thread_ok P H c phase t (Pop_move w) \<longleftrightarrow> (\<exists>j < H. w = of_nat j \<and> phase (j mod c) = (j, Taken t))"
| "mp_thread_ok P H c phase t (Pop_publish w x) \<longleftrightarrow>
     (\<exists>j < H. w = of_nat j \<and> x = P ! j \<and> phase (j mod c) = (j, Emptied t))"
| "mp_thread_ok P H c phase t pc \<longleftrightarrow> True"

definition mp_threads :: "'a list \<Rightarrow> nat \<Rightarrow> nat \<Rightarrow> (nat \<Rightarrow> nat \<times> mp_phase) \<Rightarrow> (nat \<Rightarrow> 'a mp_pc) \<Rightarrow> bool" where
  "mp_threads P H c phase pcs \<longleftrightarrow> (\<forall>t. mp_thread_ok P H c phase t (pcs t))"

text \<open>A claimed ticket is in the hands of its consumer or has been returned, once.\<close>

definition mp_in_hand :: "nat \<Rightarrow> (nat \<Rightarrow> nat \<times> mp_phase) \<Rightarrow> nat \<Rightarrow> bool" where
  "mp_in_hand c phase k \<longleftrightarrow> (\<exists>t. phase (k mod c) = (k, Taken t) \<or> phase (k mod c) = (k, Emptied t))"

definition mp_returns :: "'a list \<Rightarrow> nat \<Rightarrow> nat \<Rightarrow> (nat \<Rightarrow> nat \<times> mp_phase) \<Rightarrow> (nat \<times> 'a) list \<Rightarrow> bool" where
  "mp_returns P H c phase R \<longleftrightarrow> distinct (map fst R) \<and>
     (\<forall>k x. (k, x) \<in> set R \<longrightarrow> k < H \<and> x = P ! k \<and> \<not> mp_in_hand c phase k) \<and>
     (\<forall>k < H. (k, P ! k) \<in> set R \<or> mp_in_hand c phase k)"

definition mp_shape :: "'a elem_type \<Rightarrow> 'a list \<Rightarrow> nat \<Rightarrow> nat \<Rightarrow> (nat \<Rightarrow> nat \<times> mp_phase) \<Rightarrow> 'a mpmc \<Rightarrow> bool" where
  "mp_shape ty P H c phase s \<longleftrightarrow> 2 \<le> c \<and> is_po2 (mp_capacity s) \<and> unat (mp_capacity s) = c \<and>
     mp_mask s = mp_capacity s - 1 \<and> length (mp_seqs s) = c \<and> length (mp_storage s) = c \<and>
     mp_tail s = of_nat (length P) \<and> mp_head s = of_nat H \<and> H \<le> length P \<and> length P \<le> H + c \<and> length P + c < 2 ^ 63 \<and>
     (\<forall>i < c. mp_seqs s ! i = of_nat (mp_seq_of (phase i))) \<and>
     slots_hold ty (\<lambda>i. if i < c then mp_live P (phase i) else None) (mp_storage s)"

definition mp_inv :: "'a elem_type \<Rightarrow> nat \<Rightarrow> 'a mp_event list \<Rightarrow> (nat \<Rightarrow> 'a mp_pc) \<Rightarrow> 'a mpmc \<Rightarrow>
    (nat \<Rightarrow> nat \<times> mp_phase) \<Rightarrow> bool" where
  "mp_inv ty c log pcs s phase \<longleftrightarrow>
     mp_shape ty (mp_pushed log) (mp_claims log) c phase s \<and>
     mp_cells (mp_pushed log) (mp_claims log) c phase pcs \<and>
     mp_threads (mp_pushed log) (mp_claims log) c phase pcs \<and>
     mp_returns (mp_pushed log) (mp_claims log) c phase (mp_returned log)"

section \<open>Tickets as words\<close>

lemma below63: "(n :: nat) < 2 ^ 63 \<Longrightarrow> n < 2 ^ 64"
  by simp

lemma ticket_eq: "a < 2 ^ 63 \<Longrightarrow> b < 2 ^ 63 \<Longrightarrow> (of_nat a :: usize) = of_nat b \<longleftrightarrow> a = b"
  by (simp add: usize_eq_iff unat_of_nat_usize below63)

lemma ticket_diff:
  assumes "a < 2 ^ 63" "b < 2 ^ 63"
  shows "intptr_diff (of_nat a) (of_nat b) = Some (int a - int b)"
proof -
  have "sint (of_nat n :: usize) = int n" if "n < 2 ^ 63" for n
    using that by (simp add: sint_uint uint_nat unat_of_nat_usize below63 signed_take_bit_int_eq_self)
  with assms show ?thesis by (simp add: intptr_diff_def)
qed

lemma mp_shapeD:
  assumes "mp_shape ty P H c phase s"
  shows "2 \<le> c" "is_po2 (mp_capacity s)" "unat (mp_capacity s) = c" "mp_mask s = mp_capacity s - 1"
    "length (mp_seqs s) = c" "length (mp_storage s) = c" "mp_tail s = of_nat (length P)" "mp_head s = of_nat H"
    "H \<le> length P" "length P + c < 2 ^ 63" "length P \<le> H + c" "i < c \<Longrightarrow> mp_seqs s ! i = of_nat (mp_seq_of (phase i))"
    "slots_hold ty (\<lambda>i. if i < c then mp_live P (phase i) else None) (mp_storage s)"
  using assms by (auto simp: mp_shape_def)

lemma mp_cell_ticket:
  assumes "mp_shape ty P H c phase s" "k < 2 ^ 63"
  shows "mp_cell s (of_nat k) = k mod c" "k mod c < c"
  using mp_shapeD [OF assms(1)] assms(2)
  by (simp_all add: mp_cell_def unat_and_mask unat_of_nat_usize below63)

lemma mp_load_ticket:
  assumes "mp_shape ty P H c phase s" "k < 2 ^ 63"
  shows "mp_load_seq s (of_nat k) = Some (of_nat (mp_seq_of (phase (k mod c))))"
  using mp_cell_ticket [OF assms] mp_shapeD [OF assms(1)] by (simp add: mp_load_seq_def)

lemma mp_cellsD:
  assumes "mp_cells P H c phase pcs" "i < c" "phase i = (j, ph)"
  shows "j mod c = i" "length P \<le> j + c" "mp_cell_ok P H c pcs i (j, ph)"
proof -
  show ok: "mp_cell_ok P H c pcs i (j, ph)" using assms by (auto simp: mp_cells_def)
  then show "j mod c = i" "length P \<le> j + c" by simp_all
qed

lemma mp_ticket_bound:
  assumes "mp_cells P H c phase pcs" "i < c" "phase i = (j, ph)" "H \<le> length P"
  shows "j < length P + c" "mp_owner ph \<noteq> None \<Longrightarrow> j < length P"
  using mp_cellsD [OF assms(1-3)] assms(4) by (auto split: mp_phase.splits)

text \<open>The ticket in the hands of a thread.\<close>

fun mp_word :: "'a mp_pc \<Rightarrow> usize option" where
  "mp_word (Push_construct x w) = Some w"
| "mp_word (Push_publish w) = Some w"
| "mp_word (Pop_move w) = Some w"
| "mp_word (Pop_publish w x) = Some w"
| "mp_word pc = None"

lemma mp_owner_word:
  assumes "mp_cells P H c phase pcs" "i < c" "phase i = (j, ph)" "mp_owner ph = Some t"
  shows "mp_word (pcs t) = Some (of_nat j)"
  using mp_cellsD(3) [OF assms(1-3)] assms(4) by (cases ph) simp_all

lemma mp_owner_unique:
  assumes "mp_cells P H c phase pcs" "length P + c < 2 ^ 63" "H \<le> length P"
    and "i < c" "phase i = (j, ph)" "mp_owner ph = Some t"
    and "i' < c" "phase i' = (j', ph')" "mp_owner ph' = Some t"
  shows "i' = i"
proof -
  have "(of_nat j :: usize) = of_nat j'"
    using mp_owner_word [OF assms(1,4-6)] mp_owner_word [OF assms(1,7-9)] by simp
  moreover have "j < 2 ^ 63" "j' < 2 ^ 63"
    using mp_ticket_bound(1) [OF assms(1,4,5,3)] mp_ticket_bound(1) [OF assms(1,7,8,3)] assms(2) by linarith+
  ultimately have "j = j'" by (simp add: ticket_eq)
  then show ?thesis using mp_cellsD(1) [OF assms(1,4,5)] mp_cellsD(1) [OF assms(1,7,8)] by simp
qed

lemma mp_cell_ok_frame:
  "mp_owner ph \<noteq> Some t \<Longrightarrow> mp_cell_ok P H c (pcs(t := pc)) i (j, ph) \<longleftrightarrow> mp_cell_ok P H c pcs i (j, ph)"
  by (cases ph) auto

text \<open>A thread that holds no ticket changes its program counter.\<close>

lemma mp_cells_free_thread:
  assumes "mp_cells P H c phase pcs" "mp_word (pcs t) = None"
  shows "mp_cells P H c phase (pcs(t := pc))"
  unfolding mp_cells_def
proof (intro allI impI)
  fix i
  assume i: "i < c"
  obtain j ph where p: "phase i = (j, ph)" by (cases "phase i")
  have "mp_owner ph \<noteq> Some t" using mp_owner_word [OF assms(1) i p] assms(2) by auto
  then show "mp_cell_ok P H c (pcs(t := pc)) i (phase i)"
    using mp_cellsD(3) [OF assms(1) i p] p mp_cell_ok_frame by metis
qed

lemma mp_threads_update:
  assumes "mp_threads P H c phase pcs" "mp_thread_ok P H c phase t pc"
  shows "mp_threads P H c phase (pcs(t := pc))"
  using assms by (simp add: mp_threads_def)

lemma mp_inv_local:
  assumes "mp_inv ty c log pcs s phase" "mp_word (pcs t) = None"
    and "mp_thread_ok (mp_pushed log) (mp_claims log) c phase t pc" "mp_pushed es = []" "mp_claims es = 0" "mp_returned es = []"
  shows "mp_inv ty c (log @ es) (pcs(t := pc)) s phase"
  using assms mp_cells_free_thread mp_threads_update by (auto simp: mp_inv_def)

section \<open>Moving a cell from one phase to the next\<close>

lemma mp_cells_advance:
  assumes c: "mp_cells P H c phase pcs" and b: "length P + c < 2 ^ 63" "H \<le> length P"
    and i: "i < c" "phase i = (j, ph)" "mp_owner ph = Some t" and ok: "mp_cell_ok P H c (pcs(t := pc)) i jp"
  shows "mp_cells P H c (phase(i := jp)) (pcs(t := pc))"
  unfolding mp_cells_def
proof (intro allI impI)
  fix k
  assume k: "k < c"
  show "mp_cell_ok P H c (pcs(t := pc)) k ((phase(i := jp)) k)"
  proof (cases "k = i")
    case False
    obtain j' ph' where p: "phase k = (j', ph')" by (cases "phase k")
    have "mp_owner ph' \<noteq> Some t" using mp_owner_unique [OF c b i k p] False by auto
    then show ?thesis using mp_cellsD(3) [OF c k p] p False mp_cell_ok_frame [of ph' t] by (metis fun_upd_other)
  qed (use ok in simp)
qed

lemma mp_thread_frame:
  assumes "mp_thread_ok P H c phase t' pc" "phase i = (j, ph)" "mp_owner ph = Some t" "t' \<noteq> t"
  shows "mp_thread_ok P H c (phase(i := jp)) t' pc"
proof -
  have f: "(phase(i := jp)) q = (k, X)" if "phase q = (k, X)" "mp_owner X \<noteq> Some t" for q k X
    using that assms(2,3) by auto
  show ?thesis
    using assms(1,4) by (cases pc) (fastforce simp del: fun_upd_apply intro: f)+
qed

lemma mp_threads_advance:
  assumes "mp_threads P H c phase pcs" "phase i = (j, ph)" "mp_owner ph = Some t"
    and "mp_thread_ok P H c (phase(i := jp)) t pc"
  shows "mp_threads P H c (phase(i := jp)) (pcs(t := pc))"
  unfolding mp_threads_def
proof
  fix t'
  show "mp_thread_ok P H c (phase(i := jp)) t' ((pcs(t := pc)) t')"
  proof (cases "t' = t")
    case True
    then show ?thesis using assms(4) by simp
  next
    case False
    moreover from assms(1) have "mp_thread_ok P H c phase t' (pcs t')" by (simp add: mp_threads_def)
    ultimately show ?thesis using mp_thread_frame [where phase = phase and i = i, OF _ assms(2,3)] by (simp del: fun_upd_apply add: fun_upd_other)
  qed
qed

fun mp_handed :: "mp_phase \<Rightarrow> bool" where
  "mp_handed (Taken t) \<longleftrightarrow> True"
| "mp_handed (Emptied t) \<longleftrightarrow> True"
| "mp_handed ph \<longleftrightarrow> False"

lemma mp_in_hand_iff: "mp_in_hand c phase k \<longleftrightarrow> (\<exists>ph. phase (k mod c) = (k, ph) \<and> mp_handed ph)"
proof
  assume "\<exists>ph. phase (k mod c) = (k, ph) \<and> mp_handed ph"
  then obtain ph where "phase (k mod c) = (k, ph)" "mp_handed ph" by blast
  then show "mp_in_hand c phase k" by (cases ph) (auto simp: mp_in_hand_def)
qed (auto simp: mp_in_hand_def)

lemma mp_returns_advance:
  assumes "mp_returns P H c phase R" "phase i = (j, ph)" "mp_handed ph' \<longleftrightarrow> mp_handed ph"
  shows "mp_returns P H c (phase(i := (j, ph'))) R"
proof -
  have "mp_in_hand c (phase(i := (j, ph'))) k \<longleftrightarrow> mp_in_hand c phase k" for k
    using assms(2,3) by (auto simp: mp_in_hand_iff)
  with assms(1) show ?thesis by (simp add: mp_returns_def)
qed

lemma mp_live_update:
  "i < c \<Longrightarrow> (\<lambda>k. if k < c then mp_live P ((phase(i := jp)) k) else None) =
     (\<lambda>k. if k < c then mp_live P (phase k) else None)(i := mp_live P jp)"
  by (auto simp: fun_eq_iff)

lemma mp_seq_update:
  assumes "mp_shape ty P H c phase s" "i < c" "v = of_nat (mp_seq_of jp)" "mp_live P jp = mp_live P (phase i)"
  shows "mp_shape ty P H c (phase(i := jp)) (s\<lparr>mp_seqs := (mp_seqs s)[i := v]\<rparr>)"
proof -
  have "(\<lambda>k. if k < c then mp_live P (phase k) else None)(i := mp_live P jp) =
      (\<lambda>k. if k < c then mp_live P (phase k) else None)"
    using assms(2,4) by (simp add: fun_upd_idem_iff)
  with assms(1,3) show ?thesis
    unfolding mp_shape_def mp_live_update [OF assms(2)] by (simp add: nth_list_update)
qed

lemma mp_storage_update:
  assumes "mp_shape ty P H c phase s" "i < c" "mp_seq_of jp = mp_seq_of (phase i)" "length m = c"
    and "slots_hold ty ((\<lambda>k. if k < c then mp_live P (phase k) else None)(i := mp_live P jp)) m"
  shows "mp_shape ty P H c (phase(i := jp)) (s\<lparr>mp_storage := m\<rparr>)"
  using assms unfolding mp_shape_def mp_live_update [OF assms(2)] by simp

section \<open>Every step keeps the invariant\<close>

lemma mp_invD:
  assumes "mp_inv ty c log pcs s phase"
  shows "mp_shape ty (mp_pushed log) (mp_claims log) c phase s"
    "mp_cells (mp_pushed log) (mp_claims log) c phase pcs"
    "mp_threads (mp_pushed log) (mp_claims log) c phase pcs"
    "mp_returns (mp_pushed log) (mp_claims log) c phase (mp_returned log)"
    "mp_thread_ok (mp_pushed log) (mp_claims log) c phase t (pcs t)"
  using assms by (auto simp: mp_inv_def mp_threads_def)

lemma mp_step_construct:
  assumes I: "mp_inv ty c log pcs s phase" and pc: "pcs t = Push_construct x w"
  shows "\<exists>m phase'. mp_step ty sp (pcs t) s = Some ([], Push_publish w, s\<lparr>mp_storage := m\<rparr>) \<and>
    mp_inv ty c log (pcs(t := Push_publish w)) (s\<lparr>mp_storage := m\<rparr>) phase'"
proof -
  let ?P = "mp_pushed log" and ?H = "mp_claims log"
  note S = mp_invD(1) [OF I] and C = mp_invD(2) [OF I] and T = mp_invD(3) [OF I] and R = mp_invD(4) [OF I]
  obtain j where j: "j < length ?P" "w = of_nat j" "x = ?P ! j" "phase (j mod c) = (j, Claimed t)"
    using mp_invD(5) [OF I, of t] pc by auto
  have "j < 2 ^ 63" using j(1) mp_shapeD(10) [OF S] by simp
  note cell = mp_cell_ticket [OF S this]
  let ?i = "j mod c" and ?F = "\<lambda>k. if k < c then mp_live ?P (phase k) else None"
  have "?F ?i = None" "?i < length (mp_storage s)" using cell(2) j(4) mp_shapeD(6) [OF S] by simp_all
  note h = hold_construct [OF mp_shapeD(13) [OF S] this, of x]
  let ?m = "(mp_storage s)[?i := Some x]" and ?ph = "phase(?i := (j, Built t))"
  have "mp_shape ty ?P ?H c ?ph (s\<lparr>mp_storage := ?m\<rparr>)"
    using cell(2) j(3,4) h(2) mp_shapeD(6) [OF S] by (intro mp_storage_update [OF S]) simp_all
  moreover have "mp_cells ?P ?H c ?ph (pcs(t := Push_publish w))"
    using mp_cellsD(3) [OF C cell(2) j(4)] j(2)
    by (intro mp_cells_advance [OF C mp_shapeD(10,9) [OF S] cell(2) j(4)]) simp_all
  moreover have "mp_threads ?P ?H c ?ph (pcs(t := Push_publish w))"
    using j(1,2) by (intro mp_threads_advance [OF T j(4)]) auto
  moreover have "mp_returns ?P ?H c ?ph (mp_returned log)"
    using mp_returns_advance [OF R j(4)] by simp
  moreover have "mp_step ty sp (pcs t) s = Some ([], Push_publish w, s\<lparr>mp_storage := ?m\<rparr>)"
    using pc h(1) cell(1) j(2) by simp
  ultimately show ?thesis unfolding mp_inv_def by blast
qed

lemma mp_step_push_publish:
  assumes I: "mp_inv ty c log pcs s phase" and pc: "pcs t = Push_publish w"
  shows "\<exists>s' phase'. mp_step ty sp (pcs t) s = Some ([Push_returns True], Idle, s') \<and>
    mp_inv ty c (log @ [Push_returns True]) (pcs(t := Idle)) s' phase'"
proof -
  let ?P = "mp_pushed log" and ?H = "mp_claims log"
  note S = mp_invD(1) [OF I] and C = mp_invD(2) [OF I] and T = mp_invD(3) [OF I] and R = mp_invD(4) [OF I]
  obtain j where j: "j < length ?P" "w = of_nat j" "phase (j mod c) = (j, Built t)"
    using mp_invD(5) [OF I, of t] pc by auto
  have "j < 2 ^ 63" using j(1) mp_shapeD(10) [OF S] by simp
  note cell = mp_cell_ticket [OF S this]
  let ?i = "j mod c" and ?ph = "phase(j mod c := (j, Full))"
  let ?s = "s\<lparr>mp_seqs := (mp_seqs s)[?i := w + 1]\<rparr>"
  have "mp_shape ty ?P ?H c ?ph ?s"
    using cell(2) j(2,3) by (intro mp_seq_update [OF S]) simp_all
  moreover have "mp_cells ?P ?H c ?ph (pcs(t := Idle))"
    using mp_cellsD(3) [OF C cell(2) j(3)]
    by (intro mp_cells_advance [OF C mp_shapeD(10,9) [OF S] cell(2) j(3)]) simp_all
  moreover have "mp_threads ?P ?H c ?ph (pcs(t := Idle))"
    by (intro mp_threads_advance [OF T j(3)]) simp_all
  moreover have "mp_returns ?P ?H c ?ph (mp_returned log)"
    using mp_returns_advance [OF R j(3)] by simp
  moreover have "mp_step ty sp (pcs t) s = Some ([Push_returns True], Idle, ?s)"
    using pc cell mp_shapeD(5) [OF S] j(2) by (simp add: mp_store_seq_def)
  ultimately show ?thesis unfolding mp_inv_def by (intro exI [of _ ?s] exI [of _ ?ph]) simp
qed

lemma mp_step_move:
  assumes I: "mp_inv ty c log pcs s phase" and pc: "pcs t = Pop_move w"
  shows "\<exists>x m phase'. mp_step ty sp (pcs t) s = Some ([], Pop_publish w x, s\<lparr>mp_storage := m\<rparr>) \<and>
    mp_inv ty c log (pcs(t := Pop_publish w x)) (s\<lparr>mp_storage := m\<rparr>) phase'"
proof -
  let ?P = "mp_pushed log" and ?H = "mp_claims log"
  note S = mp_invD(1) [OF I] and C = mp_invD(2) [OF I] and T = mp_invD(3) [OF I] and R = mp_invD(4) [OF I]
  obtain j where j: "j < ?H" "w = of_nat j" "phase (j mod c) = (j, Taken t)"
    using mp_invD(5) [OF I, of t] pc by auto
  have "j < 2 ^ 63" using j(1) mp_shapeD(9,10) [OF S] by simp
  note cell = mp_cell_ticket [OF S this]
  let ?i = "j mod c" and ?F = "\<lambda>k. if k < c then mp_live ?P (phase k) else None"
  have "?F ?i = Some (?P ! j)" using cell(2) j(3) by simp
  note h = hold_move [OF mp_shapeD(13) [OF S] this]
  note d = hold_destroy [OF h(2), of ?i "moved_from ty (?P ! j)"]
  let ?m1 = "(mp_storage s)[?i := Some (moved_from ty (?P ! j))]" and ?ph = "phase(?i := (j, Emptied t))"
  let ?m = "if is_trivial ty then ?m1 else ?m1[?i := None]" and ?pc = "Pop_publish w (?P ! j)"
  have "slots_hold ty (?F(?i := None)) ?m" using d(2) by simp
  then have "mp_shape ty ?P ?H c ?ph (s\<lparr>mp_storage := ?m\<rparr>)"
    using cell(2) j(3) mp_shapeD(6) [OF S] by (intro mp_storage_update [OF S]) simp_all
  moreover have "mp_cells ?P ?H c ?ph (pcs(t := ?pc))"
    using mp_cellsD(3) [OF C cell(2) j(3)] j(2)
    by (intro mp_cells_advance [OF C mp_shapeD(10,9) [OF S] cell(2) j(3)]) simp_all
  moreover have "mp_threads ?P ?H c ?ph (pcs(t := ?pc))"
    using j(1,2) by (intro mp_threads_advance [OF T j(3)]) auto
  moreover have "mp_returns ?P ?H c ?ph (mp_returned log)"
    using mp_returns_advance [OF R j(3)] by simp
  moreover have "mp_step ty sp (pcs t) s = Some ([], ?pc, s\<lparr>mp_storage := ?m\<rparr>)"
    using pc h(1) d(1) cell(1) j(2) by simp
  ultimately show ?thesis unfolding mp_inv_def by blast
qed

lemma mp_step_pop_publish:
  assumes I: "mp_inv ty c log pcs s phase" and pc: "pcs t = Pop_publish w x"
  shows "\<exists>s' phase'. mp_step ty sp (pcs t) s = Some ([Pop_returns (Some (w, x))], Idle, s') \<and>
    mp_inv ty c (log @ [Pop_returns (Some (w, x))]) (pcs(t := Idle)) s' phase'"
proof -
  let ?P = "mp_pushed log" and ?H = "mp_claims log"
  note S = mp_invD(1) [OF I] and C = mp_invD(2) [OF I] and T = mp_invD(3) [OF I] and R = mp_invD(4) [OF I]
  obtain j where j: "j < ?H" "w = of_nat j" "x = ?P ! j" "phase (j mod c) = (j, Emptied t)"
    using mp_invD(5) [OF I, of t] pc by auto
  have b: "j < 2 ^ 63" using j(1) mp_shapeD(9,10) [OF S] by simp
  note cell = mp_cell_ticket [OF S b]
  let ?i = "j mod c" and ?ph = "phase(j mod c := (j + c, Free))"
  let ?s = "s\<lparr>mp_seqs := (mp_seqs s)[?i := w + mp_capacity s]\<rparr>"
  have "mp_capacity s = of_nat c" using mp_shapeD(3,10) [OF S] by (simp add: usize_eq_iff unat_of_nat_usize)
  then have "w + mp_capacity s = of_nat (mp_seq_of (j + c, Free))" using j(2) by simp
  then have "mp_shape ty ?P ?H c ?ph ?s"
    using cell(2) j(4) by (intro mp_seq_update [OF S]) simp_all
  moreover have "mp_cells ?P ?H c ?ph (pcs(t := Idle))"
    using mp_cellsD(3) [OF C cell(2) j(4)] j(1) mp_shapeD(9) [OF S]
    by (intro mp_cells_advance [OF C mp_shapeD(10,9) [OF S] cell(2) j(4)]) simp_all
  moreover have "mp_threads ?P ?H c ?ph (pcs(t := Idle))"
    by (intro mp_threads_advance [OF T j(4)]) simp_all
  moreover have "mp_returns ?P ?H c ?ph (mp_returned log @ [(unat w, x)])"
  proof -
    have hand: "mp_in_hand c ?ph k \<longleftrightarrow> mp_in_hand c phase k \<and> k \<noteq> j" for k
      using j(4) by (auto simp: mp_in_hand_iff)
    have u: "unat w = j" using j(2) b by (simp add: unat_of_nat_usize below63)
    have "mp_in_hand c phase j" using j(4) by (auto simp: mp_in_hand_iff)
    moreover from this R have "j \<notin> fst ` set (mp_returned log)" by (auto simp: mp_returns_def)
    ultimately show ?thesis using R j(1,3) unfolding mp_returns_def hand u by auto
  qed
  moreover have "mp_step ty sp (pcs t) s = Some ([Pop_returns (Some (w, x))], Idle, ?s)"
    using pc cell mp_shapeD(5) [OF S] j(2) by (simp add: mp_store_seq_def)
  ultimately show ?thesis unfolding mp_inv_def by (intro exI [of _ ?s] exI [of _ ?ph]) simp
qed

text \<open>A producer claims ticket \<open>length P\<close>.\<close>

lemma mp_claim_push:
  assumes I: "mp_inv ty c log pcs s phase" and pc: "pcs t = Push_claim x w" and w: "mp_tail s = w"
    and b: "Suc (length (mp_pushed log)) + c < 2 ^ 63"
  shows "\<exists>phase'. mp_inv ty c (log @ [Enqueued x]) (pcs(t := Push_construct x w)) (s\<lparr>mp_tail := w + 1\<rparr>) phase'"
proof -
  let ?P = "mp_pushed log" and ?H = "mp_claims log"
  note S = mp_invD(1) [OF I] and C = mp_invD(2) [OF I] and T = mp_invD(3) [OF I] and R = mp_invD(4) [OF I]
  let ?n = "length (mp_pushed log)" and ?Q = "mp_pushed log @ [x]"
  have n63: "?n < 2 ^ 63" using b by simp
  note cell = mp_cell_ticket [OF S n63]
  have wn: "w = of_nat ?n" using w mp_shapeD(7) [OF S] by simp
  have free: "phase (?n mod c) = (?n, Free)"
  proof -
    obtain k where "k \<le> ?n" "w = of_nat k" "k = ?n \<longrightarrow> phase (k mod c) = (k, Free)"
      using mp_invD(5) [OF I, of t] pc by auto
    moreover from this have "k = ?n" using wn ticket_eq [of k ?n] b by simp
    ultimately show ?thesis by simp
  qed
  let ?i = "?n mod c" and ?ph = "phase(?n mod c := (?n, Claimed t))" and ?pcs = "pcs(t := Push_construct x w)"
  have room: "?n < ?H + c" using mp_cellsD(3) [OF C cell(2) free] by simp
  have old: "mp_seq_of (?ph k) = mp_seq_of (phase k)" "k < c \<Longrightarrow> mp_live ?Q (?ph k) = mp_live ?P (phase k)" for k
  proof -
    show "mp_seq_of (?ph k) = mp_seq_of (phase k)" using free by simp
    assume k: "k < c"
    obtain j ph where p: "phase k = (j, ph)" by (cases "phase k")
    have "mp_live ?Q (j, ph) = mp_live ?P (j, ph)"
      using mp_cellsD(3) [OF C k p] mp_shapeD(9) [OF S] by (cases ph) (auto simp: nth_append)
    then show "mp_live ?Q (?ph k) = mp_live ?P (phase k)" using p free by (cases "k = ?i") simp_all
  qed
  have "(\<lambda>i. if i < c then mp_live ?Q (?ph i) else None) = (\<lambda>i. if i < c then mp_live ?P (phase i) else None)"
    using old(2) by (auto simp: fun_eq_iff)
  then have shape: "mp_shape ty ?Q ?H c ?ph (s\<lparr>mp_tail := w + 1\<rparr>)"
    using S old(1) b wn room unfolding mp_shape_def by simp
  have cells: "mp_cells ?Q ?H c ?ph ?pcs"
    unfolding mp_cells_def
  proof (intro allI impI)
    fix k
    assume k: "k < c"
    show "mp_cell_ok ?Q ?H c ?pcs k (?ph k)"
    proof (cases "k = ?i")
      case True
      then show ?thesis using wn mp_shapeD(9) [OF S] mp_shapeD(1) [OF S] by simp
    next
      case False
      obtain j ph where p: "phase k = (j, ph)" by (cases "phase k")
      have nt: "mp_owner ph \<noteq> Some t" using mp_owner_word [OF C k p] pc by auto
      note ok = mp_cellsD [OF C k p]
      have j: "j mod c \<noteq> ?n mod c" using ok(1) False by simp
      have "j + c \<noteq> ?n" using j by (metis mod_add_self2)
      moreover have "j \<noteq> ?n" using j by auto
      ultimately have "j + c \<noteq> ?n" "j \<noteq> ?n" by auto
      then have "Suc ?n \<le> j + c" "ph = Free \<Longrightarrow> Suc ?n \<le> j" using ok(2,3) by auto
      moreover have "?Q ! j = ?P ! j" if "j < ?n" using that by (simp add: nth_append)
      moreover have "j < ?n" if "j < ?H" using that mp_shapeD(9) [OF S] by simp
      ultimately have "mp_cell_ok ?Q ?H c pcs k (j, ph)" using ok(1,3) by (cases ph) auto
      then show ?thesis using p False mp_cell_ok_frame [OF nt] by (metis fun_upd_other)
    qed
  qed
  have threads: "mp_threads ?Q ?H c ?ph ?pcs"
    unfolding mp_threads_def
  proof
    fix t'
    show "mp_thread_ok ?Q ?H c ?ph t' (?pcs t')"
    proof (cases "t' = t")
      case True
      then show ?thesis using wn by (auto simp: nth_append intro!: exI [of _ ?n])
    next
      case False
      have f: "?ph q = (k, X)" if "phase q = (k, X)" "X \<noteq> Free" for q k X using that free by auto
      have g: "k \<le> length ?Q" if "k \<le> ?n" for k using that by simp
      have "mp_thread_ok ?P ?H c phase t' (pcs t')" by (rule mp_invD(5) [OF I])
      then have "mp_thread_ok ?Q ?H c ?ph t' (pcs t')"
      proof (cases "pcs t'")
        case (Push_claim y v)
        then obtain k where "k \<le> ?n" "v = of_nat k" using mp_invD(5) [OF I, of t'] by auto
        then show ?thesis using Push_claim by (auto simp del: fun_upd_apply intro!: exI [of _ k])
      next
        case (Push_check y v)
        then obtain k where "k \<le> ?n" "v = of_nat k" using mp_invD(5) [OF I, of t'] by auto
        then show ?thesis using Push_check by (auto simp del: fun_upd_apply intro!: exI [of _ k])
      next
        case (Push_construct y v)
        then obtain j where "j < ?n" "v = of_nat j" "y = ?P ! j" "phase (j mod c) = (j, Claimed t')"
          using mp_invD(5) [OF I, of t'] by auto
        then show ?thesis using Push_construct f [of "j mod c" j "Claimed t'"]
          by (auto simp del: fun_upd_apply simp: nth_append intro!: exI [of _ j])
      next
        case (Push_publish v)
        then obtain j where "j < ?n" "v = of_nat j" "phase (j mod c) = (j, Built t')"
          using mp_invD(5) [OF I, of t'] by auto
        then show ?thesis using Push_publish f [of "j mod c" j "Built t'"]
          by (auto simp del: fun_upd_apply intro!: exI [of _ j])
      next
        case (Pop_publish v y)
        then obtain j where "j < ?H" "v = of_nat j" "y = ?P ! j" "phase (j mod c) = (j, Emptied t')"
          using mp_invD(5) [OF I, of t'] by auto
        then show ?thesis using Pop_publish f [of "j mod c" j "Emptied t'"] mp_shapeD(9) [OF S]
          by (auto simp del: fun_upd_apply simp: nth_append intro!: exI [of _ j])
      qed (fastforce simp del: fun_upd_apply intro: f)+
      then show ?thesis using False by (metis fun_upd_other)
    qed
  qed
  have hand: "mp_in_hand c ?ph k \<longleftrightarrow> mp_in_hand c phase k" for k
    using free by (auto simp: mp_in_hand_iff)
  have e: "?Q ! k = ?P ! k" if "k < ?H" for k using that mp_shapeD(9) [OF S] by (simp add: nth_append)
  have "mp_returns ?Q ?H c ?ph (mp_returned log)"
    using R unfolding mp_returns_def hand by (metis e)
  with shape cells threads show ?thesis unfolding mp_inv_def by (intro exI [of _ ?ph]) simp
qed

text \<open>A consumer claims ticket \<open>H\<close>.\<close>

lemma mp_claim_pop:
  assumes I: "mp_inv ty c log pcs s phase" and pc: "pcs t = Pop_claim w" and w: "mp_head s = w"
  shows "\<exists>phase'. mp_inv ty c (log @ [Dequeued]) (pcs(t := Pop_move w)) (s\<lparr>mp_head := w + 1\<rparr>) phase'"
proof -
  let ?P = "mp_pushed log" and ?H = "mp_claims log"
  note S = mp_invD(1) [OF I] and C = mp_invD(2) [OF I] and T = mp_invD(3) [OF I] and R = mp_invD(4) [OF I]
  have h63: "?H < 2 ^ 63" using mp_shapeD(9,10) [OF S] by simp
  note cell = mp_cell_ticket [OF S h63]
  have wn: "w = of_nat ?H" using w mp_shapeD(8) [OF S] by simp
  have full: "phase (?H mod c) = (?H, Full)"
  proof -
    obtain k where "k \<le> ?H" "w = of_nat k" "k = ?H \<longrightarrow> phase (k mod c) = (k, Full)"
      using mp_invD(5) [OF I, of t] pc by auto
    moreover from this have "k = ?H" using wn ticket_eq [of k ?H] h63 by simp
    ultimately show ?thesis by simp
  qed
  have less: "?H < length ?P" using mp_cellsD(3) [OF C cell(2) full] by simp
  let ?i = "?H mod c" and ?ph = "phase(?H mod c := (?H, Taken t))" and ?pcs = "pcs(t := Pop_move w)"
  have "(\<lambda>i. if i < c then mp_live ?P (?ph i) else None) = (\<lambda>i. if i < c then mp_live ?P (phase i) else None)"
    using full by (auto simp: fun_eq_iff)
  moreover have "mp_seq_of (?ph k) = mp_seq_of (phase k)" for k using full by simp
  ultimately have shape: "mp_shape ty ?P (Suc ?H) c ?ph (s\<lparr>mp_head := w + 1\<rparr>)"
    using S wn less unfolding mp_shape_def by simp
  have cells: "mp_cells ?P (Suc ?H) c ?ph ?pcs"
    unfolding mp_cells_def
  proof (intro allI impI)
    fix k
    assume k: "k < c"
    show "mp_cell_ok ?P (Suc ?H) c ?pcs k (?ph k)"
    proof (cases "k = ?i")
      case True
      then show ?thesis using wn mp_cellsD(2) [OF C cell(2) full] by simp
    next
      case False
      obtain j ph where p: "phase k = (j, ph)" by (cases "phase k")
      have nt: "mp_owner ph \<noteq> Some t" using mp_owner_word [OF C k p] pc by auto
      note ok = mp_cellsD [OF C k p]
      have "j \<noteq> ?H" using ok(1) False by auto
      then have "mp_cell_ok ?P (Suc ?H) c pcs k (j, ph)" using ok(3) by (cases ph) auto
      then show ?thesis using p False mp_cell_ok_frame [OF nt] by (metis fun_upd_other)
    qed
  qed
  have threads: "mp_threads ?P (Suc ?H) c ?ph ?pcs"
    unfolding mp_threads_def
  proof
    fix t'
    show "mp_thread_ok ?P (Suc ?H) c ?ph t' (?pcs t')"
    proof (cases "t' = t")
      case True
      then show ?thesis using wn by auto
    next
      case False
      have f: "?ph q = (k, X)" if "phase q = (k, X)" "X \<noteq> Full" for q k X using that full by auto
      have "mp_thread_ok ?P ?H c phase t' (pcs t')" by (rule mp_invD(5) [OF I])
      then have "mp_thread_ok ?P (Suc ?H) c ?ph t' (pcs t')"
      proof (cases "pcs t'")
        case (Pop_claim v)
        then obtain k where "k \<le> ?H" "v = of_nat k" using mp_invD(5) [OF I, of t'] by auto
        then show ?thesis using Pop_claim by (auto simp del: fun_upd_apply intro!: exI [of _ k])
      next
        case (Pop_check v)
        then obtain k where "k \<le> ?H" "v = of_nat k" using mp_invD(5) [OF I, of t'] by auto
        then show ?thesis using Pop_check by (auto simp del: fun_upd_apply intro!: exI [of _ k])
      next
        case (Pop_move v)
        then obtain j where "j < ?H" "v = of_nat j" "phase (j mod c) = (j, Taken t')"
          using mp_invD(5) [OF I, of t'] by auto
        then show ?thesis using Pop_move f [of "j mod c" j "Taken t'"]
          by (auto simp del: fun_upd_apply intro!: exI [of _ j])
      next
        case (Pop_publish v y)
        then obtain j where "j < ?H" "v = of_nat j" "y = ?P ! j" "phase (j mod c) = (j, Emptied t')"
          using mp_invD(5) [OF I, of t'] by auto
        then show ?thesis using Pop_publish f [of "j mod c" j "Emptied t'"]
          by (auto simp del: fun_upd_apply intro!: exI [of _ j])
      qed (fastforce simp del: fun_upd_apply intro: f)+
      then show ?thesis using False by (metis fun_upd_other)
    qed
  qed
  have hand: "mp_in_hand c ?ph k \<longleftrightarrow> mp_in_hand c phase k \<or> k = ?H" for k
    using full by (auto simp: mp_in_hand_iff)
  have "mp_returns ?P (Suc ?H) c ?ph (mp_returned log)"
    using R unfolding mp_returns_def hand by (auto simp: less_Suc_eq)
  with shape cells threads show ?thesis unfolding mp_inv_def by (intro exI [of _ ?ph]) simp
qed

lemma mp_seq_bound:
  assumes "mp_shape ty P H c phase s" "mp_cells P H c phase pcs" "i < c"
  shows "mp_seq_of (phase i) < length P + c"
proof -
  obtain j ph where p: "phase i = (j, ph)" by (cases "phase i")
  show ?thesis
    using mp_cellsD(3) [OF assms(2,3) p] mp_shapeD(1,9) [OF assms(1)] p by (cases ph) auto
qed

lemma mod_Suc_neq: "2 \<le> c \<Longrightarrow> Suc j mod c \<noteq> j mod c" for c :: nat
  by (auto simp: mod_Suc)

lemma mp_step_push_check:
  assumes I: "mp_inv ty c log pcs s phase" and pc: "pcs t = Push_check x w"
  obtains k where "k \<le> length (mp_pushed log)" "w = of_nat k"
    "mp_step ty sp (pcs t) s = Some
      (if mp_seq_of (phase (k mod c)) = k then ([], Push_claim x w, s)
       else if mp_seq_of (phase (k mod c)) < k then ([Push_returns False], Idle, s) else ([], Push_load x, s))"
proof -
  note S = mp_invD(1) [OF I] and C = mp_invD(2) [OF I]
  obtain k where k: "k \<le> length (mp_pushed log)" "w = of_nat k"
    using mp_invD(5) [OF I, of t] pc by auto
  have b: "k < 2 ^ 63" using k(1) mp_shapeD(10) [OF S] by simp
  note cell = mp_cell_ticket [OF S b]
  have q: "mp_seq_of (phase (k mod c)) < 2 ^ 63" using mp_seq_bound [OF S C cell(2)] mp_shapeD(10) [OF S] by simp
  show ?thesis
    using that [OF k] mp_load_ticket [OF S b] ticket_diff [OF q b] pc k(2) by simp
qed

lemma mp_step_pop_check:
  assumes I: "mp_inv ty c log pcs s phase" and pc: "pcs t = Pop_check w"
  obtains k where "k \<le> mp_claims log" "w = of_nat k"
    "mp_step ty sp (pcs t) s = Some
      (if mp_seq_of (phase (k mod c)) = Suc k then ([], Pop_claim w, s)
       else if mp_seq_of (phase (k mod c)) < Suc k then ([Pop_returns None], Idle, s) else ([], Pop_load, s))"
proof -
  note S = mp_invD(1) [OF I] and C = mp_invD(2) [OF I]
  obtain k where k: "k \<le> mp_claims log" "w = of_nat k"
    using mp_invD(5) [OF I, of t] pc by auto
  have b: "k < 2 ^ 63" "Suc k < 2 ^ 63" using k(1) mp_shapeD(1,9,10) [OF S] by simp_all
  note cell = mp_cell_ticket [OF S b(1)]
  have q: "mp_seq_of (phase (k mod c)) < 2 ^ 63" using mp_seq_bound [OF S C cell(2)] mp_shapeD(10) [OF S] by simp
  have "w + 1 = of_nat (Suc k)" using k(2) by simp
  with that [OF k] mp_load_ticket [OF S b(1)] ticket_diff [OF q b(2)] pc k(2) show ?thesis
    by (simp del: of_nat_Suc)
qed

lemma mp_claimable:
  assumes "mp_shape ty P H c phase s" "mp_cells P H c phase pcs"
  shows "mp_seq_of (phase (length P mod c)) = length P \<Longrightarrow> phase (length P mod c) = (length P, Free)"
    "mp_seq_of (phase (H mod c)) = Suc H \<Longrightarrow> phase (H mod c) = (H, Full)"
proof -
  have c: "2 \<le> c" "length P < 2 ^ 63" "H < 2 ^ 63" using mp_shapeD(1,9,10) [OF assms(1)] by simp_all
  show "phase (length P mod c) = (length P, Free)" if q: "mp_seq_of (phase (length P mod c)) = length P"
  proof -
    obtain j ph where p: "phase (length P mod c) = (j, ph)" by (cases "phase (length P mod c)")
    note ok = mp_cellsD [OF assms(2) mp_cell_ticket(2) [OF assms(1) c(2)] p]
    have "Suc j \<noteq> length P" using ok(1) mod_Suc_neq [OF c(1), of j] by metis
    then show ?thesis using ok(3) q p mp_shapeD(9) [OF assms(1)] by (cases ph) auto
  qed
  show "phase (H mod c) = (H, Full)" if q: "mp_seq_of (phase (H mod c)) = Suc H"
  proof -
    obtain j ph where p: "phase (H mod c) = (j, ph)" by (cases "phase (H mod c)")
    note ok = mp_cellsD [OF assms(2) mp_cell_ticket(2) [OF assms(1) c(3)] p]
    have "j \<noteq> Suc H" using ok(1) mod_Suc_neq [OF c(1), of H] by metis
    then show ?thesis using ok(3) q p by (cases ph) auto
  qed
qed

lemma mp_step_inv:
  assumes I: "mp_inv ty c log pcs s phase"
  obtains es pc s' where "mp_step ty sp (pcs t) s = Some (es, pc, s')"
    "length (mp_pushed (log @ es)) + c < 2 ^ 63 \<Longrightarrow> \<exists>phase'. mp_inv ty c (log @ es) (pcs(t := pc)) s' phase'"
proof (cases "pcs t")
  case Idle
  then show ?thesis using that [of "[]" Idle s] mp_inv_local [OF I, of t Idle "[]"] by auto
next
  case (Push_load x)
  then show ?thesis
    using that [of "[]" "Push_check x (mp_tail s)" s] mp_inv_local [OF I, of t "Push_check x (mp_tail s)" "[]"]
      mp_shapeD(7) [OF mp_invD(1) [OF I]] by auto
next
  case (Push_check x w)
  from I this show ?thesis
  proof (rule mp_step_push_check [where sp = sp])
    fix k
    assume k: "k \<le> length (mp_pushed log)" "w = of_nat k"
      "mp_step ty sp (pcs t) s = Some
        (if mp_seq_of (phase (k mod c)) = k then ([], Push_claim x w, s)
         else if mp_seq_of (phase (k mod c)) < k then ([Push_returns False], Idle, s) else ([], Push_load x, s))"
    have claim: "mp_thread_ok (mp_pushed log) (mp_claims log) c phase t (Push_claim x w)" if "mp_seq_of (phase (k mod c)) = k"
      using k(1,2) that mp_claimable(1) [OF mp_invD(1,2) [OF I]] by auto
    show ?thesis
      using that k(3) mp_inv_local [OF I, of t "Push_claim x w" "[]"] mp_inv_local [OF I, of t Idle "[Push_returns False]"]
        mp_inv_local [OF I, of t "Push_load x" "[]"] claim Push_check by (auto split: if_splits)
  qed
next
  case (Push_claim x w)
  show ?thesis
  proof (cases "mp_tail s = w \<and> \<not> sp")
    case True
    then show ?thesis
      using that [of "[Enqueued x]" "Push_construct x w" "s\<lparr>mp_tail := w + 1\<rparr>"] Push_claim mp_claim_push [OF I Push_claim]
      by simp
  next
    case False
    have "mp_inv ty c (log @ []) (pcs(t := Push_load x)) s phase" using Push_claim by (intro mp_inv_local [OF I]) simp_all
    then show ?thesis using Push_claim False by (intro that [of "[]" "Push_load x" s]) (auto simp del: fun_upd_apply)
  qed
next
  case (Push_construct x w)
  then show ?thesis using mp_step_construct [OF I Push_construct, of sp] that by fastforce
next
  case (Push_publish w)
  then show ?thesis using mp_step_push_publish [OF I Push_publish, of sp] that by fastforce
next
  case Pop_load
  then show ?thesis
    using that [of "[]" "Pop_check (mp_head s)" s] mp_inv_local [OF I, of t "Pop_check (mp_head s)" "[]"]
      mp_shapeD(8) [OF mp_invD(1) [OF I]] by auto
next
  case (Pop_check w)
  from I this show ?thesis
  proof (rule mp_step_pop_check [where sp = sp])
    fix k
    assume k: "k \<le> mp_claims log" "w = of_nat k"
      "mp_step ty sp (pcs t) s = Some
        (if mp_seq_of (phase (k mod c)) = Suc k then ([], Pop_claim w, s)
         else if mp_seq_of (phase (k mod c)) < Suc k then ([Pop_returns None], Idle, s) else ([], Pop_load, s))"
    have claim: "mp_thread_ok (mp_pushed log) (mp_claims log) c phase t (Pop_claim w)" if "mp_seq_of (phase (k mod c)) = Suc k"
      using k(1,2) that mp_claimable(2) [OF mp_invD(1,2) [OF I]] by auto
    show ?thesis
      using that k(3) mp_inv_local [OF I, of t "Pop_claim w" "[]"] mp_inv_local [OF I, of t Idle "[Pop_returns None]"]
        mp_inv_local [OF I, of t "Pop_load" "[]"] claim Pop_check by (auto split: if_splits)
  qed
next
  case (Pop_claim w)
  show ?thesis
  proof (cases "mp_head s = w \<and> \<not> sp")
    case True
    then show ?thesis
      using that [of "[Dequeued]" "Pop_move w" "s\<lparr>mp_head := w + 1\<rparr>"] Pop_claim mp_claim_pop [OF I Pop_claim]
      by simp
  next
    case False
    have "mp_inv ty c (log @ []) (pcs(t := Pop_load)) s phase" using Pop_claim by (intro mp_inv_local [OF I]) simp_all
    then show ?thesis using Pop_claim False by (intro that [of "[]" "Pop_load" s]) (auto simp del: fun_upd_apply)
  qed
next
  case (Pop_move w)
  then show ?thesis using mp_step_move [OF I Pop_move, of sp] that by fastforce
next
  case (Pop_publish w x)
  then show ?thesis using mp_step_pop_publish [OF I Pop_publish, of sp] that by fastforce
qed

lemma mp_run_inv:
  assumes "mp_run ty s0 log pcs s" "mp_inv ty c [] (\<lambda>_. Idle) s0 phase0"
  shows "length (mp_pushed log) + c < 2 ^ 63 \<Longrightarrow> \<exists>phase. mp_inv ty c log pcs s phase"
  using assms(1)
proof (induction rule: mp_run.induct)
  case mp_start
  then show ?case using assms(2) by blast
next
  case (mp_call_push log pcs s t x)
  then obtain phase where "mp_inv ty c log pcs s phase" by blast
  from mp_inv_local [OF this, of t "Push_load x" "[]"] mp_call_push.hyps show ?case by (intro exI [of _ phase]) (simp del: fun_upd_apply)
next
  case (mp_call_pop log pcs s t)
  then obtain phase where "mp_inv ty c log pcs s phase" by blast
  from mp_inv_local [OF this, of t "Pop_load" "[]"] mp_call_pop.hyps show ?case by (intro exI [of _ phase]) (simp del: fun_upd_apply)
next
  case (mp_thread log pcs s t sp es pc s')
  then obtain phase where I: "mp_inv ty c log pcs s phase" by auto
  obtain es' pc' s'' where "mp_step ty sp (pcs t) s = Some (es', pc', s'')"
    "length (mp_pushed (log @ es')) + c < 2 ^ 63 \<Longrightarrow> \<exists>phase'. mp_inv ty c (log @ es') (pcs(t := pc')) s'' phase'"
    using mp_step_inv [OF I, where t = t and sp = sp] by blast
  with mp_thread.hyps(3) mp_thread.prems show ?case by (simp del: fun_upd_apply)
qed

section \<open>The constructor\<close>

definition mp_phase0 :: "nat \<Rightarrow> nat \<times> mp_phase" where
  "mp_phase0 i = (i, Free)"

lemma mp_new_inv:
  assumes "is_po2 n" "2 \<le> unat n" "unat n < 2 ^ 63"
  shows "mp_inv ty (unat n) [] (\<lambda>_. Idle) \<lparr>mp_capacity = n, mp_mask = n - 1, mp_head = 0, mp_tail = 0,
      mp_seqs = map of_nat [0..<unat n], mp_storage = replicate (unat n) None\<rparr> mp_phase0"
  using assms
  by (auto simp: mp_inv_def mp_shape_def mp_cells_def mp_threads_def mp_returns_def mp_phase0_def mp_in_hand_def
      slots_hold_def)

text \<open>What the constructor makes of a request of at most \<open>2^40\<close> elements, for cells below \<open>2^20\<close> bytes.\<close>

lemma mp_new_cases:
  fixes ty :: "'a elem_type"
  assumes "unat capacity \<le> 2 ^ 40" "0 < unat csz" "unat csz < 2 ^ 20"
  obtains "mp_new nw csz capacity = Some (Inl Bad_alloc :: exn + 'a mpmc)"
    | s :: "'a mpmc" where "mp_new nw csz capacity = Some (Inr s)" "mp_inv ty (unat (mp_capacity s)) [] (\<lambda>_. Idle) s mp_phase0"
      "unat capacity \<le> unat (mp_capacity s)" "unat (mp_capacity s) \<le> 2 ^ 41"
proof -
  have "unat capacity \<le> 2 ^ 63" using assms(1) by simp
  then obtain n where n: "round_up_to_power_of_two capacity = Some n" "is_po2 n" "2 \<le> unat n"
    "unat capacity \<le> unat n" "unat n < 2 * max 2 (unat capacity)"
    by (rule round_up_loopE)
  have b: "unat n \<le> 2 ^ 41" using n(5) assms(1) by (auto simp: max_def split: if_splits)
  have "unat n * unat csz \<le> 2 ^ 41 * 2 ^ 20" using b assms(3) by (intro mult_le_mono) simp_all
  then have "unat n * unat csz < 2 ^ 64" by simp
  note f = new_slots_fit [OF this assms(2), of nw]
  show ?thesis
  proof (cases "nw (n * csz)")
    case True
    then show ?thesis
      using that(2) [of "\<lparr>mp_capacity = n, mp_mask = n - 1, mp_head = 0, mp_tail = 0,
          mp_seqs = map of_nat [0..<unat n], mp_storage = replicate (unat n) None\<rparr>"]
        mp_new_inv [OF n(2,3), of ty] n b by (simp add: mp_new_def f)
  next
    case False
    then show ?thesis using that(1) n by (simp add: mp_new_def f)
  qed
qed

section \<open>One thread at a time\<close>

definition mp_rep :: "'a elem_type \<Rightarrow> 'a list \<Rightarrow> 'a mpmc \<Rightarrow> bool" where
  "mp_rep ty xs s \<longleftrightarrow> (\<exists>log phase. mp_inv ty (unat (mp_capacity s)) log (\<lambda>_. Idle) s phase \<and>
     xs = drop (mp_claims log) (mp_pushed log))"

definition mp_contents :: "'a mpmc \<Rightarrow> 'a list" where
  "mp_contents s =
     map (\<lambda>k. the (mp_storage s ! mp_cell s (of_nat k))) [unat (mp_head s)..<unat (mp_tail s)]"

definition mp_state_inv :: "'a elem_type \<Rightarrow> 'a mpmc \<Rightarrow> bool" where
  "mp_state_inv ty s \<longleftrightarrow> mp_rep ty (mp_contents s) s"

definition mp_cap :: "'a mpmc \<Rightarrow> nat" where
  "mp_cap s = unat (mp_capacity s)"

text \<open>The number of further pushes before the signed comparison of tickets could overflow.\<close>

definition mp_life :: "'a mpmc \<Rightarrow> nat" where
  "mp_life s = 2 ^ 63 - Suc (unat (mp_capacity s) + unat (mp_tail s))"

lemma mp_complete_Idle: "mp_complete ty log Idle s = Some (log, s)"
  by (subst mp_complete.simps) simp

lemma mp_complete_step:
  "pc \<noteq> Idle \<Longrightarrow> mp_step ty False pc s = Some (es, pc', s') \<Longrightarrow>
   mp_complete ty log pc s = mp_complete ty (log @ es) pc' s'"
  by (subst mp_complete.simps) simp

lemma mp_quiet_phase:
  assumes "mp_inv ty c log (\<lambda>_. Idle) s phase" "i < c"
  obtains j where "phase i = (j, Free)" "j mod c = i" "length (mp_pushed log) \<le> j" "j < mp_claims log + c"
    | j where "phase i = (j, Full)" "j mod c = i" "mp_claims log \<le> j" "j < length (mp_pushed log)"
proof -
  obtain j ph where p: "phase i = (j, ph)" by (cases "phase i")
  show ?thesis
    using mp_cellsD(3) [OF mp_invD(2) [OF assms(1)] assms(2) p] p that by (cases ph) auto
qed

lemma ticket_window: "j mod c = k mod c \<Longrightarrow> k \<le> j \<Longrightarrow> j < k + c \<Longrightarrow> j = k" for c j k :: nat
proof -
  assume m: "j mod c = k mod c" and "k \<le> j" "j < k + c"
  then obtain d where d: "j = k + d" "d < c" by (metis add_less_cancel_left le_iff_add)
  with m have "(k + d) mod c = (k + 0) mod c" by simp
  then have "d = 0" using mod_add_inj [of k d c 0] d(2) by auto
  with d show "j = k" by simp
qed

lemma mp_quiet_free:
  assumes I: "mp_inv ty c log (\<lambda>_. Idle) s phase" and room: "length (mp_pushed log) < mp_claims log + c"
  shows "phase (length (mp_pushed log) mod c) = (length (mp_pushed log), Free)"
proof -
  let ?n = "length (mp_pushed log)"
  note S = mp_invD(1) [OF I]
  have "?n mod c < c" using mp_shapeD(1) [OF S] by simp
  from I this show ?thesis
  proof (cases rule: mp_quiet_phase)
    case (1 j)
    then show ?thesis using ticket_window [of j c ?n] mp_shapeD(9) [OF S] by simp
  next
    case (2 j)
    have "j + c = ?n" using 2 mp_cellsD(2) [OF mp_invD(2) [OF I] \<open>?n mod c < c\<close> 2(1)] mp_shapeD(9,11) [OF S] room
      ticket_window [of "j + c" c ?n] by simp
    then show ?thesis using 2 room by simp
  qed
qed

lemma mp_quiet_full:
  assumes I: "mp_inv ty c log (\<lambda>_. Idle) s phase"
    and "mp_claims log \<le> k" "k < length (mp_pushed log)"
  shows "phase (k mod c) = (k, Full)"
proof -
  note S = mp_invD(1) [OF I]
  have "k mod c < c" using mp_shapeD(1) [OF S] by simp
  from I this show ?thesis
  proof (cases rule: mp_quiet_phase)
    case (1 j)
    then show ?thesis using ticket_window [of j c k] assms(2,3) by simp
  next
    case (2 j)
    show ?thesis
    proof (cases "k \<le> j")
      case True
      then show ?thesis using 2 ticket_window [of j c k] assms(2,3) mp_shapeD(11) [OF S] by simp
    next
      case False
      then show ?thesis using 2 ticket_window [of k c j] assms(2,3) mp_shapeD(11) [OF S] by simp
    qed
  qed
qed

lemma mp_inv_contents:
  assumes I: "mp_inv ty (unat (mp_capacity s)) log (\<lambda>_. Idle) s phase"
  shows "mp_contents s = drop (mp_claims log) (mp_pushed log)" "mp_cap s = unat (mp_capacity s)"
    "unat (mp_tail s) = length (mp_pushed log)" "unat (mp_head s) = mp_claims log"
proof -
  let ?P = "mp_pushed log" and ?H = "mp_claims log" and ?c = "unat (mp_capacity s)"
  note S = mp_invD(1) [OF I]
  have b: "length ?P < 2 ^ 63" "?H < 2 ^ 63" using mp_shapeD(9,10) [OF S] by simp_all
  show t: "unat (mp_tail s) = length ?P" "unat (mp_head s) = ?H"
    using mp_shapeD(7,8) [OF S] b by (simp_all add: unat_of_nat_usize below63)
  have "the (mp_storage s ! mp_cell s (of_nat k)) = ?P ! k" if k: "?H \<le> k" "k < length ?P" for k
  proof -
    have k63: "k < 2 ^ 63" using k(2) b(1) by simp
    note cell = mp_cell_ticket [OF S k63]
    have "(if k mod ?c < ?c then mp_live ?P (phase (k mod ?c)) else None) = Some (?P ! k)"
      using mp_quiet_full [OF I k] cell(2) by simp
    from hold_read [OF mp_shapeD(13) [OF S] this] show ?thesis
      using cell mp_shapeD(6) [OF S] by (simp add: slot_read_def)
  qed
  then show "mp_contents s = drop ?H ?P"
    unfolding mp_contents_def t by (intro nth_equalityI) (simp_all del: of_nat_add)
qed (simp add: mp_cap_def)

lemma mp_rep_contents: "mp_rep ty xs s \<Longrightarrow> mp_contents s = xs"
  unfolding mp_rep_def using mp_inv_contents(1) by metis

lemma mp_rep_inv: "mp_rep ty xs s \<Longrightarrow> mp_state_inv ty s"
  by (simp add: mp_state_inv_def mp_rep_contents)

lemma mp_inv_next:
  assumes "mp_inv ty c log pcs s phase" "mp_step ty sp (pcs t) s = Some (es, pc, s')"
    and "length (mp_pushed (log @ es)) + c < 2 ^ 63"
  shows "\<exists>phase'. mp_inv ty c (log @ es) (pcs(t := pc)) s' phase'"
proof -
  obtain es' pc' s'' where "mp_step ty sp (pcs t) s = Some (es', pc', s'')"
    "length (mp_pushed (log @ es')) + c < 2 ^ 63 \<Longrightarrow> \<exists>phase'. mp_inv ty c (log @ es') (pcs(t := pc')) s'' phase'"
    using mp_step_inv [OF assms(1), where t = t and sp = sp] by blast
  with assms(2,3) show ?thesis by (simp del: fun_upd_apply)
qed

lemma mp_idle_upd [simp]: "(\<lambda>_. Idle)(t := Idle) = (\<lambda>_. Idle)"
  by auto

lemma mp_try_push_rep:
  assumes r: "mp_rep ty xs s" and room: "length xs < mp_cap s" and life: "0 < mp_life s"
  shows "\<exists>s'. mp_try_push ty x s = Some (True, s') \<and> mp_rep ty (xs @ [x]) s' \<and> mp_cap s' = mp_cap s \<and>
    mp_life s \<le> Suc (mp_life s')"
proof -
  obtain log phase where I: "mp_inv ty (unat (mp_capacity s)) log (\<lambda>_. Idle) s phase"
    and xs: "xs = drop (mp_claims log) (mp_pushed log)" using r by (auto simp: mp_rep_def)
  let ?c = "unat (mp_capacity s)" and ?n = "length (mp_pushed log)" and ?w = "mp_tail s"
  note S = mp_invD(1) [OF I] and obs = mp_inv_contents [OF I]
  have n: "?n < mp_claims log + ?c" using room xs obs(2) mp_shapeD(9) [OF S] by simp
  have b: "Suc ?n + ?c < 2 ^ 63" using life obs(3) by (simp add: mp_life_def)
  have w: "?w = of_nat ?n" using mp_shapeD(7) [OF S] .
  let ?L = "\<lambda>pc. ((\<lambda>_. Idle)(0 := pc)) :: nat \<Rightarrow> 'a mp_pc"
  have I1: "mp_inv ty ?c log (?L (Push_check x ?w)) s phase"
    using mp_inv_local [OF I, of 0 "Push_check x ?w" "[]"] w by auto
  have q: "mp_seq_of (phase (?n mod ?c)) = ?n" using mp_quiet_free [OF I n] by simp
  have "mp_step ty False (?L (Push_check x ?w) 0) s = Some ([], Push_claim x ?w, s)"
  proof (rule mp_step_push_check [OF I1, of 0 x ?w False])
    fix k
    assume k: "k \<le> ?n" "?w = of_nat k" "mp_step ty False (?L (Push_check x ?w) 0) s = Some
        (if mp_seq_of (phase (k mod ?c)) = k then ([], Push_claim x ?w, s)
         else if mp_seq_of (phase (k mod ?c)) < k then ([Push_returns False], Idle, s) else ([], Push_load x, s))"
    then have "k = ?n" using w ticket_eq [of k ?n] b by simp
    with k(3) q show ?thesis by simp
  qed simp
  then have s1: "mp_step ty False (Push_check x ?w) s = Some ([], Push_claim x ?w, s)" by simp
  have "\<exists>ph. mp_inv ty ?c log (?L (Push_claim x ?w)) s ph"
    using mp_inv_next [OF I1, of False 0] s1 b by fastforce
  then obtain ph2 where I2: "mp_inv ty ?c log (?L (Push_claim x ?w)) s ph2" by blast
  let ?s3 = "s\<lparr>mp_tail := ?w + 1\<rparr>" and ?l3 = "log @ [Enqueued x]"
  obtain ph3 where I3: "mp_inv ty ?c ?l3 (?L (Push_construct x ?w)) ?s3 ph3"
    using mp_claim_push [OF I2, of 0 x ?w] b by auto
  obtain m ph4 where s4: "mp_step ty False (Push_construct x ?w) ?s3 = Some ([], Push_publish ?w, ?s3\<lparr>mp_storage := m\<rparr>)"
    and I4: "mp_inv ty ?c ?l3 (?L (Push_publish ?w)) (?s3\<lparr>mp_storage := m\<rparr>) ph4"
    using mp_step_construct [OF I3, of 0 x ?w False] by fastforce
  obtain s5 ph5 where s5: "mp_step ty False (Push_publish ?w) (?s3\<lparr>mp_storage := m\<rparr>) = Some ([Push_returns True], Idle, s5)"
    and I5: "mp_inv ty ?c (?l3 @ [Push_returns True]) (\<lambda>_. Idle) s5 ph5"
    using mp_step_push_publish [OF I4, of 0 ?w False] by (auto simp del: mp_step.simps)
  have cap5: "mp_capacity s5 = mp_capacity s"
    using mp_shapeD(3) [OF mp_invD(1) [OF I5]] by (simp add: usize_eq_iff)
  have "mp_try_push ty x s = Some (True, s5)"
    using s1 s4 s5 by (simp add: mp_try_push_def mp_try_emplace_def mp_complete_Idle mp_complete_step del: mp_step.simps(3,5,6))
  moreover have "mp_rep ty (xs @ [x]) s5"
    unfolding mp_rep_def cap5 using I5 xs mp_shapeD(9) [OF S] by (intro exI conjI) auto
  moreover have "mp_cap s5 = mp_cap s" using cap5 by (simp add: mp_cap_def)
  moreover have "unat (mp_tail s5) = Suc (unat ?w)"
    using mp_inv_contents(3) [of ty s5 "?l3 @ [Push_returns True]" ph5] I5 cap5 obs(3) by simp
  ultimately show ?thesis using cap5 by (auto simp: mp_life_def)
qed

lemma mp_try_push_full:
  assumes r: "mp_rep ty xs s" and full: "\<not> length xs < mp_cap s"
  shows "mp_try_push ty x s = Some (False, s)"
proof -
  obtain log phase where I: "mp_inv ty (unat (mp_capacity s)) log (\<lambda>_. Idle) s phase"
    and xs: "xs = drop (mp_claims log) (mp_pushed log)" using r by (auto simp: mp_rep_def)
  let ?c = "unat (mp_capacity s)" and ?n = "length (mp_pushed log)" and ?w = "mp_tail s"
  note S = mp_invD(1) [OF I] and obs = mp_inv_contents [OF I]
  have n: "?n = mp_claims log + ?c" using full xs obs(2) mp_shapeD(9,11) [OF S] by simp
  have w: "?w = of_nat ?n" using mp_shapeD(7) [OF S] .
  let ?L = "\<lambda>pc. ((\<lambda>_. Idle)(0 := pc)) :: nat \<Rightarrow> 'a mp_pc"
  have I1: "mp_inv ty ?c log (?L (Push_check x ?w)) s phase"
    using mp_inv_local [OF I, of 0 "Push_check x ?w" "[]"] w by auto
  have "phase (mp_claims log mod ?c) = (mp_claims log, Full)"
    using mp_quiet_full [OF I, of "mp_claims log"] n mp_shapeD(1) [OF S] by simp
  then have q: "mp_seq_of (phase (?n mod ?c)) = Suc (mp_claims log)" using n by simp
  have "mp_step ty False (?L (Push_check x ?w) 0) s = Some ([Push_returns False], Idle, s)"
  proof (rule mp_step_push_check [OF I1, of 0 x ?w False])
    fix k
    assume k: "k \<le> ?n" "?w = of_nat k" "mp_step ty False (?L (Push_check x ?w) 0) s = Some
        (if mp_seq_of (phase (k mod ?c)) = k then ([], Push_claim x ?w, s)
         else if mp_seq_of (phase (k mod ?c)) < k then ([Push_returns False], Idle, s) else ([], Push_load x, s))"
    then have "k = ?n" using w ticket_eq [of k ?n] mp_shapeD(10) [OF S] by simp
    with k(3) q n mp_shapeD(1) [OF S] show ?thesis by simp
  qed simp
  then have s1: "mp_step ty False (Push_check x ?w) s = Some ([Push_returns False], Idle, s)" by simp
  then show ?thesis
    by (simp add: mp_try_push_def mp_try_emplace_def mp_complete_Idle mp_complete_step del: mp_step.simps(3))
qed

lemma mp_try_pop_rep:
  assumes r: "mp_rep ty (x # xs) s"
  shows "\<exists>s'. mp_try_pop ty s = Some (Some x, s') \<and> mp_rep ty xs s' \<and> mp_cap s' = mp_cap s \<and> mp_life s \<le> mp_life s'"
proof -
  obtain log phase where I: "mp_inv ty (unat (mp_capacity s)) log (\<lambda>_. Idle) s phase"
    and xs: "x # xs = drop (mp_claims log) (mp_pushed log)" using r by (auto simp: mp_rep_def)
  let ?c = "unat (mp_capacity s)" and ?H = "mp_claims log" and ?P = "mp_pushed log" and ?w = "mp_head s"
  note S = mp_invD(1) [OF I] and obs = mp_inv_contents [OF I]
  have n: "?H < length ?P" using arg_cong [OF xs, of length] by simp
  have x: "x = ?P ! ?H" "xs = drop (Suc ?H) ?P" using xs n by (simp_all add: Cons_nth_drop_Suc [symmetric])
  have b: "length ?P + ?c < 2 ^ 63" using mp_shapeD(10) [OF S] .
  have w: "?w = of_nat ?H" using mp_shapeD(8) [OF S] .
  let ?L = "\<lambda>pc. ((\<lambda>_. Idle)(0 := pc)) :: nat \<Rightarrow> 'a mp_pc"
  have I1: "mp_inv ty ?c log (?L (Pop_check ?w)) s phase"
    using mp_inv_local [OF I, of 0 "Pop_check ?w" "[]"] w by auto
  have q: "mp_seq_of (phase (?H mod ?c)) = Suc ?H" using mp_quiet_full [OF I order_refl n] by simp
  have "mp_step ty False (?L (Pop_check ?w) 0) s = Some ([], Pop_claim ?w, s)"
  proof (rule mp_step_pop_check [OF I1, of 0 ?w False])
    fix k
    assume k: "k \<le> ?H" "?w = of_nat k" "mp_step ty False (?L (Pop_check ?w) 0) s = Some
        (if mp_seq_of (phase (k mod ?c)) = Suc k then ([], Pop_claim ?w, s)
         else if mp_seq_of (phase (k mod ?c)) < Suc k then ([Pop_returns None], Idle, s) else ([], Pop_load, s))"
    then have "k = ?H" using w ticket_eq [of k ?H] b n by simp
    with k(3) q show ?thesis by simp
  qed simp
  then have s1: "mp_step ty False (Pop_check ?w) s = Some ([], Pop_claim ?w, s)" by simp
  have "\<exists>ph. mp_inv ty ?c log (?L (Pop_claim ?w)) s ph"
    using mp_inv_next [OF I1, of False 0] s1 b by fastforce
  then obtain ph2 where I2: "mp_inv ty ?c log (?L (Pop_claim ?w)) s ph2" by blast
  let ?s3 = "s\<lparr>mp_head := ?w + 1\<rparr>" and ?l3 = "log @ [Dequeued]"
  obtain ph3 where I3: "mp_inv ty ?c ?l3 (?L (Pop_move ?w)) ?s3 ph3"
    using mp_claim_pop [OF I2, of 0 ?w] by auto
  obtain y m ph4 where s4: "mp_step ty False (Pop_move ?w) ?s3 = Some ([], Pop_publish ?w y, ?s3\<lparr>mp_storage := m\<rparr>)"
    and I4: "mp_inv ty ?c ?l3 (?L (Pop_publish ?w y)) (?s3\<lparr>mp_storage := m\<rparr>) ph4"
    using mp_step_move [OF I3, of 0 ?w False] by fastforce
  have y: "y = x"
  proof -
    obtain j where "j < Suc ?H" "?w = of_nat j" "y = ?P ! j"
      using mp_invD(5) [OF I4, of 0] by auto
    moreover from this have "j = ?H" using w ticket_eq [of j ?H] b n by simp
    ultimately show ?thesis using x(1) by simp
  qed
  obtain s5 ph5 where s5: "mp_step ty False (Pop_publish ?w y) (?s3\<lparr>mp_storage := m\<rparr>) = Some ([Pop_returns (Some (?w, y))], Idle, s5)"
    and I5: "mp_inv ty ?c (?l3 @ [Pop_returns (Some (?w, y))]) (\<lambda>_. Idle) s5 ph5"
    using mp_step_pop_publish [OF I4, of 0 ?w y False] by (auto simp del: mp_step.simps)
  have cap5: "mp_capacity s5 = mp_capacity s"
    using mp_shapeD(3) [OF mp_invD(1) [OF I5]] by (simp add: usize_eq_iff)
  have "mp_try_pop ty s = Some (Some x, s5)"
    using s1 s4 s5 y by (simp add: mp_try_pop_def mp_complete_Idle mp_complete_step del: mp_step.simps(8,10,11))
  moreover have "mp_rep ty xs s5"
    unfolding mp_rep_def cap5 using I5 x(2) by (intro exI conjI) auto
  moreover have "mp_cap s5 = mp_cap s" using cap5 by (simp add: mp_cap_def)
  moreover have "unat (mp_tail s5) = unat (mp_tail s)"
    using mp_inv_contents(3) [of ty s5 "?l3 @ [Pop_returns (Some (?w, y))]" ph5] I5 cap5 obs(3) by simp
  ultimately show ?thesis using cap5 by (auto simp: mp_life_def)
qed

lemma mp_try_pop_empty:
  assumes r: "mp_rep ty [] s"
  shows "mp_try_pop ty s = Some (None, s)"
proof -
  obtain log phase where I: "mp_inv ty (unat (mp_capacity s)) log (\<lambda>_. Idle) s phase"
    and xs: "[] = drop (mp_claims log) (mp_pushed log)" using r by (auto simp: mp_rep_def)
  let ?c = "unat (mp_capacity s)" and ?H = "mp_claims log" and ?P = "mp_pushed log" and ?w = "mp_head s"
  note S = mp_invD(1) [OF I]
  have n: "length ?P = ?H" using xs mp_shapeD(9) [OF S] by simp
  have w: "?w = of_nat ?H" using mp_shapeD(8) [OF S] .
  let ?L = "\<lambda>pc. ((\<lambda>_. Idle)(0 := pc)) :: nat \<Rightarrow> 'a mp_pc"
  have I1: "mp_inv ty ?c log (?L (Pop_check ?w)) s phase"
    using mp_inv_local [OF I, of 0 "Pop_check ?w" "[]"] w by auto
  have q: "mp_seq_of (phase (?H mod ?c)) = ?H"
    using mp_quiet_free [OF I] n mp_shapeD(1) [OF S] by simp
  have "mp_step ty False (?L (Pop_check ?w) 0) s = Some ([Pop_returns None], Idle, s)"
  proof (rule mp_step_pop_check [OF I1, of 0 ?w False])
    fix k
    assume k: "k \<le> ?H" "?w = of_nat k" "mp_step ty False (?L (Pop_check ?w) 0) s = Some
        (if mp_seq_of (phase (k mod ?c)) = Suc k then ([], Pop_claim ?w, s)
         else if mp_seq_of (phase (k mod ?c)) < Suc k then ([Pop_returns None], Idle, s) else ([], Pop_load, s))"
    then have "k = ?H" using w ticket_eq [of k ?H] mp_shapeD(9,10) [OF S] by simp
    with k(3) q show ?thesis by simp
  qed simp
  then have s1: "mp_step ty False (Pop_check ?w) s = Some ([Pop_returns None], Idle, s)" by simp
  then show ?thesis
    by (simp add: mp_try_pop_def mp_complete_Idle mp_complete_step del: mp_step.simps(8))
qed

text \<open>The queries are exact when no operation is in progress.\<close>

lemma mp_queries_rep:
  assumes r: "mp_rep ty xs s"
  shows "mp_empty s \<longleftrightarrow> xs = []" "mp_full s = Some (length xs = mp_cap s)"
    "mp_approximate_size s = of_nat (length xs)" "length xs \<le> mp_cap s"
proof -
  obtain log phase where I: "mp_inv ty (unat (mp_capacity s)) log (\<lambda>_. Idle) s phase"
    and xs: "xs = drop (mp_claims log) (mp_pushed log)" using r by (auto simp: mp_rep_def)
  let ?c = "unat (mp_capacity s)" and ?H = "mp_claims log" and ?P = "mp_pushed log"
  note S = mp_invD(1) [OF I] and obs = mp_inv_contents [OF I]
  note D = mp_shapeD [OF S]
  have b: "length ?P < 2 ^ 63" "?H < 2 ^ 63" using D(9,10) by simp_all
  show "mp_empty s \<longleftrightarrow> xs = []" using D(7-9) ticket_eq [OF b] xs by (auto simp: mp_empty_def)
  show "mp_approximate_size s = of_nat (length xs)"
    using D(7-9) xs by (simp add: mp_approximate_size_def of_nat_diff)
  show "length xs \<le> mp_cap s" using xs D(11) obs(2) by simp
  have ld: "mp_load_seq s (mp_tail s) = Some (of_nat (mp_seq_of (phase (length ?P mod ?c))))"
    using mp_load_ticket [OF S b(1)] D(7) by simp
  have less: "(of_nat a :: usize) < of_nat d \<longleftrightarrow> a < d" if "a < 2 ^ 63" "d < 2 ^ 63" for a d
    using that by (simp add: word_less_nat_alt unat_of_nat_usize below63)
  show "mp_full s = Some (length xs = mp_cap s)"
  proof (cases "length ?P < ?H + ?c")
    case True
    then show ?thesis using ld mp_quiet_free [OF I True] xs obs(2) D(7,9) by (simp add: mp_full_def)
  next
    case False
    then have n: "length ?P = ?H + ?c" using D(11) by simp
    have "phase (?H mod ?c) = (?H, Full)" using mp_quiet_full [OF I order_refl] n D(1) by simp
    then have "mp_seq_of (phase (length ?P mod ?c)) = Suc ?H" using n by simp
    moreover have "Suc ?H < length ?P" using n D(1) by simp
    moreover from this have "(of_nat (Suc ?H) :: usize) < of_nat (length ?P)" using b(1) by (subst less) simp_all
    ultimately show ?thesis using ld xs obs(2) D(7) n by (simp add: mp_full_def)
  qed
qed

interpretation mpmc: metered_fifo "mp_state_inv ty" mp_contents mp_cap mp_life "mp_try_push ty" "mp_try_pop ty"
  for ty :: "'a elem_type"
proof unfold_locales
  fix s :: "'a mpmc" and x
  assume "mp_state_inv ty s"
  then have r: "mp_rep ty (mp_contents s) s" by (simp add: mp_state_inv_def)
  show "\<exists>s'. mp_try_push ty x s = Some (True, s') \<and> mp_state_inv ty s' \<and> mp_contents s' = mp_contents s @ [x] \<and>
      mp_cap s' = mp_cap s \<and> mp_life s \<le> Suc (mp_life s')" if "0 < mp_life s" "length (mp_contents s) < mp_cap s"
    using mp_try_push_rep [OF r that(2,1), of x] mp_rep_contents mp_rep_inv by metis
  show "mp_try_push ty x s = Some (False, s)" if "\<not> length (mp_contents s) < mp_cap s"
    using mp_try_push_full [OF r that] .
  show "\<exists>s'. mp_try_pop ty s = Some (Some x, s') \<and> mp_state_inv ty s' \<and> mp_contents s' = xs \<and>
      mp_cap s' = mp_cap s \<and> mp_life s \<le> mp_life s'" if "mp_contents s = x # xs" for xs
  proof -
    have "mp_rep ty (x # xs) s" using r that by simp
    from mp_try_pop_rep [OF this] show ?thesis using mp_rep_contents mp_rep_inv by metis
  qed
  show "mp_try_pop ty s = Some (None, s)" if "mp_contents s = []"
    using mp_try_pop_empty r that by metis
  show "length (mp_contents s) \<le> mp_cap s" using mp_queries_rep(4) [OF r] .
qed

section \<open>Failures, retries, and running alone\<close>

lemma mp_returns_false:
  "mp_step ty sp pc s = Some ([Push_returns False], pc', s') \<Longrightarrow> \<exists>x w. pc = Push_check x w"
  "mp_step ty sp pc s = Some ([Pop_returns None], pc', s') \<Longrightarrow> \<exists>w. pc = Pop_check w"
  by (cases pc; auto split: bind_splits prod.splits if_splits)+

lemma mp_fail_full:
  assumes I: "mp_inv ty c log pcs s phase" and f: "mp_step ty sp (pcs t) s = Some ([Push_returns False], pc, s')"
  shows "length (mp_pushed log) = mp_claims log + c \<or>
    (\<exists>t'. pcs t' = Pop_move (of_nat (length (mp_pushed log) - c)) \<or>
      (\<exists>x. pcs t' = Pop_publish (of_nat (length (mp_pushed log) - c)) x))"
proof -
  let ?P = "mp_pushed log" and ?H = "mp_claims log"
  note S = mp_invD(1) [OF I] and C = mp_invD(2) [OF I]
  obtain x w where pc: "pcs t = Push_check x w" using mp_returns_false(1) [OF f] by blast
  obtain k where k1: "k \<le> length ?P" "w = of_nat k" "mp_step ty sp (pcs t) s = Some
        (if mp_seq_of (phase (k mod c)) = k then ([], Push_claim x w, s)
         else if mp_seq_of (phase (k mod c)) < k then ([Push_returns False], Idle, s) else ([], Push_load x, s))"
    by (rule mp_step_push_check [OF I pc, of sp])
  with f have k: "k \<le> length ?P" "mp_seq_of (phase (k mod c)) < k" by (simp_all split: if_splits)
  obtain j ph where p: "phase (k mod c) = (j, ph)" by (cases "phase (k mod c)")
  have i: "k mod c < c" using mp_shapeD(1) [OF S] by simp
  note ok = mp_cellsD [OF C i p]
  have "j < k" using k(2) p by (cases ph) simp_all
  moreover have "k \<le> j + c" using k(1) ok(2) by simp
  moreover have "j + c = k"
    using ticket_window [of "j + c" c k] calculation ok(1) by simp
  ultimately have j: "j + c = length ?P" "k = length ?P" using ok(2) k(1) by simp_all
  then have "of_nat (length ?P - c) = (of_nat j :: usize)" by (metis add_diff_cancel_right')
  then show ?thesis
    using ok(3) j \<open>j < k\<close> mp_shapeD(11) [OF S] by (cases ph) auto
qed

lemma mp_fail_empty:
  assumes I: "mp_inv ty c log pcs s phase" and f: "mp_step ty sp (pcs t) s = Some ([Pop_returns None], pc, s')"
  shows "length (mp_pushed log) = mp_claims log \<or>
    (\<exists>t'. pcs t' = Push_publish (of_nat (mp_claims log)) \<or> (\<exists>x. pcs t' = Push_construct x (of_nat (mp_claims log))))"
proof -
  let ?P = "mp_pushed log" and ?H = "mp_claims log"
  note S = mp_invD(1) [OF I] and C = mp_invD(2) [OF I]
  obtain w where pc: "pcs t = Pop_check w" using mp_returns_false(2) [OF f] by blast
  obtain k where k1: "k \<le> ?H" "w = of_nat k" "mp_step ty sp (pcs t) s = Some
        (if mp_seq_of (phase (k mod c)) = Suc k then ([], Pop_claim w, s)
         else if mp_seq_of (phase (k mod c)) < Suc k then ([Pop_returns None], Idle, s) else ([], Pop_load, s))"
    by (rule mp_step_pop_check [OF I pc, of sp])
  with f have k: "k \<le> ?H" "mp_seq_of (phase (k mod c)) < Suc k" by (simp_all split: if_splits)
  obtain j ph where p: "phase (k mod c) = (j, ph)" by (cases "phase (k mod c)")
  have i: "k mod c < c" using mp_shapeD(1) [OF S] by simp
  note ok = mp_cellsD [OF C i p]
  have q: "j \<le> k" using k(2) p by (cases ph) simp_all
  show ?thesis
  proof (cases ph)
    case Free
    then show ?thesis using ok(3) q k(1) mp_shapeD(9) [OF S] by simp
  next
    case (Claimed u)
    then have "j = ?H" using ok(3) q k(1) by simp
    then show ?thesis using ok(3) Claimed by auto
  next
    case (Built u)
    then have "j = ?H" using ok(3) q k(1) by simp
    then show ?thesis using ok(3) Built by auto
  next
    case Full
    then have "j = k" using ok(3) q k(1) by simp
    then show ?thesis using k(2) p Full by simp
  next
    case (Taken u)
    have "j < k" using k(2) p Taken by simp
    moreover from this have "j + c \<le> k" using ok(1) ticket_window [of k c j] by linarith
    ultimately have "length ?P \<le> k" using ok(2) by simp
    then show ?thesis using k(1) mp_shapeD(9) [OF S] by simp
  next
    case (Emptied u)
    have "j < k" using k(2) p Emptied by simp
    moreover from this have "j + c \<le> k" using ok(1) ticket_window [of k c j] by linarith
    ultimately have "length ?P \<le> k" using ok(2) by simp
    then show ?thesis using k(1) mp_shapeD(9) [OF S] by simp
  qed
qed

text \<open>With the current index in hand, a check never sends the thread back to reload.\<close>

lemma mp_fresh_check:
  assumes I: "mp_inv ty c log pcs s phase"
  shows "pcs t = Push_check x (mp_tail s) \<Longrightarrow> mp_step ty sp (pcs t) s = Some ([], Push_claim x (mp_tail s), s) \<or>
      mp_step ty sp (pcs t) s = Some ([Push_returns False], Idle, s)"
    "pcs t = Pop_check (mp_head s) \<Longrightarrow> mp_step ty sp (pcs t) s = Some ([], Pop_claim (mp_head s), s) \<or>
      mp_step ty sp (pcs t) s = Some ([Pop_returns None], Idle, s)"
proof -
  let ?P = "mp_pushed log" and ?H = "mp_claims log"
  note S = mp_invD(1) [OF I] and C = mp_invD(2) [OF I]
  note D = mp_shapeD [OF S]
  have b: "length ?P < 2 ^ 63" "?H < 2 ^ 63" using D(9,10) by simp_all
  show "mp_step ty sp (pcs t) s = Some ([], Push_claim x (mp_tail s), s) \<or>
      mp_step ty sp (pcs t) s = Some ([Push_returns False], Idle, s)" if pc: "pcs t = Push_check x (mp_tail s)"
  proof (rule mp_step_push_check [OF I pc, of sp])
    fix k
    assume k: "k \<le> length ?P" "mp_tail s = of_nat k" "mp_step ty sp (pcs t) s = Some
        (if mp_seq_of (phase (k mod c)) = k then ([], Push_claim x (mp_tail s), s)
         else if mp_seq_of (phase (k mod c)) < k then ([Push_returns False], Idle, s) else ([], Push_load x, s))"
    have e: "k = length ?P" using D(7) k(1,2) ticket_eq [of k "length ?P"] b by simp
    obtain j ph where p: "phase (k mod c) = (j, ph)" by (cases "phase (k mod c)")
    have i: "k mod c < c" using D(1) by simp
    note ok = mp_cellsD [OF C i p]
    have "mp_seq_of (phase (k mod c)) \<le> k"
      using ok(1,3) p e D(9) ticket_window [of j c k] by (cases ph) auto
    with k(3) show ?thesis by auto
  qed
  show "mp_step ty sp (pcs t) s = Some ([], Pop_claim (mp_head s), s) \<or>
      mp_step ty sp (pcs t) s = Some ([Pop_returns None], Idle, s)" if pc: "pcs t = Pop_check (mp_head s)"
  proof (rule mp_step_pop_check [OF I pc, of sp])
    fix k
    assume k: "k \<le> ?H" "mp_head s = of_nat k" "mp_step ty sp (pcs t) s = Some
        (if mp_seq_of (phase (k mod c)) = Suc k then ([], Pop_claim (mp_head s), s)
         else if mp_seq_of (phase (k mod c)) < Suc k then ([Pop_returns None], Idle, s) else ([], Pop_load, s))"
    have e: "k = ?H" using D(8) k(1,2) ticket_eq [of k ?H] b by simp
    obtain j ph where p: "phase (k mod c) = (j, ph)" by (cases "phase (k mod c)")
    have i: "k mod c < c" using D(1) by simp
    note ok = mp_cellsD [OF C i p]
    have "mp_seq_of (phase (k mod c)) \<le> Suc k"
      using ok(1,3) p e D(9,11) ticket_window [of j c k] by (cases ph) auto
    with k(3) show ?thesis by auto
  qed
qed

definition mp_finishes :: "'a elem_type \<Rightarrow> 'a mp_pc \<Rightarrow> 'a mpmc \<Rightarrow> bool" where
  "mp_finishes ty pc s \<longleftrightarrow> (\<forall>l. mp_complete ty l pc s \<noteq> None)"

lemma mp_finishes_Idle: "mp_finishes ty Idle s"
  by (simp add: mp_finishes_def mp_complete_Idle)

lemma mp_finishes_step:
  "pc \<noteq> Idle \<Longrightarrow> mp_step ty False pc s = Some (es, pc', s') \<Longrightarrow> mp_finishes ty pc' s' \<Longrightarrow> mp_finishes ty pc s"
  by (simp add: mp_finishes_def mp_complete_step del: mp_step.simps)

lemma mp_finish_publish:
  assumes I: "mp_inv ty c log pcs s phase"
  shows "pcs t = Push_publish w \<Longrightarrow> mp_finishes ty (pcs t) s" "pcs t = Pop_publish w x \<Longrightarrow> mp_finishes ty (pcs t) s"
proof -
  show "mp_finishes ty (pcs t) s" if pc: "pcs t = Push_publish w"
    using mp_step_push_publish [OF I pc, of False] mp_finishes_Idle pc mp_finishes_step [of "pcs t" ty s] by fastforce
  show "mp_finishes ty (pcs t) s" if pc: "pcs t = Pop_publish w x"
    using mp_step_pop_publish [OF I pc, of False] mp_finishes_Idle pc mp_finishes_step [of "pcs t" ty s] by fastforce
qed

lemma mp_finish_owner:
  assumes I: "mp_inv ty c log pcs s phase"
  shows "pcs t = Push_construct x w \<Longrightarrow> mp_finishes ty (pcs t) s" "pcs t = Pop_move w \<Longrightarrow> mp_finishes ty (pcs t) s"
proof -
  show "mp_finishes ty (pcs t) s" if pc: "pcs t = Push_construct x w"
  proof -
    obtain m ph where st: "mp_step ty False (pcs t) s = Some ([], Push_publish w, s\<lparr>mp_storage := m\<rparr>)"
      and J: "mp_inv ty c log (pcs(t := Push_publish w)) (s\<lparr>mp_storage := m\<rparr>) ph"
      using mp_step_construct [OF I pc, of False] by blast
    have "mp_finishes ty (Push_publish w) (s\<lparr>mp_storage := m\<rparr>)" using mp_finish_publish(1) [OF J, of t w] by simp
    then show ?thesis using mp_finishes_step [OF _ st] pc by simp
  qed
  show "mp_finishes ty (pcs t) s" if pc: "pcs t = Pop_move w"
  proof -
    obtain x m ph where st: "mp_step ty False (pcs t) s = Some ([], Pop_publish w x, s\<lparr>mp_storage := m\<rparr>)"
      and J: "mp_inv ty c log (pcs(t := Pop_publish w x)) (s\<lparr>mp_storage := m\<rparr>) ph"
      using mp_step_move [OF I pc, of False] by blast
    have "mp_finishes ty (Pop_publish w x) (s\<lparr>mp_storage := m\<rparr>)" using mp_finish_publish(2) [OF J, of t w x] by simp
    then show ?thesis using mp_finishes_step [OF _ st] pc by simp
  qed
qed

lemma mp_finish_claim:
  assumes I: "mp_inv ty c log pcs s phase" and b: "Suc (length (mp_pushed log)) + c < 2 ^ 63"
  shows "pcs t = Push_claim x (mp_tail s) \<Longrightarrow> mp_finishes ty (pcs t) s"
    "pcs t = Pop_claim (mp_head s) \<Longrightarrow> mp_finishes ty (pcs t) s"
proof -
  show "mp_finishes ty (pcs t) s" if pc: "pcs t = Push_claim x (mp_tail s)"
  proof -
    obtain ph where "mp_inv ty c (log @ [Enqueued x]) (pcs(t := Push_construct x (mp_tail s))) (s\<lparr>mp_tail := mp_tail s + 1\<rparr>) ph"
      using mp_claim_push [OF I pc refl b] by blast
    from mp_finish_owner(1) [OF this, of t x "mp_tail s"]
    have fin: "mp_finishes ty (Push_construct x (mp_tail s)) (s\<lparr>mp_tail := mp_tail s + 1\<rparr>)" by simp
    have "mp_step ty False (pcs t) s = Some ([Enqueued x], Push_construct x (mp_tail s), s\<lparr>mp_tail := mp_tail s + 1\<rparr>)"
      using pc by simp
    from mp_finishes_step [OF _ this fin] pc show ?thesis by simp
  qed
  show "mp_finishes ty (pcs t) s" if pc: "pcs t = Pop_claim (mp_head s)"
  proof -
    obtain ph where "mp_inv ty c (log @ [Dequeued]) (pcs(t := Pop_move (mp_head s))) (s\<lparr>mp_head := mp_head s + 1\<rparr>) ph"
      using mp_claim_pop [OF I pc refl] by blast
    from mp_finish_owner(2) [OF this, of t "mp_head s"]
    have fin: "mp_finishes ty (Pop_move (mp_head s)) (s\<lparr>mp_head := mp_head s + 1\<rparr>)" by simp
    have "mp_step ty False (pcs t) s = Some ([Dequeued], Pop_move (mp_head s), s\<lparr>mp_head := mp_head s + 1\<rparr>)"
      using pc by simp
    from mp_finishes_step [OF _ this fin] pc show ?thesis by simp
  qed
qed

lemma mp_finish_load:
  assumes I: "mp_inv ty c log pcs s phase" and b: "Suc (length (mp_pushed log)) + c < 2 ^ 63"
  shows "pcs t = Push_load x \<Longrightarrow> mp_finishes ty (pcs t) s" "pcs t = Pop_load \<Longrightarrow> mp_finishes ty (pcs t) s"
proof -
  have bb: "length (mp_pushed (log @ [])) + c < 2 ^ 63" using b by simp
  show "mp_finishes ty (pcs t) s" if pc: "pcs t = Push_load x"
  proof -
    let ?q = "pcs(t := Push_check x (mp_tail s))"
    obtain ph where J: "mp_inv ty c (log @ []) ?q s ph" using mp_inv_next [OF I _ bb, of False t] pc by fastforce
    have "mp_finishes ty (Push_check x (mp_tail s)) s"
      using mp_fresh_check(1) [OF J fun_upd_same, of False]
    proof (elim disjE)
      assume st: "mp_step ty False (?q t) s = Some ([], Push_claim x (mp_tail s), s)"
      obtain ph2 where "mp_inv ty c ((log @ []) @ []) (?q(t := Push_claim x (mp_tail s))) s ph2"
        using mp_inv_next [OF J st] bb by (auto simp del: fun_upd_apply)
      from mp_finish_claim(1) [OF this, of t x] b have "mp_finishes ty (Push_claim x (mp_tail s)) s" by simp
      then show ?thesis using mp_finishes_step [of "Push_check x (mp_tail s)", OF _ st [unfolded fun_upd_same]] by simp
    next
      assume st: "mp_step ty False (?q t) s = Some ([Push_returns False], Idle, s)"
      show ?thesis using mp_finishes_step [of "Push_check x (mp_tail s)", OF _ st [unfolded fun_upd_same] mp_finishes_Idle] by simp
    qed
    moreover have "mp_step ty False (pcs t) s = Some ([], Push_check x (mp_tail s), s)" using pc by simp
    ultimately show ?thesis using mp_finishes_step [of "pcs t"] pc by simp
  qed
  show "mp_finishes ty (pcs t) s" if pc: "pcs t = Pop_load"
  proof -
    let ?q = "pcs(t := Pop_check (mp_head s))"
    obtain ph where J: "mp_inv ty c (log @ []) ?q s ph" using mp_inv_next [OF I _ bb, of False t] pc by fastforce
    have "mp_finishes ty (Pop_check (mp_head s)) s"
      using mp_fresh_check(2) [OF J fun_upd_same, of False]
    proof (elim disjE)
      assume st: "mp_step ty False (?q t) s = Some ([], Pop_claim (mp_head s), s)"
      obtain ph2 where "mp_inv ty c ((log @ []) @ []) (?q(t := Pop_claim (mp_head s))) s ph2"
        using mp_inv_next [OF J st] bb by (auto simp del: fun_upd_apply)
      from mp_finish_claim(2) [OF this, of t] b have "mp_finishes ty (Pop_claim (mp_head s)) s" by simp
      then show ?thesis using mp_finishes_step [of "Pop_check (mp_head s)", OF _ st [unfolded fun_upd_same]] by simp
    next
      assume st: "mp_step ty False (?q t) s = Some ([Pop_returns None], Idle, s)"
      show ?thesis using mp_finishes_step [of "Pop_check (mp_head s)", OF _ st [unfolded fun_upd_same] mp_finishes_Idle] by simp
    qed
    moreover have "mp_step ty False (pcs t) s = Some ([], Pop_check (mp_head s), s)" using pc by simp
    ultimately show ?thesis using mp_finishes_step [of "pcs t"] pc by simp
  qed
qed

lemma mp_finish_claim_any:
  assumes I: "mp_inv ty c log pcs s phase" and b: "Suc (length (mp_pushed log)) + c < 2 ^ 63"
  shows "pcs t = Push_claim x w \<Longrightarrow> mp_finishes ty (pcs t) s" "pcs t = Pop_claim w \<Longrightarrow> mp_finishes ty (pcs t) s"
proof -
  have bb: "length (mp_pushed (log @ [])) + c < 2 ^ 63" using b by simp
  show "mp_finishes ty (pcs t) s" if pc: "pcs t = Push_claim x w"
  proof (cases "mp_tail s = w")
    case True
    then show ?thesis using mp_finish_claim(1) [OF I b, of t x] pc by simp
  next
    case False
    then have st: "mp_step ty False (pcs t) s = Some ([], Push_load x, s)" using pc by simp
    from mp_inv_next [OF I this bb] obtain ph where J: "mp_inv ty c (log @ []) (pcs(t := Push_load x)) s ph" by blast
    have "mp_finishes ty (Push_load x) s" using mp_finish_load(1) [OF J, of t x] b by simp
    then show ?thesis using mp_finishes_step [OF _ st] pc by simp
  qed
  show "mp_finishes ty (pcs t) s" if pc: "pcs t = Pop_claim w"
  proof (cases "mp_head s = w")
    case True
    then show ?thesis using mp_finish_claim(2) [OF I b, of t] pc by simp
  next
    case False
    then have st: "mp_step ty False (pcs t) s = Some ([], Pop_load, s)" using pc by simp
    from mp_inv_next [OF I this bb] obtain ph where J: "mp_inv ty c (log @ []) (pcs(t := Pop_load)) s ph" by blast
    have "mp_finishes ty Pop_load s" using mp_finish_load(2) [OF J, of t] b by simp
    then show ?thesis using mp_finishes_step [OF _ st] pc by simp
  qed
qed

lemma mp_finish:
  assumes I: "mp_inv ty c log pcs s phase" and b: "Suc (length (mp_pushed log)) + c < 2 ^ 63"
  shows "mp_finishes ty (pcs t) s"
proof -
  have bb: "length (mp_pushed (log @ [])) + c < 2 ^ 63" using b by simp
  have check: "mp_finishes ty (pcs t) s"
    if pc: "pcs t = Push_check x w \<or> pcs t = Pop_check w" for x w
  proof -
    have "\<exists>es pc'. mp_step ty False (pcs t) s = Some (es, pc', s) \<and> mp_pushed es = [] \<and>
        (pc' = Idle \<or> pc' = Push_claim x w \<or> pc' = Push_load x \<or> pc' = Pop_claim w \<or> pc' = Pop_load)"
      using pc
    proof
      assume "pcs t = Push_check x w"
      from mp_step_push_check [OF I this, of False] show ?thesis by (smt (verit) mp_pushed.simps(1,4))
    next
      assume "pcs t = Pop_check w"
      from mp_step_pop_check [OF I this, of False] show ?thesis by (smt (verit) mp_pushed.simps(1,5))
    qed
    then obtain es pc' where st: "mp_step ty False (pcs t) s = Some (es, pc', s)" "mp_pushed es = []"
      and k: "pc' = Idle \<or> pc' = Push_claim x w \<or> pc' = Push_load x \<or> pc' = Pop_claim w \<or> pc' = Pop_load" by blast
    have "length (mp_pushed (log @ es)) + c < 2 ^ 63" using b st(2) by simp
    from mp_inv_next [OF I st(1) this] obtain ph where J: "mp_inv ty c (log @ es) (pcs(t := pc')) s ph" by blast
    have b2: "Suc (length (mp_pushed (log @ es))) + c < 2 ^ 63" using b st(2) by simp
    have "mp_finishes ty pc' s"
      using k mp_finish_claim_any [OF J b2, of t] mp_finish_load [OF J b2, of t] mp_finishes_Idle by auto
    moreover have "pcs t \<noteq> Idle" using pc by auto
    ultimately show ?thesis using mp_finishes_step st(1) by blast
  qed
  show ?thesis
  proof (cases "pcs t")
    case Idle
    then show ?thesis by (simp add: mp_finishes_Idle)
  qed (use check mp_finish_claim_any [OF I b, of t] mp_finish_load [OF I b, of t] mp_finish_owner [OF I, of t]
      mp_finish_publish [OF I, of t] in metis)+
qed

text \<open>What the invariant says of the elements.\<close>

lemma mp_inv_delivers:
  assumes "mp_inv ty c log pcs s phase"
  shows "mp_claims log \<le> length (mp_pushed log)" "length (mp_pushed log) \<le> mp_claims log + c"
    "distinct (map fst (mp_returned log))"
    "(k, x) \<in> set (mp_returned log) \<Longrightarrow> k < mp_claims log \<and> x = mp_pushed log ! k"
  using mp_shapeD(9,11) [OF mp_invD(1) [OF assms]] mp_invD(4) [OF assms] by (auto simp: mp_returns_def)

lemma mp_inv_conserves:
  assumes I: "mp_inv ty (unat (mp_capacity s)) log (\<lambda>_. Idle) s phase"
  shows "mset (mp_pushed log) = mset (map snd (mp_returned log)) + mset (mp_contents s) \<and>
    mp_contents s = drop (length (mp_returned log)) (mp_pushed log)"
proof -
  let ?P = "mp_pushed log" and ?H = "mp_claims log" and ?R = "mp_returned log"
  note S = mp_invD(1) [OF I]
  have "\<not> mp_in_hand (unat (mp_capacity s)) phase k" for k
  proof -
    have "k mod unat (mp_capacity s) < unat (mp_capacity s)" using mp_shapeD(1) [OF S] by simp
    from I this show ?thesis by (cases rule: mp_quiet_phase) (auto simp: mp_in_hand_def)
  qed
  then have ret: "distinct (map fst ?R)" "\<And>k x. (k, x) \<in> set ?R \<Longrightarrow> k < ?H \<and> x = ?P ! k" "\<And>k. k < ?H \<Longrightarrow> (k, ?P ! k) \<in> set ?R"
    using mp_invD(4) [OF I] by (auto simp: mp_returns_def)
  have "set (map fst ?R) = {..<?H}" using ret(2,3) by force
  then have "mset (map fst ?R) = mset [0..<?H]"
    using ret(1) by (intro set_eq_iff_mset_eq_distinct [THEN iffD1]) auto
  then have m: "mset (map (\<lambda>k. ?P ! k) (map fst ?R)) = mset (map (\<lambda>k. ?P ! k) [0..<?H])"
    unfolding mset_map by simp
  have e: "map (\<lambda>k. ?P ! k) (map fst ?R) = map snd ?R" using ret(2) by (auto simp: comp_def)
  have "map (\<lambda>k. ?P ! k) [0..<?H] = take ?H ?P"
    using mp_shapeD(9) [OF S] by (auto intro!: nth_equalityI)
  with m have "mset (map snd ?R) = mset (take ?H ?P)" unfolding e by simp
  moreover have "length ?R = ?H"
    using arg_cong [OF \<open>mset (map fst ?R) = mset [0..<?H]\<close>, of size] by simp
  moreover have "mset ?P = mset (take ?H ?P) + mset (drop ?H ?P)" by (metis append_take_drop_id mset_append)
  ultimately show ?thesis using mp_inv_contents(1) [OF I] by simp
qed

section \<open>Runs of a constructed ring\<close>

text \<open>A request within the bounds for which the constructor is proved, and the ring it gives.\<close>

definition mp_constructed :: "(usize \<Rightarrow> bool) \<Rightarrow> usize \<Rightarrow> usize \<Rightarrow> 'a mpmc \<Rightarrow> bool" where
  "mp_constructed nw csz capacity s \<longleftrightarrow> unat capacity \<le> 2 ^ 40 \<and> 0 < unat csz \<and> unat csz < 2 ^ 20 \<and>
     mp_new nw csz capacity = Some (Inr s)"

lemma mp_constructed_inv:
  fixes ty :: "'a elem_type"
  assumes "mp_constructed nw csz capacity s"
  shows "mp_inv ty (unat (mp_capacity s)) [] (\<lambda>_. Idle) s mp_phase0" "unat (mp_capacity s) \<le> 2 ^ 41"
    "unat capacity \<le> unat (mp_capacity s)"
proof -
  have "unat capacity \<le> 2 ^ 40" "0 < unat csz" "unat csz < 2 ^ 20" and n: "mp_new nw csz capacity = Some (Inr s)"
    using assms by (simp_all add: mp_constructed_def)
  then show "mp_inv ty (unat (mp_capacity s)) [] (\<lambda>_. Idle) s mp_phase0" "unat (mp_capacity s) \<le> 2 ^ 41"
    "unat capacity \<le> unat (mp_capacity s)"
    by (cases rule: mp_new_cases [where nw = nw and ty = ty]; simp)+
qed

lemma mp_run_constructed:
  assumes "mp_constructed nw csz capacity s0" "mp_run ty s0 log pcs s" "length (mp_pushed log) \<le> 2 ^ 62"
  shows "\<exists>phase. mp_inv ty (unat (mp_capacity s0)) log pcs s phase" "mp_capacity s = mp_capacity s0"
    "Suc (length (mp_pushed log)) + unat (mp_capacity s0) < 2 ^ 63"
proof -
  note C = mp_constructed_inv(1) [OF assms(1), of ty] mp_constructed_inv(2) [OF assms(1)]
  show "Suc (length (mp_pushed log)) + unat (mp_capacity s0) < 2 ^ 63" using assms(3) C(2) by simp
  then have "length (mp_pushed log) + unat (mp_capacity s0) < 2 ^ 63" by simp
  then show I: "\<exists>phase. mp_inv ty (unat (mp_capacity s0)) log pcs s phase"
    using mp_run_inv [OF assms(2) C(1)] by blast
  then show "mp_capacity s = mp_capacity s0" using mp_shapeD(3) [OF mp_invD(1)] by (auto simp: usize_eq_iff)
qed

text \<open>One push and one pop by two threads, interleaved, on a ring of two cells.\<close>

definition mp_demo :: "int mpmc" where
  "mp_demo = \<lparr>mp_capacity = 2, mp_mask = 1, mp_head = 0, mp_tail = 0, mp_seqs = [0, 1], mp_storage = [None, None]\<rparr>"

lemma mp_demo_new: "mp_constructed (\<lambda>b. b < 4096) 128 2 mp_demo"
proof -
  have "round_up_to_power_of_two 2 = Some 2"
    by (simp add: round_up_loop_eq fixed_round_up_po2_def smear_def Let_def)
  moreover have "new_slots (\<lambda>b. b < 4096) 128 2 = Inr [None, None :: int option]"
  proof -
    have "replicate 2 (None :: int option) = [None, None]" by (simp add: numeral_2_eq_2)
    then show ?thesis by (simp add: new_slots_def)
  qed
  moreover have "map of_nat [0..<2] = [0, 1 :: usize]" by (simp add: upt_rec)
  ultimately show ?thesis by (simp add: mp_constructed_def mp_new_def mp_demo_def)
qed

text \<open>Thread 0 has claimed ticket 0 for the element 7, thread 1 has called \<open>try_pop\<close>.\<close>

lemma mp_demo_run:
  "mp_run ty mp_demo [Enqueued 7] ((\<lambda>_. Idle)(0 := Push_construct 7 0, 1 := Pop_load)) (mp_demo\<lparr>mp_tail := 1\<rparr>)"
proof -
  have "mp_run ty mp_demo [] ((\<lambda>_. Idle)(0 := Push_load 7)) mp_demo"
    by (rule mp_call_push [OF mp_start]) simp
  from mp_thread [OF this, of 0 False "[]" "Push_check 7 0" mp_demo]
  have "mp_run ty mp_demo [] ((\<lambda>_. Idle)(0 := Push_check 7 0)) mp_demo" by (simp add: mp_demo_def)
  from mp_thread [OF this, of 0 False "[]" "Push_claim 7 0" mp_demo]
  have "mp_run ty mp_demo [] ((\<lambda>_. Idle)(0 := Push_claim 7 0)) mp_demo"
    by (simp add: mp_demo_def mp_load_seq_def mp_cell_def intptr_diff_def)
  from mp_thread [OF this, of 0 False "[Enqueued 7]" "Push_construct 7 0" "mp_demo\<lparr>mp_tail := 1\<rparr>"]
  have "mp_run ty mp_demo [Enqueued 7] ((\<lambda>_. Idle)(0 := Push_construct 7 0)) (mp_demo\<lparr>mp_tail := 1\<rparr>)"
    by (simp add: mp_demo_def)
  then show ?thesis by (rule mp_call_pop) simp
qed

section \<open>Properties\<close>

text \<open>
  Under every interleaving of any number of producers and consumers, with up to \<open>2^62\<close>
  elements passed through the ring: no thread ever reaches undefined behaviour (in
  particular no cell is read, written or destroyed by two threads at once, or when it
  holds no object); at most \<open>capacity()\<close> tickets are outstanding; every pop that succeeds
  returns the element enqueued with its ticket, and no ticket is returned twice. Elements
  thus leave in the order in which they were enqueued.
\<close>

theorem mpmc_delivers_by_ticket:
  assumes "mp_constructed nw csz capacity s0" "mp_run ty s0 log pcs s" "length (mp_pushed log) \<le> 2 ^ 62"
  shows "mp_step ty spurious (pcs t) s \<noteq> None \<and> unat capacity \<le> unat (mp_capacity s) \<and>
    mp_claims log \<le> length (mp_pushed log) \<and> length (mp_pushed log) \<le> mp_claims log + unat (mp_capacity s) \<and>
    distinct (map fst (mp_returned log)) \<and>
    (\<forall>k x. (k, x) \<in> set (mp_returned log) \<longrightarrow> k < mp_claims log \<and> x = mp_pushed log ! k)"
proof -
  note R = mp_run_constructed [OF assms]
  obtain phase where I: "mp_inv ty (unat (mp_capacity s0)) log pcs s phase" using R(1) by blast
  have "mp_step ty spurious (pcs t) s \<noteq> None" using mp_step_inv [OF I, where t = t and sp = spurious] by blast
  then show ?thesis using mp_inv_delivers [OF I] mp_constructed_inv(3) [OF assms(1)] R(2) by simp
qed

theorem mpmc_delivers_by_ticket_witness:
  "mp_step \<lparr>is_trivial = False, residue = id\<rparr> True (Push_construct (7 :: int) 0) (mp_demo\<lparr>mp_tail := 1\<rparr>) \<noteq> None"
  using mpmc_delivers_by_ticket [OF mp_demo_new mp_demo_run, of "\<lparr>is_trivial = False, residue = id\<rparr>" True 0] by simp

text \<open>
  C7. What a failure means. \<open>try_push\<close> returns false only when \<open>capacity()\<close> elements are
  enqueued and not claimed, or the consumer of the element \<open>capacity()\<close> tickets back has not
  released its cell yet. \<open>try_pop\<close> returns false only when every element enqueued has been
  claimed, or the producer of the next one has not published it yet.
\<close>

theorem mpmc_failures_are_justified:
  assumes "mp_constructed nw csz capacity s0" "mp_run ty s0 log pcs s" "length (mp_pushed log) \<le> 2 ^ 62"
    and "mp_step ty spurious (pcs t) s = Some (es, pc, s')"
  shows "(es = [Push_returns False] \<longrightarrow> length (mp_pushed log) = mp_claims log + unat (mp_capacity s) \<or>
      (\<exists>t' w. w = of_nat (length (mp_pushed log) - unat (mp_capacity s)) \<and>
         (pcs t' = Pop_move w \<or> (\<exists>x. pcs t' = Pop_publish w x)))) \<and>
    (es = [Pop_returns None] \<longrightarrow> length (mp_pushed log) = mp_claims log \<or>
      (\<exists>t' w. w = of_nat (mp_claims log) \<and> (pcs t' = Push_publish w \<or> (\<exists>x. pcs t' = Push_construct x w))))"
proof -
  note R = mp_run_constructed [OF assms(1-3)]
  obtain phase where I: "mp_inv ty (unat (mp_capacity s)) log pcs s phase" using R(1,2) by auto
  have "length (mp_pushed log) = mp_claims log + unat (mp_capacity s) \<or>
      (\<exists>t' w. w = of_nat (length (mp_pushed log) - unat (mp_capacity s)) \<and>
         (pcs t' = Pop_move w \<or> (\<exists>x. pcs t' = Pop_publish w x)))" if "es = [Push_returns False]"
    using mp_fail_full [OF I assms(4) [unfolded that]] by blast
  moreover have "length (mp_pushed log) = mp_claims log \<or>
      (\<exists>t' w. w = of_nat (mp_claims log) \<and> (pcs t' = Push_publish w \<or> (\<exists>x. pcs t' = Push_construct x w)))"
    if "es = [Pop_returns None]"
    using mp_fail_empty [OF I assms(4) [unfolded that]] by blast
  ultimately show ?thesis by blast
qed

theorem mpmc_failures_are_justified_witness:
  "mp_run \<lparr>is_trivial = False, residue = id\<rparr> mp_demo [Enqueued (7 :: int)] ((\<lambda>_. Idle)(0 := Push_construct 7 0, 1 := Pop_check 0))
     (mp_demo\<lparr>mp_tail := 1\<rparr>) \<and>
   (length (mp_pushed [Enqueued (7 :: int)]) = mp_claims [Enqueued (7 :: int)] \<or>
      (\<exists>(t' :: nat) w. w = of_nat (mp_claims [Enqueued (7 :: int)]) \<and>
         (((\<lambda>_. Idle)(0 := Push_construct 7 0, 1 := Pop_check 0)) t' = Push_publish w \<or>
          (\<exists>x. ((\<lambda>_. Idle)(0 := Push_construct (7 :: int) 0, 1 := Pop_check 0)) t' = Push_construct x w))))"
proof -
  let ?ty = "\<lparr>is_trivial = False, residue = id\<rparr> :: int elem_type"
  let ?pcs = "(\<lambda>_. Idle)(0 := Push_construct (7 :: int) 0, 1 := Pop_check 0) :: nat \<Rightarrow> int mp_pc"
  let ?s = "mp_demo\<lparr>mp_tail := 1\<rparr>"
  have "mp_run ?ty mp_demo [Enqueued 7] ?pcs ?s"
    using mp_thread [OF mp_demo_run, of 1 ?ty False "[]" "Pop_check 0" ?s] by (simp add: mp_demo_def)
  moreover have "mp_step ?ty False (?pcs 1) ?s = Some ([Pop_returns None], Idle, ?s)"
    by (simp add: mp_demo_def mp_load_seq_def mp_cell_def intptr_diff_def)
  ultimately show ?thesis
    using mpmc_failures_are_justified [OF mp_demo_new, of ?ty "[Enqueued 7]" ?pcs ?s False 1] by simp
qed

text \<open>
  C8. No thread can be blocked by others that have stopped: from every reachable state a
  thread that runs on alone, at any point of an operation, completes it.
\<close>

theorem mpmc_obstruction_free:
  assumes "mp_constructed nw csz capacity s0" "mp_run ty s0 log pcs s" "length (mp_pushed log) \<le> 2 ^ 62"
  shows "\<exists>es s'. mp_complete ty [] (pcs t) s = Some (es, s')"
proof -
  note R = mp_run_constructed [OF assms]
  obtain phase where "mp_inv ty (unat (mp_capacity s0)) log pcs s phase" using R(1) by blast
  from mp_finish [OF this R(3), of t] show ?thesis by (simp add: mp_finishes_def)
qed

theorem mpmc_obstruction_free_witness:
  "\<exists>es s'. mp_complete \<lparr>is_trivial = False, residue = id\<rparr> [] (Pop_load :: int mp_pc) (mp_demo\<lparr>mp_tail := 1\<rparr>) = Some (es, s')"
  using mpmc_obstruction_free [OF mp_demo_new mp_demo_run, of "\<lparr>is_trivial = False, residue = id\<rparr>" 1] by simp

text \<open>
  C10. Used by one thread at a time, a ring behaves under every sequence of \<open>try_push\<close> and
  \<open>try_pop\<close> as a first-in first-out list bounded by its capacity, which is at least the
  requested one, and its queries are exact.
\<close>

theorem mpmc_refines_bounded_queue:
  assumes "mp_constructed nw csz capacity s0" "length ops \<le> 2 ^ 62"
  shows "\<exists>outs s'. run_ops (container_step (mp_try_push ty) (mp_try_pop ty)) ops s0 = Some (outs, s') \<and>
    run_ops (queue_spec (mp_cap s0)) ops [] = Some (outs, mp_contents s') \<and> unat capacity \<le> mp_cap s0 \<and>
    mp_empty s' = (mp_contents s' = []) \<and> mp_full s' = Some (length (mp_contents s') = mp_cap s0) \<and>
    mp_approximate_size s' = of_nat (length (mp_contents s'))"
proof -
  note C = mp_constructed_inv(1) [OF assms(1), of ty] mp_constructed_inv(2,3) [OF assms(1)]
  have r: "mp_rep ty [] s0" unfolding mp_rep_def using C(1) by (intro exI conjI) auto
  have "mp_tail s0 = 0" using mp_shapeD(7) [OF mp_invD(1) [OF C(1)]] by simp
  then have "length ops \<le> mp_life s0" using assms(2) C(2) by (simp add: mp_life_def)
  from mpmc.run_refines [OF mp_rep_inv [OF r] this] obtain outs s' where
    1: "run_ops (container_step (mp_try_push ty) (mp_try_pop ty)) ops s0 = Some (outs, s')"
      "run_ops (queue_spec (mp_cap s0)) ops [] = Some (outs, mp_contents s')" "mp_state_inv ty s'" "mp_cap s' = mp_cap s0"
    unfolding mp_rep_contents [OF r] by blast
  have "mp_rep ty (mp_contents s') s'" using 1(3) by (simp add: mp_state_inv_def)
  from mp_queries_rep [OF this] 1 C(3) show ?thesis by (simp add: mp_cap_def)
qed

theorem mpmc_refines_bounded_queue_witness:
  "\<exists>outs s'. run_ops (container_step (mp_try_push \<lparr>is_trivial = False, residue = id\<rparr>) (mp_try_pop \<lparr>is_trivial = False, residue = id\<rparr>))
      [Push 3, Push 4, Push 5, Pop] mp_demo = Some (outs, s') \<and>
    run_ops (queue_spec (mp_cap mp_demo)) [Push 3, Push 4, Push 5, Pop] [] = Some (outs, mp_contents s')"
  using mpmc_refines_bounded_queue [OF mp_demo_new, of "[Push 3, Push 4, Push 5, Pop]" "\<lparr>is_trivial = False, residue = id\<rparr>"]
  by auto

end
