(* ===== verification/MpmcReleaseAcquire.thy ===== *)
theory MpmcReleaseAcquire
  imports MpmcRing ReleaseAcquire
begin

text \<open>
  The memory orders of \<open>mpmc_ring_buffer<T>\<close> (\<open>include/hpc/core/mpmc_ring_buffer.hpp\<close>): the
  accesses of \<open>MpmcRing\<close> with the order that the code gives each, over the memory of
  \<open>ReleaseAcquire\<close>. Loads may return stale values; the indices are relaxed throughout,
  only the sequence counters of the cells are acquired and released.
\<close>

section \<open>State and steps\<close>

datatype mp_loc = Mp_head | Mp_tail | Mp_seq nat | Mp_cell nat

record 'a mp_weak =
  wk_capacity :: usize
  wk_mask :: usize
  wk_storage :: "'a slots"
  wk_mem :: "(mp_loc, usize) memory"

text \<open>The ring as the constructor leaves it; threads start after the constructor.\<close>

definition wk_start :: "'a mpmc \<Rightarrow> 'a mp_weak" where
  "wk_start s = \<lparr>wk_capacity = mp_capacity s, wk_mask = mp_mask s, wk_storage = mp_storage s,
     wk_mem = ra_init (\<lambda>l. case l of
       Mp_head \<Rightarrow> Some (mp_head s) | Mp_tail \<Rightarrow> Some (mp_tail s)
     | Mp_seq i \<Rightarrow> (if i < length (mp_seqs s) then Some (mp_seqs s ! i) else None) | Mp_cell i \<Rightarrow> None)\<rparr>"

definition wk_cell :: "'a mp_weak \<Rightarrow> usize \<Rightarrow> nat" where
  "wk_cell W i = unat (i AND wk_mask W)"

text \<open>
  The step of thread \<open>t\<close>. \<open>n\<close> is the entry that a load or a compare-exchange reads; a
  compare-exchange that finds the expected value and does not fail spuriously succeeds.
\<close>

fun wk_step :: "'a elem_type \<Rightarrow> nat \<Rightarrow> bool \<Rightarrow> nat \<Rightarrow> 'a mp_pc \<Rightarrow> 'a mp_weak \<Rightarrow>
    ('a mp_event list \<times> 'a mp_pc \<times> 'a mp_weak) option" where
  "wk_step ty t spurious n Idle W = Some ([], Idle, W)"
| "wk_step ty t spurious n (Push_load x) W =
     (let r = ra_load Relaxed t Mp_tail n (wk_mem W) in Some ([], Push_check x (fst r), W\<lparr>wk_mem := snd r\<rparr>))"
| "wk_step ty t spurious n (Push_check x tail) W =
     (let r = ra_load Acquire t (Mp_seq (wk_cell W tail)) n (wk_mem W); W' = W\<lparr>wk_mem := snd r\<rparr> in do {
        diff \<leftarrow> intptr_diff (fst r) tail;
        Some (if diff = 0 then ([], Push_claim x tail, W')
              else if diff < 0 then ([Push_returns False], Idle, W')
              else ([], Push_load x, W'))
      })"
| "wk_step ty t spurious n (Push_claim x tail) W =
     (let r = ra_load Relaxed t Mp_tail n (wk_mem W) in
      Some (if fst r = tail \<and> \<not> spurious
            then ([Enqueued x], Push_construct x tail, W\<lparr>wk_mem := ra_exchange Relaxed t Mp_tail (tail + 1) (wk_mem W)\<rparr>)
            else ([], Push_load x, W\<lparr>wk_mem := snd r\<rparr>)))"
| "wk_step ty t spurious n (Push_construct x tail) W = do {
     M \<leftarrow> ra_access t (Mp_cell (wk_cell W tail)) (wk_mem W);
     m \<leftarrow> slot_construct ty (wk_cell W tail) x (wk_storage W);
     Some ([], Push_publish tail, W\<lparr>wk_storage := m, wk_mem := M\<rparr>)
   }"
| "wk_step ty t spurious n (Push_publish tail) W = do {
     M \<leftarrow> ra_store Release t (Mp_seq (wk_cell W tail)) (tail + 1) (wk_mem W);
     Some ([Push_returns True], Idle, W\<lparr>wk_mem := M\<rparr>)
   }"
| "wk_step ty t spurious n Pop_load W =
     (let r = ra_load Relaxed t Mp_head n (wk_mem W) in Some ([], Pop_check (fst r), W\<lparr>wk_mem := snd r\<rparr>))"
| "wk_step ty t spurious n (Pop_check head) W =
     (let r = ra_load Acquire t (Mp_seq (wk_cell W head)) n (wk_mem W); W' = W\<lparr>wk_mem := snd r\<rparr> in do {
        diff \<leftarrow> intptr_diff (fst r) (head + 1);
        Some (if diff = 0 then ([], Pop_claim head, W')
              else if diff < 0 then ([Pop_returns None], Idle, W')
              else ([], Pop_load, W'))
      })"
| "wk_step ty t spurious n (Pop_claim head) W =
     (let r = ra_load Relaxed t Mp_head n (wk_mem W) in
      Some (if fst r = head \<and> \<not> spurious
            then ([Dequeued], Pop_move head, W\<lparr>wk_mem := ra_exchange Relaxed t Mp_head (head + 1) (wk_mem W)\<rparr>)
            else ([], Pop_load, W\<lparr>wk_mem := snd r\<rparr>)))"
| "wk_step ty t spurious n (Pop_move head) W = do {
     M \<leftarrow> ra_access t (Mp_cell (wk_cell W head)) (wk_mem W);
     (x, m1) \<leftarrow> slot_move ty (wk_cell W head) (wk_storage W);
     m2 \<leftarrow> slot_destroy ty (wk_cell W head) m1;
     Some ([], Pop_publish head x, W\<lparr>wk_storage := m2, wk_mem := M\<rparr>)
   }"
| "wk_step ty t spurious n (Pop_publish head x) W = do {
     M \<leftarrow> ra_store Release t (Mp_seq (wk_cell W head)) (head + wk_capacity W) (wk_mem W);
     Some ([Pop_returns (Some (head, x))], Idle, W\<lparr>wk_mem := M\<rparr>)
   }"

text \<open>
  The entries a step may read. A read-modify-write that succeeds acts on the newest entry: an
  older entry of an index already has its successor written by a read-modify-write.
\<close>

fun wk_reads :: "'a mp_weak \<Rightarrow> 'a mp_pc \<Rightarrow> mp_loc option" where
  "wk_reads W (Push_load x) = Some Mp_tail"
| "wk_reads W (Push_check x tail) = Some (Mp_seq (wk_cell W tail))"
| "wk_reads W (Push_claim x tail) = Some Mp_tail"
| "wk_reads W Pop_load = Some Mp_head"
| "wk_reads W (Pop_check head) = Some (Mp_seq (wk_cell W head))"
| "wk_reads W (Pop_claim head) = Some Mp_head"
| "wk_reads W pc = None"

fun wk_expects :: "'a mp_pc \<Rightarrow> usize option" where
  "wk_expects (Push_claim x tail) = Some tail"
| "wk_expects (Pop_claim head) = Some head"
| "wk_expects pc = None"

definition wk_choice :: "nat \<Rightarrow> bool \<Rightarrow> nat \<Rightarrow> 'a mp_pc \<Rightarrow> 'a mp_weak \<Rightarrow> bool" where
  "wk_choice t spurious n pc W \<longleftrightarrow> (case wk_reads W pc of
     None \<Rightarrow> True
   | Some l \<Rightarrow> ra_visible t l n (wk_mem W) \<and>
       (wk_expects pc = Some (msg_value (mem_order (wk_mem W) l ! n)) \<and> \<not> spurious \<longrightarrow>
          Suc n = length (mem_order (wk_mem W) l)))"

inductive wk_run :: "'a elem_type \<Rightarrow> 'a mpmc \<Rightarrow> 'a mp_event list \<Rightarrow> (nat \<Rightarrow> 'a mp_pc) \<Rightarrow> 'a mp_weak \<Rightarrow> bool"
  for ty s0 where
  wk_begin: "wk_run ty s0 [] (\<lambda>_. Idle) (wk_start s0)"
| wk_call_push: "wk_run ty s0 log pcs W \<Longrightarrow> pcs t = Idle \<Longrightarrow> wk_run ty s0 log (pcs(t := Push_load x)) W"
| wk_call_pop: "wk_run ty s0 log pcs W \<Longrightarrow> pcs t = Idle \<Longrightarrow> wk_run ty s0 log (pcs(t := Pop_load)) W"
| wk_thread: "wk_run ty s0 log pcs W \<Longrightarrow> pcs t \<noteq> Idle \<Longrightarrow> wk_choice t spurious n (pcs t) W \<Longrightarrow>
    wk_step ty t spurious n (pcs t) W = Some (es, pc, W') \<Longrightarrow>
    wk_run ty s0 (log @ es) (pcs(t := pc)) W'"

section \<open>The invariant\<close>

text \<open>The newest values: a state of the sequentially consistent model.\<close>

definition wk_newest :: "'a mp_weak \<Rightarrow> 'a mpmc" where
  "wk_newest W = \<lparr>mp_capacity = wk_capacity W, mp_mask = wk_mask W,
     mp_head = ra_value (wk_mem W) Mp_head, mp_tail = ra_value (wk_mem W) Mp_tail,
     mp_seqs = map (\<lambda>i. ra_value (wk_mem W) (Mp_seq i)) [0..<length (wk_storage W)],
     mp_storage = wk_storage W\<rparr>"

definition wk_orders :: "nat \<Rightarrow> nat \<Rightarrow> nat \<Rightarrow> (mp_loc, usize) memory \<Rightarrow> bool" where
  "wk_orders p h c M \<longleftrightarrow>
     map msg_value (mem_order M Mp_tail) = map of_nat [0..<Suc p] \<and>
     map msg_value (mem_order M Mp_head) = map of_nat [0..<Suc h] \<and>
     mem_accesses M Mp_tail = 0 \<and> mem_accesses M Mp_head = 0 \<and>
     (\<forall>i. mem_order M (Mp_cell i) = [] \<and> mem_accesses M (Mp_seq i) = 0) \<and>
     (\<forall>i < c. mem_order M (Mp_seq i) \<noteq> [] \<and>
        sorted_wrt (<) (map (unat \<circ> msg_value) (mem_order M (Mp_seq i))))"

definition wk_synced :: "(mp_loc, usize) memory \<Rightarrow> bool" where
  "wk_synced M \<longleftrightarrow> ra_wf M \<and> (\<forall>i. ra_guards (Mp_seq i) (Mp_cell i) M)"

text \<open>A cell is one access ahead of its counter while a thread is about to publish it.\<close>

fun wk_publishes :: "'a mp_pc \<Rightarrow> usize option" where
  "wk_publishes (Push_publish w) = Some w"
| "wk_publishes (Pop_publish w x) = Some w"
| "wk_publishes pc = None"

definition wk_ahead :: "nat \<Rightarrow> (nat \<Rightarrow> 'a mp_pc) \<Rightarrow> nat \<Rightarrow> bool" where
  "wk_ahead c pcs i \<longleftrightarrow> (\<exists>t w. wk_publishes (pcs t) = Some w \<and> unat w mod c = i)"

definition wk_counts :: "nat \<Rightarrow> (nat \<Rightarrow> 'a mp_pc) \<Rightarrow> (mp_loc, usize) memory \<Rightarrow> bool" where
  "wk_counts c pcs M \<longleftrightarrow> (\<forall>i < c. mem_accesses M (Mp_cell i) = ra_newest M (Mp_seq i) + (if wk_ahead c pcs i then 1 else 0))"

text \<open>What the view of a thread has.\<close>

fun wk_knows :: "nat \<Rightarrow> (mp_loc, usize) memory \<Rightarrow> mp_loc view \<Rightarrow> 'a mp_pc \<Rightarrow> bool" where
  "wk_knows c M v (Push_claim x w) \<longleftrightarrow> (w = ra_value M Mp_tail \<longrightarrow> v (Mp_seq (unat w mod c)) = ra_newest M (Mp_seq (unat w mod c)))"
| "wk_knows c M v (Pop_claim w) \<longleftrightarrow> (w = ra_value M Mp_head \<longrightarrow> v (Mp_seq (unat w mod c)) = ra_newest M (Mp_seq (unat w mod c)))"
| "wk_knows c M v (Push_construct x w) \<longleftrightarrow> v (Mp_seq (unat w mod c)) = ra_newest M (Mp_seq (unat w mod c))"
| "wk_knows c M v (Pop_move w) \<longleftrightarrow> v (Mp_seq (unat w mod c)) = ra_newest M (Mp_seq (unat w mod c))"
| "wk_knows c M v (Push_publish w) \<longleftrightarrow> v (Mp_seq (unat w mod c)) = ra_newest M (Mp_seq (unat w mod c)) \<and>
     v (Mp_cell (unat w mod c)) = mem_accesses M (Mp_cell (unat w mod c))"
| "wk_knows c M v (Pop_publish w x) \<longleftrightarrow> v (Mp_seq (unat w mod c)) = ra_newest M (Mp_seq (unat w mod c)) \<and>
     v (Mp_cell (unat w mod c)) = mem_accesses M (Mp_cell (unat w mod c))"
| "wk_knows c M v pc \<longleftrightarrow> True"

definition wk_inv :: "'a elem_type \<Rightarrow> nat \<Rightarrow> 'a mp_event list \<Rightarrow> (nat \<Rightarrow> 'a mp_pc) \<Rightarrow> 'a mp_weak \<Rightarrow> bool" where
  "wk_inv ty c log pcs W \<longleftrightarrow> (\<exists>phase. mp_inv ty c log pcs (wk_newest W) phase) \<and>
     wk_orders (length (mp_pushed log)) (mp_claims log) c (wk_mem W) \<and> wk_synced (wk_mem W) \<and>
     wk_counts c pcs (wk_mem W) \<and> (\<forall>t. wk_knows c (wk_mem W) (mem_views (wk_mem W) t) (pcs t))"

section \<open>Threads on one cell\<close>

lemma mp_word_phase:
  assumes "mp_inv ty c log pcs s phase" "mp_word (pcs t) = Some w"
  obtains j ph where "w = of_nat j" "unat w = j" "phase (j mod c) = (j, ph)" "mp_owner ph = Some t" "j mod c < c"
proof -
  note S = mp_invD(1) [OF assms(1)]
  have "\<exists>j ph. w = of_nat j \<and> j < 2 ^ 63 \<and> phase (j mod c) = (j, ph) \<and> mp_owner ph = Some t"
    using mp_invD(5) [OF assms(1), of t] assms(2) mp_shapeD(9,10) [OF S] by (cases "pcs t") fastforce+
  then obtain j ph where "w = of_nat j" "j < 2 ^ 63" "phase (j mod c) = (j, ph)" "mp_owner ph = Some t" by blast
  moreover from this have "unat w = j" by (simp add: unat_of_nat_usize below63)
  moreover have "j mod c < c" using mp_shapeD(1) [OF S] by simp
  ultimately show ?thesis using that by blast
qed

lemma mp_claim_phase:
  assumes "mp_inv ty c log pcs s phase"
  shows "pcs t = Push_claim x w \<Longrightarrow> w = mp_tail s \<Longrightarrow> phase (unat w mod c) = (unat w, Free) \<and> unat w = length (mp_pushed log)"
    "pcs t = Pop_claim w \<Longrightarrow> w = mp_head s \<Longrightarrow> phase (unat w mod c) = (unat w, Full) \<and> unat w = mp_claims log"
proof -
  note S = mp_invD(1) [OF assms] and T = mp_invD(5) [OF assms, of t]
  have b: "length (mp_pushed log) < 2 ^ 63" "mp_claims log < 2 ^ 63" using mp_shapeD(9,10) [OF S] by simp_all
  show "phase (unat w mod c) = (unat w, Free) \<and> unat w = length (mp_pushed log)" if a: "pcs t = Push_claim x w" "w = mp_tail s"
  proof -
    obtain k where k: "k \<le> length (mp_pushed log)" "w = of_nat k" "k = length (mp_pushed log) \<longrightarrow> phase (k mod c) = (k, Free)"
      using T a(1) by auto
    then have "k = length (mp_pushed log)" using a(2) mp_shapeD(7) [OF S] ticket_eq [of k "length (mp_pushed log)"] b(1) by simp
    with k b(1) show ?thesis by (simp add: unat_of_nat_usize below63)
  qed
  show "phase (unat w mod c) = (unat w, Full) \<and> unat w = mp_claims log" if a: "pcs t = Pop_claim w" "w = mp_head s"
  proof -
    obtain k where k: "k \<le> mp_claims log" "w = of_nat k" "k = mp_claims log \<longrightarrow> phase (k mod c) = (k, Full)"
      using T a(1) by auto
    then have "k = mp_claims log" using a(2) mp_shapeD(8) [OF S] ticket_eq [of k "mp_claims log"] b(2) by simp
    with k b(2) show ?thesis by (simp add: unat_of_nat_usize below63)
  qed
qed

text \<open>A thread with a ticket is alone at its cell.\<close>

lemma mp_alone:
  assumes I: "mp_inv ty c log pcs s phase" and w: "mp_word (pcs t) = Some w" and "u \<noteq> t"
  shows "mp_word (pcs u) = Some w' \<Longrightarrow> unat w' mod c \<noteq> unat w mod c"
    "pcs u = Push_claim x w' \<Longrightarrow> w' = mp_tail s \<Longrightarrow> unat w' mod c \<noteq> unat w mod c"
    "pcs u = Pop_claim w' \<Longrightarrow> w' = mp_head s \<Longrightarrow> unat w' mod c \<noteq> unat w mod c"
proof -
  obtain j ph where j: "unat w = j" "phase (j mod c) = (j, ph)" "mp_owner ph = Some t"
    using mp_word_phase [OF I w] by metis
  show "unat w' mod c \<noteq> unat w mod c" if "mp_word (pcs u) = Some w'"
    using mp_word_phase [OF I that] j \<open>u \<noteq> t\<close> by (metis option.inject prod.inject)
  show "unat w' mod c \<noteq> unat w mod c" if "pcs u = Push_claim x w'" "w' = mp_tail s"
    using mp_claim_phase(1) [OF I that] j by auto
  show "unat w' mod c \<noteq> unat w mod c" if "pcs u = Pop_claim w'" "w' = mp_head s"
    using mp_claim_phase(2) [OF I that] j by auto
qed

text \<open>The counter of the cell to be claimed next is not past the claim.\<close>

lemma mp_seq_at_claim:
  assumes S: "mp_shape ty P H c phase s" and C: "mp_cells P H c phase pcs"
  shows "mp_seq_of (phase (length P mod c)) \<le> length P" "mp_seq_of (phase (H mod c)) \<le> Suc H"
proof -
  have c: "2 \<le> c" "H \<le> length P" "length P \<le> H + c" using mp_shapeD(1,9,11) [OF S] by simp_all
  have later: "k + c \<le> j" if "k < j" "j mod c = k mod c" for j k :: nat
    using ticket_window [of j c k] that by (cases "j < k + c") auto
  have i: "k mod c < c" for k using c(1) by simp
  show "mp_seq_of (phase (length P mod c)) \<le> length P"
  proof -
    obtain j ph where p: "phase (length P mod c) = (j, ph)" by (cases "phase (length P mod c)")
    have m: "j mod c = length P mod c" and o: "mp_cell_ok P H c pcs (length P mod c) (j, ph)"
      by (rule mp_cellsD [OF C i p])+
    show ?thesis
    proof (cases ph)
      case Free
      then have "j < length P + c" using o c(2) by simp
      then have "\<not> length P < j" using later [OF _ m] by auto
      then show ?thesis using p Free by simp
    qed (use o p c(2) in auto)
  qed
  show "mp_seq_of (phase (H mod c)) \<le> Suc H"
  proof -
    obtain j ph where p: "phase (H mod c) = (j, ph)" by (cases "phase (H mod c)")
    have m: "j mod c = H mod c" and o: "mp_cell_ok P H c pcs (H mod c) (j, ph)"
      by (rule mp_cellsD [OF C i p])+
    have "j < H + c" using o c(2,3) by (cases ph) auto
    then have "j \<le> H" using later [of H j] m by force
    then show ?thesis using p by (cases ph) auto
  qed
qed

section \<open>What the histories hold\<close>

lemma wk_newest_simps [simp]:
  "mp_capacity (wk_newest W) = wk_capacity W" "mp_mask (wk_newest W) = wk_mask W"
  "mp_storage (wk_newest W) = wk_storage W" "length (mp_seqs (wk_newest W)) = length (wk_storage W)"
  "mp_head (wk_newest W) = ra_value (wk_mem W) Mp_head" "mp_tail (wk_newest W) = ra_value (wk_mem W) Mp_tail"
  "mp_cell (wk_newest W) w = wk_cell W w"
  by (simp_all add: wk_newest_def mp_cell_def wk_cell_def)

lemma wk_newest_seq: "i < length (wk_storage W) \<Longrightarrow> mp_seqs (wk_newest W) ! i = ra_value (wk_mem W) (Mp_seq i)"
  by (simp add: wk_newest_def)

lemma wk_invE:
  assumes "wk_inv ty c log pcs W"
  obtains phase where "mp_inv ty c log pcs (wk_newest W) phase"
    "wk_orders (length (mp_pushed log)) (mp_claims log) c (wk_mem W)" "wk_synced (wk_mem W)"
    "wk_counts c pcs (wk_mem W)" "\<And>t. wk_knows c (wk_mem W) (mem_views (wk_mem W) t) (pcs t)"
  using assms by (auto simp: wk_inv_def)

lemma wk_index_entry:
  assumes "wk_orders p h c M"
  shows "n < length (mem_order M Mp_tail) \<longleftrightarrow> n \<le> p" "n < length (mem_order M Mp_head) \<longleftrightarrow> n \<le> h"
    "n \<le> p \<Longrightarrow> msg_value (mem_order M Mp_tail ! n) = of_nat n"
    "n \<le> h \<Longrightarrow> msg_value (mem_order M Mp_head ! n) = of_nat n"
proof -
  have t: "map msg_value (mem_order M Mp_tail) = map of_nat [0..<Suc p]"
    and h: "map msg_value (mem_order M Mp_head) = map of_nat [0..<Suc h]"
    using assms by (simp_all add: wk_orders_def)
  have lt: "length (mem_order M Mp_tail) = Suc p" and lh: "length (mem_order M Mp_head) = Suc h"
    using arg_cong [OF t, of length] arg_cong [OF h, of length] by simp_all
  then show "n < length (mem_order M Mp_tail) \<longleftrightarrow> n \<le> p" "n < length (mem_order M Mp_head) \<longleftrightarrow> n \<le> h" by auto
  show "msg_value (mem_order M Mp_tail ! n) = of_nat n" if "n \<le> p"
    using arg_cong [OF t, of "\<lambda>xs. xs ! n"] that lt by (simp del: upt_Suc)
  show "msg_value (mem_order M Mp_head ! n) = of_nat n" if "n \<le> h"
    using arg_cong [OF h, of "\<lambda>xs. xs ! n"] that lh by (simp del: upt_Suc)
qed

text \<open>An entry of a counter is a ticket; it is the newest one if it has the newest value.\<close>

lemma wk_seq_entry:
  assumes I: "mp_inv ty c log pcs (wk_newest W) phase" and O: "wk_orders p h c (wk_mem W)"
    and i: "i < c" and n: "n < length (mem_order (wk_mem W) (Mp_seq i))"
  obtains q where "msg_value (mem_order (wk_mem W) (Mp_seq i) ! n) = of_nat q" "q \<le> mp_seq_of (phase i)" "q < 2 ^ 63"
    "mp_seq_of (phase i) \<le> q \<Longrightarrow> Suc n = length (mem_order (wk_mem W) (Mp_seq i))"
proof -
  let ?xs = "mem_order (wk_mem W) (Mp_seq i)"
  note S = mp_invD(1) [OF I] and C = mp_invD(2) [OF I]
  let ?s = "mp_seq_of (phase i)"
  have s: "?s < 2 ^ 63" using mp_seq_bound [OF S C i] mp_shapeD(10) [OF S] by simp
  have "last ?xs = ?xs ! (length ?xs - 1)" using n by (intro last_conv_nth) auto
  moreover have "ra_value (wk_mem W) (Mp_seq i) = of_nat ?s"
    using mp_shapeD(12) [OF S i] wk_newest_seq [of i W] mp_shapeD(6) [OF S] i by simp
  ultimately have l: "unat (msg_value (?xs ! (length ?xs - 1))) = ?s"
    using s by (simp add: ra_value_def unat_of_nat_usize below63)
  have less: "unat (msg_value (?xs ! a)) < unat (msg_value (?xs ! b))" if "a < b" "b < length ?xs" for a b
  proof -
    have "sorted_wrt (<) (map (unat \<circ> msg_value) ?xs)" using O i by (simp add: wk_orders_def)
    from sorted_wrt_nth_less [OF this, of a b] that show ?thesis by simp
  qed
  show ?thesis
  proof (cases "Suc n = length ?xs")
    case True
    then have "unat (msg_value (?xs ! n)) = ?s" using l by (metis diff_Suc_1)
    then have "msg_value (?xs ! n) = of_nat ?s" using s by (simp add: usize_eq_iff unat_of_nat_usize below63)
    with True s show ?thesis by (intro that [of ?s]) auto
  next
    case False
    then have "unat (msg_value (?xs ! n)) < ?s" using less [of n "length ?xs - 1"] n l by simp
    then show ?thesis using s by (intro that [of "unat (msg_value (?xs ! n))"]) auto
  qed
qed

section \<open>Every step keeps the invariant\<close>

lemma wk_publishes_word: "wk_publishes pc = Some w \<Longrightarrow> mp_word pc = Some w"
  by (cases pc) simp_all

lemma wk_ahead_same: "wk_publishes pc = wk_publishes (pcs t) \<Longrightarrow> wk_ahead c (pcs(t := pc)) i \<longleftrightarrow> wk_ahead c pcs i"
  unfolding wk_ahead_def by (metis fun_upd_apply)

lemma wk_knows_frame:
  assumes "wk_knows c M v pc"
    and "\<And>w. mp_word pc = Some w \<Longrightarrow> ra_newest M' (Mp_seq (unat w mod c)) = ra_newest M (Mp_seq (unat w mod c)) \<and>
      mem_accesses M' (Mp_cell (unat w mod c)) = mem_accesses M (Mp_cell (unat w mod c))"
    and "\<And>x w. pc = Push_claim x w \<Longrightarrow> w = ra_value M' Mp_tail \<Longrightarrow>
      w = ra_value M Mp_tail \<and> ra_newest M' (Mp_seq (unat w mod c)) = ra_newest M (Mp_seq (unat w mod c))"
    and "\<And>w. pc = Pop_claim w \<Longrightarrow> w = ra_value M' Mp_head \<Longrightarrow>
      w = ra_value M Mp_head \<and> ra_newest M' (Mp_seq (unat w mod c)) = ra_newest M (Mp_seq (unat w mod c))"
  shows "wk_knows c M' v pc"
proof (cases pc)
  case (Push_claim x w)
  then show ?thesis using assms(1) assms(3) [OF Push_claim] by auto
next
  case (Pop_claim w)
  then show ?thesis using assms(1) assms(4) [OF Pop_claim] by auto
qed (use assms(1) assms(2) in simp_all)

text \<open>A load after which the thread holds no ticket.\<close>

lemma wk_inv_load:
  assumes I: "wk_inv ty c log pcs W" and vis: "ra_visible t l n (wk_mem W)" and l: "\<And>i. l \<noteq> Mp_cell i" "\<And>i. l = Mp_seq i \<Longrightarrow> ord = Acquire"
    and pc: "mp_word (pcs t) = None" "wk_publishes pc = None"
    and ok: "\<And>phase. mp_inv ty c log pcs (wk_newest W) phase \<Longrightarrow> mp_thread_ok (mp_pushed log) (mp_claims log) c phase t pc"
    and es: "mp_pushed es = []" "mp_claims es = 0" "mp_returned es = []"
    and knows: "wk_knows c (wk_mem W) (mem_views (snd (ra_load ord t l n (wk_mem W))) t) pc"
  shows "wk_inv ty c (log @ es) (pcs(t := pc)) (W\<lparr>wk_mem := snd (ra_load ord t l n (wk_mem W))\<rparr>)"
proof -
  let ?M = "wk_mem W" and ?M' = "snd (ra_load ord t l n (wk_mem W))"
  obtain phase where J: "mp_inv ty c log pcs (wk_newest W) phase"
    and O: "wk_orders (length (mp_pushed log)) (mp_claims log) c ?M" and Y: "wk_synced ?M"
    and N: "wk_counts c pcs ?M" and K: "\<And>t. wk_knows c ?M (mem_views ?M t) (pcs t)"
    using wk_invE [OF I] by metis
  have "wk_newest (W\<lparr>wk_mem := ?M'\<rparr>) = wk_newest W" by (simp add: wk_newest_def)
  moreover have "mp_inv ty c (log @ es) (pcs(t := pc)) (wk_newest W) phase"
    by (rule mp_inv_local [OF J pc(1) ok [OF J] es])
  moreover have "wk_orders (length (mp_pushed (log @ es))) (mp_claims (log @ es)) c ?M'"
    using O es by (simp add: wk_orders_def)
  moreover have "wk_synced ?M'"
    using Y ra_load_wf [OF _ vis] ra_load_guards [OF _ _ vis] l unfolding wk_synced_def by metis
  moreover have "wk_counts c (pcs(t := pc)) ?M'"
  proof -
    have "wk_publishes pc = wk_publishes (pcs t)" using pc wk_publishes_word by (metis not_None_eq)
    then show ?thesis using N by (simp add: wk_counts_def wk_ahead_same)
  qed
  moreover have "wk_knows c ?M' (mem_views ?M' u) ((pcs(t := pc)) u)" for u
  proof (cases "u = t")
    case True
    then show ?thesis using wk_knows_frame [OF knows, of ?M'] by simp
  next
    case False
    then show ?thesis using wk_knows_frame [OF K [of u], of ?M'] by simp
  qed
  ultimately show ?thesis by (auto simp: wk_inv_def simp del: fun_upd_apply)
qed

text \<open>While a thread holds a ticket without publishing, its cell is not ahead.\<close>

lemma wk_not_ahead:
  assumes "mp_inv ty c log pcs s phase" "mp_word (pcs t) = Some w" "wk_publishes (pcs t) = None"
  shows "\<not> wk_ahead c pcs (unat w mod c)"
proof
  assume "wk_ahead c pcs (unat w mod c)"
  then obtain u v where u: "wk_publishes (pcs u) = Some v" "unat v mod c = unat w mod c" by (auto simp: wk_ahead_def)
  then have "u \<noteq> t" using assms(3) by auto
  from mp_alone(1) [OF assms(1,2) this wk_publishes_word [OF u(1)]] u(2) show False by simp
qed

lemma wk_ahead_start:
  assumes "wk_publishes (pcs t) = None" "wk_publishes pc = Some w"
  shows "wk_ahead c (pcs(t := pc)) j \<longleftrightarrow> j = unat w mod c \<or> wk_ahead c pcs j"
proof -
  have "wk_publishes ((pcs(t := pc)) u) = Some v \<longleftrightarrow> u = t \<and> v = w \<or> wk_publishes (pcs u) = Some v" for u v
    using assms by auto
  then show ?thesis unfolding wk_ahead_def by (auto simp del: fun_upd_apply)
qed

text \<open>Construction, or move and destruction, by the thread with the ticket.\<close>

lemma wk_access_defined:
  assumes I: "wk_inv ty c log pcs W" and w: "mp_word (pcs t) = Some w" and p: "wk_publishes (pcs t) = None"
  shows "\<exists>M. ra_access t (Mp_cell (unat w mod c)) (wk_mem W) = Some M"
proof -
  let ?M = "wk_mem W" and ?i = "unat w mod c"
  obtain phase where J: "mp_inv ty c log pcs (wk_newest W) phase"
    and O: "wk_orders (length (mp_pushed log)) (mp_claims log) c ?M" and Y: "wk_synced ?M"
    and N: "wk_counts c pcs ?M" and K: "\<And>t. wk_knows c ?M (mem_views ?M t) (pcs t)"
    using wk_invE [OF I] by metis
  have i: "?i < c" using mp_shapeD(1) [OF mp_invD(1) [OF J]] by simp
  then have "mem_accesses ?M (Mp_cell ?i) = ra_newest ?M (Mp_seq ?i)" using N wk_not_ahead [OF J w p] by (simp add: wk_counts_def)
  moreover have "mem_views ?M t (Mp_seq ?i) = ra_newest ?M (Mp_seq ?i)"
    using K [of t] w p by (cases "pcs t") auto
  moreover have "mem_views ?M t (Mp_seq ?i) \<le> mem_views ?M t (Mp_cell ?i)"
    using Y ra_guardsD(2) [of "Mp_seq ?i" "Mp_cell ?i" ?M t] by (simp add: wk_synced_def)
  moreover have "mem_views ?M t (Mp_cell ?i) \<le> mem_accesses ?M (Mp_cell ?i)"
    using Y O ra_wfD(1) [of ?M t "Mp_cell ?i"] by (simp add: wk_synced_def wk_orders_def ra_newest_def)
  ultimately show ?thesis by (simp add: ra_access_def)
qed

lemma wk_inv_access:
  assumes I: "wk_inv ty c log pcs W" and w: "mp_word (pcs t) = Some w" "wk_publishes (pcs t) = None" "wk_publishes pc = Some w"
    and A: "ra_access t (Mp_cell (unat w mod c)) (wk_mem W) = Some M'"
    and J': "mp_inv ty c log (pcs(t := pc)) (wk_newest (W\<lparr>wk_storage := m\<rparr>)) phase'"
  shows "wk_inv ty c log (pcs(t := pc)) (W\<lparr>wk_storage := m, wk_mem := M'\<rparr>)"
proof -
  let ?M = "wk_mem W" and ?i = "unat w mod c" and ?pcs = "pcs(t := pc)"
  obtain phase where J: "mp_inv ty c log pcs (wk_newest W) phase"
    and O: "wk_orders (length (mp_pushed log)) (mp_claims log) c ?M" and Y: "wk_synced ?M"
    and N: "wk_counts c pcs ?M" and K: "\<And>t. wk_knows c ?M (mem_views ?M t) (pcs t)"
    using wk_invE [OF I] by metis
  note f = ra_access_frame [OF A]
  have new: "wk_newest (W\<lparr>wk_storage := m, wk_mem := M'\<rparr>) = wk_newest (W\<lparr>wk_storage := m\<rparr>)"
    by (simp add: wk_newest_def f(2))
  have orders: "wk_orders (length (mp_pushed log)) (mp_claims log) c M'" using O f(1,3) by (simp add: wk_orders_def)
  have synced: "wk_synced M'"
    using Y O ra_access_wf [OF A] ra_access_guards [OF A] by (simp add: wk_synced_def wk_orders_def)
  have counts: "wk_counts c ?pcs M'"
    using N wk_not_ahead [OF J w(1,2)]
    unfolding wk_counts_def wk_ahead_start [where pcs = pcs and t = t and pc = pc, OF w(2,3)] f(3,6) by auto
  have knows: "wk_knows c M' (mem_views M' u) (?pcs u)" for u
  proof (cases "u = t")
    case True
    have "mem_views ?M t (Mp_seq ?i) = ra_newest ?M (Mp_seq ?i)" using K [of t] w(1,2) by (cases "pcs t") auto
    then show ?thesis using True w(3) by (cases pc) (simp_all add: f(3,5,6))
  next
    case False
    have "wk_knows c M' (mem_views ?M u) (pcs u)"
      using mp_alone(1) [OF J w(1) False] by (intro wk_knows_frame [OF K [of u]]) (auto simp: f(2,3,6))
    then show ?thesis using False f(4) by simp
  qed
  show ?thesis
    unfolding wk_inv_def new using J' orders synced counts knows by auto
qed

text \<open>The release of a cell.\<close>

lemma wk_store_defined:
  assumes I: "wk_inv ty c log pcs W" and p: "wk_publishes (pcs t) = Some w"
  shows "\<exists>M. ra_store Release t (Mp_seq (unat w mod c)) x (wk_mem W) = Some M"
proof -
  obtain phase where J: "mp_inv ty c log pcs (wk_newest W) phase"
    and O: "wk_orders (length (mp_pushed log)) (mp_claims log) c (wk_mem W)"
    and K: "\<And>t. wk_knows c (wk_mem W) (mem_views (wk_mem W) t) (pcs t)"
    using wk_invE [OF I] by metis
  have "unat w mod c < c" using mp_shapeD(1) [OF mp_invD(1) [OF J]] by simp
  then have "mem_order (wk_mem W) (Mp_seq (unat w mod c)) \<noteq> []" "mem_accesses (wk_mem W) (Mp_seq (unat w mod c)) = 0"
    using O by (simp_all add: wk_orders_def)
  moreover have "mem_views (wk_mem W) t (Mp_seq (unat w mod c)) = ra_newest (wk_mem W) (Mp_seq (unat w mod c))"
    using K [of t] p by (cases "pcs t") auto
  ultimately show ?thesis by (simp add: ra_store_def ra_newest_def Let_def)
qed

lemma wk_newest_store:
  assumes "ra_store ord t (Mp_seq i) x (wk_mem W) = Some M'" "i < length (wk_storage W)"
  shows "wk_newest (W\<lparr>wk_mem := M'\<rparr>) = (wk_newest W)\<lparr>mp_seqs := (mp_seqs (wk_newest W))[i := x]\<rparr>"
proof -
  have "ra_value M' (Mp_seq j) = (if j = i then x else ra_value (wk_mem W) (Mp_seq j))" for j
    using ra_store_frame(2,4) [OF assms(1)] by auto
  then have "map (\<lambda>j. ra_value M' (Mp_seq j)) [0..<length (wk_storage W)] =
      (map (\<lambda>j. ra_value (wk_mem W) (Mp_seq j)) [0..<length (wk_storage W)])[i := x]"
    using assms(2) by (intro nth_equalityI) (auto simp: nth_list_update)
  then show ?thesis using ra_store_frame(4) [OF assms(1)] by (simp add: wk_newest_def)
qed

lemma wk_ahead_stop:
  assumes J: "mp_inv ty c log pcs s phase" and w: "mp_word (pcs t) = Some w" and pc: "wk_publishes pc = None"
  shows "wk_ahead c (pcs(t := pc)) j \<longleftrightarrow> j \<noteq> unat w mod c \<and> wk_ahead c pcs j"
proof -
  have other: "unat v mod c \<noteq> unat w mod c" if "u \<noteq> t" "wk_publishes (pcs u) = Some v" for u v
    using mp_alone(1) [OF J w that(1) wk_publishes_word [OF that(2)]] .
  have own: "unat v mod c = unat w mod c" if "wk_publishes (pcs t) = Some v" for v
    using wk_publishes_word [OF that] w by simp
  show ?thesis
    unfolding wk_ahead_def using other own pc by (auto simp: fun_upd_def split: if_splits) metis+
qed

lemma wk_inv_store:
  assumes I: "wk_inv ty c log pcs W" and w: "wk_publishes (pcs t) = Some w"
    and A: "ra_store Release t (Mp_seq (unat w mod c)) x (wk_mem W) = Some M'"
    and x: "unat (ra_value (wk_mem W) (Mp_seq (unat w mod c))) < unat x"
    and J': "mp_inv ty c (log @ es) (pcs(t := Idle)) (wk_newest (W\<lparr>wk_mem := M'\<rparr>)) phase'"
    and es: "mp_pushed es = []" "mp_claims es = 0"
  shows "wk_inv ty c (log @ es) (pcs(t := Idle)) (W\<lparr>wk_mem := M'\<rparr>)"
proof -
  let ?M = "wk_mem W" and ?i = "unat w mod c" and ?pcs = "pcs(t := Idle)"
  obtain phase where J: "mp_inv ty c log pcs (wk_newest W) phase"
    and O: "wk_orders (length (mp_pushed log)) (mp_claims log) c ?M" and Y: "wk_synced ?M"
    and N: "wk_counts c pcs ?M" and K: "\<And>t. wk_knows c ?M (mem_views ?M t) (pcs t)"
    using wk_invE [OF I] by metis
  note f = ra_store_frame [OF A] and word = wk_publishes_word [OF w]
  have i: "?i < c" using mp_shapeD(1) [OF mp_invD(1) [OF J]] by simp
  let ?xs = "mem_order ?M (Mp_seq ?i)"
  have xs: "?xs \<noteq> []" "sorted_wrt (<) (map (unat \<circ> msg_value) ?xs)" "mem_accesses ?M (Mp_seq ?i) = 0"
    using O i by (simp_all add: wk_orders_def)
  have below: "unat (msg_value m) < unat x" if m: "m \<in> set ?xs" for m
  proof -
    obtain ys y where y: "?xs = ys @ [y]" using xs(1) by (metis rev_exhaust)
    then have "unat (msg_value y) < unat x" using x by (simp add: ra_value_def)
    moreover have "unat (msg_value m) \<le> unat (msg_value y)" using m xs(2) unfolding y by (auto simp: sorted_wrt_append)
    ultimately show ?thesis by simp
  qed
  have seq: "mem_order M' (Mp_seq j) \<noteq> [] \<and> sorted_wrt (<) (map (unat \<circ> msg_value) (mem_order M' (Mp_seq j)))" if "j < c" for j
  proof (cases "j = ?i")
    case True
    have "msg_value (last (mem_order M' (Mp_seq ?i))) = x" using f(2) by (simp add: ra_value_def)
    then have "sorted_wrt (<) (map (unat \<circ> msg_value) (mem_order M' (Mp_seq ?i)))"
      using xs(2) below by (subst f(1)) (simp add: sorted_wrt_append)
    moreover have "mem_order M' (Mp_seq ?i) \<noteq> []" by (subst f(1)) simp
    ultimately show ?thesis using True by simp
  next
    case False
    then show ?thesis using O that f(3) by (simp add: wk_orders_def)
  qed
  have orders: "wk_orders (length (mp_pushed log)) (mp_claims log) c M'"
    using O f(3,5) seq by (simp add: wk_orders_def)
  have ahead: "mem_accesses ?M (Mp_cell ?i) = length ?xs"
  proof -
    have "wk_ahead c pcs ?i" using w by (auto simp: wk_ahead_def)
    then show ?thesis using N i xs(1,3) by (simp add: wk_counts_def ra_newest_def)
  qed
  have own: "mem_views ?M t (Mp_cell ?i) = mem_accesses ?M (Mp_cell ?i)"
    using K [of t] w by (cases "pcs t") auto
  have "ra_guards (Mp_seq j) (Mp_cell j) M'" for j
    by (rule ra_store_guards [OF A]) (use Y own ahead in \<open>auto simp: wk_synced_def\<close>)
  then have synced: "wk_synced M'" using Y ra_store_wf [OF A] by (simp add: wk_synced_def)
  have counts: "wk_counts c ?pcs M'"
    using N ahead xs(1,3) unfolding wk_counts_def wk_ahead_stop [OF J word, of Idle, simplified] f(5,8) by (auto simp: ra_newest_def)
  have knows: "wk_knows c M' (mem_views M' u) (?pcs u)" for u
  proof (cases "u = t")
    case False
    have "wk_knows c M' (mem_views ?M u) (pcs u)"
      using mp_alone [OF J word False] by (intro wk_knows_frame [OF K [of u]]) (auto simp: f(4,5,8))
    then show ?thesis using False f(6) by simp
  qed simp
  show ?thesis unfolding wk_inv_def mp_pushed_append mp_claims_append es append_Nil2 add_0_right
    using J' orders synced counts knows by auto
qed

text \<open>A claim: a read-modify-write of an index.\<close>

lemma wk_inv_claim:
  fixes x :: usize
  assumes I: "wk_inv ty c log pcs W" and l: "l = Mp_tail \<or> l = Mp_head" and pc: "mp_word (pcs t) = None"
    and pc': "mp_word pc' = Some w" "wk_publishes pc' = None"
    and seen: "mem_views (wk_mem W) t (Mp_seq (unat w mod c)) = ra_newest (wk_mem W) (Mp_seq (unat w mod c))"
  defines "M' \<equiv> ra_exchange Relaxed t l x (wk_mem W)"
  assumes J': "\<exists>phase'. mp_inv ty c (log @ es) (pcs(t := pc')) (wk_newest (W\<lparr>wk_mem := M'\<rparr>)) phase'"
    and orders: "wk_orders (length (mp_pushed (log @ es))) (mp_claims (log @ es)) c M'"
    and fresh: "\<And>u y. l = Mp_tail \<Longrightarrow> pcs u \<noteq> Push_claim y x" "\<And>u. l = Mp_head \<Longrightarrow> pcs u \<noteq> Pop_claim x"
  shows "wk_inv ty c (log @ es) (pcs(t := pc')) (W\<lparr>wk_mem := M'\<rparr>)"
proof -
  let ?M = "wk_mem W" and ?pcs = "pcs(t := pc')"
  obtain phase where J: "mp_inv ty c log pcs (wk_newest W) phase"
    and O: "wk_orders (length (mp_pushed log)) (mp_claims log) c ?M" and Y: "wk_synced ?M"
    and N: "wk_counts c pcs ?M" and K: "\<And>t. wk_knows c ?M (mem_views ?M t) (pcs t)"
    using wk_invE [OF I] by metis
  note f = ra_exchange_frame [where ord = Relaxed and t = t and l = l and x = x and M = ?M, folded M'_def]
  have ne: "mem_order ?M l \<noteq> []" using l wk_index_entry(1,2) [OF O, of 0] by auto
  have new: "ra_newest M' (Mp_seq i) = ra_newest ?M (Mp_seq i)" for i using f(8) [OF ne] l by auto
  have "ra_guards (Mp_seq i) (Mp_cell i) M'" for i
    unfolding M'_def using Y l by (intro ra_exchange_guards [OF _ ne]) (auto simp: wk_synced_def)
  then have synced: "wk_synced M'" using Y ra_exchange_wf [OF _ ne] by (simp add: wk_synced_def M'_def)
  have "wk_publishes pc' = wk_publishes (pcs t)" using pc pc'(2) wk_publishes_word by (metis not_None_eq)
  then have counts: "wk_counts c ?pcs M'" using N new f(5) by (simp add: wk_counts_def wk_ahead_same)
  have knows: "wk_knows c M' (mem_views M' u) (?pcs u)" for u
  proof (cases "u = t")
    case True
    have "mem_views M' t (Mp_seq i) = mem_views ?M t (Mp_seq i)" for i
      using f(7) l by (auto simp: ra_read_def)
    then show ?thesis using True seen new pc' by (cases pc') auto
  next
    case False
    have "wk_knows c M' (mem_views ?M u) (pcs u)"
      using l fresh f(2,4,5) new by (intro wk_knows_frame [OF K [of u]]) auto
    then show ?thesis using False f(6) by simp
  qed
  show ?thesis unfolding wk_inv_def using J' orders synced counts knows by auto
qed

lemma wk_inv_claim_push:
  assumes I: "wk_inv ty c log pcs W" and pc: "pcs t = Push_claim x w" and w: "w = ra_value (wk_mem W) Mp_tail"
    and b: "Suc (length (mp_pushed log)) + c < 2 ^ 63"
  shows "wk_inv ty c (log @ [Enqueued x]) (pcs(t := Push_construct x w))
    (W\<lparr>wk_mem := ra_exchange Relaxed t Mp_tail (w + 1) (wk_mem W)\<rparr>)"
proof -
  let ?M = "wk_mem W" and ?M' = "ra_exchange Relaxed t Mp_tail (w + 1) (wk_mem W)" and ?p = "length (mp_pushed log)"
  obtain phase where J: "mp_inv ty c log pcs (wk_newest W) phase"
    and O: "wk_orders ?p (mp_claims log) c ?M" and K: "\<And>t. wk_knows c ?M (mem_views ?M t) (pcs t)"
    using wk_invE [OF I] by metis
  note f = ra_exchange_frame [where ord = Relaxed and t = t and l = Mp_tail and x = "w + 1" and M = ?M]
  have p: "w = of_nat ?p" using mp_shapeD(7) [OF mp_invD(1) [OF J]] w by simp
  have next_w: "w + 1 = of_nat (Suc ?p)" using p by simp
  show ?thesis
  proof (rule wk_inv_claim [OF I])
    have "wk_newest (W\<lparr>wk_mem := ?M'\<rparr>) = (wk_newest W)\<lparr>mp_tail := w + 1\<rparr>" using f(2,4) by (simp add: wk_newest_def)
    then show "\<exists>phase'. mp_inv ty c (log @ [Enqueued x]) (pcs(t := Push_construct x w)) (wk_newest (W\<lparr>wk_mem := ?M'\<rparr>)) phase'"
      using mp_claim_push [OF J pc _ b] w by simp
    have "map msg_value (mem_order ?M' Mp_tail) = map of_nat [0..<Suc ?p] @ [of_nat (Suc ?p)]"
      using O unfolding ra_exchange_values next_w by (simp only: wk_orders_def)
    then show "wk_orders (length (mp_pushed (log @ [Enqueued x]))) (mp_claims (log @ [Enqueued x])) c ?M'"
      using O f(3,5) by (simp add: wk_orders_def)
    fix u y
    show "pcs u \<noteq> Push_claim y (w + 1)"
    proof
      assume "pcs u = Push_claim y (w + 1)"
      then obtain k where "k \<le> ?p" "of_nat (Suc ?p) = (of_nat k :: usize)"
        using mp_invD(5) [OF J, of u] next_w by (auto simp del: of_nat_Suc)
      then show False using ticket_eq [of "Suc ?p" k] b by (simp del: of_nat_Suc)
    qed
  qed (use K [of t] pc w in simp_all)
qed

lemma wk_inv_claim_pop:
  assumes I: "wk_inv ty c log pcs W" and pc: "pcs t = Pop_claim w" and w: "w = ra_value (wk_mem W) Mp_head"
  shows "wk_inv ty c (log @ [Dequeued]) (pcs(t := Pop_move w))
    (W\<lparr>wk_mem := ra_exchange Relaxed t Mp_head (w + 1) (wk_mem W)\<rparr>)"
proof -
  let ?M = "wk_mem W" and ?M' = "ra_exchange Relaxed t Mp_head (w + 1) (wk_mem W)" and ?h = "mp_claims log"
  obtain phase where J: "mp_inv ty c log pcs (wk_newest W) phase"
    and O: "wk_orders (length (mp_pushed log)) ?h c ?M" and K: "\<And>t. wk_knows c ?M (mem_views ?M t) (pcs t)"
    using wk_invE [OF I] by metis
  note f = ra_exchange_frame [where ord = Relaxed and t = t and l = Mp_head and x = "w + 1" and M = ?M]
  have p: "w = of_nat ?h" using mp_shapeD(8) [OF mp_invD(1) [OF J]] w by simp
  have b: "Suc ?h < 2 ^ 63" using mp_shapeD(1,9,10) [OF mp_invD(1) [OF J]] by simp
  have next_w: "w + 1 = of_nat (Suc ?h)" using p by simp
  show ?thesis
  proof (rule wk_inv_claim [OF I])
    have "wk_newest (W\<lparr>wk_mem := ?M'\<rparr>) = (wk_newest W)\<lparr>mp_head := w + 1\<rparr>" using f(2,4) by (simp add: wk_newest_def)
    then show "\<exists>phase'. mp_inv ty c (log @ [Dequeued]) (pcs(t := Pop_move w)) (wk_newest (W\<lparr>wk_mem := ?M'\<rparr>)) phase'"
      using mp_claim_pop [OF J pc] w by simp
    have "map msg_value (mem_order ?M' Mp_head) = map of_nat [0..<Suc ?h] @ [of_nat (Suc ?h)]"
      using O unfolding ra_exchange_values next_w by (simp only: wk_orders_def)
    then show "wk_orders (length (mp_pushed (log @ [Dequeued]))) (mp_claims (log @ [Dequeued])) c ?M'"
      using O f(3,5) by (simp add: wk_orders_def)
    fix u
    show "pcs u \<noteq> Pop_claim (w + 1)"
    proof
      assume "pcs u = Pop_claim (w + 1)"
      then obtain k where "k \<le> ?h" "of_nat (Suc ?h) = (of_nat k :: usize)"
        using mp_invD(5) [OF J, of u] next_w by (auto simp del: of_nat_Suc)
      then show False using ticket_eq [of "Suc ?h" k] b by (simp del: of_nat_Suc)
    qed
  qed (use K [of t] pc w in simp_all)
qed

text \<open>Reading the counter of a cell for the ticket \<open>k\<close>.\<close>

lemma wk_inv_check:
  assumes I: "wk_inv ty c log pcs W" and choice: "ra_visible t (Mp_seq (wk_cell W w)) n (wk_mem W)" and k: "w = of_nat k" "k < 2 ^ 63"
  defines "M' \<equiv> snd (ra_load Acquire t (Mp_seq (wk_cell W w)) n (wk_mem W))"
    and "x \<equiv> fst (ra_load Acquire t (Mp_seq (wk_cell W w)) n (wk_mem W))"
  obtains q where "x = of_nat q" "q < 2 ^ 63"
    "\<And>phase. mp_inv ty c log pcs (wk_newest W) phase \<Longrightarrow> q \<le> mp_seq_of (phase (k mod c)) \<and>
       (mp_seq_of (phase (k mod c)) \<le> q \<longrightarrow>
          mem_views M' t (Mp_seq (unat w mod c)) = ra_newest (wk_mem W) (Mp_seq (unat w mod c)))"
proof -
  let ?M = "wk_mem W"
  obtain phase where J: "mp_inv ty c log pcs (wk_newest W) phase"
    and O: "wk_orders (length (mp_pushed log)) (mp_claims log) c ?M" and Y: "wk_synced ?M"
    using wk_invE [OF I] by metis
  have cell: "wk_cell W w = k mod c" "k mod c < c" using mp_cell_ticket [OF mp_invD(1) [OF J] k(2)] k(1) by simp_all
  have u: "unat w = k" using k by (simp add: unat_of_nat_usize below63)
  let ?xs = "mem_order ?M (Mp_seq (k mod c))"
  have n: "n < length ?xs" using choice cell by (simp add: ra_visible_def)
  have x: "x = msg_value (?xs ! n)" by (simp add: x_def ra_load_value cell)
  have "ra_wf ?M" using Y by (simp add: wk_synced_def)
  from ra_load_view_self [OF this n] have view: "mem_views M' t (Mp_seq (k mod c)) = n" by (simp add: M'_def cell)
  have newest: "ra_newest ?M (Mp_seq (k mod c)) = length ?xs - 1" using O by (simp add: wk_orders_def ra_newest_def)
  obtain q where q: "x = of_nat q" "q < 2 ^ 63"
    using wk_seq_entry [OF J O cell(2) n] x by metis
  show ?thesis
  proof (rule that [OF q])
    fix phase
    assume "mp_inv ty c log pcs (wk_newest W) phase"
    from wk_seq_entry [OF this O cell(2) n] obtain q' where q': "x = of_nat q'" "q' \<le> mp_seq_of (phase (k mod c))" "q' < 2 ^ 63"
      "mp_seq_of (phase (k mod c)) \<le> q' \<Longrightarrow> Suc n = length ?xs" using x by metis
    then have "q' = q" using q ticket_eq [of q' q] by simp
    with q' show "q \<le> mp_seq_of (phase (k mod c)) \<and> (mp_seq_of (phase (k mod c)) \<le> q \<longrightarrow>
        mem_views M' t (Mp_seq (unat w mod c)) = ra_newest ?M (Mp_seq (unat w mod c)))"
      unfolding u view newest by auto
  qed
qed

lemma wk_push_check:
  assumes I: "wk_inv ty c log pcs W" and choice: "wk_choice t spurious n (pcs t) W" and pc: "pcs t = Push_check x w"
  shows "\<exists>es pc W'. wk_step ty t spurious n (pcs t) W = Some (es, pc, W') \<and> wk_inv ty c (log @ es) (pcs(t := pc)) W'"
proof -
  let ?M = "wk_mem W" and ?l = "Mp_seq (wk_cell W w)"
  let ?r = "ra_load Acquire t ?l n ?M"
  obtain phase where J: "mp_inv ty c log pcs (wk_newest W) phase" using wk_invE [OF I] by metis
  obtain k where k: "k \<le> length (mp_pushed log)" "w = of_nat k" using mp_invD(5) [OF J, of t] pc by auto
  have b: "length (mp_pushed log) < 2 ^ 63" using mp_shapeD(10) [OF mp_invD(1) [OF J]] by simp
  then have k63: "k < 2 ^ 63" using k(1) by simp
  have vis: "ra_visible t ?l n ?M" using choice pc by (simp add: wk_choice_def)
  obtain q where q: "fst ?r = of_nat q" "q < 2 ^ 63"
    and Q: "\<And>phase. mp_inv ty c log pcs (wk_newest W) phase \<Longrightarrow> q \<le> mp_seq_of (phase (k mod c)) \<and>
       (mp_seq_of (phase (k mod c)) \<le> q \<longrightarrow> mem_views (snd ?r) t (Mp_seq (unat w mod c)) = ra_newest ?M (Mp_seq (unat w mod c)))"
    using wk_inv_check [OF I vis k(2) k63] by metis
  have diff: "intptr_diff (fst ?r) w = Some (int q - int k)" using ticket_diff [OF q(2) k63] q(1) k(2) by simp
  have last: "q = mp_seq_of (phase (k mod c))" if "mp_inv ty c log pcs (wk_newest W) phase" "q = k" "k = length (mp_pushed log)" for phase
    using Q [OF that(1)] mp_seq_at_claim(1) [OF mp_invD(1,2) [OF that(1)]] that(2,3) by simp
  note load = wk_inv_load [where t = t and l = ?l and n = n and ord = Acquire, OF I vis]
  have claim: "wk_inv ty c (log @ []) (pcs(t := Push_claim x w)) (W\<lparr>wk_mem := snd ?r\<rparr>)" if e: "q = k"
  proof (rule load)
    fix phase
    assume P: "mp_inv ty c log pcs (wk_newest W) phase"
    have "phase (k mod c) = (k, Free)" if "k = length (mp_pushed log)"
      using mp_claimable(1) [OF mp_invD(1,2) [OF P]] last [OF P e that] e that by simp
    then show "mp_thread_ok (mp_pushed log) (mp_claims log) c phase t (Push_claim x w)" using k by auto
  next
    have "k = length (mp_pushed log)" if "w = ra_value ?M Mp_tail"
      using that k(2) mp_shapeD(7) [OF mp_invD(1) [OF J]] ticket_eq [OF k63 b] by simp
    then show "wk_knows c ?M (mem_views (snd ?r) t) (Push_claim x w)"
      using Q [OF J] last [OF J e] by auto
  qed (use pc in simp_all)
  have fail: "wk_inv ty c (log @ [Push_returns False]) (pcs(t := Idle)) (W\<lparr>wk_mem := snd ?r\<rparr>)"
    by (rule load) (use pc in simp_all)
  have again: "wk_inv ty c (log @ []) (pcs(t := Push_load x)) (W\<lparr>wk_mem := snd ?r\<rparr>)"
    by (rule load) (use pc in simp_all)
  show ?thesis
    using claim fail again unfolding pc wk_step.simps Let_def diff by (auto simp del: fun_upd_apply)
qed

lemma wk_pop_check:
  assumes I: "wk_inv ty c log pcs W" and choice: "wk_choice t spurious n (pcs t) W" and pc: "pcs t = Pop_check w"
  shows "\<exists>es pc W'. wk_step ty t spurious n (pcs t) W = Some (es, pc, W') \<and> wk_inv ty c (log @ es) (pcs(t := pc)) W'"
proof -
  let ?M = "wk_mem W" and ?l = "Mp_seq (wk_cell W w)"
  let ?r = "ra_load Acquire t ?l n ?M"
  obtain phase where J: "mp_inv ty c log pcs (wk_newest W) phase" using wk_invE [OF I] by metis
  obtain k where k: "k \<le> mp_claims log" "w = of_nat k" using mp_invD(5) [OF J, of t] pc by auto
  have b: "Suc (mp_claims log) < 2 ^ 63" using mp_shapeD(1,9,10) [OF mp_invD(1) [OF J]] by simp
  then have k63: "k < 2 ^ 63" "Suc k < 2 ^ 63" "mp_claims log < 2 ^ 63" using k(1) by simp_all
  have vis: "ra_visible t ?l n ?M" using choice pc by (simp add: wk_choice_def)
  obtain q where q: "fst ?r = of_nat q" "q < 2 ^ 63"
    and Q: "\<And>phase. mp_inv ty c log pcs (wk_newest W) phase \<Longrightarrow> q \<le> mp_seq_of (phase (k mod c)) \<and>
       (mp_seq_of (phase (k mod c)) \<le> q \<longrightarrow> mem_views (snd ?r) t (Mp_seq (unat w mod c)) = ra_newest ?M (Mp_seq (unat w mod c)))"
    using wk_inv_check [OF I vis k(2) k63(1)] by metis
  have diff: "intptr_diff (fst ?r) (w + 1) = Some (int q - int (Suc k))"
    using ticket_diff [OF q(2) k63(2)] q(1) k(2) by (simp add: add.commute)
  have last: "q = mp_seq_of (phase (k mod c))" if "mp_inv ty c log pcs (wk_newest W) phase" "q = Suc k" "k = mp_claims log" for phase
    using Q [OF that(1)] mp_seq_at_claim(2) [OF mp_invD(1,2) [OF that(1)]] that(2,3) by simp
  note load = wk_inv_load [where t = t and l = ?l and n = n and ord = Acquire, OF I vis]
  have claim: "wk_inv ty c (log @ []) (pcs(t := Pop_claim w)) (W\<lparr>wk_mem := snd ?r\<rparr>)" if e: "q = Suc k"
  proof (rule load)
    fix phase
    assume P: "mp_inv ty c log pcs (wk_newest W) phase"
    have "phase (k mod c) = (k, Full)" if "k = mp_claims log"
      using mp_claimable(2) [OF mp_invD(1,2) [OF P]] last [OF P e that] e that by simp
    then show "mp_thread_ok (mp_pushed log) (mp_claims log) c phase t (Pop_claim w)" using k by auto
  next
    have "k = mp_claims log" if "w = ra_value ?M Mp_head"
      using that k(2) mp_shapeD(8) [OF mp_invD(1) [OF J]] ticket_eq [OF k63(1,3)] by simp
    then show "wk_knows c ?M (mem_views (snd ?r) t) (Pop_claim w)"
      using Q [OF J] last [OF J e] by auto
  qed (use pc in simp_all)
  have fail: "wk_inv ty c (log @ [Pop_returns None]) (pcs(t := Idle)) (W\<lparr>wk_mem := snd ?r\<rparr>)"
    by (rule load) (use pc in simp_all)
  have again: "wk_inv ty c (log @ []) (pcs(t := Pop_load)) (W\<lparr>wk_mem := snd ?r\<rparr>)"
    by (rule load) (use pc in simp_all)
  show ?thesis
    using claim fail again unfolding pc wk_step.simps Let_def diff by (auto simp del: fun_upd_apply)
qed

lemma wk_newest_storage:
  "length m = length (wk_storage W) \<Longrightarrow> wk_newest (W\<lparr>wk_storage := m\<rparr>) = (wk_newest W)\<lparr>mp_storage := m\<rparr>"
  by (simp add: wk_newest_def)

lemma wk_ticket_cell:
  assumes J: "mp_inv ty c log pcs (wk_newest W) phase" and w: "mp_word (pcs t) = Some w"
  shows "wk_cell W w = unat w mod c" "unat w mod c < c" "length (wk_storage W) = c"
    "ra_value (wk_mem W) (Mp_seq (unat w mod c)) = of_nat (mp_seq_of (phase (unat w mod c)))"
proof -
  note S = mp_invD(1) [OF J]
  obtain j ph where j: "w = of_nat j" "unat w = j" "phase (j mod c) = (j, ph)" "mp_owner ph = Some t" "j mod c < c"
    using mp_word_phase [OF J w] by metis
  have "j < 2 ^ 63"
    using mp_ticket_bound(1) [OF mp_invD(2) [OF J] j(5,3) mp_shapeD(9) [OF S]] mp_shapeD(10) [OF S] by simp
  from mp_cell_ticket [OF S this] show "wk_cell W w = unat w mod c" "unat w mod c < c" using j(1,2) by simp_all
  show l: "length (wk_storage W) = c" using mp_shapeD(6) [OF S] by simp
  show "ra_value (wk_mem W) (Mp_seq (unat w mod c)) = of_nat (mp_seq_of (phase (unat w mod c)))"
    using mp_shapeD(12) [OF S \<open>unat w mod c < c\<close>] wk_newest_seq \<open>unat w mod c < c\<close> l by metis
qed

lemma wk_push_construct:
  assumes I: "wk_inv ty c log pcs W" and pc: "pcs t = Push_construct x w"
  shows "\<exists>W'. wk_step ty t spurious n (pcs t) W = Some ([], Push_publish w, W') \<and>
    wk_inv ty c (log @ []) (pcs(t := Push_publish w)) W'"
proof -
  obtain phase where J: "mp_inv ty c log pcs (wk_newest W) phase" using wk_invE [OF I] by metis
  have w: "mp_word (pcs t) = Some w" "wk_publishes (pcs t) = None" using pc by simp_all
  note cell = wk_ticket_cell [OF J w(1)]
  obtain m phase' where m: "mp_step ty spurious (pcs t) (wk_newest W) = Some ([], Push_publish w, (wk_newest W)\<lparr>mp_storage := m\<rparr>)"
    "mp_inv ty c log (pcs(t := Push_publish w)) ((wk_newest W)\<lparr>mp_storage := m\<rparr>) phase'"
    using mp_step_construct [OF J pc, of spurious] by blast
  have "slot_construct ty (wk_cell W w) x (wk_storage W) = Some m"
    using m(1) pc by (auto split: bind_splits dest!: arg_cong [where f = mp_storage])
  moreover have "length m = length (wk_storage W)" using mp_shapeD(6) [OF mp_invD(1) [OF m(2)]] cell(3) by simp
  then have J': "mp_inv ty c log (pcs(t := Push_publish w)) (wk_newest (W\<lparr>wk_storage := m\<rparr>)) phase'"
    using m(2) by (simp add: wk_newest_storage)
  moreover obtain M where M: "ra_access t (Mp_cell (unat w mod c)) (wk_mem W) = Some M"
    using wk_access_defined [OF I w] by blast
  ultimately show ?thesis
    using wk_inv_access [OF I w _ M J'] pc cell(1) by (simp del: fun_upd_apply)
qed

lemma wk_pop_move:
  assumes I: "wk_inv ty c log pcs W" and pc: "pcs t = Pop_move w"
  shows "\<exists>x W'. wk_step ty t spurious n (pcs t) W = Some ([], Pop_publish w x, W') \<and>
    wk_inv ty c (log @ []) (pcs(t := Pop_publish w x)) W'"
proof -
  obtain phase where J: "mp_inv ty c log pcs (wk_newest W) phase" using wk_invE [OF I] by metis
  have w: "mp_word (pcs t) = Some w" "wk_publishes (pcs t) = None" using pc by simp_all
  note cell = wk_ticket_cell [OF J w(1)]
  obtain x m phase' where m: "mp_step ty spurious (pcs t) (wk_newest W) = Some ([], Pop_publish w x, (wk_newest W)\<lparr>mp_storage := m\<rparr>)"
    "mp_inv ty c log (pcs(t := Pop_publish w x)) ((wk_newest W)\<lparr>mp_storage := m\<rparr>) phase'"
    using mp_step_move [OF J pc, of spurious] by blast
  obtain m1 where "slot_move ty (wk_cell W w) (wk_storage W) = Some (x, m1)" "slot_destroy ty (wk_cell W w) m1 = Some m"
    using m(1) pc by (auto split: bind_splits dest!: arg_cong [where f = mp_storage])
  moreover have "length m = length (wk_storage W)" using mp_shapeD(6) [OF mp_invD(1) [OF m(2)]] cell(3) by simp
  then have J': "mp_inv ty c log (pcs(t := Pop_publish w x)) (wk_newest (W\<lparr>wk_storage := m\<rparr>)) phase'"
    using m(2) by (simp add: wk_newest_storage)
  moreover obtain M where M: "ra_access t (Mp_cell (unat w mod c)) (wk_mem W) = Some M"
    using wk_access_defined [OF I w] by blast
  ultimately show ?thesis
    using wk_inv_access [OF I w _ M J'] pc cell(1) by (simp del: fun_upd_apply)
qed

lemma wk_push_publish:
  assumes I: "wk_inv ty c log pcs W" and pc: "pcs t = Push_publish w"
  shows "\<exists>W'. wk_step ty t spurious n (pcs t) W = Some ([Push_returns True], Idle, W') \<and>
    wk_inv ty c (log @ [Push_returns True]) (pcs(t := Idle)) W'"
proof -
  obtain phase where J: "mp_inv ty c log pcs (wk_newest W) phase" using wk_invE [OF I] by metis
  have w: "mp_word (pcs t) = Some w" "wk_publishes (pcs t) = Some w" using pc by simp_all
  note cell = wk_ticket_cell [OF J w(1)]
  obtain M where M: "ra_store Release t (Mp_seq (unat w mod c)) (w + 1) (wk_mem W) = Some M"
    using wk_store_defined [where t = t, OF I w(2)] by blast
  obtain s' phase' where s': "mp_step ty spurious (pcs t) (wk_newest W) = Some ([Push_returns True], Idle, s')"
    "mp_inv ty c (log @ [Push_returns True]) (pcs(t := Idle)) s' phase'"
    using mp_step_push_publish [OF J pc, of spurious] by blast
  have "s' = wk_newest (W\<lparr>wk_mem := M\<rparr>)"
    using s'(1) pc cell by (auto simp: mp_store_seq_def wk_newest_store [OF M] split: if_splits)
  moreover obtain j where "j < length (mp_pushed log)" "w = of_nat j" "phase (j mod c) = (j, Built t)"
    using mp_invD(5) [OF J, of t] pc by auto
  then have "unat (ra_value (wk_mem W) (Mp_seq (unat w mod c))) < unat (w + 1)"
    using cell(4) mp_shapeD(10) [OF mp_invD(1) [OF J]] by (simp add: unat_of_nat_usize below63 unat_simps)
  ultimately show ?thesis
    using wk_inv_store [OF I w(2) M] s'(2) pc M cell(1) by (simp del: fun_upd_apply)
qed

lemma wk_pop_publish:
  assumes I: "wk_inv ty c log pcs W" and pc: "pcs t = Pop_publish w x"
  shows "\<exists>W'. wk_step ty t spurious n (pcs t) W = Some ([Pop_returns (Some (w, x))], Idle, W') \<and>
    wk_inv ty c (log @ [Pop_returns (Some (w, x))]) (pcs(t := Idle)) W'"
proof -
  obtain phase where J: "mp_inv ty c log pcs (wk_newest W) phase" using wk_invE [OF I] by metis
  have w: "mp_word (pcs t) = Some w" "wk_publishes (pcs t) = Some w" using pc by simp_all
  note cell = wk_ticket_cell [OF J w(1)] and S = mp_invD(1) [OF J]
  obtain M where M: "ra_store Release t (Mp_seq (unat w mod c)) (w + wk_capacity W) (wk_mem W) = Some M"
    using wk_store_defined [where t = t, OF I w(2)] by blast
  obtain s' phase' where s': "mp_step ty spurious (pcs t) (wk_newest W) = Some ([Pop_returns (Some (w, x))], Idle, s')"
    "mp_inv ty c (log @ [Pop_returns (Some (w, x))]) (pcs(t := Idle)) s' phase'"
    using mp_step_pop_publish [OF J pc, of spurious] by blast
  have "s' = wk_newest (W\<lparr>wk_mem := M\<rparr>)"
    using s'(1) pc cell by (auto simp: mp_store_seq_def wk_newest_store [OF M] split: if_splits)
  moreover have "unat (ra_value (wk_mem W) (Mp_seq (unat w mod c))) < unat (w + wk_capacity W)"
  proof -
    obtain j where j: "j < mp_claims log" "w = of_nat j" "phase (j mod c) = (j, Emptied t)"
      using mp_invD(5) [OF J, of t] pc by auto
    have "Suc j < j + c" "j + c < 2 ^ 63" using j(1) mp_shapeD(1,9,10) [OF S] by simp_all
    moreover from this have "unat w = j" using j(2) by (simp add: unat_of_nat_usize below63)
    moreover have "wk_capacity W = of_nat c"
      using mp_shapeD(3,10) [OF S] by (simp add: usize_eq_iff unat_of_nat_usize)
    then have "w + wk_capacity W = of_nat (j + c)" using j(2) by simp
    ultimately show ?thesis using cell(4) j(3) by (simp add: unat_of_nat_usize below63 del: of_nat_Suc of_nat_add)
  qed
  ultimately show ?thesis
    using wk_inv_store [OF I w(2) M] s'(2) pc M cell(1) by (simp del: fun_upd_apply)
qed

lemma wk_claim_newest:
  assumes "wk_choice t spurious n (pcs t) W" "wk_reads W (pcs t) = Some l" "wk_expects (pcs t) = Some w"
    and "msg_value (mem_order (wk_mem W) l ! n) = w" "\<not> spurious"
  shows "w = ra_value (wk_mem W) l"
proof -
  have n: "Suc n = length (mem_order (wk_mem W) l)" using assms by (auto simp: wk_choice_def)
  then have "last (mem_order (wk_mem W) l) = mem_order (wk_mem W) l ! n"
    by (metis diff_Suc_1 last_conv_nth list.size(3) nat.distinct(1))
  then show ?thesis using assms(4) by (simp add: ra_value_def)
qed

text \<open>A thread that may take a step is not stuck, and its step keeps the invariant.\<close>

lemma wk_step_inv:
  assumes I: "wk_inv ty c log pcs W" and choice: "wk_choice t spurious n (pcs t) W"
  shows "\<exists>es pc W'. wk_step ty t spurious n (pcs t) W = Some (es, pc, W') \<and>
    (length (mp_pushed (log @ es)) + c < 2 ^ 63 \<longrightarrow> wk_inv ty c (log @ es) (pcs(t := pc)) W')"
proof -
  let ?M = "wk_mem W"
  obtain phase where J: "mp_inv ty c log pcs (wk_newest W) phase"
    and O: "wk_orders (length (mp_pushed log)) (mp_claims log) c ?M"
    using wk_invE [OF I] by metis
  have vis: "ra_visible t l n ?M" if "wk_reads W (pcs t) = Some l" for l
    using choice that by (simp add: wk_choice_def)
  show ?thesis
  proof (cases "pcs t")
    case Idle
    then have "pcs(t := Idle) = pcs" by auto
    then show ?thesis using Idle I by simp
  next
    case (Push_load x)
    then have v: "ra_visible t Mp_tail n ?M" using vis by simp
    then have n: "n \<le> length (mp_pushed log)" using wk_index_entry(1) [OF O] by (simp add: ra_visible_def)
    have "wk_inv ty c (log @ []) (pcs(t := Push_check x (of_nat n))) (W\<lparr>wk_mem := snd (ra_load Relaxed t Mp_tail n ?M)\<rparr>)"
      by (rule wk_inv_load [OF I v]) (use Push_load n in auto)
    then show ?thesis using Push_load wk_index_entry(3) [OF O n] by (simp add: Let_def ra_load_value del: fun_upd_apply)
  next
    case (Push_claim x w)
    have fail: "wk_inv ty c (log @ []) (pcs(t := Push_load x)) (W\<lparr>wk_mem := snd (ra_load Relaxed t Mp_tail n ?M)\<rparr>)"
      by (rule wk_inv_load [OF I vis]) (use Push_claim in auto)
    show ?thesis
    proof (cases "msg_value (mem_order ?M Mp_tail ! n) = w \<and> \<not> spurious")
      case True
      then have "w = ra_value ?M Mp_tail" using wk_claim_newest [where pcs = pcs, OF choice] Push_claim by simp
      from wk_inv_claim_push [OF I Push_claim this] True Push_claim show ?thesis
        by (simp add: Let_def ra_load_value del: fun_upd_apply)
    qed (use fail Push_claim in \<open>auto simp: Let_def ra_load_value simp del: fun_upd_apply\<close>)
  next
    case Pop_load
    then have v: "ra_visible t Mp_head n ?M" using vis by simp
    then have n: "n \<le> mp_claims log" using wk_index_entry(2) [OF O] by (simp add: ra_visible_def)
    have "wk_inv ty c (log @ []) (pcs(t := Pop_check (of_nat n))) (W\<lparr>wk_mem := snd (ra_load Relaxed t Mp_head n ?M)\<rparr>)"
      by (rule wk_inv_load [OF I v]) (use Pop_load n in auto)
    then show ?thesis using Pop_load wk_index_entry(4) [OF O n] by (simp add: Let_def ra_load_value del: fun_upd_apply)
  next
    case (Pop_claim w)
    have fail: "wk_inv ty c (log @ []) (pcs(t := Pop_load)) (W\<lparr>wk_mem := snd (ra_load Relaxed t Mp_head n ?M)\<rparr>)"
      by (rule wk_inv_load [OF I vis]) (use Pop_claim in auto)
    show ?thesis
    proof (cases "msg_value (mem_order ?M Mp_head ! n) = w \<and> \<not> spurious")
      case True
      then have "w = ra_value ?M Mp_head" using wk_claim_newest [where pcs = pcs, OF choice] Pop_claim by simp
      from wk_inv_claim_pop [OF I Pop_claim this] True Pop_claim show ?thesis
        by (simp add: Let_def ra_load_value del: fun_upd_apply)
    qed (use fail Pop_claim in \<open>auto simp: Let_def ra_load_value simp del: fun_upd_apply\<close>)
  qed (use wk_push_check [OF I choice] wk_pop_check [OF I choice] wk_push_construct [where t = t, OF I] wk_pop_move [where t = t, OF I]
      wk_push_publish [where t = t, OF I] wk_pop_publish [where t = t, OF I] in \<open>metis (no_types, lifting)\<close>)+
qed

section \<open>Runs\<close>

lemma wk_inv_call:
  assumes I: "wk_inv ty c log pcs W" and pc: "pcs t = Idle" "pc = Push_load x \<or> pc = Pop_load"
  shows "wk_inv ty c log (pcs(t := pc)) W"
proof -
  obtain phase where J: "mp_inv ty c log pcs (wk_newest W) phase"
    and O: "wk_orders (length (mp_pushed log)) (mp_claims log) c (wk_mem W)" and Y: "wk_synced (wk_mem W)"
    and N: "wk_counts c pcs (wk_mem W)" and K: "\<And>t. wk_knows c (wk_mem W) (mem_views (wk_mem W) t) (pcs t)"
    using wk_invE [OF I] by metis
  have "mp_inv ty c (log @ []) (pcs(t := pc)) (wk_newest W) phase"
    by (rule mp_inv_local [OF J]) (use pc in auto)
  moreover have "wk_publishes pc = wk_publishes (pcs t)" using pc by auto
  then have "wk_counts c (pcs(t := pc)) (wk_mem W)" using N by (simp add: wk_counts_def wk_ahead_same)
  moreover have "wk_knows c (wk_mem W) (mem_views (wk_mem W) u) ((pcs(t := pc)) u)" for u
    using K [of u] pc by auto
  ultimately show ?thesis using O Y by (auto simp: wk_inv_def simp del: fun_upd_apply)
qed

lemma wk_start_newest:
  assumes I: "mp_inv ty c [] (\<lambda>_. Idle) s0 phase"
  shows "wk_newest (wk_start s0) = s0"
proof -
  note S = mp_shapeD [OF mp_invD(1) [OF I]]
  let ?M = "wk_mem (wk_start s0)"
  have l: "length (mp_seqs s0) = c" "length (mp_storage s0) = c" using S(5,6) by simp_all
  have v: "ra_value ?M Mp_head = mp_head s0" "ra_value ?M Mp_tail = mp_tail s0" "i < c \<Longrightarrow> ra_value ?M (Mp_seq i) = mp_seqs s0 ! i" for i
    by (simp_all add: wk_start_def ra_init_def ra_value_def l)
  then show ?thesis
    using l by (auto simp: wk_newest_def wk_start_def intro!: mpmc.equality nth_equalityI)
qed

lemma wk_start_inv:
  assumes I: "mp_inv ty c [] (\<lambda>_. Idle) s0 phase"
  shows "wk_inv ty c [] (\<lambda>_. Idle) (wk_start s0)"
proof -
  note S = mp_shapeD [OF mp_invD(1) [OF I]]
  let ?M = "wk_mem (wk_start s0)"
  have l: "length (mp_seqs s0) = c" "length (mp_storage s0) = c" using S(5,6) by simp_all
  have "wk_orders 0 0 c ?M" using S(7,8) l by (simp add: wk_orders_def wk_start_def ra_init_def)
  moreover have "wk_synced ?M" by (simp add: wk_synced_def wk_start_def)
  moreover have "wk_counts c (\<lambda>_. Idle) ?M" using l
    by (auto simp: wk_counts_def wk_ahead_def ra_newest_def wk_start_def ra_init_def)
  ultimately show ?thesis using I wk_start_newest [OF I] by (auto simp: wk_inv_def)
qed

lemma wk_run_inv:
  assumes "wk_run ty s0 log pcs W" "mp_inv ty c [] (\<lambda>_. Idle) s0 phase"
  shows "length (mp_pushed log) + c < 2 ^ 63 \<Longrightarrow> wk_inv ty c log pcs W"
  using assms(1)
proof (induction rule: wk_run.induct)
  case wk_begin
  then show ?case using wk_start_inv [OF assms(2)] by blast
next
  case (wk_call_push log pcs W t x)
  then show ?case using wk_inv_call [of ty c log pcs W t "Push_load x" x] by (simp del: fun_upd_apply)
next
  case (wk_call_pop log pcs W t)
  then show ?case using wk_inv_call [of ty c log pcs W t Pop_load] by (simp del: fun_upd_apply)
next
  case (wk_thread log pcs W t spurious n es pc W')
  then have "wk_inv ty c log pcs W" by simp
  from wk_step_inv [OF this wk_thread.hyps(3)] wk_thread.hyps(4) wk_thread.prems show ?case by (simp del: fun_upd_apply)
qed

text \<open>Each thread has a choice: it may read the newest entry.\<close>

lemma wk_choice_exists:
  assumes I: "wk_inv ty c log pcs W"
  shows "\<exists>n. wk_choice t spurious n (pcs t) W"
proof (cases "wk_reads W (pcs t)")
  case None
  then show ?thesis by (simp add: wk_choice_def)
next
  case (Some l)
  obtain phase where J: "mp_inv ty c log pcs (wk_newest W) phase"
    and O: "wk_orders (length (mp_pushed log)) (mp_claims log) c (wk_mem W)" and Y: "wk_synced (wk_mem W)"
    using wk_invE [OF I] by metis
  note S = mp_invD(1) [OF J]
  have cell: "wk_cell W (of_nat k) < c" if "k < 2 ^ 63" for k
    using mp_cell_ticket [OF S that] by simp
  have "l = Mp_tail \<or> l = Mp_head \<or> (\<exists>i < c. l = Mp_seq i)"
    using Some mp_invD(5) [OF J, of t] mp_shapeD(9,10) [OF S] cell by (cases "pcs t") auto
  then have ne: "mem_order (wk_mem W) l \<noteq> []" and "mem_accesses (wk_mem W) l = 0"
    using O wk_index_entry(1,2) [OF O, of 0] by (auto simp: wk_orders_def)
  then have "mem_views (wk_mem W) t l \<le> length (mem_order (wk_mem W) l) - 1"
    using Y ra_wfD(1) [of "wk_mem W" t l] by (simp add: wk_synced_def ra_newest_def)
  then have "wk_choice t spurious (length (mem_order (wk_mem W) l) - 1) (pcs t) W"
    using Some ne(1) by (auto simp: wk_choice_def ra_visible_def)
  then show ?thesis by blast
qed

text \<open>
  A step of the sequentially consistent model is the step that reads the newest entry.
\<close>

lemma wk_newest_choice:
  assumes I: "wk_inv ty c log pcs W" and l: "wk_reads W (pcs t) = Some l"
  defines "n \<equiv> length (mem_order (wk_mem W) l) - 1"
  shows "wk_choice t spurious n (pcs t) W" "msg_value (mem_order (wk_mem W) l ! n) = ra_value (wk_mem W) l"
proof -
  obtain k where "wk_choice t spurious k (pcs t) W" using wk_choice_exists [OF I] by blast
  then have "mem_order (wk_mem W) l \<noteq> []" "mem_views (wk_mem W) t l \<le> k" "k < length (mem_order (wk_mem W) l)"
    using l by (auto simp: wk_choice_def ra_visible_def)
  then show "wk_choice t spurious n (pcs t) W" "msg_value (mem_order (wk_mem W) l ! n) = ra_value (wk_mem W) l"
    using l by (auto simp: wk_choice_def ra_visible_def n_def ra_value_entry)
qed

lemma wk_newest_load [simp]: "wk_newest (W\<lparr>wk_mem := snd (ra_load ord t l n (wk_mem W))\<rparr>) = wk_newest W"
  by (simp add: wk_newest_def)

lemma wk_load_newest_seq:
  "mp_load_seq (wk_newest W) w = Some x \<Longrightarrow> x = ra_value (wk_mem W) (Mp_seq (wk_cell W w))"
  by (auto simp: mp_load_seq_def wk_newest_seq split: if_splits)

lemma wk_slot_move_length: "slot_move ty i m = Some (x, m') \<Longrightarrow> length m' = length m"
  by (auto simp: slot_move_def split: bind_splits option.splits if_splits)

lemma wk_step_newest:
  assumes I: "wk_inv ty c log pcs W" and s: "mp_step ty spurious (pcs t) (wk_newest W) = Some (es, pc, s')"
  shows "\<exists>n W'. wk_choice t spurious n (pcs t) W \<and> wk_step ty t spurious n (pcs t) W = Some (es, pc, W') \<and> wk_newest W' = s'"
proof (cases "wk_reads W (pcs t)")
  case (Some l)
  note N = wk_newest_choice [OF I Some]
  let ?n = "length (mem_order (wk_mem W) l) - 1"
  have claim: "wk_newest (W\<lparr>wk_mem := ra_exchange Relaxed t Mp_tail x (wk_mem W)\<rparr>) = (wk_newest W)\<lparr>mp_tail := x\<rparr>"
    "wk_newest (W\<lparr>wk_mem := ra_exchange Relaxed t Mp_head x (wk_mem W)\<rparr>) = (wk_newest W)\<lparr>mp_head := x\<rparr>" for x
    by (simp_all add: wk_newest_def ra_exchange_frame)
  have "\<exists>W'. wk_step ty t spurious ?n (pcs t) W = Some (es, pc, W') \<and> wk_newest W' = s'"
    using Some s N(2) wk_load_newest_seq [of W]
    by (cases "pcs t") (auto simp: Let_def ra_load_value claim split: bind_splits if_splits)
  then show ?thesis using N(1) [of spurious] by blast
next
  case None
  then have choice: "wk_choice t spurious n (pcs t) W" for n by (simp add: wk_choice_def)
  obtain phase where J: "mp_inv ty c log pcs (wk_newest W) phase" using wk_invE [OF I] by metis
  have "\<exists>W'. wk_step ty t spurious 0 (pcs t) W = Some (es, pc, W') \<and> wk_newest W' = s'"
  proof (cases "mp_word (pcs t)")
    case w: (Some w)
    note cell = wk_ticket_cell [OF J w]
    show ?thesis
    proof (cases "wk_publishes (pcs t)")
      case p: None
      then obtain M where M: "ra_access t (Mp_cell (unat w mod c)) (wk_mem W) = Some M"
        using wk_access_defined [OF I w] by blast
      then have new: "wk_newest (W\<lparr>wk_storage := m, wk_mem := M\<rparr>) = (wk_newest W)\<lparr>mp_storage := m\<rparr>"
        if "length m = length (wk_storage W)" for m
        using that ra_access_frame(2) [OF M] by (simp add: wk_newest_def)
      have "wk_newest (W\<lparr>wk_storage := m, wk_mem := M\<rparr>) = (wk_newest W)\<lparr>mp_storage := m\<rparr>"
        if "slot_move ty i (wk_storage W) = Some (x, m1)" "slot_destroy ty i m1 = Some m" for i x m1 m
        using that by (auto intro: new dest!: wk_slot_move_length slot_destroy_length)
      then show ?thesis
        using s w p M cell(1) by (cases "pcs t") (auto intro: new slot_construct_length split: bind_splits)
    next
      case p: (Some w')
      then have w': "w' = w" using w wk_publishes_word by fastforce
      obtain M1 M2 where M: "ra_store Release t (Mp_seq (unat w mod c)) (w + 1) (wk_mem W) = Some M1"
        "ra_store Release t (Mp_seq (unat w mod c)) (w + wk_capacity W) (wk_mem W) = Some M2"
        using wk_store_defined [where t = t, OF I p [unfolded w']] by metis
      show ?thesis
        using s w p M cell wk_newest_store [OF M(1)] wk_newest_store [OF M(2)]
        by (cases "pcs t") (auto simp: mp_store_seq_def split: bind_splits if_splits)
    qed
  qed (use None s in \<open>cases "pcs t"; auto\<close>)
  then show ?thesis using choice by blast
qed

lemma mp_run_weak:
  assumes "mp_run ty s0 log pcs s" "mp_inv ty c [] (\<lambda>_. Idle) s0 phase"
  shows "length (mp_pushed log) + c < 2 ^ 63 \<Longrightarrow> \<exists>W. wk_run ty s0 log pcs W \<and> wk_newest W = s"
  using assms(1)
proof (induction rule: mp_run.induct)
  case mp_start
  have "wk_newest (wk_start s0) = s0" using wk_start_newest [OF assms(2)] .
  then show ?case using wk_begin by blast
next
  case (mp_call_push log pcs s t x)
  then obtain W where W: "wk_run ty s0 log pcs W" "wk_newest W = s" by metis
  from wk_call_push [OF W(1) mp_call_push.hyps(2)] W(2) show ?case by metis
next
  case (mp_call_pop log pcs s t)
  then obtain W where W: "wk_run ty s0 log pcs W" "wk_newest W = s" by metis
  from wk_call_pop [OF W(1) mp_call_pop.hyps(2)] W(2) show ?case by metis
next
  case (mp_thread log pcs s t spurious es pc s')
  then obtain W where W: "wk_run ty s0 log pcs W" "wk_newest W = s" by auto
  have "wk_inv ty c log pcs W" using wk_run_inv [OF W(1) assms(2)] mp_thread.prems by simp
  moreover have "mp_step ty spurious (pcs t) (wk_newest W) = Some (es, pc, s')" using mp_thread.hyps(3) W(2) by simp
  ultimately obtain n W' where "wk_choice t spurious n (pcs t) W" "wk_step ty t spurious n (pcs t) W = Some (es, pc, W')" "wk_newest W' = s'"
    by (metis wk_step_newest)
  with wk_thread [OF W(1) mp_thread.hyps(2)] show ?case by metis
qed

text \<open>A run given by its schedule: calls, and steps with the entry that is read.\<close>

datatype 'a wk_move = Call_push nat 'a | Call_pop nat | Go nat nat

fun wk_exec :: "'a elem_type \<Rightarrow> 'a wk_move list \<Rightarrow> 'a mp_event list \<Rightarrow> (nat \<Rightarrow> 'a mp_pc) \<Rightarrow> 'a mp_weak \<Rightarrow>
    ('a mp_event list \<times> (nat \<Rightarrow> 'a mp_pc) \<times> 'a mp_weak) option" where
  "wk_exec ty [] log pcs W = Some (log, pcs, W)"
| "wk_exec ty (Call_push t x # moves) log pcs W =
     (case pcs t of Idle \<Rightarrow> wk_exec ty moves log (pcs(t := Push_load x)) W | _ \<Rightarrow> None)"
| "wk_exec ty (Call_pop t # moves) log pcs W =
     (case pcs t of Idle \<Rightarrow> wk_exec ty moves log (pcs(t := Pop_load)) W | _ \<Rightarrow> None)"
| "wk_exec ty (Go t n # moves) log pcs W =
     (if wk_choice t False n (pcs t) W then do {
        (es, pc, W') \<leftarrow> wk_step ty t False n (pcs t) W;
        wk_exec ty moves (log @ es) (pcs(t := pc)) W'
      } else None)"

lemma wk_exec_run:
  assumes "wk_exec ty moves log pcs W = Some (log', pcs', W')" "wk_run ty s0 log pcs W"
  shows "wk_run ty s0 log' pcs' W'"
  using assms
proof (induction moves arbitrary: log pcs W)
  case Nil
  then show ?case by simp
next
  case (Cons m moves)
  show ?case
  proof (cases m)
    case (Call_push t x)
    then have "pcs t = Idle" "wk_exec ty moves log (pcs(t := Push_load x)) W = Some (log', pcs', W')"
      using Cons.prems(1) by (simp_all split: mp_pc.splits)
    then show ?thesis using Cons.IH wk_call_push [OF Cons.prems(2)] by blast
  next
    case (Call_pop t)
    then have "pcs t = Idle" "wk_exec ty moves log (pcs(t := Pop_load)) W = Some (log', pcs', W')"
      using Cons.prems(1) by (simp_all split: mp_pc.splits)
    then show ?thesis using Cons.IH wk_call_pop [OF Cons.prems(2)] by blast
  next
    case (Go t n)
    then obtain es pc W1 where c: "wk_choice t False n (pcs t) W" and s: "wk_step ty t False n (pcs t) W = Some (es, pc, W1)"
      and e: "wk_exec ty moves (log @ es) (pcs(t := pc)) W1 = Some (log', pcs', W')"
      using Cons.prems(1) by (auto split: if_splits bind_splits simp del: fun_upd_apply)
    show ?thesis
    proof (cases "pcs t = Idle")
      case True
      then have "log @ es = log" "pcs(t := pc) = pcs" "W1 = W" using s by auto
      then show ?thesis using Cons.IH e Cons.prems(2) by simp
    next
      case False
      then show ?thesis using Cons.IH [OF e] wk_thread [OF Cons.prems(2) False c s] by blast
    qed
  qed
qed

text \<open>
  Thread 0 pushes 7 and thread 1 pops it; thread 2 then reads the index of the producers as it
  was at first, and finds from the counter of the cell that this ticket has been taken.
\<close>

definition wk_demo_moves :: "int wk_move list" where
  "wk_demo_moves = [Call_push 0 7, Go 0 0, Go 0 0, Go 0 0, Go 0 0, Go 0 0, Call_pop 1, Go 1 0, Go 1 1, Go 1 0, Go 1 0, Go 1 0,
     Call_push 2 8, Go 2 0, Go 2 1]"

lemma wk_demo_run:
  "\<exists>pcs W. wk_run \<lparr>is_trivial = False, residue = id\<rparr> mp_demo
     [Enqueued (7 :: int), Push_returns True, Dequeued, Pop_returns (Some (0, 7))] pcs W \<and> pcs 2 = Push_load 8"
proof -
  have "map_option (\<lambda>(log, pcs, W). (log, pcs 2))
      (wk_exec \<lparr>is_trivial = False, residue = id\<rparr> wk_demo_moves [] (\<lambda>_. Idle) (wk_start mp_demo)) =
    Some ([Enqueued (7 :: int), Push_returns True, Dequeued, Pop_returns (Some (0, 7))], Push_load 8)"
    by code_simp
  then show ?thesis using wk_exec_run [OF _ wk_begin] by (auto simp: map_option_case split: option.splits) blast
qed

section \<open>Properties\<close>

text \<open>
  C1. With the memory orders of the code, stale loads included, any number of producers and
  consumers and up to \<open>2^62\<close> elements: no thread is stuck or reaches undefined behaviour, in
  particular every construction, move and destruction in a cell happens after all earlier
  ones in that cell, so that none is a data race, and each store to a counter is by a
  thread that has seen the newest value; at most \<open>capacity()\<close> tickets are outstanding; every
  pop that succeeds returns the element enqueued with its ticket, no ticket twice; and when
  no operation is in progress no element is lost or duplicated.
\<close>

theorem mpmc_release_acquire:
  assumes "mp_constructed nw csz capacity s0" "wk_run ty s0 log pcs W" "length (mp_pushed log) \<le> 2 ^ 62"
  shows "(\<exists>n. wk_choice t spurious n (pcs t) W) \<and>
    (wk_choice t spurious n (pcs t) W \<longrightarrow> wk_step ty t spurious n (pcs t) W \<noteq> None) \<and>
    length (mp_pushed log) \<le> mp_claims log + unat (mp_capacity s0) \<and> unat capacity \<le> unat (mp_capacity s0) \<and>
    distinct (map fst (mp_returned log)) \<and>
    (\<forall>k x. (k, x) \<in> set (mp_returned log) \<longrightarrow> k < mp_claims log \<and> k < length (mp_pushed log) \<and> x = mp_pushed log ! k) \<and>
    (pcs = (\<lambda>_. Idle) \<longrightarrow>
       mset (mp_pushed log) = mset (map snd (mp_returned log)) + mset (mp_contents (wk_newest W)))"
proof -
  let ?c = "unat (mp_capacity s0)"
  note C = mp_constructed_inv(1) [OF assms(1), of ty] mp_constructed_inv(2,3) [OF assms(1)]
  have I: "wk_inv ty ?c log pcs W" using wk_run_inv [OF assms(2) C(1)] assms(3) C(2) by simp
  then obtain phase where J: "mp_inv ty ?c log pcs (wk_newest W) phase" using wk_invE by metis
  have "unat (mp_capacity (wk_newest W)) = ?c" by (rule mp_shapeD(3) [OF mp_invD(1) [OF J]])
  then have "mset (mp_pushed log) = mset (map snd (mp_returned log)) + mset (mp_contents (wk_newest W))"
    if "pcs = (\<lambda>_. Idle)"
    using mp_inv_conserves [of ty "wk_newest W" log phase] J that by auto
  moreover have "wk_step ty t spurious n (pcs t) W \<noteq> None" if "wk_choice t spurious n (pcs t) W"
    using wk_step_inv [OF I that] by auto
  ultimately show ?thesis
    using wk_choice_exists [OF I] mp_inv_delivers [OF J] C(3) by (meson order.strict_trans2)
qed

theorem mpmc_release_acquire_witness:
  "\<exists>pcs W. wk_run \<lparr>is_trivial = False, residue = id\<rparr> mp_demo
     [Enqueued (7 :: int), Push_returns True, Dequeued, Pop_returns (Some (0, 7))] pcs W \<and> pcs 2 = Push_load 8 \<and>
     (\<exists>n. wk_choice 2 False n (pcs 2) W)"
proof -
  obtain pcs W where r: "wk_run \<lparr>is_trivial = False, residue = id\<rparr> mp_demo
     [Enqueued (7 :: int), Push_returns True, Dequeued, Pop_returns (Some (0, 7))] pcs W" "pcs 2 = Push_load 8"
    using wk_demo_run by blast
  have "\<exists>n. wk_choice 2 False n (pcs 2) W"
    using mpmc_release_acquire [OF mp_demo_new r(1), where t = 2 and spurious = False and n = 0] by simp
  with r show ?thesis by blast
qed

end
