(* ===== verification/MpmcThrowing.thy ===== *)
theory MpmcThrowing
  imports MpmcRing "HOL-Library.Countable"
begin

text \<open>
  \<open>mpmc_ring_buffer<T>\<close> with elements whose constructor may throw. \<open>try_emplace\<close> constructs the
  element after it has claimed the cell, so that an exception leaves a cell that is
  claimed and never published; the thread is free to call the ring again. The parameter \<open>ok w x\<close>
  tells whether the construction of \<open>x\<close> with the ticket \<open>w\<close> succeeds.

  A run with exceptions is a run of \<open>MpmcRing\<close> with more threads: what an exception leaves is
  a thread that has stopped before its construction, and the thread goes on under a new
  number. All that is known of those runs carries over.
\<close>

section \<open>Steps and runs\<close>

text \<open>A step ends with events or with an exception that leaves \<open>try_emplace\<close>.\<close>

definition mpt_step :: "(usize \<Rightarrow> 'a \<Rightarrow> bool) \<Rightarrow> 'a elem_type \<Rightarrow> bool \<Rightarrow> 'a mp_pc \<Rightarrow> 'a mpmc \<Rightarrow>
    ((exn + 'a mp_event list) \<times> 'a mp_pc \<times> 'a mpmc) option" where
  "mpt_step ok ty spurious pc s =
     (case pc of
        Push_construct x w \<Rightarrow>
          if ok w x then map_option (map_prod Inr id) (mp_step ty spurious pc s) else Some (Inl Element_error, Idle, s)
      | _ \<Rightarrow> map_option (map_prod Inr id) (mp_step ty spurious pc s))"

text \<open>\<open>lost\<close> lists the tickets whose construction has thrown, with the argument.\<close>

inductive mpt_run :: "(usize \<Rightarrow> 'a \<Rightarrow> bool) \<Rightarrow> 'a elem_type \<Rightarrow> 'a mpmc \<Rightarrow> 'a mp_event list \<Rightarrow> (usize \<times> 'a) list \<Rightarrow>
    (nat \<Rightarrow> 'a mp_pc) \<Rightarrow> 'a mpmc \<Rightarrow> bool"
  for ok ty s0 where
  mpt_start: "mpt_run ok ty s0 [] [] (\<lambda>_. Idle) s0"
| mpt_call_push: "mpt_run ok ty s0 log lost pcs s \<Longrightarrow> pcs t = Idle \<Longrightarrow> mpt_run ok ty s0 log lost (pcs(t := Push_load x)) s"
| mpt_call_pop: "mpt_run ok ty s0 log lost pcs s \<Longrightarrow> pcs t = Idle \<Longrightarrow> mpt_run ok ty s0 log lost (pcs(t := Pop_load)) s"
| mpt_thread: "mpt_run ok ty s0 log lost pcs s \<Longrightarrow> pcs t \<noteq> Idle \<Longrightarrow> mpt_step ok ty spurious (pcs t) s = Some (Inr es, pc, s') \<Longrightarrow>
    mpt_run ok ty s0 (log @ es) lost (pcs(t := pc)) s'"
| mpt_throws: "mpt_run ok ty s0 log lost pcs s \<Longrightarrow> pcs t = Push_construct x w \<Longrightarrow>
    mpt_step ok ty spurious (pcs t) s = Some (Inl e, pc, s') \<Longrightarrow>
    mpt_run ok ty s0 log (lost @ [(w, x)]) (pcs(t := pc)) s'"

lemma mpt_step_Inr:
  "mpt_step ok ty spurious pc s = Some (Inr es, pc', s') \<Longrightarrow> mp_step ty spurious pc s = Some (es, pc', s')"
  by (auto simp: mpt_step_def split: mp_pc.splits if_splits)

lemma mpt_step_Inl:
  "mpt_step ok ty spurious pc s = Some (Inl e, pc', s') \<Longrightarrow> pc' = Idle \<and> s' = s \<and> e = Element_error"
  by (auto simp: mpt_step_def split: mp_pc.splits if_splits)

lemma mpt_step_defined: "mp_step ty spurious pc s \<noteq> None \<Longrightarrow> mpt_step ok ty spurious pc s \<noteq> None"
  by (auto simp: mpt_step_def split: mp_pc.splits)

section \<open>Stopped threads\<close>

text \<open>
  \<open>mpt_sim pcs lost pcs'\<close>: with the number of times that each thread has thrown, \<open>pcs'\<close> has what
  the threads of \<open>pcs\<close> do and, under their earlier numbers, the constructions that threw.
\<close>

definition mpt_sim :: "(nat \<Rightarrow> 'a mp_pc) \<Rightarrow> (usize \<times> 'a) list \<Rightarrow> (nat \<Rightarrow> 'a mp_pc) \<Rightarrow> (nat \<Rightarrow> nat) \<Rightarrow> bool" where
  "mpt_sim pcs lost pcs' n \<longleftrightarrow> (\<forall>t. pcs' (prod_encode (t, n t)) = pcs t) \<and>
     (\<forall>t m. n t < m \<longrightarrow> pcs' (prod_encode (t, m)) = Idle) \<and>
     (\<forall>w x. (w, x) \<in> set lost \<longrightarrow> (\<exists>t m. m < n t \<and> pcs' (prod_encode (t, m)) = Push_construct x w))"

lemma mpt_sim_step:
  assumes "mpt_sim pcs lost pcs' n"
  shows "mpt_sim (pcs(t := pc)) lost (pcs'(prod_encode (t, n t) := pc)) n"
proof -
  have "\<exists>u m. m < n u \<and> (pcs'(prod_encode (t, n t) := pc)) (prod_encode (u, m)) = Push_construct x w"
    if l: "(w, x) \<in> set lost" for w x
  proof -
    obtain u m where u: "m < n u" "pcs' (prod_encode (u, m)) = Push_construct x w"
      using assms l unfolding mpt_sim_def by metis
    then have "(pcs'(prod_encode (t, n t) := pc)) (prod_encode (u, m)) = Push_construct x w" by auto
    then show ?thesis using u(1) by blast
  qed
  then show ?thesis using assms by (auto simp: mpt_sim_def)
qed

lemma mpt_sim_throw:
  assumes "mpt_sim pcs lost pcs' n" "pcs t = Push_construct x w"
  shows "mpt_sim (pcs(t := Idle)) (lost @ [(w, x)]) pcs' (n(t := Suc (n t)))"
proof -
  have "pcs' (prod_encode (t, n t)) = Push_construct x w" using assms by (simp add: mpt_sim_def)
  then have "\<exists>u m. m < (n(t := Suc (n t))) u \<and> pcs' (prod_encode (u, m)) = Push_construct x w"
    by (intro exI [of _ t] exI [of _ "n t"]) simp
  moreover have "\<exists>u m. m < (n(t := Suc (n t))) u \<and> pcs' (prod_encode (u, m)) = Push_construct y v" if l: "(v, y) \<in> set lost" for v y
  proof -
    obtain u m where u: "m < n u" "pcs' (prod_encode (u, m)) = Push_construct y v"
      using assms(1) l unfolding mpt_sim_def by metis
    then have "m < (n(t := Suc (n t))) u" by (cases "u = t") auto
    then show ?thesis using u(2) by blast
  qed
  ultimately have "\<forall>v y. (v, y) \<in> set (lost @ [(w, x)]) \<longrightarrow>
      (\<exists>u m. m < (n(t := Suc (n t))) u \<and> pcs' (prod_encode (u, m)) = Push_construct y v)" by auto
  then show ?thesis using assms(1) by (auto simp: mpt_sim_def simp del: set_append)
qed

lemma mpt_run_sim:
  "mpt_run ok ty s0 log lost pcs s \<Longrightarrow> \<exists>pcs' n. mp_run ty s0 log pcs' s \<and> mpt_sim pcs lost pcs' n"
proof (induction rule: mpt_run.induct)
  case mpt_start
  have "mpt_sim (\<lambda>_. Idle) [] (\<lambda>_. Idle) (\<lambda>_. 0)" by (simp add: mpt_sim_def)
  then show ?case using mp_start by blast
next
  case (mpt_call_push log lost pcs s t x)
  then obtain pcs' n where S: "mp_run ty s0 log pcs' s" "mpt_sim pcs lost pcs' n" by metis
  have "pcs' (prod_encode (t, n t)) = Idle" using S(2) mpt_call_push.hyps(2) by (simp add: mpt_sim_def)
  from mp_call_push [OF S(1) this] mpt_sim_step [OF S(2)] show ?case by metis
next
  case (mpt_call_pop log lost pcs s t)
  then obtain pcs' n where S: "mp_run ty s0 log pcs' s" "mpt_sim pcs lost pcs' n" by metis
  have "pcs' (prod_encode (t, n t)) = Idle" using S(2) mpt_call_pop.hyps(2) by (simp add: mpt_sim_def)
  from mp_call_pop [OF S(1) this] mpt_sim_step [OF S(2)] show ?case by metis
next
  case (mpt_thread log lost pcs s t spurious es pc s')
  then obtain pcs' n where S: "mp_run ty s0 log pcs' s" "mpt_sim pcs lost pcs' n" by metis
  have e: "pcs' (prod_encode (t, n t)) = pcs t" using S(2) by (simp add: mpt_sim_def)
  have "mp_run ty s0 (log @ es) (pcs'(prod_encode (t, n t) := pc)) s'"
    by (rule mp_thread [OF S(1)]) (use e mpt_thread.hyps(2) mpt_step_Inr [OF mpt_thread.hyps(3)] in simp_all)
  then show ?case using mpt_sim_step [OF S(2)] by metis
next
  case (mpt_throws log lost pcs s t x w spurious e pc s')
  then obtain pcs' n where S: "mp_run ty s0 log pcs' s" "mpt_sim pcs lost pcs' n" by metis
  from mpt_sim_throw [OF S(2) mpt_throws.hyps(2)] S(1) mpt_step_Inl [OF mpt_throws.hyps(3)] show ?case by metis
qed

section \<open>A cell that is never published\<close>

lemma mp_stopped:
  assumes I: "mp_inv ty c log pcs s phase" and pc: "pcs u = Push_construct x w"
  shows "unat w < length (mp_pushed log)" "x = mp_pushed log ! unat w" "mp_claims log \<le> unat w"
    "length (mp_pushed log) \<le> unat w + c"
    "unat w = mp_claims log \<Longrightarrow> mp_step ty spurious (Pop_check (mp_head s)) s = Some ([Pop_returns None], Idle, s)"
    "length (mp_pushed log) = unat w + c \<Longrightarrow>
      mp_step ty spurious (Push_check y (mp_tail s)) s = Some ([Push_returns False], Idle, s)"
proof -
  note S = mp_invD(1) [OF I]
  obtain j where j: "j < length (mp_pushed log)" "w = of_nat j" "x = mp_pushed log ! j" "phase (j mod c) = (j, Claimed u)"
    using mp_invD(5) [OF I, of u] pc by auto
  have b: "j < 2 ^ 63" "Suc j < 2 ^ 63" "length (mp_pushed log) < 2 ^ 63" using j(1) mp_shapeD(1,10) [OF S] by simp_all
  have w: "unat w = j" using j(2) b(1) by (simp add: unat_of_nat_usize below63)
  have cell: "j mod c < c" using mp_cell_ticket(2) [OF S b(1)] .
  note C = mp_cellsD(3) [OF mp_invD(2) [OF I] cell j(4)]
  show "unat w < length (mp_pushed log)" "x = mp_pushed log ! unat w" "mp_claims log \<le> unat w" "length (mp_pushed log) \<le> unat w + c"
    using j w C by simp_all
  show "mp_step ty spurious (Pop_check (mp_head s)) s = Some ([Pop_returns None], Idle, s)" if "unat w = mp_claims log"
  proof -
    have h: "mp_head s = of_nat j" "mp_head s + 1 = of_nat (Suc j)" using mp_shapeD(8) [OF S] that w by simp_all
    then show ?thesis using mp_load_ticket [OF S b(1)] ticket_diff [OF b(1,2)] j(4) by (simp del: of_nat_Suc)
  qed
  show "mp_step ty spurious (Push_check y (mp_tail s)) s = Some ([Push_returns False], Idle, s)"
    if "length (mp_pushed log) = unat w + c"
  proof -
    have "length (mp_pushed log) mod c = j mod c" using that w by simp
    then show ?thesis
      using mp_load_ticket [OF S b(3)] ticket_diff [OF b(1,3)] j(1,4) mp_shapeD(7) [OF S] by simp
  qed
qed

section \<open>Properties\<close>

text \<open>
  C9. Any number of producers and consumers of the ring for many threads, with elements whose
  construction may throw: nothing is undefined, pops return what was enqueued with their
  ticket and no ticket twice. But a construction that throws stops the ring for good: no pop
  ever gets to its ticket \<open>w\<close> or a later one, at most \<open>capacity() - 1\<close> more elements are ever
  enqueued, and once these limits are reached \<open>try_pop\<close> reports an empty ring and \<open>try_push\<close>
  a full one, while elements that were pushed later are in the ring.
\<close>

theorem mpmc_throwing_constructor:
  assumes "mp_constructed nw csz capacity s0" "mpt_run ok ty s0 log lost pcs s" "length (mp_pushed log) \<le> 2 ^ 62"
  shows "mpt_step ok ty spurious (pcs t) s \<noteq> None \<and> distinct (map fst (mp_returned log)) \<and>
    (\<forall>k x. (k, x) \<in> set (mp_returned log) \<longrightarrow> k < mp_claims log \<and> x = mp_pushed log ! k) \<and>
    (\<forall>w x. (w, x) \<in> set lost \<longrightarrow> unat w < length (mp_pushed log) \<and> x = mp_pushed log ! unat w \<and>
      (\<forall>k y. (k, y) \<in> set (mp_returned log) \<longrightarrow> k < unat w) \<and>
      length (mp_pushed log) \<le> unat w + unat (mp_capacity s) \<and>
      (unat w = mp_claims log \<longrightarrow> mpt_step ok ty spurious (Pop_check (mp_head s)) s = Some (Inr [Pop_returns None], Idle, s)) \<and>
      (length (mp_pushed log) = unat w + unat (mp_capacity s) \<longrightarrow>
        mpt_step ok ty spurious (Push_check y (mp_tail s)) s = Some (Inr [Push_returns False], Idle, s)))"
proof -
  obtain pcs' n where M: "mp_run ty s0 log pcs' s" "mpt_sim pcs lost pcs' n" using mpt_run_sim [OF assms(2)] by blast
  note R = mp_run_constructed [OF assms(1) M(1) assms(3)]
  obtain phase where I: "mp_inv ty (unat (mp_capacity s)) log pcs' s phase" using R(1,2) by auto
  note D = mp_inv_delivers [OF I]
  have "mp_step ty spurious (pcs' (prod_encode (t, n t))) s \<noteq> None"
    using mp_step_inv [OF I, where t = "prod_encode (t, n t)" and sp = spurious] by blast
  then have "mpt_step ok ty spurious (pcs t) s \<noteq> None" using M(2) by (intro mpt_step_defined) (simp add: mpt_sim_def)
  moreover have "unat w < length (mp_pushed log) \<and> x = mp_pushed log ! unat w \<and>
      (\<forall>k y. (k, y) \<in> set (mp_returned log) \<longrightarrow> k < unat w) \<and>
      length (mp_pushed log) \<le> unat w + unat (mp_capacity s) \<and>
      (unat w = mp_claims log \<longrightarrow> mpt_step ok ty spurious (Pop_check (mp_head s)) s = Some (Inr [Pop_returns None], Idle, s)) \<and>
      (length (mp_pushed log) = unat w + unat (mp_capacity s) \<longrightarrow>
        mpt_step ok ty spurious (Push_check y (mp_tail s)) s = Some (Inr [Push_returns False], Idle, s))"
    if lost: "(w, x) \<in> set lost" for w x
  proof -
    obtain u where u: "pcs' u = Push_construct x w" using M(2) lost unfolding mpt_sim_def by metis
    note P = mp_stopped [OF I u]
    have "k < unat w" if "(k, z) \<in> set (mp_returned log)" for k z using D(4) [OF that] P(3) by simp
    then show ?thesis using P by (simp add: mpt_step_def)
  qed
  ultimately show ?thesis using D(3,4) by simp
qed

text \<open>On the ring of two cells: the only construction throws, a second element is pushed, a pop finds nothing.\<close>

lemma mpt_demo_run:
  "mpt_run (\<lambda>w x. w \<noteq> 0) ty mp_demo [Enqueued 7] [(0, 7)] (\<lambda>_. Idle) (mp_demo\<lparr>mp_tail := 1\<rparr>)"
proof -
  let ?ok = "\<lambda>w (x :: int). w \<noteq> (0 :: usize)"
  have "mpt_run ?ok ty mp_demo [] [] ((\<lambda>_. Idle)(0 := Push_load 7)) mp_demo"
    by (rule mpt_call_push [OF mpt_start]) simp
  from mpt_thread [OF this, of 0 False "[]" "Push_check 7 0" mp_demo]
  have "mpt_run ?ok ty mp_demo [] [] ((\<lambda>_. Idle)(0 := Push_check 7 0)) mp_demo" by (simp add: mp_demo_def mpt_step_def)
  from mpt_thread [OF this, of 0 False "[]" "Push_claim 7 0" mp_demo]
  have "mpt_run ?ok ty mp_demo [] [] ((\<lambda>_. Idle)(0 := Push_claim 7 0)) mp_demo"
    by (simp add: mp_demo_def mp_load_seq_def mp_cell_def intptr_diff_def mpt_step_def)
  from mpt_thread [OF this, of 0 False "[Enqueued 7]" "Push_construct 7 0" "mp_demo\<lparr>mp_tail := 1\<rparr>"]
  have "mpt_run ?ok ty mp_demo [Enqueued 7] [] ((\<lambda>_. Idle)(0 := Push_construct 7 0)) (mp_demo\<lparr>mp_tail := 1\<rparr>)"
    by (simp add: mp_demo_def mpt_step_def)
  from mpt_throws [OF this, of 0 7 0 False Element_error Idle "mp_demo\<lparr>mp_tail := 1\<rparr>"] show ?thesis
    by (simp add: mpt_step_def)
qed

theorem mpmc_throwing_constructor_witness:
  "mpt_step (\<lambda>w x. w \<noteq> 0) \<lparr>is_trivial = False, residue = id\<rparr> True (Pop_check 0) (mp_demo\<lparr>mp_tail := 1\<rparr>) =
     Some (Inr [Pop_returns None], Idle, mp_demo\<lparr>mp_tail := 1\<rparr>)"
proof -
  have "mp_head (mp_demo\<lparr>mp_tail := 1\<rparr>) = 0" by (simp add: mp_demo_def)
  then show ?thesis
    using mpmc_throwing_constructor [OF mp_demo_new mpt_demo_run, of "\<lparr>is_trivial = False, residue = id\<rparr>" True 0] by simp
qed

end
