(* ===== verification/Spinlock.thy ===== *)
theory Spinlock
  imports HpcInterfaces
begin

text \<open>
  \<open>hpc::core::ttas_spinlock\<close> (\<open>include/hpc/core/ttas_spinlock.hpp\<close>): a test-test-and-set
  lock with exponential backoff. \<open>sl_step\<close> is one atomic access or one iteration of \<open>pause\<close>
  by one thread, by cases of its program counter; \<open>sl_trans\<close> interleaves any number of
  threads. The interleavings are sequentially consistent; \<open>SpinlockReleaseAcquire\<close> has the
  memory orders of the code. A thread calls \<open>unlock\<close> only
  while it holds the lock, as the class requires of its users.
\<close>

section \<open>State and steps\<close>

definition sl_max_backoff :: usize where
  "sl_max_backoff = push_bit 16 1"

text \<open>
  \<open>Test b\<close> is before the relaxed load, \<open>Pause i b\<close> in iteration \<open>i\<close> of \<open>pause(b)\<close>,
  \<open>Swap b\<close> before the compare-exchange of \<open>lock\<close>, \<open>Try\<close> before that of \<open>try_lock\<close>.
\<close>

datatype sl_pc = Outside | Test usize | Pause usize usize | Swap usize | Try | Holding

fun sl_step :: "sl_pc \<Rightarrow> bool \<Rightarrow> sl_pc \<times> bool" where
  "sl_step Outside flag = (Outside, flag)"
| "sl_step (Test backoff) flag = (if flag then Pause 0 backoff else Swap backoff, flag)"
| "sl_step (Pause i backoff) flag =
     (if i < backoff then Pause (i + 1) backoff else Test (min (backoff * 2) sl_max_backoff), flag)"
| "sl_step (Swap backoff) flag = (if flag then (Test backoff, flag) else (Holding, True))"
| "sl_step Try flag = (if flag then (Outside, flag) else (Holding, True))"
| "sl_step Holding flag = (Holding, flag)"

record sl_state =
  sl_flag :: bool
  sl_pcs :: "nat \<Rightarrow> sl_pc"

definition sl_init :: sl_state where
  "sl_init = \<lparr>sl_flag = False, sl_pcs = \<lambda>_. Outside\<rparr>"

text \<open>\<open>unlock()\<close> is one store.\<close>

definition sl_unlock :: "sl_state \<Rightarrow> sl_state" where
  "sl_unlock s = s\<lparr>sl_flag := False\<rparr>"

inductive sl_trans :: "sl_state \<Rightarrow> sl_state \<Rightarrow> bool" where
  sl_call_lock: "sl_pcs s t = Outside \<Longrightarrow> sl_trans s (s\<lparr>sl_pcs := (sl_pcs s)(t := Test 1)\<rparr>)"
| sl_call_try_lock: "sl_pcs s t = Outside \<Longrightarrow> sl_trans s (s\<lparr>sl_pcs := (sl_pcs s)(t := Try)\<rparr>)"
| sl_thread: "sl_step (sl_pcs s t) (sl_flag s) = (pc, flag) \<Longrightarrow>
    sl_trans s \<lparr>sl_flag = flag, sl_pcs = (sl_pcs s)(t := pc)\<rparr>"
| sl_call_unlock: "sl_pcs s t = Holding \<Longrightarrow> sl_trans s (sl_unlock (s\<lparr>sl_pcs := (sl_pcs s)(t := Outside)\<rparr>))"

inductive_cases sl_transE [consumes 1, case_names call_lock call_try_lock thread call_unlock]: "sl_trans s s'"

section \<open>The invariant\<close>

text \<open>The flag is set exactly while a thread holds the lock; backoffs are powers of two up to \<open>2^16\<close>.\<close>

definition sl_backoff_ok :: "usize \<Rightarrow> bool" where
  "sl_backoff_ok b \<longleftrightarrow> (\<exists>k \<le> 16. unat b = 2 ^ k)"

fun sl_pc_ok :: "sl_pc \<Rightarrow> bool" where
  "sl_pc_ok (Test b) \<longleftrightarrow> sl_backoff_ok b"
| "sl_pc_ok (Pause i b) \<longleftrightarrow> sl_backoff_ok b \<and> i \<le> b"
| "sl_pc_ok (Swap b) \<longleftrightarrow> sl_backoff_ok b"
| "sl_pc_ok pc \<longleftrightarrow> True"

definition sl_inv :: "sl_state \<Rightarrow> bool" where
  "sl_inv s \<longleftrightarrow> (\<forall>t. sl_pcs s t = Holding \<longrightarrow> sl_flag s) \<and>
     (sl_flag s \<longrightarrow> (\<exists>!t. sl_pcs s t = Holding)) \<and> (\<forall>t. sl_pc_ok (sl_pcs s t))"

lemma unat_max_backoff: "unat sl_max_backoff = 2 ^ 16"
  by (simp add: sl_max_backoff_def)

lemma sl_backoff_bound: "sl_backoff_ok b \<Longrightarrow> unat b \<le> 2 ^ 16"
  unfolding sl_backoff_ok_def by (metis power_increasing one_le_numeral)

lemma sl_backoff_double: "sl_backoff_ok b \<Longrightarrow> sl_backoff_ok (min (b * 2) sl_max_backoff)"
proof -
  assume "sl_backoff_ok b"
  then obtain k where k: "k \<le> 16" "unat b = 2 ^ k" by (auto simp: sl_backoff_ok_def)
  then have "unat b * 2 < 2 ^ 64" using power_increasing [of k 16 "2 :: nat"] by simp
  then have d: "unat (b * 2) = 2 ^ Suc k" using k(2) by (simp add: unat_word_ariths)
  show ?thesis
  proof (cases "k < 16")
    case True
    then have "(2 :: nat) ^ Suc k \<le> 2 ^ 16" by (intro power_increasing) simp_all
    then have "min (b * 2) sl_max_backoff = b * 2" by (simp add: min_def word_le_nat_alt d unat_max_backoff)
    then show ?thesis using d True unfolding sl_backoff_ok_def by (intro exI [of _ "Suc k"]) simp
  next
    case False
    then have "k = 16" using k(1) by simp
    then have "\<not> b * 2 \<le> sl_max_backoff" by (simp add: word_le_nat_alt d unat_max_backoff)
    then show ?thesis unfolding sl_backoff_ok_def by (intro exI [of _ 16]) (simp add: min_def unat_max_backoff)
  qed
qed

lemma sl_step_ok: "sl_pc_ok pc \<Longrightarrow> sl_step pc flag = (pc', flag') \<Longrightarrow> sl_pc_ok pc'"
  by (cases pc)
     (auto simp: sl_backoff_double word_le_nat_alt word_less_nat_alt unat_plus1 split: if_splits)

lemma sl_step_holding:
  assumes "sl_step pc flag = (pc', flag')"
  shows "pc' = Holding \<longleftrightarrow> pc = Holding \<or> \<not> flag \<and> flag'" "flag' \<longleftrightarrow> flag \<or> pc \<noteq> Holding \<and> pc' = Holding"
  using assms by (cases pc; auto split: if_splits)+

lemma sl_inv_frame:
  assumes "sl_inv s" "sl_pcs s t \<noteq> Holding" "pc \<noteq> Holding" "sl_pc_ok pc"
  shows "sl_inv (s\<lparr>sl_pcs := (sl_pcs s)(t := pc)\<rparr>)"
proof -
  have "((sl_pcs s)(t := pc)) u = Holding \<longleftrightarrow> sl_pcs s u = Holding" for u using assms(2,3) by auto
  then show ?thesis using assms(1,4) by (simp add: sl_inv_def)
qed

lemma sl_inv_trans:
  assumes "sl_inv s" "sl_trans s s'"
  shows "sl_inv s'"
  using assms(2)
proof (cases rule: sl_transE)
  case (call_lock t)
  have "sl_pc_ok (Test 1)" by (auto simp: sl_backoff_ok_def intro!: exI [of _ 0])
  with call_lock show ?thesis using sl_inv_frame [OF assms(1), of t "Test 1"] by simp
next
  case (call_try_lock t)
  then show ?thesis using sl_inv_frame [OF assms(1), of t Try] by simp
next
  case (thread t pc flag)
  note h = sl_step_holding [OF thread(2)] and ok = sl_step_ok [OF _ thread(2)]
  have pcs: "\<forall>u. sl_pc_ok (((sl_pcs s)(t := pc)) u)" using ok assms(1) by (simp add: sl_inv_def)
  show ?thesis
  proof (cases "sl_flag s")
    case True
    then have same: "((sl_pcs s)(t := pc)) u = Holding \<longleftrightarrow> sl_pcs s u = Holding" "flag" for u using h by auto
    then show ?thesis using pcs assms(1) True unfolding thread(1) sl_inv_def by simp
  next
    case False
    then have no: "sl_pcs s u \<noteq> Holding" for u using assms(1) by (auto simp: sl_inv_def)
    then have "((sl_pcs s)(t := pc)) u = Holding \<longleftrightarrow> u = t \<and> flag" for u using h False by auto
    then show ?thesis using pcs unfolding thread(1) sl_inv_def by auto
  qed
next
  case (call_unlock t)
  have "sl_pcs s u \<noteq> Holding" if "u \<noteq> t" for u
    using assms(1) call_unlock(2) that unfolding sl_inv_def by blast
  then show ?thesis using assms(1) call_unlock by (auto simp: sl_inv_def sl_unlock_def)
qed

interpretation spin: invariant_system sl_init sl_trans sl_inv
  by unfold_locales (simp add: sl_inv_def sl_init_def, erule sl_inv_trans)

section \<open>Running alone\<close>

text \<open>\<open>n\<close> steps of one thread.\<close>

fun sl_steps :: "nat \<Rightarrow> sl_pc \<Rightarrow> bool \<Rightarrow> sl_pc \<times> bool" where
  "sl_steps 0 pc flag = (pc, flag)"
| "sl_steps (Suc n) pc flag = (case sl_step pc flag of (pc', flag') \<Rightarrow> sl_steps n pc' flag')"

lemma sl_steps_Test: "sl_steps 2 (Test b) False = (Holding, True)"
  by (simp add: numeral_2_eq_2)

lemma sl_steps_Pause:
  "i \<le> b \<Longrightarrow> sl_steps (unat b - unat i + 3) (Pause i b) False = (Holding, True)"
proof (induction "unat b - unat i" arbitrary: i)
  case 0
  then have "\<not> i < b" by (simp add: word_less_nat_alt)
  then show ?case using 0 by (simp add: numeral_3_eq_3 numeral_2_eq_2)
next
  case (Suc n)
  then have l: "i < b" by (simp add: word_less_nat_alt)
  then have "unat b - unat (i + 1) = n" "i + 1 \<le> b"
    using Suc.hyps(2) by (simp_all add: unat_plus1 word_le_nat_alt word_less_nat_alt)
  then have "sl_steps (n + 3) (Pause (i + 1) b) False = (Holding, True)" using Suc.hyps(1) [of "i + 1"] by simp
  moreover have "unat b - unat i + 3 = Suc (n + 3)" using Suc.hyps(2) by simp
  ultimately show ?case using l by (simp only: sl_steps.simps sl_step.simps if_True prod.case)
qed

section \<open>Properties\<close>

text \<open>
  Mutual exclusion: in every reachable state of any number of threads at most one holds
  the lock, and the flag is set exactly when one does. A compare-exchange that succeeds, in
  \<open>lock\<close> or in \<open>try_lock\<close>, finds no holder, and one that fails finds one.
\<close>

theorem spinlock_mutual_exclusion:
  assumes "rtranclp sl_trans sl_init s"
  shows "(sl_pcs s t = Holding \<and> sl_pcs s u = Holding \<longrightarrow> t = u) \<and>
    (sl_flag s \<longleftrightarrow> (\<exists>t. sl_pcs s t = Holding)) \<and>
    (sl_pcs s t = Try \<longrightarrow> (fst (sl_step (sl_pcs s t) (sl_flag s)) = Holding \<longleftrightarrow> (\<forall>u. sl_pcs s u \<noteq> Holding)))"
  using spin.reachable_inv [OF assms] by (auto simp: sl_inv_def)

theorem spinlock_mutual_exclusion_witness:
  "\<exists>s. rtranclp sl_trans sl_init s \<and> sl_pcs s 0 = Holding \<and> (sl_pcs s 1 = Holding \<longrightarrow> (0 :: nat) = 1) \<and> sl_flag s"
proof -
  let ?s1 = "sl_init\<lparr>sl_pcs := (sl_pcs sl_init)(0 := Try)\<rparr>"
  let ?s2 = "\<lparr>sl_flag = True, sl_pcs = (sl_pcs ?s1)(0 := Holding)\<rparr>"
  have a: "sl_trans sl_init ?s1" by (rule sl_call_try_lock) (simp add: sl_init_def)
  have "sl_trans ?s1 ?s2" by (rule sl_thread) (simp add: sl_init_def)
  then have r: "rtranclp sl_trans sl_init ?s2" by (rule rtranclp.rtrancl_into_rtrancl [OF r_into_rtranclp [where r = sl_trans, OF a]])
  with spinlock_mutual_exclusion [OF r, of 0 1] show ?thesis by (intro exI [of _ ?s2]) simp
qed

text \<open>
  C12. Whenever the lock is free, a thread anywhere inside \<open>lock\<close> that runs alone acquires it
  within \<open>2^16 + 3\<close> steps: the backoff never exceeds its bound, so that no thread pauses for
  longer than \<open>2^16\<close> iterations at a time.
\<close>

theorem spinlock_acquires_when_free:
  assumes "rtranclp sl_trans sl_init s" "\<not> sl_flag s" "sl_pcs s t \<noteq> Outside"
  shows "\<exists>n \<le> 2 ^ 16 + 3. sl_steps n (sl_pcs s t) (sl_flag s) = (Holding, True)"
proof -
  have I: "sl_inv s" using spin.reachable_inv [OF assms(1)] .
  then have ok: "sl_pc_ok (sl_pcs s t)" by (simp add: sl_inv_def)
  show ?thesis
  proof (cases "sl_pcs s t")
    case (Test b)
    then show ?thesis using sl_steps_Test assms(2) by (intro exI [of _ 2]) simp
  next
    case (Pause i b)
    then have "unat b \<le> 2 ^ 16" "i \<le> b" using ok sl_backoff_bound by simp_all
    then show ?thesis using Pause sl_steps_Pause [of i b] assms(2) by (intro exI [of _ "unat b - unat i + 3"]) simp
  next
    case (Swap b)
    then show ?thesis using assms(2) by (intro exI [of _ 1]) simp
  next
    case Try
    then show ?thesis using assms(2) by (intro exI [of _ 1]) simp
  qed (use assms I in \<open>auto simp: sl_inv_def\<close>)
qed

theorem spinlock_acquires_when_free_witness:
  "\<exists>n \<le> 2 ^ 16 + 3. sl_steps n (Test 1) False = (Holding, True)"
proof -
  let ?s = "sl_init\<lparr>sl_pcs := (sl_pcs sl_init)(0 := Test 1)\<rparr>"
  have "sl_trans sl_init ?s" by (rule sl_call_lock) (simp add: sl_init_def)
  then have "rtranclp sl_trans sl_init ?s" by simp
  from spinlock_acquires_when_free [OF this, of 0] show ?thesis by (simp add: sl_init_def)
qed

end
