(* ===== verification/SpinlockReleaseAcquire.thy ===== *)
theory SpinlockReleaseAcquire
  imports Spinlock ReleaseAcquire
begin

text \<open>
  The memory orders of \<open>ttas_spinlock\<close> (\<open>include/hpc/core/ttas_spinlock.hpp\<close>) and what they
  are for: the steps of \<open>Spinlock\<close> with the order that the code gives each access, and data
  that the threads access, without further synchronisation, while they hold the lock.
\<close>

section \<open>State and steps\<close>

datatype sl_loc = Sl_flag | Sl_data

record sw_state =
  sw_mem :: "(sl_loc, bool) memory"
  sw_pcs :: "nat \<Rightarrow> sl_pc"

definition sw_init :: sw_state where
  "sw_init = \<lparr>sw_mem = ra_init (\<lambda>l. if l = Sl_flag then Some False else None), sw_pcs = \<lambda>_. Outside\<rparr>"

text \<open>
  \<open>compare_exchange_strong(false, true, acquire, relaxed)\<close> that reads the entry \<open>n\<close> of the flag.
\<close>

definition sw_cas :: "nat \<Rightarrow> nat \<Rightarrow> (sl_loc, bool) memory \<Rightarrow> bool \<times> (sl_loc, bool) memory" where
  "sw_cas t n M = (let r = ra_load Relaxed t Sl_flag n M in
     if fst r then (False, snd r) else (True, ra_exchange Acquire t Sl_flag True M))"

text \<open>The step of thread \<open>t\<close>; \<open>n\<close> is the entry of the flag that it reads.\<close>

fun sw_step :: "nat \<Rightarrow> nat \<Rightarrow> sl_pc \<Rightarrow> (sl_loc, bool) memory \<Rightarrow> sl_pc \<times> (sl_loc, bool) memory" where
  "sw_step t n Outside M = (Outside, M)"
| "sw_step t n (Test backoff) M =
     (let r = ra_load Relaxed t Sl_flag n M in (if fst r then Pause 0 backoff else Swap backoff, snd r))"
| "sw_step t n (Pause i backoff) M =
     (if i < backoff then Pause (i + 1) backoff else Test (min (backoff * 2) sl_max_backoff), M)"
| "sw_step t n (Swap backoff) M = (let r = sw_cas t n M in (if fst r then Holding else Test backoff, snd r))"
| "sw_step t n Try M = (let r = sw_cas t n M in (if fst r then Holding else Outside, snd r))"
| "sw_step t n Holding M = (Holding, M)"

text \<open>
  The entries a step may read. An exchange that succeeds acts on the newest entry: an older
  entry that says free already has its successor, written by the exchange that took the lock.
\<close>

fun sw_choice :: "nat \<Rightarrow> nat \<Rightarrow> sl_pc \<Rightarrow> (sl_loc, bool) memory \<Rightarrow> bool" where
  "sw_choice t n (Test backoff) M \<longleftrightarrow> ra_visible t Sl_flag n M"
| "sw_choice t n (Swap backoff) M \<longleftrightarrow> ra_visible t Sl_flag n M \<and>
     (\<not> msg_value (mem_order M Sl_flag ! n) \<longrightarrow> Suc n = length (mem_order M Sl_flag))"
| "sw_choice t n Try M \<longleftrightarrow> ra_visible t Sl_flag n M \<and>
     (\<not> msg_value (mem_order M Sl_flag ! n) \<longrightarrow> Suc n = length (mem_order M Sl_flag))"
| "sw_choice t n pc M \<longleftrightarrow> True"

definition sw_unlock :: "nat \<Rightarrow> (sl_loc, bool) memory \<Rightarrow> (sl_loc, bool) memory option" where
  "sw_unlock t M = ra_store Release t Sl_flag False M"

inductive sw_trans :: "sw_state \<Rightarrow> sw_state \<Rightarrow> bool" where
  sw_call_lock: "sw_pcs s t = Outside \<Longrightarrow> sw_trans s \<lparr>sw_mem = sw_mem s, sw_pcs = (sw_pcs s)(t := Test 1)\<rparr>"
| sw_call_try_lock: "sw_pcs s t = Outside \<Longrightarrow> sw_trans s \<lparr>sw_mem = sw_mem s, sw_pcs = (sw_pcs s)(t := Try)\<rparr>"
| sw_thread: "sw_choice t n (sw_pcs s t) (sw_mem s) \<Longrightarrow> sw_step t n (sw_pcs s t) (sw_mem s) = (pc, M) \<Longrightarrow>
    sw_trans s \<lparr>sw_mem = M, sw_pcs = (sw_pcs s)(t := pc)\<rparr>"
| sw_use: "sw_pcs s t = Holding \<Longrightarrow> ra_access t Sl_data (sw_mem s) = Some M \<Longrightarrow> sw_trans s (s\<lparr>sw_mem := M\<rparr>)"
| sw_call_unlock: "sw_pcs s t = Holding \<Longrightarrow> sw_unlock t (sw_mem s) = Some M \<Longrightarrow>
    sw_trans s \<lparr>sw_mem = M, sw_pcs = (sw_pcs s)(t := Outside)\<rparr>"

inductive_cases sw_transE [consumes 1, case_names call_lock call_try_lock thread use call_unlock]: "sw_trans s s'"

section \<open>The invariant\<close>

text \<open>
  The holder has seen every access to the data; while nobody holds the lock, the entry that
  says so carries them all.
\<close>

definition sw_memory_ok :: "(sl_loc, bool) memory \<Rightarrow> bool" where
  "sw_memory_ok M \<longleftrightarrow> ra_wf M \<and> mem_order M Sl_flag \<noteq> [] \<and> mem_order M Sl_data = [] \<and> mem_accesses M Sl_flag = 0 \<and>
     (\<not> ra_value M Sl_flag \<longrightarrow> msg_view (last (mem_order M Sl_flag)) Sl_data = mem_accesses M Sl_data)"

definition sw_holder_ok :: "nat \<Rightarrow> (sl_loc, bool) memory \<Rightarrow> bool" where
  "sw_holder_ok t M \<longleftrightarrow> Suc (mem_views M t Sl_flag) = length (mem_order M Sl_flag) \<and>
     mem_views M t Sl_data = mem_accesses M Sl_data"

definition sw_inv :: "sw_state \<Rightarrow> bool" where
  "sw_inv s \<longleftrightarrow> sw_memory_ok (sw_mem s) \<and>
     (ra_value (sw_mem s) Sl_flag \<longleftrightarrow> (\<exists>t. sw_pcs s t = Holding)) \<and>
     (\<forall>t u. sw_pcs s t = Holding \<longrightarrow> sw_pcs s u = Holding \<longrightarrow> t = u) \<and>
     (\<forall>t. sw_pcs s t = Holding \<longrightarrow> sw_holder_ok t (sw_mem s))"

lemma sw_invD:
  assumes "sw_inv s"
  shows "sw_memory_ok (sw_mem s)" "ra_value (sw_mem s) Sl_flag \<longleftrightarrow> (\<exists>t. sw_pcs s t = Holding)"
    "sw_pcs s t = Holding \<Longrightarrow> sw_pcs s u = Holding \<Longrightarrow> t = u" "sw_pcs s t = Holding \<Longrightarrow> sw_holder_ok t (sw_mem s)"
  using assms by (auto simp: sw_inv_def)

text \<open>A load by a thread that does not hold the lock.\<close>

lemma sw_load_ok:
  assumes "sw_memory_ok M" "ra_visible t Sl_flag n M"
  shows "sw_memory_ok (snd (ra_load Relaxed t Sl_flag n M))" "u \<noteq> t \<Longrightarrow> sw_holder_ok u M \<Longrightarrow> sw_holder_ok u (snd (ra_load Relaxed t Sl_flag n M))"
  using assms ra_load_wf [OF _ assms(2)] by (simp_all add: sw_memory_ok_def sw_holder_ok_def)

lemma sw_take_ok:
  assumes "sw_memory_ok M" "\<not> ra_value M Sl_flag"
  shows "sw_memory_ok (ra_exchange Acquire t Sl_flag True M)" "sw_holder_ok t (ra_exchange Acquire t Sl_flag True M)"
    "ra_value (ra_exchange Acquire t Sl_flag True M) Sl_flag"
proof -
  let ?M = "ra_exchange Acquire t Sl_flag True M"
  note f = ra_exchange_frame [where ord = Acquire and t = t and l = Sl_flag and x = True and M = M]
  have wf: "ra_wf M" and ne: "mem_order M Sl_flag \<noteq> []" and d: "msg_view (last (mem_order M Sl_flag)) Sl_data = mem_accesses M Sl_data"
    using assms by (simp_all add: sw_memory_ok_def)
  show v: "ra_value ?M Sl_flag" by (simp add: f(2))
  have "mem_order ?M Sl_flag \<noteq> []" by (subst f(1)) simp
  then show "sw_memory_ok ?M" using assms(1) v f(3,5) ra_exchange_wf [OF wf ne] by (simp add: sw_memory_ok_def)
  have n: "Suc (length (mem_order M Sl_flag)) = length (mem_order ?M Sl_flag)" by (subst f(1)) simp
  have "msg_view (last (mem_order M Sl_flag)) Sl_flag \<le> length (mem_order M Sl_flag)"
    using ra_wfD(2) [OF wf last_in_set [OF ne], of Sl_flag] assms(1) by (simp add: sw_memory_ok_def ra_newest_def)
  moreover have "mem_views M t Sl_data \<le> mem_accesses M Sl_data"
    using ra_wfD(1) [OF wf, of t Sl_data] assms(1) by (simp add: sw_memory_ok_def ra_newest_def)
  ultimately show "sw_holder_ok t ?M"
    using n d f(5,7) by (simp add: sw_holder_ok_def ra_read_def view_join_def)
qed

lemma sw_cas_cases:
  assumes "\<not> msg_value (mem_order M Sl_flag ! n) \<longrightarrow> Suc n = length (mem_order M Sl_flag)"
  shows "sw_cas t n M = (False, snd (ra_load Relaxed t Sl_flag n M)) \<or>
    sw_cas t n M = (True, ra_exchange Acquire t Sl_flag True M) \<and> \<not> ra_value M Sl_flag"
proof (cases "msg_value (mem_order M Sl_flag ! n)")
  case True
  then show ?thesis by (simp add: sw_cas_def Let_def ra_load_value)
next
  case False
  then have "Suc n = length (mem_order M Sl_flag)" using assms by blast
  then have "last (mem_order M Sl_flag) = mem_order M Sl_flag ! n"
    by (metis diff_Suc_1 last_conv_nth list.size(3) nat.distinct(1))
  with False show ?thesis by (simp add: sw_cas_def Let_def ra_load_value ra_value_def)
qed

text \<open>The three kinds of effects of a step.\<close>

lemma sw_inv_quiet:
  assumes "sw_inv s" "sw_pcs s t \<noteq> Holding" "pc \<noteq> Holding"
    and "M = sw_mem s \<or> (\<exists>n. ra_visible t Sl_flag n (sw_mem s) \<and> M = snd (ra_load Relaxed t Sl_flag n (sw_mem s)))"
  shows "sw_inv \<lparr>sw_mem = M, sw_pcs = (sw_pcs s)(t := pc)\<rparr>"
proof -
  note I = sw_invD [OF assms(1)]
  have h: "((sw_pcs s)(t := pc)) u = Holding \<longleftrightarrow> sw_pcs s u = Holding" for u using assms(2,3) by auto
  have "sw_memory_ok M" "ra_value M Sl_flag = ra_value (sw_mem s) Sl_flag"
    using assms(4) I(1) sw_load_ok(1) by auto
  moreover have "sw_holder_ok u M" if "sw_pcs s u = Holding" for u
    using assms(2,4) I(1) I(4) [OF that] sw_load_ok(2) [OF I(1)] that by (cases "u = t") auto
  ultimately show ?thesis using I(2,3) unfolding sw_inv_def by (auto simp: h simp del: fun_upd_apply)
qed

lemma sw_inv_load:
  assumes "sw_inv s" "sw_pcs s t \<noteq> Holding" "pc \<noteq> Holding" "ra_visible t Sl_flag n (sw_mem s)"
  shows "sw_inv \<lparr>sw_mem = snd (ra_load Relaxed t Sl_flag n (sw_mem s)), sw_pcs = (sw_pcs s)(t := pc)\<rparr>"
  by (rule sw_inv_quiet [OF assms(1-3)]) (use assms(4) in blast)

lemma sw_inv_take:
  assumes "sw_inv s" "\<not> ra_value (sw_mem s) Sl_flag"
  shows "sw_inv \<lparr>sw_mem = ra_exchange Acquire t Sl_flag True (sw_mem s), sw_pcs = (sw_pcs s)(t := Holding)\<rparr>"
proof -
  note I = sw_invD [OF assms(1)]
  have "((sw_pcs s)(t := Holding)) u = Holding \<longleftrightarrow> u = t" for u using assms(2) I(2) by auto
  then show ?thesis using sw_take_ok [OF I(1) assms(2), of t] unfolding sw_inv_def by (auto simp del: fun_upd_apply)
qed

lemma sw_inv_trans:
  assumes "sw_inv s" "sw_trans s s'"
  shows "sw_inv s'"
  using assms(2)
proof (cases rule: sw_transE)
  case (call_lock t)
  then show ?thesis using sw_inv_quiet [OF assms(1), of t "Test 1" "sw_mem s"] by simp
next
  case (call_try_lock t)
  then show ?thesis using sw_inv_quiet [OF assms(1), of t Try "sw_mem s"] by simp
next
  case (thread t n pc M)
  note load = sw_inv_load [OF assms(1), of t _ n] and same = sw_inv_quiet [OF assms(1), of t _ "sw_mem s"]
  show ?thesis
  proof (cases "sw_pcs s t")
    case Holding
    then have "s' = s" using thread by (auto intro!: sw_state.equality)
    then show ?thesis using assms(1) by simp
  next
    case (Swap backoff)
    then show ?thesis
      using thread sw_cas_cases [of "sw_mem s" n t] load sw_inv_take [OF assms(1), of t] by (auto simp: Let_def)
  next
    case Try
    then show ?thesis
      using thread sw_cas_cases [of "sw_mem s" n t] load sw_inv_take [OF assms(1), of t] by (auto simp: Let_def)
  qed (use thread load same in \<open>auto simp: Let_def split: if_splits\<close>)
next
  case (use t M)
  note I = sw_invD [OF assms(1)] and f = ra_access_frame [OF use(3)]
  have "ra_wf M" using ra_access_wf [OF use(3)] I(1) by (simp add: sw_memory_ok_def)
  moreover have "ra_value M Sl_flag" using I(2) use(2) f(2) by auto
  ultimately have "sw_memory_ok M" using I(1) f(1,3) by (simp add: sw_memory_ok_def)
  moreover have "sw_holder_ok u M" if "sw_pcs s u = Holding" for u
    using I(4) [OF that] I(3) [OF that use(2)] f(1,3,5) by (simp add: sw_holder_ok_def)
  ultimately show ?thesis using I(2,3) f(2) unfolding sw_inv_def use(1) by simp
next
  case (call_unlock t M)
  note I = sw_invD [OF assms(1)] and A = call_unlock(3) [unfolded sw_unlock_def] and f = ra_store_frame [OF call_unlock(3) [unfolded sw_unlock_def]]
  have "ra_wf M" using ra_store_wf [OF A] I(1) by (simp add: sw_memory_ok_def)
  moreover have "mem_order M Sl_flag \<noteq> []" by (subst f(1)) simp
  moreover have "msg_view (last (mem_order M Sl_flag)) Sl_data = mem_accesses M Sl_data"
    using A I(4) [OF call_unlock(2)] f(5) by (auto simp: sw_holder_ok_def ra_store_def Let_def split: if_splits)
  ultimately have "sw_memory_ok M" using I(1) f(3,5) by (simp add: sw_memory_ok_def)
  moreover have "sw_pcs s u \<noteq> Holding" if "u \<noteq> t" for u using I(3) [OF _ call_unlock(2)] that by blast
  ultimately show ?thesis using f(2) unfolding sw_inv_def call_unlock(1) by auto
qed

interpretation weak_spin: invariant_system sw_init sw_trans sw_inv
proof unfold_locales
  show "sw_inv sw_init"
    by (simp add: sw_inv_def sw_init_def sw_memory_ok_def) (simp add: ra_init_def ra_value_def)
qed (rule sw_inv_trans)

section \<open>Properties\<close>

text \<open>
  C11. With the memory orders of the code, stale loads included, and any number of threads: at
  most one holds the lock, and the newest value of the flag says whether one does; the data
  that the lock protects is never the subject of a race, since the holder has seen every
  earlier access to it, by whichever thread; and the holder can release the lock.
\<close>

theorem spinlock_release_acquire:
  assumes "rtranclp sw_trans sw_init s"
  shows "(sw_pcs s t = Holding \<and> sw_pcs s u = Holding \<longrightarrow> t = u) \<and>
    (ra_value (sw_mem s) Sl_flag \<longleftrightarrow> (\<exists>t. sw_pcs s t = Holding)) \<and>
    (sw_pcs s t = Holding \<longrightarrow> ra_access t Sl_data (sw_mem s) \<noteq> None \<and> sw_unlock t (sw_mem s) \<noteq> None)"
  using sw_invD [OF weak_spin.reachable_inv [OF assms]]
  by (auto simp: sw_holder_ok_def ra_access_def sw_unlock_def ra_store_def Let_def)

theorem spinlock_release_acquire_witness:
  "\<exists>s. rtranclp sw_trans sw_init s \<and> sw_pcs s 1 = Holding \<and> mem_accesses (sw_mem s) Sl_data = 1 \<and>
    ra_access 1 Sl_data (sw_mem s) \<noteq> None"
proof -
  let ?M1 = "snd (sw_step 0 0 Try (sw_mem sw_init))"
  let ?M2 = "the (ra_access 0 Sl_data ?M1)"
  let ?M3 = "the (sw_unlock 0 ?M2)"
  let ?M4 = "snd (sw_step 1 2 Try ?M3)"
  let ?p1 = "(\<lambda>_. Outside)(0 := Try)" and ?p2 = "(\<lambda>_. Outside)(0 := Holding)"
  let ?p4 = "(\<lambda>_ :: nat. Outside)(1 := Try)" and ?p5 = "(\<lambda>_. Outside)(1 := Holding)"
  have 1: "rtranclp sw_trans sw_init \<lparr>sw_mem = sw_mem sw_init, sw_pcs = ?p1\<rparr>"
    using sw_call_try_lock [of sw_init 0] by (intro r_into_rtranclp) (simp add: sw_init_def)
  have c: "sw_choice 0 0 Try (sw_mem sw_init)" "fst (sw_step 0 0 Try (sw_mem sw_init)) = Holding"
    by code_simp+
  have 2: "rtranclp sw_trans sw_init \<lparr>sw_mem = ?M1, sw_pcs = ?p2\<rparr>"
    using sw_thread [of 0 0 "\<lparr>sw_mem = sw_mem sw_init, sw_pcs = ?p1\<rparr>" Holding ?M1] c
    by (intro rtranclp.rtrancl_into_rtrancl [OF 1]) (simp add: prod_eq_iff)
  have "ra_access 0 Sl_data ?M1 \<noteq> None" "sw_unlock 0 ?M2 \<noteq> None" by code_simp+
  then have a: "ra_access 0 Sl_data ?M1 = Some ?M2" "sw_unlock 0 ?M2 = Some ?M3" by simp_all
  have 3: "rtranclp sw_trans sw_init \<lparr>sw_mem = ?M2, sw_pcs = ?p2\<rparr>"
    using sw_use [of "\<lparr>sw_mem = ?M1, sw_pcs = ?p2\<rparr>" 0 ?M2] a(1)
    by (intro rtranclp.rtrancl_into_rtrancl [OF 2]) simp
  have 4: "rtranclp sw_trans sw_init \<lparr>sw_mem = ?M3, sw_pcs = \<lambda>_. Outside\<rparr>"
    using sw_call_unlock [of "\<lparr>sw_mem = ?M2, sw_pcs = ?p2\<rparr>" 0 ?M3] a(2)
    by (intro rtranclp.rtrancl_into_rtrancl [OF 3]) (simp add: fun_upd_def if_distrib cong: if_cong)
  have 5: "rtranclp sw_trans sw_init \<lparr>sw_mem = ?M3, sw_pcs = ?p4\<rparr>"
    using sw_call_try_lock [of "\<lparr>sw_mem = ?M3, sw_pcs = \<lambda>_. Outside\<rparr>" 1]
    by (intro rtranclp.rtrancl_into_rtrancl [OF 4]) simp
  have d: "sw_choice 1 2 Try ?M3" "fst (sw_step 1 2 Try ?M3) = Holding" "mem_accesses ?M4 Sl_data = 1"
    by code_simp+
  have 6: "rtranclp sw_trans sw_init \<lparr>sw_mem = ?M4, sw_pcs = ?p5\<rparr>"
    using sw_thread [of 1 2 "\<lparr>sw_mem = ?M3, sw_pcs = ?p4\<rparr>" Holding ?M4] d(1,2)
    by (intro rtranclp.rtrancl_into_rtrancl [OF 5]) (simp add: prod_eq_iff)
  show ?thesis
    using spinlock_release_acquire [OF 6, of 1 1] 6 d(3)
    by (intro exI [of _ "\<lparr>sw_mem = ?M4, sw_pcs = ?p5\<rparr>"]) simp
qed

end
