(* ===== verification/Blocks.thy ===== *)
theory Blocks
  imports PowerOfTwo HpcInterfaces
begin

text \<open>
  Blocks of memory, as the allocators hand them out. A pointer is a machine address (0 is the
  null pointer) and pointer arithmetic is that of a flat address space of \<open>2^64\<close> bytes. A
  block is a pair of its first address and its length, as natural numbers.

  The heap is outside the program. \<open>heap\<close> records the addresses that \<open>operator new\<close> has
  returned and \<open>operator delete\<close> has not taken back; the address a call of \<open>operator new\<close>
  returns is a parameter of the operations that call it. \<open>fresh_block\<close> is what the standard
  promises of it.
\<close>

section \<open>The heap\<close>

type_synonym block = "nat \<times> nat"

type_synonym heap = "usize \<Rightarrow> usize option"

definition fresh_block :: "usize \<Rightarrow> usize \<Rightarrow> heap \<Rightarrow> bool" where
  "fresh_block p n h \<longleftrightarrow> (p \<noteq> 0 \<longrightarrow> h p = None \<and> unat p + unat n < 2 ^ 64)"

definition heap_new :: "usize \<Rightarrow> usize \<Rightarrow> heap \<Rightarrow> heap" where
  "heap_new p n h = (if p = 0 then h else h(p \<mapsto> n))"

text \<open>\<open>operator delete\<close> of the null pointer has no effect; deleting twice is undefined.\<close>

definition heap_delete :: "usize \<Rightarrow> heap \<Rightarrow> heap option" where
  "heap_delete p h = (if p = 0 then Some h else if h p = None then None else Some (h(p := None)))"

lemma heap_delete_new: "fresh_block p n h \<Longrightarrow> heap_delete p (heap_new p n h) = Some h"
  by (auto simp: fresh_block_def heap_delete_def heap_new_def fun_upd_idem)

section \<open>Separate blocks\<close>

definition apart :: "block \<Rightarrow> block \<Rightarrow> bool" where
  "apart a b \<longleftrightarrow> fst a + snd a \<le> fst b \<or> fst b + snd b \<le> fst a"

definition within :: "block \<Rightarrow> block \<Rightarrow> bool" where
  "within r a \<longleftrightarrow> fst r \<le> fst a \<and> fst a + snd a \<le> fst r + snd r"

fun separate :: "block list \<Rightarrow> bool" where
  "separate [] \<longleftrightarrow> True"
| "separate (b # bs) \<longleftrightarrow> list_all (apart b) bs \<and> separate bs"

lemma apart_sym: "apart a b \<longleftrightarrow> apart b a"
  by (auto simp: apart_def)

lemma separate_nth: "separate bs \<longleftrightarrow> (\<forall>i j. i < j \<and> j < length bs \<longrightarrow> apart (bs ! i) (bs ! j))"
proof (induction bs)
  case Nil
  then show ?case by simp
next
  case (Cons b bs)
  have "(\<forall>i j. i < j \<and> j < length (b # bs) \<longrightarrow> apart ((b # bs) ! i) ((b # bs) ! j)) \<longleftrightarrow>
    (\<forall>j < length bs. apart b (bs ! j)) \<and> (\<forall>i j. i < j \<and> j < length bs \<longrightarrow> apart (bs ! i) (bs ! j))"
    by (auto simp: nth_Cons split: nat.splits)
  then show ?case using Cons.IH by (simp add: list_all_length)
qed

lemma separate_append:
  "separate (as @ bs) \<longleftrightarrow> separate as \<and> separate bs \<and> (\<forall>a \<in> set as. list_all (apart a) bs)"
  by (induction as) (auto simp: list_all_iff)

lemma separate_rev [simp]: "separate (rev bs) \<longleftrightarrow> separate bs"
  by (induction bs) (auto simp: separate_append list_all_iff apart_sym)

lemma separate_remove1: "separate bs \<Longrightarrow> separate (remove1 b bs)"
  by (induction bs) (auto simp: list_all_iff dest: notin_set_remove1)

section \<open>Rounding to a multiple of a power of two\<close>

definition round_up :: "nat \<Rightarrow> nat \<Rightarrow> nat" where
  "round_up x a = (x + (a - 1)) div a * a"

lemma round_up_dvd [simp]: "a dvd round_up x a"
  by (simp add: round_up_def)

lemma round_up_ge: "0 < a \<Longrightarrow> x \<le> round_up x a"
  using dividend_less_times_div [of a "x + (a - 1)"] by (simp add: round_up_def mult.commute)

lemma round_up_less: "0 < a \<Longrightarrow> round_up x a < x + a"
  unfolding round_up_def by (rule le_less_trans [OF div_times_less_eq_dividend]) simp

lemma round_up_least: "0 < a \<Longrightarrow> a dvd y \<Longrightarrow> x \<le> y \<Longrightarrow> round_up x a \<le> y"
proof (rule ccontr)
  assume a: "0 < a" "a dvd y" "x \<le> y" "\<not> round_up x a \<le> y"
  have "a dvd round_up x a - y" using a(2) by simp
  moreover have "round_up x a - y < a" using round_up_less [OF a(1), of x] a(1,3) by arith
  moreover have "0 < round_up x a - y" using a(4) by simp
  ultimately show False by (meson dvd_imp_le leD)
qed

lemma round_up_idem: "0 < a \<Longrightarrow> a dvd x \<Longrightarrow> round_up x a = x"
  by (simp add: le_antisym round_up_ge round_up_least)

text \<open>The expression \<open>(x + (a - 1)) & ~(a - 1)\<close> rounds up, unless the sum wraps around.\<close>

lemma unat_and_not_mask:
  assumes "is_po2 a"
  shows "unat (x AND NOT (a - 1)) = unat x div unat a * unat a"
proof -
  have "x = (x AND (a - 1)) + (x AND NOT (a - 1))"
    by (subst disjunctive_add) (auto simp: bit_simps bit_eq_iff)
  then have "x AND NOT (a - 1) = x - (x AND (a - 1))" by (metis add_diff_cancel_left')
  moreover have "unat (x AND (a - 1)) = unat x mod unat a" by (rule unat_and_mask [OF assms])
  moreover have "x AND (a - 1) \<le> x" by (simp add: word_le_nat_alt calculation(2))
  ultimately have "unat (x AND NOT (a - 1)) = unat x - unat x mod unat a"
    by (simp add: unat_sub word_le_nat_alt)
  then show ?thesis by (simp add: minus_mod_eq_div_mult)
qed

lemma unat_round_up:
  assumes "is_po2 a" "unat x + unat a \<le> 2 ^ 64"
  shows "unat ((x + (a - 1)) AND NOT (a - 1)) = round_up (unat x) (unat a)"
proof -
  have p: "0 < unat a" by (rule is_po2_pos [OF assms(1)])
  then have m: "unat (a - 1) = unat a - 1" by (intro unat_minus1) auto
  have "unat (x + (a - 1)) = unat x + (unat a - 1)"
    using assms(2) p by (subst unat_add_small) (simp_all add: m)
  then show ?thesis by (simp add: unat_and_not_mask [OF assms(1)] round_up_def)
qed

section \<open>The contract of an allocator\<close>

text \<open>
  Requests served one after the other; the result 0 is a refusal.
\<close>

fun serve :: "('r \<Rightarrow> 's \<Rightarrow> (usize \<times> 's) option) \<Rightarrow> 'r list \<Rightarrow> 's \<Rightarrow> (usize list \<times> 's) option" where
  "serve alloc [] s = Some ([], s)"
| "serve alloc (r # rs) s = do {
     (p, s1) \<leftarrow> alloc r s;
     (ps, s2) \<leftarrow> serve alloc rs s1;
     Some (p # ps, s2)
   }"

definition granted :: "usize \<Rightarrow> nat \<Rightarrow> block list" where
  "granted p n = (if p = 0 then [] else [(unat p, n)])"

fun served :: "('r \<Rightarrow> nat) \<Rightarrow> 'r list \<Rightarrow> usize list \<Rightarrow> block list" where
  "served bytes (r # rs) (p # ps) = granted p (bytes r) @ served bytes rs ps"
| "served bytes rs ps = []"

lemma granted_simps [simp]: "granted 0 n = []" "p \<noteq> 0 \<Longrightarrow> granted p n = [(unat p, n)]"
  by (simp_all add: granted_def)

lemma rev_granted [simp]: "rev (granted p n) = granted p n"
  by (simp add: granted_def)

text \<open>
  \<open>holds s bs\<close>: in state \<open>s\<close> the blocks handed out and not returned are \<open>bs\<close>. \<open>fair\<close>
  is the precondition of a request, \<open>region\<close> the memory the allocator works in.
\<close>

locale block_allocator =
  fixes holds :: "'s \<Rightarrow> block list \<Rightarrow> bool"
    and region :: "'s \<Rightarrow> block"
    and fair :: "'r \<Rightarrow> 's \<Rightarrow> bool"
    and bytes :: "'r \<Rightarrow> nat"
    and alloc :: "'r \<Rightarrow> 's \<Rightarrow> (usize \<times> 's) option"
  assumes holds_separate: "holds s bs \<Longrightarrow> separate bs"
    and holds_within: "holds s bs \<Longrightarrow> list_all (within (region s)) bs"
    and alloc_holds: "holds s bs \<Longrightarrow> fair r s \<Longrightarrow>
      \<exists>p s'. alloc r s = Some (p, s') \<and> holds s' (granted p (bytes r) @ bs) \<and>
             region s' = region s \<and> (\<forall>r'. fair r' s \<longrightarrow> fair r' s')"
begin

lemma alloc_step:
  assumes "holds s bs" "fair r s" "alloc r s = Some (p, s')"
  shows "holds s' (granted p (bytes r) @ bs)" "region s' = region s" "fair r' s \<Longrightarrow> fair r' s'"
  using alloc_holds [OF assms(1,2)] assms(3) by auto

lemma serve_holds:
  assumes "holds s bs" "\<forall>r \<in> set rs. fair r s"
  shows "\<exists>ps s'. serve alloc rs s = Some (ps, s') \<and> holds s' (rev (served bytes rs ps) @ bs) \<and> region s' = region s"
  using assms
proof (induction rs arbitrary: s bs)
  case Nil
  then show ?case by simp
next
  case (Cons r rs)
  then obtain p s1 where 1: "alloc r s = Some (p, s1)" "holds s1 (granted p (bytes r) @ bs)"
      "region s1 = region s" "\<forall>r'. fair r' s \<longrightarrow> fair r' s1"
    using alloc_holds [of s bs r] by auto
  have "\<forall>r' \<in> set rs. fair r' s1" using Cons.prems(2) 1(4) by simp
  from Cons.IH [OF 1(2) this] show ?case using 1(1,3) by auto
qed

lemma serve_separate:
  assumes "holds s []" "\<forall>r \<in> set rs. fair r s" "serve alloc rs s = Some (ps, s')"
  shows "separate (served bytes rs ps)" "list_all (within (region s)) (served bytes rs ps)"
proof -
  have h: "holds s' (rev (served bytes rs ps))" "region s' = region s"
    using serve_holds [OF assms(1,2)] assms(3) by auto
  show "separate (served bytes rs ps)" using holds_separate [OF h(1)] by simp
  show "list_all (within (region s)) (served bytes rs ps)"
    using holds_within [OF h(1)] h(2) by (simp add: list_all_iff)
qed

end

text \<open>
  An allocator that takes blocks back. \<open>touch bs\<close> is what the owners of the blocks \<open>bs\<close> may
  do to the memory: the allocator keeps its own data in the blocks it has not handed out.
  \<open>block_run\<close> is every history of requests, returns and writes.
\<close>

inductive block_run ::
  "('r \<Rightarrow> 's \<Rightarrow> bool) \<Rightarrow> ('r \<Rightarrow> nat) \<Rightarrow> ('r \<Rightarrow> 's \<Rightarrow> (usize \<times> 's) option) \<Rightarrow> (usize \<Rightarrow> 's \<Rightarrow> 's option) \<Rightarrow>
   (block list \<Rightarrow> 's \<Rightarrow> 's \<Rightarrow> bool) \<Rightarrow> 's \<Rightarrow> 's \<Rightarrow> block list \<Rightarrow> bool"
  for fair bytes alloc free touch s0 where
  run_start: "block_run fair bytes alloc free touch s0 s0 []"
| run_acquire: "block_run fair bytes alloc free touch s0 s bs \<Longrightarrow> fair r s \<Longrightarrow> alloc r s = Some (p, s') \<Longrightarrow>
    block_run fair bytes alloc free touch s0 s' (granted p (bytes r) @ bs)"
| run_release: "block_run fair bytes alloc free touch s0 s bs \<Longrightarrow> (unat p, n) \<in> set bs \<Longrightarrow> free p s = Some s' \<Longrightarrow>
    block_run fair bytes alloc free touch s0 s' (remove1 (unat p, n) bs)"
| run_touch: "block_run fair bytes alloc free touch s0 s bs \<Longrightarrow> touch bs s s' \<Longrightarrow>
    block_run fair bytes alloc free touch s0 s' bs"

locale recycling_allocator = block_allocator holds region fair bytes alloc
  for holds :: "'s \<Rightarrow> block list \<Rightarrow> bool" and region :: "'s \<Rightarrow> block" and fair :: "'r \<Rightarrow> 's \<Rightarrow> bool"
    and bytes :: "'r \<Rightarrow> nat" and alloc :: "'r \<Rightarrow> 's \<Rightarrow> (usize \<times> 's) option" +
  fixes free :: "usize \<Rightarrow> 's \<Rightarrow> 's option"
    and touch :: "block list \<Rightarrow> 's \<Rightarrow> 's \<Rightarrow> bool"
  assumes free_holds: "holds s bs \<Longrightarrow> (unat p, n) \<in> set bs \<Longrightarrow>
      \<exists>s'. free p s = Some s' \<and> holds s' (remove1 (unat p, n) bs) \<and> region s' = region s"
    and touch_holds: "holds s bs \<Longrightarrow> touch bs s s' \<Longrightarrow> holds s' bs \<and> region s' = region s"
begin

lemma run_holds:
  "block_run fair bytes alloc free touch s0 s bs \<Longrightarrow> holds s0 [] \<Longrightarrow> holds s bs \<and> region s = region s0"
proof (induction rule: block_run.induct)
  case run_start
  then show ?case by simp
next
  case (run_acquire s bs r p s')
  then show ?case using alloc_step [of s bs r p s'] by simp
next
  case (run_release s bs p n s')
  then show ?case using free_holds [of s bs p n] by auto
next
  case (run_touch s bs s')
  then show ?case using touch_holds [of s bs s'] by simp
qed

lemma run_progress:
  assumes "block_run fair bytes alloc free touch s0 s bs" "holds s0 []"
  shows "fair r s \<Longrightarrow> alloc r s \<noteq> None" "(unat p, n) \<in> set bs \<Longrightarrow> free p s \<noteq> None"
  using run_holds [OF assms] alloc_holds [of s bs r] free_holds [of s bs p n] by auto

end

end
