(* ===== verification/Arena.thy ===== *)
theory Arena
  imports Blocks
begin

text \<open>
  \<open>hpc::core::arena\<close> and \<open>hpc::core::arena_allocator<T>\<close>
  (\<open>include/hpc/core/arena_allocator.hpp\<close>, \<open>src/arena_allocator.cpp\<close>): a bump-pointer
  arena and the allocator on top of it; \<open>hpc::core::numa_arena\<close>
  (\<open>include/hpc/core/numa_arena.hpp\<close>, \<open>src/numa_arena.cpp\<close>).

  Pointers are addresses of a flat address space, as \<open>align_ptr\<close> takes them through
  \<open>uintptr_t\<close>. The address that \<open>operator new\<close> returns is the first argument of the
  operations that call it, the heap their last.
\<close>

section \<open>State and operations\<close>

record arena =
  ar_begin :: usize
  ar_end :: usize
  ar_ptr :: usize
  ar_capacity_bytes :: usize
  ar_owns_memory :: bool

definition ar_align_ptr :: "usize \<Rightarrow> usize \<Rightarrow> usize" where
  "ar_align_ptr ptr alignment = (ptr + (alignment - 1)) AND NOT (alignment - 1)"

text \<open>The constructors: with memory of its own, and on a buffer of the caller.\<close>

definition ar_new :: "usize \<Rightarrow> usize \<Rightarrow> heap \<Rightarrow> arena \<times> heap" where
  "ar_new p capacity h =
     (\<lparr>ar_begin = p, ar_end = if p \<noteq> 0 then p + capacity else 0, ar_ptr = p,
       ar_capacity_bytes = capacity, ar_owns_memory = True\<rparr>, heap_new p capacity h)"

definition ar_wrap :: "usize \<Rightarrow> usize \<Rightarrow> arena" where
  "ar_wrap buffer capacity =
     \<lparr>ar_begin = buffer, ar_end = buffer + capacity, ar_ptr = buffer,
      ar_capacity_bytes = capacity, ar_owns_memory = False\<rparr>"

definition ar_moved_from :: arena where
  "ar_moved_from = \<lparr>ar_begin = 0, ar_end = 0, ar_ptr = 0, ar_capacity_bytes = 0, ar_owns_memory = False\<rparr>"

text \<open>The move constructor returns the new arena and what is left of the old one.\<close>

definition ar_move :: "arena \<Rightarrow> arena \<times> arena" where
  "ar_move other = (other, ar_moved_from)"

definition ar_destroy :: "arena \<Rightarrow> heap \<Rightarrow> heap option" where
  "ar_destroy s h = (if ar_owns_memory s \<and> ar_begin s \<noteq> 0 then heap_delete (ar_begin s) h else Some h)"

fun ar_assign_move :: "arena \<Rightarrow> arena operand \<Rightarrow> heap \<Rightarrow> (arena \<times> arena operand \<times> heap) option" where
  "ar_assign_move s Self h = Some (s, Self, h)"
| "ar_assign_move s (Other other) h = do {
     h' \<leftarrow> (if ar_owns_memory s \<and> ar_begin s \<noteq> 0 then heap_delete (ar_begin s) h else Some h);
     Some (other, Other ar_moved_from, h')
   }"

text \<open>\<open>arena::allocate(bytes, alignment)\<close>; the request is the pair of the two.\<close>

fun ar_allocate :: "usize \<times> usize \<Rightarrow> arena \<Rightarrow> usize \<times> arena" where
  "ar_allocate (bytes, alignment) s =
     (if ar_begin s = 0 then (0, s)
      else let aligned = ar_align_ptr (ar_ptr s) alignment
           in if ar_end s < aligned + bytes then (0, s)
              else (aligned, s\<lparr>ar_ptr := aligned + bytes\<rparr>))"

definition ar_reset :: "arena \<Rightarrow> arena" where
  "ar_reset s = s\<lparr>ar_ptr := ar_begin s\<rparr>"

definition ar_capacity :: "arena \<Rightarrow> usize" where
  "ar_capacity s = ar_capacity_bytes s"

definition ar_used :: "arena \<Rightarrow> usize" where
  "ar_used s = ar_ptr s - ar_begin s"

definition ar_data :: "arena \<Rightarrow> usize" where
  "ar_data s = ar_begin s"

text \<open>
  \<open>arena_allocator<T>\<close> holds a pointer to the arena; \<open>sz\<close> and \<open>al\<close> are \<open>sizeof(T)\<close> and
  \<open>alignof(T)\<close>. The conversion from \<open>arena_allocator<U>\<close> copies the pointer.
\<close>

record 'p arena_allocator =
  aa_arena :: 'p

definition aa_convert :: "'p arena_allocator \<Rightarrow> 'p arena_allocator" where
  "aa_convert other = \<lparr>aa_arena = aa_arena other\<rparr>"

definition aa_allocate :: "usize \<Rightarrow> usize \<Rightarrow> usize \<Rightarrow> arena \<Rightarrow> (exn + usize) \<times> arena" where
  "aa_allocate sz al n s =
     (let (p, s') = ar_allocate (n * sz, al) s in (if p = 0 then Inl Bad_alloc else Inr p, s'))"

definition aa_deallocate :: "usize \<Rightarrow> usize \<Rightarrow> arena \<Rightarrow> arena" where
  "aa_deallocate p n s = s"

definition aa_eq :: "'p arena_allocator \<Rightarrow> 'p arena_allocator \<Rightarrow> bool" where
  "aa_eq a b \<longleftrightarrow> aa_arena a = aa_arena b"

definition aa_neq :: "'p arena_allocator \<Rightarrow> 'p arena_allocator \<Rightarrow> bool" where
  "aa_neq a b \<longleftrightarrow> \<not> aa_eq a b"

section \<open>The arena as an allocator\<close>

text \<open>
  \<open>ar_valid\<close>: the pointer lies in the buffer, which does not wrap around. A request is fair
  when its alignment is a power of two and the sum that \<open>allocate\<close> computes cannot wrap.
\<close>

definition ar_valid :: "arena \<Rightarrow> bool" where
  "ar_valid s \<longleftrightarrow> 0 < ar_begin s \<and> ar_begin s \<le> ar_ptr s \<and> ar_ptr s \<le> ar_end s"

definition ar_region :: "arena \<Rightarrow> block" where
  "ar_region s = (unat (ar_begin s), unat (ar_end s) - unat (ar_begin s))"

definition ar_fair :: "usize \<times> usize \<Rightarrow> arena \<Rightarrow> bool" where
  "ar_fair r s \<longleftrightarrow> is_po2 (snd r) \<and> unat (ar_end s) + unat (snd r) + unat (fst r) \<le> 2 ^ 64"

text \<open>All blocks handed out end at or before the bump pointer.\<close>

definition ar_holds :: "arena \<Rightarrow> block list \<Rightarrow> bool" where
  "ar_holds s bs \<longleftrightarrow> ar_valid s \<and> separate bs \<and>
     (\<forall>b \<in> set bs. unat (ar_begin s) \<le> fst b \<and> fst b + snd b \<le> unat (ar_ptr s))"

text \<open>The arena as a bump allocator over natural numbers: the next free address is the state.\<close>

definition bump :: "nat \<Rightarrow> nat \<times> nat \<Rightarrow> nat \<Rightarrow> nat option \<times> nat" where
  "bump limit r q =
     (let a = round_up q (snd r) in if a + fst r \<le> limit then (Some a, a + fst r) else (None, q))"

lemma ar_validD:
  assumes "ar_valid s"
  shows "0 < unat (ar_begin s)" "unat (ar_begin s) \<le> unat (ar_ptr s)" "unat (ar_ptr s) \<le> unat (ar_end s)"
    "ar_begin s \<noteq> 0"
  using assms by (auto simp: ar_valid_def word_less_nat_alt word_le_nat_alt)

text \<open>One request.\<close>

lemma ar_allocate_bump:
  assumes "ar_valid s" "ar_fair r s" "ar_allocate r s = (p, s')"
  shows "bump (unat (ar_end s)) (unat (fst r), unat (snd r)) (unat (ar_ptr s)) =
      (if p = 0 then None else Some (unat p), unat (ar_ptr s'))"
    and "ar_valid s'" "s' = s\<lparr>ar_ptr := ar_ptr s'\<rparr>" "p = 0 \<longrightarrow> s' = s"
    and "p \<noteq> 0 \<longrightarrow> unat (ar_ptr s) \<le> unat p \<and> unat p + unat (fst r) = unat (ar_ptr s') \<and> unat (snd r) dvd unat p"
proof -
  obtain n a where r: "r = (n, a)" by (cases r)
  note v = ar_validD [OF assms(1)]
  have a: "is_po2 a" "unat (ar_end s) + unat a + unat n \<le> 2 ^ 64" using assms(2) by (simp_all add: ar_fair_def r)
  let ?q = "ar_align_ptr (ar_ptr s) a"
  have "unat (ar_ptr s) + unat a \<le> 2 ^ 64" using a(2) v(3) by linarith
  then have q: "unat ?q = round_up (unat (ar_ptr s)) (unat a)"
    unfolding ar_align_ptr_def by (rule unat_round_up [OF a(1)])
  note ge = round_up_ge [OF is_po2_pos [OF a(1)], of "unat (ar_ptr s)"]
  have "round_up (unat (ar_ptr s)) (unat a) + unat n < unat (ar_ptr s) + unat a + unat n"
    using round_up_less [OF is_po2_pos [OF a(1)]] by simp
  then have "unat ?q + unat n < 2 ^ 64" using a(2) v(3) q by linarith
  then have qn: "unat (?q + n) = unat ?q + unat n" by (rule unat_add_small)
  have q0: "?q \<noteq> 0" using q ge v(1,2) by (metis le_zero_eq linorder_not_less order_trans unat_0)
  have d: "unat a dvd unat ?q" by (simp add: q)
  show "bump (unat (ar_end s)) (unat (fst r), unat (snd r)) (unat (ar_ptr s)) =
      (if p = 0 then None else Some (unat p), unat (ar_ptr s'))"
    "ar_valid s'" "s' = s\<lparr>ar_ptr := ar_ptr s'\<rparr>" "p = 0 \<longrightarrow> s' = s"
    "p \<noteq> 0 \<longrightarrow> unat (ar_ptr s) \<le> unat p \<and> unat p + unat (fst r) = unat (ar_ptr s') \<and> unat (snd r) dvd unat p"
    using assms(1,3) v(4) q0 qn q ge d
    by (auto simp: r bump_def Let_def ar_valid_def word_less_nat_alt word_le_nat_alt split: if_splits)
qed

lemma ar_holds_allocate:
  assumes "ar_holds s bs" "ar_fair r s" "ar_allocate r s = (p, s')"
  shows "ar_holds s' (granted p (unat (fst r)) @ bs)"
proof -
  note h = assms(1) [unfolded ar_holds_def]
  note a = ar_allocate_bump [OF conjunct1 [OF h] assms(2,3)]
  show ?thesis
  proof (cases "p = 0")
    case True
    then show ?thesis using a(4) assms(1) by simp
  next
    case False
    then have p: "unat (ar_ptr s) \<le> unat p" "unat p + unat (fst r) = unat (ar_ptr s')" using a(5) by simp_all
    have "ar_begin s' = ar_begin s" using arg_cong [OF a(3), of ar_begin] by simp
    then show ?thesis using False h a(2) p ar_validD [OF conjunct1 [OF h]]
      by (fastforce simp: ar_holds_def list_all_iff apart_def)
  qed
qed

interpretation arena: block_allocator ar_holds ar_region ar_fair "\<lambda>r. unat (fst r)" "\<lambda>r s. Some (ar_allocate r s)"
proof (unfold_locales, goal_cases)
  case (1 s bs)
  then show ?case by (simp add: ar_holds_def)
next
  case (2 s bs)
  then have "unat (ar_ptr s) \<le> unat (ar_end s)" using ar_validD(3) by (simp add: ar_holds_def)
  with 2 show ?case by (fastforce simp: ar_holds_def list_all_iff within_def ar_region_def)
next
  case (3 s bs r)
  obtain p s' where a: "ar_allocate r s = (p, s')" by (cases "ar_allocate r s")
  have v: "ar_valid s" using 3(1) by (simp add: ar_holds_def)
  note e = ar_allocate_bump(3) [OF v 3(2) a]
  have "ar_begin s' = ar_begin s" "ar_end s' = ar_end s"
    using arg_cong [OF e, of ar_begin] arg_cong [OF e, of ar_end] by simp_all
  then show ?case using ar_holds_allocate [OF 3 a] a by (simp add: ar_region_def ar_fair_def)
qed

abbreviation ar_serve :: "(usize \<times> usize) list \<Rightarrow> arena \<Rightarrow> (usize list \<times> arena) option" where
  "ar_serve \<equiv> serve (\<lambda>r s. Some (ar_allocate r s))"

text \<open>A sequence of requests, concretely and abstractly.\<close>

fun bumps :: "nat \<Rightarrow> (nat \<times> nat) list \<Rightarrow> nat \<Rightarrow> nat option list \<times> nat" where
  "bumps limit [] q = ([], q)"
| "bumps limit (r # rs) q =
     (let (p, q1) = bump limit r q; (ps, q2) = bumps limit rs q1 in (p # ps, q2))"

lemma serve_bumps:
  "ar_valid s \<Longrightarrow> \<forall>r \<in> set rs. ar_fair r s \<Longrightarrow> ar_serve rs s = Some (ps, s') \<Longrightarrow>
   bumps (unat (ar_end s)) (map (\<lambda>r. (unat (fst r), unat (snd r))) rs) (unat (ar_ptr s)) =
      (map (\<lambda>p. if p = 0 then None else Some (unat p)) ps, unat (ar_ptr s')) \<and>
   s' = s\<lparr>ar_ptr := ar_ptr s'\<rparr> \<and> ar_valid s' \<and> list_all2 (\<lambda>r p. unat (snd r) dvd unat p) rs ps"
proof (induction rs arbitrary: s s' ps)
  case Nil
  then show ?case by simp
next
  case (Cons r rs)
  obtain p s1 where 1: "ar_allocate r s = (p, s1)" by (cases "ar_allocate r s")
  obtain qs s2 where 2: "ar_serve rs s1 = Some (qs, s2)" using Cons.prems(3) 1 by (auto split: bind_splits)
  have r: "ar_fair r s" using Cons.prems(2) by simp
  note a = ar_allocate_bump [OF Cons.prems(1) r 1]
  have e: "ps = p # qs" "s' = s2" using Cons.prems(3) 1 2 by simp_all
  have lim: "ar_end s1 = ar_end s" using arg_cong [OF a(3), of ar_end] by simp
  have f: "\<forall>r' \<in> set rs. ar_fair r' s1" using Cons.prems(2) by (simp add: ar_fair_def lim)
  note ih = Cons.IH [OF a(2) f 2]
  have "s1\<lparr>ar_ptr := ar_ptr s2\<rparr> = s\<lparr>ar_ptr := ar_ptr s2\<rparr>" by (subst a(3)) simp
  then have "s2 = s\<lparr>ar_ptr := ar_ptr s2\<rparr>" using ih by simp
  then show ?case using a(1,4,5) ih by (auto simp: e lim)
qed

section \<open>Who owns the memory\<close>

text \<open>
  The life of any number of arenas, numbered by \<open>nat\<close>, and the heap they share: an arena is
  constructed at an address that the heap has just returned or on a buffer of the caller,
  moved, assigned, used, destroyed.
\<close>

inductive ar_life :: "(nat \<Rightarrow> arena option) \<times> heap \<Rightarrow> (nat \<Rightarrow> arena option) \<times> heap \<Rightarrow> bool" where
  life_make: "m i = None \<Longrightarrow> fresh_block p n h \<Longrightarrow> ar_new p n h = (s, h') \<Longrightarrow> ar_life (m, h) (m(i \<mapsto> s), h')"
| life_wrap: "m i = None \<Longrightarrow> ar_life (m, h) (m(i \<mapsto> ar_wrap p n), h)"
| life_move: "m i = Some s \<Longrightarrow> m j = None \<Longrightarrow> ar_move s = (t, s') \<Longrightarrow> ar_life (m, h) (m(i \<mapsto> s', j \<mapsto> t), h)"
| life_assign: "m i = Some s \<Longrightarrow> m j = Some t \<Longrightarrow> i \<noteq> j \<Longrightarrow>
    ar_assign_move s (Other t) h = Some (s', Other t', h') \<Longrightarrow> ar_life (m, h) (m(i \<mapsto> s', j \<mapsto> t'), h')"
| life_assign_self: "m i = Some s \<Longrightarrow> ar_assign_move s Self h = Some (s', Self, h') \<Longrightarrow>
    ar_life (m, h) (m(i \<mapsto> s'), h')"
| life_allocate: "m i = Some s \<Longrightarrow> ar_allocate r s = (p, s') \<Longrightarrow> ar_life (m, h) (m(i \<mapsto> s'), h)"
| life_reset: "m i = Some s \<Longrightarrow> ar_life (m, h) (m(i \<mapsto> ar_reset s), h)"
| life_destroy: "m i = Some s \<Longrightarrow> ar_destroy s h = Some h' \<Longrightarrow> ar_life (m, h) (m(i := None), h')"

inductive_cases ar_lifeE [consumes 1, case_names make wrap move assign assign_self allocate reset destroy]:
  "ar_life (m, h) st"

text \<open>The block an arena will delete.\<close>

definition ar_owned :: "arena option \<Rightarrow> usize option" where
  "ar_owned so = (case so of None \<Rightarrow> None
     | Some s \<Rightarrow> if ar_owns_memory s \<and> ar_begin s \<noteq> 0 then Some (ar_begin s) else None)"

definition ar_life_inv :: "(nat \<Rightarrow> arena option) \<times> heap \<Rightarrow> bool" where
  "ar_life_inv st \<longleftrightarrow> (\<forall>i j p. ar_owned (fst st i) = Some p \<and> ar_owned (fst st j) = Some p \<longrightarrow> i = j) \<and>
     (\<forall>p. snd st p \<noteq> None \<longleftrightarrow> (\<exists>i. ar_owned (fst st i) = Some p))"

lemma ar_owned_simps [simp]:
  "ar_owned None = None" "ar_owned (Some ar_moved_from) = None" "ar_owned (Some (ar_wrap p n)) = None"
  "ar_owned (Some (ar_reset s)) = ar_owned (Some s)"
  by (simp_all add: ar_owned_def ar_moved_from_def ar_wrap_def ar_reset_def)

lemma ar_owned_allocate: "ar_allocate r s = (p, s') \<Longrightarrow> ar_owned (Some s') = ar_owned (Some s)"
  by (cases r) (auto simp: ar_owned_def Let_def split: if_splits)

lemma ar_owned_new: "ar_new p n h = (s, h') \<Longrightarrow> ar_owned (Some s) = (if p = 0 then None else Some p) \<and> h' = heap_new p n h"
  by (auto simp: ar_new_def ar_owned_def)

lemma ar_destroy_owned:
  "ar_destroy s h = (case ar_owned (Some s) of None \<Rightarrow> Some h | Some p \<Rightarrow> heap_delete p h)"
  "ar_assign_move s (Other t) h =
     map_option (\<lambda>h'. (t, Other ar_moved_from, h')) (case ar_owned (Some s) of None \<Rightarrow> Some h | Some p \<Rightarrow> heap_delete p h)"
  by (auto simp: ar_destroy_def ar_owned_def split: option.splits if_splits bind_splits)

lemma ar_owned_nonnull: "ar_owned so = Some p \<Longrightarrow> p \<noteq> 0"
  by (auto simp: ar_owned_def split: option.splits if_splits)

text \<open>Changes of the store that keep the same owned blocks, or drop one together with its memory.\<close>

lemma ar_life_inv_keep:
  assumes "ar_life_inv (m, h)" "m i = Some s" "ar_owned (Some s') = ar_owned (Some s)"
  shows "ar_life_inv (m(i \<mapsto> s'), h)"
proof -
  have "ar_owned ((m(i \<mapsto> s')) k) = ar_owned (m k)" for k using assms(2,3) by simp
  then show ?thesis using assms(1) by (simp add: ar_life_inv_def)
qed

lemma ar_life_inv_drop:
  assumes "ar_life_inv (m, h)" "m i = Some s" "ar_owned so = None"
    and "(case ar_owned (Some s) of None \<Rightarrow> Some h | Some p \<Rightarrow> heap_delete p h) = Some h'"
  shows "ar_life_inv (m(i := so), h')"
proof (cases "ar_owned (Some s)")
  case None
  have "ar_owned ((m(i := so)) k) = ar_owned (m k)" for k using assms(2,3) None by simp
  then show ?thesis using assms(1,4) None by (simp add: ar_life_inv_def)
next
  case (Some p)
  note inv = assms(1) [unfolded ar_life_inv_def fst_conv snd_conv]
  have "h p \<noteq> None" using inv Some assms(2) by metis
  then have h': "h' = h(p := None)" using assms(4) Some ar_owned_nonnull [OF Some] by (auto simp: heap_delete_def)
  have o: "ar_owned ((m(i := so)) k) = Some q \<longleftrightarrow> ar_owned (m k) = Some q \<and> q \<noteq> p" for k q
    using inv Some assms(2,3) by auto
  show ?thesis unfolding ar_life_inv_def fst_conv snd_conv o using inv by (auto simp: h')
qed

lemma ar_life_inv_move:
  assumes "ar_life_inv (m, h)" "i \<noteq> j" "m j = Some s" "ar_owned (m i) = None" "ar_owned so = None"
  shows "ar_life_inv (m(i \<mapsto> s, j := so), h)"
proof -
  note inv = assms(1) [unfolded ar_life_inv_def fst_conv snd_conv]
  have o: "ar_owned ((m(i \<mapsto> s, j := so)) k) = Some q \<longleftrightarrow>
      ar_owned (m (if k = i then j else if k = j then i else k)) = Some q" for k q
    using assms(2-5) by auto
  have sw: "(\<exists>k. P (if k = i then j else if k = j then i else k)) \<longleftrightarrow> (\<exists>k. P k)" for P
    using assms(2) by (metis (full_types))
  show ?thesis unfolding ar_life_inv_def fst_conv snd_conv o sw [where P = "\<lambda>k. ar_owned (m k) = Some _"]
    using inv by (smt (verit, best))
qed

lemma ar_life_inv_make:
  assumes "ar_life_inv (m, h)" "m i = None" "fresh_block p n h" "ar_owned (Some s) = (if p = 0 then None else Some p)"
  shows "ar_life_inv (m(i \<mapsto> s), heap_new p n h)"
proof (cases "p = 0")
  case True
  have "ar_owned ((m(i \<mapsto> s)) k) = ar_owned (m k)" for k using assms(2,4) True by simp
  then show ?thesis using assms(1) True by (simp add: ar_life_inv_def heap_new_def)
next
  case False
  note inv = assms(1) [unfolded ar_life_inv_def fst_conv snd_conv]
  have "h p = None" using assms(3) False by (simp add: fresh_block_def)
  then have n: "ar_owned (m k) \<noteq> Some p" for k using inv by metis
  have o: "ar_owned ((m(i \<mapsto> s)) k) = Some q \<longleftrightarrow> (if k = i then q = p else ar_owned (m k) = Some q)" for k q
    using assms(4) False by auto
  have i: "ar_owned (m i) = None" using assms(2) by simp
  have ex: "(\<exists>k. if k = i then q = p else ar_owned (m k) = Some q) \<longleftrightarrow> q = p \<or> (\<exists>k. ar_owned (m k) = Some q)" for q
    using i by (metis option.distinct(1))
  have "k = l" if "if k = i then q = p else ar_owned (m k) = Some q" "if l = i then q = p else ar_owned (m l) = Some q"
    for k l q using that inv n by (metis (full_types))
  moreover have "(heap_new p n h q \<noteq> None) \<longleftrightarrow> q = p \<or> (\<exists>k. ar_owned (m k) = Some q)" for q
    using inv False by (auto simp: heap_new_def)
  ultimately show ?thesis unfolding ar_life_inv_def fst_conv snd_conv o ex by blast
qed

lemma ar_life_inv_step:
  assumes "ar_life_inv st" "ar_life st st'"
  shows "ar_life_inv st'"
proof -
  obtain m h where st: "st = (m, h)" by (cases st)
  note inv = assms(1) [unfolded st]
  from assms(2) [unfolded st] show ?thesis
  proof (cases rule: ar_lifeE)
    case (make i p n s h')
    then show ?thesis using ar_life_inv_make [OF inv make(2,3)] ar_owned_new [OF make(4)] by simp
  next
    case (wrap i p n)
    have "ar_owned ((m(i \<mapsto> ar_wrap p n)) k) = ar_owned (m k)" for k using wrap(2) by simp
    then show ?thesis using inv unfolding wrap(1) by (simp add: ar_life_inv_def)
  next
    case (move i s j t s')
    then have "i \<noteq> j" by auto
    then have "m(i \<mapsto> s', j \<mapsto> t) = m(j \<mapsto> s, i := Some ar_moved_from)"
      using move(4) by (simp add: ar_move_def fun_upd_twist)
    then show ?thesis using ar_life_inv_move [OF inv, of j i s "Some ar_moved_from"] move by (cases "i = j") auto
  next
    case (assign i s j t s' t' h')
    then have "ar_assign_move s (Other t) h = Some (s', Other t', h')" by simp
    then have e: "s' = t" "t' = ar_moved_from" and
      h': "(case ar_owned (Some s) of None \<Rightarrow> Some h | Some p \<Rightarrow> heap_delete p h) = Some h'"
      unfolding ar_destroy_owned(2) by auto
    have "ar_life_inv (m(i := None), h')" by (rule ar_life_inv_drop [OF inv assign(2) _ h']) simp
    from ar_life_inv_move [OF this assign(4), of t "Some ar_moved_from"] show ?thesis
      using assign(1,3,4) e by simp
  next
    case (assign_self i s)
    then show ?thesis using ar_life_inv_keep [OF inv assign_self(2), of s] by simp
  next
    case (allocate i s r p s')
    then show ?thesis using ar_life_inv_keep [OF inv allocate(2) ar_owned_allocate [OF allocate(3)]] by simp
  next
    case (reset i s)
    then show ?thesis using ar_life_inv_keep [OF inv reset(2), of "ar_reset s"] by simp
  next
    case (destroy i s h')
    then show ?thesis using ar_life_inv_drop [OF inv destroy(2), of None h'] by (simp add: ar_destroy_owned(1))
  qed
qed

interpretation arenas: invariant_system "(\<lambda>_. None, \<lambda>_. None)" ar_life ar_life_inv
  by unfold_locales (simp add: ar_life_inv_def, erule ar_life_inv_step)

section \<open>NUMA placement\<close>

text \<open>
  \<open>numa_arena\<close>. What the platform answers is a parameter: whether this is a Linux build,
  whether \<open>numa_available\<close> succeeds, and the size of the mask that
  \<open>numa_allocate_nodemask\<close> returns (\<open>None\<close> for the null pointer). The calls that the
  constructor makes are its log; the last argument of \<open>Mbind\<close> lists the bits set in the mask.
\<close>

type_synonym int32 = "32 word"

record numa_api =
  nu_linux :: bool
  nu_available :: bool
  nu_mask_size :: "usize option"

datatype numa_call = Allocate_mask | Clear_all | Set_bit int32 | Mbind usize usize "int32 list" | Free_mask

record numa_arena =
  na_arena :: arena
  na_node :: int32

definition na_new :: "numa_api \<Rightarrow> usize \<Rightarrow> usize \<Rightarrow> int32 \<Rightarrow> heap \<Rightarrow> numa_arena \<times> numa_call list \<times> heap" where
  "na_new api p size_bytes preferred_node h =
     (let (a, h') = ar_new p size_bytes h;
          bound = \<lambda>node calls. (\<lparr>na_arena = a, na_node = node\<rparr>, calls, h');
          base = ar_data a; len = ar_capacity a
      in if \<not> nu_linux api then bound preferred_node []
         else if \<not> nu_available api \<or> sint preferred_node < 0 then bound (-1) []
         else if base = 0 \<or> len = 0 then bound (-1) []
         else (case nu_mask_size api of
             None \<Rightarrow> bound (-1) [Allocate_mask]
           | Some msize \<Rightarrow> bound preferred_node ([Allocate_mask, Clear_all] @
               (if sint preferred_node < sint (ucast msize :: int32)
                then [Set_bit preferred_node, Mbind base len [preferred_node]] else []) @ [Free_mask])))"

definition na_allocate :: "usize \<Rightarrow> usize \<Rightarrow> numa_arena \<Rightarrow> usize \<times> numa_arena" where
  "na_allocate n align s =
     (let (p, a) = ar_allocate (n, align) (na_arena s) in (p, s\<lparr>na_arena := a\<rparr>))"

definition na_reset :: "numa_arena \<Rightarrow> numa_arena" where
  "na_reset s = s\<lparr>na_arena := ar_reset (na_arena s)\<rparr>"

definition na_capacity :: "numa_arena \<Rightarrow> usize" where
  "na_capacity s = ar_capacity (na_arena s)"

definition na_destroy :: "numa_arena \<Rightarrow> heap \<Rightarrow> heap option" where
  "na_destroy s = ar_destroy (na_arena s)"

section \<open>Properties\<close>

lemma ar_constructed:
  assumes "p \<noteq> 0" "unat p + unat n < 2 ^ 64" "s = fst (ar_new p n h) \<or> s = ar_wrap p n"
  shows "ar_holds s []" "ar_begin s = p" "ar_ptr s = p" "unat (ar_end s) = unat p + unat n"
    "ar_region s = (unat p, unat n)"
proof -
  show b: "ar_begin s = p" "ar_ptr s = p" using assms(1,3) by (auto simp: ar_new_def ar_wrap_def)
  have "ar_end s = p + n" using assms(1,3) by (auto simp: ar_new_def ar_wrap_def)
  then show e: "unat (ar_end s) = unat p + unat n" using assms(2) by (simp add: unat_add_small)
  show "ar_region s = (unat p, unat n)" by (simp add: ar_region_def b e)
  show "ar_holds s []" using assms(1) b e
    by (simp add: ar_holds_def ar_valid_def word_le_nat_alt word_greater_zero_iff)
qed

definition ar_demo :: "(usize \<times> usize) list" where
  "ar_demo = [(3, 1), (8, 8), (100, 16), (2, 2)]"

lemma ar_demo_fair:
  "\<forall>(bytes, alignment) \<in> set ar_demo.
     is_po2 alignment \<and> unat (4096 :: usize) + unat (64 :: usize) + unat alignment + unat bytes \<le> 2 ^ 64"
  using is_po2_power [of 0] is_po2_power [of 1] is_po2_power [of 3] is_po2_power [of 4]
  by (simp add: ar_demo_def)

lemma ar_demo_serve:
  "ar_serve ar_demo (ar_wrap 4096 64) = Some ([4096, 4104, 0, 4112], (ar_wrap 4096 64)\<lparr>ar_ptr := 4114\<rparr>)"
  by (simp add: ar_demo_def ar_wrap_def ar_align_ptr_def)

lemma ar_reset_serve: "ar_ptr s = ar_begin s \<Longrightarrow> s' = s\<lparr>ar_ptr := q\<rparr> \<Longrightarrow> ar_reset s' = s"
  by (simp add: ar_reset_def)

text \<open>
  C19. The blocks an arena hands out, for any sequence of requests with power-of-two
  alignments whose end cannot wrap around, do not overlap, lie within its buffer and are
  aligned as asked, whether the arena has memory of its own or works in a buffer of the
  caller.
\<close>

theorem arena_blocks_are_disjoint:
  assumes "p \<noteq> 0" "unat p + unat n < 2 ^ 64" "s = fst (ar_new p n h) \<or> s = ar_wrap p n"
    and "\<forall>(bytes, alignment) \<in> set rs. is_po2 alignment \<and> unat p + unat n + unat alignment + unat bytes \<le> 2 ^ 64"
    and "ar_serve rs s = Some (ps, s')"
  shows "separate (served (\<lambda>(bytes, alignment). unat bytes) rs ps) \<and>
    list_all (within (unat p, unat n)) (served (\<lambda>(bytes, alignment). unat bytes) rs ps) \<and>
    list_all2 (\<lambda>(bytes, alignment) p. unat alignment dvd unat p) rs ps"
proof -
  note c = ar_constructed [OF assms(1-3)]
  have f: "\<forall>r \<in> set rs. ar_fair r s" using assms(4) by (fastforce simp: ar_fair_def c(4))
  have v: "ar_valid s" using c(1) by (simp add: ar_holds_def)
  show ?thesis
    using arena.serve_separate [OF c(1) f assms(5)] serve_bumps [OF v f assms(5)] c(5)
    by (simp add: case_prod_beta')
qed

theorem arena_blocks_are_disjoint_witness:
  "separate (served (\<lambda>(bytes, alignment). unat bytes) ar_demo [4096, 4104, 0, 4112])"
  using arena_blocks_are_disjoint [OF _ _ disjI2 [OF refl] ar_demo_fair ar_demo_serve] by simp

text \<open>
  C21. An arena is a bump allocator: over any such sequence of requests it grants and refuses
  what rounding up to the alignment and comparing with the end of the buffer says, over
  natural numbers; \<open>used()\<close> is the number of bytes consumed, and \<open>reset\<close> takes the arena
  back to where it began.
\<close>

theorem arena_refines_bump_allocator:
  assumes "p \<noteq> 0" "unat p + unat n < 2 ^ 64" "s = fst (ar_new p n h) \<or> s = ar_wrap p n"
    and "\<forall>(bytes, alignment) \<in> set rs. is_po2 alignment \<and> unat p + unat n + unat alignment + unat bytes \<le> 2 ^ 64"
    and "ar_serve rs s = Some (ps, s')"
  shows "bumps (unat p + unat n) (map (\<lambda>(bytes, alignment). (unat bytes, unat alignment)) rs) (unat p) =
      (map (\<lambda>q. if q = 0 then None else Some (unat q)) ps, unat p + unat (ar_used s')) \<and>
    ar_used s' \<le> n \<and> ar_reset s' = s \<and> ar_capacity s' = n"
proof -
  note c = ar_constructed [OF assms(1-3)]
  have f: "\<forall>r \<in> set rs. ar_fair r s" using assms(4) by (fastforce simp: ar_fair_def c(4))
  have v: "ar_valid s" using c(1) by (simp add: ar_holds_def)
  note b = serve_bumps [OF v f assms(5)]
  have s': "s' = s\<lparr>ar_ptr := ar_ptr s'\<rparr>" and v': "ar_valid s'" using b by simp_all
  have "ar_begin s' = p" "ar_end s' = ar_end s" "ar_capacity s' = n"
    using assms(3) by (subst s', auto simp: c ar_capacity_def ar_new_def ar_wrap_def)+
  moreover from this have "unat (ar_used s') = unat (ar_ptr s') - unat p" "unat p \<le> unat (ar_ptr s')"
      "unat (ar_ptr s') \<le> unat p + unat n"
    using ar_validD [OF v'] c(4) by (simp_all add: ar_used_def unat_sub word_le_nat_alt)
  ultimately show ?thesis
    using b ar_reset_serve [OF _ s'] by (simp add: c case_prod_beta' word_le_nat_alt)
qed

theorem arena_refines_bump_allocator_witness:
  "bumps 4160 [(3, 1), (8, 8), (100, 16), (2, 2)] 4096 = ([Some 4096, Some 4104, None, Some 4112], 4114)"
  using arena_refines_bump_allocator [OF _ _ disjI2 [OF refl] ar_demo_fair ar_demo_serve]
  by (simp add: ar_used_def ar_wrap_def ar_demo_def)

text \<open>
  Without these conditions the arena breaks. A request of \<open>2^64 - d\<close> bytes, for any
  \<open>d\<close> up to the current address, is granted: the end of the block wraps around, and the bump
  pointer moves back by \<open>d\<close> bytes, so that later blocks overlap earlier ones and lie in
  front of the buffer. An alignment of 0 yields the null pointer but sets the bump pointer to
  the number of bytes asked for.
\<close>

theorem arena_request_wraps_around:
  assumes "ar_valid s" "d \<noteq> 0" "d \<le> ar_ptr s"
  shows "ar_allocate (- d, 1) s = (ar_ptr s, s\<lparr>ar_ptr := ar_ptr s - d\<rparr>) \<and>
    (n \<le> ar_end s \<longrightarrow> ar_allocate (n, 0) s = (0, s\<lparr>ar_ptr := n\<rparr>))"
proof -
  note v = ar_validD [OF assms(1)]
  have "ar_ptr s - d \<le> ar_ptr s" using assms(3) by (simp add: word_le_nat_alt unat_sub)
  then have "\<not> ar_end s < ar_ptr s - d" using v(3) by (simp add: word_le_nat_alt word_less_nat_alt)
  then show ?thesis using v(4) by (auto simp: ar_align_ptr_def Let_def)
qed

theorem arena_request_wraps_around_witness:
  "ar_allocate (- 96, 1) ((ar_wrap 4096 64)\<lparr>ar_ptr := 4128\<rparr>) = (4128, (ar_wrap 4096 64)\<lparr>ar_ptr := 4032\<rparr>)"
  using arena_request_wraps_around [of "(ar_wrap 4096 64)\<lparr>ar_ptr := 4128\<rparr>" 96 0]
  by (simp add: ar_valid_def ar_wrap_def)

text \<open>
  C22. Arenas own their memory uniquely: however arenas are constructed, moved, assigned
  (also to themselves), used and destroyed, no block is deleted twice or deleted without
  having been allocated, and when no arena is left, everything has been given back.
\<close>

theorem arena_ownership:
  assumes "rtranclp ar_life (\<lambda>_. None, \<lambda>_. None) (m, h)"
  shows "(m i = Some s \<longrightarrow> ar_destroy s h \<noteq> None \<and> ar_assign_move s (Other t) h \<noteq> None) \<and>
    ((\<forall>i. m i = None) \<longrightarrow> h = (\<lambda>_. None))"
proof -
  have inv: "ar_life_inv (m, h)" by (rule arenas.reachable_inv [OF assms])
  have "h p \<noteq> None" if "m i = Some s" "ar_owned (Some s) = Some p" for p
    using inv that unfolding ar_life_inv_def fst_conv snd_conv by metis
  then have "m i = Some s \<longrightarrow> ar_destroy s h \<noteq> None \<and> ar_assign_move s (Other t) h \<noteq> None"
    unfolding ar_destroy_owned by (auto simp: heap_delete_def split: option.splits)
  moreover have "h = (\<lambda>_. None)" if "\<forall>i. m i = None"
    using inv that by (auto simp: ar_life_inv_def fun_eq_iff)
  ultimately show ?thesis by blast
qed

theorem arena_ownership_witness:
  "ar_destroy (fst (ar_new 4096 64 (\<lambda>_. None))) (heap_new 4096 64 (\<lambda>_. None)) \<noteq> None"
proof -
  let ?s = "fst (ar_new 4096 64 (\<lambda>_. None))"
  have "ar_life (\<lambda>_. None, \<lambda>_. None) ((\<lambda>_. None)(0 \<mapsto> ?s), heap_new 4096 64 (\<lambda>_. None))"
    by (rule life_make [of _ 0 4096 64]) (simp_all add: fresh_block_def ar_new_def)
  then have "rtranclp ar_life (\<lambda>_. None, \<lambda>_. None) ((\<lambda>_. None)(0 \<mapsto> ?s), heap_new 4096 64 (\<lambda>_. None))"
    by (rule r_into_rtranclp [where r = ar_life])
  from arena_ownership [OF this, of 0 ?s] show ?thesis by simp
qed

text \<open>
  \<open>arena_allocator<T>::allocate(n)\<close> returns a block of \<open>n * sizeof(T)\<close> bytes, aligned
  for \<open>T\<close>, or throws \<open>std::bad_alloc\<close> without any effect when the arena has no room. But it
  does not check the product: when \<open>n * sizeof(T)\<close> is a multiple of \<open>2^64\<close>, it returns a block
  of no bytes.
\<close>

theorem arena_allocator_allocates:
  assumes "ar_valid s" "is_po2 al" "unat (ar_end s) + unat al \<le> 2 ^ 64"
  shows "(unat n * unat sz + unat (ar_end s) + unat al \<le> 2 ^ 64 \<longrightarrow>
      (case aa_allocate sz al n s of
         (Inr p, s') \<Rightarrow> unat al dvd unat p \<and> unat (ar_ptr s) \<le> unat p \<and>
           unat (ar_ptr s') = unat p + unat n * unat sz \<and> unat (ar_ptr s') \<le> unat (ar_end s)
       | (Inl e, s') \<Rightarrow> e = Bad_alloc \<and> s' = s \<and>
           unat (ar_end s) < round_up (unat (ar_ptr s)) (unat al) + unat n * unat sz)) \<and>
    (2 ^ 64 dvd unat n * unat sz \<and> round_up (unat (ar_ptr s)) (unat al) \<le> unat (ar_end s) \<longrightarrow>
      (\<exists>p s'. aa_allocate sz al n s = (Inr p, s') \<and> ar_ptr s' = p))"
proof -
  obtain p s' where a: "ar_allocate (n * sz, al) s = (p, s')" by (cases "ar_allocate (n * sz, al) s")
  have aa: "aa_allocate sz al n s = (if p = 0 then Inl Bad_alloc else Inr p, s')"
    by (simp add: aa_allocate_def a del: ar_allocate.simps)
  have 1: "case aa_allocate sz al n s of
         (Inr p, s') \<Rightarrow> unat al dvd unat p \<and> unat (ar_ptr s) \<le> unat p \<and>
           unat (ar_ptr s') = unat p + unat n * unat sz \<and> unat (ar_ptr s') \<le> unat (ar_end s)
       | (Inl e, s') \<Rightarrow> e = Bad_alloc \<and> s' = s \<and>
           unat (ar_end s) < round_up (unat (ar_ptr s)) (unat al) + unat n * unat sz"
    if "unat n * unat sz + unat (ar_end s) + unat al \<le> 2 ^ 64"
  proof -
    have "unat n * unat sz < 2 ^ 64" using that is_po2_pos [OF assms(2)] by linarith
    then have u: "unat (n * sz) = unat n * unat sz" by (simp add: unat_word_ariths)
    then have "ar_fair (n * sz, al) s" using that assms(2) by (simp add: ar_fair_def)
    note b = ar_allocate_bump [OF assms(1) this a]
    have e: "ar_end s' = ar_end s" using arg_cong [OF b(3), of ar_end] by simp
    show ?thesis
    proof (cases "p = 0")
      case True
      then have "\<not> round_up (unat (ar_ptr s)) (unat al) + unat n * unat sz \<le> unat (ar_end s)"
        using b(1) by (simp add: bump_def Let_def u split: if_splits)
      then show ?thesis using True b(4) by (simp add: aa)
    next
      case False
      then show ?thesis using b(5) ar_validD(3) [OF b(2)] by (simp add: aa u e)
    qed
  qed
  have 2: "\<exists>p s'. aa_allocate sz al n s = (Inr p, s') \<and> ar_ptr s' = p"
    if "2 ^ 64 dvd unat n * unat sz" "round_up (unat (ar_ptr s)) (unat al) \<le> unat (ar_end s)"
  proof -
    have z: "n * sz = 0" using that(1) by (simp add: word_unat_eq_iff unat_word_ariths mod_eq_0_iff_dvd)
    then have "ar_fair (n * sz, al) s" using assms(2,3) by (simp add: ar_fair_def)
    note b = ar_allocate_bump [OF assms(1) this a]
    have "p \<noteq> 0" using b(1) that(2) by (simp add: z bump_def Let_def split: if_splits)
    moreover from this have "unat (ar_ptr s') = unat p" using b(5) by (simp add: z)
    ultimately have "p \<noteq> 0" "unat (ar_ptr s') = unat p" by simp_all
    then show ?thesis by (auto simp: aa word_unat_eq_iff)
  qed
  show ?thesis using 1 2 by blast
qed

theorem arena_allocator_allocates_witness:
  "aa_allocate 16 8 (2 ^ 60) (ar_wrap 4096 64) = (Inr 4096, ar_wrap 4096 64) \<and>
   (\<exists>p s'. aa_allocate 16 8 (2 ^ 60) (ar_wrap 4096 64) = (Inr p, s') \<and> ar_ptr s' = p)"
proof -
  have v: "ar_valid (ar_wrap 4096 64)" by (simp add: ar_valid_def ar_wrap_def)
  have po2: "is_po2 8" using is_po2_power [of 3] by simp
  have "unat (ar_end (ar_wrap 4096 64)) + unat (8 :: usize) \<le> 2 ^ 64" by (simp add: ar_wrap_def)
  from arena_allocator_allocates [OF v po2 this, of "2 ^ 60" 16]
  have "\<exists>p s'. aa_allocate 16 8 (2 ^ 60) (ar_wrap 4096 64) = (Inr p, s') \<and> ar_ptr s' = p"
    by (simp add: round_up_def ar_wrap_def)
  then show ?thesis by (simp add: aa_allocate_def ar_wrap_def ar_align_ptr_def)
qed

text \<open>
  A \<open>numa_arena\<close> allocates as a plain arena whatever the platform answers, and it
  releases every node mask it obtains; memory is bound at most once, as a whole, to the
  preferred node. \<open>node()\<close> however does not tell whether it is bound: for a node beyond the
  mask, and on platforms other than Linux, it reports the preferred node although no binding
  was attempted.
\<close>

theorem numa_arena_placement:
  assumes "na_new api p n node h = (s, calls, h')"
  shows "na_arena s = fst (ar_new p n h) \<and> h' = snd (ar_new p n h) \<and>
    na_allocate bytes al s = map_prod id (\<lambda>a. s\<lparr>na_arena := a\<rparr>) (ar_allocate (bytes, al) (na_arena s)) \<and>
    (na_node s = node \<or> na_node s = -1) \<and>
    (Free_mask \<in> set calls \<longleftrightarrow> Allocate_mask \<in> set calls \<and> nu_mask_size api \<noteq> None) \<and>
    (Mbind base len bits \<in> set calls \<longrightarrow> base = p \<and> len = n \<and> bits = [node] \<and> na_node s = node \<and> 0 \<le> sint node) \<and>
    (nu_linux api \<and> nu_available api \<and> 0 \<le> sint node \<and> p \<noteq> 0 \<and> n \<noteq> 0 \<and> nu_mask_size api = Some m \<and>
       sint (ucast m :: int32) \<le> sint node \<longrightarrow> na_node s = node \<and> calls = [Allocate_mask, Clear_all, Free_mask]) \<and>
    (\<not> nu_linux api \<longrightarrow> na_node s = node \<and> calls = [])"
  using assms
  by (auto simp: na_new_def Let_def ar_new_def ar_data_def ar_capacity_def na_allocate_def
      split: if_splits option.splits prod.splits)

theorem numa_arena_placement_witness:
  "na_node (fst (na_new \<lparr>nu_linux = True, nu_available = True, nu_mask_size = Some 4\<rparr> 4096 64 7 (\<lambda>_. None))) = 7 \<and>
   fst (snd (na_new \<lparr>nu_linux = True, nu_available = True, nu_mask_size = Some 4\<rparr> 4096 64 7 (\<lambda>_. None))) =
     [Allocate_mask, Clear_all, Free_mask]"
  using numa_arena_placement [of "\<lparr>nu_linux = True, nu_available = True, nu_mask_size = Some 4\<rparr>" 4096 64 7 "\<lambda>_. None"
      "fst (na_new \<lparr>nu_linux = True, nu_available = True, nu_mask_size = Some 4\<rparr> 4096 64 7 (\<lambda>_. None))"
      "fst (snd (na_new \<lparr>nu_linux = True, nu_available = True, nu_mask_size = Some 4\<rparr> 4096 64 7 (\<lambda>_. None)))"
      "snd (snd (na_new \<lparr>nu_linux = True, nu_available = True, nu_mask_size = Some 4\<rparr> 4096 64 7 (\<lambda>_. None)))" 1 1 0 0 "[]" 4]
  by simp

end
