(* ===== verification/Pool.thy ===== *)
theory Pool
  imports Arena
begin

text \<open>
  \<open>hpc::core::fixed_pool\<close> and \<open>hpc::core::pool_allocator<T>\<close>
  (\<open>include/hpc/core/pool_allocator.hpp\<close>, \<open>src/pool_allocator.cpp\<close>): a pool of equal
  blocks with the free list kept in the free blocks; \<open>hpc::core::numa_pool<T>\<close>
  (\<open>include/hpc/core/numa_pool.hpp\<close>).

  The free list lives in memory the clients write to. \<open>node_mem\<close> gives the \<open>next\<close> field of
  the \<open>node\<close> at an address, \<open>None\<close> where there is none. An access to a node outside of the
  storage of the pool, or at an address that is not aligned for a pointer, is undefined.
\<close>

section \<open>State and operations\<close>

type_synonym node_mem = "usize \<Rightarrow> usize option"

record fixed_pool =
  fp_element_size :: usize
  fp_element_count :: usize
  fp_storage :: usize
  fp_free_list :: usize

text \<open>\<open>sizeof(node)\<close>, which is also \<open>alignof(node)\<close>.\<close>

definition fp_node_size :: usize where
  "fp_node_size = 8"

text \<open>The argument of \<open>operator new\<close>: the product wraps around.\<close>

definition fp_bytes :: "fixed_pool \<Rightarrow> usize" where
  "fp_bytes s = fp_element_size s * fp_element_count s"

definition fp_node_ok :: "fixed_pool \<Rightarrow> usize \<Rightarrow> bool" where
  "fp_node_ok s a \<longleftrightarrow> unat (a - fp_storage s) + unat fp_node_size \<le> unat (fp_bytes s) \<and> unat fp_node_size dvd unat a"

definition fp_load :: "fixed_pool \<Rightarrow> usize \<Rightarrow> node_mem \<Rightarrow> usize option" where
  "fp_load s a mem = (if fp_node_ok s a then mem a else None)"

definition fp_store :: "fixed_pool \<Rightarrow> usize \<Rightarrow> usize \<Rightarrow> node_mem \<Rightarrow> node_mem option" where
  "fp_store s a v mem = (if fp_node_ok s a then Some (mem(a \<mapsto> v)) else None)"

text \<open>The push of one element on the free list, as the constructor does for each.\<close>

definition fp_link :: "usize \<Rightarrow> fixed_pool \<times> node_mem \<Rightarrow> (fixed_pool \<times> node_mem) option" where
  "fp_link n = (\<lambda>(s, mem). do {
     mem' \<leftarrow> fp_store s n (fp_free_list s) mem;
     Some (s\<lparr>fp_free_list := n\<rparr>, mem')
   })"

text \<open>
  The constructor. \<open>p\<close> is the address that \<open>operator new\<close> returns, 0 when it throws.
\<close>

definition fp_new :: "usize \<Rightarrow> usize \<Rightarrow> usize \<Rightarrow> node_mem \<Rightarrow> heap \<Rightarrow> (exn + fixed_pool \<times> node_mem \<times> heap) option" where
  "fp_new p element_size element_count mem h =
     (let sz = (if element_size < fp_node_size then fp_node_size else element_size)
      in if element_count = 0
         then Some (Inr (\<lparr>fp_element_size = sz, fp_element_count = 0, fp_storage = 0, fp_free_list = 0\<rparr>, mem, h))
         else if p = 0 then Some (Inl Bad_alloc)
         else do {
           (s, mem') \<leftarrow> for_range 0 element_count (\<lambda>i. fp_link (p + i * sz))
             (\<lparr>fp_element_size = sz, fp_element_count = element_count, fp_storage = p, fp_free_list = 0\<rparr>, mem);
           Some (Inr (s, mem', heap_new p (sz * element_count) h))
         })"

definition fp_destroy :: "fixed_pool \<Rightarrow> heap \<Rightarrow> heap option" where
  "fp_destroy s h = heap_delete (fp_storage s) h"

definition fp_allocate :: "fixed_pool \<times> node_mem \<Rightarrow> (usize \<times> fixed_pool \<times> node_mem) option" where
  "fp_allocate = (\<lambda>(s, mem).
     if fp_free_list s = 0 then Some (0, s, mem)
     else do {
       next_node \<leftarrow> fp_load s (fp_free_list s) mem;
       Some (fp_free_list s, s\<lparr>fp_free_list := next_node\<rparr>, mem)
     })"

definition fp_deallocate :: "usize \<Rightarrow> fixed_pool \<times> node_mem \<Rightarrow> (fixed_pool \<times> node_mem) option" where
  "fp_deallocate p = (\<lambda>(s, mem). if p = 0 then Some (s, mem) else fp_link p (s, mem))"

definition fp_capacity :: "fixed_pool \<Rightarrow> usize" where
  "fp_capacity s = fp_element_count s"

text \<open>\<open>pool_allocator<T>\<close> holds a pointer to the pool; the conversion copies it.\<close>

record 'p pool_allocator =
  pa_pool :: 'p

definition pa_convert :: "'p pool_allocator \<Rightarrow> 'p pool_allocator" where
  "pa_convert other = \<lparr>pa_pool = pa_pool other\<rparr>"

definition pa_allocate :: "usize \<Rightarrow> fixed_pool \<times> node_mem \<Rightarrow> ((exn + usize) \<times> fixed_pool \<times> node_mem) option" where
  "pa_allocate n s =
     (if n \<noteq> 1 then Some (Inl Bad_alloc, s)
      else do {
        (p, s') \<leftarrow> fp_allocate s;
        Some (if p = 0 then Inl Bad_alloc else Inr p, s')
      })"

definition pa_deallocate :: "usize \<Rightarrow> usize \<Rightarrow> fixed_pool \<times> node_mem \<Rightarrow> (fixed_pool \<times> node_mem) option" where
  "pa_deallocate p n s = fp_deallocate p s"

definition pa_eq :: "'p pool_allocator \<Rightarrow> 'p pool_allocator \<Rightarrow> bool" where
  "pa_eq a b \<longleftrightarrow> pa_pool a = pa_pool b"

definition pa_neq :: "'p pool_allocator \<Rightarrow> 'p pool_allocator \<Rightarrow> bool" where
  "pa_neq a b \<longleftrightarrow> \<not> pa_eq a b"

text \<open>
  \<open>numa_pool<T>\<close>. \<open>p\<close> and \<open>q\<close> are the addresses that the arena and the pool get. When the
  constructor of the pool throws, the arena, which is complete, is destroyed.
\<close>

record numa_pool =
  np_arena :: numa_arena
  np_pool :: fixed_pool

definition np_new :: "numa_api \<Rightarrow> usize \<Rightarrow> usize \<Rightarrow> usize \<Rightarrow> usize \<Rightarrow> int32 \<Rightarrow> node_mem \<Rightarrow> heap \<Rightarrow>
    ((exn + numa_pool \<times> node_mem) \<times> heap) option" where
  "np_new api p q sz capacity preferred_node mem h =
     (let (a, calls, h1) = na_new api p (capacity * sz) preferred_node h
      in do {
        r \<leftarrow> fp_new q sz capacity mem h1;
        (case r of
           Inl e \<Rightarrow> do { h2 \<leftarrow> na_destroy a h1; Some (Inl e, h2) }
         | Inr (s, mem', h2) \<Rightarrow> Some (Inr (\<lparr>np_arena = a, np_pool = s\<rparr>, mem'), h2))
      })"

definition np_allocate :: "numa_pool \<times> node_mem \<Rightarrow> (usize \<times> numa_pool \<times> node_mem) option" where
  "np_allocate = (\<lambda>(s, mem). do {
     (p, s', mem') \<leftarrow> fp_allocate (np_pool s, mem);
     Some (p, s\<lparr>np_pool := s'\<rparr>, mem')
   })"

definition np_deallocate :: "usize \<Rightarrow> numa_pool \<times> node_mem \<Rightarrow> (numa_pool \<times> node_mem) option" where
  "np_deallocate p = (\<lambda>(s, mem). do {
     (s', mem') \<leftarrow> fp_deallocate p (np_pool s, mem);
     Some (s\<lparr>np_pool := s'\<rparr>, mem')
   })"

definition np_capacity :: "numa_pool \<Rightarrow> usize" where
  "np_capacity s = fp_capacity (np_pool s)"

definition np_node :: "numa_pool \<Rightarrow> int32" where
  "np_node s = na_node (np_arena s)"

definition np_destroy :: "numa_pool \<Rightarrow> heap \<Rightarrow> heap option" where
  "np_destroy s h = do { h1 \<leftarrow> fp_destroy (np_pool s) h; na_destroy (np_arena s) h1 }"

section \<open>The blocks of a pool\<close>

text \<open>The pool's storage as a grid: block \<open>i\<close> starts \<open>i\<close> element sizes behind the storage.\<close>

definition fp_grid :: "fixed_pool \<Rightarrow> bool" where
  "fp_grid s \<longleftrightarrow> 8 \<le> unat (fp_element_size s) \<and> 8 dvd unat (fp_element_size s) \<and> 8 dvd unat (fp_storage s) \<and>
     unat (fp_storage s) + unat (fp_element_count s) * unat (fp_element_size s) < 2 ^ 64 \<and>
     (fp_element_count s = 0 \<or> fp_storage s \<noteq> 0)"

definition fp_addr :: "fixed_pool \<Rightarrow> nat \<Rightarrow> usize" where
  "fp_addr s i = fp_storage s + of_nat i * fp_element_size s"

definition fp_block :: "fixed_pool \<Rightarrow> nat \<Rightarrow> block" where
  "fp_block s i = (unat (fp_storage s) + i * unat (fp_element_size s), unat (fp_element_size s))"

fun fp_chain :: "fixed_pool \<Rightarrow> node_mem \<Rightarrow> usize \<Rightarrow> nat list \<Rightarrow> bool" where
  "fp_chain s mem a [] \<longleftrightarrow> a = 0"
| "fp_chain s mem a (i # is) \<longleftrightarrow> a = fp_addr s i \<and> (\<exists>b. mem a = Some b \<and> fp_chain s mem b is)"

text \<open>The free list runs through the blocks that are not handed out.\<close>

definition fp_rep :: "fixed_pool \<Rightarrow> node_mem \<Rightarrow> nat list \<Rightarrow> nat list \<Rightarrow> bool" where
  "fp_rep s mem free out \<longleftrightarrow> fp_grid s \<and> fp_chain s mem (fp_free_list s) free \<and>
     distinct (free @ out) \<and> set (free @ out) = {..<unat (fp_element_count s)}"

definition fp_holds :: "fixed_pool \<times> node_mem \<Rightarrow> block list \<Rightarrow> bool" where
  "fp_holds = (\<lambda>(s, mem) bs. \<exists>free out. fp_rep s mem free out \<and> bs = map (fp_block s) out)"

definition fp_region :: "fixed_pool \<times> node_mem \<Rightarrow> block" where
  "fp_region = (\<lambda>(s, mem). (unat (fp_storage s), unat (fp_element_count s) * unat (fp_element_size s)))"

text \<open>What the owners of blocks may change: not a word outside of their blocks.\<close>

definition fp_touch :: "block list \<Rightarrow> fixed_pool \<times> node_mem \<Rightarrow> fixed_pool \<times> node_mem \<Rightarrow> bool" where
  "fp_touch bs = (\<lambda>(s, mem) (s', mem'). s' = s \<and>
     (\<forall>a. list_all (apart (unat a, unat fp_node_size)) bs \<longrightarrow> mem' a = mem a))"

lemma grid_end:
  "i < unat (fp_element_count s) \<Longrightarrow>
   i * unat (fp_element_size s) + unat (fp_element_size s) \<le> unat (fp_element_count s) * unat (fp_element_size s)"
  by (metis Suc_leI add.commute mult_Suc mult_le_mono1)

lemma unat_grid:
  assumes grid: "fp_grid s" and i: "i < unat (fp_element_count s)"
  shows "unat (of_nat i * fp_element_size s) = i * unat (fp_element_size s)"
    "unat (fp_addr s i) = unat (fp_storage s) + i * unat (fp_element_size s)" "fp_addr s i \<noteq> 0"
proof -
  have b: "unat (fp_storage s) + (i * unat (fp_element_size s) + unat (fp_element_size s)) < 2 ^ 64"
    using grid_end [OF i] grid unfolding fp_grid_def by linarith
  have "unat (of_nat i :: usize) = i"
    by (rule unat_of_nat_usize, rule less_trans [OF i]) simp
  then show u: "unat (of_nat i * fp_element_size s) = i * unat (fp_element_size s)"
    using b by (simp add: unat_word_ariths)
  show a: "unat (fp_addr s i) = unat (fp_storage s) + i * unat (fp_element_size s)"
    unfolding fp_addr_def using b u by (subst unat_add_small) simp_all
  have "fp_storage s \<noteq> 0" using grid i by (auto simp: fp_grid_def)
  then have "0 < unat (fp_storage s)" by (simp add: unat_gt_0)
  then show "fp_addr s i \<noteq> 0" using a by (metis add_is_0 not_gr_zero unat_0)
qed

lemma unat_fp_bytes: "fp_grid s \<Longrightarrow> unat (fp_bytes s) = unat (fp_element_count s) * unat (fp_element_size s)"
proof -
  assume "fp_grid s"
  then have "unat (fp_element_count s) * unat (fp_element_size s) < 2 ^ 64" unfolding fp_grid_def by linarith
  then show ?thesis by (simp add: fp_bytes_def unat_word_ariths mult.commute)
qed

lemma grid_node_ok: "fp_grid s \<Longrightarrow> i < unat (fp_element_count s) \<Longrightarrow> fp_node_ok s (fp_addr s i)"
  using unat_grid [of s i] grid_end [of i s]
  by (simp add: fp_node_ok_def unat_fp_bytes fp_node_size_def fp_grid_def fp_addr_def)

lemma grid_inj:
  assumes "fp_grid s" "i < unat (fp_element_count s)" "j < unat (fp_element_count s)" "fp_addr s i = fp_addr s j"
  shows "i = j"
proof -
  have e: "unat (fp_element_size s) \<noteq> 0" using assms(1) by (auto simp: fp_grid_def)
  have "i * unat (fp_element_size s) = j * unat (fp_element_size s)"
    by (metis unat_grid(2) assms add_left_cancel)
  with e show ?thesis by (metis mult_cancel2)
qed

lemma grid_apart: "i \<noteq> j \<Longrightarrow> apart (fp_block s i) (fp_block s j)"
proof -
  assume "i \<noteq> j"
  then have "Suc i \<le> j \<or> Suc j \<le> i" by linarith
  then show ?thesis
    using mult_le_mono1 [of "Suc i" j "unat (fp_element_size s)"] mult_le_mono1 [of "Suc j" i "unat (fp_element_size s)"]
    by (auto simp: apart_def fp_block_def)
qed

lemma grid_separate: "distinct out \<Longrightarrow> separate (map (fp_block s) out)"
  by (induction out) (auto simp: list_all_iff intro!: grid_apart)

lemma grid_block_inj: "fp_grid s \<Longrightarrow> inj (fp_block s)"
  by (auto simp: inj_def fp_block_def fp_grid_def)

text \<open>A free node lies apart from every block handed out.\<close>

lemma grid_node_apart:
  assumes "fp_grid s" "i < unat (fp_element_count s)" "i \<notin> set out"
  shows "list_all (apart (unat (fp_addr s i), unat fp_node_size)) (map (fp_block s) out)"
proof -
  have "apart (unat (fp_addr s i), unat fp_node_size) (fp_block s j)" if "j \<in> set out" for j
  proof -
    have "8 \<le> unat (fp_element_size s)" using assms(1) by (simp add: fp_grid_def)
    moreover have "apart (fp_block s i) (fp_block s j)" using assms(3) that by (intro grid_apart) auto
    ultimately show ?thesis using unat_grid(2) [OF assms(1,2)] by (auto simp: apart_def fp_block_def fp_node_size_def)
  qed
  then show ?thesis by (simp add: list_all_iff)
qed

lemma chain_cong:
  "fp_chain s mem a is \<Longrightarrow> \<forall>i \<in> set is. mem' (fp_addr s i) = mem (fp_addr s i) \<Longrightarrow> fp_chain s mem' a is"
  by (induction "is" arbitrary: a) auto

lemma fp_chain_free_list [simp]: "fp_chain (s\<lparr>fp_free_list := v\<rparr>) mem a is = fp_chain s mem a is"
  by (induction "is" arbitrary: a) (auto simp: fp_addr_def)

lemma fp_grid_free_list [simp]:
  "fp_grid (s\<lparr>fp_free_list := v\<rparr>) = fp_grid s" "fp_block (s\<lparr>fp_free_list := v\<rparr>) = fp_block s"
  "fp_addr (s\<lparr>fp_free_list := v\<rparr>) = fp_addr s"
  by (simp_all add: fp_grid_def fp_block_def fp_addr_def fun_eq_iff)

lemma remove1_map_inj: "inj f \<Longrightarrow> remove1 (f x) (map f xs) = map f (remove1 x xs)"
  by (induction xs) (auto simp: inj_eq)

lemma fp_repD:
  assumes "fp_rep s mem free out"
  shows "fp_grid s" "fp_chain s mem (fp_free_list s) free" "distinct free" "distinct out" "set free \<inter> set out = {}"
    "i \<in> set free \<Longrightarrow> i < unat (fp_element_count s)" "i \<in> set out \<Longrightarrow> i < unat (fp_element_count s)"
    "length free + length out = unat (fp_element_count s)"
proof -
  note r = assms [unfolded fp_rep_def]
  show "fp_grid s" "fp_chain s mem (fp_free_list s) free" "distinct free" "distinct out" "set free \<inter> set out = {}"
    "i \<in> set free \<Longrightarrow> i < unat (fp_element_count s)" "i \<in> set out \<Longrightarrow> i < unat (fp_element_count s)"
    using r by auto
  show "length free + length out = unat (fp_element_count s)"
    using r distinct_card [of "free @ out"] by simp
qed

section \<open>The operations on the grid\<close>

lemma fp_link_grid:
  assumes "fp_grid s" "fp_chain s mem (fp_free_list s) free" "i < unat (fp_element_count s)" "i \<notin> set free"
    and "\<forall>j \<in> set free. j < unat (fp_element_count s)"
  shows "fp_link (fp_addr s i) (s, mem) =
      Some (s\<lparr>fp_free_list := fp_addr s i\<rparr>, mem(fp_addr s i \<mapsto> fp_free_list s))"
    and "fp_chain s (mem(fp_addr s i \<mapsto> fp_free_list s)) (fp_addr s i) (i # free)"
proof -
  show "fp_link (fp_addr s i) (s, mem) =
      Some (s\<lparr>fp_free_list := fp_addr s i\<rparr>, mem(fp_addr s i \<mapsto> fp_free_list s))"
    using grid_node_ok [OF assms(1,3)] by (simp add: fp_link_def fp_store_def)
  have "fp_addr s j \<noteq> fp_addr s i" if "j \<in> set free" for j
    using grid_inj [OF assms(1)] assms(3-5) that by metis
  then show "fp_chain s (mem(fp_addr s i \<mapsto> fp_free_list s)) (fp_addr s i) (i # free)"
    using chain_cong [OF assms(2)] by simp
qed

lemma fp_allocate_Nil:
  assumes "fp_rep s mem [] out"
  shows "fp_allocate (s, mem) = Some (0, s, mem)"
  using fp_repD(2) [OF assms] by (simp add: fp_allocate_def)

lemma fp_allocate_Cons:
  assumes "fp_rep s mem (i # is) out"
  shows "\<exists>b. fp_allocate (s, mem) = Some (fp_addr s i, s\<lparr>fp_free_list := b\<rparr>, mem) \<and>
    fp_addr s i \<noteq> 0 \<and> fp_rep (s\<lparr>fp_free_list := b\<rparr>) mem is (i # out)"
proof -
  note D = fp_repD [OF assms]
  have i: "i < unat (fp_element_count s)" using D(6) by simp
  obtain b where b: "fp_free_list s = fp_addr s i" "mem (fp_addr s i) = Some b" "fp_chain s mem b is"
    using D(2) by auto
  have "fp_allocate (s, mem) = Some (fp_addr s i, s\<lparr>fp_free_list := b\<rparr>, mem)"
    using b grid_node_ok [OF D(1) i] unat_grid(3) [OF D(1) i] by (simp add: fp_allocate_def fp_load_def)
  moreover have "fp_rep (s\<lparr>fp_free_list := b\<rparr>) mem is (i # out)"
    using assms b by (auto simp: fp_rep_def)
  ultimately show ?thesis using unat_grid(3) [OF D(1) i] by blast
qed

lemma fp_deallocate_rep:
  assumes "fp_rep s mem free out" "i \<in> set out"
  shows "fp_deallocate (fp_addr s i) (s, mem) =
      Some (s\<lparr>fp_free_list := fp_addr s i\<rparr>, mem(fp_addr s i \<mapsto> fp_free_list s))"
    and "fp_rep (s\<lparr>fp_free_list := fp_addr s i\<rparr>) (mem(fp_addr s i \<mapsto> fp_free_list s)) (i # free) (remove1 i out)"
proof -
  note D = fp_repD [OF assms(1)]
  have i: "i < unat (fp_element_count s)" "i \<notin> set free" using D(5,7) assms(2) by auto
  have "\<forall>j \<in> set free. j < unat (fp_element_count s)" using D(6) by simp
  note L = fp_link_grid [OF D(1,2) i this]
  show "fp_deallocate (fp_addr s i) (s, mem) =
      Some (s\<lparr>fp_free_list := fp_addr s i\<rparr>, mem(fp_addr s i \<mapsto> fp_free_list s))"
    using L(1) unat_grid(3) [OF D(1) i(1)] by (simp add: fp_deallocate_def)
  have "distinct (i # free @ remove1 i out)" "set (i # free @ remove1 i out) = set (free @ out)"
    using assms i(2) by (auto simp: fp_rep_def)
  then show "fp_rep (s\<lparr>fp_free_list := fp_addr s i\<rparr>) (mem(fp_addr s i \<mapsto> fp_free_list s)) (i # free) (remove1 i out)"
    using L(2) assms(1) by (simp add: fp_rep_def)
qed

lemma fp_outstanding:
  assumes "fp_rep s mem free out" "(unat p, n) \<in> set (map (fp_block s) out)"
  shows "\<exists>i \<in> set out. p = fp_addr s i \<and> (unat p, n) = fp_block s i"
proof -
  note D = fp_repD [OF assms(1)]
  obtain i where i: "i \<in> set out" "(unat p, n) = fp_block s i" using assms(2) by auto
  then have "unat p = unat (fp_addr s i)" using unat_grid(2) [OF D(1) D(7)] by (simp add: fp_block_def)
  then show ?thesis using i by (auto simp: word_unat_eq_iff)
qed

lemma fp_touch_rep:
  assumes "fp_rep s mem free out" "fp_touch (map (fp_block s) out) (s, mem) (s', mem')"
  shows "s' = s \<and> fp_rep s mem' free out"
proof -
  note D = fp_repD [OF assms(1)]
  have "mem' (fp_addr s i) = mem (fp_addr s i)" if "i \<in> set free" for i
  proof -
    have "i \<notin> set out" using D(5) that by auto
    then show ?thesis using grid_node_apart [OF D(1) D(6) [OF that]] assms(2) by (simp add: fp_touch_def)
  qed
  then have "fp_chain s mem' (fp_free_list s) free" using chain_cong [OF D(2)] by blast
  then show ?thesis using assms by (simp add: fp_rep_def fp_touch_def)
qed

text \<open>A request carries the element size the client relies on.\<close>

definition fp_fair :: "usize \<Rightarrow> fixed_pool \<times> node_mem \<Rightarrow> bool" where
  "fp_fair sz = (\<lambda>(s, mem). sz = fp_element_size s)"

interpretation pool: recycling_allocator fp_holds fp_region fp_fair unat "\<lambda>_. fp_allocate" fp_deallocate fp_touch
proof (unfold_locales, goal_cases)
  case (1 st bs)
  then show ?case by (auto simp: fp_holds_def dest: fp_repD(1,4) intro: grid_separate)
next
  case (2 st bs)
  obtain s mem where st: "st = (s, mem)" by (cases st)
  obtain free out where r: "fp_rep s mem free out" "bs = map (fp_block s) out" using 2 by (auto simp: fp_holds_def st)
  have "within (fp_region st) (fp_block s i)" if "i \<in> set out" for i
    using grid_end [OF fp_repD(7) [OF r(1) that]]
    by (simp add: within_def fp_region_def fp_block_def st)
  then show ?case by (simp add: r(2) list_all_iff)
next
  case (3 st bs sz)
  obtain s mem where st: "st = (s, mem)" by (cases st)
  obtain free out where r: "fp_rep s mem free out" "bs = map (fp_block s) out" using 3(1) by (auto simp: fp_holds_def st)
  have sz: "sz = fp_element_size s" using 3(2) by (simp add: fp_fair_def st)
  show ?case
  proof (cases free)
    case Nil
    then show ?thesis using fp_allocate_Nil [of s mem out] r 3(1) st by simp
  next
    case (Cons i "is")
    then obtain b where b: "fp_allocate (s, mem) = Some (fp_addr s i, s\<lparr>fp_free_list := b\<rparr>, mem)"
      "fp_addr s i \<noteq> 0" "fp_rep (s\<lparr>fp_free_list := b\<rparr>) mem is (i # out)"
      using fp_allocate_Cons r(1) by blast
    have "i < unat (fp_element_count s)" using fp_repD(6) [OF r(1)] Cons by simp
    then have "granted (fp_addr s i) (unat sz) = [fp_block s i]"
      using b(2) unat_grid(2) [OF fp_repD(1) [OF r(1)]] by (simp add: fp_block_def sz)
    then have "fp_holds (s\<lparr>fp_free_list := b\<rparr>, mem) (granted (fp_addr s i) (unat sz) @ bs)"
      unfolding fp_holds_def prod.case using b(3) r(2) by (intro exI [of _ "is"] exI [of _ "i # out"]) simp
    then show ?thesis using b(1) by (auto simp: st fp_region_def fp_fair_def)
  qed
next
  case (4 st bs p n)
  obtain s mem where st: "st = (s, mem)" by (cases st)
  obtain free out where r: "fp_rep s mem free out" "bs = map (fp_block s) out" using 4(1) by (auto simp: fp_holds_def st)
  obtain i where i: "i \<in> set out" "p = fp_addr s i" "(unat p, n) = fp_block s i"
    using fp_outstanding [OF r(1)] 4(2) r(2) by metis
  have "remove1 (unat p, n) bs = map (fp_block s) (remove1 i out)"
    using remove1_map_inj [OF grid_block_inj [OF fp_repD(1) [OF r(1)]]] r(2) i(3) by simp
  then have "fp_holds (s\<lparr>fp_free_list := fp_addr s i\<rparr>, mem(fp_addr s i \<mapsto> fp_free_list s)) (remove1 (unat p, n) bs)"
    unfolding fp_holds_def prod.case using fp_deallocate_rep(2) [OF r(1) i(1)]
    by (intro exI [of _ "i # free"] exI [of _ "remove1 i out"]) simp
  then show ?case using fp_deallocate_rep(1) [OF r(1) i(1)] i(2) by (simp add: st fp_region_def)
next
  case (5 st bs st')
  obtain s mem where st: "st = (s, mem)" by (cases st)
  obtain s' mem' where st': "st' = (s', mem')" by (cases st')
  obtain free out where r: "fp_rep s mem free out" "bs = map (fp_block s) out" using 5(1) by (auto simp: fp_holds_def st)
  then have "s' = s" "fp_rep s mem' free out" using fp_touch_rep 5(2) by (auto simp: st st')
  then show ?case using r(2) by (auto simp: fp_holds_def st st' fp_region_def)
qed

section \<open>Construction\<close>

lemma fp_new_rep:
  assumes "sz = (if element_size < fp_node_size then fp_node_size else element_size)"
    and "8 dvd unat sz" "8 dvd unat p" "p \<noteq> 0" "unat p + unat element_count * unat sz < 2 ^ 64"
  shows "\<exists>s mem' h'. fp_new p element_size element_count mem h = Some (Inr (s, mem', h')) \<and>
    fp_rep s mem' (rev [0..<unat element_count]) [] \<and> fp_element_size s = sz \<and> fp_element_count s = element_count \<and>
    (if element_count = 0 then fp_storage s = 0 \<and> h' = h else fp_storage s = p \<and> h' = heap_new p (sz * element_count) h)"
proof (cases "element_count = 0")
  case True
  have "8 \<le> unat sz" using assms(1) by (auto simp: fp_node_size_def word_less_nat_alt)
  then show ?thesis using True assms by (simp add: fp_new_def fp_rep_def fp_grid_def)
next
  case False
  let ?s = "\<lparr>fp_element_size = sz, fp_element_count = element_count, fp_storage = p, fp_free_list = 0\<rparr>"
  let ?P = "\<lambda>k st. \<exists>a mem'. st = (?s\<lparr>fp_free_list := a\<rparr>, mem') \<and> fp_chain ?s mem' a (rev [0..<k])"
  have "8 \<le> unat sz" using assms(1) by (auto simp: fp_node_size_def word_less_nat_alt)
  then have g: "fp_grid ?s" using assms by (simp add: fp_grid_def)
  have "\<exists>st. for_range 0 element_count (\<lambda>i. fp_link (p + i * sz)) (?s, mem) = Some st \<and> ?P (unat element_count) st"
  proof (rule for_range_rule [where P = ?P])
    fix i st
    assume i: "i < element_count" and "?P (unat i) st"
    then obtain a mem' where st: "st = (?s\<lparr>fp_free_list := a\<rparr>, mem')" "fp_chain ?s mem' a (rev [0..<unat i])" by blast
    have u: "unat i < unat element_count" using i by (simp add: word_less_nat_alt)
    have ad: "fp_addr (?s\<lparr>fp_free_list := a\<rparr>) (unat i) = p + i * sz" by (simp add: fp_addr_def)
    let ?t = "?s\<lparr>fp_free_list := a\<rparr>"
    have t: "fp_grid ?t" "fp_chain ?t mem' (fp_free_list ?t) (rev [0..<unat i])" "unat i < unat (fp_element_count ?t)"
        "unat i \<notin> set (rev [0..<unat i])" "\<forall>j \<in> set (rev [0..<unat i]). j < unat (fp_element_count ?t)"
      unfolding fp_grid_free_list fp_chain_free_list using g st(2) u by simp_all
    have ft: "fp_free_list ?t = a" by simp
    note L = fp_link_grid [OF t, unfolded ad ft fp_chain_free_list]
    have "fp_link (p + i * sz) st = Some (?s\<lparr>fp_free_list := p + i * sz\<rparr>, mem'(p + i * sz \<mapsto> a))"
      unfolding st(1) using L(1) by simp
    moreover have "fp_chain ?s (mem'(p + i * sz \<mapsto> a)) (p + i * sz) (rev [0..<Suc (unat i)])"
      using L(2) by (simp only: upt_Suc le0 if_True rev_append rev.simps append.simps)
    ultimately show "\<exists>st'. fp_link (p + i * sz) st = Some st' \<and> ?P (Suc (unat i)) st'" by blast
  qed simp_all
  then obtain a mem' where r: "for_range 0 element_count (\<lambda>i. fp_link (p + i * sz)) (?s, mem) = Some (?s\<lparr>fp_free_list := a\<rparr>, mem')"
    "fp_chain ?s mem' a (rev [0..<unat element_count])" by blast
  have n: "fp_new p element_size element_count mem h =
      Some (Inr (?s\<lparr>fp_free_list := a\<rparr>, mem', heap_new p (sz * element_count) h))"
    using False assms(4) r(1) by (simp add: fp_new_def assms(1) Let_def)
  have "fp_rep (?s\<lparr>fp_free_list := a\<rparr>) mem' (rev [0..<unat element_count]) []"
    unfolding fp_rep_def fp_chain_free_list fp_grid_free_list using g r(2) by (auto simp: atLeast0LessThan)
  then show ?thesis using n False by auto
qed

text \<open>A loop that ends has run its body for every index.\<close>

lemma for_range_all:
  assumes step: "\<And>j t t'. P t \<Longrightarrow> body j t = Some t' \<Longrightarrow> P t' \<and> Q j"
  shows "for_range lo hi body s = Some s' \<Longrightarrow> P s \<Longrightarrow> unat lo \<le> unat i \<Longrightarrow> i < hi \<Longrightarrow> Q i"
proof (induction "unat hi - unat lo" arbitrary: lo s)
  case 0
  then show ?case by (simp add: word_less_nat_alt)
next
  case (Suc n)
  have l: "lo < hi" using Suc.hyps(2) by (simp add: word_less_nat_alt)
  then obtain t where t: "body lo s = Some t" "for_range (lo + 1) hi body t = Some s'"
    using Suc.prems(1) by (auto simp: for_range.simps [of lo] split: bind_splits)
  note P = step [OF Suc.prems(2) t(1)]
  show ?case
  proof (cases "i = lo")
    case False
    then have "unat (lo + 1) \<le> unat i" using Suc.prems(3) l by (simp add: unat_plus1 word_unat_eq_iff)
    moreover have "n = unat hi - unat (lo + 1)" using Suc.hyps(2) l by (simp add: unat_plus1)
    ultimately show ?thesis using Suc.hyps(1) [of "lo + 1" t] t(2) P Suc.prems(4) by simp
  qed (use P in simp)
qed

lemma fp_link_step:
  assumes "fp_storage (fst st) = p \<and> fp_element_size (fst st) = sz \<and> fp_element_count (fst st) = n"
    "fp_link a st = Some st'"
  shows "(fp_storage (fst st') = p \<and> fp_element_size (fst st') = sz \<and> fp_element_count (fst st') = n) \<and>
    unat (a - p) + 8 \<le> unat (sz * n) \<and> 8 dvd unat a"
  using assms by (cases st)
    (auto simp: fp_link_def fp_store_def fp_node_ok_def fp_bytes_def fp_node_size_def split: bind_splits if_splits)

lemma fp_new_in_storage:
  assumes "sz = (if element_size < fp_node_size then fp_node_size else element_size)" "p \<noteq> 0"
    and "fp_new p element_size element_count mem h = Some (Inr r)" "i < element_count"
  shows "unat (i * sz) + 8 \<le> unat (sz * element_count) \<and> 8 dvd unat (p + i * sz)"
proof -
  let ?s = "\<lparr>fp_element_size = sz, fp_element_count = element_count, fp_storage = p, fp_free_list = 0\<rparr>"
  have "element_count \<noteq> 0" using assms(4) by auto
  then obtain st where st: "for_range 0 element_count (\<lambda>i. fp_link (p + i * sz)) (?s, mem) = Some st"
    using assms(2,3) by (auto simp: fp_new_def Let_def assms(1) [symmetric] split: bind_splits)
  have "unat (p + i * sz - p) + 8 \<le> unat (sz * element_count) \<and> 8 dvd unat (p + i * sz)"
    by (rule for_range_all [where i = i and Q = "\<lambda>i. unat (p + i * sz - p) + 8 \<le> unat (sz * element_count) \<and> 8 dvd unat (p + i * sz)"
          and P = "\<lambda>st. fp_storage (fst st) = p \<and> fp_element_size (fst st) = sz \<and> fp_element_count (fst st) = element_count",
          OF fp_link_step st]) (use assms(4) in simp_all)
  then show ?thesis by simp
qed


lemma unat_mult_small: "unat (a :: usize) * unat b < 2 ^ 64 \<Longrightarrow> unat (a * b) = unat a * unat b"
  by (simp add: unat_word_ariths)

lemma fp_new_overflow:
  assumes "sz = (if element_size < fp_node_size then fp_node_size else element_size)" "p \<noteq> 0"
    and "fp_new p element_size element_count mem h = Some (Inr r)" "unat (sz * element_count) < 2 ^ 63"
  shows "unat sz * unat element_count < 2 ^ 64"
proof -
  let ?R = "unat (sz * element_count)" and ?S = "unat sz" and ?C = "unat element_count"
  have in_storage: "unat (of_nat k * sz) + 8 \<le> ?R" if "k < ?C" for k
  proof -
    have "k < 2 ^ 64" by (rule less_trans [OF that]) simp
    then have "unat (of_nat k :: usize) = k" by (rule unat_of_nat_usize)
    then have "(of_nat k :: usize) < element_count" using that by (simp add: word_less_nat_alt)
    from fp_new_in_storage [OF assms(1-3) this] show ?thesis by simp
  qed
  have "k * ?S + 8 \<le> ?R" if "k < ?C" "1 < ?C" for k
    using that(1)
  proof (induction k)
    case 0
    then show ?case using in_storage [of 0] by simp
  next
    case (Suc k)
    have "?S < 2 ^ 63" using in_storage [of 1] that(2) assms(4) by simp
    then have lt: "Suc k * ?S < 2 ^ 64" using Suc assms(4) by simp
    have "Suc k < 2 ^ 64" by (rule less_trans [OF Suc.prems]) simp
    then have u: "unat (of_nat (Suc k) :: usize) = Suc k" by (rule unat_of_nat_usize)
    have "unat (of_nat (Suc k) * sz) = Suc k * ?S"
      using unat_mult_small [of "of_nat (Suc k)" sz] lt unfolding u .
    then show ?case using in_storage [OF Suc.prems] by simp
  qed note grid = this
  consider "?C = 0" | "?C = 1" | "1 < ?C" by linarith
  then show ?thesis
  proof cases
    case 3
    have "?S < 2 ^ 63" using in_storage [of 1] 3 assms(4) by simp
    moreover have "(?C - 1) * ?S + 8 \<le> ?R" using grid [OF _ 3] 3 by simp
    moreover have "?S * ?C = (?C - 1) * ?S + ?S" using 3 by (cases ?C) simp_all
    moreover have "b < 2 ^ 64" if "S < 2 ^ 63" "a + 8 \<le> r" "b = a + S" "r < 2 ^ 63" for a b r S :: nat
      using that by simp
    ultimately show ?thesis using assms(4) by blast
  qed simp_all
qed

lemma fp_new_misaligned:
  assumes "sz = (if element_size < fp_node_size then fp_node_size else element_size)" "p \<noteq> 0"
    and "fp_new p element_size element_count mem h = Some (Inr r)" "1 < element_count"
  shows "8 dvd unat sz"
proof -
  have "0 < element_count" using assms(4) by (simp add: word_less_nat_alt)
  then have p: "8 dvd unat p" using fp_new_in_storage [OF assms(1-3), of 0] by simp
  have ps: "8 dvd unat (p + sz)" using fp_new_in_storage [OF assms(1-4)] by simp
  have "unat (p + sz) = (unat p + unat sz) mod 2 ^ 64" by (simp add: unat_word_ariths)
  then have "8 dvd (unat p + unat sz) mod 2 ^ 64" using ps by simp
  then have "8 dvd unat p + unat sz" by (simp add: dvd_mod_iff)
  then show ?thesis using p by (simp add: dvd_add_right_iff)
qed

section \<open>Properties\<close>

text \<open>
  C20. However a pool is used -- blocks acquired, returned in any order, written by their
  owners -- the blocks handed out and not returned never overlap and lie within its
  storage; a request is refused exactly when all of them are handed out; and no operation
  reaches undefined behaviour. The element size, raised to that of a node, must be a
  multiple of the alignment of a pointer and the storage must fit the address space.
\<close>

theorem pool_blocks_are_disjoint:
  assumes "sz = (if element_size < fp_node_size then fp_node_size else element_size)"
    and "8 dvd unat sz" "8 dvd unat p" "p \<noteq> 0" "unat p + unat element_count * unat sz < 2 ^ 64"
    and "fp_new p element_size element_count mem h = Some (Inr (s0, mem0, h0))"
    and "block_run fp_fair unat (\<lambda>_. fp_allocate) fp_deallocate fp_touch (s0, mem0) (s, m) bs"
  shows "separate bs \<and> list_all (within (unat (fp_storage s0), unat element_count * unat sz)) bs \<and>
    list_all (\<lambda>b. snd b = unat sz) bs \<and> length bs \<le> unat element_count \<and>
    (\<exists>q st. fp_allocate (s, m) = Some (q, st) \<and> (q = 0 \<longleftrightarrow> length bs = unat element_count)) \<and>
    (\<forall>q n. (unat q, n) \<in> set bs \<longrightarrow> fp_deallocate q (s, m) \<noteq> None)"
proof -
  have new: "fp_rep s0 mem0 (rev [0..<unat element_count]) []" "fp_element_size s0 = sz" "fp_element_count s0 = element_count"
    using fp_new_rep [OF assms(1-5), of mem h] assms(6) by auto
  then have h0: "fp_holds (s0, mem0) []" by (auto simp: fp_holds_def)
  note run = pool.run_holds [OF assms(7) h0]
  obtain free out where r: "fp_rep s m free out" "bs = map (fp_block s) out" using run by (auto simp: fp_holds_def)
  have "block_run fp_fair unat (\<lambda>_. fp_allocate) fp_deallocate fp_touch (s0, mem0) st bs \<Longrightarrow>
      fp_element_size (fst st) = sz \<and> fp_element_count (fst st) = element_count" for st bs
    by (induction rule: block_run.induct)
      (auto simp: new fp_allocate_def fp_deallocate_def fp_link_def fp_touch_def split: if_splits bind_splits)
  from this [OF assms(7)] have k: "fp_element_size s = sz" "fp_element_count s = element_count" by simp_all
  have l: "length free + length out = unat element_count" using fp_repD(8) [OF r(1)] k by simp
  have "\<exists>q st. fp_allocate (s, m) = Some (q, st) \<and> (q = 0 \<longleftrightarrow> length bs = unat element_count)"
  proof (cases free)
    case Nil
    then show ?thesis using fp_allocate_Nil [of s m out] r l by simp
  next
    case (Cons i "is")
    then show ?thesis using fp_allocate_Cons [of s m i "is" out] r l by auto
  qed
  moreover have reg: "fp_region (s0, mem0) = (unat (fp_storage s0), unat element_count * unat sz)"
    using new by (simp add: fp_region_def)
  moreover have "list_all (\<lambda>b. snd b = unat sz) bs" by (simp add: r(2) list_all_iff fp_block_def k)
  moreover have "list_all (within (unat (fp_storage s0), unat element_count * unat sz)) bs"
    using pool.holds_within [of "(s, m)" bs] run reg by simp
  moreover have "separate bs" using pool.holds_separate run by blast
  moreover have "length bs \<le> unat element_count" using l r(2) by simp
  moreover have "\<forall>q n. (unat q, n) \<in> set bs \<longrightarrow> fp_deallocate q (s, m) \<noteq> None"
    using pool.run_progress(2) [OF assms(7) h0] by blast
  ultimately show ?thesis by blast
qed

lemma fp_demo_new:
  "\<exists>s m h. fp_new 4096 12 3 (\<lambda>_. None) (\<lambda>_. None) = None \<and>
     fp_new 4096 16 3 (\<lambda>_. None) (\<lambda>_. None) = Some (Inr (s, m, h)) \<and> fp_holds (s, m) [] \<and>
     fp_allocate (s, m) = Some (4128, s\<lparr>fp_free_list := 4112\<rparr>, m) \<and> fp_element_size s = 16 \<and> fp_storage s = 4096"
proof -
  have bad: "fp_new 4096 12 3 (\<lambda>_. None) (\<lambda>_. None) = None"
  proof (cases "fp_new 4096 12 3 (\<lambda>_. None) (\<lambda>_. None)")
    case (Some r)
    then obtain r' where "r = Inr r'" by (auto simp: fp_new_def Let_def split: if_splits bind_splits)
    then show ?thesis using fp_new_misaligned [of 12 12 4096 3 "\<lambda>_. None" "\<lambda>_. None" r'] Some by (simp add: fp_node_size_def)
  qed
  obtain s m h where n: "fp_new 4096 16 3 (\<lambda>_. None) (\<lambda>_. None) = Some (Inr (s, m, h))"
    "fp_rep s m (rev [0..<3]) []" "fp_element_size s = 16" "fp_storage s = 4096"
    using fp_new_rep [of 16 16 4096 3 "\<lambda>_. None" "\<lambda>_. None"] by (auto simp: fp_node_size_def)
  have "rev [0..<3] = [2, 1, 0 :: nat]" by (simp add: upt_rec)
  then have c: "fp_chain s m (fp_free_list s) [2, 1, 0]" using fp_repD(2) [OF n(2)] by (simp only:)
  have ad: "fp_addr s 2 = 4128" "fp_addr s (Suc 0) = 4112" using n(3,4) by (simp_all add: fp_addr_def)
  have "fp_free_list s = 4128" using c ad by simp
  moreover from this have "m 4128 = Some 4112" using c ad by simp
  moreover have "fp_node_ok s 4128" using grid_node_ok [of s 2] fp_repD(1,8) [OF n(2)] ad by simp
  ultimately have "fp_allocate (s, m) = Some (4128, s\<lparr>fp_free_list := 4112\<rparr>, m)"
    by (simp add: fp_allocate_def fp_load_def)
  moreover have "fp_holds (s, m) []" using n(2) by (auto simp: fp_holds_def)
  ultimately show ?thesis using n bad by blast
qed

theorem pool_blocks_are_disjoint_witness:
  "\<exists>s m h st. fp_new 4096 16 3 (\<lambda>_. None) (\<lambda>_. None) = Some (Inr (s, m, h)) \<and>
     fp_allocate (s, m) = Some (4128, st) \<and> separate [(4128, 16)] \<and> fp_deallocate 4128 st \<noteq> None"
proof -
  obtain s m h where n: "fp_new 4096 16 3 (\<lambda>_. None) (\<lambda>_. None) = Some (Inr (s, m, h))"
    "fp_allocate (s, m) = Some (4128, s\<lparr>fp_free_list := 4112\<rparr>, m)" "fp_element_size s = 16" "fp_storage s = 4096"
    using fp_demo_new by blast
  have "block_run fp_fair unat (\<lambda>_. fp_allocate) fp_deallocate fp_touch (s, m) (s\<lparr>fp_free_list := 4112\<rparr>, m) (granted 4128 (unat (16 :: usize)) @ [])"
    by (rule run_acquire [OF run_start]) (simp_all add: n fp_fair_def)
  from pool_blocks_are_disjoint [OF _ _ _ _ _ n(1) this, of 16] n(1,2) show ?thesis
    by (simp add: fp_node_size_def)
qed

text \<open>
  Construction of a pool. Under the conditions of the previous property it succeeds,
  and destroying the pool gives the memory back; a failed allocation is reported as
  \<open>std::bad_alloc\<close>; a pool of no elements is empty. But the byte count is not checked: if
  \<open>element_size * element_count\<close> overflows, the constructor writes behind its storage
  whenever the (too small) allocation succeeds; and if the element size is not a multiple of
  the alignment of a pointer, it writes misaligned nodes. Both are undefined behaviour.
\<close>

theorem pool_construction:
  assumes "sz = (if element_size < fp_node_size then fp_node_size else element_size)"
    and "unat (sz * element_count) < 2 ^ 63"
  shows "(element_count = 0 \<longrightarrow> (\<exists>s. fp_new p element_size element_count mem h = Some (Inr (s, mem, h)) \<and>
      fp_allocate (s, mem) = Some (0, s, mem) \<and> fp_destroy s h = Some h)) \<and>
    (element_count \<noteq> 0 \<and> p = 0 \<longrightarrow> fp_new p element_size element_count mem h = Some (Inl Bad_alloc)) \<and>
    (element_count \<noteq> 0 \<and> p \<noteq> 0 \<and> fresh_block p (sz * element_count) h \<and> 8 dvd unat p \<and> 8 dvd unat sz \<and>
      unat p + unat element_count * unat sz < 2 ^ 64 \<longrightarrow>
      (\<exists>s m h'. fp_new p element_size element_count mem h = Some (Inr (s, m, h')) \<and>
        fp_capacity s = element_count \<and> fp_destroy s h' = Some h)) \<and>
    (element_count \<noteq> 0 \<and> p \<noteq> 0 \<and> 2 ^ 64 \<le> unat sz * unat element_count \<longrightarrow>
      fp_new p element_size element_count mem h = None) \<and>
    (1 < element_count \<and> p \<noteq> 0 \<and> \<not> 8 dvd unat sz \<longrightarrow> fp_new p element_size element_count mem h = None)"
proof -
  have fails: "fp_new p element_size element_count mem h = None"
    if "p \<noteq> 0" "\<And>r. fp_new p element_size element_count mem h = Some (Inr r) \<Longrightarrow> False"
  proof (cases "fp_new p element_size element_count mem h")
    case (Some r)
    then show ?thesis using that by (cases r) (auto simp: fp_new_def Let_def split: if_splits bind_splits)
  qed
  have 1: "element_count = 0 \<longrightarrow> (\<exists>s. fp_new p element_size element_count mem h = Some (Inr (s, mem, h)) \<and>
      fp_allocate (s, mem) = Some (0, s, mem) \<and> fp_destroy s h = Some h)"
    by (simp add: fp_new_def fp_allocate_def fp_destroy_def heap_delete_def)
  have 2: "element_count \<noteq> 0 \<and> p = 0 \<longrightarrow> fp_new p element_size element_count mem h = Some (Inl Bad_alloc)"
    by (simp add: fp_new_def)
  have 3: "\<exists>s m h'. fp_new p element_size element_count mem h = Some (Inr (s, m, h')) \<and>
        fp_capacity s = element_count \<and> fp_destroy s h' = Some h"
    if "element_count \<noteq> 0" "p \<noteq> 0" "fresh_block p (sz * element_count) h" "8 dvd unat p" "8 dvd unat sz"
      "unat p + unat element_count * unat sz < 2 ^ 64"
    using fp_new_rep [OF assms(1) that(5,4,2,6), of mem h] heap_delete_new [OF that(3)] that(1)
    by (auto simp: fp_destroy_def fp_capacity_def)
  have 4: "element_count \<noteq> 0 \<and> p \<noteq> 0 \<and> 2 ^ 64 \<le> unat sz * unat element_count \<longrightarrow>
      fp_new p element_size element_count mem h = None"
    using fp_new_overflow [OF assms(1) _ _ assms(2), of p mem h] fails by (meson linorder_not_less)
  have 5: "1 < element_count \<and> p \<noteq> 0 \<and> \<not> 8 dvd unat sz \<longrightarrow> fp_new p element_size element_count mem h = None"
    using fp_new_misaligned [OF assms(1), of p element_count mem h] fails by meson
  show ?thesis using 1 2 3 by (intro conjI 4 5) blast+
qed

theorem pool_construction_witness:
  "fp_new 4096 (2 ^ 32) (2 ^ 32) (\<lambda>_. None) (\<lambda>_. None) = None \<and> fp_new 4096 12 3 (\<lambda>_. None) (\<lambda>_. None) = None"
  using pool_construction [of "2 ^ 32" "2 ^ 32" "2 ^ 32" 4096 "\<lambda>_. None" "\<lambda>_. None"]
    pool_construction [of 12 12 3 4096 "\<lambda>_. None" "\<lambda>_. None"] by (simp add: fp_node_size_def)

text \<open>
  C23. Allocation and deallocation undo each other: returning a block just acquired restores
  the pool and the memory exactly, and a block returned is the next one handed out, which
  restores the free list.
\<close>

theorem pool_allocate_deallocate_inverse:
  "(fp_allocate (s, m) = Some (p, st) \<and> p \<noteq> 0 \<longrightarrow> fp_deallocate p st = Some (s, m)) \<and>
    (fp_deallocate p (s, m) = Some st \<and> p \<noteq> 0 \<longrightarrow>
      fp_allocate st = Some (p, s, m(p \<mapsto> fp_free_list s)) \<and> fst st = s\<lparr>fp_free_list := p\<rparr>)"
proof -
  have ok: "fp_node_ok (s\<lparr>fp_free_list := b\<rparr>) a = fp_node_ok s a" for a b
    by (simp add: fp_node_ok_def fp_bytes_def)
  have "fp_deallocate p st = Some (s, m)" if "fp_allocate (s, m) = Some (p, st)" "p \<noteq> 0"
  proof -
    from that obtain b where b: "p = fp_free_list s" "fp_node_ok s p" "m p = Some b" "st = (s\<lparr>fp_free_list := b\<rparr>, m)"
      by (auto simp: fp_allocate_def fp_load_def split: if_splits bind_splits)
    have "m(p \<mapsto> b) = m" using b(3) by (simp add: fun_upd_idem)
    then show ?thesis using b that(2) by (simp add: fp_deallocate_def fp_link_def fp_store_def ok)
  qed
  moreover have "fp_allocate st = Some (p, s, m(p \<mapsto> fp_free_list s)) \<and> fst st = s\<lparr>fp_free_list := p\<rparr>"
    if "fp_deallocate p (s, m) = Some st" "p \<noteq> 0"
    using that by (auto simp: fp_deallocate_def fp_link_def fp_store_def fp_allocate_def fp_load_def ok split: if_splits bind_splits)
  ultimately show ?thesis by blast
qed

theorem pool_allocate_deallocate_inverse_witness:
  "\<exists>s m st. fp_allocate (s, m) = Some (4128, st) \<and> fp_deallocate 4128 st = Some (s, m)"
proof -
  obtain s m where a: "fp_allocate (s, m) = Some (4128, s\<lparr>fp_free_list := 4112\<rparr>, m)" using fp_demo_new by blast
  then show ?thesis using pool_allocate_deallocate_inverse [of s m 4128 "(s\<lparr>fp_free_list := 4112\<rparr>, m)"] by auto
qed

text \<open>
  The pool does not detect a block returned twice: the block becomes its own successor
  in the free list, and from then on every request is answered with it.
\<close>

theorem pool_double_free:
  assumes "fp_holds (s, m) bs" "(unat q, n) \<in> set bs"
  shows "\<exists>st1 st2. fp_deallocate q (s, m) = Some st1 \<and> fp_deallocate q st1 = Some st2 \<and>
    serve (\<lambda>_. fp_allocate) (replicate k r) st2 = Some (replicate k q, st2)"
proof -
  obtain free out where r: "fp_rep s m free out" "bs = map (fp_block s) out" using assms(1) by (auto simp: fp_holds_def)
  obtain i where i: "i \<in> set out" "q = fp_addr s i" using fp_outstanding [OF r(1)] assms(2) r(2) by metis
  note D = fp_repD [OF r(1)]
  have ok: "fp_node_ok (s\<lparr>fp_free_list := b\<rparr>) q" "q \<noteq> 0" for b
    using grid_node_ok [OF D(1) D(7) [OF i(1)]] unat_grid(3) [OF D(1) D(7) [OF i(1)]] i(2)
    by (simp_all add: fp_node_ok_def fp_bytes_def)
  let ?s = "s\<lparr>fp_free_list := q\<rparr>"
  have 1: "fp_deallocate q (s, m) = Some (?s, m(q \<mapsto> fp_free_list s))"
    using fp_deallocate_rep(1) [OF r(1) i(1)] i(2) by simp
  have 2: "fp_deallocate q (?s, m(q \<mapsto> fp_free_list s)) = Some (?s, m(q \<mapsto> q))"
    using ok by (simp add: fp_deallocate_def fp_link_def fp_store_def)
  have "fp_allocate (?s, m(q \<mapsto> q)) = Some (q, ?s, m(q \<mapsto> q))"
    using ok by (simp add: fp_allocate_def fp_load_def)
  then have "serve (\<lambda>_. fp_allocate) (replicate k r) (?s, m(q \<mapsto> q)) = Some (replicate k q, ?s, m(q \<mapsto> q))"
    by (induction k) simp_all
  then show ?thesis using 1 2 by blast
qed

lemma fp_demo_out:
  "\<exists>s m. fp_holds (s, m) [(4128, 16)] \<and> fp_element_size s = 16"
proof -
  obtain s m where d: "fp_holds (s, m) []" "fp_element_size s = 16"
    "fp_allocate (s, m) = Some (4128, s\<lparr>fp_free_list := 4112\<rparr>, m)" using fp_demo_new by blast
  have "fp_holds (s\<lparr>fp_free_list := 4112\<rparr>, m) (granted 4128 (unat (16 :: usize)) @ [])"
    by (rule pool.alloc_step(1) [OF d(1) _ d(3)]) (simp add: fp_fair_def d(2))
  then show ?thesis using d(2) by (intro exI [of _ "s\<lparr>fp_free_list := 4112\<rparr>"] exI [of _ m]) simp
qed

theorem pool_double_free_witness:
  "\<exists>s m st1 st2. fp_holds (s, m) [(4128, 16)] \<and> fp_deallocate 4128 (s, m) = Some st1 \<and> fp_deallocate 4128 st1 = Some st2 \<and>
     serve (\<lambda>_. fp_allocate) (replicate 4 ()) st2 = Some (replicate 4 4128, st2)"
proof -
  obtain s m where h: "fp_holds (s, m) [(4128, 16)]" using fp_demo_out by blast
  have "(unat (4128 :: usize), 16) \<in> set [(4128, 16 :: nat)]" by simp
  from pool_double_free [OF h this, of 4 "()"] show ?thesis using h by blast
qed

text \<open>
  \<open>pool_allocator<T>\<close> serves one object at a time: for any other number, and when the
  pool is exhausted, it throws \<open>std::bad_alloc\<close> without any effect. It does not compare
  \<open>sizeof(T)\<close> with the element size of the pool: the first two blocks of a new pool are one
  element size apart, so that two objects of any larger type overlap.
\<close>

theorem pool_allocator_serves_one:
  assumes "fp_holds st bs"
  shows "(n \<noteq> 1 \<longrightarrow> pa_allocate n st = Some (Inl Bad_alloc, st)) \<and>
    (\<exists>r st'. pa_allocate 1 st = Some (r, st') \<and> fp_holds st' ((case r of Inl e \<Rightarrow> [] | Inr p \<Rightarrow> [(unat p, unat (fp_element_size (fst st)))]) @ bs) \<and>
      (case r of Inl e \<Rightarrow> e = Bad_alloc \<and> st' = st | Inr p \<Rightarrow> p \<noteq> 0)) \<and>
    (fp_rep s m (Suc i # i # is) out \<and> unat (fp_element_size s) < size_T \<longrightarrow>
      (\<exists>p q st1 st2. pa_allocate 1 (s, m) = Some (Inr p, st1) \<and> pa_allocate 1 st1 = Some (Inr q, st2) \<and>
        \<not> apart (unat p, size_T) (unat q, size_T)))"
proof -
  obtain s0 m0 where st: "st = (s0, m0)" by (cases st)
  have pa: "pa_allocate 1 s = do { (p, s') \<leftarrow> fp_allocate s; Some (if p = 0 then Inl Bad_alloc else Inr p, s') }" for s
    by (simp add: pa_allocate_def)
  have 1: "\<exists>r st'. pa_allocate 1 st = Some (r, st') \<and> fp_holds st' ((case r of Inl e \<Rightarrow> [] | Inr p \<Rightarrow> [(unat p, unat (fp_element_size (fst st)))]) @ bs) \<and>
      (case r of Inl e \<Rightarrow> e = Bad_alloc \<and> st' = st | Inr p \<Rightarrow> p \<noteq> 0)"
  proof -
    have "fp_fair (fp_element_size s0) st" by (simp add: fp_fair_def st)
    from pool.alloc_holds [OF assms this] obtain p st' where
      a: "fp_allocate st = Some (p, st')" "fp_holds st' (granted p (unat (fp_element_size s0)) @ bs)" by blast
    have "p = 0 \<Longrightarrow> st' = st" using a(1) st assms
      by (auto simp: fp_allocate_def fp_holds_def split: if_splits bind_splits)
    then show ?thesis using a by (cases "p = 0") (auto simp: pa st)
  qed
  have 2: "\<exists>p q st1 st2. pa_allocate 1 (s, m) = Some (Inr p, st1) \<and> pa_allocate 1 st1 = Some (Inr q, st2) \<and>
        \<not> apart (unat p, size_T) (unat q, size_T)"
    if r: "fp_rep s m (Suc i # i # is) out" "unat (fp_element_size s) < size_T"
  proof -
    obtain b where b: "fp_allocate (s, m) = Some (fp_addr s (Suc i), s\<lparr>fp_free_list := b\<rparr>, m)" "fp_addr s (Suc i) \<noteq> 0"
      "fp_rep (s\<lparr>fp_free_list := b\<rparr>) m (i # is) (Suc i # out)" using fp_allocate_Cons [OF r(1)] by blast
    obtain c where c: "fp_allocate (s\<lparr>fp_free_list := b\<rparr>, m) = Some (fp_addr s i, s\<lparr>fp_free_list := c\<rparr>, m)" "fp_addr s i \<noteq> 0"
      using fp_allocate_Cons [OF b(3)] by auto
    note D = fp_repD [OF r(1)]
    have "unat (fp_addr s (Suc i)) = unat (fp_addr s i) + unat (fp_element_size s)"
      using unat_grid(2) [OF D(1), of i] unat_grid(2) [OF D(1), of "Suc i"] D(6) by simp
    then show ?thesis using b c r(2) by (auto simp: pa apart_def)
  qed
  show ?thesis using 1 2 by (auto simp: pa_allocate_def)
qed

theorem pool_allocator_serves_one_witness:
  "\<exists>st r st'. pa_allocate 2 st = Some (Inl Bad_alloc, st) \<and> pa_allocate 1 st = Some (r, st') \<and>
     fp_holds st' ((case r of Inl e \<Rightarrow> [] | Inr p \<Rightarrow> [(unat p, 16)]) @ [])"
proof -
  obtain s m where h: "fp_holds (s, m) []" "fp_element_size s = 16" using fp_demo_new by blast
  then have e: "unat (fp_element_size (fst (s, m))) = 16" by simp
  note P = pool_allocator_serves_one [OF h(1), of 2 s m 0 "[]" "[]" 32, unfolded e]
  have "pa_allocate 2 (s, m) = Some (Inl Bad_alloc, s, m)" using P by simp
  with P show ?thesis by blast
qed

lemma fp_new_destroy:
  assumes "8 dvd unat sz" "0 < unat sz" "q \<noteq> 0 \<longrightarrow> 8 dvd unat q \<and> unat q + unat capacity * unat sz < 2 ^ 64"
    and "capacity = 0 \<or> q \<noteq> 0" "fresh_block q (sz * capacity) h"
  shows "\<exists>s m h'. fp_new q sz capacity mem h = Some (Inr (s, m, h')) \<and> fp_holds (s, m) [] \<and>
    fp_capacity s = capacity \<and> fp_destroy s h' = Some h"
proof -
  have s8: "8 \<le> unat sz" using assms(1,2) by (simp add: dvd_imp_le)
  then have sz: "sz = (if sz < fp_node_size then fp_node_size else sz)"
    by (simp add: fp_node_size_def word_less_nat_alt)
  show ?thesis
  proof (cases "capacity = 0")
    case True
    have "fp_rep \<lparr>fp_element_size = sz, fp_element_count = 0, fp_storage = 0, fp_free_list = 0\<rparr> mem [] []"
      using assms(1) s8 by (simp add: fp_rep_def fp_grid_def)
    then show ?thesis using True sz
      by (auto simp: fp_new_def Let_def fp_holds_def fp_capacity_def fp_destroy_def heap_delete_def)
  next
    case False
    then have q: "q \<noteq> 0" using assms(4) by simp
    then have "8 dvd unat q" "unat q + unat capacity * unat sz < 2 ^ 64" using assms(3) by simp_all
    from fp_new_rep [OF sz assms(1) this(1) q this(2), of mem h] show ?thesis
      using False heap_delete_new [OF assms(5)] by (auto simp: fp_holds_def fp_capacity_def fp_destroy_def)
  qed
qed

text \<open>
  A \<open>numa_pool<T>\<close> is a \<open>fixed_pool\<close> with a second buffer beside it: its operations
  are those of the pool, its arena is never allocated from. Construction either succeeds,
  and then destruction gives both buffers back, or throws \<open>std::bad_alloc\<close> with the heap as
  it was.
\<close>

theorem numa_pool_lifecycle:
  assumes "8 dvd unat sz" "0 < unat sz" "q \<noteq> 0 \<longrightarrow> 8 dvd unat q \<and> unat q + unat capacity * unat sz < 2 ^ 64"
    and "fresh_block p (capacity * sz) h" "fresh_block q (sz * capacity) (heap_new p (capacity * sz) h)"
  shows "\<exists>r h'. np_new api p q sz capacity preferred_node mem h = Some (r, h') \<and>
    (case r of
       Inl e \<Rightarrow> e = Bad_alloc \<and> h' = h \<and> q = 0
     | Inr (s, m) \<Rightarrow> np_destroy s h' = Some h \<and> np_capacity s = capacity \<and> fp_holds (np_pool s, m) [] \<and>
         ar_used (na_arena (np_arena s)) = 0 \<and>
         (\<forall>b st. np_allocate (s, m) = Some (b, st) \<longrightarrow> np_arena (fst st) = np_arena s) \<and>
         (\<forall>b st. np_deallocate b (s, m) = Some st \<longrightarrow> np_arena (fst st) = np_arena s))"
proof -
  obtain a calls h1 where a: "na_new api p (capacity * sz) preferred_node h = (a, calls, h1)"
    by (cases "na_new api p (capacity * sz) preferred_node h")
  have a': "h1 = heap_new p (capacity * sz) h" "na_destroy a h1 = Some h" "ar_used (na_arena a) = 0"
    using a heap_delete_new [OF assms(4)]
    by (auto simp: na_new_def Let_def ar_new_def na_destroy_def ar_destroy_def ar_used_def heap_new_def
        split: if_splits option.splits)
  have keep: "(\<forall>b st. np_allocate (s, m) = Some (b, st) \<longrightarrow> np_arena (fst st) = np_arena s) \<and>
         (\<forall>b st. np_deallocate b (s, m) = Some st \<longrightarrow> np_arena (fst st) = np_arena s)" for s m
    by (auto simp: np_allocate_def np_deallocate_def split: bind_splits)
  show ?thesis
  proof (cases "capacity \<noteq> 0 \<and> q = 0")
    case True
    then show ?thesis using a a' by (simp add: np_new_def fp_new_def Let_def)
  next
    case False
    then have "capacity = 0 \<or> q \<noteq> 0" by simp
    from fp_new_destroy [OF assms(1,2,3) this, of h1 mem] assms(5) a'(1)
    have "\<exists>s m h2. fp_new q sz capacity mem h1 = Some (Inr (s, m, h2)) \<and> fp_holds (s, m) [] \<and>
        fp_capacity s = capacity \<and> fp_destroy s h2 = Some h1" by simp
    then obtain s m h2 where n: "fp_new q sz capacity mem h1 = Some (Inr (s, m, h2))" "fp_holds (s, m) []"
      "fp_capacity s = capacity" "fp_destroy s h2 = Some h1" by blast
    let ?s = "\<lparr>np_arena = a, np_pool = s\<rparr>"
    have "np_new api p q sz capacity preferred_node mem h = Some (Inr (?s, m), h2)"
      using a n(1) by (simp add: np_new_def)
    moreover have "np_destroy ?s h2 = Some h" using a'(2) n(4) by (simp add: np_destroy_def)
    ultimately show ?thesis using n(2,3) a'(3) keep [of ?s m] by (simp add: np_capacity_def)
  qed
qed

theorem numa_pool_lifecycle_witness:
  "\<exists>r h'. np_new \<lparr>nu_linux = True, nu_available = False, nu_mask_size = None\<rparr> 4096 8192 16 3 0 (\<lambda>_. None) (\<lambda>_. None) = Some (r, h') \<and>
     (case r of Inl e \<Rightarrow> h' = (\<lambda>_. None) | Inr (s, m) \<Rightarrow> np_destroy s h' = Some (\<lambda>_. None) \<and> np_capacity s = 3)"
proof -
  have f: "fresh_block 4096 (3 * 16) (\<lambda>_. None)" "fresh_block 8192 (16 * 3) (heap_new 4096 (3 * 16) (\<lambda>_. None))"
    by (simp_all add: fresh_block_def heap_new_def)
  from numa_pool_lifecycle [OF _ _ _ f, of "\<lparr>nu_linux = True, nu_available = False, nu_mask_size = None\<rparr>" 0 "\<lambda>_. None"]
  obtain r h' where "np_new \<lparr>nu_linux = True, nu_available = False, nu_mask_size = None\<rparr> 4096 8192 16 3 0 (\<lambda>_. None) (\<lambda>_. None) = Some (r, h')"
    "case r of Inl e \<Rightarrow> e = Bad_alloc \<and> h' = (\<lambda>_. None) \<and> (8192 :: usize) = 0
       | Inr (s, m) \<Rightarrow> np_destroy s h' = Some (\<lambda>_. None) \<and> np_capacity s = 3 \<and> fp_holds (np_pool s, m) [] \<and>
           ar_used (na_arena (np_arena s)) = 0 \<and>
           (\<forall>b st. np_allocate (s, m) = Some (b, st) \<longrightarrow> np_arena (fst st) = np_arena s) \<and>
           (\<forall>b st. np_deallocate b (s, m) = Some st \<longrightarrow> np_arena (fst st) = np_arena s)" by auto
  then show ?thesis by (cases r) auto
qed

end
