(* ===== verification/ShmRing.thy ===== *)
theory ShmRing
  imports HpcInterfaces
begin

text \<open>
  \<open>hpc::ipc::shm_region\<close> and \<open>hpc::ipc::shm_spsc_ring_buffer<T>\<close>
  (\<open>include/hpc/ipc/shm_ring_buffer.hpp\<close>, \<open>src/ipc/shm_ring_buffer.cpp\<close>): a ring in POSIX
  shared memory between a producing and a consuming process.

  The operating system is outside the program. The model keeps what the program can see of
  it: the names of shared memory objects, the objects, and how many descriptors and mappings
  the process holds. Whether a system call succeeds, where it could, is a parameter.
\<close>

section \<open>Shared memory objects\<close>

text \<open>
  An object, as a ring uses it: its size in bytes, the header, and the slots behind the
  header. Its content is only accessible as far as it was mapped and as it reaches.
\<close>

record 'a shm_object =
  so_size :: usize
  so_capacity :: usize
  so_head :: usize
  so_tail :: usize
  so_slots :: "usize \<Rightarrow> 'a"

record 'a shm_os =
  os_names :: "string \<Rightarrow> nat option"
  os_objects :: "nat \<Rightarrow> 'a shm_object"
  os_next :: nat
  os_fds :: nat
  os_maps :: nat

datatype os_error = EEXIST | ENOENT | Other_error

text \<open>\<open>shm_open(name, O_RDWR | (create ? O_CREAT | O_EXCL : 0), 0600)\<close>; a new object is empty.\<close>

definition os_shm_open :: "bool \<Rightarrow> bool \<Rightarrow> string \<Rightarrow> 'a shm_os \<Rightarrow> (os_error + nat) \<times> 'a shm_os" where
  "os_shm_open ok create name os =
     (if \<not> ok then (Inl Other_error, os)
      else case os_names os name of
          Some i \<Rightarrow> if create then (Inl EEXIST, os) else (Inr i, os\<lparr>os_fds := os_fds os + 1\<rparr>)
        | None \<Rightarrow>
            if create
            then (Inr (os_next os), os\<lparr>os_names := (os_names os)(name \<mapsto> os_next os), os_next := os_next os + 1,
              os_objects := (os_objects os)(os_next os := (os_objects os (os_next os))\<lparr>so_size := 0\<rparr>),
              os_fds := os_fds os + 1\<rparr>)
            else (Inl ENOENT, os))"

definition os_close :: "'a shm_os \<Rightarrow> 'a shm_os" where
  "os_close os = os\<lparr>os_fds := os_fds os - 1\<rparr>"

definition os_ftruncate :: "nat \<Rightarrow> usize \<Rightarrow> 'a shm_os \<Rightarrow> 'a shm_os" where
  "os_ftruncate i n os = os\<lparr>os_objects := (os_objects os)(i := (os_objects os i)\<lparr>so_size := n\<rparr>)\<rparr>"

definition os_mmap :: "'a shm_os \<Rightarrow> 'a shm_os" where
  "os_mmap os = os\<lparr>os_maps := os_maps os + 1\<rparr>"

definition os_munmap :: "'a shm_os \<Rightarrow> 'a shm_os" where
  "os_munmap os = os\<lparr>os_maps := os_maps os - 1\<rparr>"

definition os_shm_unlink :: "string \<Rightarrow> 'a shm_os \<Rightarrow> 'a shm_os" where
  "os_shm_unlink name os = os\<lparr>os_names := (os_names os)(name := None)\<rparr>"

section \<open>The region\<close>

record shm_ring_config =
  sc_name :: string
  sc_capacity :: usize
  sc_create :: bool

record shm_region =
  sr_object :: nat
  sr_size :: usize
  sr_name :: string
  sr_owner :: bool

text \<open>Which of the system calls succeed; \<open>mmap\<close> of no bytes never does.\<close>

record shm_outcome =
  ok_open :: bool
  ok_reopen :: bool
  ok_truncate :: bool
  ok_mmap :: bool

definition sr_open :: "shm_outcome \<Rightarrow> shm_ring_config \<Rightarrow> 'a shm_os \<Rightarrow> (os_error + nat) \<times> 'a shm_os" where
  "sr_open oc cfg os =
     (case os_shm_open (ok_open oc) (sc_create cfg) (sc_name cfg) os of
        (Inl EEXIST, os') \<Rightarrow>
          if sc_create cfg then os_shm_open (ok_reopen oc) False (sc_name cfg) os' else (Inl EEXIST, os')
      | r \<Rightarrow> r)"

definition sr_new :: "shm_outcome \<Rightarrow> shm_ring_config \<Rightarrow> 'a shm_os \<Rightarrow> (exn + shm_region) \<times> 'a shm_os" where
  "sr_new oc cfg os =
     (case sr_open oc cfg os of
        (Inl e, os1) \<Rightarrow> (Inl Runtime_error, os1)
      | (Inr i, os1) \<Rightarrow>
          if sc_create cfg \<and> \<not> ok_truncate oc then (Inl Runtime_error, os_close os1)
          else
            let os2 = (if sc_create cfg then os_ftruncate i (sc_capacity cfg) os1 else os1)
            in if \<not> ok_mmap oc \<or> sc_capacity cfg = 0 then (Inl Runtime_error, os_close os2)
               else (Inr \<lparr>sr_object = i, sr_size = sc_capacity cfg, sr_name = sc_name cfg, sr_owner = sc_create cfg\<rparr>,
                     os_mmap os2))"

definition sr_destroy :: "shm_region \<Rightarrow> 'a shm_os \<Rightarrow> 'a shm_os" where
  "sr_destroy r os =
     (let os' = os_close (os_munmap os) in if sr_owner r then os_shm_unlink (sr_name r) os' else os')"

section \<open>The ring\<close>

text \<open>
  \<open>sz\<close> is \<open>sizeof(T)\<close>, \<open>n\<close> the number of bytes mapped. An access beyond the mapping or
  beyond the end of the object is a fault.
\<close>

definition sh_header_size :: usize where
  "sh_header_size = 24"

definition so_header_ok :: "usize \<Rightarrow> 'a shm_object \<Rightarrow> bool" where
  "so_header_ok n ob \<longleftrightarrow> sh_header_size \<le> n \<and> sh_header_size \<le> so_size ob"

definition so_slot_ok :: "usize \<Rightarrow> usize \<Rightarrow> usize \<Rightarrow> 'a shm_object \<Rightarrow> bool" where
  "so_slot_ok sz n i ob \<longleftrightarrow>
     unat sh_header_size + (unat i + 1) * unat sz \<le> min (unat n) (unat (so_size ob))"

definition so_read :: "usize \<Rightarrow> usize \<Rightarrow> usize \<Rightarrow> 'a shm_object \<Rightarrow> 'a option" where
  "so_read sz n i ob = (if so_slot_ok sz n i ob then Some (so_slots ob i) else None)"

definition so_write :: "usize \<Rightarrow> usize \<Rightarrow> usize \<Rightarrow> 'a \<Rightarrow> 'a shm_object \<Rightarrow> 'a shm_object option" where
  "so_write sz n i x ob =
     (if so_slot_ok sz n i ob then Some (ob\<lparr>so_slots := (so_slots ob)(i := x)\<rparr>) else None)"

text \<open>\<open>(i + 1) % cap\<close>; division by zero is undefined.\<close>

definition sh_next :: "usize \<Rightarrow> usize \<Rightarrow> usize option" where
  "sh_next cap i = (if cap = 0 then None else Some ((i + 1) mod cap))"

definition so_try_push :: "usize \<Rightarrow> usize \<Rightarrow> 'a \<Rightarrow> 'a shm_object \<Rightarrow> (bool \<times> 'a shm_object) option" where
  "so_try_push sz n x ob =
     (if so_header_ok n ob then
        let cap = so_capacity ob; tail = so_tail ob; head = so_head ob in do {
          i \<leftarrow> sh_next cap tail;
          if i = head then Some (False, ob)
          else do {
            ob' \<leftarrow> so_write sz n tail x ob;
            j \<leftarrow> sh_next cap tail;
            Some (True, ob'\<lparr>so_tail := j\<rparr>)
          }
        }
      else None)"

definition so_try_pop :: "usize \<Rightarrow> usize \<Rightarrow> 'a shm_object \<Rightarrow> ('a option \<times> 'a shm_object) option" where
  "so_try_pop sz n ob =
     (if so_header_ok n ob then
        let cap = so_capacity ob; head = so_head ob; tail = so_tail ob in
        if head = tail then Some (None, ob)
        else do {
          x \<leftarrow> so_read sz n head ob;
          j \<leftarrow> sh_next cap head;
          Some (Some x, ob\<lparr>so_head := j\<rparr>)
        }
      else None)"

text \<open>
  The constructor: the byte count wraps around, and the header is written whether the object
  was created or attached to.
\<close>

definition sh_bytes :: "usize \<Rightarrow> usize \<Rightarrow> usize" where
  "sh_bytes sz capacity = sh_header_size + capacity * sz"

definition so_init :: "usize \<Rightarrow> 'a shm_object \<Rightarrow> 'a shm_object" where
  "so_init capacity ob = ob\<lparr>so_capacity := capacity, so_head := 0, so_tail := 0\<rparr>"

definition sh_new :: "shm_outcome \<Rightarrow> usize \<Rightarrow> shm_ring_config \<Rightarrow> 'a shm_os \<Rightarrow> ((exn + shm_region) \<times> 'a shm_os) option" where
  "sh_new oc sz cfg os =
     (case sr_new oc (cfg\<lparr>sc_capacity := sh_bytes sz (sc_capacity cfg)\<rparr>) os of
        (Inl e, os') \<Rightarrow> Some (Inl e, os')
      | (Inr r, os') \<Rightarrow>
          if so_header_ok (sr_size r) (os_objects os' (sr_object r))
          then Some (Inr r, os'\<lparr>os_objects := (os_objects os')
                 (sr_object r := so_init (sc_capacity cfg) (os_objects os' (sr_object r)))\<rparr>)
          else None)"

definition sh_try_push :: "usize \<Rightarrow> 'a \<Rightarrow> shm_region \<Rightarrow> 'a shm_os \<Rightarrow> (bool \<times> 'a shm_os) option" where
  "sh_try_push sz x r os = do {
     (ok, ob) \<leftarrow> so_try_push sz (sr_size r) x (os_objects os (sr_object r));
     Some (ok, os\<lparr>os_objects := (os_objects os)(sr_object r := ob)\<rparr>)
   }"

definition sh_try_pop :: "usize \<Rightarrow> shm_region \<Rightarrow> 'a shm_os \<Rightarrow> ('a option \<times> 'a shm_os) option" where
  "sh_try_pop sz r os = do {
     (out, ob) \<leftarrow> so_try_pop sz (sr_size r) (os_objects os (sr_object r));
     Some (out, os\<lparr>os_objects := (os_objects os)(sr_object r := ob)\<rparr>)
   }"

definition sh_capacity :: "shm_region \<Rightarrow> 'a shm_os \<Rightarrow> usize" where
  "sh_capacity r os = so_capacity (os_objects os (sr_object r))"

section \<open>The ring as a queue\<close>

text \<open>
  \<open>so_rep sz n Q k ob\<close>: of the elements \<open>Q\<close> sent so far, the first \<open>k\<close> have been received;
  element \<open>j\<close> is or was in slot \<open>j mod capacity\<close>. One slot always stays free.
\<close>

definition so_fits :: "usize \<Rightarrow> usize \<Rightarrow> 'a shm_object \<Rightarrow> bool" where
  "so_fits sz n ob \<longleftrightarrow> so_header_ok n ob \<and> 0 < unat (so_capacity ob) \<and>
     unat sh_header_size + unat (so_capacity ob) * unat sz \<le> min (unat n) (unat (so_size ob))"

definition so_rep :: "usize \<Rightarrow> usize \<Rightarrow> 'a list \<Rightarrow> nat \<Rightarrow> 'a shm_object \<Rightarrow> bool" where
  "so_rep sz n Q k ob \<longleftrightarrow> so_fits sz n ob \<and> k \<le> length Q \<and> length Q < k + unat (so_capacity ob) \<and>
     unat (so_head ob) = k mod unat (so_capacity ob) \<and> unat (so_tail ob) = length Q mod unat (so_capacity ob) \<and>
     (\<forall>j. k \<le> j \<and> j < length Q \<longrightarrow> so_slots ob (of_nat (j mod unat (so_capacity ob))) = Q ! j)"

lemma so_repD:
  assumes "so_rep sz n Q k ob"
  shows "so_fits sz n ob" "k \<le> length Q" "length Q < k + unat (so_capacity ob)"
    "unat (so_head ob) = k mod unat (so_capacity ob)" "unat (so_tail ob) = length Q mod unat (so_capacity ob)"
    "k \<le> j \<Longrightarrow> j < length Q \<Longrightarrow> so_slots ob (of_nat (j mod unat (so_capacity ob))) = Q ! j"
    "0 < unat (so_capacity ob)" "so_header_ok n ob" "so_capacity ob \<noteq> 0"
    "unat (so_head ob) < unat (so_capacity ob)" "unat (so_tail ob) < unat (so_capacity ob)"
  using assms unfolding so_rep_def so_fits_def by (auto simp: mod_less_divisor)

lemma so_slot_okI: "so_fits sz n ob \<Longrightarrow> unat i < unat (so_capacity ob) \<Longrightarrow> so_slot_ok sz n i ob"
proof -
  assume f: "so_fits sz n ob" and "unat i < unat (so_capacity ob)"
  then have "(unat i + 1) * unat sz \<le> unat (so_capacity ob) * unat sz" by (intro mult_le_mono1) simp
  then show ?thesis using f unfolding so_fits_def so_slot_ok_def by linarith
qed

lemma so_fits_simps [simp]:
  "so_fits sz n (ob\<lparr>so_tail := t\<rparr>) = so_fits sz n ob" "so_fits sz n (ob\<lparr>so_head := h\<rparr>) = so_fits sz n ob"
  "so_fits sz n (ob\<lparr>so_slots := m\<rparr>) = so_fits sz n ob"
  by (simp_all add: so_fits_def so_header_ok_def)

lemma sh_next_mod:
  assumes "unat i = k mod unat cap" "0 < unat cap"
  shows "\<exists>j. sh_next cap i = Some j \<and> unat j = Suc k mod unat cap"
proof -
  have "i < cap" using assms by (simp add: word_less_nat_alt)
  then have "unat ((i + 1) mod cap) = Suc (unat i) mod unat cap" by (simp add: unat_mod unat_plus1)
  moreover have "cap \<noteq> 0" using assms(2) by auto
  ultimately show ?thesis using assms(1) by (simp add: sh_next_def mod_Suc_eq)
qed

lemma of_nat_unat_mod: "of_nat (l mod unat (c :: usize)) = (i :: usize) \<longleftrightarrow> unat i = l mod unat c" if "0 < unat c"
proof -
  have "l mod unat c < 2 ^ 64" by (rule less_trans [OF mod_less_divisor [OF that]]) simp
  then show ?thesis by (auto simp: word_unat_eq_iff unat_of_nat_usize)
qed

lemma so_full_iff:
  assumes "so_rep sz n Q k ob" "unat j = Suc (length Q) mod unat (so_capacity ob)"
  shows "j = so_head ob \<longleftrightarrow> Suc (length Q) = k + unat (so_capacity ob)"
proof -
  note D = so_repD [OF assms(1)]
  have "j = so_head ob \<longleftrightarrow> Suc (length Q) mod unat (so_capacity ob) = k mod unat (so_capacity ob)"
    by (simp only: word_unat_eq_iff assms(2) D(4))
  also have "\<dots> \<longleftrightarrow> Suc (length Q) = k + unat (so_capacity ob)"
    using one_round [of k "Suc (length Q)" "unat (so_capacity ob)"] D(2,3) by (metis Suc_leI le_imp_less_Suc mod_add_self2)
  finally show ?thesis .
qed

lemma so_empty_iff:
  assumes "so_rep sz n Q k ob"
  shows "so_head ob = so_tail ob \<longleftrightarrow> k = length Q"
proof -
  note D = so_repD [OF assms]
  have "so_head ob = so_tail ob \<longleftrightarrow> length Q mod unat (so_capacity ob) = k mod unat (so_capacity ob)"
    by (simp only: word_unat_eq_iff D(4,5)) auto
  then show ?thesis using same_place [OF D(2,3)] by auto
qed

lemma so_rep_write:
  assumes "so_rep sz n Q k ob"
  shows "so_write sz n (so_tail ob) x ob = Some (ob\<lparr>so_slots := (so_slots ob)(so_tail ob := x)\<rparr>)"
    and "so_rep sz n Q k (ob\<lparr>so_slots := (so_slots ob)(so_tail ob := x)\<rparr>)"
proof -
  note D = so_repD [OF assms]
  show "so_write sz n (so_tail ob) x ob = Some (ob\<lparr>so_slots := (so_slots ob)(so_tail ob := x)\<rparr>)"
    using so_slot_okI [OF D(1,11)] by (simp add: so_write_def)
  have "of_nat (j mod unat (so_capacity ob)) \<noteq> so_tail ob" if "k \<le> j" "j < length Q" for j
    using same_place [of j "length Q" "unat (so_capacity ob)"] that D(3,5) of_nat_unat_mod [OF D(7)] by auto
  then show "so_rep sz n Q k (ob\<lparr>so_slots := (so_slots ob)(so_tail ob := x)\<rparr>)"
    using assms D(6) by (simp add: so_rep_def)
qed

lemma so_rep_send:
  assumes "so_rep sz n Q k ob" "so_slots ob (so_tail ob) = x" "Suc (length Q) < k + unat (so_capacity ob)"
  shows "\<exists>j. sh_next (so_capacity ob) (so_tail ob) = Some j \<and> so_rep sz n (Q @ [x]) k (ob\<lparr>so_tail := j\<rparr>)"
proof -
  note D = so_repD [OF assms(1)]
  obtain j where j: "sh_next (so_capacity ob) (so_tail ob) = Some j" "unat j = Suc (length Q) mod unat (so_capacity ob)"
    using sh_next_mod [OF D(5,7)] by blast
  have "of_nat (length Q mod unat (so_capacity ob)) = so_tail ob" using of_nat_unat_mod [OF D(7)] D(5) by blast
  then have "so_slots ob (of_nat (i mod unat (so_capacity ob))) = (Q @ [x]) ! i" if "k \<le> i" "i < Suc (length Q)" for i
    using D(6) [of i] assms(2) that by (cases "i = length Q") (auto simp: nth_append)
  then have "so_rep sz n (Q @ [x]) k (ob\<lparr>so_tail := j\<rparr>)"
    using assms(1,3) j(2) by (simp add: so_rep_def)
  then show ?thesis using j(1) by blast
qed

lemma so_rep_read:
  assumes "so_rep sz n Q k ob" "k < length Q"
  shows "so_read sz n (so_head ob) ob = Some (Q ! k)"
proof -
  note D = so_repD [OF assms(1)]
  have "of_nat (k mod unat (so_capacity ob)) = so_head ob" using of_nat_unat_mod [OF D(7)] D(4) by blast
  then show ?thesis using D(6) [of k] assms(2) so_slot_okI [OF D(1,10)] by (simp add: so_read_def)
qed

lemma so_rep_receive:
  assumes "so_rep sz n Q k ob" "k < length Q"
  shows "\<exists>j. sh_next (so_capacity ob) (so_head ob) = Some j \<and> so_rep sz n Q (Suc k) (ob\<lparr>so_head := j\<rparr>)"
proof -
  note D = so_repD [OF assms(1)]
  obtain j where j: "sh_next (so_capacity ob) (so_head ob) = Some j" "unat j = Suc k mod unat (so_capacity ob)"
    using sh_next_mod [OF D(4,7)] by blast
  then have "so_rep sz n Q (Suc k) (ob\<lparr>so_head := j\<rparr>)" using assms by (simp add: so_rep_def)
  then show ?thesis using j(1) by blast
qed

section \<open>One process at a time\<close>

definition so_contents :: "'a shm_object \<Rightarrow> 'a list" where
  "so_contents ob =
     (let c = unat (so_capacity ob); h = unat (so_head ob)
      in map (\<lambda>j. so_slots ob (of_nat ((h + j) mod c))) [0..<(unat (so_tail ob) + c - h) mod c])"

lemma round_distance: "(d :: nat) < c \<Longrightarrow> ((k + d) mod c + c - k mod c) mod c = d"
proof -
  assume d: "d < c"
  have r: "k mod c < c" using d by simp
  have e: "(k + d) mod c = (k mod c + d) mod c" by (simp add: mod_add_left_eq)
  show ?thesis
  proof (cases "k mod c + d < c")
    case True
    then have "(k + d) mod c + c - k mod c = d + c" unfolding e by simp
    then show ?thesis using d by simp
  next
    case False
    then have "(k mod c + d) mod c = (k mod c + d - c) mod c" by (simp only: le_mod_geq linorder_not_less)
    also have "\<dots> = k mod c + d - c" by (rule mod_less) (use r d in linarith)
    finally have "(k + d) mod c + c - k mod c = d" using e False by linarith
    then show ?thesis using d by simp
  qed
qed

lemma so_contents_rep: "so_rep sz n Q k ob \<Longrightarrow> so_contents ob = drop k Q"
proof -
  assume r: "so_rep sz n Q k ob"
  note D = so_repD [OF r]
  let ?c = "unat (so_capacity ob)"
  have l: "(unat (so_tail ob) + ?c - unat (so_head ob)) mod ?c = length Q - k"
    using round_distance [of "length Q - k" ?c k] D(2,3) unfolding D(4,5) by simp
  have "so_slots ob (of_nat ((unat (so_head ob) + j) mod ?c)) = Q ! (k + j)" if "j < length Q - k" for j
    using D(6) [of "k + j"] that unfolding D(4) by (simp add: mod_add_left_eq)
  then show ?thesis unfolding so_contents_def Let_def l by (auto intro!: nth_equalityI)
qed

lemma so_try_push_rep:
  assumes "so_rep sz n Q k ob"
  shows "Suc (length Q) < k + unat (so_capacity ob) \<Longrightarrow>
      \<exists>ob'. so_try_push sz n x ob = Some (True, ob') \<and> so_rep sz n (Q @ [x]) k ob' \<and> so_capacity ob' = so_capacity ob"
    and "\<not> Suc (length Q) < k + unat (so_capacity ob) \<Longrightarrow> so_try_push sz n x ob = Some (False, ob)"
proof -
  note D = so_repD [OF assms]
  obtain i where i: "sh_next (so_capacity ob) (so_tail ob) = Some i" "unat i = Suc (length Q) mod unat (so_capacity ob)"
    using sh_next_mod [OF D(5,7)] by blast
  note full = so_full_iff [OF assms i(2)]
  show "so_try_push sz n x ob = Some (False, ob)" if "\<not> Suc (length Q) < k + unat (so_capacity ob)"
    using that full i(1) D(3,8) by (simp add: so_try_push_def Let_def)
  let ?ob = "ob\<lparr>so_slots := (so_slots ob)(so_tail ob := x)\<rparr>"
  show "\<exists>ob'. so_try_push sz n x ob = Some (True, ob') \<and> so_rep sz n (Q @ [x]) k ob' \<and> so_capacity ob' = so_capacity ob"
    if l: "Suc (length Q) < k + unat (so_capacity ob)"
  proof -
    note w = so_rep_write [OF assms, of x]
    have "so_rep sz n (Q @ [x]) k (?ob\<lparr>so_tail := i\<rparr>)" using so_rep_send [OF w(2), of x] l i(1) by simp
    moreover have "so_try_push sz n x ob = Some (True, ?ob\<lparr>so_tail := i\<rparr>)"
      using full l i(1) D(8) w(1) by (simp add: so_try_push_def Let_def)
    ultimately show ?thesis by simp
  qed
qed

lemma so_try_pop_rep:
  assumes "so_rep sz n Q k ob"
  shows "k < length Q \<Longrightarrow>
      \<exists>ob'. so_try_pop sz n ob = Some (Some (Q ! k), ob') \<and> so_rep sz n Q (Suc k) ob' \<and> so_capacity ob' = so_capacity ob"
    and "k = length Q \<Longrightarrow> so_try_pop sz n ob = Some (None, ob)"
proof -
  note D = so_repD [OF assms] and e = so_empty_iff [OF assms]
  show "so_try_pop sz n ob = Some (None, ob)" if "k = length Q"
    using that e D(8) by (simp add: so_try_pop_def Let_def)
  show "\<exists>ob'. so_try_pop sz n ob = Some (Some (Q ! k), ob') \<and> so_rep sz n Q (Suc k) ob' \<and> so_capacity ob' = so_capacity ob"
    if l: "k < length Q"
  proof -
    obtain j where "sh_next (so_capacity ob) (so_head ob) = Some j" "so_rep sz n Q (Suc k) (ob\<lparr>so_head := j\<rparr>)"
      using so_rep_receive [OF assms l] by blast
    then show ?thesis using l e D(8) so_rep_read [OF assms l] by (simp add: so_try_pop_def Let_def)
  qed
qed

definition sh_state_inv :: "usize \<Rightarrow> shm_region \<Rightarrow> 'a shm_os \<Rightarrow> bool" where
  "sh_state_inv sz r os \<longleftrightarrow> (\<exists>Q k. so_rep sz (sr_size r) Q k (os_objects os (sr_object r)))"

definition sh_contents :: "shm_region \<Rightarrow> 'a shm_os \<Rightarrow> 'a list" where
  "sh_contents r os = so_contents (os_objects os (sr_object r))"

text \<open>The capacity that can be used is one less than \<open>capacity()\<close>.\<close>

definition sh_usable :: "shm_region \<Rightarrow> 'a shm_os \<Rightarrow> nat" where
  "sh_usable r os = unat (so_capacity (os_objects os (sr_object r))) - 1"

definition sh_room :: "shm_region \<Rightarrow> 'a shm_os \<Rightarrow> nat" where
  "sh_room r os = sh_usable r os - length (sh_contents r os)"

lemma sh_state_invE:
  assumes "sh_state_inv sz r os"
  obtains Q k where "so_rep sz (sr_size r) Q k (os_objects os (sr_object r))" "sh_contents r os = drop k Q"
    "k \<le> length Q" "sh_room r os = k + unat (so_capacity (os_objects os (sr_object r))) - Suc (length Q)"
    "length Q < k + unat (so_capacity (os_objects os (sr_object r)))"
proof -
  from assms obtain Q k where r: "so_rep sz (sr_size r) Q k (os_objects os (sr_object r))" by (auto simp: sh_state_inv_def)
  have "sh_contents r os = drop k Q" using so_contents_rep [OF r] by (simp add: sh_contents_def)
  then show ?thesis using that [OF r] so_repD(2,3) [OF r] by (simp add: sh_room_def sh_usable_def)
qed

lemma sh_state_invI:
  "so_rep sz (sr_size r) Q k ob \<Longrightarrow> sh_state_inv sz r (os\<lparr>os_objects := (os_objects os)(sr_object r := ob)\<rparr>) \<and>
     sh_contents r (os\<lparr>os_objects := (os_objects os)(sr_object r := ob)\<rparr>) = drop k Q"
  using so_contents_rep by (auto simp: sh_state_inv_def sh_contents_def)

lemma sh_push_capacity: "sh_try_push sz x r os = Some (ok, os') \<Longrightarrow> sh_usable r os' = sh_usable r os"
  by (auto simp: sh_try_push_def so_try_push_def so_write_def sh_usable_def Let_def split: bind_splits if_splits)

lemma sh_pop_capacity: "sh_try_pop sz r os = Some (out, os') \<Longrightarrow> sh_usable r os' = sh_usable r os"
  by (auto simp: sh_try_pop_def so_try_pop_def sh_usable_def Let_def split: bind_splits if_splits)

interpretation shm: bounded_fifo "sh_state_inv sz r" "sh_contents r" "sh_room r" "\<lambda>x. sh_try_push sz x r" "sh_try_pop sz r"
    "sh_usable r"
proof (unfold_locales, goal_cases)
  case (1 s x)
  from 1(1) show ?case
  proof (cases rule: sh_state_invE)
    case (1 Q k)
    then have "Suc (length Q) < k + unat (so_capacity (os_objects s (sr_object r)))" using \<open>0 < sh_room r s\<close> by simp
    from so_try_push_rep(1) [OF 1(1) this, of x] obtain ob' where
      p: "so_try_push sz (sr_size r) x (os_objects s (sr_object r)) = Some (True, ob')" "so_rep sz (sr_size r) (Q @ [x]) k ob'"
        "so_capacity ob' = so_capacity (os_objects s (sr_object r))" by blast
    let ?s = "s\<lparr>os_objects := (os_objects s)(sr_object r := ob')\<rparr>"
    have "sh_contents r ?s = sh_contents r s @ [x]" using sh_state_invI [OF p(2)] 1(2,3) by simp
    moreover from this have "sh_room r s \<le> Suc (sh_room r ?s)" using p(3) by (simp add: sh_room_def sh_usable_def)
    ultimately show ?thesis using p(1) sh_state_invI [OF p(2)] by (simp add: sh_try_push_def)
  qed
next
  case (2 s x xs)
  from 2(1) show ?case
  proof (cases rule: sh_state_invE)
    case (1 Q k)
    then have l: "k < length Q" "Q ! k = x" "drop (Suc k) Q = xs"
      using 2(2) by (metis drop_all linorder_not_less list.distinct(1)) (metis 1(2) 2(2) nth_via_drop, metis 1(2) 2(2) drop_Suc list.sel(3) tl_drop)
    from so_try_pop_rep(1) [OF 1(1) l(1)] obtain ob' where
      p: "so_try_pop sz (sr_size r) (os_objects s (sr_object r)) = Some (Some x, ob')" "so_rep sz (sr_size r) Q (Suc k) ob'"
        "so_capacity ob' = so_capacity (os_objects s (sr_object r))" using l(2) by blast
    let ?s = "s\<lparr>os_objects := (os_objects s)(sr_object r := ob')\<rparr>"
    have "sh_contents r ?s = xs" using sh_state_invI [OF p(2)] l(3) by simp
    moreover from this have "sh_room r s \<le> sh_room r ?s" using p(3) 2(2) by (simp add: sh_room_def sh_usable_def)
    ultimately show ?thesis using p(1) sh_state_invI [OF p(2)] by (simp add: sh_try_pop_def)
  qed
next
  case (3 s)
  from 3(1) show ?case
  proof (cases rule: sh_state_invE)
    case (1 Q k)
    then have "k = length Q" using 3(2) by simp
    from so_try_pop_rep(2) [OF 1(1) this] show ?thesis by (simp add: sh_try_pop_def)
  qed
next
  case (4 s)
  then show ?case
  proof (cases rule: sh_state_invE)
    case (1 Q k)
    then show ?thesis by (simp add: sh_usable_def)
  qed
next
  case (5 x s ok s')
  then show ?case by (rule sh_push_capacity)
next
  case (6 s r' s')
  then show ?case by (rule sh_pop_capacity)
next
  case (7 s x)
  from 7(1) show ?case
  proof (cases rule: sh_state_invE)
    case (1 Q k)
    then have "\<not> Suc (length Q) < k + unat (so_capacity (os_objects s (sr_object r)))" using 7(2) by simp
    from so_try_push_rep(2) [OF 1(1) this] show ?thesis by (simp add: sh_try_push_def)
  qed
qed

section \<open>Opening a ring\<close>

lemma sr_new_Inr:
  assumes "sr_new oc cfg os = (Inr r, os')"
  shows "sr_size r = sc_capacity cfg" "sr_owner r = sc_create cfg" "sr_name r = sc_name cfg"
    "sc_create cfg \<Longrightarrow> so_size (os_objects os' (sr_object r)) = sc_capacity cfg"
    "os_names os (sc_name cfg) = Some i \<Longrightarrow> sr_object r = i"
  using assms
  by (auto simp: sr_new_def sr_open_def os_shm_open_def os_ftruncate_def os_mmap_def Let_def
      split: if_splits option.splits os_error.splits prod.splits sum.splits)

lemma sh_new_object:
  assumes "sh_new oc sz cfg os = Some (Inr r, os')"
  shows "sr_size r = sh_bytes sz (sc_capacity cfg)"
    "so_capacity (os_objects os' (sr_object r)) = sc_capacity cfg" "so_head (os_objects os' (sr_object r)) = 0"
    "so_tail (os_objects os' (sr_object r)) = 0" "so_header_ok (sr_size r) (os_objects os' (sr_object r))"
    "sc_create cfg \<Longrightarrow> so_size (os_objects os' (sr_object r)) = sh_bytes sz (sc_capacity cfg)"
    "os_names os (sc_name cfg) = Some i \<Longrightarrow> sr_object r = i"
proof -
  let ?cfg = "cfg\<lparr>sc_capacity := sh_bytes sz (sc_capacity cfg)\<rparr>"
  obtain os1 where n: "sr_new oc ?cfg os = (Inr r, os1)" "so_header_ok (sr_size r) (os_objects os1 (sr_object r))"
    "os' = os1\<lparr>os_objects := (os_objects os1)(sr_object r := so_init (sc_capacity cfg) (os_objects os1 (sr_object r)))\<rparr>"
    using assms by (auto simp: sh_new_def split: sum.splits prod.splits if_splits)
  note s = sr_new_Inr [OF n(1)]
  show "sr_size r = sh_bytes sz (sc_capacity cfg)"
    "so_capacity (os_objects os' (sr_object r)) = sc_capacity cfg" "so_head (os_objects os' (sr_object r)) = 0"
    "so_tail (os_objects os' (sr_object r)) = 0" "so_header_ok (sr_size r) (os_objects os' (sr_object r))"
    "sc_create cfg \<Longrightarrow> so_size (os_objects os' (sr_object r)) = sh_bytes sz (sc_capacity cfg)"
    "os_names os (sc_name cfg) = Some i \<Longrightarrow> sr_object r = i"
    using s n(2) by (simp_all add: n(3) so_init_def so_header_ok_def)
qed

lemma sh_new_rep:
  assumes "sh_new oc sz cfg os = Some (Inr r, os')" "sc_create cfg" "sc_capacity cfg \<noteq> 0"
    and "unat sh_header_size + unat (sc_capacity cfg) * unat sz < 2 ^ 64"
  shows "so_rep sz (sr_size r) [] 0 (os_objects os' (sr_object r))"
proof -
  note o = sh_new_object [OF assms(1)]
  have "unat (sc_capacity cfg * sz) = unat (sc_capacity cfg) * unat sz"
    using assms(4) by (simp add: unat_word_ariths)
  then have "unat (sh_bytes sz (sc_capacity cfg)) = unat sh_header_size + unat (sc_capacity cfg) * unat sz"
    unfolding sh_bytes_def using assms(4) by (subst unat_add_small) simp_all
  then show ?thesis using o assms(2,3) by (simp add: so_rep_def so_fits_def unat_gt_0)
qed

text \<open>A ring of three slots of eight bytes, newly created, for the instances below.\<close>

definition shm_demo_os :: "nat shm_os" where
  "shm_demo_os = \<lparr>os_names = \<lambda>_. None, os_objects = \<lambda>_. \<lparr>so_size = 0, so_capacity = 0, so_head = 0, so_tail = 0, so_slots = \<lambda>_. 0\<rparr>,
     os_next = 0, os_fds = 0, os_maps = 0\<rparr>"

definition shm_demo_ok :: shm_outcome where
  "shm_demo_ok = \<lparr>ok_open = True, ok_reopen = True, ok_truncate = True, ok_mmap = True\<rparr>"

definition shm_demo_cfg :: "bool \<Rightarrow> shm_ring_config" where
  "shm_demo_cfg create = \<lparr>sc_name = ''/ring'', sc_capacity = 3, sc_create = create\<rparr>"

definition shm_demo_region :: "bool \<Rightarrow> shm_region" where
  "shm_demo_region create = \<lparr>sr_object = 0, sr_size = 48, sr_name = ''/ring'', sr_owner = create\<rparr>"

definition shm_demo_ring :: "nat shm_os" where
  "shm_demo_ring = \<lparr>os_names = (\<lambda>_. None)(''/ring'' \<mapsto> 0),
     os_objects = (\<lambda>_. \<lparr>so_size = 0, so_capacity = 0, so_head = 0, so_tail = 0, so_slots = \<lambda>_. 0\<rparr>)
       (0 := \<lparr>so_size = 48, so_capacity = 3, so_head = 0, so_tail = 0, so_slots = \<lambda>_. 0\<rparr>),
     os_next = 1, os_fds = 1, os_maps = 1\<rparr>"

lemma shm_demo_new: "sh_new shm_demo_ok 8 (shm_demo_cfg True) shm_demo_os = Some (Inr (shm_demo_region True), shm_demo_ring)"
  by (simp add: sh_new_def sr_new_def sr_open_def os_shm_open_def os_ftruncate_def os_mmap_def so_init_def so_header_ok_def
      sh_bytes_def sh_header_size_def shm_demo_os_def shm_demo_ok_def shm_demo_cfg_def shm_demo_region_def shm_demo_ring_def)

section \<open>Properties\<close>

text \<open>
  C24. A ring that has been created behaves, used by one process at a time, under every
  sequence of \<open>try_push\<close> and \<open>try_pop\<close> as a first-in first-out list bounded by
  \<open>capacity() - 1\<close>: one slot is never used.
\<close>

theorem shm_ring_refines_bounded_queue:
  assumes "sh_new oc sz cfg os = Some (Inr r, os0)" "sc_create cfg" "sc_capacity cfg \<noteq> 0"
    and "unat sh_header_size + unat (sc_capacity cfg) * unat sz < 2 ^ 64"
  shows "\<exists>outs os'. run_ops (container_step (\<lambda>x. sh_try_push sz x r) (sh_try_pop sz r)) ops os0 = Some (outs, os') \<and>
    run_ops (queue_spec (unat (sh_capacity r os0) - 1)) ops [] = Some (outs, sh_contents r os') \<and>
    sh_capacity r os0 = sc_capacity cfg"
proof -
  have r: "so_rep sz (sr_size r) [] 0 (os_objects os0 (sr_object r))" by (rule sh_new_rep [OF assms])
  then have i: "sh_state_inv sz r os0" by (auto simp: sh_state_inv_def)
  have e: "sh_contents r os0 = []" using so_contents_rep [OF r] by (simp add: sh_contents_def)
  from shm.run_refines [OF i, of ops] show ?thesis
    using sh_new_object(2) [OF assms(1)] unfolding e by (auto simp: sh_usable_def sh_capacity_def)
qed

theorem shm_ring_refines_bounded_queue_witness:
  "\<exists>outs os'. run_ops (container_step (\<lambda>x. sh_try_push 8 x (shm_demo_region True)) (sh_try_pop 8 (shm_demo_region True)))
       [Push 4, Push 5, Push 6, Pop] shm_demo_ring = Some (outs, os') \<and>
     run_ops (queue_spec 2) [Push 4, Push 5, Push 6, Pop] [] = Some (outs, sh_contents (shm_demo_region True) os')"
  using shm_ring_refines_bounded_queue [OF shm_demo_new, of "[Push 4, Push 5, Push 6, Pop]"]
  by (auto simp: shm_demo_cfg_def sh_header_size_def)

text \<open>
  C26. Attaching to a ring destroys its contents: the constructor resets the indices and the
  capacity of the object that other processes are using, whether it was asked to create or
  to attach.
\<close>

theorem shm_attach_resets_ring:
  assumes "sh_state_inv sz r os" "os_names os (sc_name cfg) = Some (sr_object r)"
    and "sh_new oc sz cfg os = Some (Inr r', os')"
  shows "sh_try_pop sz r os' = Some (None, os') \<and> sh_capacity r os' = sc_capacity cfg"
proof -
  note o = sh_new_object [OF assms(3)]
  have same: "sr_object r' = sr_object r" by (rule o(7) [OF assms(2)])
  have "sh_header_size \<le> sr_size r"
    using assms(1) by (auto simp: sh_state_inv_def so_header_ok_def dest!: so_repD(8))
  then have "so_header_ok (sr_size r) (os_objects os' (sr_object r))"
    using o(5) by (simp add: same so_header_ok_def)
  then show ?thesis using o(2-4) by (simp add: same sh_try_pop_def so_try_pop_def sh_capacity_def)
qed

theorem shm_attach_resets_ring_witness:
  "\<exists>os1 os2 r'. sh_try_push 8 4 (shm_demo_region True) shm_demo_ring = Some (True, os1) \<and>
     sh_new shm_demo_ok 8 (shm_demo_cfg False) os1 = Some (Inr r', os2) \<and>
     sh_try_pop 8 (shm_demo_region True) os2 = Some (None, os2)"
proof -
  let ?r = "shm_demo_region True"
  let ?ob = "\<lparr>so_size = 48, so_capacity = 3, so_head = 0, so_tail = 1, so_slots = (\<lambda>_. 0)(0 := 4)\<rparr>"
  let ?os1 = "shm_demo_ring\<lparr>os_objects := (os_objects shm_demo_ring)(0 := ?ob)\<rparr>"
  have p: "sh_try_push 8 4 ?r shm_demo_ring = Some (True, ?os1)"
    by (simp add: sh_try_push_def so_try_push_def so_write_def so_slot_ok_def so_header_ok_def sh_next_def sh_header_size_def
        shm_demo_region_def shm_demo_ring_def)
  have "sh_state_inv 8 ?r shm_demo_ring"
    using sh_new_rep [OF shm_demo_new] by (auto simp: sh_state_inv_def shm_demo_cfg_def sh_header_size_def)
  moreover have "0 < sh_room ?r shm_demo_ring"
    by (simp add: sh_room_def sh_usable_def sh_contents_def so_contents_def shm_demo_ring_def shm_demo_region_def)
  ultimately have i: "sh_state_inv 8 ?r ?os1" using shm.push_room [of 8 ?r shm_demo_ring 4] p by auto
  have n: "sh_new shm_demo_ok 8 (shm_demo_cfg False) ?os1 = Some (Inr (shm_demo_region False),
      ?os1\<lparr>os_objects := (os_objects ?os1)(0 := so_init 3 ?ob), os_fds := 2, os_maps := 2\<rparr>)"
    by (simp add: sh_new_def sr_new_def sr_open_def os_shm_open_def os_mmap_def so_init_def so_header_ok_def sh_bytes_def
        sh_header_size_def shm_demo_ok_def shm_demo_cfg_def shm_demo_region_def shm_demo_ring_def)
  have "os_names ?os1 (sc_name (shm_demo_cfg False)) = Some (sr_object ?r)"
    by (simp add: shm_demo_ring_def shm_demo_cfg_def shm_demo_region_def)
  from shm_attach_resets_ring [OF i this n] p n show ?thesis by blast
qed

text \<open>
  C28. Capacities at the edge. A ring of capacity 1 refuses every element; one of capacity 0
  divides by zero at the first push, although a pop just fails; and when the byte count
  \<open>sizeof(header) + capacity * sizeof(T)\<close> wraps around to less than the header and one slot,
  construction succeeds if the header fits, and the first push writes behind the mapping.
\<close>

theorem shm_capacity_edges:
  assumes "sh_new oc sz cfg os = Some (Inr r, os')"
  shows "(sc_capacity cfg = 1 \<longrightarrow> sh_try_push sz x r os' = Some (False, os')) \<and>
    (sc_capacity cfg = 0 \<longrightarrow> sh_try_push sz x r os' = None \<and> sh_try_pop sz r os' = Some (None, os')) \<and>
    (1 < sc_capacity cfg \<and> unat (sh_bytes sz (sc_capacity cfg)) < unat sh_header_size + unat sz \<longrightarrow>
      sh_try_push sz x r os' = None)"
proof -
  note o = sh_new_object [OF assms]
  have next0: "sh_next (sc_capacity cfg) 0 = Some 1" if "1 < sc_capacity cfg"
  proof -
    have "unat ((1 :: usize) mod sc_capacity cfg) = 1" using that by (auto simp: unat_mod word_less_nat_alt)
    then have "(1 :: usize) mod sc_capacity cfg = 1" by (simp add: word_unat_eq_iff)
    then show ?thesis using that by (auto simp: sh_next_def)
  qed
  have "sh_try_push sz x r os' = Some (False, os')" if "sc_capacity cfg = 1"
    using o(2-5) that by (simp add: sh_try_push_def so_try_push_def sh_next_def)
  moreover have "sh_try_push sz x r os' = None \<and> sh_try_pop sz r os' = Some (None, os')" if "sc_capacity cfg = 0"
    using o(2-5) that by (simp add: sh_try_push_def so_try_push_def sh_try_pop_def so_try_pop_def sh_next_def)
  moreover have "sh_try_push sz x r os' = None"
    if "1 < sc_capacity cfg" "unat (sh_bytes sz (sc_capacity cfg)) < unat sh_header_size + unat sz"
  proof -
    have "\<not> so_slot_ok sz (sr_size r) 0 (os_objects os' (sr_object r))" using that(2) o(1) by (simp add: so_slot_ok_def)
    then show ?thesis using next0 [OF that(1)] o(2-5) by (simp add: sh_try_push_def so_try_push_def so_write_def)
  qed
  ultimately show ?thesis by blast
qed

definition shm_huge_cfg :: shm_ring_config where
  "shm_huge_cfg = \<lparr>sc_name = ''/ring'', sc_capacity = 2 ^ 60, sc_create = True\<rparr>"

theorem shm_capacity_edges_witness:
  "\<exists>r os'. sh_new shm_demo_ok 16 shm_huge_cfg shm_demo_os = Some (Inr r, os') \<and> sh_try_push 16 5 r os' = None"
proof -
  have b: "sh_bytes 16 (2 ^ 60) = 24" by (simp add: sh_bytes_def sh_header_size_def)
  have "\<exists>r os'. sh_new shm_demo_ok 16 shm_huge_cfg shm_demo_os = Some (Inr r, os')"
    using b by (simp add: sh_new_def sr_new_def sr_open_def os_shm_open_def os_ftruncate_def os_mmap_def so_init_def so_header_ok_def
        sh_header_size_def shm_demo_os_def shm_demo_ok_def shm_huge_cfg_def)
  then obtain r os' where n: "sh_new shm_demo_ok 16 shm_huge_cfg shm_demo_os = Some (Inr r, os')" by blast
  from shm_capacity_edges [OF n, of 5] have "sh_try_push 16 5 r os' = None"
    using b by (simp add: shm_huge_cfg_def sh_header_size_def)
  then show ?thesis using n by blast
qed

text \<open>
  C27. What a region does to the system. A constructor that throws keeps no descriptor and no
  mapping, but when \<open>ftruncate\<close> or \<open>mmap\<close> fails, the object it has just created stays
  behind under its name. Construction and destruction leave descriptors and mappings as they
  were; whoever constructed with \<open>create\<close> set removes the name, also the name of an object
  that existed before.
\<close>

theorem shm_region_lifecycle:
  assumes "sr_new oc cfg os = (res, os')"
  shows "(case res of
      Inl e \<Rightarrow> e = Runtime_error \<and> os_fds os' = os_fds os \<and> os_maps os' = os_maps os \<and>
        os_names os' = (if sc_create cfg \<and> ok_open oc \<and> os_names os (sc_name cfg) = None
          then (os_names os)(sc_name cfg \<mapsto> os_next os) else os_names os)
    | Inr r \<Rightarrow> sr_owner r = sc_create cfg \<and> os_fds os' = os_fds os + 1 \<and> os_maps os' = os_maps os + 1 \<and>
        os_names os' (sc_name cfg) = Some (sr_object r) \<and>
        (let os'' = sr_destroy r os' in os_fds os'' = os_fds os \<and> os_maps os'' = os_maps os \<and>
          os_names os'' = (if sc_create cfg then (os_names os)(sc_name cfg := None) else os_names os))) \<and>
    (sc_create cfg \<and> ok_open oc \<and> os_names os (sc_name cfg) = None \<and> \<not> (ok_truncate oc \<and> ok_mmap oc) \<longrightarrow>
      res = Inl Runtime_error \<and> os_names os' (sc_name cfg) \<noteq> None)"
  using assms
  by (auto simp: sr_new_def sr_open_def os_shm_open_def os_ftruncate_def os_mmap_def os_munmap_def os_close_def
      os_shm_unlink_def sr_destroy_def Let_def split: if_splits option.splits os_error.splits prod.splits sum.splits)

theorem shm_region_lifecycle_witness:
  "\<exists>os'. sr_new \<lparr>ok_open = True, ok_reopen = True, ok_truncate = True, ok_mmap = False\<rparr> (shm_demo_cfg True) shm_demo_os =
       (Inl Runtime_error, os') \<and> os_names os' ''/ring'' \<noteq> None"
proof -
  let ?oc = "\<lparr>ok_open = True, ok_reopen = True, ok_truncate = True, ok_mmap = False\<rparr>"
  obtain res os' where n: "sr_new ?oc (shm_demo_cfg True) shm_demo_os = (res, os')"
    by (cases "sr_new ?oc (shm_demo_cfg True) shm_demo_os")
  from shm_region_lifecycle [OF n] show ?thesis using n by (simp add: shm_demo_cfg_def shm_demo_os_def)
qed

end
