(* ===== verification/ShmProcesses.thy ===== *)
theory ShmProcesses
  imports ShmRing
begin

text \<open>
  Several processes, or threads, on one \<open>shm_spsc_ring_buffer<T>\<close>
  (\<open>include/hpc/ipc/shm_ring_buffer.hpp\<close>). The fields of the header and the slots are plain
  objects: two accesses to the same one, at least one of them a write, by processes of which
  neither happens before the other are a data race, for which C++ defines no behaviour. The model
  therefore keeps, beside the object, which accesses have been made and which of them happen
  before the next step of each process; a step that would race is not defined. What a plain
  access reads is thus only ever said of accesses that are ordered.

  The code synchronises nowhere. An order between processes can only come from outside of the
  ring: \<open>ps_hand\<close> is any synchronisation by which what one process has done happens before
  what another does next (a lock, a semaphore, a message). \<open>sh_run\<close> has the runs without any,
  \<open>sh_turns\<close> those in which processes take turns.
\<close>

section \<open>Accesses\<close>

text \<open>
  The accesses of \<open>try_push\<close> and \<open>try_pop\<close> to the shared memory, one by one; the program
  counter carries the local variables.
\<close>

datatype 'a sh_pc =
    Sh_idle
  | Push_capacity 'a
  | Push_tail 'a usize
  | Push_head 'a usize usize
  | Push_write 'a usize usize
  | Push_store 'a usize usize
  | Pop_capacity
  | Pop_head usize
  | Pop_tail usize usize
  | Pop_read usize usize
  | Pop_store usize usize 'a

text \<open>The access that a process makes next: whether it writes, and where.\<close>

datatype sh_location = At_capacity | At_head | At_tail | At_slot usize

fun sh_access :: "'a sh_pc \<Rightarrow> (bool \<times> sh_location) option" where
  "sh_access Sh_idle = None"
| "sh_access (Push_capacity x) = Some (False, At_capacity)"
| "sh_access (Push_tail x cap) = Some (False, At_tail)"
| "sh_access (Push_head x cap tail) = Some (False, At_head)"
| "sh_access (Push_write x cap tail) = Some (True, At_slot tail)"
| "sh_access (Push_store x cap tail) = Some (True, At_tail)"
| "sh_access Pop_capacity = Some (False, At_capacity)"
| "sh_access (Pop_head cap) = Some (False, At_head)"
| "sh_access (Pop_tail cap head) = Some (False, At_tail)"
| "sh_access (Pop_read cap head) = Some (False, At_slot head)"
| "sh_access (Pop_store cap head x) = Some (True, At_head)"

text \<open>
  What the access does when it is not a data race. An access beyond the mapping and a division
  by zero are faults.
\<close>

fun sh_effect :: "usize \<Rightarrow> usize \<Rightarrow> 'a sh_pc \<Rightarrow> 'a shm_object \<Rightarrow> ('a channel_event list \<times> 'a sh_pc \<times> 'a shm_object) option" where
  "sh_effect sz n Sh_idle ob = Some ([], Sh_idle, ob)"
| "sh_effect sz n (Push_capacity x) ob =
     (if so_header_ok n ob then Some ([], Push_tail x (so_capacity ob), ob) else None)"
| "sh_effect sz n (Push_tail x cap) ob = Some ([], Push_head x cap (so_tail ob), ob)"
| "sh_effect sz n (Push_head x cap tail) ob = do {
     i \<leftarrow> sh_next cap tail;
     Some (if i = so_head ob then ([Push_failed], Sh_idle, ob) else ([], Push_write x cap tail, ob))
   }"
| "sh_effect sz n (Push_write x cap tail) ob = do {
     ob' \<leftarrow> so_write sz n tail x ob;
     Some ([], Push_store x cap tail, ob')
   }"
| "sh_effect sz n (Push_store x cap tail) ob = do {
     j \<leftarrow> sh_next cap tail;
     Some ([Sent x], Sh_idle, ob\<lparr>so_tail := j\<rparr>)
   }"
| "sh_effect sz n Pop_capacity ob =
     (if so_header_ok n ob then Some ([], Pop_head (so_capacity ob), ob) else None)"
| "sh_effect sz n (Pop_head cap) ob = Some ([], Pop_tail cap (so_head ob), ob)"
| "sh_effect sz n (Pop_tail cap head) ob =
     Some (if head = so_tail ob then ([Pop_failed], Sh_idle, ob) else ([], Pop_read cap head, ob))"
| "sh_effect sz n (Pop_read cap head) ob = do {
     x \<leftarrow> so_read sz n head ob;
     Some ([], Pop_store cap head x, ob)
   }"
| "sh_effect sz n (Pop_store cap head x) ob = do {
     j \<leftarrow> sh_next cap head;
     Some ([Received x], Sh_idle, ob\<lparr>so_head := j\<rparr>)
   }"

section \<open>Happens-before\<close>

text \<open>
  Accesses are numbered. \<open>ps_seen\<close> gives the accesses that happen before the next step of a
  process. The constructor has written the header before any process uses the ring.
\<close>

record 'a sh_shared =
  ps_object :: "'a shm_object"
  ps_events :: nat
  ps_writes :: "sh_location \<Rightarrow> nat list"
  ps_reads :: "sh_location \<Rightarrow> nat list"
  ps_seen :: "nat \<Rightarrow> nat list"

definition ps_start :: "'a shm_object \<Rightarrow> 'a sh_shared" where
  "ps_start ob = \<lparr>ps_object = ob, ps_events = 0, ps_writes = \<lambda>_. [], ps_reads = \<lambda>_. [], ps_seen = \<lambda>_. []\<rparr>"

text \<open>The accesses with which an access to \<open>l\<close> conflicts.\<close>

definition ps_conflicts :: "bool \<Rightarrow> sh_location \<Rightarrow> 'a sh_shared \<Rightarrow> nat list" where
  "ps_conflicts wr l S = ps_writes S l @ (if wr then ps_reads S l else [])"

definition ps_access :: "nat \<Rightarrow> bool \<times> sh_location \<Rightarrow> 'a sh_shared \<Rightarrow> 'a sh_shared option" where
  "ps_access t = (\<lambda>(wr, l) S.
     if list_all (\<lambda>e. e \<in> set (ps_seen S t)) (ps_conflicts wr l S)
     then Some (S\<lparr>ps_events := Suc (ps_events S),
       ps_writes := (if wr then (ps_writes S)(l := ps_events S # ps_writes S l) else ps_writes S),
       ps_reads := (if wr then ps_reads S else (ps_reads S)(l := ps_events S # ps_reads S l)),
       ps_seen := (ps_seen S)(t := ps_events S # ps_seen S t)\<rparr>)
     else None)"

definition ps_hand :: "nat \<Rightarrow> nat \<Rightarrow> 'a sh_shared \<Rightarrow> 'a sh_shared" where
  "ps_hand t u S = S\<lparr>ps_seen := (ps_seen S)(u := ps_seen S t @ ps_seen S u)\<rparr>"

definition sh_step :: "usize \<Rightarrow> usize \<Rightarrow> nat \<Rightarrow> 'a sh_pc \<Rightarrow> 'a sh_shared \<Rightarrow>
    ('a channel_event list \<times> 'a sh_pc \<times> 'a sh_shared) option" where
  "sh_step sz n t pc S =
     (case sh_access pc of
        None \<Rightarrow> Some ([], pc, S)
      | Some a \<Rightarrow> do {
          S' \<leftarrow> ps_access t a S;
          (es, pc', ob) \<leftarrow> sh_effect sz n pc (ps_object S);
          Some (es, pc', S'\<lparr>ps_object := ob\<rparr>)
        })"

text \<open>At most \<open>k\<close> steps of one process alone, as far as they are defined.\<close>

fun sh_alone :: "usize \<Rightarrow> usize \<Rightarrow> nat \<Rightarrow> nat \<Rightarrow> 'a sh_pc \<Rightarrow> 'a sh_shared \<Rightarrow>
    'a channel_event list \<times> 'a sh_pc \<times> 'a sh_shared" where
  "sh_alone sz n t 0 pc S = ([], pc, S)"
| "sh_alone sz n t (Suc k) pc S =
     (case sh_step sz n t pc S of
        None \<Rightarrow> ([], pc, S)
      | Some (es, pc', S') \<Rightarrow> (let (fs, r) = sh_alone sz n t k pc' S' in (es @ fs, r)))"

text \<open>All interleavings of any number of processes that do not synchronise.\<close>

inductive sh_run :: "usize \<Rightarrow> usize \<Rightarrow> 'a shm_object \<Rightarrow>
    (nat \<times> 'a channel_event) list \<Rightarrow> (nat \<Rightarrow> 'a sh_pc) \<Rightarrow> 'a sh_shared \<Rightarrow> bool"
  for sz n ob0 where
  sh_start: "sh_run sz n ob0 [] (\<lambda>_. Sh_idle) (ps_start ob0)"
| sh_call_push: "sh_run sz n ob0 log pcs S \<Longrightarrow> pcs t = Sh_idle \<Longrightarrow> sh_run sz n ob0 log (pcs(t := Push_capacity x)) S"
| sh_call_pop: "sh_run sz n ob0 log pcs S \<Longrightarrow> pcs t = Sh_idle \<Longrightarrow> sh_run sz n ob0 log (pcs(t := Pop_capacity)) S"
| sh_process: "sh_run sz n ob0 log pcs S \<Longrightarrow> sh_step sz n t (pcs t) S = Some (es, pc, S') \<Longrightarrow>
    sh_run sz n ob0 (log @ map (Pair t) es) (pcs(t := pc)) S'"

text \<open>Processes that take turns: \<open>h\<close> is the one whose turn it is, and hands over between operations.\<close>

inductive sh_turns :: "usize \<Rightarrow> usize \<Rightarrow> 'a shm_object \<Rightarrow>
    nat \<Rightarrow> 'a channel_event list \<Rightarrow> 'a sh_pc \<Rightarrow> 'a sh_shared \<Rightarrow> bool"
  for sz n ob0 where
  st_start: "sh_turns sz n ob0 h [] Sh_idle (ps_start ob0)"
| st_call_push: "sh_turns sz n ob0 h log Sh_idle S \<Longrightarrow> sh_turns sz n ob0 h log (Push_capacity x) S"
| st_call_pop: "sh_turns sz n ob0 h log Sh_idle S \<Longrightarrow> sh_turns sz n ob0 h log Pop_capacity S"
| st_step: "sh_turns sz n ob0 h log pc S \<Longrightarrow> sh_step sz n h pc S = Some (es, pc', S') \<Longrightarrow>
    sh_turns sz n ob0 h (log @ es) pc' S'"
| st_hand: "sh_turns sz n ob0 h log Sh_idle S \<Longrightarrow> sh_turns sz n ob0 u log Sh_idle (ps_hand h u S)"

section \<open>The effects in order\<close>

fun sh_producer_ok :: "nat \<Rightarrow> nat \<Rightarrow> 'a shm_object \<Rightarrow> 'a sh_pc \<Rightarrow> bool" where
  "sh_producer_ok l k ob Sh_idle \<longleftrightarrow> True"
| "sh_producer_ok l k ob (Push_capacity x) \<longleftrightarrow> True"
| "sh_producer_ok l k ob (Push_tail x cap) \<longleftrightarrow> cap = so_capacity ob"
| "sh_producer_ok l k ob (Push_head x cap tail) \<longleftrightarrow> cap = so_capacity ob \<and> tail = so_tail ob"
| "sh_producer_ok l k ob (Push_write x cap tail) \<longleftrightarrow> cap = so_capacity ob \<and> tail = so_tail ob \<and>
     Suc l < k + unat (so_capacity ob)"
| "sh_producer_ok l k ob (Push_store x cap tail) \<longleftrightarrow> cap = so_capacity ob \<and> tail = so_tail ob \<and>
     Suc l < k + unat (so_capacity ob) \<and> so_slots ob tail = x"
| "sh_producer_ok l k ob pc \<longleftrightarrow> False"

fun sh_consumer_ok :: "'a list \<Rightarrow> nat \<Rightarrow> 'a shm_object \<Rightarrow> 'a sh_pc \<Rightarrow> bool" where
  "sh_consumer_ok Q k ob Sh_idle \<longleftrightarrow> True"
| "sh_consumer_ok Q k ob Pop_capacity \<longleftrightarrow> True"
| "sh_consumer_ok Q k ob (Pop_head cap) \<longleftrightarrow> cap = so_capacity ob"
| "sh_consumer_ok Q k ob (Pop_tail cap head) \<longleftrightarrow> cap = so_capacity ob \<and> head = so_head ob"
| "sh_consumer_ok Q k ob (Pop_read cap head) \<longleftrightarrow> cap = so_capacity ob \<and> head = so_head ob \<and> k < length Q"
| "sh_consumer_ok Q k ob (Pop_store cap head x) \<longleftrightarrow> cap = so_capacity ob \<and> head = so_head ob \<and> k < length Q \<and> x = Q ! k"
| "sh_consumer_ok Q k ob pc \<longleftrightarrow> False"

lemma sh_producer_step:
  assumes "so_rep sz n Q k ob" "sh_producer_ok (length Q) k ob pc"
  shows "\<exists>es pc' ob'. sh_effect sz n pc ob = Some (es, pc', ob') \<and> received es = [] \<and>
    so_rep sz n (Q @ sent es) k ob' \<and> sh_producer_ok (length (Q @ sent es)) k ob' pc' \<and>
    so_capacity ob' = so_capacity ob \<and> so_head ob' = so_head ob \<and>
    (Push_failed \<in> set es \<longrightarrow> Suc (length Q) = k + unat (so_capacity ob)) \<and> Pop_failed \<notin> set es"
proof (cases pc)
  case Sh_idle
  then show ?thesis using assms by simp
next
  case (Push_capacity x)
  then show ?thesis using assms so_repD(8) [OF assms(1)] by simp
next
  case (Push_tail x cap)
  then show ?thesis using assms by simp
next
  case (Push_head x cap tail)
  note D = so_repD [OF assms(1)]
  have c: "cap = so_capacity ob" "tail = so_tail ob" using assms(2) Push_head by simp_all
  obtain j where j: "sh_next cap tail = Some j" "unat j = Suc (length Q) mod unat (so_capacity ob)"
    using sh_next_mod [OF D(5,7)] c by blast
  show ?thesis using so_full_iff [OF assms(1) j(2)] j(1) assms(1) D(3) c Push_head by auto
next
  case (Push_write x cap tail)
  then show ?thesis using so_rep_write [OF assms(1), of x] assms(2) by simp
next
  case (Push_store x cap tail)
  then have "so_slots ob (so_tail ob) = x" "Suc (length Q) < k + unat (so_capacity ob)" using assms(2) by auto
  from so_rep_send [OF assms(1) this] show ?thesis using Push_store assms(2) by auto
qed (use assms(2) in simp_all)

lemma sh_consumer_step:
  assumes "so_rep sz n Q k ob" "sh_consumer_ok Q k ob pc"
  shows "\<exists>es pc' ob'. sh_effect sz n pc ob = Some (es, pc', ob') \<and> sent es = [] \<and>
    (received es = [] \<or> k < length Q \<and> received es = [Q ! k]) \<and>
    so_rep sz n Q (k + length (received es)) ob' \<and> sh_consumer_ok Q (k + length (received es)) ob' pc' \<and>
    so_capacity ob' = so_capacity ob \<and> so_tail ob' = so_tail ob \<and> so_slots ob' = so_slots ob \<and>
    (Pop_failed \<in> set es \<longrightarrow> k = length Q) \<and> Push_failed \<notin> set es"
proof (cases pc)
  case Sh_idle
  then show ?thesis using assms by simp
next
  case Pop_capacity
  then show ?thesis using assms so_repD(8) [OF assms(1)] by simp
next
  case (Pop_head cap)
  then show ?thesis using assms by simp
next
  case (Pop_tail cap head)
  then have c: "cap = so_capacity ob" "head = so_head ob" using assms(2) by simp_all
  show ?thesis using so_empty_iff [OF assms(1)] assms(1) so_repD(2) [OF assms(1)] c Pop_tail by auto
next
  case (Pop_read cap head)
  then show ?thesis using so_rep_read [OF assms(1)] assms by simp
next
  case (Pop_store cap head x)
  then have "k < length Q" using assms(2) by simp
  from so_rep_receive [OF assms(1) this] show ?thesis using Pop_store assms(2) by auto
qed (use assms(2) in simp_all)

text \<open>One after the other, without another process in between, the effects are the operations.\<close>

fun sh_effects :: "usize \<Rightarrow> usize \<Rightarrow> nat \<Rightarrow> 'a channel_event list \<Rightarrow> 'a sh_pc \<Rightarrow> 'a shm_object \<Rightarrow> ('a channel_event list \<times> 'a shm_object) option" where
  "sh_effects sz n fuel log Sh_idle ob = Some (log, ob)"
| "sh_effects sz n 0 log pc ob = None"
| "sh_effects sz n (Suc fuel) log pc ob = do {
     (es, pc', ob') \<leftarrow> sh_effect sz n pc ob;
     sh_effects sz n fuel (log @ es) pc' ob'
   }"

lemma sh_effects_push:
  "sh_effects sz n 5 [] (Push_capacity x) ob =
     map_option (\<lambda>(ok, ob'). (if ok then [Sent x] else [Push_failed], ob')) (so_try_push sz n x ob)"
  by (simp add: numeral_eq_Suc so_try_push_def so_write_def Let_def split: bind_split if_splits)

lemma sh_effects_pop:
  "sh_effects sz n 5 [] Pop_capacity ob =
     map_option (\<lambda>(out, ob'). (case out of None \<Rightarrow> [Pop_failed] | Some x \<Rightarrow> [Received x], ob')) (so_try_pop sz n ob)"
  by (simp add: numeral_eq_Suc so_try_pop_def so_read_def Let_def split: bind_split if_splits)

section \<open>Taking turns\<close>

definition ps_sees_all :: "nat \<Rightarrow> 'a sh_shared \<Rightarrow> bool" where
  "ps_sees_all t S \<longleftrightarrow> (\<forall>l. set (ps_writes S l) \<union> set (ps_reads S l) \<subseteq> set (ps_seen S t))"

lemma ps_access_seen:
  assumes "ps_sees_all t S"
  shows "\<exists>S'. ps_access t a S = Some S' \<and> ps_object S' = ps_object S \<and> ps_sees_all t (S'\<lparr>ps_object := ob\<rparr>)"
proof -
  obtain wr l where a: "a = (wr, l)" by (cases a)
  have "list_all (\<lambda>e. e \<in> set (ps_seen S t)) (ps_conflicts wr l S)"
    using assms by (auto simp: ps_sees_all_def ps_conflicts_def list_all_iff)
  then show ?thesis using assms by (auto simp: a ps_access_def ps_sees_all_def)
qed

definition sh_turn_inv :: "usize \<Rightarrow> usize \<Rightarrow> nat \<Rightarrow> 'a channel_event list \<Rightarrow> 'a sh_pc \<Rightarrow> 'a sh_shared \<Rightarrow> bool" where
  "sh_turn_inv sz n h log pc S \<longleftrightarrow>
     so_rep sz n (sent log) (length (received log)) (ps_object S) \<and>
     received log = take (length (received log)) (sent log) \<and>
     (sh_producer_ok (length (sent log)) (length (received log)) (ps_object S) pc \<or>
      sh_consumer_ok (sent log) (length (received log)) (ps_object S) pc) \<and> ps_sees_all h S"

text \<open>The effect of either operation.\<close>

lemma sh_effect_ok:
  assumes "so_rep sz n Q k ob" "sh_producer_ok (length Q) k ob pc \<or> sh_consumer_ok Q k ob pc" "R = take k Q" "length R = k"
  shows "\<exists>es pc' ob'. sh_effect sz n pc ob = Some (es, pc', ob') \<and>
    so_rep sz n (Q @ sent es) (length (R @ received es)) ob' \<and>
    R @ received es = take (length (R @ received es)) (Q @ sent es) \<and>
    (sh_producer_ok (length (Q @ sent es)) (length (R @ received es)) ob' pc' \<or>
     sh_consumer_ok (Q @ sent es) (length (R @ received es)) ob' pc') \<and>
    so_capacity ob' = so_capacity ob \<and>
    (Push_failed \<in> set es \<longrightarrow> Suc (length Q) = k + unat (so_capacity ob)) \<and> (Pop_failed \<in> set es \<longrightarrow> k = length Q)"
  using assms(2)
proof
  assume "sh_producer_ok (length Q) k ob pc"
  from sh_producer_step [OF assms(1) this] show ?thesis
    using assms(3,4) so_repD(2) [OF assms(1)] by auto
next
  assume "sh_consumer_ok Q k ob pc"
  from sh_consumer_step [OF assms(1) this] obtain es pc' ob' where e: "sh_effect sz n pc ob = Some (es, pc', ob')"
      "sent es = []" "received es = [] \<or> k < length Q \<and> received es = [Q ! k]"
      "so_rep sz n Q (k + length (received es)) ob'" "sh_consumer_ok Q (k + length (received es)) ob' pc'"
      "so_capacity ob' = so_capacity ob" "Pop_failed \<in> set es \<longrightarrow> k = length Q" "Push_failed \<notin> set es"
    by blast
  moreover have "R @ received es = take (k + length (received es)) Q"
    using e(3) assms(3) take_Suc_conv_app_nth [of k Q] by auto
  ultimately show ?thesis using assms(4) by (metis append_Nil2 length_append)
qed

lemma sh_turn_step:
  assumes "sh_turn_inv sz n h log pc S"
  shows "\<exists>es pc' S'. sh_step sz n h pc S = Some (es, pc', S') \<and> sh_turn_inv sz n h (log @ es) pc' S' \<and>
    so_capacity (ps_object S') = so_capacity (ps_object S) \<and>
    (Push_failed \<in> set es \<longrightarrow> Suc (length (sent log)) = length (received log) + unat (so_capacity (ps_object S))) \<and>
    (Pop_failed \<in> set es \<longrightarrow> length (received log) = length (sent log))"
proof -
  note I = assms [unfolded sh_turn_inv_def]
  from sh_effect_ok [of sz n "sent log" "length (received log)" "ps_object S" pc "received log"] I
  obtain es pc' ob where e: "sh_effect sz n pc (ps_object S) = Some (es, pc', ob)"
    "so_rep sz n (sent (log @ es)) (length (received (log @ es))) ob"
    "received (log @ es) = take (length (received (log @ es))) (sent (log @ es))"
    "sh_producer_ok (length (sent (log @ es))) (length (received (log @ es))) ob pc' \<or>
     sh_consumer_ok (sent (log @ es)) (length (received (log @ es))) ob pc'" "so_capacity ob = so_capacity (ps_object S)"
    "Push_failed \<in> set es \<longrightarrow> Suc (length (sent log)) = length (received log) + unat (so_capacity (ps_object S))"
    "Pop_failed \<in> set es \<longrightarrow> length (received log) = length (sent log)"
    unfolding sent_append received_append by metis
  show ?thesis
  proof (cases "sh_access pc")
    case None
    then have "pc = Sh_idle" by (cases pc) auto
    then show ?thesis using assms by (simp add: sh_step_def)
  next
    case (Some a)
    obtain S' where S': "ps_access h a S = Some S'" "ps_sees_all h (S'\<lparr>ps_object := ob\<rparr>)"
      using ps_access_seen [of h S a ob] I by blast
    have "sh_turn_inv sz n h (log @ es) pc' (S'\<lparr>ps_object := ob\<rparr>)"
      unfolding sh_turn_inv_def using e(2-4) S'(2) by (simp del: sent_append received_append)
    then show ?thesis using Some e(1,5-7) S'(1) by (simp add: sh_step_def)
  qed
qed

lemma sh_turns_inv:
  assumes "sh_turns sz n ob0 h log pc S" "so_rep sz n [] 0 ob0"
  shows "sh_turn_inv sz n h log pc S \<and> so_capacity (ps_object S) = so_capacity ob0"
  using assms(1)
proof (induction rule: sh_turns.induct)
  case (st_start h)
  then show ?case using assms(2) by (simp add: sh_turn_inv_def ps_start_def ps_sees_all_def)
next
  case (st_step h log pc S es pc' S')
  then show ?case using sh_turn_step [of sz n h log pc S] by auto
next
  case (st_hand h log S u)
  then show ?case by (auto simp: sh_turn_inv_def ps_hand_def ps_sees_all_def)
qed (simp_all add: sh_turn_inv_def)

section \<open>Without synchronisation\<close>

text \<open>What a process in the middle of an operation has read.\<close>

fun sh_has_read :: "'a sh_pc \<Rightarrow> sh_location set" where
  "sh_has_read (Push_head x cap tail) = {At_tail}"
| "sh_has_read (Push_write x cap tail) = {At_tail, At_head}"
| "sh_has_read (Push_store x cap tail) = {At_tail, At_head}"
| "sh_has_read (Pop_tail cap head) = {At_head}"
| "sh_has_read (Pop_read cap head) = {At_head, At_tail}"
| "sh_has_read (Pop_store cap head x) = {At_head, At_tail}"
| "sh_has_read pc = {}"

definition ps_has_read :: "nat \<Rightarrow> 'a sh_shared \<Rightarrow> sh_location \<Rightarrow> bool" where
  "ps_has_read t S l \<longleftrightarrow> set (ps_reads S l) \<inter> set (ps_seen S t) \<noteq> {}"

definition ps_has_written :: "nat \<Rightarrow> 'a sh_shared \<Rightarrow> sh_location \<Rightarrow> bool" where
  "ps_has_written t S l \<longleftrightarrow> set (ps_writes S l) \<inter> set (ps_seen S t) \<noteq> {}"

text \<open>
  Without hand-overs a process has seen its own accesses only, and a location that has been
  written has only ever been accessed by the process that wrote it.
\<close>

definition ps_apart :: "'a sh_shared \<Rightarrow> bool" where
  "ps_apart S \<longleftrightarrow> (\<forall>t u. t \<noteq> u \<longrightarrow> set (ps_seen S t) \<inter> set (ps_seen S u) = {}) \<and>
     (\<forall>t. \<forall>e \<in> set (ps_seen S t). e < ps_events S) \<and>
     (\<forall>l. ps_writes S l \<noteq> [] \<longrightarrow> (\<exists>t. set (ps_writes S l) \<union> set (ps_reads S l) \<subseteq> set (ps_seen S t)))"

lemma ps_access_apart:
  assumes "ps_apart S" "ps_access t (wr, l) S = Some S'"
  shows "ps_apart S'"
proof -
  let ?e = "ps_events S"
  have S': "S' = S\<lparr>ps_events := Suc ?e,
       ps_writes := (if wr then (ps_writes S)(l := ?e # ps_writes S l) else ps_writes S),
       ps_reads := (if wr then ps_reads S else (ps_reads S)(l := ?e # ps_reads S l)),
       ps_seen := (ps_seen S)(t := ?e # ps_seen S t)\<rparr>"
    and seen: "set (ps_conflicts wr l S) \<subseteq> set (ps_seen S t)"
    using assms(2) by (auto simp: ps_access_def list_all_iff split: if_splits)
  have fresh: "?e \<notin> set (ps_seen S u)" for u using assms(1) by (auto simp: ps_apart_def)
  have "set (ps_seen S' u) \<inter> set (ps_seen S' v) = {}" if "u \<noteq> v" for u v
    using assms(1) that fresh by (auto simp: S' ps_apart_def)
  moreover have "e < ps_events S'" if "e \<in> set (ps_seen S' u)" for u e
    using assms(1) that by (auto simp: S' ps_apart_def less_Suc_eq split: if_splits)
  moreover have "\<exists>u. set (ps_writes S' k) \<union> set (ps_reads S' k) \<subseteq> set (ps_seen S' u)" if w: "ps_writes S' k \<noteq> []" for k
  proof (cases "k = l \<and> wr")
    case True
    then show ?thesis using seen by (intro exI [of _ t]) (auto simp: S' ps_conflicts_def)
  next
    case False
    then have "ps_writes S k \<noteq> []" using w by (auto simp: S' split: if_splits)
    then obtain u where u: "set (ps_writes S k) \<union> set (ps_reads S k) \<subseteq> set (ps_seen S u)"
      using assms(1) by (auto simp: ps_apart_def)
    show ?thesis
    proof (cases "k = l")
      case True
      obtain e where "e \<in> set (ps_writes S k)" using \<open>ps_writes S k \<noteq> []\<close> by (cases "ps_writes S k") auto
      then have "e \<in> set (ps_seen S t)" "e \<in> set (ps_seen S u)" using seen u True by (auto simp: ps_conflicts_def)
      then have "u = t" using assms(1) unfolding ps_apart_def by blast
      then show ?thesis using u True False by (intro exI [of _ t]) (auto simp: S')
    next
      case False
      then show ?thesis using u by (intro exI [of _ u]) (auto simp: S')
    qed
  qed
  ultimately show ?thesis by (auto simp: ps_apart_def)
qed

lemma ps_access_marks:
  assumes "ps_access t (wr, l) S = Some S'"
  shows "ps_has_read u S k \<Longrightarrow> ps_has_read u S' k" "ps_has_written u S k \<Longrightarrow> ps_has_written u S' k"
    "\<not> wr \<Longrightarrow> ps_has_read t S' l" "wr \<Longrightarrow> ps_has_written t S' l"
    "\<not> wr \<or> l \<noteq> k \<Longrightarrow> ps_writes S' k = ps_writes S k"
  using assms by (auto simp: ps_access_def ps_has_read_def ps_has_written_def split: if_splits)

definition sh_free_inv :: "(nat \<times> 'a channel_event) list \<Rightarrow> (nat \<Rightarrow> 'a sh_pc) \<Rightarrow> 'a sh_shared \<Rightarrow> bool" where
  "sh_free_inv log pcs S \<longleftrightarrow> ps_apart S \<and> ps_writes S At_capacity = [] \<and>
     (\<forall>t. \<forall>l \<in> sh_has_read (pcs t). ps_has_read t S l) \<and>
     (\<forall>(t, e) \<in> set log. ps_has_read t S At_head \<and> ps_has_read t S At_tail \<and>
        (\<forall>x. (e = Sent x \<longrightarrow> ps_has_written t S At_tail) \<and> (e = Received x \<longrightarrow> ps_has_written t S At_head)))"

lemma sh_effect_reads:
  assumes "sh_effect sz n pc ob = Some (es, pc', ob')" "sh_access pc = Some (wr, l)"
  shows "k \<in> sh_has_read pc' \<Longrightarrow> k \<in> sh_has_read pc \<or> k = l \<and> \<not> wr"
    "e \<in> set es \<Longrightarrow> k = At_head \<or> k = At_tail \<Longrightarrow> k \<in> sh_has_read pc \<or> k = l \<and> \<not> wr"
    "Sent x \<in> set es \<Longrightarrow> wr \<and> l = At_tail" "Received x \<in> set es \<Longrightarrow> wr \<and> l = At_head"
  using assms by (cases pc; auto split: bind_splits if_splits)+

lemma sh_free_step:
  assumes "sh_free_inv log pcs S" "sh_step sz n t (pcs t) S = Some (es, pc, S')"
  shows "sh_free_inv (log @ map (Pair t) es) (pcs(t := pc)) S'"
proof (cases "sh_access (pcs t)")
  case None
  then have "pcs t = Sh_idle" by (cases "pcs t") auto
  moreover from this have "pcs(t := pc) = pcs" using assms(2) by (auto simp: sh_step_def)
  ultimately show ?thesis using assms by (simp add: sh_step_def)
next
  case (Some a)
  note I = assms(1) [unfolded sh_free_inv_def]
  obtain wr l where a: "sh_access (pcs t) = Some (wr, l)" using Some by (cases a) auto
  obtain S1 ob where S1: "ps_access t (wr, l) S = Some S1" "sh_effect sz n (pcs t) (ps_object S) = Some (es, pc, ob)"
    "S' = S1\<lparr>ps_object := ob\<rparr>" using assms(2) a by (auto simp: sh_step_def split: bind_splits)
  note M = ps_access_marks [OF S1(1)] and R = sh_effect_reads [OF S1(2) a]
  have here: "ps_has_read t S1 k" if "k \<in> sh_has_read (pcs t) \<or> k = l \<and> \<not> wr" for k using that M(1,3) I by blast
  have same: "ps_has_read u S' = ps_has_read u S1" "ps_has_written u S' = ps_has_written u S1" "ps_writes S' = ps_writes S1"
    "ps_apart S' = ps_apart S1" for u
    by (simp_all add: S1(3) ps_has_read_def ps_has_written_def ps_apart_def fun_eq_iff)
  have "\<not> wr \<or> l \<noteq> At_capacity" using a by (cases "pcs t") auto
  then have "ps_writes S' At_capacity = []" using M(5) [of At_capacity] I by (simp add: same)
  moreover have "ps_apart S'" using ps_access_apart [OF _ S1(1)] I by (simp add: same)
  moreover have "ps_has_read u S' k" if "k \<in> sh_has_read ((pcs(t := pc)) u)" for u k
    using that I M(1) R(1) here by (auto simp: same split: if_splits)
  moreover have "ps_has_read u S' At_head \<and> ps_has_read u S' At_tail \<and>
      (\<forall>x. (e = Sent x \<longrightarrow> ps_has_written u S' At_tail) \<and> (e = Received x \<longrightarrow> ps_has_written u S' At_head))"
    if "(u, e) \<in> set (log @ map (Pair t) es)" for u e
  proof (cases "(u, e) \<in> set log")
    case True
    then show ?thesis using I M(1,2) by (fastforce simp: same)
  next
    case False
    then have "u = t" "e \<in> set es" using that by auto
    then show ?thesis using here R(2-4) M(4) by (auto simp: same)
  qed
  ultimately show ?thesis unfolding sh_free_inv_def by blast
qed

lemma sh_run_free:
  assumes "sh_run sz n ob0 log pcs S"
  shows "sh_free_inv log pcs S \<and> so_capacity (ps_object S) = so_capacity ob0 \<and> so_size (ps_object S) = so_size ob0"
  using assms
proof (induction rule: sh_run.induct)
  case sh_start
  then show ?case by (simp add: sh_free_inv_def ps_start_def ps_apart_def)
next
  case (sh_process log pcs S t es pc S')
  have "so_capacity ob' = so_capacity ob \<and> so_size ob' = so_size ob"
    if "sh_effect sz n pc ob = Some (es, pc', ob')" for pc pc' es and ob ob' :: "'a shm_object"
    using that by (cases pc) (auto simp: so_write_def split: bind_splits if_splits)
  then have "so_capacity (ps_object S') = so_capacity (ps_object S) \<and> so_size (ps_object S') = so_size (ps_object S)"
    using sh_process.hyps(2) by (fastforce simp: sh_step_def split: option.splits bind_splits)
  then show ?case using sh_process sh_free_step by metis
qed (simp_all add: sh_free_inv_def)

text \<open>Accesses to a location that another process has written are data races, and stay so.\<close>

lemma ps_access_race:
  assumes "ps_apart S" "ps_has_written p S l" "q \<noteq> p"
  shows "ps_access q (wr, l) S = None"
proof -
  obtain w where "w \<in> set (ps_writes S l)" "w \<in> set (ps_seen S p)" using assms(2) by (auto simp: ps_has_written_def)
  moreover from this have "w \<notin> set (ps_seen S q)" using assms(1,3) by (auto simp: ps_apart_def)
  ultimately show ?thesis by (auto simp: ps_access_def ps_conflicts_def list_all_iff)
qed

definition ps_racy :: "nat \<Rightarrow> nat \<Rightarrow> 'a sh_shared \<Rightarrow> bool" where
  "ps_racy p q S \<longleftrightarrow> ps_apart S \<and> (ps_has_written p S At_head \<or> ps_has_written p S At_tail)"

lemma ps_racy_access: "ps_racy p q S \<Longrightarrow> ps_access q a S = Some S' \<Longrightarrow> ps_racy p q (S'\<lparr>ps_object := ob\<rparr>)"
  using ps_access_marks(2) [of q "fst a" "snd a" S S'] ps_access_apart [of S q "fst a" "snd a" S']
  by (auto simp: ps_racy_def ps_apart_def ps_has_written_def)

lemma sh_alone_races:
  assumes "ps_racy p q S" "ps_writes S At_capacity = []" "so_header_ok n (ps_object S)" "q \<noteq> p"
    and c: "c = Push_capacity y \<or> c = Pop_capacity"
  shows "\<exists>pc S' l. sh_alone sz n q 3 c S = ([], pc, S') \<and> sh_access pc = Some (False, l) \<and> ps_access q (False, l) S' = None"
proof -
  have "\<exists>S1. ps_access q (False, At_capacity) S = Some S1"
    using assms(2) by (simp add: ps_access_def ps_conflicts_def)
  then obtain S1 where S1: "ps_access q (False, At_capacity) S = Some S1" ..
  let ?S1 = "S1\<lparr>ps_object := ps_object S\<rparr>"
  have r1: "ps_racy p q ?S1" by (rule ps_racy_access [OF assms(1) S1])
  have both: "ps_access q (False, k) (S2\<lparr>ps_object := ob\<rparr>) = None"
    if "ps_access q (False, l) ?S1 = Some S2" "{k, l} = {At_head, At_tail}" for k l S2 ob
  proof -
    have "\<not> ps_has_written p ?S1 l" using ps_access_race [OF _ _ assms(4), of ?S1 l False] r1 that(1) by (auto simp: ps_racy_def)
    then have "ps_has_written p ?S1 k" using r1 that(2) by (auto simp: ps_racy_def doubleton_eq_iff)
    then have "ps_has_written p (S2\<lparr>ps_object := ob\<rparr>) k"
      using ps_access_marks(2) [OF that(1)] by (simp add: ps_has_written_def)
    moreover have "ps_apart (S2\<lparr>ps_object := ob\<rparr>)" using ps_racy_access [OF r1 that(1), of ob] by (simp add: ps_racy_def)
    ultimately show ?thesis using ps_access_race [OF _ _ assms(4)] by blast
  qed
  from c show ?thesis
  proof
    assume c: "c = Push_capacity y"
    show ?thesis
    proof (cases "ps_access q (False, At_tail) ?S1")
      case None
      then show ?thesis using c S1 assms(3) by (simp add: numeral_eq_Suc sh_step_def)
    next
      case (Some S2)
      from both [OF Some, of At_head] show ?thesis
        using c S1 Some assms(3) by (simp add: numeral_eq_Suc sh_step_def insert_commute)
    qed
  next
    assume c: "c = Pop_capacity"
    show ?thesis
    proof (cases "ps_access q (False, At_head) ?S1")
      case None
      then show ?thesis using c S1 assms(3) by (simp add: numeral_eq_Suc sh_step_def)
    next
      case (Some S2)
      from both [OF Some, of At_tail] show ?thesis
        using c S1 Some assms(3) by (simp add: numeral_eq_Suc sh_step_def insert_commute)
    qed
  qed
qed

lemma sh_free_racy:
  assumes "sh_free_inv log pcs S" "(p, e) \<in> set log" "e = Sent x \<or> e = Received x"
  obtains l where "l = At_head \<or> l = At_tail" "ps_has_written p S l" "ps_racy p q S"
proof -
  have e: "\<forall>(t, e) \<in> set log. \<forall>x. (e = Sent x \<longrightarrow> ps_has_written t S At_tail) \<and> (e = Received x \<longrightarrow> ps_has_written t S At_head)"
    and apart: "ps_apart S" using assms(1) by (auto simp: sh_free_inv_def)
  obtain l where "l = At_head \<or> l = At_tail" "ps_has_written p S l" using bspec [OF e assms(2)] assms(3) by auto
  then show thesis using that [of l] apart by (auto simp: ps_racy_def)
qed

lemma sh_free_owner:
  assumes "sh_free_inv log pcs S" "l = At_head \<or> l = At_tail" "ps_has_written p S l" "(q, e) \<in> set log"
  shows "q = p"
proof -
  have "\<forall>(t, e) \<in> set log. ps_has_read t S At_head \<and> ps_has_read t S At_tail" and apart: "ps_apart S"
    using assms(1) by (auto simp: sh_free_inv_def)
  then have "ps_has_read q S l" using assms(2,4) by blast
  then obtain d where d: "d \<in> set (ps_reads S l)" "d \<in> set (ps_seen S q)" by (auto simp: ps_has_read_def)
  obtain w where w: "w \<in> set (ps_writes S l)" "w \<in> set (ps_seen S p)" using assms(3) by (auto simp: ps_has_written_def)
  then have "ps_writes S l \<noteq> []" by auto
  then obtain t where t: "set (ps_writes S l) \<union> set (ps_reads S l) \<subseteq> set (ps_seen S t)"
    using apart by (auto simp: ps_apart_def)
  have own: "u = t" if "z \<in> set (ps_seen S u)" "z \<in> set (ps_seen S t)" for u z
    using apart that by (auto simp: ps_apart_def)
  show ?thesis using own [of d q] own [of w p] d w t by blast
qed

section \<open>Properties\<close>

text \<open>
  C3. Without synchronisation from outside, the ring cannot carry an element from one process
  to another: in every run of any number of processes on a new ring, once a process \<open>p\<close> has
  pushed or popped an element, every operation that has been completed is one of \<open>p\<close>, and when
  another process now calls \<open>try_push\<close> or \<open>try_pop\<close>, its read of the head or of the tail is
  a data race, which is undefined behaviour.
\<close>

theorem shm_ring_data_race:
  assumes "sh_new oc sz cfg os = Some (Inr r, os')"
    and "sh_run sz (sr_size r) (os_objects os' (sr_object r)) log pcs S"
    and "(p, e) \<in> set log" "e = Sent x \<or> e = Received x" "q \<noteq> p"
  shows "(\<forall>e'. (q, e') \<notin> set log) \<and>
    (c = Push_capacity y \<or> c = Pop_capacity \<longrightarrow>
      (\<exists>pc S' l. sh_alone sz (sr_size r) q 3 c S = ([], pc, S') \<and> sh_access pc = Some (False, l) \<and>
         ps_access q (False, l) S' = None))"
proof -
  from sh_run_free [OF assms(2)] have F: "sh_free_inv log pcs S"
    and same: "so_capacity (ps_object S) = so_capacity (os_objects os' (sr_object r))"
      "so_size (ps_object S) = so_size (os_objects os' (sr_object r))" by auto
  obtain l where l: "l = At_head \<or> l = At_tail" "ps_has_written p S l" "ps_racy p q S"
    using sh_free_racy [OF F assms(3,4)] by metis
  have "so_header_ok (sr_size r) (ps_object S)" using sh_new_object(5) [OF assms(1)] same by (simp add: so_header_ok_def)
  moreover have "ps_writes S At_capacity = []" using F by (simp add: sh_free_inv_def)
  moreover have "\<forall>e'. (q, e') \<notin> set log" using sh_free_owner [OF F l(1,2)] assms(5) by metis
  ultimately show ?thesis using sh_alone_races [OF l(3) _ _ assms(5)] by metis
qed

lemma sh_run_alone:
  "sh_run sz n ob0 log (pcs(t := pc)) S \<Longrightarrow> sh_alone sz n t k pc S = (es, pc', S') \<Longrightarrow>
   sh_run sz n ob0 (log @ map (Pair t) es) (pcs(t := pc')) S'"
proof (induction k arbitrary: log pc S es)
  case (Suc k)
  show ?case
  proof (cases "sh_step sz n t pc S")
    case None
    with Suc.prems(2) have "es = []" "pc' = pc" "S' = S" by simp_all
    then show ?thesis using Suc.prems(1) by simp
  next
    case (Some r)
    then obtain fs pc1 S1 gs where s: "sh_step sz n t pc S = Some (fs, pc1, S1)" "sh_alone sz n t k pc1 S1 = (gs, pc', S')"
        "es = fs @ gs"
      using Suc.prems(2) by (cases r) (auto simp: Let_def split: prod.splits)
    have "sh_run sz n ob0 (log @ map (Pair t) fs) (pcs(t := pc1)) S1"
      using sh_process [OF Suc.prems(1), of t fs pc1 S1] s(1) by (simp only: fun_upd_upd fun_upd_same)
    from Suc.IH [OF this s(2)] s(3) show ?thesis by simp
  qed
qed simp

text \<open>Process 0 pushes, then process 1 pops.\<close>

theorem shm_ring_data_race_witness:
  "\<exists>S pc S' l. sh_run 8 48 (os_objects shm_demo_ring 0) [(0, Sent 5)] ((\<lambda>_. Sh_idle)(0 := Sh_idle)) S \<and>
     sh_alone 8 48 1 3 Pop_capacity S = ([], pc, S') \<and> sh_access pc = Some (False, l) \<and> ps_access 1 (False, l) S' = None"
proof -
  let ?ob = "os_objects shm_demo_ring (sr_object (shm_demo_region True))"
  let ?n = "sr_size (shm_demo_region True)"
  have five: "sh_alone 8 48 0 5 = sh_alone 8 48 0 (Suc (Suc (Suc (Suc (Suc 0)))))"
    by (simp add: numeral_eq_Suc)
  have "fst (sh_alone 8 48 0 5 (Push_capacity 5) (ps_start (os_objects shm_demo_ring 0))) = [Sent 5] \<and>
      fst (snd (sh_alone 8 48 0 5 (Push_capacity 5) (ps_start (os_objects shm_demo_ring 0)))) = Sh_idle"
    unfolding five by (simp add: sh_step_def ps_access_def ps_conflicts_def ps_start_def shm_demo_ring_def
        so_write_def so_slot_ok_def so_header_ok_def sh_header_size_def sh_next_def)
  then obtain S where S: "sh_alone 8 ?n 0 5 (Push_capacity 5) (ps_start ?ob) = ([Sent 5], Sh_idle, S)"
    by (metis prod.collapse shm_demo_region_def shm_region.select_convs(1,2))
  have "sh_run 8 ?n ?ob [] ((\<lambda>_. Sh_idle)(0 := Push_capacity 5)) (ps_start ?ob)"
    by (rule sh_call_push [OF sh_start]) simp
  from sh_run_alone [OF this S] have run: "sh_run 8 ?n ?ob [(0, Sent 5)] ((\<lambda>_. Sh_idle)(0 := Sh_idle)) S" by simp
  from shm_ring_data_race [OF shm_demo_new run, of 0 "Sent 5" 5 1 Pop_capacity] run show ?thesis
    by (auto simp: shm_demo_region_def)
qed

text \<open>
  Processes that take turns and synchronise at each hand-over: no step is a data race or a fault;
  whoever pushes and pops, the elements received are the first ones sent, in order; at most
  \<open>capacity() - 1\<close> are in the ring; a push fails only when the ring is full, a pop only when
  everything sent has been received.
\<close>

theorem shm_ring_turns:
  assumes "sh_new oc sz cfg os = Some (Inr r, os')" "sc_create cfg" "sc_capacity cfg \<noteq> 0"
    and "unat sh_header_size + unat (sc_capacity cfg) * unat sz < 2 ^ 64"
    and "sh_turns sz (sr_size r) (os_objects os' (sr_object r)) h log pc S"
  shows "(\<exists>es pc' S'. sh_step sz (sr_size r) h pc S = Some (es, pc', S') \<and>
      (Push_failed \<in> set es \<longrightarrow> Suc (length (sent log)) = length (received log) + unat (sc_capacity cfg)) \<and>
      (Pop_failed \<in> set es \<longrightarrow> sent log = received log)) \<and>
    (\<exists>rest. sent log = received log @ rest \<and> length rest < unat (sc_capacity cfg))"
proof -
  from sh_turns_inv [OF assms(5) sh_new_rep [OF assms(1-4)]] have I: "sh_turn_inv sz (sr_size r) h log pc S"
    and cap: "so_capacity (ps_object S) = sc_capacity cfg" using sh_new_object(2) [OF assms(1)] by auto
  have rep: "so_rep sz (sr_size r) (sent log) (length (received log)) (ps_object S)"
    and "received log = take (length (received log)) (sent log)" using I by (simp_all add: sh_turn_inv_def)
  then have split: "sent log = received log @ drop (length (received log)) (sent log)" by (metis append_take_drop_id)
  have "length (drop (length (received log)) (sent log)) < unat (sc_capacity cfg)"
    using so_repD(2,3) [OF rep] cap by simp
  then have "\<exists>rest. sent log = received log @ rest \<and> length rest < unat (sc_capacity cfg)" using split by blast
  moreover have "sent log = received log" if "length (received log) = length (sent log)" using split that by simp
  ultimately show ?thesis using sh_turn_step [OF I] cap by metis
qed

theorem shm_ring_turns_witness:
  "sh_step 8 48 1 (Push_capacity 5) (ps_hand 0 1 (ps_start (os_objects shm_demo_ring 0))) \<noteq> None"
proof -
  let ?ob = "os_objects shm_demo_ring (sr_object (shm_demo_region True))"
  have "sh_turns 8 (sr_size (shm_demo_region True)) ?ob 1 [] (Push_capacity 5) (ps_hand 0 1 (ps_start ?ob))"
    by (rule st_call_push [OF st_hand [OF st_start]])
  from shm_ring_turns [OF shm_demo_new _ _ _ this] show ?thesis
    by (auto simp: shm_demo_cfg_def shm_demo_region_def sh_header_size_def)
qed

end
