(* ===== verification/ShmPublisher.thy ===== *)
theory ShmPublisher
  imports ShmRing "HOL-Library.Sublist"
begin

text \<open>
  The publisher \<open>examples/shm_publisher.cpp\<close>: a process that creates a ring in shared
  memory, pushes a numbered message every millisecond, drops the oldest message when the ring
  is full, and runs until a signal tells it to stop. The model composes it from the ring of
  \<open>ShmRing\<close>.

  Clock readings, signals and a consumer come from outside: a run is given by the signals
  delivered before the loop, and, for each round, the reading of \<open>steady_clock\<close>, the signals
  delivered until the loop tests \<open>g_stop\<close> again, and how often a consumer calls \<open>try_pop\<close> while
  the publisher sleeps. The subscriber of the repository, \<open>examples/shm_subscriber.py\<close>, only
  reads the object, which changes nothing for the publisher. The model says nothing of
  processes that attach with the constructor, which resets the ring, or that
  access it while the publisher does, which is a data race (\<open>ShmProcesses\<close>).
\<close>

section \<open>The program\<close>

record message =
  msg_seq :: usize
  msg_timestamp_ns :: usize
  msg_payload :: "8 word list"

definition message_size :: usize where
  "message_size = 64"

definition kShmName :: string where
  "kShmName = ''/hpc_shm_spsc_ring''"

definition kCapacity :: usize where
  "kCapacity = 1024"

definition pub_config :: shm_ring_config where
  "pub_config = \<lparr>sc_name = kShmName, sc_capacity = kCapacity, sc_create = True\<rparr>"

definition signal_handler :: "int \<Rightarrow> int \<Rightarrow> int" where
  "signal_handler signum g_stop = 1"

definition pub_message :: "usize \<Rightarrow> int \<Rightarrow> message" where
  "pub_message seq now = \<lparr>msg_seq = seq, msg_timestamp_ns = word_of_int now, msg_payload = replicate 48 0\<rparr>"

definition pub_send :: "shm_region \<Rightarrow> message \<Rightarrow> message shm_os \<Rightarrow> message shm_os option" where
  "pub_send r = push_dropping (\<lambda>m. sh_try_push message_size m r) (sh_try_pop message_size r)"

text \<open>A consumer calls \<open>try_pop\<close> up to \<open>k\<close> times, until it fails; it synchronises with the publisher from outside.\<close>

definition pub_taken :: "shm_region \<Rightarrow> nat \<Rightarrow> message shm_os \<Rightarrow> (message list \<times> message shm_os) option" where
  "pub_taken r = pop_batch (sh_try_pop message_size r)"

text \<open>
  A round: the reading of the clock, the signals, the calls of the consumer. The loop returns the
  sequence numbers printed, what the consumer has taken, and the value of \<open>g_stop\<close>.
\<close>

type_synonym pub_round = "int \<times> int list \<times> nat"

fun pub_loop :: "shm_region \<Rightarrow> pub_round list \<Rightarrow> int \<Rightarrow> usize \<Rightarrow> message shm_os \<Rightarrow>
    (usize list \<times> message list \<times> int \<times> message shm_os) option" where
  "pub_loop r [] g_stop seq os = Some ([], [], g_stop, os)"
| "pub_loop r ((now, sigs, k) # rounds) g_stop seq os =
     (if g_stop \<noteq> 0 then Some ([], [], g_stop, os)
      else do {
        os1 \<leftarrow> pub_send r (pub_message seq now) os;
        (ys, os2) \<leftarrow> pub_taken r k os1;
        (printed, zs, g_stop', os3) \<leftarrow> pub_loop r rounds (fold signal_handler sigs g_stop) (seq + 1) os2;
        Some (if seq mod 1000 = 0 then seq # printed else printed, ys @ zs, g_stop', os3)
      })"

datatype pub_status = Pub_running shm_region | Pub_exited int

definition pub_main :: "shm_outcome \<Rightarrow> int list \<Rightarrow> pub_round list \<Rightarrow> message shm_os \<Rightarrow>
    (usize list \<times> message list \<times> pub_status \<times> message shm_os) option" where
  "pub_main oc early rounds os = do {
     (ring, os1) \<leftarrow> sh_new oc message_size pub_config os;
     case ring of
       Inl ex \<Rightarrow> Some ([], [], Pub_exited 1, os1)
     | Inr r \<Rightarrow> do {
         (printed, ys, g_stop, os2) \<leftarrow> pub_loop r rounds (fold signal_handler early 0) 0 os1;
         Some (if g_stop \<noteq> 0 then (printed, ys, Pub_exited 0, sr_destroy r os2) else (printed, ys, Pub_running r, os2))
       }
   }"

section \<open>What it does\<close>

lemma signals [simp]: "fold signal_handler sigs g = (if sigs = [] then g else 1)"
  by (induction sigs arbitrary: g) (auto simp: signal_handler_def)

text \<open>The rounds that are run: up to the first with a signal.\<close>

fun pub_rounds :: "pub_round list \<Rightarrow> pub_round list" where
  "pub_rounds [] = []"
| "pub_rounds ((now, sigs, k) # rounds) = (now, sigs, k) # (if sigs = [] then pub_rounds rounds else [])"

fun pub_messages :: "usize \<Rightarrow> pub_round list \<Rightarrow> message list" where
  "pub_messages seq [] = []"
| "pub_messages seq ((now, sigs, k) # rounds) = pub_message seq now # pub_messages (seq + 1) rounds"

definition pub_quiet :: "pub_round list \<Rightarrow> bool" where
  "pub_quiet rounds \<longleftrightarrow> list_all (\<lambda>(now, sigs, k). sigs = []) rounds"

definition pub_pops :: "pub_round list \<Rightarrow> nat list" where
  "pub_pops = map (\<lambda>(now, sigs, k). k)"

text \<open>
  The channel that the publisher makes of the ring: a list of at most \<open>n\<close> messages to which it
  adds at the end, losing the oldest when there are more, and from which \<open>k\<close> are then taken.
  The result is what has been taken and what is left.
\<close>

fun pub_channel :: "nat \<Rightarrow> message list \<Rightarrow> message list \<Rightarrow> nat list \<Rightarrow> message list \<times> message list" where
  "pub_channel n xs (m # ms) (k # ks) =
     (let ys = newest n (xs @ [m]); (taken, left) = pub_channel n (drop k ys) ms ks in (take k ys @ taken, left))"
| "pub_channel n xs ms ks = ([], xs)"

text \<open>No message is taken twice or out of order, and without a consumer the newest stay.\<close>

lemma pub_channel_subseq:
  "pub_channel n xs ms ks = (taken, left) \<Longrightarrow> subseq (taken @ left) (xs @ ms)"
proof (induction n xs ms ks arbitrary: taken left rule: pub_channel.induct)
  case (1 n xs m ms k ks)
  let ?ys = "newest n (xs @ [m])"
  obtain taken' where p: "pub_channel n (drop k ?ys) ms ks = (taken', left)" "taken = take k ?ys @ taken'"
    using "1.prems" by (auto simp: Let_def split: prod.splits)
  have "subseq (take k ?ys @ taken' @ left) (take k ?ys @ drop k ?ys @ ms)"
    using "1.IH" [OF refl p(1)] by (rule subseq_append' [THEN iffD2])
  then have "subseq (taken @ left) (?ys @ ms)" unfolding p(2) append.assoc [symmetric] append_take_drop_id by simp
  moreover have "subseq (?ys @ ms) ((xs @ [m]) @ ms)"
    unfolding newest_def by (intro list_emb_append_mono suffix_imp_subseq suffix_drop) simp
  ultimately show ?case using subseq_order.trans by fastforce
qed (auto intro!: prefix_imp_subseq)

lemma pub_channel_quiet:
  assumes "length xs \<le> n" "length ks = length ms" "list_all (\<lambda>k. k = 0) ks"
  shows "pub_channel n xs ms ks = ([], newest n (xs @ ms))"
  using assms
proof (induction n xs ms ks rule: pub_channel.induct)
  case (1 n xs m ms k ks)
  have "length (newest n (xs @ [m])) \<le> n" by (simp add: newest_def)
  with 1 show ?case using newest_append [of n "xs @ [m]" ms] by simp
qed (auto simp: newest_def)

definition same_resources :: "'a shm_os \<Rightarrow> 'a shm_os \<Rightarrow> bool" where
  "same_resources os os' \<longleftrightarrow> os_fds os' = os_fds os \<and> os_maps os' = os_maps os \<and> os_names os' = os_names os"

lemma same_resources_trans: "same_resources a b \<Longrightarrow> same_resources b c \<Longrightarrow> same_resources a c"
  by (simp add: same_resources_def)

lemma pub_send_resources: "pub_send r m os = Some os' \<Longrightarrow> same_resources os os'"
  by (auto simp: pub_send_def push_dropping_def sh_try_push_def sh_try_pop_def same_resources_def
      split: bind_splits if_splits)

lemma pub_taken_resources: "pub_taken r k os = Some (ys, os') \<Longrightarrow> same_resources os os'"
proof (induction k arbitrary: os ys)
  case (Suc k)
  have pop: "same_resources os1 os2" if "sh_try_pop message_size r os1 = Some (res, os2)" for os1 res os2
    using that by (auto simp: sh_try_pop_def same_resources_def split: bind_splits)
  show ?case
    using Suc.prems Suc.IH pop same_resources_trans
    by (fastforce simp: pub_taken_def split: bind_splits option.splits)
qed (simp add: pub_taken_def same_resources_def)

lemma pub_taken_usable: "pub_taken r k os = Some (ys, os') \<Longrightarrow> sh_usable r os' = sh_usable r os"
proof (induction k arbitrary: os ys)
  case (Suc k)
  then show ?case using sh_pop_capacity by (fastforce simp: pub_taken_def split: bind_splits option.splits)
qed (simp add: pub_taken_def)

lemma pub_messages_length [simp]: "length (pub_messages seq rounds) = length rounds"
  by (induction seq rounds rule: pub_messages.induct) simp_all

lemma pub_messages_seq [simp]: "map msg_seq (pub_messages seq rounds) = map (\<lambda>i. seq + of_nat i) [0..<length rounds]"
proof (induction seq rounds rule: pub_messages.induct)
  case (2 seq now sigs k rounds)
  then show ?case
    by (simp add: pub_message_def upt_conv_Cons map_Suc_upt [symmetric] add.assoc del: upt_Suc)
qed simp

lemma pub_loop_runs:
  assumes "sh_state_inv message_size r os" "0 < sh_usable r os" "g_stop = 0"
  shows "\<exists>taken os'. pub_loop r rounds g_stop seq os =
      Some (filter (\<lambda>s. s mod 1000 = 0) (map msg_seq (pub_messages seq (pub_rounds rounds))), taken,
        if pub_quiet rounds then 0 else 1, os') \<and>
    pub_channel (sh_usable r os) (sh_contents r os) (pub_messages seq (pub_rounds rounds)) (pub_pops (pub_rounds rounds)) =
      (taken, sh_contents r os') \<and>
    same_resources os os'"
  using assms
proof (induction rounds arbitrary: g_stop seq os)
  case Nil
  then show ?case by (simp add: pub_quiet_def same_resources_def pub_pops_def)
next
  case (Cons ns rounds)
  obtain now sigs k where ns: "ns = (now, sigs, k)" by (cases ns)
  let ?m = "pub_message seq now" and ?n = "sh_usable r os"
  obtain os1 where os1: "pub_send r ?m os = Some os1" "sh_state_inv message_size r os1" "sh_usable r os1 = ?n"
      "sh_contents r os1 = newest ?n (sh_contents r os @ [?m])"
    using shm.push_dropping_newest [OF Cons.prems(1,2), of ?m] unfolding pub_send_def by auto
  obtain os2 where os2: "pub_taken r k os1 = Some (take k (sh_contents r os1), os2)" "sh_state_inv message_size r os2"
      "sh_contents r os2 = drop k (sh_contents r os1)"
    using shm.pop_batch_upto [OF os1(2), of k] unfolding pub_taken_def by auto
  have n: "sh_usable r os2 = ?n" using pub_taken_usable [OF os2(1)] os1(3) by simp
  note res = same_resources_trans [OF pub_send_resources [OF os1(1)] pub_taken_resources [OF os2(1)]]
  have seq: "msg_seq ?m = seq" by (simp add: pub_message_def)
  show ?case
  proof (cases "sigs = []")
    case False
    then have "pub_loop r rounds 1 (seq + 1) os2 = Some ([], [], 1, os2)" by (cases rounds) auto
    then show ?thesis using False os1 os2 res seq Cons.prems(3) ns
      by (simp add: pub_quiet_def pub_pops_def Let_def)
  next
    case True
    obtain taken os' where IH: "pub_loop r rounds 0 (seq + 1) os2 =
        Some (filter (\<lambda>s. s mod 1000 = 0) (map msg_seq (pub_messages (seq + 1) (pub_rounds rounds))), taken,
          if pub_quiet rounds then 0 else 1, os')"
      "pub_channel ?n (sh_contents r os2) (pub_messages (seq + 1) (pub_rounds rounds)) (pub_pops (pub_rounds rounds)) =
        (taken, sh_contents r os')" "same_resources os2 os'"
      using Cons.IH [OF os2(2), of 0 "seq + 1"] Cons.prems(2) n by auto
    have "pub_loop r (ns # rounds) g_stop seq os =
      Some (filter (\<lambda>s. s mod 1000 = 0) (map msg_seq (pub_messages seq (pub_rounds (ns # rounds)))),
        take k (sh_contents r os1) @ taken, if pub_quiet (ns # rounds) then 0 else 1, os')"
      using ns True os1(1) os2(1) IH(1) seq Cons.prems(3) by (simp add: pub_quiet_def del: pub_messages_seq)
    moreover have "pub_channel ?n (sh_contents r os) (pub_messages seq (pub_rounds (ns # rounds)))
        (pub_pops (pub_rounds (ns # rounds))) = (take k (sh_contents r os1) @ taken, sh_contents r os')"
      using ns True os1(4) os2(3) IH(2) by (simp add: pub_pops_def Let_def)
    ultimately show ?thesis using same_resources_trans [OF res IH(3)] by blast
  qed
qed

lemma sr_destroy_resources: "same_resources os os' \<Longrightarrow> same_resources (sr_destroy r os) (sr_destroy r os')"
  by (simp add: same_resources_def sr_destroy_def os_close_def os_munmap_def os_shm_unlink_def Let_def)

lemma pub_new_thrown:
  assumes "sh_new oc message_size pub_config os = Some (Inl e, os1)"
  shows "os_fds os1 = os_fds os \<and> os_maps os1 = os_maps os"
  using assms
  by (auto simp: sh_new_def sr_new_def sr_open_def os_shm_open_def os_ftruncate_def os_mmap_def os_close_def pub_config_def kCapacity_def Let_def
      split: if_splits option.splits os_error.splits prod.splits sum.splits)

lemma pub_new_created:
  assumes "sh_new oc message_size pub_config os = Some (Inr r, os1)"
  shows "sh_state_inv message_size r os1" "sh_contents r os1 = []" "sh_usable r os1 = 1023"
    "same_resources (os\<lparr>os_names := (os_names os)(sc_name pub_config := None)\<rparr>) (sr_destroy r os1)"
proof -
  have rep: "so_rep message_size (sr_size r) [] 0 (os_objects os1 (sr_object r))"
    by (rule sh_new_rep [OF assms]) (simp_all add: pub_config_def kCapacity_def message_size_def sh_header_size_def)
  then show "sh_state_inv message_size r os1" by (auto simp: sh_state_inv_def)
  show "sh_contents r os1 = []" using so_contents_rep [OF rep] by (simp add: sh_contents_def)
  show "sh_usable r os1 = 1023"
    using sh_new_object(2) [OF assms] by (simp add: sh_usable_def pub_config_def kCapacity_def)
  show "same_resources (os\<lparr>os_names := (os_names os)(sc_name pub_config := None)\<rparr>) (sr_destroy r os1)"
    using assms
    by (auto simp: sh_new_def sr_new_def sr_open_def os_shm_open_def os_ftruncate_def os_mmap_def os_close_def os_munmap_def
        os_shm_unlink_def sr_destroy_def pub_config_def kCapacity_def same_resources_def Let_def
        split: if_splits option.splits os_error.splits prod.splits sum.splits)
qed

lemma pub_new_total: "sh_new oc message_size pub_config os \<noteq> None"
  by (auto simp: sh_new_def sr_new_def sr_open_def os_shm_open_def os_ftruncate_def os_mmap_def os_close_def
      so_header_ok_def sh_bytes_def sh_header_size_def message_size_def pub_config_def kCapacity_def Let_def
      split: if_splits option.splits os_error.splits prod.splits sum.splits)

section \<open>Properties\<close>

text \<open>
  C25. The publisher, on every run in which other processes do no more to the ring than take
  elements with \<open>try_pop\<close> while it sleeps, synchronised with it from outside: it never
  faults. When the ring cannot be created it exits with 1 and keeps no descriptor and no
  mapping. Otherwise it sends one message in every round, numbered from 0, and prints every
  thousandth number; what the consumer takes and what is left are those of a list of at most
  1023 messages that loses its oldest, so that no message is taken twice or out of order, and
  without a consumer the ring holds the newest 1023. While no signal has arrived it runs on; when
  one has arrived it exits with 0, and descriptors and mappings are as before and the name is gone.
\<close>

theorem publisher_runs:
  "\<exists>printed taken st os'. pub_main oc early rounds os = Some (printed, taken, st, os') \<and>
     (case sh_new oc message_size pub_config os of
        Some (Inr r, os1) \<Rightarrow>
          (let rs = (if early = [] then pub_rounds rounds else []); ms = pub_messages 0 rs
           in \<exists>left. printed = filter (\<lambda>s. s mod 1000 = 0) (map msg_seq ms) \<and>
             pub_channel 1023 [] ms (pub_pops rs) = (taken, left) \<and> subseq (taken @ left) ms \<and>
             (list_all (\<lambda>k. k = 0) (pub_pops rs) \<longrightarrow> left = newest 1023 ms) \<and>
             (if early = [] \<and> pub_quiet rounds
              then st = Pub_running r \<and> sh_contents r os' = left
              else st = Pub_exited 0 \<and>
                same_resources (os\<lparr>os_names := (os_names os)(sc_name pub_config := None)\<rparr>) os'))
      | _ \<Rightarrow> st = Pub_exited 1 \<and> printed = [] \<and> taken = [] \<and> os_fds os' = os_fds os \<and> os_maps os' = os_maps os)"
proof (cases "sh_new oc message_size pub_config os")
  case None
  then show ?thesis using pub_new_total by blast
next
  case (Some res)
  obtain ring os1 where res: "res = (ring, os1)" by (cases res)
  show ?thesis
  proof (cases ring)
    case (Inl e)
    then show ?thesis using Some res pub_new_thrown [of oc os e os1] by (simp add: pub_main_def)
  next
    case (Inr r)
    then have new: "sh_new oc message_size pub_config os = Some (Inr r, os1)" using Some res by simp
    note C = pub_new_created [OF new]
    show ?thesis
    proof (cases "early = []")
      case False
      have "pub_loop r rounds 1 0 os1 = Some ([], [], 1, os1)" by (cases rounds) auto
      then show ?thesis using False new C(4) by (simp add: pub_main_def newest_def pub_pops_def)
    next
      case True
      let ?rs = "pub_rounds rounds"
      obtain taken os2 where os2: "pub_loop r rounds 0 0 os1 =
          Some (filter (\<lambda>s. s mod 1000 = 0) (map msg_seq (pub_messages 0 ?rs)), taken,
            if pub_quiet rounds then 0 else 1, os2)"
          "pub_channel 1023 [] (pub_messages 0 ?rs) (pub_pops ?rs) = (taken, sh_contents r os2)" "same_resources os1 os2"
        using pub_loop_runs [OF C(1), of 0 rounds 0] C(2,3) by auto
      note ok = same_resources_trans [OF C(4) sr_destroy_resources [OF os2(3)]]
      have "subseq (taken @ sh_contents r os2) (pub_messages 0 ?rs)" using pub_channel_subseq [OF os2(2)] by simp
      moreover have "sh_contents r os2 = newest 1023 (pub_messages 0 ?rs)" if "list_all (\<lambda>k. k = 0) (pub_pops ?rs)"
        using pub_channel_quiet [OF _ _ that, of "[]" 1023 "pub_messages 0 ?rs"] os2(2) by (simp add: pub_pops_def)
      ultimately show ?thesis
        using True new os2(1,2) ok by (auto simp: pub_main_def simp del: pub_messages_seq)
    qed
  qed
qed

definition pub_demo_os :: "message shm_os" where
  "pub_demo_os = \<lparr>os_names = \<lambda>_. None, os_objects = \<lambda>_. \<lparr>so_size = 0, so_capacity = 0, so_head = 0, so_tail = 0,
     so_slots = \<lambda>_. pub_message 0 0\<rparr>, os_next = 0, os_fds = 0, os_maps = 0\<rparr>"

theorem publisher_runs_witness:
  "(\<exists>taken os'. pub_main shm_demo_ok [] [(7, [], 0), (8, [2], 0)] pub_demo_os = Some ([0], taken, Pub_exited 0, os') \<and> os_fds os' = 0) \<and>
   (\<exists>r os'. pub_main shm_demo_ok [] [(7, [], 0), (8, [], 1)] pub_demo_os = Some ([0], [pub_message 0 7], Pub_running r, os') \<and>
      sh_contents r os' = [pub_message 1 8])"
proof -
  obtain r os1 where n: "sh_new shm_demo_ok message_size pub_config pub_demo_os = Some (Inr r, os1)"
    by (simp add: sh_new_def sr_new_def sr_open_def os_shm_open_def os_ftruncate_def os_mmap_def so_header_ok_def
      sh_bytes_def sh_header_size_def message_size_def pub_config_def kCapacity_def pub_demo_os_def shm_demo_ok_def)
  have q: "\<not> pub_quiet [(7, [], 0), (8, [2], 0)]" "pub_quiet [(7, [], 0), (8, [], 1)]" by (simp_all add: pub_quiet_def)
  have msg: "msg_seq (pub_message i t) = i" for i t by (simp add: pub_message_def)
  have c: "pub_channel 1023 [] [pub_message 0 7, pub_message 1 8] [0, 1] = ([pub_message 0 7], [pub_message 1 8])"
    by (simp add: newest_def)
  show ?thesis
    using publisher_runs [of shm_demo_ok "[]" "[(7, [], 0), (8, [2], 0)]" pub_demo_os]
      publisher_runs [of shm_demo_ok "[]" "[(7, [], 0), (8, [], 1)]" pub_demo_os] n q c
    by (auto simp: same_resources_def pub_pops_def pub_demo_os_def Let_def msg simp del: pub_channel.simps)
qed

end
