(* ===== verification/ThrowingElements.thy ===== *)
theory ThrowingElements
  imports FixedStack FixedQueue SpscRing DynamicQueue Vector Deque
begin

text \<open>
  Element types whose copy constructor may throw, at the operations that copy one element into
  a container: the overloads for \<open>const T&\<close> of \<open>try_push\<close>, \<open>push\<close>, \<open>push_back\<close> and
  \<open>push_front\<close>. Moves do not throw. The parameter \<open>ok\<close> tells for which values the copy
  succeeds; an exception of the element's constructor is \<open>Element_error\<close>. When every copy
  succeeds the operations are those of the other theories.
\<close>

section \<open>Operations\<close>

definition slot_copy :: "('a \<Rightarrow> bool) \<Rightarrow> 'a elem_type \<Rightarrow> nat \<Rightarrow> 'a \<Rightarrow> 'a slots \<Rightarrow> (exn + 'a slots) option" where
  "slot_copy ok ty i x m = (if ok x then map_option Inr (slot_construct ty i x m) else Some (Inl Element_error))"

text \<open>\<open>construct(ptr(size_++), value)\<close>: the size is counted up before the constructor runs.\<close>

definition fs_try_push_copy :: "('a \<Rightarrow> bool) \<Rightarrow> 'a elem_type \<Rightarrow> usize \<Rightarrow> 'a \<Rightarrow> 'a fixed_stack \<Rightarrow>
    ((exn + bool) \<times> 'a fixed_stack) option" where
  "fs_try_push_copy ok ty C x s =
     (if fs_size s = C then Some (Inr False, s)
      else do {
        let s1 = s\<lparr>fs_size := fs_size s + 1\<rparr>;
        r \<leftarrow> slot_copy ok ty (unat (fs_size s)) x (fs_storage s);
        case r of Inl e \<Rightarrow> Some (Inl e, s1) | Inr m \<Rightarrow> Some (Inr True, s1\<lparr>fs_storage := m\<rparr>)
      })"

definition fq_try_push_copy :: "('a \<Rightarrow> bool) \<Rightarrow> 'a elem_type \<Rightarrow> usize \<Rightarrow> 'a \<Rightarrow> 'a fixed_queue \<Rightarrow>
    ((exn + bool) \<times> 'a fixed_queue) option" where
  "fq_try_push_copy ok ty C x q =
     (if fq_size C q = C then Some (Inr False, q)
      else do {
        r \<leftarrow> slot_copy ok ty (unat (fq_tail q)) x (fq_storage q);
        case r of
          Inl e \<Rightarrow> Some (Inl e, q)
        | Inr m \<Rightarrow> Some (Inr True, q\<lparr>fq_storage := m, fq_tail := ring_advance (fq_buf_mask C) (fq_tail q)\<rparr>)
      })"

definition spsc_try_push_copy :: "('a \<Rightarrow> bool) \<Rightarrow> 'a elem_type \<Rightarrow> 'a \<Rightarrow> 'a spsc \<Rightarrow> ((exn + bool) \<times> 'a spsc) option" where
  "spsc_try_push_copy ok ty x s =
     (if spsc_distance (sp_tail s) (sp_head s) = spsc_capacity s then Some (Inr False, s)
      else do {
        r \<leftarrow> slot_copy ok ty (spsc_element_at s (sp_tail s)) x (sp_storage s);
        case r of
          Inl e \<Rightarrow> Some (Inl e, s)
        | Inr m \<Rightarrow> Some (Inr True, s\<lparr>sp_storage := m, sp_tail := spsc_next s (sp_tail s)\<rparr>)
      })"

definition dq_push_copy :: "('a \<Rightarrow> bool) \<Rightarrow> (usize \<Rightarrow> bool) \<Rightarrow> 'a elem_type \<Rightarrow> usize \<Rightarrow> 'a \<Rightarrow> 'a queue \<Rightarrow>
    ((exn + unit) \<times> 'a queue) option" where
  "dq_push_copy ok nw ty sz x q = do {
     (r, q1) \<leftarrow> dq_ensure_space nw ty sz q;
     (case r of
        Inl e \<Rightarrow> Some (Inl e, q1)
      | Inr _ \<Rightarrow> do {
          c \<leftarrow> slot_copy ok ty (unat (dq_tail q1)) x (dq_buf q1);
          (case c of
             Inl e \<Rightarrow> Some (Inl e, q1)
           | Inr m \<Rightarrow> Some (Inr (), q1\<lparr>dq_buf := m, dq_tail := ring_advance (dq_mask q1) (dq_tail q1)\<rparr>))
        })
   }"

definition vec_push_back_copy :: "('a \<Rightarrow> bool) \<Rightarrow> (usize \<Rightarrow> bool) \<Rightarrow> 'a elem_type \<Rightarrow> usize \<Rightarrow> 'a \<Rightarrow> 'a vector \<Rightarrow>
    ((exn + unit) \<times> 'a vector) option" where
  "vec_push_back_copy ok nw ty sz x v = do {
     (r, v1) \<leftarrow> vec_ensure_space nw ty sz 1 v;
     (case r of
        Inl e \<Rightarrow> Some (Inl e, v1)
      | Inr _ \<Rightarrow> do {
          let v2 = v1\<lparr>vec_size := vec_size v1 + 1\<rparr>;
          c \<leftarrow> slot_copy ok ty (unat (vec_size v1)) x (vec_data v1);
          (case c of Inl e \<Rightarrow> Some (Inl e, v2) | Inr m \<Rightarrow> Some (Inr (), v2\<lparr>vec_data := m\<rparr>))
        })
   }"

definition chunk_copy :: "('a \<Rightarrow> bool) \<Rightarrow> 'a elem_type \<Rightarrow> chunk_ptr \<Rightarrow> nat \<Rightarrow> 'a \<Rightarrow> 'a chunk_heap \<Rightarrow>
    (exn + 'a chunk_heap) option" where
  "chunk_copy ok ty p i x h = (if ok x then map_option Inr (chunk_construct ty p i x h) else Some (Inl Element_error))"

definition de_push_back_aux_copy :: "('a \<Rightarrow> bool) \<Rightarrow> mem \<Rightarrow> 'a elem_type \<Rightarrow> nat \<Rightarrow> 'a \<Rightarrow> 'a deque \<Rightarrow>
    ((exn + unit) \<times> 'a deque) option" where
  "de_push_back_aux_copy ok mem ty ce x d = do {
     (r1, d1) \<leftarrow> de_reserve_map_at_back mem d;
     (case r1 of
        Inl e \<Rightarrow> Some (Inl e, d1)
      | Inr _ \<Rightarrow> do {
          (r2, d2) \<leftarrow> de_new_chunk_at mem ce (it_node (de_finish d1) + 1) d1;
          (case r2 of
             Inl e \<Rightarrow> Some (Inl e, d2)
           | Inr _ \<Rightarrow> do {
               c \<leftarrow> chunk_copy ok ty (it_first (de_finish d2)) (it_cur (de_finish d2)) x (de_heap d2);
               (case c of
                  Inl e \<Rightarrow> Some (Inl e, d2)
                | Inr h \<Rightarrow> do {
                    mp \<leftarrow> de_map d2;
                    fi \<leftarrow> set_node mp (it_node (de_finish d2) + 1) (de_finish d2);
                    Some (Inr (), d2\<lparr>de_heap := h, de_finish := fi\<lparr>it_cur := 0\<rparr>\<rparr>)
                  })
             })
        })
   }"

definition de_push_front_aux_copy :: "('a \<Rightarrow> bool) \<Rightarrow> mem \<Rightarrow> 'a elem_type \<Rightarrow> nat \<Rightarrow> 'a \<Rightarrow> 'a deque \<Rightarrow>
    ((exn + unit) \<times> 'a deque) option" where
  "de_push_front_aux_copy ok mem ty ce x d = do {
     (r1, d1) \<leftarrow> de_reserve_map_at_front mem d;
     (case r1 of
        Inl e \<Rightarrow> Some (Inl e, d1)
      | Inr _ \<Rightarrow>
          if it_node (de_start d1) = 0 then None
          else do {
            (r2, d2) \<leftarrow> de_new_chunk_at mem ce (it_node (de_start d1) - 1) d1;
            (case r2 of
               Inl e \<Rightarrow> Some (Inl e, d2)
             | Inr _ \<Rightarrow> do {
                 mp \<leftarrow> de_map d2;
                 st \<leftarrow> set_node mp (it_node (de_start d2) - 1) (de_start d2);
                 let d3 = d2\<lparr>de_start := st\<lparr>it_cur := ce - 1\<rparr>\<rparr>;
                 c \<leftarrow> chunk_copy ok ty (it_first st) (ce - 1) x (de_heap d2);
                 (case c of Inl e \<Rightarrow> Some (Inl e, d3) | Inr h \<Rightarrow> Some (Inr (), d3\<lparr>de_heap := h\<rparr>))
               })
          })
   }"

definition de_push_back_copy :: "('a \<Rightarrow> bool) \<Rightarrow> mem \<Rightarrow> 'a elem_type \<Rightarrow> nat \<Rightarrow> 'a \<Rightarrow> 'a deque \<Rightarrow>
    ((exn + unit) \<times> 'a deque) option" where
  "de_push_back_copy ok mem ty ce x d =
     (let fi = de_finish d in
      if it_cur fi \<noteq> ce - 1 then do {
        c \<leftarrow> chunk_copy ok ty (it_first fi) (it_cur fi) x (de_heap d);
        (case c of
           Inl e \<Rightarrow> Some (Inl e, d)
         | Inr h \<Rightarrow> Some (Inr (), d\<lparr>de_heap := h, de_finish := fi\<lparr>it_cur := it_cur fi + 1\<rparr>\<rparr>))
      } else de_push_back_aux_copy ok mem ty ce x d)"

definition de_push_front_copy :: "('a \<Rightarrow> bool) \<Rightarrow> mem \<Rightarrow> 'a elem_type \<Rightarrow> nat \<Rightarrow> 'a \<Rightarrow> 'a deque \<Rightarrow>
    ((exn + unit) \<times> 'a deque) option" where
  "de_push_front_copy ok mem ty ce x d =
     (let st = de_start d in
      if it_cur st \<noteq> 0 then do {
        c \<leftarrow> chunk_copy ok ty (it_first st) (it_cur st - 1) x (de_heap d);
        (case c of
           Inl e \<Rightarrow> Some (Inl e, d)
         | Inr h \<Rightarrow> Some (Inr (), d\<lparr>de_heap := h, de_start := st\<lparr>it_cur := it_cur st - 1\<rparr>\<rparr>))
      } else de_push_front_aux_copy ok mem ty ce x d)"

section \<open>Copies that succeed\<close>

lemma copy_bind:
  "ok x \<Longrightarrow> Option.bind (slot_copy ok ty i x m) k = Option.bind (slot_construct ty i x m) (\<lambda>m'. k (Inr m'))"
  "ok x \<Longrightarrow> Option.bind (chunk_copy ok ty p i x h) l = Option.bind (chunk_construct ty p i x h) (\<lambda>h'. l (Inr h'))"
  by (cases "slot_construct ty i x m"; simp add: slot_copy_def)
     (cases "chunk_construct ty p i x h"; simp add: chunk_copy_def)

lemma map_option_over_bind: "map_option f (Option.bind m g) = Option.bind m (\<lambda>x. map_option f (g x))"
  by (cases m) simp_all

lemma copies_succeed:
  assumes "ok x"
  shows "fs_try_push_copy ok ty C x s = map_option (map_prod Inr id) (fs_try_push ty C x s)"
    "fq_try_push_copy ok ty C x q = map_option (map_prod Inr id) (fq_try_push ty C x q)"
    "spsc_try_push_copy ok ty x sp = map_option (map_prod Inr id) (spsc_try_push ty x sp)"
    "dq_push_copy ok nw ty sz x dq = dq_push nw ty sz (Value x) dq"
    "vec_push_back_copy ok nw ty sz x v = vec_push_back nw ty sz (Value x) v"
    "de_push_back_copy ok mem ty ce x d = de_push_back mem ty ce x d"
    "de_push_front_copy ok mem ty ce x d = de_push_front mem ty ce x d"
proof -
  note [simp] = copy_bind [where ok = ok and x = x, OF assms] map_option_over_bind
  have [simp]: "s\<lparr>fs_size := n, fs_storage := m\<rparr> = s\<lparr>fs_storage := m, fs_size := n\<rparr>" for s :: "'a fixed_stack" and n m by simp
  have [simp]: "v\<lparr>vec_size := n, vec_data := m\<rparr> = v\<lparr>vec_data := m, vec_size := n\<rparr>" for v :: "'a vector" and n m by simp
  have [simp]: "d\<lparr>de_start := st, de_heap := h\<rparr> = d\<lparr>de_heap := h, de_start := st\<rparr>" for d :: "'a deque" and st h by simp
  show "fs_try_push_copy ok ty C x s = map_option (map_prod Inr id) (fs_try_push ty C x s)"
    by (simp add: fs_try_push_copy_def fs_try_push_def fs_construct_next_def Let_def)
  show "fq_try_push_copy ok ty C x q = map_option (map_prod Inr id) (fq_try_push ty C x q)"
    by (simp add: fq_try_push_copy_def fq_try_push_def fq_construct_back_def)
  show "spsc_try_push_copy ok ty x sp = map_option (map_prod Inr id) (spsc_try_push ty x sp)"
    by (simp add: spsc_try_push_copy_def spsc_try_push_def)
  show "dq_push_copy ok nw ty sz x dq = dq_push nw ty sz (Value x) dq"
    by (simp add: dq_push_copy_def dq_push_def dq_construct_back_def cong: sum.case_cong)
  show "vec_push_back_copy ok nw ty sz x v = vec_push_back nw ty sz (Value x) v"
    by (simp add: vec_push_back_copy_def vec_push_back_def vec_construct_back_def Let_def cong: sum.case_cong)
  show "de_push_back_copy ok mem ty ce x d = de_push_back mem ty ce x d"
    by (simp add: de_push_back_copy_def de_push_back_aux_copy_def de_push_back_def de_push_back_aux_def Let_def cong: sum.case_cong)
  show "de_push_front_copy ok mem ty ce x d = de_push_front mem ty ce x d"
    by (simp add: de_push_front_copy_def de_push_front_aux_copy_def de_push_front_def de_push_front_aux_def Let_def cong: sum.case_cong if_cong)
qed

section \<open>Copies that throw\<close>

lemma copy_throws [simp]:
  "\<not> ok x \<Longrightarrow> slot_copy ok ty i x m = Some (Inl Element_error)"
  "\<not> ok x \<Longrightarrow> chunk_copy ok ty p i x h = Some (Inl Element_error)"
  by (simp_all add: slot_copy_def chunk_copy_def)

text \<open>A destructor that reaches a raw slot is undefined.\<close>

lemma for_down_first_None: "0 < n \<Longrightarrow> body (n - 1) s = None \<Longrightarrow> for_down n body s = None"
  by (simp add: for_down.simps)

lemma for_range_None:
  "lo \<le> k \<Longrightarrow> k < hi \<Longrightarrow> P s \<Longrightarrow> (\<And>i t t'. P t \<Longrightarrow> body i t = Some t' \<Longrightarrow> P t') \<Longrightarrow> (\<And>t. P t \<Longrightarrow> body k t = None) \<Longrightarrow>
   for_range lo hi body s = None"
proof (induction lo hi body s rule: for_range.induct)
  case (1 i n body s)
  have lt: "i < n" using 1(2,3) by simp
  show ?case
  proof (cases "body i s")
    case None
    then show ?thesis using lt by (simp add: for_range.simps [of i])
  next
    case (Some s')
    then have "i \<noteq> k" using 1(6) [OF 1(4)] by auto
    then have "i + 1 \<le> k" using 1(2) by (simp add: inc_le)
    from 1(1) [OF lt Some this 1(3) 1(5) [OF 1(4) Some] 1(5,6)] Some lt show ?thesis
      by (simp add: for_range.simps [of i])
  qed
qed

lemma raw_stays_raw: "m ! j = None \<Longrightarrow> slot_destroy ty i m = Some m' \<Longrightarrow> m' ! j = None"
  by (cases "j < length m") (auto simp: slot_destroy_def nth_list_update split: if_splits)

lemma slot_destroy_raw: "\<not> is_trivial ty \<Longrightarrow> m ! i = None \<Longrightarrow> slot_destroy ty i m = None"
  by (simp add: slot_destroy_def)

lemma fs_raw_top:
  assumes "fs_inv ty C s" "\<not> is_trivial ty" "fs_size s \<noteq> C"
  shows "fs_clear ty (s\<lparr>fs_size := fs_size s + 1\<rparr>) = None"
proof -
  from assms(1) have r: "fs_rep ty C (fs_list s) s" by (simp add: fs_inv_def)
  then have u: "unat (fs_size s) = length (fs_list s)" "length (fs_list s) < length (fs_storage s)"
    "lin_rep ty (fs_list s) (fs_storage s)" "length (fs_storage s) = unat C"
    using fs_rep_size [OF r] assms(3) by (auto simp: fs_rep_def)
  then have "fs_storage s ! unat (fs_size s) = None" using assms(2) by (simp add: lin_rep_def)
  moreover have "fs_size s < C" using u(1,2,4) by (simp add: word_less_nat_alt)
  then have "0 < fs_size s + 1" by (simp add: word_less_nat_alt unat_plus1)
  ultimately show ?thesis
    using for_down_first_None [of "fs_size s + 1" "\<lambda>i. slot_destroy ty (unat i)" "fs_storage s"] assms(2)
    by (simp add: fs_clear_def slot_destroy_raw)
qed

lemma vec_raw_back:
  assumes "vec_rep ty sz xs v" "\<not> is_trivial ty" "length xs < unat (vec_cap v)"
  shows "vec_destroy ty (v\<lparr>vec_size := vec_size v + 1\<rparr>) = None"
proof -
  note D = vec_repD [OF assms(1)]
  have raw: "vec_data v ! unat (vec_size v) = None"
    using D(2,3,4) assms(2,3) by (simp add: lin_rep_def)
  have lt: "vec_size v < vec_size v + 1"
    using D(4,7) assms(3) unat_add_small [of "vec_size v" 1] by (simp add: word_less_nat_alt)
  have "for_range 0 (vec_size v + 1) (\<lambda>i. slot_destroy ty (unat (0 + i))) (vec_data v) = None"
    by (rule for_range_None [of 0 "vec_size v" _ "\<lambda>m. m ! unat (vec_size v) = None"])
       (use lt raw assms(2) in \<open>auto intro: raw_stays_raw simp: slot_destroy_raw\<close>)
  then show ?thesis using assms(2) by (simp add: vec_destroy_def vec_clear_def vec_destroy_n_def)
qed

text \<open>
  A deque at a chunk border. \<open>push_back\<close> stores the new chunk behind \<open>finish_\<close> before it
  constructs the element, and \<open>push_front\<close> moves \<open>start_\<close> into the new chunk first.
\<close>

definition de_owned :: "'a deque \<Rightarrow> nat set" where
  "de_owned d = {c. \<exists>mp n. de_map d = Some mp \<and> n \<in> {it_node (de_start d)..it_node (de_finish d)} \<and>
     map_entry mp n = Some (Some c)}"

lemma de_push_front_throws:
  assumes "de_inv ty ce d" "fresh_mem mem" "\<not> is_trivial ty" "\<not> ok x" "it_cur (de_start d) = 0"
  shows "de_push_front mem ty ce x d = Some (Inr (), d') \<Longrightarrow>
    \<exists>d''. de_push_front_copy ok mem ty ce x d = Some (Inl Element_error, d'') \<and> de_teardown ty ce d'' = None"
proof -
  assume push: "de_push_front mem ty ce x d = Some (Inr (), d')"
  obtain base cs s where l: "de_layout ty ce base cs s (de_contents ce d) d"
    using de_invD [OF assms(1)] by (auto simp: de_rep_def)
  then have s0: "s = 0" and ce: "0 < ce" using assms(5) by (auto simp: de_layout_def)
  from de_push_front_aux_rep [OF l [unfolded s0] assms(2), of x] push assms(5)
  obtain base' c where l': "de_layout ty ce base' (c # cs) (ce - 1) (x # de_contents ce d) d'"
    by (auto simp: de_push_front_def Let_def)
  from push assms(5) obtain d1 d2 mp st h where P:
      "de_reserve_map_at_front mem d = Some (Inr (), d1)" "it_node (de_start d1) \<noteq> 0"
      "de_new_chunk_at mem ce (it_node (de_start d1) - 1) d1 = Some (Inr (), d2)" "de_map d2 = Some mp"
      "set_node mp (it_node (de_start d2) - 1) (de_start d2) = Some st"
      "chunk_construct ty (it_first st) (ce - 1) x (de_heap d2) = Some h"
      "d' = d2\<lparr>de_heap := h, de_start := st\<lparr>it_cur := ce - 1\<rparr>\<rparr>"
    by (auto simp: de_push_front_def de_push_front_aux_def Let_def split: bind_splits if_splits sum.splits)
  let ?d = "d2\<lparr>de_start := st\<lparr>it_cur := ce - 1\<rparr>\<rparr>"
  have "de_push_front_copy ok mem ty ce x d = Some (Inl Element_error, ?d)"
    using P(1-5) assms(4,5) by (simp add: de_push_front_copy_def de_push_front_aux_copy_def Let_def)
  moreover have "de_teardown ty ce ?d = None"
  proof -
    have node: "it_node st < it_node (de_finish d2)"
    proof -
      have "it_node (de_start d') = base'" "it_node (de_finish d') = base' + (ce - 1 + length (x # de_contents ce d)) div ce"
        using l' ce by (auto simp: de_layout_def)
      then have "it_node st = base'" "it_node (de_finish d2) = base' + (ce - 1 + length (x # de_contents ce d)) div ce"
        unfolding P(7) by simp_all
      moreover have "1 \<le> (ce - 1 + length (x # de_contents ce d)) div ce"
        using ce div_le_mono [of ce "ce - 1 + length (x # de_contents ce d)" ce] by simp
      ultimately show ?thesis by simp
    qed
    have entry: "map_entry mp (it_node st) = Some (it_first st)"
      using P(5) by (auto simp: set_node_def)
    obtain c' m where c': "it_first st = Some c'" "de_heap d2 c' = Some m" "m ! (ce - 1) = None"
      using P(6) assms(3) by (auto simp: chunk_construct_def slot_construct_def split: bind_splits if_splits)
    have "destroy_range ty (it_first st) (ce - 1) ce (de_heap d2) = None"
      using assms(3) ce c' by (simp add: destroy_range_def chunk_destroy_def slot_destroy_raw upt_rec)
    then show ?thesis
      using node entry P(4) by (simp add: de_teardown_def Let_def upt_conv_Cons)
  qed
  ultimately show ?thesis by blast
qed

lemma de_push_back_throws:
  assumes "de_inv ty ce d" "fresh_mem mem" "\<not> ok x" "it_cur (de_finish d) = ce - 1"
  shows "de_push_back mem ty ce x d = Some (Inr (), d') \<Longrightarrow>
    \<exists>d''. de_push_back_copy ok mem ty ce x d = Some (Inl Element_error, d'') \<and> \<not> dom (de_heap d'') \<subseteq> de_owned d''"
proof -
  assume push: "de_push_back mem ty ce x d = Some (Inr (), d')"
  obtain base cs s where l: "de_layout ty ce base cs s (de_contents ce d) d"
    using de_invD [OF assms(1)] by (auto simp: de_rep_def)
  then have "(s + length (de_contents ce d)) mod ce = ce - 1" using assms(4) by (auto simp: de_layout_def)
  from de_push_back_aux_rep [OF l assms(2) this, of x] push assms(4)
  obtain base' c where l': "de_layout ty ce base' (cs @ [c]) s (de_contents ce d @ [x]) d'"
    by (auto simp: de_push_back_def Let_def)
  from push assms(4) obtain d1 d2 mp fi h where P:
      "de_reserve_map_at_back mem d = Some (Inr (), d1)"
      "de_new_chunk_at mem ce (it_node (de_finish d1) + 1) d1 = Some (Inr (), d2)" "de_map d2 = Some mp"
      "chunk_construct ty (it_first (de_finish d2)) (it_cur (de_finish d2)) x (de_heap d2) = Some h"
      "set_node mp (it_node (de_finish d2) + 1) (de_finish d2) = Some fi"
      "d' = d2\<lparr>de_heap := h, de_finish := fi\<lparr>it_cur := 0\<rparr>\<rparr>"
    by (auto simp: de_push_back_def de_push_back_aux_def Let_def split: bind_splits if_splits sum.splits)
  have "de_push_back_copy ok mem ty ce x d = Some (Inl Element_error, d2)"
    using P(1-2) assms(3,4) by (simp add: de_push_back_copy_def de_push_back_aux_copy_def Let_def)
  moreover have "\<not> dom (de_heap d2) \<subseteq> de_owned d2"
  proof -
    have "it_node (de_finish d') = base' + length cs" "it_node fi = it_node (de_finish d2) + 1"
      using l' P(5) by (auto simp: de_layout_def set_node_def)
    then have node: "it_node (de_finish d2) + 1 = base' + length cs" unfolding P(6) by simp
    have D: "distinct (cs @ [c])" "dom h = set (cs @ [c])" "de_links base' (cs @ [c]) mp"
      "it_node (de_start d2) = base'"
      using l' P(3,6) by (auto simp: de_layout_def chunks_hold_def)
    have "dom h = dom (de_heap d2)" using P(4) by (auto simp: chunk_construct_def split: bind_splits if_splits)
    then have "c \<in> dom (de_heap d2)" using D(2) by (metis in_set_conv_decomp)
    moreover have "c \<notin> de_owned d2"
    proof
      assume "c \<in> de_owned d2"
      then obtain n where n: "base' \<le> n" "n \<le> it_node (de_finish d2)" "map_entry mp n = Some (Some c)"
        using P(3) D(4) by (auto simp: de_owned_def)
      then have "n - base' < length cs" using node by linarith
      moreover from this have "map_entry mp (base' + (n - base')) = Some (Some ((cs @ [c]) ! (n - base')))"
        by (intro map_entry_links [OF D(3)]) simp
      ultimately show False using n(1,3) D(1) by (auto simp: nth_append dest: nth_mem)
    qed
    ultimately show ?thesis by blast
  qed
  ultimately show ?thesis by blast
qed

section \<open>Properties\<close>

text \<open>
  C33. When the copy of an element throws, a fixed queue and a single-producer ring are exactly
  as before, and a growable queue, which may have grown, still holds the same sequence and can be
  destroyed: in these containers the index moves after the element is in place. When the
  copy succeeds the operations are those of an element type that never throws.
\<close>

theorem throwing_push_strong_guarantee:
  assumes "fq_inv ty C q" "dq_inv ty sz g" "new_limit nw"
  shows "(\<not> ok x \<longrightarrow>
      fq_try_push_copy ok ty C x q = Some (if fq_size C q = C then Inr False else Inl Element_error, q) \<and>
      spsc_try_push_copy ok ty x r = Some (if spsc_full r then Inr False else Inl Element_error, r) \<and>
      (\<exists>e g'. dq_push_copy ok nw ty sz x g = Some (Inl e, g') \<and> e \<in> {Bad_alloc, Element_error} \<and> dq_inv ty sz g' \<and>
        dq_contents g' = dq_contents g \<and> dq_destroy ty g' = Some ())) \<and>
    (ok x \<longrightarrow> fq_try_push_copy ok ty C x q = map_option (map_prod Inr id) (fq_try_push ty C x q) \<and>
      spsc_try_push_copy ok ty x r = map_option (map_prod Inr id) (spsc_try_push ty x r) \<and>
      dq_push_copy ok nw ty sz x g = dq_push nw ty sz (Value x) g)"
proof (cases "ok x")
  case False
  have r: "dq_rep ty sz (dq_contents g) g" using assms(2) by (simp add: dq_inv_def)
  have keep: "dq_inv ty sz g' \<and> dq_contents g' = dq_contents g \<and> dq_destroy ty g' = Some ()"
    if "dq_rep ty sz (dq_contents g) g'" for g'
    using dq_rep_inv [OF that] dq_rep_contents [OF that] dq_destroy_rep [OF that] by simp
  from dq_ensure_space_rep [OF r assms(3)]
  have "\<exists>e g'. dq_push_copy ok nw ty sz x g = Some (Inl e, g') \<and> e \<in> {Bad_alloc, Element_error} \<and> dq_inv ty sz g' \<and>
        dq_contents g' = dq_contents g \<and> dq_destroy ty g' = Some ()"
  proof (elim disjE exE conjE)
    assume "dq_ensure_space nw ty sz g = Some (Inl Bad_alloc, g)"
    then show ?thesis using keep [OF r] by (simp add: dq_push_copy_def)
  next
    fix moved g'
    assume g': "dq_ensure_space nw ty sz g = Some (Inr moved, g')" "dq_rep ty sz (dq_contents g) g'"
    then show ?thesis using keep [OF g'(2)] False by (simp add: dq_push_copy_def)
  qed
  then show ?thesis using False by (simp add: fq_try_push_copy_def spsc_try_push_copy_def spsc_full_def)
qed (simp add: copies_succeed)

text \<open>
  C34. A fixed stack and a vector count the new element before it is constructed: when the copy
  throws, the size includes a slot with no object, and destroying the container is undefined
  behaviour.
\<close>

theorem throwing_push_counts_raw_slot:
  assumes "\<not> ok x" "\<not> is_trivial ty" "fs_inv ty C s" "fs_size s \<noteq> C" "vec_inv ty sz v" "new_limit nw"
  shows "(\<exists>s'. fs_try_push_copy ok ty C x s = Some (Inl Element_error, s') \<and> fs_size s' = fs_size s + 1 \<and>
      fs_clear ty s' = None) \<and>
    (vec_push_back_copy ok nw ty sz x v = Some (Inl Bad_alloc, v) \<or>
     (\<exists>v'. vec_push_back_copy ok nw ty sz x v = Some (Inl Element_error, v') \<and> vec_size v' = vec_size v + 1 \<and>
      vec_destroy ty v' = None))"
proof -
  have r: "vec_rep ty sz (vec_list v) v" using assms(5) by (simp add: vec_inv_def)
  have "vec_push_back_copy ok nw ty sz x v = Some (Inl Bad_alloc, v) \<or>
     (\<exists>v'. vec_push_back_copy ok nw ty sz x v = Some (Inl Element_error, v') \<and> vec_size v' = vec_size v + 1 \<and>
      vec_destroy ty v' = None)"
    using r assms(6)
  proof (cases rule: vec_ensure_one)
    case (room moved v1)
    have "vec_size v1 = vec_size v"
      using vec_repD(4) [OF r] vec_repD(4) [OF room(2)] by (simp add: usize_eq_iff)
    then show ?thesis using vec_raw_back [OF room(2) assms(2) room(3)] room(1) assms(1)
      by (simp add: vec_push_back_copy_def Let_def)
  qed (simp add: vec_push_back_copy_def)
  then show ?thesis using fs_raw_top [OF assms(3,2,4)] assms(1,4) by (simp add: fs_try_push_copy_def Let_def)
qed

text \<open>
  A deque is unchanged when a copy throws, except at a chunk border: there \<open>push_back\<close>
  has stored the new chunk where the destructor does not look, so that it is never freed, and
  \<open>push_front\<close> has moved \<open>start_\<close> to the slot of the element that was not constructed,
  so that the destructor destroys a raw slot.
\<close>

theorem throwing_push_of_deque:
  assumes "de_inv ty ce d" "fresh_mem mem" "\<not> is_trivial ty" "\<not> ok x"
  shows "(it_cur (de_finish d) \<noteq> ce - 1 \<longrightarrow> de_push_back_copy ok mem ty ce x d = Some (Inl Element_error, d)) \<and>
    (it_cur (de_start d) \<noteq> 0 \<longrightarrow> de_push_front_copy ok mem ty ce x d = Some (Inl Element_error, d)) \<and>
    (it_cur (de_finish d) = ce - 1 \<and> de_push_back mem ty ce x d = Some (Inr (), d') \<longrightarrow>
      (\<exists>d''. de_push_back_copy ok mem ty ce x d = Some (Inl Element_error, d'') \<and> \<not> dom (de_heap d'') \<subseteq> de_owned d'')) \<and>
    (it_cur (de_start d) = 0 \<and> de_push_front mem ty ce x d = Some (Inr (), d') \<longrightarrow>
      (\<exists>d''. de_push_front_copy ok mem ty ce x d = Some (Inl Element_error, d'') \<and> de_teardown ty ce d'' = None))"
proof -
  have "it_cur (de_finish d) \<noteq> ce - 1 \<longrightarrow> de_push_back_copy ok mem ty ce x d = Some (Inl Element_error, d)"
    "it_cur (de_start d) \<noteq> 0 \<longrightarrow> de_push_front_copy ok mem ty ce x d = Some (Inl Element_error, d)"
    using assms(4) by (simp_all add: de_push_back_copy_def de_push_back_aux_copy_def de_push_front_copy_def de_push_front_aux_copy_def Let_def)
  then show ?thesis
    using de_push_back_throws [where ok = ok and x = x, OF assms(1,2,4)]
      de_push_front_throws [where ok = ok and x = x, OF assms(1-4)] by blast
qed

theorem throwing_push_strong_guarantee_witness:
  "fq_try_push_copy (\<lambda>_. False) \<lparr>is_trivial = False, residue = id\<rparr> 4 (7 :: int) (fq_new 4) =
     Some (Inl Element_error, fq_new 4) \<and>
   (\<exists>e g'. dq_push_copy (\<lambda>_. False) (\<lambda>b. b < 4096) \<lparr>is_trivial = False, residue = id\<rparr> 4 (7 :: int) dq_new = Some (Inl e, g') \<and>
      dq_destroy \<lparr>is_trivial = False, residue = id\<rparr> g' = Some ())"
proof -
  let ?ty = "\<lparr>is_trivial = False, residue = id\<rparr> :: int elem_type"
  have nw: "new_limit (\<lambda>b. b < 4096)" by (auto simp: new_limit_def word_less_nat_alt)
  have r: "fq_rep ?ty 4 [] (fq_new 4)" by (rule fq_rep_new) simp_all
  note q = fq_rep_inv [OF r]
  have g: "dq_inv ?ty 4 dq_new" by (rule dq_rep_inv [OF dq_rep_new]) (simp add: sizeof_ok_def)
  have "fq_size 4 (fq_new 4 :: int fixed_queue) \<noteq> 4" using fq_rep_size(2) [OF r] by simp
  then show ?thesis
    using throwing_push_strong_guarantee [OF q g nw, of "\<lambda>_. False" 7
        "\<lparr>sp_elem_size = 4, sp_storage_capacity = 2, sp_mask = 1, sp_head = 0, sp_tail = 0, sp_storage = [None, None]\<rparr>"] by auto
qed

theorem throwing_push_counts_raw_slot_witness:
  "\<exists>s'. fs_try_push_copy (\<lambda>_. False) \<lparr>is_trivial = False, residue = id\<rparr> 4 (7 :: int) (fs_new 4) =
      Some (Inl Element_error, s') \<and> fs_clear \<lparr>is_trivial = False, residue = id\<rparr> s' = None"
proof -
  let ?ty = "\<lparr>is_trivial = False, residue = id\<rparr> :: int elem_type"
  have nw: "new_limit (\<lambda>b. b < 4096)" by (auto simp: new_limit_def word_less_nat_alt)
  have s: "fs_inv ?ty 4 (fs_new 4)" by (rule fs_rep_inv [OF fs_rep_new]) simp
  have v: "vec_inv ?ty 4 vec_new" by (rule vec_rep_inv [OF vec_rep_new]) (simp add: sizeof_ok_def)
  have n: "fs_size (fs_new 4 :: int fixed_stack) \<noteq> 4" by (simp add: fs_new_def)
  show ?thesis
    using throwing_push_counts_raw_slot [of "\<lambda>_. False" 7 ?ty 4 "fs_new 4" 4 vec_new "\<lambda>b. b < 4096"] s v n nw by auto
qed

theorem throwing_push_of_deque_witness:
  "\<exists>d :: int deque. de_contents 3 d = [4] \<and>
     de_push_back_copy (\<lambda>_. False) (limited_mem 9) \<lparr>is_trivial = False, residue = id\<rparr> 3 7 d = Some (Inl Element_error, d)"
proof -
  let ?ty = "\<lparr>is_trivial = False, residue = id\<rparr> :: int elem_type"
  obtain d where d: "de_from_list (limited_mem 9) ?ty 3 [4] = Some (Inr (), d)" "de_rep ?ty 3 [4] d"
    using de_from_list_ample [of 3 "[4] :: int list" 9 ?ty] by (auto simp: chunk_fits_def)
  have "it_cur (de_finish d) \<noteq> 3 - 1" using de_from_list_ends(2) [OF d(1)] by simp
  then show ?thesis
    using throwing_push_of_deque [OF de_rep_inv [OF d(2)] limited_mem_fresh, of "\<lambda>_. False" 7 9 d]
      de_rep_contents [OF d(2)] by auto
qed

end
