(* ===== verification/ThrowingCopies.thy ===== *)
theory ThrowingCopies
  imports ThrowingElements
begin

text \<open>
  Element types whose copy constructor may throw, at the operations that copy many elements:
  copy construction and copy assignment of the containers, and the members of \<open>vector\<close> that
  construct copies in the middle or in bulk. The parameter \<open>ok i x\<close> tells whether the copy of
  \<open>x\<close> that is constructed in slot \<open>i\<close> of the destination succeeds; in one call a slot is
  constructed at most once, so that every pattern of failures is covered.

  An exception that leaves a constructor runs no destructor: the object that is returned with
  it is what the constructor abandons.
\<close>

section \<open>Loops whose body may throw\<close>

fun try_each :: "('i \<Rightarrow> 's \<Rightarrow> ((exn + unit) \<times> 's) option) \<Rightarrow> 'i list \<Rightarrow> 's \<Rightarrow> ((exn + unit) \<times> 's) option" where
  "try_each body [] s = Some (Inr (), s)"
| "try_each body (i # is) s = do {
     (r, s') \<leftarrow> body i s;
     (case r of Inl e \<Rightarrow> Some (Inl e, s') | Inr _ \<Rightarrow> try_each body is s')
   }"

function try_range :: "usize \<Rightarrow> usize \<Rightarrow> (usize \<Rightarrow> 's \<Rightarrow> ((exn + unit) \<times> 's) option) \<Rightarrow> 's \<Rightarrow> ((exn + unit) \<times> 's) option" where
  "try_range i n body s =
     (if i < n then do {
        (r, s') \<leftarrow> body i s;
        (case r of Inl e \<Rightarrow> Some (Inl e, s') | Inr _ \<Rightarrow> try_range (i + 1) n body s')
      } else Some (Inr (), s))"
  by pat_completeness auto
termination
  by (relation "measure (\<lambda>(i, n, body, s). unat n - unat i)") (auto simp: unat_simps word_less_nat_alt)

declare try_range.simps [simp del]

partial_function (option) try_walk ::
  "(usize \<Rightarrow> usize) \<Rightarrow> usize \<Rightarrow> usize \<Rightarrow> (usize \<Rightarrow> 's \<Rightarrow> ((exn + unit) \<times> 's) option) \<Rightarrow> 's \<Rightarrow>
    ((exn + unit) \<times> 's) option" where
  "try_walk next_index i t body s =
     (if i = t then Some (Inr (), s)
      else do {
        (r, s') \<leftarrow> body i s;
        (case r of Inl e \<Rightarrow> Some (Inl e, s') | Inr _ \<Rightarrow> try_walk next_index (next_index i) t body s')
      })"

declare try_walk.simps [code]

section \<open>Operations\<close>

text \<open>\<open>::new (p) T(x)\<close> in slot \<open>i\<close>: when the constructor throws, the slot stays as it was.\<close>

definition slot_put :: "(nat \<Rightarrow> 'a \<Rightarrow> bool) \<Rightarrow> 'a elem_type \<Rightarrow> nat \<Rightarrow> 'a \<Rightarrow> 'a slots \<Rightarrow> ((exn + unit) \<times> 'a slots) option" where
  "slot_put ok ty i x m = do {
     r \<leftarrow> slot_copy (ok i) ty i x m;
     Some (case r of Inl e \<Rightarrow> (Inl e, m) | Inr m' \<Rightarrow> (Inr (), m'))
   }"

definition copy_elems_throwing :: "(nat \<Rightarrow> 'a \<Rightarrow> bool) \<Rightarrow> 'a elem_type \<Rightarrow> usize \<Rightarrow> 'a slots \<Rightarrow> 'a slots \<Rightarrow>
    ((exn + unit) \<times> 'a slots) option" where
  "copy_elems_throwing ok ty n src =
     try_range 0 n (\<lambda>i dst. do {
       x \<leftarrow> slot_read (unat i) src;
       slot_put ok ty (unat i) x dst
     })"

definition ring_copy_throwing :: "(nat \<Rightarrow> 'a \<Rightarrow> bool) \<Rightarrow> 'a elem_type \<Rightarrow> usize \<Rightarrow> usize \<Rightarrow> usize \<Rightarrow> 'a slots \<Rightarrow> usize \<Rightarrow>
    'a slots \<times> usize \<Rightarrow> ((exn + unit) \<times> 'a slots \<times> usize) option" where
  "ring_copy_throwing ok ty src_msk h t src msk =
     try_walk (ring_advance src_msk) h t (\<lambda>i (dst, te). do {
       x \<leftarrow> slot_read (unat i) src;
       (r, dst') \<leftarrow> slot_put ok ty (unat te) x dst;
       Some (r, dst', case r of Inl e \<Rightarrow> te | Inr _ \<Rightarrow> ring_advance msk te)
     })"

text \<open>\<open>fixed_stack\<close>: the size is set after the loop.\<close>

definition fs_fill_from :: "(nat \<Rightarrow> 'a \<Rightarrow> bool) \<Rightarrow> 'a elem_type \<Rightarrow> 'a fixed_stack \<Rightarrow> 'a fixed_stack \<Rightarrow>
    ((exn + unit) \<times> 'a fixed_stack) option" where
  "fs_fill_from ok ty rhs s = do {
     (r, m) \<leftarrow> copy_elems_throwing ok ty (fs_size rhs) (fs_storage rhs) (fs_storage s);
     (case r of
        Inl e \<Rightarrow> Some (Inl e, s\<lparr>fs_storage := m\<rparr>)
      | Inr _ \<Rightarrow> Some (Inr (), \<lparr>fs_storage = m, fs_size = fs_size rhs\<rparr>))
   }"

definition fs_copy_throwing :: "(nat \<Rightarrow> 'a \<Rightarrow> bool) \<Rightarrow> 'a elem_type \<Rightarrow> usize \<Rightarrow> 'a fixed_stack \<Rightarrow>
    ((exn + unit) \<times> 'a fixed_stack) option" where
  "fs_copy_throwing ok ty C rhs = fs_fill_from ok ty rhs (fs_new C)"

fun fs_assign_throwing :: "(nat \<Rightarrow> 'a \<Rightarrow> bool) \<Rightarrow> 'a elem_type \<Rightarrow> 'a fixed_stack \<Rightarrow> 'a fixed_stack operand \<Rightarrow>
    ((exn + unit) \<times> 'a fixed_stack) option" where
  "fs_assign_throwing ok ty s Self = Some (Inr (), s)"
| "fs_assign_throwing ok ty s (Other rhs) = do { s1 \<leftarrow> fs_clear ty s; fs_fill_from ok ty rhs s1 }"

text \<open>\<open>fixed_queue\<close> and \<open>queue\<close>: the tail moves with every element.\<close>

definition fq_append_copy_throwing :: "(nat \<Rightarrow> 'a \<Rightarrow> bool) \<Rightarrow> 'a elem_type \<Rightarrow> usize \<Rightarrow> 'a fixed_queue \<Rightarrow> 'a fixed_queue \<Rightarrow>
    ((exn + unit) \<times> 'a fixed_queue) option" where
  "fq_append_copy_throwing ok ty C rhs q = do {
     (r, m, te) \<leftarrow> ring_copy_throwing ok ty (fq_buf_mask C) (fq_head rhs) (fq_tail rhs) (fq_storage rhs)
                    (fq_buf_mask C) (fq_storage q, fq_tail q);
     Some (r, q\<lparr>fq_storage := m, fq_tail := te\<rparr>)
   }"

definition fq_copy_throwing :: "(nat \<Rightarrow> 'a \<Rightarrow> bool) \<Rightarrow> 'a elem_type \<Rightarrow> usize \<Rightarrow> 'a fixed_queue \<Rightarrow>
    ((exn + unit) \<times> 'a fixed_queue) option" where
  "fq_copy_throwing ok ty C rhs = fq_append_copy_throwing ok ty C rhs (fq_new C)"

fun fq_assign_throwing :: "(nat \<Rightarrow> 'a \<Rightarrow> bool) \<Rightarrow> 'a elem_type \<Rightarrow> usize \<Rightarrow> 'a fixed_queue \<Rightarrow> 'a fixed_queue operand \<Rightarrow>
    ((exn + unit) \<times> 'a fixed_queue) option" where
  "fq_assign_throwing ok ty C q Self = Some (Inr (), q)"
| "fq_assign_throwing ok ty C q (Other rhs) = do { q1 \<leftarrow> fq_clear ty C q; fq_append_copy_throwing ok ty C rhs q1 }"

definition dq_copy_throwing :: "(nat \<Rightarrow> 'a \<Rightarrow> bool) \<Rightarrow> (usize \<Rightarrow> bool) \<Rightarrow> 'a elem_type \<Rightarrow> usize \<Rightarrow> 'a queue \<Rightarrow>
    ((exn + unit) \<times> 'a queue) option" where
  "dq_copy_throwing ok nw ty sz rhs = do {
     (r, q) \<leftarrow> dq_reserve nw ty sz (dq_size rhs) dq_new;
     (case r of
        Inl e \<Rightarrow> Some (Inl e, q)
      | Inr _ \<Rightarrow> do {
          (r', m, te) \<leftarrow> ring_copy_throwing ok ty (dq_mask rhs) (dq_head rhs) (dq_tail rhs) (dq_buf rhs)
                          (dq_mask q) (dq_buf q, dq_tail q);
          Some (r', q\<lparr>dq_buf := m, dq_tail := te\<rparr>)
        })
   }"

fun dq_assign_throwing :: "(nat \<Rightarrow> 'a \<Rightarrow> bool) \<Rightarrow> (usize \<Rightarrow> bool) \<Rightarrow> 'a elem_type \<Rightarrow> usize \<Rightarrow> 'a queue \<Rightarrow> 'a queue operand \<Rightarrow>
    ((exn + unit) \<times> 'a queue) option" where
  "dq_assign_throwing ok nw ty sz q Self = Some (Inr (), q)"
| "dq_assign_throwing ok nw ty sz q (Other rhs) =
     Option.bind (dq_copy_throwing ok nw ty sz rhs) (dq_replace_by ty q)"

text \<open>\<open>deque\<close>: \<open>init_map\<close> has set both ends before the first copy.\<close>

definition de_copy_from_throwing :: "(nat \<Rightarrow> 'a \<Rightarrow> bool) \<Rightarrow> 'a elem_type \<Rightarrow> nat \<Rightarrow> 'a deque \<Rightarrow> 'a deque \<Rightarrow>
    ((exn + unit) \<times> 'a deque) option" where
  "de_copy_from_throwing ok ty ce rhs d = do {
     mp \<leftarrow> de_map d;
     (r, _, _, h) \<leftarrow> try_each (\<lambda>i (src, dst, h). do {
         x \<leftarrow> iter_deref (de_heap rhs) src;
         c \<leftarrow> chunk_copy (ok i) ty (it_first dst) (it_cur dst) x h;
         (case c of
            Inl e \<Rightarrow> Some (Inl e, src, dst, h)
          | Inr h' \<Rightarrow> do {
              smp \<leftarrow> de_map rhs;
              src' \<leftarrow> iter_inc ce smp src;
              dst' \<leftarrow> iter_inc ce mp dst;
              Some (Inr (), src', dst', h')
            })
       }) [0..<de_size ce rhs] (de_start rhs, de_start d, de_heap d);
     Some (r, d\<lparr>de_heap := h\<rparr>)
   }"

definition de_copy_throwing :: "(nat \<Rightarrow> 'a \<Rightarrow> bool) \<Rightarrow> mem \<Rightarrow> 'a elem_type \<Rightarrow> nat \<Rightarrow> 'a deque \<Rightarrow>
    ((exn + unit) \<times> 'a deque) option" where
  "de_copy_throwing ok mem ty ce rhs = do {
     (r, d) \<leftarrow> de_init_map mem ce (of_nat (de_size ce rhs));
     (case r of Inl e \<Rightarrow> Some (Inl e, d) | Inr _ \<Rightarrow> de_copy_from_throwing ok ty ce rhs d)
   }"

fun de_assign_throwing :: "(nat \<Rightarrow> 'a \<Rightarrow> bool) \<Rightarrow> mem \<Rightarrow> 'a elem_type \<Rightarrow> nat \<Rightarrow> 'a deque \<Rightarrow> 'a deque operand \<Rightarrow>
    ((exn + unit) \<times> 'a deque) option" where
  "de_assign_throwing ok mem ty ce d Self = Some (Inr (), d)"
| "de_assign_throwing ok mem ty ce d (Other rhs) =
     Option.bind (de_copy_throwing ok mem ty ce rhs) (de_replace_by ty ce d)"

text \<open>\<open>vector\<close>\<close>

definition vec_copy_throwing :: "(nat \<Rightarrow> 'a \<Rightarrow> bool) \<Rightarrow> (usize \<Rightarrow> bool) \<Rightarrow> 'a elem_type \<Rightarrow> usize \<Rightarrow> 'a vector \<Rightarrow>
    ((exn + unit) \<times> 'a vector) option" where
  "vec_copy_throwing ok nw ty sz rhs = do {
     (r, v) \<leftarrow> vec_grow_to nw ty sz (vec_size rhs) vec_new;
     (case r of
        Inl e \<Rightarrow> Some (Inl e, v)
      | Inr _ \<Rightarrow> do {
          (r', m) \<leftarrow> copy_elems_throwing ok ty (vec_size rhs) (vec_data rhs) (vec_data v);
          (case r' of
             Inl e \<Rightarrow> Some (Inl e, v\<lparr>vec_data := m\<rparr>)
           | Inr _ \<Rightarrow> Some (Inr (), v\<lparr>vec_data := m, vec_size := vec_size rhs\<rparr>))
        })
   }"

fun vec_assign_throwing :: "(nat \<Rightarrow> 'a \<Rightarrow> bool) \<Rightarrow> (usize \<Rightarrow> bool) \<Rightarrow> 'a elem_type \<Rightarrow> usize \<Rightarrow> 'a vector \<Rightarrow> 'a vector operand \<Rightarrow>
    ((exn + unit) \<times> 'a vector) option" where
  "vec_assign_throwing ok nw ty sz v Self = Some (Inr (), v)"
| "vec_assign_throwing ok nw ty sz v (Other rhs) =
     Option.bind (vec_copy_throwing ok nw ty sz rhs) (vec_replace_by ty v)"

definition vec_fill_throwing :: "(nat \<Rightarrow> 'a \<Rightarrow> bool) \<Rightarrow> 'a elem_type \<Rightarrow> bool \<Rightarrow> 'a arg \<Rightarrow> usize \<Rightarrow> usize \<Rightarrow> 'a slots \<Rightarrow>
    ((exn + unit) \<times> 'a slots) option" where
  "vec_fill_throwing ok ty moved value lo hi =
     try_range lo hi (\<lambda>i m. do {
       x \<leftarrow> arg_value moved m value;
       slot_put ok ty (unat i) x m
     })"

definition vec_resize_throwing :: "(nat \<Rightarrow> 'a \<Rightarrow> bool) \<Rightarrow> (usize \<Rightarrow> bool) \<Rightarrow> 'a elem_type \<Rightarrow> usize \<Rightarrow> usize \<Rightarrow> 'a arg \<Rightarrow>
    'a vector \<Rightarrow> ((exn + unit) \<times> 'a vector) option" where
  "vec_resize_throwing ok nw ty sz count value v =
     (if count < vec_size v then do {
        m \<leftarrow> vec_destroy_n ty count (vec_size v - count) (vec_data v);
        Some (Inr (), v\<lparr>vec_data := m, vec_size := count\<rparr>)
      } else if vec_size v < count then do {
        (r, v1) \<leftarrow> vec_ensure_space nw ty sz (count - vec_size v) v;
        (case r of
           Inl e \<Rightarrow> Some (Inl e, v1)
         | Inr moved \<Rightarrow> do {
             (r', m) \<leftarrow> vec_fill_throwing ok ty moved value (vec_size v1) count (vec_data v1);
             (case r' of
                Inl e \<Rightarrow> Some (Inl e, v1\<lparr>vec_data := m\<rparr>)
              | Inr _ \<Rightarrow> Some (Inr (), v1\<lparr>vec_data := m, vec_size := count\<rparr>))
           })
      } else Some (Inr (), v))"

definition vec_assign_fill_throwing :: "(nat \<Rightarrow> 'a \<Rightarrow> bool) \<Rightarrow> (usize \<Rightarrow> bool) \<Rightarrow> 'a elem_type \<Rightarrow> usize \<Rightarrow> usize \<Rightarrow> 'a arg \<Rightarrow>
    'a vector \<Rightarrow> ((exn + unit) \<times> 'a vector) option" where
  "vec_assign_fill_throwing ok nw ty sz count value v = do {
     v1 \<leftarrow> vec_clear ty v;
     (r, v2) \<leftarrow> vec_reserve nw ty sz count v1;
     (case r of
        Inl e \<Rightarrow> Some (Inl e, v2)
      | Inr _ \<Rightarrow> do {
          (r', m) \<leftarrow> vec_fill_throwing ok ty (vec_cap v1 < count) value 0 count (vec_data v2);
          (case r' of
             Inl e \<Rightarrow> Some (Inl e, v2\<lparr>vec_data := m\<rparr>)
           | Inr _ \<Rightarrow> Some (Inr (), v2\<lparr>vec_data := m, vec_size := count\<rparr>))
        })
   }"

text \<open>\<open>insert(pos, const T&)\<close>: the copy is constructed after the elements have moved apart.\<close>

definition vec_insert_throwing :: "(nat \<Rightarrow> 'a \<Rightarrow> bool) \<Rightarrow> (usize \<Rightarrow> bool) \<Rightarrow> 'a elem_type \<Rightarrow> usize \<Rightarrow> usize \<Rightarrow> 'a arg \<Rightarrow>
    'a vector \<Rightarrow> ((exn + usize) \<times> 'a vector) option" where
  "vec_insert_throwing ok nw ty sz off value v = do {
     (r, v1) \<leftarrow> vec_ensure_space nw ty sz 1 v;
     (case r of
        Inl e \<Rightarrow> Some (Inl e, v1)
      | Inr moved \<Rightarrow> do {
          m1 \<leftarrow> vec_shift_right ty off (vec_size v1) 1 (vec_data v1);
          x \<leftarrow> arg_value moved m1 value;
          (r', m2) \<leftarrow> slot_put ok ty (unat off) x m1;
          (case r' of
             Inl e \<Rightarrow> Some (Inl e, v1\<lparr>vec_data := m2\<rparr>)
           | Inr _ \<Rightarrow> Some (Inr off, v1\<lparr>vec_data := m2, vec_size := vec_size v1 + 1\<rparr>))
        })
   }"

section \<open>What the loops do\<close>

text \<open>The elements that are copied before the first exception, and how the loop ends.\<close>

fun copied :: "(nat \<Rightarrow> 'a \<Rightarrow> bool) \<Rightarrow> nat \<Rightarrow> 'a list \<Rightarrow> 'a list" where
  "copied ok i [] = []"
| "copied ok i (x # xs) = (if ok i x then x # copied ok (Suc i) xs else [])"

definition outcome :: "(nat \<Rightarrow> 'a \<Rightarrow> bool) \<Rightarrow> nat \<Rightarrow> 'a list \<Rightarrow> exn + unit" where
  "outcome ok i xs = (if copied ok i xs = xs then Inr () else Inl Element_error)"

lemma outcome_simps [simp]:
  "outcome ok i [] = Inr ()"
  "outcome ok i (x # xs) = (if ok i x then outcome ok (Suc i) xs else Inl Element_error)"
  by (simp_all add: outcome_def)

lemma copied_take: "take (length (copied ok i xs)) xs = copied ok i xs"
  by (induction xs arbitrary: i) auto

lemma copied_length: "length (copied ok i xs) \<le> length xs"
  by (metis copied_take length_take min.cobounded1)

lemma try_each_copies:
  assumes "length is = length xs" "P 0 s"
    and "\<And>k s. k < length xs \<Longrightarrow> P k s \<Longrightarrow>
      (if ok (lo + k) (xs ! k) then \<exists>s'. body (is ! k) s = Some (Inr (), s') \<and> P (Suc k) s'
       else \<exists>s'. body (is ! k) s = Some (Inl Element_error, s') \<and> P k s')"
  shows "\<exists>s'. try_each body is s = Some (outcome ok lo xs, s') \<and> P (length (copied ok lo xs)) s'"
  using assms
proof (induction xs arbitrary: "is" lo P s)
  case Nil
  then show ?case by simp
next
  case (Cons x xs)
  then obtain i "is'" where i: "is = i # is'" "length is' = length xs" by (cases "is") auto
  show ?case
  proof (cases "ok lo x")
    case True
    with Cons.prems(3) [of 0] Cons.prems(2) i obtain s1 where s1: "body i s = Some (Inr (), s1)" "P 1 s1" by auto
    have "\<exists>s'. try_each body is' s1 = Some (outcome ok (Suc lo) xs, s') \<and> P (Suc (length (copied ok (Suc lo) xs))) s'"
    proof (rule Cons.IH [where P = "\<lambda>k. P (Suc k)"])
      fix k s
      assume "k < length xs" "P (Suc k) s"
      then show "if ok (Suc lo + k) (xs ! k) then \<exists>s'. body (is' ! k) s = Some (Inr (), s') \<and> P (Suc (Suc k)) s'
          else \<exists>s'. body (is' ! k) s = Some (Inl Element_error, s') \<and> P (Suc k) s'"
        using Cons.prems(3) [of "Suc k" s, unfolded i(1)] by (simp split: if_splits)
    qed (use i s1(2) in simp_all)
    then show ?thesis using i s1(1) True by simp
  next
    case False
    with Cons.prems(3) [of 0 s] Cons.prems(2) i obtain s1 where "body i s = Some (Inl Element_error, s1)" "P 0 s1" by auto
    then show ?thesis using i False by simp
  qed
qed

text \<open>Loops over a range of indices and around a ring are loops over the list of those indices.\<close>

lemma try_range_each: "try_range lo hi body s = try_each body (map of_nat [unat lo..<unat hi]) s"
proof (induction lo hi body s rule: try_range.induct)
  case (1 i n body s)
  show ?case
  proof (cases "i < n")
    case True
    then have "[unat i..<unat n] = unat i # [unat (i + 1)..<unat n]"
      by (simp add: unat_simps word_less_nat_alt upt_conv_Cons)
    then show ?thesis using True 1 by (auto simp: try_range.simps [of i] split: bind_splits sum.splits)
  qed (simp add: try_range.simps [of i] word_less_nat_alt)
qed

lemma try_walk_each:
  assumes "idx n = t" "\<And>k. k < n \<Longrightarrow> idx k \<noteq> t" "\<And>k. k < n \<Longrightarrow> next_index (idx k) = idx (Suc k)"
  shows "j \<le> n \<Longrightarrow> try_walk next_index (idx j) t body s = try_each body (map idx [j..<n]) s"
proof (induction "n - j" arbitrary: j s)
  case 0
  then show ?case using assms(1) by (subst try_walk.simps) simp
next
  case (Suc d)
  then have j: "j < n" by simp
  have "try_walk next_index (idx (Suc j)) t body s' = try_each body (map idx [Suc j..<n]) s'" for s'
    using Suc by simp
  then show ?case
    using j assms(2,3) [OF j] by (subst try_walk.simps) (auto simp: upt_conv_Cons split: bind_splits sum.splits)
qed

text \<open>The proof rule for a loop of copies around a ring.\<close>

lemma try_walk_window:
  assumes w: "ring_window c h t (length xs)" and "P 0 s"
    and step: "\<And>k i s. k < length xs \<Longrightarrow> unat i = (unat h + k) mod unat c \<Longrightarrow> P k s \<Longrightarrow>
      (if ok k (xs ! k) then \<exists>s'. body i s = Some (Inr (), s') \<and> P (Suc k) s'
       else \<exists>s'. body i s = Some (Inl Element_error, s') \<and> P k s')"
  shows "\<exists>s'. try_walk (ring_advance (c - 1)) h t body s = Some (outcome ok 0 xs, s') \<and> P (length (copied ok 0 xs)) s'"
proof -
  note D = ring_windowD [OF w]
  define idx where "idx k = (of_nat ((unat h + k) mod unat c) :: usize)" for k
  have u: "unat (idx k) = (unat h + k) mod unat c" for k
  proof -
    have "(unat h + k) mod unat c < 2 ^ 64"
      by (rule less_trans [OF mod_less_divisor [OF is_po2_pos [OF D(1)]]]) simp
    then show ?thesis unfolding idx_def by (rule unat_of_nat_usize)
  qed
  have "try_walk (ring_advance (c - 1)) (idx 0) t body s = try_each body (map idx [0..<length xs]) s"
  proof (rule try_walk_each)
    show "idx (length xs) = t" using u D(4) by (simp add: usize_eq_iff)
    show "idx k \<noteq> t" if "k < length xs" for k
      using that u [of k] D mod_add_inj [of "unat h" k "unat c" "length xs"] by (auto simp: usize_eq_iff)
    show "ring_advance (c - 1) (idx k) = idx (Suc k)" for k
      using u by (simp add: usize_eq_iff unat_ring_advance [OF D(1)] mod_Suc_eq)
  qed simp
  moreover have "idx 0 = h" using u [of 0] D(2) by (simp add: usize_eq_iff)
  moreover have "\<exists>s'. try_each body (map idx [0..<length xs]) s = Some (outcome ok 0 xs, s') \<and> P (length (copied ok 0 xs)) s'"
    by (rule try_each_copies) (use assms(2) step u in simp_all)
  ultimately show ?thesis by simp
qed

lemma try_range_copies:
  assumes "unat hi = unat lo + length xs" "P 0 s"
    and step: "\<And>k i s. k < length xs \<Longrightarrow> unat i = unat lo + k \<Longrightarrow> P k s \<Longrightarrow>
      (if ok (unat lo + k) (xs ! k) then \<exists>s'. body i s = Some (Inr (), s') \<and> P (Suc k) s'
       else \<exists>s'. body i s = Some (Inl Element_error, s') \<and> P k s')"
  shows "\<exists>s'. try_range lo hi body s = Some (outcome ok (unat lo) xs, s') \<and> P (length (copied ok (unat lo) xs)) s'"
  unfolding try_range_each
proof (rule try_each_copies)
  fix k s
  assume k: "k < length xs" "P k s"
  then have "unat lo + k < 2 ^ 64" using assms(1) unat_lt_usize [of hi] by simp
  then have "unat (of_nat (unat lo + k) :: usize) = unat lo + k" by (rule unat_of_nat_usize)
  from step [OF k(1) this k(2)] k(1) assms(1)
  show "if ok (unat lo + k) (xs ! k)
      then \<exists>s'. body (map of_nat [unat lo..<unat hi] ! k) s = Some (Inr (), s') \<and> P (Suc k) s'
      else \<exists>s'. body (map of_nat [unat lo..<unat hi] ! k) s = Some (Inl Element_error, s') \<and> P k s'"
    by (simp del: of_nat_add)
qed (use assms in simp_all)

text \<open>Copying into raw storage at the end of what it holds.\<close>

lemma slot_put_end:
  assumes "lin_rep ty xs m" "length xs < length m"
  shows "\<And>ok. slot_put ok ty (length xs) x m =
      Some (if ok (length xs) x then (Inr (), m[length xs := Some x]) else (Inl Element_error, m))"
    "lin_rep ty (xs @ [x]) (m[length xs := Some x])"
  using lin_rep_push [OF assms, of x] by (simp_all add: slot_put_def slot_copy_def)

lemma copy_elems_throwing_rep:
  assumes "lin_rep ty xs src" "lin_rep ty [] dst" "unat n = length xs" "length xs \<le> length dst"
  shows "\<exists>m. copy_elems_throwing ok ty n src dst = Some (outcome ok 0 xs, m) \<and> length m = length dst \<and>
    lin_rep ty (copied ok 0 xs) m"
proof -
  let ?P = "\<lambda>k d. length d = length dst \<and> lin_rep ty (take k xs) d"
  have "\<exists>m. copy_elems_throwing ok ty n src dst = Some (outcome ok (unat (0 :: usize)) xs, m) \<and>
      ?P (length (copied ok (unat (0 :: usize)) xs)) m"
    unfolding copy_elems_throwing_def
  proof (rule try_range_copies)
    fix k i d
    assume k: "k < length xs" "unat i = unat (0 :: usize) + k" and d: "?P k d"
    have "slot_read k src = Some (xs ! k)"
      using assms(1) k(1) hold_read [of ty "elem_at xs" src k] by (simp add: lin_rep_hold)
    then show "if ok (unat (0 :: usize) + k) (xs ! k)
        then \<exists>s'. (do { x \<leftarrow> slot_read (unat i) src; slot_put ok ty (unat i) x d }) = Some (Inr (), s') \<and> ?P (Suc k) s'
        else \<exists>s'. (do { x \<leftarrow> slot_read (unat i) src; slot_put ok ty (unat i) x d }) = Some (Inl Element_error, s') \<and> ?P k s'"
      using slot_put_end [where xs = "take k xs" and m = d and ty = ty and x = "xs ! k"] d k assms(4) by (simp add: min_absorb2 take_Suc_conv_app_nth)
  qed (use assms in simp_all)
  then show ?thesis by (simp add: copied_take)
qed

lemma ring_copy_throwing_rep:
  assumes "ring_holds ty c h t xs src" "ring_holds ty d 0 0 [] dst" "length xs < unat d"
  shows "\<exists>m te. ring_copy_throwing ok ty (c - 1) h t src (d - 1) (dst, 0) = Some (outcome ok 0 xs, m, te) \<and>
    ring_holds ty d 0 te (copied ok 0 xs) m"
proof -
  note D = ring_holdsD [OF assms(1)]
  let ?P = "\<lambda>k s. ring_holds ty d 0 (snd s) (take k xs) (fst s)"
  have "\<exists>s. ring_copy_throwing ok ty (c - 1) h t src (d - 1) (dst, 0) = Some (outcome ok 0 xs, s) \<and>
      ?P (length (copied ok 0 xs)) s"
    unfolding ring_copy_throwing_def
  proof (rule try_walk_window [OF D(1)])
    fix k i and s :: "'a slots \<times> usize"
    assume k: "k < length xs" "unat i = (unat h + k) mod unat c" and s: "?P k s"
    obtain e te where e: "s = (e, te)" by fastforce
    have "is_po2 d" "length e = unat d" using ring_holdsD [OF s] ring_windowD(1) [of d] e by auto
    then have te: "unat te = k" using s e k(1) ring_holds_0_iff [of d e ty te "take k xs"] by simp
    show "if ok k (xs ! k)
        then \<exists>s'. (case s of (dst, te) \<Rightarrow> do { x \<leftarrow> slot_read (unat i) src; (r, dst') \<leftarrow> slot_put ok ty (unat te) x dst;
            Some (r, dst', case r of Inl e \<Rightarrow> te | Inr _ \<Rightarrow> ring_advance (d - 1) te) }) = Some (Inr (), s') \<and> ?P (Suc k) s'
        else \<exists>s'. (case s of (dst, te) \<Rightarrow> do { x \<leftarrow> slot_read (unat i) src; (r, dst') \<leftarrow> slot_put ok ty (unat te) x dst;
            Some (r, dst', case r of Inl e \<Rightarrow> te | Inr _ \<Rightarrow> ring_advance (d - 1) te) }) = Some (Inl Element_error, s') \<and> ?P k s'"
      using ring_holds_read(1) [OF assms(1) k] ring_holds_push [OF s, of "xs ! k"] assms(3) k(1) e te s
      by (auto simp: take_Suc_conv_app_nth slot_put_def slot_copy_def)
  qed (use assms(2) in simp)
  then show ?thesis by (auto simp: copied_take)
qed

section \<open>What the operations do\<close>

lemma fs_fill_from_rep:
  assumes "fs_rep ty C xs rhs" "fs_rep ty C [] s"
  shows "\<exists>s'. fs_fill_from ok ty rhs s = Some (outcome ok 0 xs, s') \<and> lin_rep ty (copied ok 0 xs) (fs_storage s') \<and>
    (if copied ok 0 xs = xs then fs_rep ty C xs s' else fs_size s' = 0)"
proof -
  have "lin_rep ty xs (fs_storage rhs)" "lin_rep ty [] (fs_storage s)" "unat (fs_size rhs) = length xs"
    "length xs \<le> length (fs_storage s)" "fs_size s = 0"
    using assms fs_rep_size(1) [OF assms(1)] by (auto simp: fs_rep_def unat_eq_0)
  from copy_elems_throwing_rep [OF this(1-4), of ok] this assms show ?thesis
    by (auto simp: fs_fill_from_def outcome_def fs_rep_def)
qed

lemma fq_append_copy_throwing_rep:
  assumes "fq_rep ty C xs rhs" "fq_rep ty C [] q" "fq_head q = 0" "fq_tail q = 0"
  shows "\<exists>q'. fq_append_copy_throwing ok ty C rhs q = Some (outcome ok 0 xs, q') \<and> fq_rep ty C (copied ok 0 xs) q'"
proof -
  have r: "ring_holds ty (fq_buf_cap C) (fq_head rhs) (fq_tail rhs) xs (fq_storage rhs)"
    "ring_holds ty (fq_buf_cap C) 0 0 [] (fq_storage q)"
    using assms by (simp_all add: fq_rep_def)
  from ring_copy_throwing_rep [OF r ring_holdsD(6) [OF r(1)], of ok] assms copied_length [of ok 0 xs] show ?thesis
    by (auto simp: fq_append_copy_throwing_def fq_rep_def fq_buf_mask_def)
qed

lemma vec_copy_throwing_rep:
  assumes r: "vec_rep ty sz xs rhs" and nw: "new_limit nw"
  shows "vec_copy_throwing ok nw ty sz rhs = Some (Inl Bad_alloc, vec_new) \<or>
    (\<exists>v. vec_copy_throwing ok nw ty sz rhs = Some (outcome ok 0 xs, v) \<and> lin_rep ty (copied ok 0 xs) (vec_data v) \<and>
       (if copied ok 0 xs = xs then vec_rep ty sz xs v else vec_size v = 0))"
proof -
  note D = vec_repD [OF r]
  have "unat (vec_size rhs) * unat sz \<le> unat (vec_cap rhs) * unat sz"
    using D(4,6) by (intro mult_le_mono1) simp
  then have "unat (vec_size rhs) * unat sz < 2 ^ 63" using D(5) by (rule le_less_trans)
  then have "unat (vec_size rhs) * unat sz < 2 ^ 64" by (rule less_trans) simp
  note grow = vec_grow_to_rep [OF vec_rep_new [OF D(1)] nw this, of ty]
  then consider "vec_grow_to nw ty sz (vec_size rhs) vec_new = Some (Inl Bad_alloc, vec_new)"
    | v where "vec_grow_to nw ty sz (vec_size rhs) vec_new = Some (Inr (), v)" "vec_rep ty sz [] v"
       "length xs \<le> unat (vec_cap v)"
    using D(4) by auto
  then show ?thesis
  proof cases
    case (2 v)
    note E = vec_repD [OF 2(2)]
    have "length xs \<le> length (vec_data v)" "vec_size v = 0" using E(3,4) 2(3) by (simp_all add: unat_eq_0)
    with copy_elems_throwing_rep [OF D(2) E(2) D(4), of ok] 2 E D(4) show ?thesis
      by (auto simp: vec_copy_throwing_def vec_rep_def outcome_def)
  qed (simp add: vec_copy_throwing_def)
qed

text \<open>The buffer of a copy of a queue: none when there is nothing to copy.\<close>

lemma dq_copy_buffer:
  assumes r: "dq_rep ty sz xs rhs" and nw: "new_limit nw" and ne: "xs \<noteq> []"
  shows "dq_reserve nw ty sz (dq_size rhs) dq_new = Some (Inl Bad_alloc, dq_new) \<or>
    (\<exists>q c. dq_reserve nw ty sz (dq_size rhs) dq_new = Some (Inr (), q) \<and> dq_cap q = c \<and> dq_mask q = c - 1 \<and> c \<noteq> 0 \<and>
       dq_head q = 0 \<and> dq_tail q = 0 \<and> length xs < unat c \<and> unat c * unat sz < 2 ^ 63 \<and> ring_holds ty c 0 0 [] (dq_buf q))"
proof -
  have sz: "sizeof_ok sz" using r by (simp add: dq_rep_def)
  define c where "c = queue_round_up_po2 (dq_size rhs + 1)"
  note C = dq_copy_request [OF r, folded c_def] and S = dq_rep_size(1) [OF r]
  have len: "length xs < unat c" "0 < length xs"
    using dq_round_up(3) [of "dq_size rhs"] dq_rep_bound(1) [OF r] S ne by (simp_all add: c_def)
  have res: "dq_reserve nw ty sz (dq_size rhs) dq_new = dq_grow_to nw ty sz c dq_new"
    using S len(2) by (simp add: dq_reserve_def dq_new_def dq_capacity_def word_less_nat_alt c_def)
  have l0: "length [] < unat c" using len by simp
  note g = dq_grow_to_rep [OF dq_rep_new [OF sz, of ty] C(2) l0 C(1) nw]
  show ?thesis
  proof (cases "nw (c * sz)")
    case True
    then obtain q where q: "dq_grow_to nw ty sz c dq_new = Some (Inr (), q)" "dq_rep ty sz [] q"
        "dq_cap q = c" "dq_head q = 0"
      using g(2) by blast
    moreover have t: "dq_tail q = 0" using dq_rep_size(2) [OF q(2)] q(4) by (simp add: dq_empty_def)
    moreover have c0: "c \<noteq> 0" using len by auto
    moreover have "ring_holds ty c 0 0 [] (dq_buf q)" "dq_mask q = c - 1" "unat c * unat sz < 2 ^ 63"
      using q t c0 by (simp_all add: dq_rep_def)
    ultimately show ?thesis using res len(1) by auto
  qed (use g(1) res in simp)
qed

lemma dq_copy_throwing_rep:
  assumes r: "dq_rep ty sz xs rhs" and nw: "new_limit nw"
  shows "dq_copy_throwing ok nw ty sz rhs = Some (Inl Bad_alloc, dq_new) \<or>
    (\<exists>q. dq_copy_throwing ok nw ty sz rhs = Some (outcome ok 0 xs, q) \<and> dq_rep ty sz (copied ok 0 xs) q)"
proof (cases "xs = []")
  case True
  then have "dq_size rhs = 0" "dq_head rhs = dq_tail rhs"
    using dq_rep_size(1,2) [OF r] by (auto simp: unat_eq_0 dq_empty_def)
  moreover have "sizeof_ok sz" using r by (simp add: dq_rep_def)
  ultimately show ?thesis
    using True by (simp add: dq_copy_throwing_def dq_reserve_def ring_copy_throwing_def try_walk.simps [of _ "dq_tail rhs"]
        dq_rep_new dq_new_def [symmetric])
next
  case False
  have rhs: "ring_holds ty (dq_cap rhs) (dq_head rhs) (dq_tail rhs) xs (dq_buf rhs)" "dq_mask rhs = dq_cap rhs - 1"
    using r False by (cases rule: dq_rep_cases; simp)+
  have sz: "sizeof_ok sz" using r by (simp add: dq_rep_def)
  from dq_copy_buffer [OF r nw False] show ?thesis
  proof (elim disjE exE conjE)
    fix q c
    assume q: "dq_reserve nw ty sz (dq_size rhs) dq_new = Some (Inr (), q)" "dq_cap q = c" "dq_mask q = c - 1" "c \<noteq> 0"
      "dq_head q = 0" "dq_tail q = 0" "length xs < unat c" "unat c * unat sz < 2 ^ 63" "ring_holds ty c 0 0 [] (dq_buf q)"
    obtain m te where "ring_copy_throwing ok ty (dq_cap rhs - 1) (dq_head rhs) (dq_tail rhs) (dq_buf rhs) (c - 1) (dq_buf q, 0)
        = Some (outcome ok 0 xs, m, te)" "ring_holds ty c 0 te (copied ok 0 xs) m"
      using ring_copy_throwing_rep [OF rhs(1) q(9,7), of ok] by blast
    then show ?thesis using q(1-6,8) rhs(2) sz by (simp add: dq_copy_throwing_def dq_rep_def)
  qed (simp add: dq_copy_throwing_def)
qed

lemma de_copy_throwing_rep:
  assumes r: "de_rep ty ce xs rhs" and m: "fresh_mem mem"
  shows "(\<exists>d. de_copy_throwing ok mem ty ce rhs = Some (Inl Bad_alloc, d)) \<or>
    (\<exists>d cs. de_copy_throwing ok mem ty ce rhs = Some (outcome ok 0 xs, d) \<and> cs \<noteq> [] \<and>
       chunks_hold ty ce (de_heap d) cs (window 0 (copied ok 0 xs)) \<and> (copied ok 0 xs = xs \<longrightarrow> de_rep ty ce xs d))"
proof -
  obtain base' cs' s where l: "de_layout ty ce base' cs' s xs rhs" using r by (auto simp: de_rep_def)
  note P = de_layout_pos [OF l] and sz = de_layout_size [OF l] and count = de_layout_count [OF l]
  from l obtain smp where R: "de_map rhs = Some smp" "de_links base' cs' smp" "de_start rhs = pos_iter ce base' cs' s"
      "chunks_hold ty ce (de_heap rhs) cs' (window s xs)" by (auto simp: de_layout_def)
  show ?thesis
    using de_init_map_rep [OF P(1) m count(2), of ty]
  proof (elim disjE exE conjE)
    fix d base cs
    assume d: "de_init_map mem ce (of_nat (length xs)) = Some (Inr (), d)"
      and "de_blank ty ce base cs (unat (of_nat (length xs) :: usize)) d"
    then have b: "de_blank ty ce base cs (length xs) d" unfolding count(1) by simp
    then obtain mp where mp: "de_map d = Some mp" "de_links base cs mp" "Suc (length xs div ce) = length cs"
        "de_start d = pos_iter ce base cs 0" "chunks_hold ty ce (de_heap d) cs (window 0 [])"
      by (auto simp: de_blank_def)
    let ?body = "\<lambda>i (src, dst, h). do {
         x \<leftarrow> iter_deref (de_heap rhs) src;
         c \<leftarrow> chunk_copy (ok i) ty (it_first dst) (it_cur dst) x h;
         (case c of
            Inl e \<Rightarrow> Some (Inl e, src, dst, h)
          | Inr h' \<Rightarrow> do {
              smp \<leftarrow> de_map rhs;
              src' \<leftarrow> iter_inc ce smp src;
              dst' \<leftarrow> iter_inc ce mp dst;
              Some (Inr (), src', dst', h')
            })
       }"
    let ?P = "\<lambda>i st. \<exists>h. st = (pos_iter ce base' cs' (s + i), pos_iter ce base cs i, h) \<and>
        chunks_hold ty ce h cs (window 0 (take i xs))"
    have "\<exists>st. try_each ?body [0..<length xs] (de_start rhs, de_start d, de_heap d) = Some (outcome ok 0 xs, st) \<and>
        ?P (length (copied ok 0 xs)) st"
    proof (rule try_each_copies)
      show "?P 0 (de_start rhs, de_start d, de_heap d)" using R(3) mp(4,5) by simp
      fix i st
      assume i: "i < length xs" and "?P i st"
      then obtain h where h: "st = (pos_iter ce base' cs' (s + i), pos_iter ce base cs i, h)"
        "chunks_hold ty ce h cs (window 0 (take i xs))" by blast
      note step = de_copy_step [OF P(1) i R(2,4) P(2) mp(2) h(2)]
      obtain h' where h': "chunk_construct ty (it_first (pos_iter ce base cs i)) (it_cur (pos_iter ce base cs i)) (xs ! i) h = Some h'"
        "chunks_hold ty ce h' cs (window 0 (take (Suc i) xs))" using step(2) mp(3) by auto
      show "if ok (0 + i) (xs ! i) then \<exists>st'. ?body ([0..<length xs] ! i) st = Some (Inr (), st') \<and> ?P (Suc i) st'
          else \<exists>st'. ?body ([0..<length xs] ! i) st = Some (Inl Element_error, st') \<and> ?P i st'"
        using step(1,3,4) mp(3) h h' R(1) i by (simp add: chunk_copy_def)
    qed simp
    then obtain a b' h where h: "try_each ?body [0..<length xs] (de_start rhs, de_start d, de_heap d) = Some (outcome ok 0 xs, a, b', h)"
        "chunks_hold ty ce h cs (window 0 (copied ok 0 xs))" by (auto simp: copied_take)
    then have "de_copy_throwing ok mem ty ce rhs = Some (outcome ok 0 xs, d\<lparr>de_heap := h\<rparr>)"
      using d mp(1) sz by (simp add: de_copy_throwing_def de_copy_from_throwing_def)
    moreover have "de_rep ty ce xs (d\<lparr>de_heap := h\<rparr>)" if "copied ok 0 xs = xs"
      using de_blank_fill [OF b] h(2) that by (auto simp: de_rep_def)
    moreover have "cs \<noteq> []" using mp(3) by auto
    ultimately show ?thesis using h(2) by auto
  qed (use sz in \<open>simp add: de_copy_throwing_def\<close>)
qed

text \<open>Objects that are beyond the size are not destroyed, so that the buffer is freed under them.\<close>

lemma for_range_keeps:
  assumes "for_range lo hi body s = Some s'" "P s" "\<And>i t t'. i < hi \<Longrightarrow> P t \<Longrightarrow> body i t = Some t' \<Longrightarrow> P t'"
  shows "P s'"
  using assms
proof (induction lo hi body s rule: for_range.induct)
  case (1 i n body s)
  show ?case
  proof (cases "i < n")
    case True
    then obtain t where t: "body i s = Some t" "for_range (i + 1) n body t = Some s'"
      using "1.prems"(1) by (auto simp: for_range.simps [of i] split: bind_splits)
    from "1.IH" [OF True t(1,2) "1.prems"(3) [OF True "1.prems"(2) t(1)] "1.prems"(3)] show ?thesis .
  next
    case False
    then show ?thesis using "1.prems"(1,2) by (simp add: for_range.simps [of i])
  qed
qed

lemma vec_leaks:
  assumes "vec_data v ! j \<noteq> None" "unat (vec_size v) \<le> j" "j < length (vec_data v)" "\<not> is_trivial ty"
  shows "vec_destroy ty v = None"
proof (cases "vec_destroy_n ty 0 (vec_size v) (vec_data v)")
  case (Some m)
  then have "for_range 0 (vec_size v) (\<lambda>i. slot_destroy ty (unat (0 + i))) (vec_data v) = Some m"
    using assms(4) by (simp add: vec_destroy_n_def)
  then have "m ! j \<noteq> None \<and> j < length m"
  proof (rule for_range_keeps)
    fix i t t'
    assume "i < vec_size v" "t ! j \<noteq> None \<and> j < length t" "slot_destroy ty (unat (0 + i)) t = Some t'"
    then show "t' ! j \<noteq> None \<and> j < length t'"
      using assms(2) by (auto simp: slot_destroy_def word_less_nat_alt split: if_splits)
  qed (use assms(1,3) in simp)
  then have "free_slots ty m = None" using assms(4) by (auto simp: free_slots_def list_all_length)
  then show ?thesis using Some by (simp add: vec_destroy_def vec_clear_def)
qed (simp add: vec_destroy_def vec_clear_def)

lemma vec_tail_leaks:
  assumes "lin_rep ty (xs @ ys) (vec_data v)" "unat (vec_size v) = length xs" "ys \<noteq> []" "\<not> is_trivial ty"
  shows "vec_destroy ty v = None"
proof -
  have "length xs < length (vec_data v)" using assms(3) lin_repD(1) [OF assms(1)] by (cases ys) auto
  moreover have "vec_data v ! length xs = Some ((xs @ ys) ! length xs)"
    using assms(3) by (intro lin_repD(2) [OF assms(1)]) (cases ys, auto)
  ultimately show ?thesis using assms(2,4) by (intro vec_leaks [of v "length xs" ty]) auto
qed

text \<open>A raw slot below the size is destroyed.\<close>

lemma vec_destroy_raw:
  assumes "vec_data v ! unat i = None" "i < vec_size v" "\<not> is_trivial ty"
  shows "vec_destroy ty v = None"
proof -
  have "for_range 0 (vec_size v) (\<lambda>i. slot_destroy ty (unat (0 + i))) (vec_data v) = None"
    by (rule for_range_None [of 0 i _ "\<lambda>m. m ! unat i = None"])
       (use assms in \<open>auto intro: raw_stays_raw simp: slot_destroy_raw\<close>)
  then show ?thesis using assms(3) by (simp add: vec_destroy_def vec_clear_def vec_destroy_n_def)
qed

lemma vec_fill_throwing_rep:
  assumes r: "lin_rep ty xs m" and lo: "unat lo = length xs" "unat hi = length xs + n" "unat hi \<le> length m"
  shows "\<exists>m'. vec_fill_throwing ok ty moved (Value x) lo hi m = Some (outcome ok (length xs) (replicate n x), m') \<and>
    length m' = length m \<and> lin_rep ty (xs @ copied ok (length xs) (replicate n x)) m'"
proof -
  let ?P = "\<lambda>k d. length d = length m \<and> lin_rep ty (xs @ take k (replicate n x)) d"
  have "\<exists>m'. vec_fill_throwing ok ty moved (Value x) lo hi m = Some (outcome ok (unat lo) (replicate n x), m') \<and>
      ?P (length (copied ok (unat lo) (replicate n x))) m'"
    unfolding vec_fill_throwing_def
  proof (rule try_range_copies)
    fix k i d
    assume k: "k < length (replicate n x)" "unat i = unat lo + k" and d: "?P k d"
    have "xs @ replicate k x @ [x] = xs @ take (Suc k) (replicate n x)"
      using k(1) by (simp add: replicate_append_same min_absorb1)
    then show "if ok (unat lo + k) (replicate n x ! k)
        then \<exists>s'. (do { x \<leftarrow> arg_value moved d (Value x); slot_put ok ty (unat i) x d }) = Some (Inr (), s') \<and> ?P (Suc k) s'
        else \<exists>s'. (do { x \<leftarrow> arg_value moved d (Value x); slot_put ok ty (unat i) x d }) = Some (Inl Element_error, s') \<and> ?P k s'"
      using slot_put_end [where xs = "xs @ take k (replicate n x)" and m = d and ty = ty and x = x] d k lo
      by (simp add: min_absorb1)
  qed (use r lo in simp_all)
  then show ?thesis using copied_take [of ok "length xs" "replicate n x"] lo(1) by simp
qed

lemma vec_resize_throwing_rep:
  fixes x :: 'a
  assumes r: "vec_rep ty sz xs v" and nw: "new_limit nw" and n: "vec_request_ok sz (unat count)" "length xs < unat count"
  defines "new \<equiv> replicate (unat count - length xs) x"
  shows "vec_resize_throwing ok nw ty sz count (Value x) v = Some (Inl Bad_alloc, v) \<or>
    (\<exists>v'. vec_resize_throwing ok nw ty sz count (Value x) v = Some (outcome ok (length xs) new, v') \<and>
       lin_rep ty (xs @ copied ok (length xs) new) (vec_data v') \<and>
       (if copied ok (length xs) new = new then vec_rep ty sz (xs @ new) v' else
          vec_size v' = vec_size v \<and> (copied ok (length xs) new = [] \<longrightarrow> vec_rep ty sz xs v')))"
proof -
  note D = vec_repD [OF r]
  have c: "vec_size v < count" "\<not> count < vec_size v" using D(4) n(2) by (simp_all add: word_less_nat_alt)
  have e: "length xs + unat (count - vec_size v) = unat count"
    using D(4) n(2) by (subst unat_sub) (simp_all add: word_le_nat_alt)
  consider "vec_ensure_space nw ty sz (count - vec_size v) v = Some (Inl Bad_alloc, v)"
    | moved v1 where "vec_ensure_space nw ty sz (count - vec_size v) v = Some (Inr moved, v1)"
        "vec_rep ty sz xs v1" "unat count \<le> unat (vec_cap v1)" "vec_size v1 = vec_size v"
    using vec_ensure_space_rep [OF r nw, of "count - vec_size v"] n e by auto
  then show ?thesis
  proof cases
    case 1
    then show ?thesis using c by (simp add: vec_resize_throwing_def)
  next
    case (2 moved v1)
    note E = vec_repD [OF 2(2)]
    obtain m where "vec_fill_throwing ok ty moved (Value x) (vec_size v1) count (vec_data v1) =
        Some (outcome ok (length xs) new, m)"
      "length m = length (vec_data v1)" "lin_rep ty (xs @ copied ok (length xs) new) m"
      using vec_fill_throwing_rep [OF E(2,4), of count "unat count - length xs" ok moved x] E(3) n(2) 2(3) by (auto simp: new_def)
    then show ?thesis using 2 c E n(2) by (auto simp: vec_resize_throwing_def vec_rep_def outcome_def new_def)
  qed
qed

lemma vec_insert_throws:
  assumes r: "vec_rep ty sz xs v" and nw: "new_limit nw" and off: "unat off \<le> length xs"
    and t: "\<not> ok (unat off) x" "\<not> is_trivial ty"
  shows "vec_insert_throwing ok nw ty sz off (Value x) v = Some (Inl Bad_alloc, v) \<or>
    (\<exists>v'. vec_insert_throwing ok nw ty sz off (Value x) v = Some (Inl Element_error, v') \<and>
       (if unat off = length xs then vec_rep ty sz xs v' else vec_destroy ty v' = None))"
  using r nw
proof (cases rule: vec_ensure_one)
  case (room moved v1)
  note D = vec_repD [OF room(2)]
  obtain m1 where m1: "vec_shift_right ty off (vec_size v1) 1 (vec_data v1) = Some m1"
      "length m1 = length (vec_data v1)" "slots_hold ty (gap_at (unat off) 1 xs) m1"
    using vec_shift_right_rep [OF D(2,4) off, of 1] room(3) D(3,7) by auto
  have "m1 ! unat off = None" using m1(2,3) t(2) off room(3) D(3) by (auto simp: slots_hold_def gap_at_def)
  then have "vec_destroy ty (v1\<lparr>vec_data := m1\<rparr>) = None" if "unat off \<noteq> length xs"
    using vec_destroy_raw [of "v1\<lparr>vec_data := m1\<rparr>" off ty] that off D(4) t(2) by (simp add: word_less_nat_alt)
  moreover have "vec_rep ty sz xs (v1\<lparr>vec_data := m1\<rparr>)" if "unat off = length xs"
    using m1 that D by (simp add: vec_rep_def lin_rep_hold)
  moreover have "vec_insert_throwing ok nw ty sz off (Value x) v = Some (Inl Element_error, v1\<lparr>vec_data := m1\<rparr>)"
    using room(1) m1(1) t(1) by (simp add: vec_insert_throwing_def slot_put_def)
  ultimately show ?thesis by auto
qed (simp add: vec_insert_throwing_def)

lemma vec_assign_fill_throwing_rep:
  fixes x :: 'a
  assumes r: "vec_rep ty sz xs v" and nw: "new_limit nw" and n: "unat count * unat sz < 2 ^ 64"
  defines "new \<equiv> replicate (unat count) x"
  shows "\<exists>v'. vec_rep ty sz [] v' \<and> vec_assign_fill_throwing ok nw ty sz count (Value x) v = Some (Inl Bad_alloc, v') \<or>
    (vec_assign_fill_throwing ok nw ty sz count (Value x) v = Some (outcome ok 0 new, v') \<and>
       lin_rep ty (copied ok 0 new) (vec_data v') \<and>
       (if copied ok 0 new = new then vec_rep ty sz new v' else vec_size v' = 0))"
proof -
  obtain v1 where v1: "vec_clear ty v = Some v1" "vec_rep ty sz [] v1" using vec_clear_rep [OF r] by blast
  consider "vec_reserve nw ty sz count v1 = Some (Inl Bad_alloc, v1)"
    | v2 where "vec_reserve nw ty sz count v1 = Some (Inr (), v2)" "vec_rep ty sz [] v2" "unat count \<le> unat (vec_cap v2)"
  proof (cases "vec_cap v1 < count")
    case True
    then have e: "vec_reserve nw ty sz count v1 = vec_grow_to nw ty sz count v1" by (simp add: vec_reserve_def)
    from vec_grow_to_rep [OF v1(2) nw n] show thesis using that unfolding e by blast
  next
    case False
    then show thesis using that(2) [of v1] v1(2) by (simp add: vec_reserve_def word_less_nat_alt)
  qed
  then show ?thesis
  proof cases
    case 1
    then show ?thesis using v1 by (auto simp: vec_assign_fill_throwing_def)
  next
    case (2 v2)
    note E = vec_repD [OF 2(2)]
    obtain m where "vec_fill_throwing ok ty (vec_cap v1 < count) (Value x) 0 count (vec_data v2) = Some (outcome ok 0 new, m)"
      "length m = length (vec_data v2)" "lin_rep ty (copied ok 0 new) m"
      using vec_fill_throwing_rep [OF E(2), of 0 count "unat count" ok "vec_cap v1 < count" x] E(3) 2(3) by (auto simp: new_def)
    then show ?thesis using 2 v1 E by (auto simp: vec_assign_fill_throwing_def vec_rep_def outcome_def new_def unat_eq_0)
  qed
qed

section \<open>Copies that all succeed\<close>

lemma slot_put_ok: "slot_put (\<lambda>_ _. True) ty i x m = map_option (Pair (Inr ())) (slot_construct ty i x m)"
  by (cases "slot_construct ty i x m") (simp_all add: slot_put_def slot_copy_def)

lemma try_range_ok:
  assumes "\<And>i s. body i s = map_option (Pair (Inr ())) (body' i s)"
  shows "try_range lo hi body s = map_option (Pair (Inr ())) (for_range lo hi body' s)"
  using assms
proof (induction lo hi body s rule: try_range.induct)
  case (1 i n body s)
  show ?case
  proof (cases "i < n")
    case True
    then show ?thesis
      using 1 by (cases "body' i s") (auto simp: try_range.simps [of i] for_range.simps [of i])
  qed (simp add: try_range.simps [of i] for_range.simps [of i])
qed

lemma loops_that_succeed:
  "copy_elems_throwing (\<lambda>_ _. True) ty n src dst = map_option (Pair (Inr ())) (copy_elems ty n src dst)"
  "vec_fill_throwing (\<lambda>_ _. True) ty moved value lo hi m = map_option (Pair (Inr ())) (vec_fill ty moved value lo hi m)"
  unfolding copy_elems_throwing_def copy_elems_def vec_fill_throwing_def vec_fill_def
  by (rule try_range_ok; simp add: slot_put_ok map_option_over_bind)+

lemma bind_normal:
  "Option.bind (map_option (Pair (Inr ())) m) f = Option.bind m (\<lambda>x. f (Inr (), x))"
  by (cases m) simp_all

lemmas succeed = loops_that_succeed slot_put_ok bind_normal

lemma copies_all_succeed:
  "fs_copy_throwing (\<lambda>_ _. True) ty C t = map_option (Pair (Inr ())) (fs_copy ty C t)"
  "fs_assign_throwing (\<lambda>_ _. True) ty s (Other t) = map_option (Pair (Inr ())) (fs_assign ty s (Other t))"
  "vec_copy_throwing (\<lambda>_ _. True) nw ty sz v = vec_copy nw ty sz v"
proof -
  show "fs_copy_throwing (\<lambda>_ _. True) ty C t = map_option (Pair (Inr ())) (fs_copy ty C t)"
    unfolding fs_copy_throwing_def fs_fill_from_def fs_copy_def succeed
    by (cases "copy_elems ty (fs_size t) (fs_storage t) (fs_storage (fs_new C))") simp_all
  show "fs_assign_throwing (\<lambda>_ _. True) ty s (Other t) = map_option (Pair (Inr ())) (fs_assign ty s (Other t))"
    unfolding fs_assign_throwing.simps fs_assign.simps fs_fill_from_def succeed map_option_over_bind by simp
  show "vec_copy_throwing (\<lambda>_ _. True) nw ty sz v = vec_copy nw ty sz v"
    unfolding vec_copy_throwing_def vec_copy_def succeed by (simp only: prod.case sum.case)
qed

lemma vec_bulk_succeed:
  "vec_resize_throwing (\<lambda>_ _. True) nw ty sz count value v = vec_resize nw ty sz count value v"
  "vec_assign_fill_throwing (\<lambda>_ _. True) nw ty sz count value v = vec_assign_fill nw ty sz count value v"
  unfolding vec_resize_throwing_def vec_resize_def vec_assign_fill_throwing_def vec_assign_fill_def succeed
  by (simp_all only: prod.case sum.case)

lemma vec_insert_succeeds:
  "vec_insert_throwing (\<lambda>_ _. True) nw ty sz off value v = vec_insert nw ty sz off value v"
  unfolding vec_insert_throwing_def vec_insert_def succeed by (simp only: prod.case sum.case)

section \<open>Properties\<close>

lemma fs_rep_size0: "fs_size s = 0 \<Longrightarrow> fs_list s = []"
  by (simp add: fs_list_def)

text \<open>Objects that the size does not count are in the way of the next push.\<close>

lemma fs_uncounted:
  assumes "fs_size s = 0" "lin_rep ty ys (fs_storage s)" "ys \<noteq> []" "\<not> is_trivial ty" "0 < unat C"
  shows "\<not> fs_inv ty C s" "fs_try_push ty C x s = None"
proof -
  have m: "fs_storage s ! 0 \<noteq> None" "0 < length (fs_storage s)"
    using lin_repD [OF assms(2)] assms(3) by (cases ys; auto)+
  then show "\<not> fs_inv ty C s"
    using assms(1,4) fs_rep_size0 [OF assms(1)] by (auto simp: fs_inv_def fs_rep_def lin_rep_def)
  have "0 \<noteq> C" using assms(5) by auto
  then show "fs_try_push ty C x s = None"
    using m assms(1,4) by (simp add: fs_try_push_def fs_construct_next_def slot_construct_def)
qed

text \<open>
  C35. Copy construction and copy assignment of a fixed stack and a fixed queue whose elements'
  copies may throw. A fixed queue advances its tail with every element: after an exception
  it is well-formed and holds the elements copied until then (the copy constructor abandons
  them). A fixed stack counts the elements at the end: after an exception its size is 0, but the
  elements copied until then are live in its storage, where nothing destroys them and where
  the next push constructs over the first of them.
\<close>

theorem throwing_copies_of_fixed:
  fixes t s :: "'a fixed_stack" and u q :: "'a fixed_queue"
  assumes "fs_inv ty C t" "fs_inv ty C s" "fq_inv ty C u" "fq_inv ty C q" "\<not> is_trivial ty"
  defines "xs \<equiv> fs_list t" and "ys \<equiv> fq_contents C u"
  shows "(\<forall>res \<in> {fs_copy_throwing ok ty C t, fs_assign_throwing ok ty s (Other t)}.
      \<exists>s'. res = Some (if copied ok 0 xs = xs then Inr () else Inl Element_error, s') \<and>
        (if copied ok 0 xs = xs then fs_inv ty C s' \<and> fs_list s' = xs
         else fs_list s' = [] \<and> lin_rep ty (copied ok 0 xs) (fs_storage s') \<and>
           (copied ok 0 xs \<noteq> [] \<longrightarrow> \<not> fs_inv ty C s' \<and> (\<forall>x. fs_try_push ty C x s' = None)))) \<and>
    (\<forall>res \<in> {fq_copy_throwing ok ty C u, fq_assign_throwing ok ty C q (Other u)}.
      \<exists>q'. res = Some (if copied ok 0 ys = ys then Inr () else Inl Element_error, q') \<and>
        fq_inv ty C q' \<and> fq_contents C q' = copied ok 0 ys)"
proof -
  have t: "fs_rep ty C xs t" and u: "fq_rep ty C ys u" and C: "0 < unat C"
    using assms(1,3) by (auto simp: fs_inv_def fq_inv_def xs_def ys_def fs_rep_def)
  obtain s1 where s1: "fs_clear ty s = Some s1" "fs_rep ty C [] s1"
    using assms(2) fs_clear_rep unfolding fs_inv_def by metis
  obtain q1 where q1: "fq_clear ty C q = Some q1" "fq_rep ty C [] q1" "fq_head q1 = 0" "fq_tail q1 = 0"
    using assms(4) fq_clear_rep unfolding fq_inv_def by metis
  have stack: "\<exists>s'. fs_fill_from ok ty t s0 = Some (if copied ok 0 xs = xs then Inr () else Inl Element_error, s') \<and>
        (if copied ok 0 xs = xs then fs_inv ty C s' \<and> fs_list s' = xs
         else fs_list s' = [] \<and> lin_rep ty (copied ok 0 xs) (fs_storage s') \<and>
           (copied ok 0 xs \<noteq> [] \<longrightarrow> \<not> fs_inv ty C s' \<and> (\<forall>x. fs_try_push ty C x s' = None)))" if "fs_rep ty C [] s0" for s0
    using fs_fill_from_rep [OF t that, of ok] fs_uncounted [where ty = ty and C = C, OF _ _ _ assms(5) C]
    by (auto simp: outcome_def fs_rep_size0 fs_rep_inv fs_rep_list)
  have queue: "\<exists>q'. fq_append_copy_throwing ok ty C u q0 = Some (if copied ok 0 ys = ys then Inr () else Inl Element_error, q') \<and>
        fq_inv ty C q' \<and> fq_contents C q' = copied ok 0 ys" if "fq_rep ty C [] q0" "fq_head q0 = 0" "fq_tail q0 = 0" for q0
    using fq_append_copy_throwing_rep [OF u that, of ok] fq_rep_inv fq_rep_contents by (fastforce simp: outcome_def)
  have "fq_rep ty C [] (fq_new C)" using u by (intro fq_rep_new) (auto simp: fq_rep_def)
  note queue [OF this] queue [OF q1(2-4)] stack [OF fs_rep_new [OF C]] stack [OF s1(2)]
  then show ?thesis using s1(1) q1(1) by (auto simp: fs_copy_throwing_def fq_copy_throwing_def fq_new_def)
qed

text \<open>
  C36. Copies of a vector, a growable queue and a deque whose elements' copies may throw. Copy
  assignment has the strong guarantee: it works on a temporary, so that after an exception, of an element
  or of the allocation, the target is as before. What the throwing copy constructor abandons is
  the elements copied until then, which nothing destroys, and with them the buffer or the chunks.
\<close>

theorem throwing_copies_of_growable:
  assumes "vec_inv ty sz t" "vec_inv ty sz v" "dq_inv ty sz u" "dq_inv ty sz q" "new_limit nw" "\<not> is_trivial ty"
    and "de_inv ty ce a" "de_inv ty ce d" "fresh_mem mem"
  shows "(case vec_assign_throwing ok nw ty sz v (Other t) of
        Some (Inl e, v') \<Rightarrow> v' = v \<and> (e = Bad_alloc \<or> e = Element_error \<and> copied ok 0 (vec_list t) \<noteq> vec_list t)
      | Some (Inr _, v') \<Rightarrow> vec_inv ty sz v' \<and> vec_list v' = vec_list t \<and> copied ok 0 (vec_list t) = vec_list t
      | None \<Rightarrow> False) \<and>
    (case dq_assign_throwing ok nw ty sz q (Other u) of
        Some (Inl e, q') \<Rightarrow> q' = q \<and> (e = Bad_alloc \<or> e = Element_error \<and> copied ok 0 (dq_contents u) \<noteq> dq_contents u)
      | Some (Inr _, q') \<Rightarrow> dq_inv ty sz q' \<and> dq_contents q' = dq_contents u \<and> copied ok 0 (dq_contents u) = dq_contents u
      | None \<Rightarrow> False) \<and>
    (case de_assign_throwing ok mem ty ce d (Other a) of
        Some (Inl e, d') \<Rightarrow> d' = d \<and> (e = Bad_alloc \<or> e = Element_error \<and> copied ok 0 (de_contents ce a) \<noteq> de_contents ce a)
      | Some (Inr _, d') \<Rightarrow> de_inv ty ce d' \<and> de_contents ce d' = de_contents ce a \<and> copied ok 0 (de_contents ce a) = de_contents ce a
      | None \<Rightarrow> False) \<and>
    (\<forall>v'. vec_copy_throwing ok nw ty sz t = Some (Inl Element_error, v') \<longrightarrow> vec_list v' = [] \<and>
      lin_rep ty (copied ok 0 (vec_list t)) (vec_data v') \<and> (copied ok 0 (vec_list t) \<noteq> [] \<longrightarrow> vec_destroy ty v' = None)) \<and>
    (\<forall>q'. dq_copy_throwing ok nw ty sz u = Some (Inl Element_error, q') \<longrightarrow>
      dq_inv ty sz q' \<and> dq_contents q' = copied ok 0 (dq_contents u)) \<and>
    (\<forall>d'. de_copy_throwing ok mem ty ce a = Some (Inl Element_error, d') \<longrightarrow>
      (\<exists>cs. cs \<noteq> [] \<and> chunks_hold ty ce (de_heap d') cs (window 0 (copied ok 0 (de_contents ce a)))))"
proof -
  have t: "vec_rep ty sz (vec_list t) t" and v: "vec_rep ty sz (vec_list v) v"
    and u: "dq_rep ty sz (dq_contents u) u" and q: "dq_rep ty sz (dq_contents q) q"
    using assms(1-4) by (simp_all add: vec_inv_def dq_inv_def)
  note V = vec_copy_throwing_rep [OF t assms(5), of ok] and Q = dq_copy_throwing_rep [OF u assms(5), of ok]
  have "vec_destroy ty v' = None"
    if "vec_size v' = 0" "lin_rep ty (copied ok 0 (vec_list t)) (vec_data v')" "copied ok 0 (vec_list t) \<noteq> []" for v'
    using vec_tail_leaks [of ty "[]" _ v'] that assms(6) by simp
  moreover have "vec_list v' = []" if "vec_size v' = 0" for v' :: "'a vector" using that by (simp add: vec_list_def)
  ultimately have "\<forall>v'. vec_copy_throwing ok nw ty sz t = Some (Inl Element_error, v') \<longrightarrow> vec_list v' = [] \<and>
      lin_rep ty (copied ok 0 (vec_list t)) (vec_data v') \<and> (copied ok 0 (vec_list t) \<noteq> [] \<longrightarrow> vec_destroy ty v' = None)"
    using V by (auto simp: outcome_def split: if_splits)
  moreover have "\<forall>q'. dq_copy_throwing ok nw ty sz u = Some (Inl Element_error, q') \<longrightarrow>
      dq_inv ty sz q' \<and> dq_contents q' = copied ok 0 (dq_contents u)"
    using Q dq_rep_inv dq_rep_contents by fastforce
  moreover have a: "de_rep ty ce (de_contents ce a) a" and d: "de_rep ty ce (de_contents ce d) d"
    using assms(7,8) by (simp_all add: de_inv_def)
  note E = de_copy_throwing_rep [OF a assms(9), of ok]
  have "case de_assign_throwing ok mem ty ce d (Other a) of
        Some (Inl e, d') \<Rightarrow> d' = d \<and> (e = Bad_alloc \<or> e = Element_error \<and> copied ok 0 (de_contents ce a) \<noteq> de_contents ce a)
      | Some (Inr _, d') \<Rightarrow> de_inv ty ce d' \<and> de_contents ce d' = de_contents ce a \<and> copied ok 0 (de_contents ce a) = de_contents ce a
      | None \<Rightarrow> False"
    using E de_replace_by_rep [OF d] by (auto simp: outcome_def de_rep_inv de_rep_contents)
  moreover have "\<forall>d'. de_copy_throwing ok mem ty ce a = Some (Inl Element_error, d') \<longrightarrow>
      (\<exists>cs. cs \<noteq> [] \<and> chunks_hold ty ce (de_heap d') cs (window 0 (copied ok 0 (de_contents ce a))))"
    using E by auto
  moreover have "case vec_assign_throwing ok nw ty sz v (Other t) of
        Some (Inl e, v') \<Rightarrow> v' = v \<and> (e = Bad_alloc \<or> e = Element_error \<and> copied ok 0 (vec_list t) \<noteq> vec_list t)
      | Some (Inr _, v') \<Rightarrow> vec_inv ty sz v' \<and> vec_list v' = vec_list t \<and> copied ok 0 (vec_list t) = vec_list t
      | None \<Rightarrow> False"
    using V vec_replace_by_rep [OF v] by (auto simp: outcome_def vec_rep_inv vec_rep_list)
  moreover have "case dq_assign_throwing ok nw ty sz q (Other u) of
        Some (Inl e, q') \<Rightarrow> q' = q \<and> (e = Bad_alloc \<or> e = Element_error \<and> copied ok 0 (dq_contents u) \<noteq> dq_contents u)
      | Some (Inr _, q') \<Rightarrow> dq_inv ty sz q' \<and> dq_contents q' = dq_contents u \<and> copied ok 0 (dq_contents u) = dq_contents u
      | None \<Rightarrow> False"
    using Q dq_replace_by_rep [OF q] by (auto simp: outcome_def dq_rep_inv dq_rep_contents)
  ultimately show ?thesis by blast
qed

text \<open>
  C37. Members of a vector that construct copies, when a copy throws. \<open>insert\<close> has the strong
  guarantee at the end only: elsewhere the elements have moved apart, the gap is within the
  size, and destroying the vector is undefined behaviour. \<open>resize\<close> and \<open>assign\<close> set the size
  after the loop, so that the copies made before the exception are live beyond the size and
  destroying the vector leaks them; a resize whose first copy throws has no effect.
\<close>

theorem throwing_bulk_of_vector:
  fixes v :: "'a vector" and x
  assumes "vec_inv ty sz v" "new_limit nw" "\<not> is_trivial ty" "unat off \<le> length (vec_list v)"
    and "vec_request_ok sz (unat count)" "length (vec_list v) < unat count"
  defines "xs \<equiv> vec_list v" and "new \<equiv> replicate (unat count - length (vec_list v)) x" and "all \<equiv> replicate (unat count) x"
  shows "(\<not> ok (unat off) x \<longrightarrow> (\<exists>e v'. vec_insert_throwing ok nw ty sz off (Value x) v = Some (Inl e, v') \<and>
      (if e = Bad_alloc then v' = v else if unat off = length xs then vec_inv ty sz v' \<and> vec_list v' = xs else vec_destroy ty v' = None))) \<and>
    (copied ok (length xs) new \<noteq> new \<longrightarrow> (\<exists>e v'. vec_resize_throwing ok nw ty sz count (Value x) v = Some (Inl e, v') \<and>
      (if e = Bad_alloc then v' = v
       else if copied ok (length xs) new = [] then vec_inv ty sz v' \<and> vec_list v' = xs
       else vec_size v' = vec_size v \<and> lin_rep ty (xs @ copied ok (length xs) new) (vec_data v') \<and> vec_destroy ty v' = None))) \<and>
    (copied ok 0 all \<noteq> all \<longrightarrow> (\<exists>e v'. vec_assign_fill_throwing ok nw ty sz count (Value x) v = Some (Inl e, v') \<and>
      vec_list v' = [] \<and> (e = Bad_alloc \<and> vec_inv ty sz v' \<or>
        e = Element_error \<and> lin_rep ty (copied ok 0 all) (vec_data v') \<and> (copied ok 0 all \<noteq> [] \<longrightarrow> vec_destroy ty v' = None))))"
proof (intro conjI impI)
  have r: "vec_rep ty sz xs v" using assms(1) by (simp add: vec_inv_def xs_def)
  have len: "unat off \<le> length xs" "length xs < unat count" using assms(4,6) by (simp_all add: xs_def)
  show "\<exists>e v'. vec_insert_throwing ok nw ty sz off (Value x) v = Some (Inl e, v') \<and>
      (if e = Bad_alloc then v' = v else if unat off = length xs then vec_inv ty sz v' \<and> vec_list v' = xs else vec_destroy ty v' = None)"
    if "\<not> ok (unat off) x"
    using vec_insert_throws [where ok = ok and x = x, OF r assms(2) len(1) that assms(3)] vec_rep_inv vec_rep_list
    by (fastforce split: if_splits)
  have new: "new = replicate (unat count - length xs) x" by (simp add: new_def xs_def)
  have leak: "vec_destroy ty v' = None"
    if "vec_size v' = vec_size v" "lin_rep ty (xs @ ys) (vec_data v')" "ys \<noteq> []" for v' ys
    using vec_tail_leaks [OF that(2) _ that(3) assms(3)] vec_repD(4) [OF r] that(1) by simp
  show "\<exists>e v'. vec_resize_throwing ok nw ty sz count (Value x) v = Some (Inl e, v') \<and>
      (if e = Bad_alloc then v' = v
       else if copied ok (length xs) new = [] then vec_inv ty sz v' \<and> vec_list v' = xs
       else vec_size v' = vec_size v \<and> lin_rep ty (xs @ copied ok (length xs) new) (vec_data v') \<and> vec_destroy ty v' = None)"
    if "copied ok (length xs) new \<noteq> new"
    using vec_resize_throwing_rep [where ok = ok and x = x, OF r assms(2,5) len(2), folded new] that
  proof (elim disjE exE conjE)
    fix v'
    assume v': "vec_resize_throwing ok nw ty sz count (Value x) v = Some (outcome ok (length xs) new, v')"
      "lin_rep ty (xs @ copied ok (length xs) new) (vec_data v')"
      "if copied ok (length xs) new = new then vec_rep ty sz (xs @ new) v' else
          vec_size v' = vec_size v \<and> (copied ok (length xs) new = [] \<longrightarrow> vec_rep ty sz xs v')"
    then show ?thesis
      using that leak [OF _ v'(2)] vec_rep_inv [of ty sz xs v'] vec_rep_list [of ty sz xs v']
      by (intro exI [of _ Element_error] exI [of _ v']) (simp add: outcome_def)
  qed (intro exI [of _ Bad_alloc] exI [of _ v], simp)
  have "unat count * unat sz < 2 ^ 64" using assms(5) by (simp add: vec_request_ok_def)
  from vec_assign_fill_throwing_rep [OF r assms(2) this, of ok x]
  show "\<exists>e v'. vec_assign_fill_throwing ok nw ty sz count (Value x) v = Some (Inl e, v') \<and>
      vec_list v' = [] \<and> (e = Bad_alloc \<and> vec_inv ty sz v' \<or>
        e = Element_error \<and> lin_rep ty (copied ok 0 all) (vec_data v') \<and> (copied ok 0 all \<noteq> [] \<longrightarrow> vec_destroy ty v' = None))"
    if "copied ok 0 all \<noteq> all"
    using that vec_tail_leaks [of ty "[]"] assms(3) vec_rep_inv [of ty sz "[]"] vec_rep_list [of ty sz "[]"]
    by (auto simp: outcome_def all_def vec_list_def)
qed

lemma lin_rep_pair:
  "lin_rep ty [a, b] [Some a, Some b]" "lin_rep ty [a, b] [Some a, Some b, None, None]"
  by (auto simp: lin_rep_def nth_Cons' less_Suc_eq)

theorem throwing_copies_of_fixed_witness:
  "\<exists>s'. fs_assign_throwing (\<lambda>i _. i < 1) \<lparr>is_trivial = False, residue = id\<rparr> (fs_new 4)
      (Other \<lparr>fs_storage = [Some (5 :: int), Some 6, None, None], fs_size = 2\<rparr>) = Some (Inl Element_error, s') \<and>
    fs_list s' = [] \<and> fs_try_push \<lparr>is_trivial = False, residue = id\<rparr> 4 7 s' = None"
proof -
  let ?ty = "\<lparr>is_trivial = False, residue = id\<rparr> :: int elem_type"
  let ?t = "\<lparr>fs_storage = [Some (5 :: int), Some 6, None, None], fs_size = 2\<rparr>"
  have "fs_rep ?ty 4 [5, 6] ?t" by (simp add: fs_rep_def lin_rep_pair)
  note t = fs_rep_inv [OF this] fs_rep_list [OF this]
  have s: "fs_inv ?ty 4 (fs_new 4)" by (rule fs_rep_inv [OF fs_rep_new]) simp
  have u: "fq_inv ?ty 4 (fq_new 4)" by (rule fq_rep_inv [OF fq_rep_new]) simp_all
  show ?thesis using throwing_copies_of_fixed [OF t(1) s u u, of "\<lambda>i _. i < 1"] by (auto simp: t(2))
qed

theorem throwing_copies_of_growable_witness:
  "\<exists>e. vec_assign_throwing (\<lambda>i _. i < 1) (\<lambda>b. b < 4096) \<lparr>is_trivial = False, residue = id\<rparr> 4 vec_new
      (Other \<lparr>vec_data = [Some (5 :: int), Some 6], vec_size = 2, vec_cap = 2\<rparr>) = Some (Inl e, vec_new)"
proof -
  let ?ty = "\<lparr>is_trivial = False, residue = id\<rparr> :: int elem_type"
  let ?t = "\<lparr>vec_data = [Some (5 :: int), Some 6], vec_size = 2, vec_cap = 2\<rparr>"
  have nw: "new_limit (\<lambda>b. b < 4096)" by (auto simp: new_limit_def word_less_nat_alt)
  have sz: "sizeof_ok 4" by (simp add: sizeof_ok_def)
  have "vec_rep ?ty 4 [5, 6] ?t" using sz by (simp add: vec_rep_def lin_rep_pair)
  note t = vec_rep_inv [OF this] vec_rep_list [OF this]
  let ?r = "vec_assign_throwing (\<lambda>i _. i < 1) (\<lambda>b. b < 4096) ?ty 4 vec_new (Other ?t)"
  obtain d where d: "de_rep ?ty 3 [4] d"
    using de_from_list_ample [of 3 "[4] :: int list" 9 ?ty] by (auto simp: chunk_fits_def)
  note dq = dq_rep_inv [OF dq_rep_new [OF sz], of ?ty] and de = de_rep_inv [OF d]
  have nt: "\<not> is_trivial ?ty" by simp
  note W = throwing_copies_of_growable [OF t(1) vec_rep_inv [OF vec_rep_new [OF sz]] dq dq nw nt de de limited_mem_fresh,
      where ok = "\<lambda>i _. i < 1", THEN conjunct1]
  have W': "case ?r of Some (Inl e, v') \<Rightarrow> v' = vec_new | Some (Inr _, v') \<Rightarrow> False | None \<Rightarrow> False"
    using W by (simp add: t(2) del: vec_assign_throwing.simps split: option.splits sum.splits prod.splits)
  then obtain res v' where r: "?r = Some (res, v')" by (cases ?r) auto
  then show ?thesis using W' by (cases res) (simp_all del: vec_assign_throwing.simps)
qed

theorem throwing_bulk_of_vector_witness:
  "\<exists>e v'. vec_insert_throwing (\<lambda>i _. i = 2) (\<lambda>b. b < 4096) \<lparr>is_trivial = False, residue = id\<rparr> 4 1 (Value 7)
      \<lparr>vec_data = [Some (5 :: int), Some 6, None, None], vec_size = 2, vec_cap = 4\<rparr> = Some (Inl e, v') \<and>
    (e \<noteq> Bad_alloc \<longrightarrow> vec_destroy \<lparr>is_trivial = False, residue = id\<rparr> v' = None)"
proof -
  let ?ty = "\<lparr>is_trivial = False, residue = id\<rparr> :: int elem_type"
  let ?v = "\<lparr>vec_data = [Some (5 :: int), Some 6, None, None], vec_size = 2, vec_cap = 4\<rparr>"
  have nw: "new_limit (\<lambda>b. b < 4096)" by (auto simp: new_limit_def word_less_nat_alt)
  have "vec_rep ?ty 4 [5, 6] ?v" by (simp add: vec_rep_def sizeof_ok_def lin_rep_pair)
  note v = vec_rep_inv [OF this] vec_rep_list [OF this]
  show ?thesis
    using throwing_bulk_of_vector [OF v(1) nw, of 1 4 "\<lambda>i _. i = 2" 7]
    by (fastforce simp: v(2) vec_request_ok_def split: if_splits)
qed

end
