(* ===== verification/Platform.thy ===== *)
theory Platform
  imports Blocks
begin

text \<open>
  What the library asks of the platform: huge pages (\<open>include/hpc/support/huge_pages.hpp\<close>,
  \<open>src/huge_pages.cpp\<close>) and pinning of threads (\<open>src/support/cpu_topology.cpp\<close>). The
  system calls are outside the program: their results are the fields of \<open>vm_api\<close>, as
  functions of the number of bytes asked for. The mappings of the process are a \<open>heap\<close>.
\<close>

section \<open>The huge page size of Linux\<close>

text \<open>
  \<open>sscanf(line, "Hugepagesize:%zu kB", &kb) == 1\<close>: the literal text, then any white space
  and a decimal number with an optional sign; what follows the number does not matter. A
  number that does not fit becomes the largest one, as in the C library of Linux.
\<close>

definition is_digit :: "char \<Rightarrow> bool" where
  "is_digit c \<longleftrightarrow> 48 \<le> (of_char c :: nat) \<and> (of_char c :: nat) \<le> 57"

definition is_space :: "char \<Rightarrow> bool" where
  "is_space c \<longleftrightarrow> (of_char c :: nat) = 32 \<or> 9 \<le> (of_char c :: nat) \<and> (of_char c :: nat) \<le> 13"

fun digits_value :: "nat \<Rightarrow> string \<Rightarrow> nat" where
  "digits_value v [] = v"
| "digits_value v (c # cs) = digits_value (10 * v + (of_char c - 48)) cs"

fun scan_sign :: "string \<Rightarrow> bool \<times> string" where
  "scan_sign (c # cs) = (if c = CHR ''-'' then (True, cs) else if c = CHR ''+'' then (False, cs) else (False, c # cs))"
| "scan_sign [] = (False, [])"

definition scan_size :: "string \<Rightarrow> usize option" where
  "scan_size line =
     (if take 13 line = ''Hugepagesize:'' then
        let (neg, rest) = scan_sign (dropWhile is_space (drop 13 line));
            ds = takeWhile is_digit rest;
            v = digits_value 0 ds
        in if ds = [] then None
           else Some (if 2 ^ 64 \<le> v then - 1 else if neg then - of_nat v else of_nat v)
      else None)"

text \<open>The loop over the lines of \<open>/proc/meminfo\<close>; \<open>None\<close> when the file cannot be opened.\<close>

fun meminfo_kb :: "string list \<Rightarrow> usize" where
  "meminfo_kb [] = 0"
| "meminfo_kb (line # ls) = (case scan_size line of Some kb \<Rightarrow> kb | None \<Rightarrow> meminfo_kb ls)"

definition linux_huge_page_size_bytes :: "string list option \<Rightarrow> usize" where
  "linux_huge_page_size_bytes meminfo =
     (let kb = (case meminfo of None \<Rightarrow> 0 | Some ls \<Rightarrow> meminfo_kb ls)
      in if kb = 0 then 0 else kb * 1024)"

section \<open>Allocation and release\<close>

datatype platform = Linux | Windows | Elsewhere

text \<open>
  \<open>vm_huge\<close> is \<open>mmap\<close> with \<open>MAP_HUGETLB\<close>, or \<open>VirtualAlloc\<close> with \<open>MEM_LARGE_PAGES\<close>;
  \<open>vm_plain\<close> the call without the flag. Both return 0 when they fail.
\<close>

record vm_api =
  vm_platform :: platform
  vm_meminfo :: "string list option"
  vm_sysconf_page :: "64 word"
  vm_large_minimum :: usize
  vm_system_page :: "32 word"
  vm_huge :: "usize \<Rightarrow> usize"
  vm_plain :: "usize \<Rightarrow> usize"

record huge_page_region =
  hr_ptr :: usize
  hr_size :: usize
  hr_align :: usize

definition no_region :: huge_page_region where
  "no_region = \<lparr>hr_ptr = 0, hr_size = 0, hr_align = 0\<rparr>"

definition hp_rounded :: "usize \<Rightarrow> usize \<Rightarrow> usize" where
  "hp_rounded n page = (n + page - 1) AND NOT (page - 1)"

text \<open>One attempt: the region that a call of the given function yields, if it succeeds.\<close>

definition hp_map :: "(usize \<Rightarrow> usize) \<Rightarrow> usize \<Rightarrow> usize \<Rightarrow> huge_page_region option" where
  "hp_map call n page =
     (let rounded = hp_rounded n page; p = call rounded
      in if p = 0 then None else Some \<lparr>hr_ptr = p, hr_size = rounded, hr_align = page\<rparr>)"

definition hp_huge_page :: "vm_api \<Rightarrow> usize" where
  "hp_huge_page api =
     (case vm_platform api of
        Linux \<Rightarrow> linux_huge_page_size_bytes (vm_meminfo api)
      | Windows \<Rightarrow> vm_large_minimum api
      | Elsewhere \<Rightarrow> 0)"

definition hp_page :: "vm_api \<Rightarrow> usize" where
  "hp_page api =
     (case vm_platform api of
        Linux \<Rightarrow> if 0 < sint (vm_sysconf_page api) then vm_sysconf_page api else 4096
      | Windows \<Rightarrow> if vm_system_page api \<noteq> 0 then ucast (vm_system_page api) else 4096
      | Elsewhere \<Rightarrow> 4096)"

definition huge_page_alloc :: "vm_api \<Rightarrow> usize \<Rightarrow> heap \<Rightarrow> huge_page_region \<times> heap" where
  "huge_page_alloc api n h =
     (let give = \<lambda>r. (r, heap_new (hr_ptr r) (hr_size r) h);
          fallback = (case hp_map (vm_plain api) n (hp_page api) of Some r \<Rightarrow> give r | None \<Rightarrow> (no_region, h))
      in if vm_platform api = Elsewhere then (no_region, h)
         else if hp_huge_page api \<noteq> 0
         then (case hp_map (vm_huge api) n (hp_huge_page api) of Some r \<Rightarrow> give r | None \<Rightarrow> fallback)
         else fallback)"

text \<open>\<open>munmap\<close> takes the size, \<open>VirtualFree\<close> does not; unmapping twice is a fault.\<close>

definition huge_page_free :: "vm_api \<Rightarrow> huge_page_region \<Rightarrow> heap \<Rightarrow> heap option" where
  "huge_page_free api r h =
     (case vm_platform api of
        Linux \<Rightarrow> if hr_ptr r \<noteq> 0 \<and> hr_size r \<noteq> 0
                 then (if h (hr_ptr r) = Some (hr_size r) then heap_delete (hr_ptr r) h else None) else Some h
      | Windows \<Rightarrow> if hr_ptr r \<noteq> 0 then heap_delete (hr_ptr r) h else Some h
      | Elsewhere \<Rightarrow> Some h)"

section \<open>Pinning a thread\<close>

text \<open>
  \<open>CPU_SET\<close> ignores a core beyond the 1024 bits of a \<open>cpu_set_t\<close>. The parameter tells what
  \<open>pthread_setaffinity_np\<close> returns for the set of cores.
\<close>

definition pin_thread_to_core :: "bool \<Rightarrow> (nat set \<Rightarrow> int) \<Rightarrow> 32 word \<Rightarrow> bool" where
  "pin_thread_to_core linux set_affinity core =
     (if linux then set_affinity (if unat core < 1024 then {unat core} else {}) = 0 else False)"

section \<open>Rounding never loses bytes\<close>

text \<open>
  When \<open>size + page - 1\<close> wraps around, the rounded size is 0, which no platform maps.
\<close>

lemma hp_rounded_cases:
  assumes "is_po2 page"
  shows "unat n + unat page \<le> 2 ^ 64 \<Longrightarrow> unat (hp_rounded n page) = round_up (unat n) (unat page)"
    and "2 ^ 64 < unat n + unat page \<Longrightarrow> hp_rounded n page = 0"
proof -
  have e: "hp_rounded n page = (n + (page - 1)) AND NOT (page - 1)" by (simp add: hp_rounded_def add_diff_eq)
  show "unat (hp_rounded n page) = round_up (unat n) (unat page)" if "unat n + unat page \<le> 2 ^ 64"
    unfolding e by (rule unat_round_up [OF assms that])
  show "hp_rounded n page = 0" if w: "2 ^ 64 < unat n + unat page"
  proof -
    have p: "0 < unat page" by (rule is_po2_pos [OF assms])
    have "unat (page - 1) = unat page - 1" using p by (intro unat_minus1) auto
    then have "unat (n + (page - 1)) = (unat n + (unat page - 1)) mod 2 ^ 64" by (simp add: unat_word_ariths)
    also have "\<dots> = unat n + (unat page - 1) - 2 ^ 64"
    proof -
      have "unat n < 2 ^ 64" "unat page < 2 ^ 64" by simp_all
      then have "unat n + (unat page - 1) - 2 ^ 64 < 2 ^ 64" by linarith
      moreover have "2 ^ 64 \<le> unat n + (unat page - 1)" using w by linarith
      ultimately show ?thesis by (simp only: le_mod_geq mod_less)
    qed
    also have "\<dots> < unat page"
    proof -
      have "unat n < 2 ^ 64" by simp
      then show ?thesis using p by linarith
    qed
    finally have "unat (hp_rounded n page) = 0" unfolding e unat_and_not_mask [OF assms] by simp
    then show ?thesis by (simp add: unat_eq_zero)
  qed
qed

definition vm_maps :: "(usize \<Rightarrow> usize) \<Rightarrow> bool" where
  "vm_maps call \<longleftrightarrow> call 0 = 0"

lemma hp_map_size:
  assumes "is_po2 page" "vm_maps call" "hp_map call n page = Some r"
  shows "unat (hr_size r) = round_up (unat n) (unat page)" "hr_align r = page" "hr_ptr r \<noteq> 0" "hr_ptr r = call (hr_size r)"
    "hr_size r \<noteq> 0"
proof -
  have r: "hr_size r = hp_rounded n page" "hr_align r = page" "hr_ptr r \<noteq> 0" "hr_ptr r = call (hp_rounded n page)"
    using assms(3) by (auto simp: hp_map_def Let_def split: if_splits)
  then have nz: "hp_rounded n page \<noteq> 0" using assms(2) by (auto simp: vm_maps_def)
  then have "unat n + unat page \<le> 2 ^ 64" using hp_rounded_cases(2) [OF assms(1), of n] by (meson linorder_not_less)
  from hp_rounded_cases(1) [OF assms(1) this] nz show "unat (hr_size r) = round_up (unat n) (unat page)" "hr_align r = page" "hr_ptr r \<noteq> 0" "hr_ptr r = call (hr_size r)"
    "hr_size r \<noteq> 0"
    using r by simp_all
qed

lemma huge_page_alloc_cases:
  assumes "huge_page_alloc api n h = (r, h')"
  shows "r = no_region \<and> h' = h \<or>
    (\<exists>call page. (call = vm_huge api \<and> page = hp_huge_page api \<and> page \<noteq> 0 \<or> call = vm_plain api \<and> page = hp_page api) \<and>
      hp_map call n page = Some r \<and> h' = heap_new (hr_ptr r) (hr_size r) h)"
  using assms by (auto simp: huge_page_alloc_def Let_def split: if_splits option.splits)

section \<open>Reading the page size\<close>

text \<open>Decimal notation, as the kernel writes it.\<close>

function decimal :: "nat \<Rightarrow> string" where
  "decimal n = (if n < 10 then [char_of (48 + n)] else decimal (n div 10) @ [char_of (48 + n mod 10)])"
  by pat_completeness auto
termination by (relation "measure id") auto

declare decimal.simps [simp del]

lemma digits_value_append: "digits_value v (cs @ ds) = digits_value (digits_value v cs) ds"
  by (induction cs arbitrary: v) simp_all

lemma digit_char:
  assumes "(d :: nat) < 10"
  shows "of_char (char_of (48 + d) :: char) = 48 + d" "is_digit (char_of (48 + d))" "\<not> is_space (char_of (48 + d))"
    "char_of (48 + d) \<noteq> CHR ''-''" "char_of (48 + d) \<noteq> CHR ''+''"
proof -
  show c: "of_char (char_of (48 + d) :: char) = 48 + d" using assms by simp
  have n: "(of_char (char_of (48 + d) :: char) :: nat) = 48 + d" using assms by simp
  show "is_digit (char_of (48 + d))" "\<not> is_space (char_of (48 + d))"
    unfolding is_digit_def is_space_def n using assms by simp_all
  have "char_of (48 + d) \<noteq> c" if "(of_char c :: nat) < 48" for c :: char
    using n that by (metis not_add_less1)
  then show "char_of (48 + d) \<noteq> CHR ''-''" "char_of (48 + d) \<noteq> CHR ''+''" by simp_all
qed

lemma decimal_digits: "list_all is_digit (decimal n) \<and> digits_value 0 (decimal n) = n \<and>
    (\<exists>(d :: nat) ds. d < 10 \<and> decimal n = char_of (48 + d) # ds)"
proof (induction n rule: decimal.induct)
  case (1 n)
  show ?case
  proof (cases "n < 10")
    case True
    then show ?thesis using digit_char [OF True] by (subst (1 2 3) decimal.simps) auto
  next
    case False
    have d: "n mod 10 < 10" by simp
    show ?thesis using 1 [OF False] False digit_char [OF d]
      by (subst (1 2 3) decimal.simps) (auto simp: digits_value_append)
  qed
qed

lemma scan_size_decimal:
  assumes "n < 2 ^ 64" "list_all is_space blanks"
  shows "scan_size (''Hugepagesize:'' @ blanks @ decimal n @ '' kB'' @ rest) = Some (of_nat n)"
proof -
  let ?line = "''Hugepagesize:'' @ blanks @ decimal n @ '' kB'' @ rest"
  note D = decimal_digits [of n]
  obtain d :: nat and ds where d: "d < 10" "decimal n = char_of (48 + d) # ds" using D by blast
  have "\<forall>c \<in> set blanks. is_space c" using assms(2) by (simp add: list_all_iff)
  then have s: "dropWhile is_space (blanks @ decimal n @ '' kB'' @ rest) = decimal n @ '' kB'' @ rest"
    using digit_char(3) [OF d(1)] by (simp add: dropWhile_append2 d(2))
  have sg: "scan_sign (decimal n @ '' kB'' @ rest) = (False, decimal n @ '' kB'' @ rest)"
    using digit_char(4,5) [OF d(1)] by (simp add: d(2))
  have "\<not> is_digit (CHR '' '')" by (simp add: is_digit_def)
  moreover have "\<forall>c \<in> set (decimal n). is_digit c" using D by (simp add: list_all_iff)
  ultimately have t: "takeWhile is_digit (decimal n @ '' kB'' @ rest) = decimal n"
    by (subst takeWhile_append2) simp_all
  have p: "take 13 ?line = ''Hugepagesize:''" "drop 13 ?line = blanks @ decimal n @ '' kB'' @ rest" by simp_all
  have "\<not> 2 ^ 64 \<le> n" "decimal n \<noteq> []" using assms(1) d(2) by simp_all
  then show ?thesis unfolding scan_size_def p s sg Let_def prod.case t using D by simp
qed

section \<open>Properties\<close>

text \<open>
  C38. A region that is returned is large enough, for every requested size: its size is the
  request rounded up to the page size it reports, and never less, also when the rounding
  wraps around. The only condition is that page sizes are powers of two and that nothing is
  mapped for a size of 0. Otherwise, and always on other platforms, the region is empty.
\<close>

theorem huge_page_alloc_is_large_enough:
  assumes "hp_huge_page api = 0 \<or> is_po2 (hp_huge_page api)" "is_po2 (hp_page api)"
    and "vm_maps (vm_huge api)" "vm_maps (vm_plain api)" "huge_page_alloc api n h = (r, h')"
  shows "(r = no_region \<and> h' = h) \<or>
    (hr_ptr r \<noteq> 0 \<and> n \<le> hr_size r \<and> unat (hr_size r) < unat n + unat (hr_align r) \<and>
      unat (hr_align r) dvd unat (hr_size r) \<and> hr_align r \<in> {hp_huge_page api, hp_page api} \<and> vm_platform api \<noteq> Elsewhere)"
proof -
  consider "r = no_region \<and> h' = h" | call page where "call = vm_huge api \<and> page = hp_huge_page api \<and> page \<noteq> 0 \<or> call = vm_plain api \<and> page = hp_page api"
    "hp_map call n page = Some r" using huge_page_alloc_cases [OF assms(5)] by blast
  then show ?thesis
  proof cases
    case (2 call page)
    then have po2: "is_po2 page" "vm_maps call" using assms(1-4) by auto
    note m = hp_map_size [OF po2 2(2)]
    note p = is_po2_pos [OF po2(1)]
    have "vm_platform api \<noteq> Elsewhere"
      using assms(5) m(3) by (auto simp: huge_page_alloc_def Let_def no_region_def split: if_splits)
    then show ?thesis using m 2(1) round_up_ge [OF p, of "unat n"] round_up_less [OF p, of "unat n"]
      by (auto simp: word_le_nat_alt)
  qed simp
qed

definition vm_demo :: vm_api where
  "vm_demo = \<lparr>vm_platform = Linux, vm_meminfo = Some [''MemTotal:  100 kB'', ''Hugepagesize:    2048 kB''], vm_sysconf_page = 4096,
     vm_large_minimum = 0, vm_system_page = 0, vm_huge = \<lambda>_. 0, vm_plain = \<lambda>n. if n = 0 then 0 else 65536\<rparr>"

lemma vm_demo_pages: "hp_huge_page vm_demo = 2097152" "hp_page vm_demo = 4096"
proof -
  have "scan_size ''MemTotal:  100 kB'' = None" by (simp add: scan_size_def)
  moreover have "scan_size ''Hugepagesize:    2048 kB'' = Some 2048"
    by (simp add: scan_size_def is_space_def is_digit_def)
  ultimately show "hp_huge_page vm_demo = 2097152"
    by (simp add: hp_huge_page_def vm_demo_def linux_huge_page_size_bytes_def Let_def)
  show "hp_page vm_demo = 4096" by (simp add: hp_page_def vm_demo_def)
qed

lemma vm_demo_alloc: "huge_page_alloc vm_demo 5000 h = (\<lparr>hr_ptr = 65536, hr_size = 8192, hr_align = 4096\<rparr>, heap_new 65536 8192 h)"
proof -
  have "hp_map (vm_huge vm_demo) 5000 2097152 = None" by (simp add: hp_map_def vm_demo_def)
  moreover have "hp_rounded 5000 4096 = 8192" by (simp add: hp_rounded_def)
  ultimately show ?thesis
    unfolding huge_page_alloc_def vm_demo_pages by (simp add: hp_map_def vm_demo_def)
qed

theorem huge_page_alloc_is_large_enough_witness:
  "(5000 :: usize) \<le> hr_size (fst (huge_page_alloc vm_demo 5000 (\<lambda>_. None)))"
proof -
  have "is_po2 2097152" "is_po2 4096" using is_po2_power [of 21] is_po2_power [of 12] by simp_all
  moreover have "vm_maps (vm_huge vm_demo)" "vm_maps (vm_plain vm_demo)" by (simp_all add: vm_maps_def vm_demo_def)
  ultimately have "\<lparr>hr_ptr = 65536, hr_size = 8192, hr_align = 4096\<rparr> = no_region \<or> (5000 :: usize) \<le> 8192"
    using huge_page_alloc_is_large_enough [OF _ _ _ _ vm_demo_alloc [of "\<lambda>_. None"]] by (auto simp: vm_demo_pages)
  then show ?thesis by (simp add: vm_demo_alloc no_region_def)
qed

text \<open>
  Releasing a region restores the address space, also when the allocation failed:
  releasing the empty region has no effect.
\<close>

theorem huge_page_alloc_free_roundtrip:
  assumes "hp_huge_page api = 0 \<or> is_po2 (hp_huge_page api)" "is_po2 (hp_page api)"
    and "vm_maps (vm_huge api)" "vm_maps (vm_plain api)" "huge_page_alloc api n h = (r, h')"
    and "fresh_block (hr_ptr r) (hr_size r) h"
  shows "huge_page_free api r h' = Some h \<and> huge_page_free api no_region h = Some h"
proof -
  have none: "huge_page_free api no_region h = Some h"
    by (simp add: huge_page_free_def no_region_def split: platform.split)
  consider "r = no_region \<and> h' = h" | call page where "call = vm_huge api \<and> page = hp_huge_page api \<and> page \<noteq> 0 \<or> call = vm_plain api \<and> page = hp_page api"
    "hp_map call n page = Some r" "h' = heap_new (hr_ptr r) (hr_size r) h" using huge_page_alloc_cases [OF assms(5)] by blast
  then show ?thesis
  proof cases
    case (2 call page)
    then have po2: "is_po2 page" "vm_maps call" using assms(1-4) by auto
    note m = hp_map_size [OF po2 2(2)]
    have "vm_platform api \<noteq> Elsewhere"
      using assms(5) m(3) by (auto simp: huge_page_alloc_def Let_def no_region_def split: if_splits)
    then have "huge_page_free api r h' = Some h"
      using m(3,5) 2(3) heap_delete_new [OF assms(6)]
      by (cases "vm_platform api") (simp_all add: huge_page_free_def heap_new_def)
    then show ?thesis using none by simp
  qed (use none in simp)
qed

theorem huge_page_alloc_free_roundtrip_witness:
  "huge_page_free vm_demo \<lparr>hr_ptr = 65536, hr_size = 8192, hr_align = 4096\<rparr> (heap_new 65536 8192 (\<lambda>_. None)) = Some (\<lambda>_. None)"
proof -
  have "is_po2 2097152" "is_po2 4096" using is_po2_power [of 21] is_po2_power [of 12] by simp_all
  moreover have "vm_maps (vm_huge vm_demo)" "vm_maps (vm_plain vm_demo)" by (simp_all add: vm_maps_def vm_demo_def)
  ultimately show ?thesis
    using huge_page_alloc_free_roundtrip [OF _ _ _ _ vm_demo_alloc [of "\<lambda>_. None"]] by (simp add: vm_demo_pages fresh_block_def)
qed

text \<open>
  The huge page size that Linux reports is read back: from the first line of
  \<open>/proc/meminfo\<close> that has it, whatever lines come before that do not start with its name,
  and whatever comes after.
\<close>

theorem huge_page_size_is_read:
  assumes "n < 2 ^ 54" "0 < n" "list_all is_space blanks" "\<forall>l \<in> set before. take 13 l \<noteq> ''Hugepagesize:''"
  shows "unat (linux_huge_page_size_bytes
    (Some (before @ (''Hugepagesize:'' @ blanks @ decimal n @ '' kB'' @ rest) # after))) = n * 1024"
proof -
  have "n < 2 ^ 64" using assms(1) by simp
  note s = scan_size_decimal [OF this assms(3), of rest]
  have "meminfo_kb (before @ (''Hugepagesize:'' @ blanks @ decimal n @ '' kB'' @ rest) # after) = of_nat n"
    using assms(4)
  proof (induction before)
    case Nil
    then show ?case using s by (simp only: append_Nil meminfo_kb.simps option.case)
  next
    case (Cons l ls)
    then show ?case by (simp add: scan_size_def)
  qed
  moreover have u: "unat (of_nat n :: usize) = n" using \<open>n < 2 ^ 64\<close> by (rule unat_of_nat_usize)
  moreover have "(of_nat n :: usize) \<noteq> 0" using u assms(2) by auto
  moreover have "unat ((of_nat n :: usize) * 1024) = n * 1024"
    using assms(1) by (simp add: unat_word_ariths u)
  ultimately show ?thesis by (simp add: linux_huge_page_size_bytes_def Let_def)
qed

theorem huge_page_size_is_read_witness:
  "unat (linux_huge_page_size_bytes
    (Some ([''HugePages_Free:    0''] @ (''Hugepagesize:'' @ '' '' @ decimal 2048 @ '' kB'' @ []) # [''Hugetlb: 0 kB'']))) = 2097152"
  using huge_page_size_is_read [of 2048 "'' ''" "[''HugePages_Free:    0'']" "[]" "[''Hugetlb: 0 kB'']"]
  by (simp add: is_space_def)

end
