(* ===== verification/Spec2Isabelle.thy ===== *)
theory Spec2Isabelle
  imports FixedPrograms SpscReleaseAcquire DynamicQueue VectorIterators DequeIterators MpmcReleaseAcquire
    MpmcThrowing SpinlockReleaseAcquire
    Arena Pool ShmProcesses ShmPublisher ThrowingCopies Platform
begin

text \<open>
  A verification development for \<open>cpp-hpc-primitives\<close>, a C++ library of containers, ring
  buffers, a lock and allocators for programs in which latency matters. This theory imports
  all others and says what they model and show.

  \<^bold>\<open>The program and its parts.\<close>
  Under \<open>include/hpc/core\<close> there are containers (\<open>fixed_stack\<close>, \<open>fixed_queue\<close>, \<open>queue\<close>,
  \<open>vector\<close>, \<open>deque\<close>), ring buffers between threads (\<open>spsc_ring_buffer\<close> for one producer and
  one consumer, \<open>mpmc_ring_buffer\<close> for any number), a spinlock (\<open>ttas_spinlock\<close>) and
  allocators (\<open>arena\<close>, \<open>fixed_pool\<close>, their NUMA variants, and the adapters
  \<open>arena_allocator\<close> and \<open>pool_allocator\<close>); under \<open>include/hpc/ipc\<close> a ring in shared memory
  between processes; under \<open>include/hpc/support\<close> huge pages and pinning of threads. The parts
  are mostly independent: the containers share circular indices and power-of-two capacities,
  \<open>numa_arena\<close> owns an \<open>arena\<close>, \<open>numa_pool\<close> owns a \<open>fixed_pool\<close> and a \<open>numa_arena\<close>, the
  adapters refer to an arena or a pool, the shared ring owns a \<open>shm_region\<close>, and
  \<open>examples/shm_publisher.cpp\<close> is a program around the shared ring.

  \<^bold>\<open>Conventions.\<close>
  \<open>HpcPrelude\<close> has the vocabulary. \<open>std::size_t\<close> is the 64-bit word \<open>usize\<close>, so that all
  arithmetic wraps as in the code. A buffer of raw storage is a list of slots that hold a
  live object or raw bytes; construction, destruction, moves and \<open>memcpy\<close> act on slots. An
  operation that could be undefined behaviour (reading a raw slot, destroying one,
  constructing over a live object with a destructor, leaking live objects, leaving a buffer,
  dereferencing null, dividing by zero) or that could fail to end returns an option and is
  \<open>None\<close> there, and every invariant is shown to exclude \<open>None\<close>. An exception is a value
  \<open>Inl e\<close> of the result. The template parameter \<open>T\<close> is the record \<open>elem_type\<close> (trivially
  copyable or not, and what a moved-from object holds), with its size \<open>sz\<close> where the code uses
  \<open>sizeof\<close>. Functions with overloads for lvalues and rvalues have two definitions; the one for
  rvalues also returns the moved-from argument. What is outside the program is a parameter:
  the outcome of \<open>operator new\<close> (\<open>nw\<close>, \<open>mem\<close>, or the address returned), of system calls and of
  libnuma, readings of the clock, and signals. Allocations may fail in any pattern.

  \<^bold>\<open>Theories and code.\<close>
  \<^item> \<open>HpcInterfaces\<close>, \<open>Traversal\<close>: the contracts, as locales over abstract states: queues,
    stacks, arrays that grow at the back, transition systems, ranges of iterators. Their
    lemmas (refinement of a list machine over all sequences of operations, batches, draining,
    histories with failing allocations, loops over a range in both directions) are proved once
    and reach the components through interpretations. \<open>Blocks\<close> does the same for allocators,
    whose states are blocks of a flat address space.
  \<^item> \<open>PowerOfTwo\<close>: the three routines that round a capacity up, in \<open>queue.hpp\<close>,
    \<open>dynamic_queue.hpp\<close> and \<open>ring_buffer.hpp\<close>. \<open>CircularBuffer\<close>: indices modulo a power of two
    and the loops that walk a circular buffer.
  \<^item> \<open>FixedStack\<close> (\<open>stack.hpp\<close>), \<open>FixedQueue\<close> (\<open>queue.hpp\<close>), \<open>DynamicQueue\<close>
    (\<open>dynamic_queue.hpp\<close>), \<open>Vector\<close> and \<open>VectorIterators\<close> (\<open>vector.hpp\<close>), \<open>Deque\<close> and
    \<open>DequeIterators\<close> (\<open>deque.hpp\<close>), over the buffers of \<open>HeapBuffers\<close>: one record per class with
    its data members, one definition per operation with the prefix \<open>fs_\<close>, \<open>fq_\<close>, \<open>dq_\<close>,
    \<open>vec_\<close>, \<open>de_\<close> or \<open>iter_\<close>. A predicate \<open>_rep\<close> relates a state to the list it holds, \<open>_inv\<close> is
    the invariant, \<open>_contents\<close> or \<open>_list\<close> the list. The lemmas named \<open>_rep\<close> say what each
    operation does to the list on each branch.
  \<^item> \<open>FixedPrograms\<close>: programs over any number of fixed stacks or fixed queues that also copy,
    move, swap and compare them, an object and itself included.
  \<^item> \<open>ThrowingElements\<close>: pushing a copy of an element whose copy constructor may throw, for
    all these containers and the single-producer ring. \<open>ThrowingCopies\<close>: copy construction and
    copy assignment of all containers, and \<open>insert\<close>, \<open>resize\<close> and \<open>assign\<close> of
    \<open>vector\<close>, with such elements. \<open>MpmcThrowing\<close>: the ring for many threads with elements
    whose constructors throw.
  \<^item> \<open>SpscRing\<close> (\<open>ring_buffer.hpp\<close>): the operations of each side as one step, with storage that
    is asked for and addressed in bytes. \<open>SpscConcurrent\<close>:
    the two sides at once, one access to an index or to a slot a step, under sequential
    consistency.
  \<^item> \<open>MpmcRing\<close> (\<open>mpmc_ring_buffer.hpp\<close>), \<open>Spinlock\<close> (\<open>ttas_spinlock.hpp\<close>): any number of
    threads, one atomic access a step, under sequential consistency; the program counter of a
    thread carries its local variables, and an inductive predicate gives all interleavings.
  \<^item> \<open>ReleaseAcquire\<close>: memory with relaxed, acquire and release accesses and data races: the
    values of each atomic in the order in which they were stored, and a view for each thread
    and each value. \<open>SpscReleaseAcquire\<close>, \<open>MpmcReleaseAcquire\<close> and \<open>SpinlockReleaseAcquire\<close> run
    the steps of the three components over it with the memory orders of the code. The newest
    values of a ring form a state of its sequentially consistent model, whose invariant
    carries over; for the ring for many threads the runs of that model are runs of the weak
    one (\<open>mp_run_weak\<close>).
  \<^item> \<open>Arena\<close> (\<open>arena_allocator.hpp\<close>, \<open>arena_allocator.cpp\<close>, \<open>numa_arena.hpp\<close>,
    \<open>numa_arena.cpp\<close>), \<open>Pool\<close> (\<open>pool_allocator.hpp\<close>, \<open>pool_allocator.cpp\<close>, \<open>numa_pool.hpp\<close>):
    the bump allocator, the free list threaded through the free blocks, clients that write to
    the blocks they hold, and the heap from which the buffers come.
  \<^item> \<open>ShmRing\<close> (\<open>shm_ring_buffer.hpp\<close>, \<open>shm_ring_buffer.cpp\<close>): the region with names, objects,
    descriptors and mappings of the operating system, and the ring, one operation a step.
    \<open>ShmProcesses\<close>: several processes on one ring, one access to its plain fields and slots a
    step; accesses are ordered by a happens-before relation, and a step that would be a data race
    is not defined. \<open>ShmPublisher\<close>: the program of \<open>examples/shm_publisher.cpp\<close>, composed from
    that ring, with a parameter for what other processes take from it while it sleeps.
  \<^item> \<open>Platform\<close>: huge pages (\<open>huge_pages.cpp\<close>) with the reading of \<open>/proc/meminfo\<close>, and
    \<open>pin_thread_to_core\<close>.

  \<^bold>\<open>What is shown.\<close>
  \<^item> Containers refine lists: for every sequence of operations (and, on the heap, every
    pattern of failing allocations) the results are those of a list, no step is undefined, no
    object leaks or is destroyed twice, and an operation that throws because an allocation
    fails leaves the contents as they were. Deques in addition keep elements where they are;
    iterators behave as indices.
  \<^item> Elements whose constructors throw: for each operation which elements are copied before the
    exception, where the guarantee is strong, and where objects are left that nothing
    destroys or slots that are destroyed without an object. In the ring for many threads one
    such exception stops the ring for good.
  \<^item> Rings: under every interleaving no access faults, elements arrive in order and once, two
    threads never work on one slot, also under the memory orders of the code with every stale
    load, where no access to an element is a data race; under sequential consistency a
    failed operation is justified by the state, and in the ring for many threads a thread
    that runs alone finishes. The full test of the single-producer ring holds only with the
    head at slot 0, so its theorems are about producers that push while there is room, and
    the loss that a push to a full buffer causes is a theorem of its own; so are the capacities
    whose size in bytes wraps around.
  \<^item> Lock: mutual exclusion and no race on the data under the lock, with the memory orders of
    the code, and acquisition within \<open>2^16 + 3\<close> steps of
    a thread that runs alone on a free lock; \<open>2^16\<close> is the bound of the backoff.
  \<^item> Allocators: blocks handed out are disjoint, aligned and within the buffer under every
    history; memory is given back exactly once; what wraps around is stated.
  \<^item> Shared memory: the ring as a bounded queue of \<open>capacity() - 1\<close> elements when one process at
    a time uses it (\<open>shm_ring_turns\<close>: processes that synchronise at each change of turn), the data
    race that any use by two processes without such synchronisation leads to
    (\<open>shm_ring_data_race\<close>), its life cycle on every failure path, and the edges where the size
    computation wraps.

  \<^bold>\<open>Bounds and termination.\<close>
  No definition uses fuel. Loops over an index are recursive functions with a measure on the
  64-bit counter (\<open>for_range\<close>, \<open>for_down\<close>, \<open>try_range\<close>); a loop that may not end is
  \<open>while_option\<close> or a \<open>partial_function\<close>, and its theorems say that it returns, or, for
  \<open>vector::resize\<close> beyond \<open>2^63\<close> elements, that it does not. Capacities and sizes in bytes are
  below \<open>2^63\<close>: \<open>new_limit\<close> says that no larger request to \<open>operator new\<close> succeeds, and
  \<open>sizeof_ok\<close> that an object takes between one and \<open>2^48\<close> bytes. In the deque, whose positions
  are natural numbers, counts of chunks and the size of the map wrap as in the code
  (\<open>size_wrap\<close>, \<open>size_minus\<close>); its chunks have numbers below \<open>2^55\<close> (\<open>chunk_fits\<close>: chunks of more
  than 256 bytes below the address \<open>2^63\<close>). The ring for many threads has counters of 64 bits that
  wrap around; its theorems hold for the first \<open>2^62\<close> pushes.

  \<^bold>\<open>Not modelled.\<close>
  \<^item> Memory orders beyond the following. Loads return values already stored (no load is reordered
    after a later store), and a store goes to the end of the modification order; the
    theorems show that its thread has seen the newest value, so that no other place is
    possible. Liveness and the meaning of failures are stated under sequential consistency.
    What the plain accesses of the shared ring do when they race is not modelled: C++ gives
    them no meaning.
  \<^item> Exceptions of moves, comparisons and assignments of elements, of constructors in the
    \<open>emplace\<close> operations of the containers, and of copies in construction from lists and
    ranges and in the bulk operations of \<open>deque\<close>. Outside
    \<open>ThrowingElements\<close>, \<open>ThrowingCopies\<close> and \<open>MpmcThrowing\<close> constructors do not throw.
  \<^item> The bytes within an object: alignment and padding matter only where the code computes
    with them (arenas, pools, the header of the shared ring); \<open>memcmp\<close> of trivially copyable
    elements is a parameter.
  \<^item> Code without state or logic: \<open>clock.hpp\<close> and \<open>clock.cpp\<close> forward to \<open>std::chrono\<close>,
    \<open>cache_line.hpp\<close> has a constant and prefetch hints, \<open>noncopyable.hpp\<close> deletes copies.
    Tests, benchmarks, build files and \<open>shm_subscriber.py\<close> are clients or tools of the library.
\<close>

end
